(* ===== verification/Dbc_Prelude.thy ===== *)
theory Dbc_Prelude
  imports Main "HOL-Library.Word" "HOL-Library.Monad_Syntax"
begin

text \<open>
  Prelude of the development: the theorem collections, congruence modulo an integer
  (\<open>eqm\<close>), a bounded primality test, and facts on the option monad that every
  component uses. Nothing here models code; the components do.
\<close>

section \<open>Collections\<close>

named_theorems eqm_intros \<open>introduction rules that push a congruence through an expression\<close>
named_theorems eqm_simps \<open>simplification of congruences over reduced terms\<close>
named_theorems step_simps \<open>executing one step of a modelled routine\<close>

section \<open>Congruence modulo an integer\<close>

definition eqm :: "int \<Rightarrow> int \<Rightarrow> int \<Rightarrow> bool" where
  "eqm m a b \<longleftrightarrow> a mod m = b mod m"

lemma eqm_refl [simp, eqm_intros]: "eqm m a a"
  by (simp add: eqm_def)

lemma eqm_sym: "eqm m a b \<Longrightarrow> eqm m b a"
  by (simp add: eqm_def)

lemma eqm_trans [trans]: "eqm m a b \<Longrightarrow> eqm m b c \<Longrightarrow> eqm m a c"
  by (simp add: eqm_def)

lemma eqm_eq_trans [trans]: "eqm m a b \<Longrightarrow> b = c \<Longrightarrow> eqm m a c"
  by simp

lemma eq_eqm_trans [trans]: "a = b \<Longrightarrow> eqm m b c \<Longrightarrow> eqm m a c"
  by simp

lemma eqm_dvd: "eqm m a b \<longleftrightarrow> m dvd a - b"
  by (simp add: eqm_def mod_eq_dvd_iff)

lemma eqm_add [eqm_intros]: "eqm m a a' \<Longrightarrow> eqm m b b' \<Longrightarrow> eqm m (a + b) (a' + b')"
  unfolding eqm_def by (rule mod_add_cong)

lemma eqm_diff [eqm_intros]: "eqm m a a' \<Longrightarrow> eqm m b b' \<Longrightarrow> eqm m (a - b) (a' - b')"
  unfolding eqm_def by (rule mod_diff_cong)

lemma eqm_mult [eqm_intros]: "eqm m a a' \<Longrightarrow> eqm m b b' \<Longrightarrow> eqm m (a * b) (a' * b')"
  unfolding eqm_def by (rule mod_mult_cong)

lemma eqm_minus [eqm_intros]: "eqm m a a' \<Longrightarrow> eqm m (- a) (- a')"
  unfolding eqm_def by (metis mod_minus_eq)

lemma eqm_power [eqm_intros]: "eqm m a b \<Longrightarrow> eqm m (a ^ n) (b ^ n)"
  by (simp add: eqm_def) (metis power_mod)

lemma eqm_mod_left [eqm_simps]: "eqm m (a mod m) b \<longleftrightarrow> eqm m a b"
  by (simp add: eqm_def)

lemma eqm_mod_right [eqm_simps]: "eqm m a (b mod m) \<longleftrightarrow> eqm m a b"
  by (simp add: eqm_def)

lemma eqm_add_modulus [eqm_simps]:
  "eqm m (a + m) b \<longleftrightarrow> eqm m a b" "eqm m (a - m) b \<longleftrightarrow> eqm m a b"
  by (simp_all add: eqm_def)

lemma eqm_0: "eqm m a 0 \<longleftrightarrow> m dvd a"
  by (simp add: eqm_dvd)

lemma eqm_diff_0: "eqm m (a - b) 0 \<longleftrightarrow> eqm m a b"
  by (simp add: eqm_dvd)

lemma eqm_small_eq:
  assumes "eqm m a b" "0 \<le> a" "a < m" "0 \<le> b" "b < m"
  shows "a = b"
  using assms by (simp add: eqm_def)

lemma eqm_mod_eq: "eqm m a b \<Longrightarrow> a mod m = b mod m"
  by (simp add: eqm_def)

section \<open>Primes, by bounded search\<close>

definition prime_int :: "int \<Rightarrow> bool" where
  "prime_int p \<longleftrightarrow> 1 < p \<and> (\<forall>d \<in> {2..p - 1}. p mod d \<noteq> 0)"

lemma prime_int_gt_1: "prime_int p \<Longrightarrow> 1 < p"
  by (simp add: prime_int_def)

lemma prime_int_divisor:
  assumes "prime_int p" "0 \<le> d" "d dvd p"
  shows "d = 1 \<or> d = p"
proof (rule ccontr)
  assume no: "\<not> (d = 1 \<or> d = p)"
  from assms have p: "1 < p" and "d \<le> p"
    by (auto simp: prime_int_def dest: zdvd_imp_le)
  moreover from assms(3) p have "d \<noteq> 0" by auto
  ultimately have "d \<in> {2..p - 1}" using no assms(2) by auto
  with assms(1,3) show False
    by (auto simp: prime_int_def dvd_eq_mod_eq_0)
qed

lemma prime_int_coprime: "prime_int p \<Longrightarrow> \<not> p dvd a \<Longrightarrow> coprime p a"
  using prime_int_divisor [of p "gcd p a"]
  by (metis coprime_iff_gcd_eq_1 gcd_dvd1 gcd_dvd2 gcd_ge_0_int)

lemma prime_int_dvd_mult: "prime_int p \<Longrightarrow> p dvd a * b \<longleftrightarrow> p dvd a \<or> p dvd b"
  using prime_int_coprime [of p a] coprime_dvd_mult_right_iff [of p a b] by auto

lemma prime_int_dvd_power: "prime_int p \<Longrightarrow> p dvd a ^ n \<Longrightarrow> p dvd a"
  by (induction n) (auto simp: prime_int_dvd_mult dest: prime_int_gt_1)

lemma eqm_cancel:
  assumes "prime_int p" "\<not> p dvd c" "eqm p (c * a) (c * b)"
  shows "eqm p a b"
proof -
  from assms(3) have "p dvd c * (a - b)"
    by (simp add: eqm_dvd right_diff_distrib)
  with assms(1,2) show ?thesis
    by (simp add: eqm_dvd prime_int_dvd_mult)
qed

lemma prime_int_not_dvd_small:
  "prime_int p \<Longrightarrow> 0 < c \<Longrightarrow> c < p \<Longrightarrow> \<not> p dvd c"
  using zdvd_not_zless by auto

text \<open>Fermat's little theorem, by multiplying all residues with \<open>a\<close>.\<close>

lemma eqm_prod: "finite S \<Longrightarrow> (\<And>i. i \<in> S \<Longrightarrow> eqm m (f i) (g i)) \<Longrightarrow> eqm m (prod f S) (prod g S)"
  by (induction S rule: finite_induct) (auto intro: eqm_mult)

lemma fermat:
  assumes "prime_int p" "\<not> p dvd a"
  shows "eqm p (a ^ nat (p - 1)) 1"
proof -
  have p: "1 < p" using assms(1) by (rule prime_int_gt_1)
  let ?S = "{1..p - 1}" and ?f = "\<lambda>i. (a * i) mod p"
  have nd: "\<not> p dvd i" if "i \<in> ?S" for i
    using that prime_int_not_dvd_small [OF assms(1), of i] by auto
  have sub: "?f ` ?S \<subseteq> ?S"
  proof
    fix j assume "j \<in> ?f ` ?S"
    then obtain i where i: "i \<in> ?S" "j = ?f i" by blast
    have "\<not> p dvd a * i" using nd [OF i(1)] assms by (simp add: prime_int_dvd_mult)
    then have "j \<noteq> 0" using i(2) by (simp add: dvd_eq_mod_eq_0)
    moreover have "0 \<le> j" "j < p" using i(2) p by simp_all
    ultimately show "j \<in> ?S" by simp
  qed
  have inj: "inj_on ?f ?S"
  proof (rule inj_onI)
    fix i j assume i: "i \<in> ?S" and j: "j \<in> ?S" and "?f i = ?f j"
    then have "eqm p (a * i) (a * j)" by (simp add: eqm_def)
    then have "eqm p i j" by (rule eqm_cancel [OF assms])
    with i j show "i = j" by (auto intro: eqm_small_eq)
  qed
  have img: "?f ` ?S = ?S" by (rule endo_inj_surj) (use sub inj in auto)
  have ndP: "\<not> p dvd \<Prod>?S"
  proof -
    have "finite T \<Longrightarrow> T \<subseteq> ?S \<Longrightarrow> \<not> p dvd \<Prod>T" for T
    proof (induction T rule: finite_induct)
      case (insert x F)
      then show ?case using nd [of x] by (simp add: prime_int_dvd_mult [OF assms(1)])
    qed (use p in auto)
    then show ?thesis by blast
  qed
  have "eqm p (a ^ card ?S * \<Prod>?S) (\<Prod>i\<in>?S. a * i)" by (simp add: prod.distrib)
  also have "eqm p (\<Prod>i\<in>?S. a * i) (prod ?f ?S)" by (rule eqm_prod) (simp_all add: eqm_def)
  also have "prod ?f ?S = \<Prod>(?f ` ?S)" by (simp add: prod.reindex [OF inj])
  also have "\<dots> = \<Prod>?S" unfolding img ..
  finally have "eqm p (\<Prod>?S * a ^ nat (p - 1)) (\<Prod>?S * 1)" by (simp add: mult.commute)
  then show ?thesis by (rule eqm_cancel [OF assms(1) ndP])
qed

lemma fermat_inverse:
  assumes "prime_int p" "\<not> p dvd a"
  shows "eqm p (a ^ nat (p - 2) * a) 1"
proof -
  have "1 < p" using assms(1) by (rule prime_int_gt_1)
  then have "nat (p - 1) = Suc (nat (p - 2))" by simp
  with fermat [OF assms] show ?thesis by (simp add: mult.commute)
qed

section \<open>Options\<close>

lemma bind_eq_Some_conv':
  "Option.bind x f = Some y \<longleftrightarrow> (\<exists>z. x = Some z \<and> f z = Some y)"
  by (cases x) auto

text \<open>\<open>returns m Q\<close>: the computation \<open>m\<close> returns a value and the value satisfies \<open>Q\<close>.\<close>

definition returns :: "'a option \<Rightarrow> ('a \<Rightarrow> bool) \<Rightarrow> bool" where
  "returns m Q \<longleftrightarrow> (case m of None \<Rightarrow> False | Some v \<Rightarrow> Q v)"

lemma returns_Some [simp]: "returns (Some v) Q = Q v"
  by (simp add: returns_def)

lemma returns_None [simp]: "returns None Q = False"
  by (simp add: returns_def)

lemma returns_bind: "returns (Option.bind m f) Q = returns m (\<lambda>v. returns (f v) Q)"
  by (cases m) simp_all

lemma returns_mono: "returns m P \<Longrightarrow> (\<And>v. P v \<Longrightarrow> Q v) \<Longrightarrow> returns m Q"
  by (cases m) simp_all

lemma returns_bindI: "returns m P \<Longrightarrow> (\<And>v. P v \<Longrightarrow> returns (f v) Q) \<Longrightarrow> returns (Option.bind m f) Q"
  by (cases m) simp_all

lemma returns_ex: "returns m Q \<longleftrightarrow> (\<exists>v. m = Some v \<and> Q v)"
  by (cases m) simp_all

end
