(* ===== verification/Ec_Method.thy ===== *)
theory Ec_Method
  imports Dbc_Prelude
begin

text \<open>
  The method tables (\<open>EC_METHOD\<close>) of the curve implementations: the slots of
  \<open>struct ec_method_st\<close> in declaration order and, per implementation, the positional
  initialiser list of its table, functions by name and \<open>''0''\<close> for a null pointer. A slot is
  looked up by position, and positions past the end of a list are null, as C initialises
  them. The struct has a slot \<open>tpl\<close> between \<open>dbl\<close> and \<open>invert\<close>; a table written for the
  struct without it has every later entry one position early, as the last lemma of this theory shows for the
  binary-field table.
\<close>

section \<open>The tables\<close>

definition ec_method_slots :: "string list" where
  "ec_method_slots = [
    ''flags'', ''field_type'', ''group_init'', ''group_finish'', ''group_clear_finish'',
    ''group_copy'', ''group_set_curve'', ''group_get_curve'', ''group_get_degree'',
    ''group_order_bits'', ''group_check_discriminant'', ''point_init'', ''point_finish'',
    ''point_clear_finish'', ''point_copy'', ''point_set_to_infinity'',
    ''point_set_affine_coordinates'', ''point_get_affine_coordinates'',
    ''point_set_compressed_coordinates'', ''point2oct'', ''oct2point'', ''add'', ''dbl'',
    ''tpl'', ''invert'', ''is_at_infinity'', ''is_on_curve'', ''point_cmp'',
    ''make_affine'', ''points_make_affine'', ''mul'', ''precompute_mult'',
    ''have_precompute_mult'', ''field_mul'', ''field_sqr'', ''field_div'', ''field_inv'',
    ''field_encode'', ''field_decode'', ''field_set_to_one'', ''priv2oct'', ''oct2priv'',
    ''set_private'', ''keygen'', ''keycheck'', ''keygenpub'', ''keycopy'', ''keyfinish'',
    ''ecdh_compute_key'', ''ecdsa_sign_setup'', ''ecdsa_sign_sig'', ''ecdsa_verify_sig'',
    ''field_inverse_mod_ord'', ''blind_coordinates'', ''ladder_pre'', ''ladder_step'',
    ''ladder_post'']"

definition EC_GFp_simple_method :: "string list" where
  "EC_GFp_simple_method = [
    ''EC_FLAGS_DEFAULT_OCT'', ''NID_X9_62_prime_field'', ''ossl_ec_GFp_simple_group_init'',
    ''ossl_ec_GFp_simple_group_finish'', ''ossl_ec_GFp_simple_group_clear_finish'',
    ''ossl_ec_GFp_simple_group_copy'', ''ossl_ec_GFp_simple_group_set_curve'',
    ''ossl_ec_GFp_simple_group_get_curve'', ''ossl_ec_GFp_simple_group_get_degree'',
    ''ossl_ec_group_simple_order_bits'', ''ossl_ec_GFp_simple_group_check_discriminant'',
    ''ossl_ec_GFp_simple_point_init'', ''ossl_ec_GFp_simple_point_finish'',
    ''ossl_ec_GFp_simple_point_clear_finish'', ''ossl_ec_GFp_simple_point_copy'',
    ''ossl_ec_GFp_simple_point_set_to_infinity'',
    ''ossl_ec_GFp_simple_point_set_affine_coordinates'',
    ''ossl_ec_GFp_simple_point_get_affine_coordinates'', ''0'', ''0'', ''0'',
    ''ossl_ec_GFp_simple_add'', ''ossl_ec_GFp_simple_dbl'', ''ossl_ec_GFp_simple_tpl'',
    ''ossl_ec_GFp_simple_invert'', ''ossl_ec_GFp_simple_is_at_infinity'',
    ''ossl_ec_GFp_simple_is_on_curve'', ''ossl_ec_GFp_simple_cmp'',
    ''ossl_ec_GFp_simple_make_affine'', ''ossl_ec_GFp_simple_points_make_affine'', ''0'',
    ''0'', ''0'', ''ossl_ec_GFp_simple_field_mul'', ''ossl_ec_GFp_simple_field_sqr'', ''0'',
    ''ossl_ec_GFp_simple_field_inv'', ''0'', ''0'', ''0'', ''ossl_ec_key_simple_priv2oct'',
    ''ossl_ec_key_simple_oct2priv'', ''0'', ''ossl_ec_key_simple_generate_key'',
    ''ossl_ec_key_simple_check_key'', ''ossl_ec_key_simple_generate_public_key'', ''0'',
    ''0'', ''ossl_ecdh_simple_compute_key'', ''ossl_ecdsa_simple_sign_setup'',
    ''ossl_ecdsa_simple_sign_sig'', ''ossl_ecdsa_simple_verify_sig'', ''0'',
    ''ossl_ec_GFp_simple_blind_coordinates'', ''ossl_ec_GFp_simple_ladder_pre'',
    ''ossl_ec_GFp_simple_ladder_step'', ''ossl_ec_GFp_simple_ladder_post'']"

definition EC_GFp_mont_method :: "string list" where
  "EC_GFp_mont_method = [
    ''EC_FLAGS_DEFAULT_OCT'', ''NID_X9_62_prime_field'', ''ossl_ec_GFp_mont_group_init'',
    ''ossl_ec_GFp_mont_group_finish'', ''ossl_ec_GFp_mont_group_clear_finish'',
    ''ossl_ec_GFp_mont_group_copy'', ''ossl_ec_GFp_mont_group_set_curve'',
    ''ossl_ec_GFp_simple_group_get_curve'', ''ossl_ec_GFp_simple_group_get_degree'',
    ''ossl_ec_group_simple_order_bits'', ''ossl_ec_GFp_simple_group_check_discriminant'',
    ''ossl_ec_GFp_simple_point_init'', ''ossl_ec_GFp_simple_point_finish'',
    ''ossl_ec_GFp_simple_point_clear_finish'', ''ossl_ec_GFp_simple_point_copy'',
    ''ossl_ec_GFp_simple_point_set_to_infinity'',
    ''ossl_ec_GFp_simple_point_set_affine_coordinates'',
    ''ossl_ec_GFp_simple_point_get_affine_coordinates'', ''0'', ''0'', ''0'',
    ''ossl_ec_GFp_simple_add'', ''ossl_ec_GFp_simple_dbl'', ''ossl_ec_GFp_simple_tpl'',
    ''ossl_ec_GFp_simple_invert'', ''ossl_ec_GFp_simple_is_at_infinity'',
    ''ossl_ec_GFp_simple_is_on_curve'', ''ossl_ec_GFp_simple_cmp'',
    ''ossl_ec_GFp_simple_make_affine'', ''ossl_ec_GFp_simple_points_make_affine'', ''0'',
    ''0'', ''0'', ''ossl_ec_GFp_mont_field_mul'', ''ossl_ec_GFp_mont_field_sqr'', ''0'',
    ''ossl_ec_GFp_mont_field_inv'', ''ossl_ec_GFp_mont_field_encode'',
    ''ossl_ec_GFp_mont_field_decode'', ''ossl_ec_GFp_mont_field_set_to_one'',
    ''ossl_ec_key_simple_priv2oct'', ''ossl_ec_key_simple_oct2priv'', ''0'',
    ''ossl_ec_key_simple_generate_key'', ''ossl_ec_key_simple_check_key'',
    ''ossl_ec_key_simple_generate_public_key'', ''0'', ''0'',
    ''ossl_ecdh_simple_compute_key'', ''ossl_ecdsa_simple_sign_setup'',
    ''ossl_ecdsa_simple_sign_sig'', ''ossl_ecdsa_simple_verify_sig'', ''0'',
    ''ossl_ec_GFp_simple_blind_coordinates'', ''ossl_ec_GFp_simple_ladder_pre'',
    ''ossl_ec_GFp_simple_ladder_step'', ''ossl_ec_GFp_simple_ladder_post'']"

definition EC_GFp_nist_method :: "string list" where
  "EC_GFp_nist_method = [
    ''EC_FLAGS_DEFAULT_OCT'', ''NID_X9_62_prime_field'', ''ossl_ec_GFp_simple_group_init'',
    ''ossl_ec_GFp_simple_group_finish'', ''ossl_ec_GFp_simple_group_clear_finish'',
    ''ossl_ec_GFp_nist_group_copy'', ''ossl_ec_GFp_nist_group_set_curve'',
    ''ossl_ec_GFp_simple_group_get_curve'', ''ossl_ec_GFp_simple_group_get_degree'',
    ''ossl_ec_group_simple_order_bits'', ''ossl_ec_GFp_simple_group_check_discriminant'',
    ''ossl_ec_GFp_simple_point_init'', ''ossl_ec_GFp_simple_point_finish'',
    ''ossl_ec_GFp_simple_point_clear_finish'', ''ossl_ec_GFp_simple_point_copy'',
    ''ossl_ec_GFp_simple_point_set_to_infinity'',
    ''ossl_ec_GFp_simple_point_set_affine_coordinates'',
    ''ossl_ec_GFp_simple_point_get_affine_coordinates'', ''0'', ''0'', ''0'',
    ''ossl_ec_GFp_simple_add'', ''ossl_ec_GFp_simple_dbl'', ''ossl_ec_GFp_simple_tpl'',
    ''ossl_ec_GFp_simple_invert'', ''ossl_ec_GFp_simple_is_at_infinity'',
    ''ossl_ec_GFp_simple_is_on_curve'', ''ossl_ec_GFp_simple_cmp'',
    ''ossl_ec_GFp_simple_make_affine'', ''ossl_ec_GFp_simple_points_make_affine'', ''0'',
    ''0'', ''0'', ''ossl_ec_GFp_nist_field_mul'', ''ossl_ec_GFp_nist_field_sqr'', ''0'',
    ''ossl_ec_GFp_simple_field_inv'', ''0'', ''0'', ''0'', ''ossl_ec_key_simple_priv2oct'',
    ''ossl_ec_key_simple_oct2priv'', ''0'', ''ossl_ec_key_simple_generate_key'',
    ''ossl_ec_key_simple_check_key'', ''ossl_ec_key_simple_generate_public_key'', ''0'',
    ''0'', ''ossl_ecdh_simple_compute_key'', ''ossl_ecdsa_simple_sign_setup'',
    ''ossl_ecdsa_simple_sign_sig'', ''ossl_ecdsa_simple_verify_sig'', ''0'',
    ''ossl_ec_GFp_simple_blind_coordinates'', ''ossl_ec_GFp_simple_ladder_pre'',
    ''ossl_ec_GFp_simple_ladder_step'', ''ossl_ec_GFp_simple_ladder_post'']"

definition EC_GFp_nistp224_method :: "string list" where
  "EC_GFp_nistp224_method = [
    ''EC_FLAGS_DEFAULT_OCT'', ''NID_X9_62_prime_field'',
    ''ossl_ec_GFp_nistp224_group_init'', ''ossl_ec_GFp_simple_group_finish'',
    ''ossl_ec_GFp_simple_group_clear_finish'', ''ossl_ec_GFp_nist_group_copy'',
    ''ossl_ec_GFp_nistp224_group_set_curve'', ''ossl_ec_GFp_simple_group_get_curve'',
    ''ossl_ec_GFp_simple_group_get_degree'', ''ossl_ec_group_simple_order_bits'',
    ''ossl_ec_GFp_simple_group_check_discriminant'', ''ossl_ec_GFp_simple_point_init'',
    ''ossl_ec_GFp_simple_point_finish'', ''ossl_ec_GFp_simple_point_clear_finish'',
    ''ossl_ec_GFp_simple_point_copy'', ''ossl_ec_GFp_simple_point_set_to_infinity'',
    ''ossl_ec_GFp_simple_point_set_affine_coordinates'',
    ''ossl_ec_GFp_nistp224_point_get_affine_coordinates'', ''0'', ''0'', ''0'',
    ''ossl_ec_GFp_simple_add'', ''ossl_ec_GFp_simple_dbl'', ''ossl_ec_GFp_simple_tpl'',
    ''ossl_ec_GFp_simple_invert'', ''ossl_ec_GFp_simple_is_at_infinity'',
    ''ossl_ec_GFp_simple_is_on_curve'', ''ossl_ec_GFp_simple_cmp'',
    ''ossl_ec_GFp_simple_make_affine'', ''ossl_ec_GFp_simple_points_make_affine'',
    ''ossl_ec_GFp_nistp224_points_mul'', ''ossl_ec_GFp_nistp224_precompute_mult'',
    ''ossl_ec_GFp_nistp224_have_precompute_mult'', ''ossl_ec_GFp_nist_field_mul'',
    ''ossl_ec_GFp_nist_field_sqr'', ''0'', ''ossl_ec_GFp_simple_field_inv'', ''0'', ''0'',
    ''0'', ''ossl_ec_key_simple_priv2oct'', ''ossl_ec_key_simple_oct2priv'', ''0'',
    ''ossl_ec_key_simple_generate_key'', ''ossl_ec_key_simple_check_key'',
    ''ossl_ec_key_simple_generate_public_key'', ''0'', ''0'',
    ''ossl_ecdh_simple_compute_key'', ''ossl_ecdsa_simple_sign_setup'',
    ''ossl_ecdsa_simple_sign_sig'', ''ossl_ecdsa_simple_verify_sig'', ''0'', ''0'', ''0'',
    ''0'', ''0'']"

definition EC_GFp_nistp256_method :: "string list" where
  "EC_GFp_nistp256_method = [
    ''EC_FLAGS_DEFAULT_OCT'', ''NID_X9_62_prime_field'',
    ''ossl_ec_GFp_nistp256_group_init'', ''ossl_ec_GFp_simple_group_finish'',
    ''ossl_ec_GFp_simple_group_clear_finish'', ''ossl_ec_GFp_nist_group_copy'',
    ''ossl_ec_GFp_nistp256_group_set_curve'', ''ossl_ec_GFp_simple_group_get_curve'',
    ''ossl_ec_GFp_simple_group_get_degree'', ''ossl_ec_group_simple_order_bits'',
    ''ossl_ec_GFp_simple_group_check_discriminant'', ''ossl_ec_GFp_simple_point_init'',
    ''ossl_ec_GFp_simple_point_finish'', ''ossl_ec_GFp_simple_point_clear_finish'',
    ''ossl_ec_GFp_simple_point_copy'', ''ossl_ec_GFp_simple_point_set_to_infinity'',
    ''ossl_ec_GFp_simple_point_set_affine_coordinates'',
    ''ossl_ec_GFp_nistp256_point_get_affine_coordinates'', ''0'', ''0'', ''0'',
    ''ossl_ec_GFp_simple_add'', ''ossl_ec_GFp_simple_dbl'', ''ossl_ec_GFp_simple_tpl'',
    ''ossl_ec_GFp_simple_invert'', ''ossl_ec_GFp_simple_is_at_infinity'',
    ''ossl_ec_GFp_simple_is_on_curve'', ''ossl_ec_GFp_simple_cmp'',
    ''ossl_ec_GFp_simple_make_affine'', ''ossl_ec_GFp_simple_points_make_affine'',
    ''ossl_ec_GFp_nistp256_points_mul'', ''ossl_ec_GFp_nistp256_precompute_mult'',
    ''ossl_ec_GFp_nistp256_have_precompute_mult'', ''ossl_ec_GFp_nist_field_mul'',
    ''ossl_ec_GFp_nist_field_sqr'', ''0'', ''ossl_ec_GFp_simple_field_inv'', ''0'', ''0'',
    ''0'', ''ossl_ec_key_simple_priv2oct'', ''ossl_ec_key_simple_oct2priv'', ''0'',
    ''ossl_ec_key_simple_generate_key'', ''ossl_ec_key_simple_check_key'',
    ''ossl_ec_key_simple_generate_public_key'', ''0'', ''0'',
    ''ossl_ecdh_simple_compute_key'', ''ossl_ecdsa_simple_sign_setup'',
    ''ossl_ecdsa_simple_sign_sig'', ''ossl_ecdsa_simple_verify_sig'', ''0'', ''0'', ''0'',
    ''0'', ''0'']"

definition EC_GFp_nistp521_method :: "string list" where
  "EC_GFp_nistp521_method = [
    ''EC_FLAGS_DEFAULT_OCT'', ''NID_X9_62_prime_field'',
    ''ossl_ec_GFp_nistp521_group_init'', ''ossl_ec_GFp_simple_group_finish'',
    ''ossl_ec_GFp_simple_group_clear_finish'', ''ossl_ec_GFp_nist_group_copy'',
    ''ossl_ec_GFp_nistp521_group_set_curve'', ''ossl_ec_GFp_simple_group_get_curve'',
    ''ossl_ec_GFp_simple_group_get_degree'', ''ossl_ec_group_simple_order_bits'',
    ''ossl_ec_GFp_simple_group_check_discriminant'', ''ossl_ec_GFp_simple_point_init'',
    ''ossl_ec_GFp_simple_point_finish'', ''ossl_ec_GFp_simple_point_clear_finish'',
    ''ossl_ec_GFp_simple_point_copy'', ''ossl_ec_GFp_simple_point_set_to_infinity'',
    ''ossl_ec_GFp_simple_point_set_affine_coordinates'',
    ''ossl_ec_GFp_nistp521_point_get_affine_coordinates'', ''0'', ''0'', ''0'',
    ''ossl_ec_GFp_simple_add'', ''ossl_ec_GFp_simple_dbl'', ''ossl_ec_GFp_simple_tpl'',
    ''ossl_ec_GFp_simple_invert'', ''ossl_ec_GFp_simple_is_at_infinity'',
    ''ossl_ec_GFp_simple_is_on_curve'', ''ossl_ec_GFp_simple_cmp'',
    ''ossl_ec_GFp_simple_make_affine'', ''ossl_ec_GFp_simple_points_make_affine'',
    ''ossl_ec_GFp_nistp521_points_mul'', ''ossl_ec_GFp_nistp521_precompute_mult'',
    ''ossl_ec_GFp_nistp521_have_precompute_mult'', ''ossl_ec_GFp_nist_field_mul'',
    ''ossl_ec_GFp_nist_field_sqr'', ''0'', ''ossl_ec_GFp_simple_field_inv'', ''0'', ''0'',
    ''0'', ''ossl_ec_key_simple_priv2oct'', ''ossl_ec_key_simple_oct2priv'', ''0'',
    ''ossl_ec_key_simple_generate_key'', ''ossl_ec_key_simple_check_key'',
    ''ossl_ec_key_simple_generate_public_key'', ''0'', ''0'',
    ''ossl_ecdh_simple_compute_key'', ''ossl_ecdsa_simple_sign_setup'',
    ''ossl_ecdsa_simple_sign_sig'', ''ossl_ecdsa_simple_verify_sig'', ''0'', ''0'', ''0'',
    ''0'', ''0'']"

definition EC_GFp_nistz256_method :: "string list" where
  "EC_GFp_nistz256_method = [
    ''EC_FLAGS_DEFAULT_OCT'', ''NID_X9_62_prime_field'', ''ossl_ec_GFp_mont_group_init'',
    ''ossl_ec_GFp_mont_group_finish'', ''ossl_ec_GFp_mont_group_clear_finish'',
    ''ossl_ec_GFp_mont_group_copy'', ''ossl_ec_GFp_mont_group_set_curve'',
    ''ossl_ec_GFp_simple_group_get_curve'', ''ossl_ec_GFp_simple_group_get_degree'',
    ''ossl_ec_group_simple_order_bits'', ''ossl_ec_GFp_simple_group_check_discriminant'',
    ''ossl_ec_GFp_simple_point_init'', ''ossl_ec_GFp_simple_point_finish'',
    ''ossl_ec_GFp_simple_point_clear_finish'', ''ossl_ec_GFp_simple_point_copy'',
    ''ossl_ec_GFp_simple_point_set_to_infinity'',
    ''ossl_ec_GFp_simple_point_set_affine_coordinates'', ''ecp_nistz256_get_affine'', ''0'',
    ''0'', ''0'', ''ossl_ec_GFp_simple_add'', ''ossl_ec_GFp_simple_dbl'',
    ''ossl_ec_GFp_simple_tpl'', ''ossl_ec_GFp_simple_invert'',
    ''ossl_ec_GFp_simple_is_at_infinity'', ''ossl_ec_GFp_simple_is_on_curve'',
    ''ossl_ec_GFp_simple_cmp'', ''ossl_ec_GFp_simple_make_affine'',
    ''ossl_ec_GFp_simple_points_make_affine'', ''ecp_nistz256_points_mul'',
    ''ecp_nistz256_mult_precompute'', ''ecp_nistz256_window_have_precompute_mult'',
    ''ossl_ec_GFp_mont_field_mul'', ''ossl_ec_GFp_mont_field_sqr'', ''0'',
    ''ossl_ec_GFp_mont_field_inv'', ''ossl_ec_GFp_mont_field_encode'',
    ''ossl_ec_GFp_mont_field_decode'', ''ossl_ec_GFp_mont_field_set_to_one'',
    ''ossl_ec_key_simple_priv2oct'', ''ossl_ec_key_simple_oct2priv'', ''0'',
    ''ossl_ec_key_simple_generate_key'', ''ossl_ec_key_simple_check_key'',
    ''ossl_ec_key_simple_generate_public_key'', ''0'', ''0'',
    ''ossl_ecdh_simple_compute_key'', ''ossl_ecdsa_simple_sign_setup'',
    ''ossl_ecdsa_simple_sign_sig'', ''ossl_ecdsa_simple_verify_sig'',
    ''ecp_nistz256_inv_mod_ord'', ''0'', ''0'', ''0'', ''0'']"

definition EC_GF2m_simple_method :: "string list" where
  "EC_GF2m_simple_method = [
    ''EC_FLAGS_DEFAULT_OCT'', ''NID_X9_62_characteristic_two_field'',
    ''ossl_ec_GF2m_simple_group_init'', ''ossl_ec_GF2m_simple_group_finish'',
    ''ossl_ec_GF2m_simple_group_clear_finish'', ''ossl_ec_GF2m_simple_group_copy'',
    ''ossl_ec_GF2m_simple_group_set_curve'', ''ossl_ec_GF2m_simple_group_get_curve'',
    ''ossl_ec_GF2m_simple_group_get_degree'', ''ossl_ec_group_simple_order_bits'',
    ''ossl_ec_GF2m_simple_group_check_discriminant'', ''ossl_ec_GF2m_simple_point_init'',
    ''ossl_ec_GF2m_simple_point_finish'', ''ossl_ec_GF2m_simple_point_clear_finish'',
    ''ossl_ec_GF2m_simple_point_copy'', ''ossl_ec_GF2m_simple_point_set_to_infinity'',
    ''ossl_ec_GF2m_simple_point_set_affine_coordinates'',
    ''ossl_ec_GF2m_simple_point_get_affine_coordinates'', ''0'', ''0'', ''0'',
    ''ossl_ec_GF2m_simple_add'', ''ossl_ec_GF2m_simple_dbl'',
    ''ossl_ec_GF2m_simple_invert'', ''ossl_ec_GF2m_simple_is_at_infinity'',
    ''ossl_ec_GF2m_simple_is_on_curve'', ''ossl_ec_GF2m_simple_cmp'',
    ''ossl_ec_GF2m_simple_make_affine'', ''ossl_ec_GF2m_simple_points_make_affine'',
    ''ec_GF2m_simple_points_mul'', ''0'', ''0'', ''ossl_ec_GF2m_simple_field_mul'',
    ''ossl_ec_GF2m_simple_field_sqr'', ''ossl_ec_GF2m_simple_field_div'',
    ''ec_GF2m_simple_field_inv'', ''0'', ''0'', ''0'', ''ossl_ec_key_simple_priv2oct'',
    ''ossl_ec_key_simple_oct2priv'', ''0'', ''ossl_ec_key_simple_generate_key'',
    ''ossl_ec_key_simple_check_key'', ''ossl_ec_key_simple_generate_public_key'', ''0'',
    ''0'', ''ossl_ecdh_simple_compute_key'', ''ossl_ecdsa_simple_sign_setup'',
    ''ossl_ecdsa_simple_sign_sig'', ''ossl_ecdsa_simple_verify_sig'', ''0'', ''0'',
    ''ec_GF2m_simple_ladder_pre'', ''ec_GF2m_simple_ladder_step'',
    ''ec_GF2m_simple_ladder_post'']"

definition EC_GFp_s390x_nistp_method :: "string list" where
  "EC_GFp_s390x_nistp_method = [
    ''EC_FLAGS_DEFAULT_OCT'', ''NID_X9_62_prime_field'', ''ossl_ec_GFp_simple_group_init'',
    ''ossl_ec_GFp_simple_group_finish'', ''ossl_ec_GFp_simple_group_clear_finish'',
    ''ossl_ec_GFp_simple_group_copy'', ''ossl_ec_GFp_simple_group_set_curve'',
    ''ossl_ec_GFp_simple_group_get_curve'', ''ossl_ec_GFp_simple_group_get_degree'',
    ''ossl_ec_group_simple_order_bits'', ''ossl_ec_GFp_simple_group_check_discriminant'',
    ''ossl_ec_GFp_simple_point_init'', ''ossl_ec_GFp_simple_point_finish'',
    ''ossl_ec_GFp_simple_point_clear_finish'', ''ossl_ec_GFp_simple_point_copy'',
    ''ossl_ec_GFp_simple_point_set_to_infinity'',
    ''ossl_ec_GFp_simple_point_set_affine_coordinates'',
    ''ossl_ec_GFp_simple_point_get_affine_coordinates'', ''0'', ''0'', ''0'',
    ''ossl_ec_GFp_simple_add'', ''ossl_ec_GFp_simple_dbl'', ''ossl_ec_GFp_simple_invert'',
    ''ossl_ec_GFp_simple_is_at_infinity'', ''ossl_ec_GFp_simple_is_on_curve'',
    ''ossl_ec_GFp_simple_cmp'', ''ossl_ec_GFp_simple_make_affine'',
    ''ossl_ec_GFp_simple_points_make_affine'', ''ec_GFp_s390x_nistp_mul'', ''0'', ''0'',
    ''ossl_ec_GFp_simple_field_mul'', ''ossl_ec_GFp_simple_field_sqr'', ''0'',
    ''ossl_ec_GFp_simple_field_inv'', ''0'', ''0'', ''0'', ''ossl_ec_key_simple_priv2oct'',
    ''ossl_ec_key_simple_oct2priv'', ''0'', ''ossl_ec_key_simple_generate_key'',
    ''ossl_ec_key_simple_check_key'', ''ossl_ec_key_simple_generate_public_key'', ''0'',
    ''0'', ''ossl_ecdh_simple_compute_key'', ''ossl_ecdsa_simple_sign_setup'',
    ''ecdsa_s390x_nistp_sign_sig'', ''ecdsa_s390x_nistp_verify_sig'', ''0'',
    ''ossl_ec_GFp_simple_blind_coordinates'', ''ossl_ec_GFp_simple_ladder_pre'',
    ''ossl_ec_GFp_simple_ladder_step'', ''ossl_ec_GFp_simple_ladder_post'']"

section \<open>Lookup\<close>

datatype ec_meth = M_GFp_simple | M_GFp_mont | M_GFp_nist | M_GFp_nistp224 | M_GFp_nistp256
  | M_GFp_nistp521 | M_GFp_nistz256 | M_GF2m_simple | M_GFp_s390x_nistp

fun meth_table :: "ec_meth \<Rightarrow> string list" where
  "meth_table M_GFp_simple = EC_GFp_simple_method"
| "meth_table M_GFp_mont = EC_GFp_mont_method"
| "meth_table M_GFp_nist = EC_GFp_nist_method"
| "meth_table M_GFp_nistp224 = EC_GFp_nistp224_method"
| "meth_table M_GFp_nistp256 = EC_GFp_nistp256_method"
| "meth_table M_GFp_nistp521 = EC_GFp_nistp521_method"
| "meth_table M_GFp_nistz256 = EC_GFp_nistz256_method"
| "meth_table M_GF2m_simple = EC_GF2m_simple_method"
| "meth_table M_GFp_s390x_nistp = EC_GFp_s390x_nistp_method"

definition slot :: "ec_meth \<Rightarrow> string \<Rightarrow> string" where
  "slot m nm = (case map_of (zip ec_method_slots (meth_table m)) nm of Some f \<Rightarrow> f | None \<Rightarrow> ''0'')"


text \<open>The names are distinct, so each slot holds the entry at its position.\<close>

lemma distinct_slots: "distinct ec_method_slots"
  by (simp add: ec_method_slots_def)

lemma map_slot:
  assumes "length (meth_table m) = length ec_method_slots"
  shows "map (slot m) ec_method_slots = meth_table m"
  using assms distinct_slots by (intro nth_equalityI) (simp_all add: slot_def map_of_zip_nth)

lemma simple_slots [simp]:
  "slot M_GFp_simple ''flags'' = ''EC_FLAGS_DEFAULT_OCT''"
  "slot M_GFp_simple ''field_type'' = ''NID_X9_62_prime_field''"
  "slot M_GFp_simple ''group_init'' = ''ossl_ec_GFp_simple_group_init''"
  "slot M_GFp_simple ''group_copy'' = ''ossl_ec_GFp_simple_group_copy''"
  "slot M_GFp_simple ''group_set_curve'' = ''ossl_ec_GFp_simple_group_set_curve''"
  "slot M_GFp_simple ''group_get_curve'' = ''ossl_ec_GFp_simple_group_get_curve''"
  "slot M_GFp_simple ''group_get_degree'' = ''ossl_ec_GFp_simple_group_get_degree''"
  "slot M_GFp_simple ''group_order_bits'' = ''ossl_ec_group_simple_order_bits''"
  "slot M_GFp_simple ''group_check_discriminant'' = ''ossl_ec_GFp_simple_group_check_discriminant''"
  "slot M_GFp_simple ''point_init'' = ''ossl_ec_GFp_simple_point_init''"
  "slot M_GFp_simple ''point_copy'' = ''ossl_ec_GFp_simple_point_copy''"
  "slot M_GFp_simple ''point_set_to_infinity'' = ''ossl_ec_GFp_simple_point_set_to_infinity''"
  "slot M_GFp_simple ''point_set_affine_coordinates'' = ''ossl_ec_GFp_simple_point_set_affine_coordinates''"
  "slot M_GFp_simple ''point_get_affine_coordinates'' = ''ossl_ec_GFp_simple_point_get_affine_coordinates''"
  "slot M_GFp_simple ''add'' = ''ossl_ec_GFp_simple_add''"
  "slot M_GFp_simple ''dbl'' = ''ossl_ec_GFp_simple_dbl''"
  "slot M_GFp_simple ''tpl'' = ''ossl_ec_GFp_simple_tpl''"
  "slot M_GFp_simple ''invert'' = ''ossl_ec_GFp_simple_invert''"
  "slot M_GFp_simple ''is_at_infinity'' = ''ossl_ec_GFp_simple_is_at_infinity''"
  "slot M_GFp_simple ''is_on_curve'' = ''ossl_ec_GFp_simple_is_on_curve''"
  "slot M_GFp_simple ''point_cmp'' = ''ossl_ec_GFp_simple_cmp''"
  "slot M_GFp_simple ''make_affine'' = ''ossl_ec_GFp_simple_make_affine''"
  "slot M_GFp_simple ''points_make_affine'' = ''ossl_ec_GFp_simple_points_make_affine''"
  "slot M_GFp_simple ''mul'' = ''0''"
  "slot M_GFp_simple ''precompute_mult'' = ''0''"
  "slot M_GFp_simple ''have_precompute_mult'' = ''0''"
  "slot M_GFp_simple ''field_mul'' = ''ossl_ec_GFp_simple_field_mul''"
  "slot M_GFp_simple ''field_sqr'' = ''ossl_ec_GFp_simple_field_sqr''"
  "slot M_GFp_simple ''field_inv'' = ''ossl_ec_GFp_simple_field_inv''"
  "slot M_GFp_simple ''field_encode'' = ''0''"
  "slot M_GFp_simple ''field_decode'' = ''0''"
  "slot M_GFp_simple ''field_set_to_one'' = ''0''"
  "slot M_GFp_simple ''field_inverse_mod_ord'' = ''0''"
  "slot M_GFp_simple ''blind_coordinates'' = ''ossl_ec_GFp_simple_blind_coordinates''"
  "slot M_GFp_simple ''ladder_pre'' = ''ossl_ec_GFp_simple_ladder_pre''"
  "slot M_GFp_simple ''ladder_step'' = ''ossl_ec_GFp_simple_ladder_step''"
  "slot M_GFp_simple ''ladder_post'' = ''ossl_ec_GFp_simple_ladder_post''"
  using map_slot [of M_GFp_simple] by (simp_all add: ec_method_slots_def EC_GFp_simple_method_def)

lemma mont_slots [simp]:
  "slot M_GFp_mont ''flags'' = ''EC_FLAGS_DEFAULT_OCT''"
  "slot M_GFp_mont ''field_type'' = ''NID_X9_62_prime_field''"
  "slot M_GFp_mont ''group_init'' = ''ossl_ec_GFp_mont_group_init''"
  "slot M_GFp_mont ''group_copy'' = ''ossl_ec_GFp_mont_group_copy''"
  "slot M_GFp_mont ''group_set_curve'' = ''ossl_ec_GFp_mont_group_set_curve''"
  "slot M_GFp_mont ''group_get_curve'' = ''ossl_ec_GFp_simple_group_get_curve''"
  "slot M_GFp_mont ''group_get_degree'' = ''ossl_ec_GFp_simple_group_get_degree''"
  "slot M_GFp_mont ''group_order_bits'' = ''ossl_ec_group_simple_order_bits''"
  "slot M_GFp_mont ''group_check_discriminant'' = ''ossl_ec_GFp_simple_group_check_discriminant''"
  "slot M_GFp_mont ''point_init'' = ''ossl_ec_GFp_simple_point_init''"
  "slot M_GFp_mont ''point_copy'' = ''ossl_ec_GFp_simple_point_copy''"
  "slot M_GFp_mont ''point_set_to_infinity'' = ''ossl_ec_GFp_simple_point_set_to_infinity''"
  "slot M_GFp_mont ''point_set_affine_coordinates'' = ''ossl_ec_GFp_simple_point_set_affine_coordinates''"
  "slot M_GFp_mont ''point_get_affine_coordinates'' = ''ossl_ec_GFp_simple_point_get_affine_coordinates''"
  "slot M_GFp_mont ''add'' = ''ossl_ec_GFp_simple_add''"
  "slot M_GFp_mont ''dbl'' = ''ossl_ec_GFp_simple_dbl''"
  "slot M_GFp_mont ''tpl'' = ''ossl_ec_GFp_simple_tpl''"
  "slot M_GFp_mont ''invert'' = ''ossl_ec_GFp_simple_invert''"
  "slot M_GFp_mont ''is_at_infinity'' = ''ossl_ec_GFp_simple_is_at_infinity''"
  "slot M_GFp_mont ''is_on_curve'' = ''ossl_ec_GFp_simple_is_on_curve''"
  "slot M_GFp_mont ''point_cmp'' = ''ossl_ec_GFp_simple_cmp''"
  "slot M_GFp_mont ''make_affine'' = ''ossl_ec_GFp_simple_make_affine''"
  "slot M_GFp_mont ''points_make_affine'' = ''ossl_ec_GFp_simple_points_make_affine''"
  "slot M_GFp_mont ''mul'' = ''0''"
  "slot M_GFp_mont ''precompute_mult'' = ''0''"
  "slot M_GFp_mont ''have_precompute_mult'' = ''0''"
  "slot M_GFp_mont ''field_mul'' = ''ossl_ec_GFp_mont_field_mul''"
  "slot M_GFp_mont ''field_sqr'' = ''ossl_ec_GFp_mont_field_sqr''"
  "slot M_GFp_mont ''field_inv'' = ''ossl_ec_GFp_mont_field_inv''"
  "slot M_GFp_mont ''field_encode'' = ''ossl_ec_GFp_mont_field_encode''"
  "slot M_GFp_mont ''field_decode'' = ''ossl_ec_GFp_mont_field_decode''"
  "slot M_GFp_mont ''field_set_to_one'' = ''ossl_ec_GFp_mont_field_set_to_one''"
  "slot M_GFp_mont ''field_inverse_mod_ord'' = ''0''"
  "slot M_GFp_mont ''blind_coordinates'' = ''ossl_ec_GFp_simple_blind_coordinates''"
  "slot M_GFp_mont ''ladder_pre'' = ''ossl_ec_GFp_simple_ladder_pre''"
  "slot M_GFp_mont ''ladder_step'' = ''ossl_ec_GFp_simple_ladder_step''"
  "slot M_GFp_mont ''ladder_post'' = ''ossl_ec_GFp_simple_ladder_post''"
  using map_slot [of M_GFp_mont] by (simp_all add: ec_method_slots_def EC_GFp_mont_method_def)

text \<open>The binary-field table was not given an entry for the tripling slot: from there on every slot
  holds the function of the next one.\<close>

lemma gf2m_table_shifted:
  "map (slot M_GF2m_simple) [''dbl'', ''tpl'', ''invert'', ''is_at_infinity'', ''is_on_curve'', ''point_cmp'',
      ''make_affine'', ''points_make_affine''] =
    [''ossl_ec_GF2m_simple_dbl'', ''ossl_ec_GF2m_simple_invert'', ''ossl_ec_GF2m_simple_is_at_infinity'',
     ''ossl_ec_GF2m_simple_is_on_curve'', ''ossl_ec_GF2m_simple_cmp'', ''ossl_ec_GF2m_simple_make_affine'',
     ''ossl_ec_GF2m_simple_points_make_affine'', ''ec_GF2m_simple_points_mul'']"
  by code_simp

end
