(* ===== verification/Bn_Words.thy ===== *)
theory Bn_Words
  imports Dbc_Prelude
begin

text \<open>
  The word-array kernels of \<open>bn_asm.c\<close> (the portable C variants for 64-bit words without a
  128-bit type) and the multiplication macros of \<open>bn_local.h\<close> they expand. An array of
  \<open>n\<close> words is a list, least significant word first; a routine that writes an array returns it
  beside its carry. The C loops are unrolled by four with a tail loop; one list element here
  is one of their steps. Every kernel is shown to compute, with its carry, the integer
  operation its name says.
\<close>

section \<open>Word arrays as integers\<close>

unbundle bit_operations_syntax

type_synonym bn_ulong = "64 word"

abbreviation B64 :: int where "B64 \<equiv> 2 ^ 64"

fun words_val :: "bn_ulong list \<Rightarrow> int" where
  "words_val [] = 0"
| "words_val (w # ws) = uint w + B64 * words_val ws"

fun words_of :: "nat \<Rightarrow> int \<Rightarrow> bn_ulong list" where
  "words_of 0 x = []"
| "words_of (Suc n) x = word_of_int x # words_of n (x div B64)"

lemma uint64_bounds: "0 \<le> uint (w :: bn_ulong)" "uint (w :: bn_ulong) < B64"
  using uint_lt2p [of w] by simp_all

lemma words_val_ge_0 [simp]: "0 \<le> words_val ws"
  by (induction ws) simp_all

lemma words_val_lt: "words_val ws < B64 ^ length ws"
proof (induction ws)
  case (Cons w ws)
  have "words_val ws \<le> B64 ^ length ws - 1" using Cons.IH by linarith
  then have "B64 * words_val ws \<le> B64 * (B64 ^ length ws - 1)" by (intro mult_left_mono) simp_all
  with uint64_bounds(2) [of w] show ?case by (simp add: right_diff_distrib)
qed simp

lemma words_val_append: "words_val (xs @ ys) = words_val xs + B64 ^ length xs * words_val ys"
  by (induction xs) (simp_all add: algebra_simps)

lemma length_words_of [simp]: "length (words_of n x) = n"
  by (induction n arbitrary: x) simp_all

lemma words_val_words_of: "words_val (words_of n x) = x mod B64 ^ n"
proof (induction n arbitrary: x)
  case (Suc n)
  have "uint (word_of_int x :: bn_ulong) = x mod B64" by (simp add: uint_word_of_int)
  with Suc show ?case by (simp add: zmod_zmult2_eq)
qed simp

lemma words_of_words_val: "words_of (length ws) (words_val ws) = ws"
proof (induction ws)
  case (Cons w ws)
  have "(uint w + B64 * words_val ws) div B64 = words_val ws"
    using uint64_bounds [of w] by simp
  moreover have "word_of_int (uint w + B64 * words_val ws) = w"
    using uint64_bounds [of w]
    by (intro word_uint_eqI) (simp only: uint_word_of_int, simp)
  ultimately show ?case using Cons.IH by simp
qed simp

lemma words_val_inject: "length xs = length ys \<Longrightarrow> words_val xs = words_val ys \<longleftrightarrow> xs = ys"
  by (metis words_of_words_val)

section \<open>Half-word multiplication (\<open>bn_local.h\<close>)\<close>

definition LBITS :: "bn_ulong \<Rightarrow> bn_ulong" where
  "LBITS a = a AND 0xffffffff"

definition HBITS :: "bn_ulong \<Rightarrow> bn_ulong" where
  "HBITS a = drop_bit 32 a AND 0xffffffff"

definition L2HBITS :: "bn_ulong \<Rightarrow> bn_ulong" where
  "L2HBITS a = push_bit 32 a"

text \<open>\<open>mul64(l, h, bl, bh)\<close>: the product of the word with halves \<open>l, h\<close> and the one with
  halves \<open>bl, bh\<close>, as (low word, high word).\<close>

definition mul64 :: "bn_ulong \<Rightarrow> bn_ulong \<Rightarrow> bn_ulong \<Rightarrow> bn_ulong \<Rightarrow> bn_ulong \<times> bn_ulong" where
  "mul64 l h bl bh =
     (let m = bh * l;
          lt = bl * l;
          m1 = bl * h;
          ht = bh * h;
          m = m + m1;
          ht = (if m < m1 then ht + L2HBITS 1 else ht);
          ht = ht + HBITS m;
          m1 = L2HBITS m;
          lt = lt + m1;
          ht = (if lt < m1 then ht + 1 else ht)
      in (lt, ht))"

definition sqr64 :: "bn_ulong \<Rightarrow> bn_ulong \<times> bn_ulong" where
  "sqr64 w =
     (let l = LBITS w;
          h = HBITS w;
          m = l * h;
          l = l * l;
          h = h * h;
          h = h + drop_bit 31 (m AND 0xffffffff80000000);
          m = push_bit 33 (m AND 0xffffffff);
          l = l + m;
          h = (if l < m then h + 1 else h)
      in (l, h))"

text \<open>\<open>mul_add(r, a, bl, bh, c)\<close> and \<open>mul(r, a, bl, bh, c)\<close>: the new \<open>(r, c)\<close>.\<close>

definition mul_add :: "bn_ulong \<Rightarrow> bn_ulong \<Rightarrow> bn_ulong \<Rightarrow> bn_ulong \<Rightarrow> bn_ulong \<Rightarrow> bn_ulong \<times> bn_ulong" where
  "mul_add r a bl bh c =
     (let lh = mul64 (LBITS a) (HBITS a) bl bh;
          l = fst lh + c;
          h = (if l < c then snd lh + 1 else snd lh);
          c = r;
          l = l + c;
          h = (if l < c then h + 1 else h)
      in (l, h))"

definition mul :: "bn_ulong \<Rightarrow> bn_ulong \<Rightarrow> bn_ulong \<Rightarrow> bn_ulong \<Rightarrow> bn_ulong \<times> bn_ulong" where
  "mul a bl bh c =
     (let lh = mul64 (LBITS a) (HBITS a) bl bh;
          l = fst lh + c;
          h = (if l < c then snd lh + 1 else snd lh)
      in (l, h))"

lemma uint_LBITS: "uint (LBITS a) = uint a mod 2 ^ 32"
proof -
  have "LBITS a = take_bit 32 a" unfolding LBITS_def take_bit_eq_mask by (simp add: mask_eq_exp_minus_1)
  then show ?thesis by (simp add: uint_mod take_bit_eq_mod)
qed

lemma int_div_less_self_pow:
  "0 \<le> x \<Longrightarrow> x < B64 \<Longrightarrow> x div 2 ^ 32 < (2 ^ 32 :: int)"
  using pos_mod_sign [of "2 ^ 32" x] div_mult_mod_eq [of x "2 ^ 32"] by simp

lemma uint_HBITS: "uint (HBITS a) = uint a div 2 ^ 32"
proof -
  have "HBITS a = LBITS (drop_bit 32 a)" by (simp add: HBITS_def LBITS_def)
  then have "uint (HBITS a) = (uint a div 2 ^ 32) mod 2 ^ 32"
    by (simp add: uint_LBITS uint_div drop_bit_eq_div)
  moreover have "uint a div 2 ^ 32 < 2 ^ 32"
    using uint64_bounds [of a] by (intro int_div_less_self_pow)
  moreover have "0 \<le> uint a div 2 ^ 32" using uint64_bounds [of a] by (simp add: pos_imp_zdiv_nonneg_iff)
  ultimately show ?thesis by (simp only: mod_pos_pos_trivial)
qed

lemma uint_L2HBITS: "uint (L2HBITS a) = (uint a mod 2 ^ 32) * 2 ^ 32"
proof -
  have "uint (L2HBITS a) = (uint a * 2 ^ 32) mod (2 ^ 32 * 2 ^ 32)"
    by (simp add: L2HBITS_def push_bit_eq_mult uint_word_ariths)
  then show ?thesis by (simp only: mult_mod_left)
qed

text \<open>A wrapped sum is below its addend exactly when it overflowed.\<close>

lemma uint_add_carry:
  fixes a b :: bn_ulong
  shows "uint (a + b) + B64 * of_bool (a + b < b) = uint a + uint b"
proof -
  have e: "uint (a + b) = (uint a + uint b) mod B64" by (simp add: uint_word_ariths)
  show ?thesis
  proof (cases "uint a + uint b < B64")
    case True
    then have "uint (a + b) = uint a + uint b" using e uint64_bounds [of a] uint64_bounds [of b] by simp
    then show ?thesis using uint64_bounds [of a] by (simp add: word_less_def)
  next
    case False
    have "(uint a + uint b) mod B64 = (uint a + uint b - B64) mod B64" by simp
    also have "\<dots> = uint a + uint b - B64"
      using False uint64_bounds [of a] uint64_bounds [of b] by (intro mod_pos_pos_trivial) linarith+
    finally show ?thesis using e uint64_bounds [of a] by (simp add: word_less_def)
  qed
qed

lemma uint_mult_small:
  fixes a b :: bn_ulong
  assumes "uint a * uint b < B64"
  shows "uint (a * b) = uint a * uint b"
  using assms uint64_bounds [of a] uint64_bounds [of b] by (simp add: uint_word_ariths)

lemma half_prod:
  fixes x y :: int
  assumes "0 \<le> x" "x < 2 ^ 32" "0 \<le> y" "y < 2 ^ 32"
  shows "0 \<le> x * y" "x * y \<le> (2 ^ 32 - 1) * (2 ^ 32 - 1)" "x * y < B64"
proof -
  show "0 \<le> x * y" using assms by simp
  show le: "x * y \<le> (2 ^ 32 - 1) * (2 ^ 32 - 1)" using assms by (intro mult_mono) auto
  then show "x * y < B64" by simp
qed

lemma uint_half_mult:
  fixes a b :: bn_ulong
  assumes "uint a < 2 ^ 32" "uint b < 2 ^ 32"
  shows "uint (a * b) = uint a * uint b"
  using half_prod(3) [of "uint a" "uint b"] assms by (intro uint_mult_small) simp

lemma mul64_correct:
  assumes "uint l < 2 ^ 32" "uint h < 2 ^ 32" "uint bl < 2 ^ 32" "uint bh < 2 ^ 32"
  shows "uint (fst (mul64 l h bl bh)) + B64 * uint (snd (mul64 l h bl bh)) =
    (uint l + 2 ^ 32 * uint h) * (uint bl + 2 ^ 32 * uint bh)"
proof -
  define m where "m = bh * l + bl * h"
  define o1 :: int where "o1 = of_bool (m < bl * h)"
  define m1 where "m1 = L2HBITS m"
  define lt where "lt = bl * l + m1"
  define o2 :: int where "o2 = of_bool (lt < m1)"
  define ht where "ht = bh * h + (if m < bl * h then L2HBITS 1 else 0) + HBITS m + (if lt < m1 then 1 else 0)"
  have val: "mul64 l h bl bh = (lt, ht)"
    by (simp add: mul64_def Let_def m_def m1_def lt_def ht_def add.assoc)
  have m: "uint m + B64 * o1 = uint bh * uint l + uint bl * uint h"
    using uint_add_carry [of "bh * l" "bl * h"] assms by (simp add: m_def o1_def uint_half_mult)
  have lt: "uint lt + B64 * o2 = uint bl * uint l + (uint m mod 2 ^ 32) * 2 ^ 32"
    using uint_add_carry [of "bl * l" m1] assms
    by (simp add: lt_def o2_def m1_def uint_half_mult uint_L2HBITS)
  define mq mr where mqr: "mq = uint m div 2 ^ 32" "mr = uint m mod 2 ^ 32"
  have dm: "uint m = 2 ^ 32 * mq + mr" by (simp add: mqr)
  define H where "H = uint bh * uint h + o1 * 2 ^ 32 + mq + o2"
  have total: "uint lt + B64 * H = (uint l + 2 ^ 32 * uint h) * (uint bl + 2 ^ 32 * uint bh)"
  proof -
    have "uint lt + B64 * H = uint lt + B64 * o2 + B64 * (uint bh * uint h)
        + 2 ^ 32 * (B64 * o1) + B64 * mq"
      by (simp add: H_def algebra_simps)
    also have "\<dots> = uint bl * uint l + 2 ^ 32 * (2 ^ 32 * mq + mr)
        + B64 * (uint bh * uint h) + 2 ^ 32 * (B64 * o1)"
      unfolding lt mqr(2) [symmetric] by (simp add: algebra_simps)
    also have "\<dots> = uint bl * uint l + 2 ^ 32 * (uint m + B64 * o1) + B64 * (uint bh * uint h)"
      unfolding dm by (simp add: algebra_simps)
    also have "\<dots> = (uint l + 2 ^ 32 * uint h) * (uint bl + 2 ^ 32 * uint bh)"
      unfolding m by (simp add: algebra_simps)
    finally show ?thesis .
  qed
  have "(uint l + 2 ^ 32 * uint h) * (uint bl + 2 ^ 32 * uint bh) \<le> (B64 - 1) * (B64 - 1)"
    using assms by (intro mult_mono) auto
  with total uint64_bounds(1) [of lt] have "B64 * H \<le> (B64 - 1) * (B64 - 1)" by linarith
  then have "H < B64" by simp
  moreover have "0 \<le> uint bh * uint h" "0 \<le> mq" "0 \<le> o1" "0 \<le> o2"
    by (simp_all add: o1_def o2_def mqr pos_imp_zdiv_nonneg_iff)
  ultimately have H: "0 \<le> H" "H < B64" by (simp_all add: H_def)
  have "uint ht = H mod B64"
  proof -
    have one: "uint (L2HBITS 1) = 2 ^ 32" by (simp add: uint_L2HBITS)
    have "uint (if m < bl * h then L2HBITS 1 else 0) = o1 * 2 ^ 32"
      "uint (if lt < m1 then 1 else 0 :: bn_ulong) = o2"
      by (simp_all add: o1_def o2_def one)
    then show ?thesis using assms
      by (simp add: ht_def H_def mqr uint_word_ariths uint_half_mult uint_HBITS mod_simps)
  qed
  with H have "uint ht = H" by simp
  with total show ?thesis by (simp add: val)
qed

lemma LBITS_lt: "uint (LBITS w) < 2 ^ 32" and HBITS_lt: "uint (HBITS w) < 2 ^ 32"
  using uint64_bounds [of w] by (simp_all add: uint_LBITS uint_HBITS)

lemma mul64_halves:
  "uint (fst (mul64 (LBITS a) (HBITS a) (LBITS w) (HBITS w))) +
   B64 * uint (snd (mul64 (LBITS a) (HBITS a) (LBITS w) (HBITS w))) = uint a * uint w"
  using mul64_correct [OF LBITS_lt HBITS_lt LBITS_lt HBITS_lt, of a a w w]
  by (simp add: uint_LBITS uint_HBITS)

text \<open>\<open>mul_add\<close> and \<open>mul\<close> never lose a carry.\<close>

lemma uint_add_if:
  fixes h :: bn_ulong
  assumes "uint h + of_bool b < B64"
  shows "uint (if b then h + 1 else h) = uint h + of_bool b"
  using assms uint64_bounds [of h] by (auto simp: uint_word_ariths)

lemma mul_add_correct:
  "uint (fst (mul_add r a (LBITS w) (HBITS w) c)) + B64 * uint (snd (mul_add r a (LBITS w) (HBITS w) c)) =
    uint a * uint w + uint r + uint c"
proof -
  define l0 h0 where lh: "l0 = fst (mul64 (LBITS a) (HBITS a) (LBITS w) (HBITS w))"
    "h0 = snd (mul64 (LBITS a) (HBITS a) (LBITS w) (HBITS w))"
  have e0: "uint l0 + B64 * uint h0 = uint a * uint w" unfolding lh by (rule mul64_halves)
  define l1 where "l1 = l0 + c"
  define l2 where "l2 = l1 + r"
  have e1: "uint l1 + B64 * of_bool (l1 < c) = uint l0 + uint c" unfolding l1_def by (rule uint_add_carry)
  have e2: "uint l2 + B64 * of_bool (l2 < r) = uint l1 + uint r" unfolding l2_def by (rule uint_add_carry)
  have "uint a * uint w \<le> (B64 - 1) * (B64 - 1)"
    using uint64_bounds [of a] uint64_bounds [of w] by (intro mult_mono) auto
  then have b: "uint a * uint w + uint r + uint c < B64 * B64"
    using uint64_bounds(2) [of r] uint64_bounds(2) [of c] by simp
  have sum: "uint l2 + B64 * (uint h0 + of_bool (l1 < c) + of_bool (l2 < r)) = uint a * uint w + uint r + uint c"
    using e0 e1 e2 by (simp add: algebra_simps)
  have "B64 * (uint h0 + of_bool (l1 < c) + of_bool (l2 < r)) < B64 * B64"
    unfolding sum [symmetric] using sum b uint64_bounds(1) [of l2] by linarith
  then have lim: "uint h0 + of_bool (l1 < c) + of_bool (l2 < r) < B64"
    by (simp only: mult_less_cancel_left_pos zero_less_power zero_less_numeral)
  define h1 where "h1 = (if l1 < c then h0 + 1 else h0)"
  have h1: "uint h1 = uint h0 + of_bool (l1 < c)"
    unfolding h1_def using lim by (intro uint_add_if) (simp add: of_bool_def split: if_splits)
  have h2: "uint (if l2 < r then h1 + 1 else h1) = uint h1 + of_bool (l2 < r)"
    using lim h1 by (intro uint_add_if) linarith
  have "mul_add r a (LBITS w) (HBITS w) c = (l2, if l2 < r then h1 + 1 else h1)"
    by (simp add: mul_add_def Let_def l2_def l1_def h1_def lh)
  with sum h1 h2 show ?thesis by (simp add: algebra_simps)
qed

lemma mul_correct:
  "uint (fst (mul a (LBITS w) (HBITS w) c)) + B64 * uint (snd (mul a (LBITS w) (HBITS w) c)) =
    uint a * uint w + uint c"
proof -
  have "mul_add 0 a bl bh c = mul a bl bh c" for bl bh
    by (simp add: mul_add_def mul_def Let_def)
  then show ?thesis using mul_add_correct [of 0 a w c] by simp
qed

lemma sqr64_correct:
  "uint (fst (sqr64 w)) + B64 * uint (snd (sqr64 w)) = uint w * uint w"
proof -
  define L H where LH: "L = uint (LBITS w)" "H = uint (HBITS w)"
  have b: "0 \<le> L" "L < 2 ^ 32" "0 \<le> H" "H < 2 ^ 32"
    using LBITS_lt [of w] HBITS_lt [of w] by (simp_all add: LH)
  define m where "m = LBITS w * HBITS w"
  have m: "uint m = L * H" unfolding m_def LH using LBITS_lt HBITS_lt by (rule uint_half_mult)
  define mh where "mh = drop_bit 31 (m AND 0xffffffff80000000)"
  define ml where "ml = push_bit 33 (m AND 0xffffffff)"
  define q where "q = uint m div 2 ^ 31"
  define r where "r = uint m mod 2 ^ 31"
  have qr: "L * H = 2 ^ 31 * q + r" by (simp add: q_def r_def m)
  have mh: "uint mh = q"
  proof -
    have "mh = drop_bit 31 m"
    proof (rule bit_word_eqI)
      fix n assume n: "n < LENGTH(64)"
      have k: "(0xffffffff80000000 :: bn_ulong) = push_bit 31 (mask 33)"
        by (simp add: mask_eq_exp_minus_1 push_bit_eq_mult)
      show "bit mh n \<longleftrightarrow> bit (drop_bit 31 m) n"
        unfolding mh_def k using n by (simp only: bit_drop_bit_eq o_apply bit_and_iff bit_push_bit_iff bit_mask_iff)
          (auto simp: possible_bit_def dest: bit_imp_le_length)
    qed
    then show ?thesis by (simp add: drop_bit_eq_div uint_div q_def)
  qed
  have ml: "uint ml = r * 2 ^ 33"
  proof -
    have "uint ml = ((uint m mod 2 ^ 32) * 2 ^ 33) mod (2 ^ 31 * 2 ^ 33)"
      using uint_LBITS [of m] by (simp add: ml_def LBITS_def push_bit_eq_mult uint_word_ariths)
    also have "\<dots> = (uint m mod 2 ^ 32 mod 2 ^ 31) * 2 ^ 33" by (simp only: mult_mod_left)
    also have "uint m mod 2 ^ 32 mod 2 ^ 31 = r" by (simp add: r_def mod_mod_cancel)
    finally show ?thesis .
  qed
  define l where "l = LBITS w * LBITS w + ml"
  have ll: "uint (LBITS w * LBITS w) = L * L" "uint (HBITS w * HBITS w) = H * H"
    unfolding LH by (intro uint_half_mult LBITS_lt HBITS_lt)+
  have l: "uint l + B64 * of_bool (l < ml) = L * L + r * 2 ^ 33"
    using uint_add_carry [of "LBITS w * LBITS w" ml] by (simp add: l_def ll ml)
  have w: "uint w = L + 2 ^ 32 * H" by (simp add: LH uint_LBITS uint_HBITS)
  have sum: "uint l + B64 * (H * H + q + of_bool (l < ml)) = uint w * uint w"
  proof -
    have "uint l + B64 * (H * H + q + of_bool (l < ml)) =
        (uint l + B64 * of_bool (l < ml)) + B64 * (H * H) + 2 ^ 33 * (2 ^ 31 * q)"
      by (simp add: algebra_simps)
    also have "\<dots> = L * L + B64 * (H * H) + 2 ^ 33 * (L * H)"
      unfolding l qr by (simp add: algebra_simps)
    finally show ?thesis unfolding w by (simp add: algebra_simps)
  qed
  have "uint w * uint w \<le> (B64 - 1) * (B64 - 1)"
    using uint64_bounds [of w] by (intro mult_mono) auto
  with sum uint64_bounds(1) [of l]
  have "B64 * (H * H + q + of_bool (l < ml)) \<le> (B64 - 1) * (B64 - 1)" by linarith
  then have lim: "H * H + q + of_bool (l < ml) < B64" by simp
  have q0: "0 \<le> q" by (simp add: q_def pos_imp_zdiv_nonneg_iff)
  have hb: "0 \<le> H * H" by simp
  have h1: "uint (HBITS w * HBITS w + mh) = H * H + q"
    using lim q0 hb by (simp add: uint_word_ariths(1) ll mh of_bool_def split: if_splits)
  have "uint (if l < ml then HBITS w * HBITS w + mh + 1 else HBITS w * HBITS w + mh) = H * H + q + of_bool (l < ml)"
    using lim h1 by (subst uint_add_if) simp_all
  moreover have "sqr64 w = (l, if l < ml then HBITS w * HBITS w + mh + 1 else HBITS w * HBITS w + mh)"
    by (simp add: sqr64_def Let_def l_def ml_def mh_def m_def)
  ultimately show ?thesis using sum by simp
qed

section \<open>The kernels (\<open>bn_asm.c\<close>)\<close>

fun mul_add_loop :: "bn_ulong list \<Rightarrow> bn_ulong list \<Rightarrow> bn_ulong \<Rightarrow> bn_ulong \<Rightarrow> bn_ulong \<Rightarrow> bn_ulong list \<times> bn_ulong" where
  "mul_add_loop (r # rp) (a # ap) bl bh c =
     (let rc = mul_add r a bl bh c; t = mul_add_loop rp ap bl bh (snd rc) in (fst rc # fst t, snd t))"
| "mul_add_loop rp ap bl bh c = (rp, c)"

definition bn_mul_add_words :: "bn_ulong list \<Rightarrow> bn_ulong list \<Rightarrow> bn_ulong \<Rightarrow> bn_ulong list \<times> bn_ulong" where
  "bn_mul_add_words rp ap w = mul_add_loop rp ap (LBITS w) (HBITS w) 0"

fun mul_loop :: "bn_ulong list \<Rightarrow> bn_ulong \<Rightarrow> bn_ulong \<Rightarrow> bn_ulong \<Rightarrow> bn_ulong list \<times> bn_ulong" where
  "mul_loop (a # ap) bl bh c =
     (let rc = mul a bl bh c; t = mul_loop ap bl bh (snd rc) in (fst rc # fst t, snd t))"
| "mul_loop [] bl bh c = ([], c)"

definition bn_mul_words :: "bn_ulong list \<Rightarrow> bn_ulong \<Rightarrow> bn_ulong list \<times> bn_ulong" where
  "bn_mul_words ap w = mul_loop ap (LBITS w) (HBITS w) 0"

fun bn_sqr_words :: "bn_ulong list \<Rightarrow> bn_ulong list" where
  "bn_sqr_words (a # as) = fst (sqr64 a) # snd (sqr64 a) # bn_sqr_words as"
| "bn_sqr_words [] = []"

fun add_loop :: "bn_ulong list \<Rightarrow> bn_ulong list \<Rightarrow> bn_ulong \<Rightarrow> bn_ulong list \<times> bn_ulong" where
  "add_loop (a # as) (b # bs) c =
     (let t = a + c;
          c = (if t < c then 1 else 0);
          l = t + b;
          c = c + (if l < t then 1 else 0);
          rest = add_loop as bs c
      in (l # fst rest, snd rest))"
| "add_loop as bs c = ([], c)"

definition bn_add_words :: "bn_ulong list \<Rightarrow> bn_ulong list \<Rightarrow> bn_ulong list \<times> bn_ulong" where
  "bn_add_words a b = add_loop a b 0"

fun sub_loop :: "bn_ulong list \<Rightarrow> bn_ulong list \<Rightarrow> bn_ulong \<Rightarrow> bn_ulong list \<times> bn_ulong" where
  "sub_loop (a # as) (b # bs) c =
     (let r = a - b - c;
          c = (if a \<noteq> b then (if a < b then 1 else 0) else c);
          rest = sub_loop as bs c
      in (r # fst rest, snd rest))"
| "sub_loop as bs c = ([], c)"

definition bn_sub_words :: "bn_ulong list \<Rightarrow> bn_ulong list \<Rightarrow> bn_ulong list \<times> bn_ulong" where
  "bn_sub_words a b = sub_loop a b 0"

text \<open>\<open>bn_mul_normal\<close> of \<open>bn_mul.c\<close>: one row per word of the shorter operand, each row added
  into the window of the result that starts at its index.\<close>

fun bn_mul_rows :: "bn_ulong list \<Rightarrow> bn_ulong list \<Rightarrow> bn_ulong list \<Rightarrow> nat \<Rightarrow> bn_ulong list" where
  "bn_mul_rows r a [] i = r"
| "bn_mul_rows r a (b # bs) i =
     (let rc = bn_mul_add_words (drop i r) a b
      in bn_mul_rows (take i r @ fst rc @ [snd rc]) a bs (i + 1))"

definition bn_mul_normal :: "bn_ulong list \<Rightarrow> bn_ulong list \<Rightarrow> bn_ulong list" where
  "bn_mul_normal x y =
     (let a = (if length x < length y then y else x);
          b = (if length x < length y then x else y)
      in case b of
           [] \<Rightarrow> fst (bn_mul_words a 0)
         | b0 # bs \<Rightarrow>
             (let rc = bn_mul_words a b0 in bn_mul_rows (fst rc @ [snd rc]) a bs 1))"

lemma mul_add_loop_correct:
  "length rp = length ap \<Longrightarrow>
   length (fst (mul_add_loop rp ap (LBITS w) (HBITS w) c)) = length ap \<and>
   words_val (fst (mul_add_loop rp ap (LBITS w) (HBITS w) c)) +
     B64 ^ length ap * uint (snd (mul_add_loop rp ap (LBITS w) (HBITS w) c)) =
   words_val rp + words_val ap * uint w + uint c"
proof (induction rp ap "LBITS w" "HBITS w" c rule: mul_add_loop.induct)
  case (1 r rp a ap c)
  define rc where "rc = mul_add r a (LBITS w) (HBITS w) c"
  define t where "t = mul_add_loop rp ap (LBITS w) (HBITS w) (snd rc)"
  have IH: "length (fst t) = length ap"
    "words_val (fst t) + B64 ^ length ap * uint (snd t) = words_val rp + words_val ap * uint w + uint (snd rc)"
    using 1 by (simp_all add: t_def rc_def)
  have "uint (fst rc) + B64 * uint (snd rc) = uint a * uint w + uint r + uint c"
    unfolding rc_def by (rule mul_add_correct)
  moreover have "B64 * (words_val (fst t) + B64 ^ length ap * uint (snd t)) =
      B64 * (words_val rp + words_val ap * uint w + uint (snd rc))" by (simp only: IH)
  ultimately have "uint (fst rc) + B64 * words_val (fst t) + B64 * B64 ^ length ap * uint (snd t) =
      uint r + B64 * words_val rp + (uint a + B64 * words_val ap) * uint w + uint c"
    by (simp add: algebra_simps)
  with IH(1) show ?case by (simp add: Let_def flip: rc_def t_def)
qed simp_all

lemma mul_loop_eq: "mul_loop ap bl bh c = mul_add_loop (replicate (length ap) 0) ap bl bh c"
  by (induction ap arbitrary: c) (simp_all add: Let_def mul_add_def mul_def)

theorem bn_mul_add_words_correct:
  "length rp = length ap \<Longrightarrow> bn_mul_add_words rp ap w = (rp', c) \<Longrightarrow>
   length rp' = length ap \<and>
   words_val rp' + B64 ^ length ap * uint c = words_val rp + words_val ap * uint w"
  using mul_add_loop_correct [of rp ap w 0] by (simp add: bn_mul_add_words_def)

lemma words_val_replicate_0 [simp]: "words_val (replicate n 0) = 0"
  by (induction n) simp_all

lemma bn_mul_words_correct:
  "length (fst (bn_mul_words ap w)) = length ap \<and>
   words_val (fst (bn_mul_words ap w)) + B64 ^ length ap * uint (snd (bn_mul_words ap w)) =
   words_val ap * uint w"
  using mul_add_loop_correct [of "replicate (length ap) 0" ap w 0]
  by (simp add: bn_mul_words_def mul_loop_eq)

text \<open>The carries of \<open>bn_add_words\<close> and the borrows of \<open>bn_sub_words\<close> are single bits.\<close>

lemma add_loop_correct:
  "length a = length b \<Longrightarrow> uint c \<le> 1 \<Longrightarrow>
   length (fst (add_loop a b c)) = length a \<and> uint (snd (add_loop a b c)) \<le> 1 \<and>
   words_val (fst (add_loop a b c)) + B64 ^ length a * uint (snd (add_loop a b c)) =
   words_val a + words_val b + uint c"
proof (induction a b c rule: add_loop.induct)
  case (1 a as b bs c)
  define t where "t = a + c"
  define c1 where "c1 = (if t < c then 1 else 0 :: bn_ulong)"
  define l where "l = t + b"
  define l' where "l' = b + t"
  define c2 where "c2 = c1 + (if l < t then 1 else 0)"
  have t: "uint t + B64 * uint c1 = uint a + uint c"
    using uint_add_carry [of a c] by (cases "a + c < c") (simp_all add: t_def c1_def)
  have l: "uint l + B64 * of_bool (l < t) = uint t + uint b"
    using uint_add_carry [of b t] by (simp add: l_def add.commute)
  have le: "uint c1 + of_bool (l < t) \<le> 1"
  proof (cases "t < c")
    case True
    then have "uint c1 = 1" by (simp add: c1_def)
    with t have "uint t + B64 = uint a + uint c" by simp
    then have "uint t = 0" using "1.prems"(2) uint64_bounds [of a] uint64_bounds(1) [of t]
      by linarith
    then have "l = b" by (simp add: l_def uint_0_iff)
    with l \<open>uint t = 0\<close> have "\<not> l < t" by (simp add: word_less_def)
    then show ?thesis by (simp add: c1_def)
  qed (simp add: c1_def)
  have c2: "uint c2 = uint c1 + of_bool (l < t)"
    using le by (cases "t < c"; cases "l < t") (simp_all add: c2_def c1_def)
  define rest where "rest = add_loop as bs c2"
  have "length (fst rest) = length as \<and> uint (snd rest) \<le> 1 \<and>
    words_val (fst rest) + B64 ^ length as * uint (snd rest) = words_val as + words_val bs + uint c2"
    unfolding rest_def using "1.prems"(1) le c2
    by (intro "1.IH" [OF t_def c1_def l_def c2_def]) simp_all
  moreover from this have "B64 * (words_val (fst rest) + B64 ^ length as * uint (snd rest)) =
    B64 * (words_val as + words_val bs + uint c2)" by simp
  then have "uint l + B64 * words_val (fst rest) + B64 * B64 ^ length as * uint (snd rest) =
    uint a + B64 * words_val as + (uint b + B64 * words_val bs) + uint c"
    using t l c2 by (simp add: algebra_simps)
  moreover have "add_loop (a # as) (b # bs) c = (l # fst rest, snd rest)"
    by (simp add: Let_def rest_def c2_def c1_def l_def t_def)
  ultimately show ?case by simp
qed simp_all

lemma bn_add_words_correct:
  "length a = length b \<Longrightarrow> bn_add_words a b = (r, c) \<Longrightarrow>
   length r = length a \<and> uint c \<le> 1 \<and> words_val r + B64 ^ length a * uint c = words_val a + words_val b"
  using add_loop_correct [of a b 0] by (simp add: bn_add_words_def)

lemma uint_diff_cases:
  fixes a b :: bn_ulong
  assumes "uint b + c \<le> uint a \<or> uint a < uint b + c" "0 \<le> c" "c \<le> 1"
  shows "(uint a - uint b - c) mod B64 =
    (if uint a < uint b + c then uint a - uint b - c + B64 else uint a - uint b - c)"
proof (cases "uint a < uint b + c")
  case True
  have "(uint a - uint b - c) mod B64 = (uint a - uint b - c + B64) mod B64" by simp
  also have "\<dots> = uint a - uint b - c + B64"
    using True assms uint64_bounds [of a] uint64_bounds [of b] by (intro mod_pos_pos_trivial) linarith+
  finally show ?thesis using True by simp
next
  case False
  then have "(uint a - uint b - c) mod B64 = uint a - uint b - c"
    using assms uint64_bounds [of a] uint64_bounds(1) [of b] by (intro mod_pos_pos_trivial) linarith+
  with False show ?thesis by simp
qed

lemma sub_loop_correct:
  "length a = length b \<Longrightarrow> uint c \<le> 1 \<Longrightarrow>
   length (fst (sub_loop a b c)) = length a \<and> uint (snd (sub_loop a b c)) \<le> 1 \<and>
   words_val (fst (sub_loop a b c)) - B64 ^ length a * uint (snd (sub_loop a b c)) =
   words_val a - words_val b - uint c"
proof (induction a b c rule: sub_loop.induct)
  case (1 a as b bs c)
  define r where "r = a - b - c"
  define c1 where "c1 = (if a \<noteq> b then (if a < b then 1 else 0) else c)"
  have "uint r = (uint a - uint b - uint c) mod B64" by (simp add: r_def uint_word_ariths mod_simps)
  also have "\<dots> = (if uint a < uint b + uint c then uint a - uint b - uint c + B64 else uint a - uint b - uint c)"
    using uint_diff_cases [of b "uint c" a] "1.prems"(2) uint64_bounds(1) [of c] by linarith
  finally have r: "uint r = \<dots>" .
  have c01: "uint c = 0 \<or> uint c = 1" using "1.prems"(2) uint64_bounds(1) [of c] by linarith
  have c1: "uint c1 = (if uint a < uint b + uint c then 1 else 0)"
    using c01 by (auto simp: c1_def word_less_def word_uint_eq_iff)
  define rest where "rest = sub_loop as bs c1"
  have "length (fst rest) = length as \<and> uint (snd rest) \<le> 1 \<and>
    words_val (fst rest) - B64 ^ length as * uint (snd rest) = words_val as - words_val bs - uint c1"
    unfolding rest_def using "1.prems"(1) c1 by (intro "1.IH" [OF r_def c1_def]) simp_all
  moreover from this have "B64 * (words_val (fst rest) - B64 ^ length as * uint (snd rest)) =
    B64 * (words_val as - words_val bs - uint c1)" by simp
  then have "uint r + B64 * words_val (fst rest) - B64 * B64 ^ length as * uint (snd rest) =
    uint a + B64 * words_val as - (uint b + B64 * words_val bs) - uint c"
    using r c1 by (simp add: algebra_simps split: if_splits)
  moreover have "sub_loop (a # as) (b # bs) c = (r # fst rest, snd rest)"
    by (simp add: Let_def rest_def c1_def r_def)
  ultimately show ?case by simp
qed simp_all

lemma bn_sub_words_correct:
  "length a = length b \<Longrightarrow> bn_sub_words a b = (r, c) \<Longrightarrow>
   length r = length a \<and> uint c \<le> 1 \<and> words_val r - B64 ^ length a * uint c = words_val a - words_val b"
  using sub_loop_correct [of a b 0] by (simp add: bn_sub_words_def)

lemma bn_sqr_words_val:
  "words_val (bn_sqr_words as) = (\<Sum>i<length as. B64 ^ (2 * i) * (uint (as ! i) * uint (as ! i)))"
proof (induction as)
  case (Cons a as)
  have "words_val (bn_sqr_words (a # as)) =
      (uint (fst (sqr64 a)) + B64 * uint (snd (sqr64 a))) + B64 * B64 * words_val (bn_sqr_words as)"
    by (simp add: algebra_simps)
  also have "\<dots> = uint a * uint a + (\<Sum>i<length as. B64 ^ (2 * Suc i) * (uint (as ! i) * uint (as ! i)))"
    unfolding sqr64_correct Cons.IH by (simp add: sum_distrib_left mult.assoc)
  finally show ?case by (simp add: sum.lessThan_Suc_shift del: sum.lessThan_Suc)
qed simp

text \<open>\<open>bn_mul_normal\<close> is multiplication.\<close>

lemma bn_mul_rows_correct:
  "length r = length a + i \<Longrightarrow>
   length (bn_mul_rows r a bs i) = length a + i + length bs \<and>
   words_val (bn_mul_rows r a bs i) = words_val r + B64 ^ i * (words_val a * words_val bs)"
proof (induction bs arbitrary: r i)
  case (Cons b bs)
  obtain rp c where rc: "bn_mul_add_words (drop i r) a b = (rp, c)" by force
  with Cons.prems have rp: "length rp = length a"
    "words_val rp + B64 ^ length a * uint c = words_val (drop i r) + words_val a * uint b"
    using bn_mul_add_words_correct [of "drop i r" a b rp c] by simp_all
  have len: "length (take i r) = i" using Cons.prems by simp
  have "words_val (take i r @ rp @ [c]) = words_val (take i r) + B64 ^ i * (words_val rp + B64 ^ length a * uint c)"
    using len rp(1) by (simp add: words_val_append)
  also have "\<dots> = words_val (take i r) + B64 ^ i * words_val (drop i r) + B64 ^ i * (words_val a * uint b)"
    unfolding rp(2) by (simp add: algebra_simps)
  also have "words_val (take i r) + B64 ^ i * words_val (drop i r) = words_val r"
    using words_val_append [of "take i r" "drop i r"] len by simp
  finally have v: "words_val (take i r @ rp @ [c]) = words_val r + B64 ^ i * (words_val a * uint b)" .
  have "length (take i r @ rp @ [c]) = length a + (i + 1)" using len rp(1) by simp
  from Cons.IH [OF this] v show ?case by (simp add: rc Let_def algebra_simps)
qed simp

theorem bn_mul_normal_correct:
  "length (bn_mul_normal x y) = length x + length y \<and>
   words_val (bn_mul_normal x y) = words_val x * words_val y"
proof -
  have main: "length (case b of [] \<Rightarrow> fst (bn_mul_words a 0)
      | b0 # bs \<Rightarrow> (let rc = bn_mul_words a b0 in bn_mul_rows (fst rc @ [snd rc]) a bs 1)) = length a + length b \<and>
    words_val (case b of [] \<Rightarrow> fst (bn_mul_words a 0)
      | b0 # bs \<Rightarrow> (let rc = bn_mul_words a b0 in bn_mul_rows (fst rc @ [snd rc]) a bs 1)) = words_val a * words_val b"
    for a b
  proof (cases b)
    case Nil
    have "0 \<le> words_val (fst (bn_mul_words a 0))" "0 \<le> B64 ^ length a * uint (snd (bn_mul_words a 0))"
      by simp_all
    with bn_mul_words_correct [of a 0] have "words_val (fst (bn_mul_words a 0)) = 0"
      by (simp only: unsigned_0 mult_zero_right) linarith
    with Nil bn_mul_words_correct [of a 0] show ?thesis by simp
  next
    case (Cons b0 bs)
    obtain rp c where rc: "bn_mul_words a b0 = (rp, c)" by force
    have rp: "length rp = length a" "words_val rp + B64 ^ length a * uint c = words_val a * uint b0"
      using bn_mul_words_correct [of a b0] by (simp_all add: rc)
    then have "words_val (rp @ [c]) = words_val a * uint b0" by (simp add: words_val_append)
    with bn_mul_rows_correct [of "rp @ [c]" a 1 bs] rp(1) Cons show ?thesis
      by (simp add: rc Let_def algebra_simps)
  qed
  show ?thesis
    using main [of x y] main [of y x] by (simp add: bn_mul_normal_def Let_def mult.commute)
qed

section \<open>The word routines as functions on values\<close>

lemma words_of_eqI: "length ws = n \<Longrightarrow> words_val ws = v \<Longrightarrow> words_of n v = ws"
  using words_of_words_val by blast

text \<open>
\<open>bn_mul_normal\<close> is the multiplication of natural numbers: for word arrays of any lengths it
fills exactly \<open>na + nb\<close> words with the product, built from 32-bit half products with all carries.
\<close>

theorem bn_mul_normal_product:
  "bn_mul_normal a b = words_of (length a + length b) (words_val a * words_val b)"
  using bn_mul_normal_correct [of a b] by (intro words_of_eqI [symmetric]) simp_all

text \<open>
\<open>bn_mul_add_words\<close>, the row of schoolbook multiplication and of Montgomery reduction, adds
\<open>ap * w\<close> to \<open>rp\<close>: the low words of the exact sum go to \<open>rp\<close>, the overflow is the returned carry.
\<close>

theorem bn_mul_add_words_split:
  assumes "length rp = length ap"
  shows "bn_mul_add_words rp ap w =
    (let t = words_val rp + words_val ap * uint w
     in (words_of (length ap) t, word_of_int (t div B64 ^ length ap)))"
proof -
  define t where "t = words_val rp + words_val ap * uint w"
  obtain r c where rc: "bn_mul_add_words rp ap w = (r, c)" by force
  note e = bn_mul_add_words_correct [OF assms(1) rc, folded t_def]
  have b: "0 \<le> words_val r" "words_val r < B64 ^ length ap"
    using words_val_lt [of r] e by simp_all
  have t: "t = words_val r + B64 ^ length ap * uint c" using e by simp
  have "t mod B64 ^ length ap = words_val r" "t div B64 ^ length ap = uint c"
    unfolding t using b by simp_all
  moreover from this have "words_of (length ap) t = r"
    using e by (intro iffD1 [OF words_val_inject]) (simp_all add: words_val_words_of)
  ultimately show ?thesis by (simp add: rc flip: t_def)
qed

lemma carry_bits_eq:
  "0 \<le> x \<Longrightarrow> x < K \<Longrightarrow> 0 \<le> y \<Longrightarrow> y < K \<Longrightarrow> u = 0 \<or> u = 1 \<Longrightarrow> w = 0 \<or> w = 1 \<Longrightarrow>
   y - K * w = x - K * u \<Longrightarrow> w = u \<and> y = (x::int)"
  by auto

text \<open>
Addition and subtraction of word arrays undo each other: subtracting what was added gives the
first operand back, and the borrow of the subtraction is the carry of the addition.
\<close>

theorem bn_sub_words_undoes_add:
  assumes "length a = length b"
  shows "bn_sub_words (fst (bn_add_words a b)) b = (a, snd (bn_add_words a b))"
proof -
  obtain r c where rc: "bn_add_words a b = (r, c)" by force
  obtain d w where dw: "bn_sub_words r b = (d, w)" by force
  note p = bn_add_words_correct [OF assms rc]
  with assms have l: "length r = length b" by simp
  note m = bn_sub_words_correct [OF l dw]
  have bd: "0 \<le> words_val a" "words_val a < B64 ^ length a" "0 \<le> words_val d" "words_val d < B64 ^ length a"
    using words_val_lt [of a] words_val_lt [of d] p m by simp_all
  have u: "uint c = 0 \<or> uint c = 1" "uint w = 0 \<or> uint w = 1"
    using p m uint64_bounds(1) [of c] uint64_bounds(1) [of w] by linarith+
  have "words_val d - B64 ^ length a * uint w = words_val a - B64 ^ length a * uint c"
    using p m by simp
  from carry_bits_eq [OF bd u this] have "uint w = uint c" "words_val d = words_val a" by simp_all
  with p m show ?thesis by (simp add: rc dw words_val_inject word_uint_eq_iff)
qed

theorem bn_sub_words_undoes_add_witness:
  "bn_sub_words (fst (bn_add_words [- 1, 5] [1, - 1])) [1, - 1] = ([- 1, 5], 1)"
  by (subst bn_sub_words_undoes_add) (simp, code_simp)

theorem bn_mul_add_words_split_witness:
  "bn_mul_add_words [3, 4] [- 1, 2] 5 = ([- 2, 18], 0)"
  by (subst bn_mul_add_words_split) (simp, code_simp)

end
