(* ===== verification/Bn_Value.thy ===== *)
theory Bn_Value
  imports Dbc_Prelude
begin

text \<open>
  The BIGNUM operations of \<open>crypto/bn\<close> as the elliptic-curve code sees them: a BIGNUM is the
  integer it denotes, and every routine whose C name is \<open>BN_x\<close> appears as \<open>z_x\<close>, with the
  branches and failure returns the C code has at the level of values (\<open>None\<close> is a return of 0).
  The word-level routines behind these contracts are the subject of the \<open>Bn_Words\<close>,
  \<open>Bn_Lib\<close> and \<open>Bn_Arith\<close> theories. \<open>red m x\<close> says that \<open>x\<close> is a reduced residue, the
  precondition of all the \<open>_quick\<close> routines.
\<close>

section \<open>Reduced residues and bit lengths\<close>

definition red :: "int \<Rightarrow> int \<Rightarrow> bool" where
  "red m x \<longleftrightarrow> 0 \<le> x \<and> x < m"

lemma redI [intro]: "0 \<le> x \<Longrightarrow> x < m \<Longrightarrow> red m x"
  by (simp add: red_def)

lemma red_mod [simp, intro]: "0 < m \<Longrightarrow> red m (x mod m)"
  by (simp add: red_def)

lemma red_id: "red m x \<Longrightarrow> x mod m = x"
  by (simp add: red_def)

lemma red_pos: "red m x \<Longrightarrow> 0 < m"
  by (simp add: red_def)

lemma red_eqm_eq: "red m x \<Longrightarrow> red m y \<Longrightarrow> eqm m x y \<Longrightarrow> x = y"
  by (auto simp: red_def intro: eqm_small_eq)

lemma red_dvd_0: "red m x \<Longrightarrow> m dvd x \<longleftrightarrow> x = 0"
  by (auto simp: red_def dest: zdvd_imp_le)

fun nat_bits :: "nat \<Rightarrow> nat" where
  "nat_bits n = (if n = 0 then 0 else Suc (nat_bits (n div 2)))"

declare nat_bits.simps [simp del]

definition z_num_bits :: "int \<Rightarrow> nat" where
  "z_num_bits x = nat_bits (nat \<bar>x\<bar>)"

lemma nat_bits_0 [simp]: "nat_bits 0 = 0"
  by (simp add: nat_bits.simps)

lemma nat_bits_bounds:
  "n < 2 ^ nat_bits n" "0 < n \<Longrightarrow> 2 ^ (nat_bits n - 1) \<le> n"
proof -
  have "n < 2 ^ nat_bits n \<and> (0 < n \<longrightarrow> 2 ^ (nat_bits n - 1) \<le> n)"
  proof (induction n rule: nat_bits.induct)
    case (1 n)
    show ?case
    proof (cases "n = 0")
      case False
      with 1 have IH: "n div 2 < 2 ^ nat_bits (n div 2)"
        "0 < n div 2 \<Longrightarrow> 2 ^ (nat_bits (n div 2) - 1) \<le> n div 2" by auto
      have eq: "nat_bits n = Suc (nat_bits (n div 2))"
        using False by (simp add: nat_bits.simps)
      have "2 ^ nat_bits (n div 2) \<le> n"
      proof (cases "n div 2 = 0")
        case True
        with False show ?thesis by (simp add: nat_bits.simps)
      next
        case False
        then have pos: "0 < nat_bits (n div 2)" by (subst nat_bits.simps) simp
        from False IH(2) have "2 * 2 ^ (nat_bits (n div 2) - 1) \<le> n" by simp
        with pos show ?thesis by (simp flip: power_Suc)
      qed
      moreover have "n < 2 * 2 ^ nat_bits (n div 2)" using IH(1) by linarith
      ultimately show ?thesis by (simp add: eq)
    qed simp
  qed
  then show "n < 2 ^ nat_bits n" "0 < n \<Longrightarrow> 2 ^ (nat_bits n - 1) \<le> n" by auto
qed

lemma nat_bits_le_iff: "nat_bits n \<le> k \<longleftrightarrow> n < 2 ^ k"
proof
  assume "nat_bits n \<le> k"
  then have "(2::nat) ^ nat_bits n \<le> 2 ^ k" by (simp add: power_increasing)
  with nat_bits_bounds(1) [of n] show "n < 2 ^ k" by linarith
next
  assume n: "n < 2 ^ k"
  show "nat_bits n \<le> k"
  proof (rule ccontr)
    assume "\<not> ?thesis"
    then have k: "k \<le> nat_bits n - 1" and "n \<noteq> 0" by (auto intro: Nat.gr0I)
    with nat_bits_bounds(2) have "2 ^ (nat_bits n - 1) \<le> n" by simp
    moreover from k have "(2::nat) ^ k \<le> 2 ^ (nat_bits n - 1)" by (simp add: power_increasing)
    ultimately show False using n by linarith
  qed
qed

lemma nat_bits_mono: "m \<le> n \<Longrightarrow> nat_bits m \<le> nat_bits n"
  using nat_bits_le_iff [of m "nat_bits n"] nat_bits_bounds(1) [of n] by linarith

section \<open>Remainders (\<open>BN_mod\<close>, \<open>BN_nnmod\<close>)\<close>

text \<open>\<open>BN_div\<close> truncates towards zero: the remainder has the sign of the dividend.\<close>

definition z_mod :: "int \<Rightarrow> int \<Rightarrow> int option" where
  "z_mod m d = (if d = 0 then None else Some (sgn m * (\<bar>m\<bar> mod \<bar>d\<bar>)))"

definition z_nnmod :: "int \<Rightarrow> int \<Rightarrow> int option" where
  "z_nnmod m d = do {
     r \<leftarrow> z_mod m d;
     if r \<ge> 0 then Some r
     else if d < 0 then Some (r - d) else Some (r + d)
   }"

lemma z_mod_nonneg [step_simps]: "0 \<le> m \<Longrightarrow> 0 < d \<Longrightarrow> z_mod m d = Some (m mod d)"
  by (auto simp: z_mod_def sgn_if)

lemma z_nnmod_eq [step_simps]: "0 < d \<Longrightarrow> z_nnmod m d = Some (m mod d)"
proof (cases "0 \<le> m")
  case False
  assume d: "0 < d"
  show ?thesis
  proof (cases "(- m) mod d = 0")
    case True
    then have "d dvd m" by (metis mod_0_imp_dvd dvd_minus_iff)
    with True False d show ?thesis by (simp add: z_nnmod_def z_mod_def sgn_if)
  next
    case nz: False
    have "m mod d = d - (- m) mod d"
      using zmod_zminus1_eq_if [of "- m" d] nz by (simp split: if_splits)
    moreover have "0 < (- m) mod d" using nz pos_mod_sign [OF d, of "- m"] by linarith
    ultimately show ?thesis
      using False d by (simp add: z_nnmod_def z_mod_def sgn_if)
  qed
qed (auto simp: z_nnmod_def z_mod_def sgn_if)

lemma z_nnmod_abs: "d \<noteq> 0 \<Longrightarrow> z_nnmod m d = Some (m mod \<bar>d\<bar>)"
proof (cases "0 < d")
  case False
  assume "d \<noteq> 0"
  with False have d: "0 < - d" by simp
  have "z_nnmod m d = z_nnmod m (- d)"
    using d by (auto simp: z_nnmod_def z_mod_def)
  with d show ?thesis using z_nnmod_eq [of "- d" m] by simp
qed (simp add: z_nnmod_eq)

section \<open>Modular routines (\<open>bn_mod.c\<close>)\<close>

definition z_mod_add :: "int \<Rightarrow> int \<Rightarrow> int \<Rightarrow> int option" where
  "z_mod_add a b m = z_nnmod (a + b) m"

definition z_mod_sub :: "int \<Rightarrow> int \<Rightarrow> int \<Rightarrow> int option" where
  "z_mod_sub a b m = z_nnmod (a - b) m"

definition z_mod_add_quick :: "int \<Rightarrow> int \<Rightarrow> int \<Rightarrow> int option" where
  "z_mod_add_quick a b m = (let r = a + b in Some (if r \<ge> m then r - m else r))"

definition z_mod_sub_quick :: "int \<Rightarrow> int \<Rightarrow> int \<Rightarrow> int option" where
  "z_mod_sub_quick a b m = (let r = a - b in if r < 0 then Some (r + m) else Some r)"

definition z_mod_mul :: "int \<Rightarrow> int \<Rightarrow> int \<Rightarrow> bool \<Rightarrow> int option" where
  "z_mod_mul a b m ctx =
     (if \<not> ctx then None else (let t = (if a = b then a * a else a * b) in z_nnmod t m))"

definition z_mod_sqr :: "int \<Rightarrow> int \<Rightarrow> int option" where
  "z_mod_sqr a m = z_mod (a * a) m"

definition z_mod_lshift1 :: "int \<Rightarrow> int \<Rightarrow> int option" where
  "z_mod_lshift1 a m = z_nnmod (2 * a) m"

definition z_mod_lshift1_quick :: "int \<Rightarrow> int \<Rightarrow> int option" where
  "z_mod_lshift1_quick a m = (let r = 2 * a in if r \<ge> m then Some (r - m) else Some r)"

text \<open>
  \<open>BN_mod_lshift_quick\<close>: shift by as many bits as keep the value within the bit length of
  the modulus, then subtract the modulus at most once; at least one bit per round.
\<close>

function z_mod_lshift_quick :: "int \<Rightarrow> nat \<Rightarrow> int \<Rightarrow> int option" where
  "z_mod_lshift_quick r n m =
     (if n = 0 then Some r
      else
        (let ms = int (z_num_bits m) - int (z_num_bits r) in
         if ms < 0 then None
         else
           (let max_shift = min (nat ms) n;
                k = (if max_shift = 0 then 1 else max_shift);
                r1 = r * 2 ^ k;
                r2 = (if r1 \<ge> m then r1 - m else r1)
            in z_mod_lshift_quick r2 (n - k) m)))"
  by pat_completeness auto
termination
  by (relation "measure (\<lambda>(r, n, m). n)") (auto split: if_splits)

declare z_mod_lshift_quick.simps [simp del]

definition z_mod_lshift :: "int \<Rightarrow> nat \<Rightarrow> int \<Rightarrow> int option" where
  "z_mod_lshift a n m = do {
     r \<leftarrow> z_nnmod a m;
     z_mod_lshift_quick r n (if m < 0 then - m else m)
   }"

text \<open>On reduced operands every routine computes the residue its name says.\<close>

lemma z_mod_add_quick_red [step_simps]:
  "red m a \<Longrightarrow> red m b \<Longrightarrow> z_mod_add_quick a b m = Some ((a + b) mod m)"
proof -
  assume ab: "red m a" "red m b"
  have "(a + b) mod m = (if a + b < m then a + b else a + b - m)"
  proof (cases "a + b < m")
    case False
    then have "(a + b) mod m = (a + b - m) mod m" by simp
    also have "\<dots> = a + b - m" using ab False by (intro mod_pos_pos_trivial) (auto simp: red_def)
    finally show ?thesis using False by simp
  qed (use ab in \<open>auto simp: red_def\<close>)
  then show ?thesis by (simp add: z_mod_add_quick_def)
qed

lemma z_mod_sub_quick_red [step_simps]:
  "red m a \<Longrightarrow> red m b \<Longrightarrow> z_mod_sub_quick a b m = Some ((a - b) mod m)"
proof -
  assume ab: "red m a" "red m b"
  have "(a - b) mod m = (if a - b < 0 then a - b + m else a - b)"
  proof (cases "a - b < 0")
    case True
    have "(a - b) mod m = (a - b + m) mod m" by simp
    also have "\<dots> = a - b + m" using ab True by (intro mod_pos_pos_trivial) (auto simp: red_def)
    finally show ?thesis using True by simp
  qed (use ab in \<open>auto simp: red_def\<close>)
  then show ?thesis by (simp add: z_mod_sub_quick_def)
qed

lemma z_mod_lshift1_quick_red [step_simps]:
  "red m a \<Longrightarrow> z_mod_lshift1_quick a m = Some ((2 * a) mod m)"
  using z_mod_add_quick_red [of m a a]
  by (simp add: z_mod_add_quick_def z_mod_lshift1_quick_def Let_def split: if_splits)

lemma z_mod_mul_red [step_simps]: "0 < m \<Longrightarrow> z_mod_mul a b m True = Some ((a * b) mod m)"
  by (simp add: z_mod_mul_def z_nnmod_eq)

lemma z_mod_sqr_red [step_simps]: "0 < m \<Longrightarrow> z_mod_sqr a m = Some ((a * a) mod m)"
  by (simp add: z_mod_sqr_def z_mod_nonneg)

lemma z_mod_lshift_quick_red [step_simps]:
  "red m a \<Longrightarrow> z_mod_lshift_quick a n m = Some ((a * 2 ^ n) mod m)"
proof (induction a n m rule: z_mod_lshift_quick.induct)
  case (1 r n m)
  show ?case
  proof (cases "n = 0")
    case True
    with "1.prems" show ?thesis by (simp add: z_mod_lshift_quick.simps red_id)
  next
    case False
    define ms where "ms = int (z_num_bits m) - int (z_num_bits r)"
    define mx where "mx = min (nat ms) n"
    define k where "k = (if mx = 0 then 1 else mx)"
    define r1 where "r1 = r * 2 ^ k"
    define r2 where "r2 = (if r1 \<ge> m then r1 - m else r1)"
    from "1.prems" have r: "0 \<le> r" "r < m" by (auto simp: red_def)
    have "nat_bits (nat r) \<le> nat_bits (nat m)" using r by (intro nat_bits_mono) simp
    then have ms0: "\<not> ms < 0" using r by (simp add: ms_def z_num_bits_def)
    have k: "0 < k" "k \<le> n" using False by (auto simp: k_def mx_def)
    have r1: "0 \<le> r1" "r1 < 2 * m"
    proof -
      show "0 \<le> r1" using r by (simp add: r1_def)
      show "r1 < 2 * m"
      proof (cases "k = 1")
        case True
        then show ?thesis using r by (simp add: r1_def)
      next
        case False
        then have km: "k \<le> nat ms" by (auto simp: k_def mx_def split: if_splits)
        have "nat_bits (nat r) + k \<le> nat_bits (nat m)"
          using km ms0 r by (simp add: ms_def z_num_bits_def)
        then have e: "(2::nat) ^ (nat_bits (nat r) + k) \<le> 2 ^ nat_bits (nat m)"
          by (simp add: power_increasing)
        have "nat r * 2 ^ k < 2 ^ (nat_bits (nat r) + k)"
          using nat_bits_bounds(1) [of "nat r"] by (simp add: power_add)
        also note e
        also have "(2::nat) ^ nat_bits (nat m) \<le> 2 * nat m"
        proof -
          have "0 < nat_bits (nat m)" using r by (subst nat_bits.simps) simp
          then have "(2::nat) ^ nat_bits (nat m) = 2 * 2 ^ (nat_bits (nat m) - 1)"
            by (simp flip: power_Suc)
          also have "\<dots> \<le> 2 * nat m" using nat_bits_bounds(2) [of "nat m"] r by simp
          finally show ?thesis .
        qed
        finally have "int (nat r * 2 ^ k) < int (2 * nat m)" by (simp only: of_nat_less_iff)
        then show ?thesis using r by (simp add: r1_def)
      qed
    qed
    then have r2: "red m r2" by (auto simp: r2_def red_def)
    have "z_mod_lshift_quick r n m = z_mod_lshift_quick r2 (n - k) m"
      using ms0 unfolding r2_def r1_def k_def mx_def ms_def
      by (subst z_mod_lshift_quick.simps [of r n m]) (simp only: Let_def if_False False)
    also have "\<dots> = Some ((r2 * 2 ^ (n - k)) mod m)"
      by (rule "1.IH" [OF False ms_def ms0 mx_def k_def r1_def r2_def r2])
    also have "(r2 * 2 ^ (n - k)) mod m = (r1 * 2 ^ (n - k)) mod m"
      by (intro eqm_mod_eq eqm_mult eqm_refl) (simp add: r2_def eqm_def)
    also have "r1 * 2 ^ (n - k) = r * 2 ^ n"
      using k by (simp add: r1_def mult.assoc flip: power_add)
    finally show ?thesis .
  qed
qed

end
