(* ===== verification/Bn_Inverse.thy ===== *)
theory Bn_Inverse
  imports Bn_Value
begin

text \<open>
  Modular inversion (\<open>bn_gcd.c\<close>): the binary algorithm for odd moduli up to 2048 bits, the
  general Euclidean algorithm with its small-quotient shortcuts, and the branch-free variant
  taken for operands flagged constant-time. BIGNUMs are their values; \<open>None\<close> is the
  \<open>pnoinv\<close> return. The three loops are total functions (their guards stop on operands the C
  code never reaches), and every variant is shown to return the inverse exactly when one
  exists.
\<close>

section \<open>The loops\<close>

text \<open>Divide \<open>B\<close> by its power of two and \<open>X\<close> by the same power modulo the odd \<open>n\<close>.\<close>

function inv_strip_twos :: "int \<Rightarrow> int \<Rightarrow> int \<Rightarrow> int \<times> int" where
  "inv_strip_twos n B X =
     (if B \<le> 0 \<or> odd B then (B, X)
      else
        (let X1 = (if odd X then X + \<bar>n\<bar> else X)
         in inv_strip_twos n (B div 2) (X1 div 2)))"
  by pat_completeness auto
termination
  by (relation "measure (\<lambda>(n, B, X). nat B)") auto

declare inv_strip_twos.simps [simp del]

lemma inv_strip_twos_le: "0 < B \<Longrightarrow> 0 < fst (inv_strip_twos n B X) \<and> fst (inv_strip_twos n B X) \<le> B
    \<and> odd (fst (inv_strip_twos n B X))"
proof (induction n B X rule: inv_strip_twos.induct)
  case (1 n B X)
  show ?case
  proof (cases "odd B")
    case False
    have eq: "inv_strip_twos n B X = inv_strip_twos n (B div 2) ((if odd X then X + \<bar>n\<bar> else X) div 2)"
      using False "1.prems" by (subst inv_strip_twos.simps) (simp add: Let_def)
    have "0 < B div 2" "B div 2 \<le> B" using False "1.prems" by presburger+
    with "1.IH" [OF _ refl] False "1.prems" show ?thesis unfolding eq by fastforce
  qed (use "1.prems" in \<open>simp add: inv_strip_twos.simps\<close>)
qed

function inv_binary_loop :: "int \<Rightarrow> int \<Rightarrow> int \<Rightarrow> int \<Rightarrow> int \<Rightarrow> int \<times> int" where
  "inv_binary_loop n A B X Y =
     (if B \<le> 0 \<or> A \<le> 0 then (A, Y)
      else
        (let B1 = fst (inv_strip_twos n B X); X1 = snd (inv_strip_twos n B X);
             A1 = fst (inv_strip_twos n A Y); Y1 = snd (inv_strip_twos n A Y)
         in if B1 \<ge> A1 then inv_binary_loop n A1 (B1 - A1) (X1 + Y1) Y1
            else inv_binary_loop n (A1 - B1) B1 X1 (Y1 + X1)))"
  by pat_completeness auto
termination
proof (relation "measure (\<lambda>(n, A, B, X, Y). nat A + nat B)", goal_cases)
  case (2 n A B X Y B1 X1 A1 Y1)
  then show ?case using inv_strip_twos_le [of B n X] inv_strip_twos_le [of A n Y] by auto
next
  case (3 n A B X Y B1 X1 A1 Y1)
  then show ?case using inv_strip_twos_le [of B n X] inv_strip_twos_le [of A n Y] by auto
qed simp

declare inv_binary_loop.simps [simp del]

text \<open>The update \<open>D * X + Y\<close> with its special cases for small quotients.\<close>

definition inv_mul_add :: "int \<Rightarrow> int \<Rightarrow> int \<Rightarrow> int" where
  "inv_mul_add D X Y =
     (if D = 1 then X + Y
      else (if D = 2 then 2 * X else if D = 4 then X * 2 ^ 2 else D * X) + Y)"

lemma inv_mul_add_eq: "inv_mul_add D X Y = D * X + Y"
  by (simp add: inv_mul_add_def)

text \<open>One division step of the general algorithm, with the shortcuts for quotients 1, 2, 3.\<close>

definition inv_divide :: "int \<Rightarrow> int \<Rightarrow> int \<times> int" where
  "inv_divide A B =
     (if z_num_bits A = z_num_bits B then (1, A - B)
      else if z_num_bits A = z_num_bits B + 1 then
        (let T = 2 * B in
         if A < T then (1, A - B)
         else
           (let M = A - T; D = T + B in
            if A < D then (2, M) else (3, M - B)))
      else (A div B, A mod B))"

lemma inv_divide_eq:
  assumes "0 < B" "B \<le> A"
  shows "inv_divide A B = (A div B, A mod B)"
proof -
  have dm: "(A div B, A mod B) = (q, A - q * B)" if "q * B \<le> A" "A < q * B + B" for q
  proof -
    have "A div B = q" using that assms by (intro int_div_pos_eq [of _ _ _ "A - q * B"]) auto
    then show ?thesis by (simp add: minus_div_mult_eq_mod [symmetric])
  qed
  let ?a = "nat_bits (nat A)" and ?b = "nat_bits (nat B)"
  have A: "nat A < 2 ^ ?a" and B: "2 ^ (?b - 1) \<le> nat B"
    using nat_bits_bounds(1) [of "nat A"] nat_bits_bounds(2) [of "nat B"] assms by simp_all
  have b: "0 < ?b" using assms by (subst nat_bits.simps) simp
  have pb: "(2::nat) ^ ?b = 2 * 2 ^ (?b - 1)" using b by (simp flip: power_Suc)
  show ?thesis
  proof (cases "z_num_bits A = z_num_bits B")
    case True
    then have "?a = ?b" using assms by (simp add: z_num_bits_def)
    then have "nat A < 2 ^ ?b" using A by (simp only:)
    then have "nat A < 2 * nat B" using B pb by linarith
    then have "A < 2 * B" using assms by linarith
    with dm [of 1] True assms show ?thesis by (simp add: inv_divide_def)
  next
    case ne: False
    show ?thesis
    proof (cases "z_num_bits A = z_num_bits B + 1")
      case True
      then have "?a = Suc ?b" using assms by (simp add: z_num_bits_def)
      then have "nat A < 2 ^ Suc ?b" using A by (simp only:)
      then have "nat A < 4 * nat B" using B pb unfolding power_Suc by linarith
      then have "A < 4 * B" using assms by linarith
      with dm [of 1] dm [of 2] dm [of 3] ne True assms show ?thesis
        by (simp add: inv_divide_def Let_def)
    qed (use ne in \<open>simp add: inv_divide_def\<close>)
  qed
qed

function inv_general_loop :: "int \<Rightarrow> int \<Rightarrow> int \<Rightarrow> int \<Rightarrow> int \<Rightarrow> int \<times> int \<times> int" where
  "inv_general_loop A B X Y sign =
     (if B \<le> 0 \<or> A < B then (A, Y, sign)
      else (let D = fst (inv_divide A B); M = snd (inv_divide A B)
            in inv_general_loop B M (inv_mul_add D X Y) X (- sign)))"
  by pat_completeness auto
termination
  by (relation "measure (\<lambda>(A, B, X, Y, s). nat B)") (auto simp: inv_divide_eq)

declare inv_general_loop.simps [simp del]

text \<open>The branch-free variant divides with \<open>BN_div\<close> in every round.\<close>

function inv_no_branch_loop :: "int \<Rightarrow> int \<Rightarrow> int \<Rightarrow> int \<Rightarrow> int \<Rightarrow> int \<times> int \<times> int" where
  "inv_no_branch_loop A B X Y sign =
     (if B \<le> 0 then (A, Y, sign)
      else (let D = A div B; M = A mod B
            in inv_no_branch_loop B M (D * X + Y) X (- sign)))"
  by pat_completeness auto
termination
  by (relation "measure (\<lambda>(A, B, X, Y, s). nat B)") auto

declare inv_no_branch_loop.simps [simp del]

section \<open>The entry points\<close>

text \<open>The common end of all variants: the sign of \<open>Y\<close>, the test for a unit, the reduction.\<close>

definition inv_finish :: "int \<Rightarrow> int \<times> int \<times> int \<Rightarrow> int option" where
  "inv_finish n st =
     (case st of (A, Y, sign) \<Rightarrow>
        let Y1 = (if sign < 0 then n - Y else Y) in
        if A = 1 then (if 0 \<le> Y1 \<and> \<bar>Y1\<bar> < \<bar>n\<bar> then Some Y1 else z_nnmod Y1 n)
        else None)"

definition inv_start :: "int \<Rightarrow> int \<Rightarrow> int option" where
  "inv_start a n = (if a < 0 \<or> \<bar>a\<bar> \<ge> \<bar>n\<bar> then z_nnmod a \<bar>n\<bar> else Some a)"

definition z_mod_inverse_no_branch :: "int \<Rightarrow> int \<Rightarrow> int option" where
  "z_mod_inverse_no_branch a n = do {
     B \<leftarrow> inv_start a n;
     inv_finish n (inv_no_branch_loop \<bar>n\<bar> B 1 0 (- 1))
   }"

definition int_z_mod_inverse :: "bool \<Rightarrow> int \<Rightarrow> int \<Rightarrow> int option" where
  "int_z_mod_inverse consttime a n =
     (if \<bar>n\<bar> = 1 \<or> n = 0 then None
      else if consttime then z_mod_inverse_no_branch a n
      else do {
        B \<leftarrow> inv_start a n;
        if odd n \<and> z_num_bits n \<le> 2048 then
          (let st = inv_binary_loop n \<bar>n\<bar> B 1 0 in inv_finish n (fst st, snd st, - 1))
        else inv_finish n (inv_general_loop \<bar>n\<bar> B 1 0 (- 1))
      })"

text \<open>\<open>BN_mod_inverse\<close> on operands without the constant-time flag, as the calls of the model are taken to have them.
  \<open>int_bn_mod_inverse_correct\<close> below covers both settings of the flag.\<close>

definition z_mod_inverse :: "int \<Rightarrow> int \<Rightarrow> int option" where
  "z_mod_inverse a n = int_z_mod_inverse False a n"

section \<open>Correctness\<close>

lemma eqm_abs: "eqm \<bar>n\<bar> a b \<longleftrightarrow> eqm n a b"
  by (simp add: eqm_dvd)

lemma eqm_halve:
  assumes "odd n" "eqm n (2 * x) (2 * y)"
  shows "eqm n x y"
proof -
  from assms(2) have "n dvd 2 * (x - y)" by (simp add: eqm_dvd right_diff_distrib)
  moreover have "coprime n 2" using assms(1) by simp
  ultimately have "n dvd x - y" using coprime_dvd_mult_right_iff by blast
  then show ?thesis by (simp add: eqm_dvd)
qed

lemma gcd_half:
  fixes A B :: int
  assumes "odd (gcd A B)" "even B"
  shows "gcd A (B div 2) = gcd A B"
proof -
  have "odd A" using assms by auto
  then have "coprime A 2" by simp
  then have "gcd A (2 * (B div 2)) = gcd A (B div 2)"
    by (metis gcd_mult_right_right_cancel mult.commute)
  with assms(2) show ?thesis by simp
qed

lemma inv_strip_twos_gcd:
  "odd (gcd A B) \<Longrightarrow> gcd A (fst (inv_strip_twos n B X)) = gcd A B"
proof (induction n B X rule: inv_strip_twos.induct)
  case (1 n B X)
  show ?case
  proof (cases "B \<le> 0 \<or> odd B")
    case False
    then have "gcd A (B div 2) = gcd A B" using "1.prems" gcd_half by blast
    with "1.IH" [OF False refl] "1.prems" False show ?thesis
      by (subst inv_strip_twos.simps) (simp add: Let_def)
  qed (simp add: inv_strip_twos.simps)
qed

text \<open>Halving keeps the congruence that ties the cofactor to the remainder.\<close>

lemma inv_strip_twos_rel:
  "odd n \<Longrightarrow> eqm n (c * (X * a)) B \<Longrightarrow>
    eqm n (c * (snd (inv_strip_twos n B X) * a)) (fst (inv_strip_twos n B X))"
proof (induction n B X rule: inv_strip_twos.induct)
  case (1 n B X)
  show ?case
  proof (cases "B \<le> 0 \<or> odd B")
    case False
    define X1 where "X1 = (if odd X then X + \<bar>n\<bar> else X)"
    have ev: "even X1" using "1.prems"(1) by (simp add: X1_def)
    have "eqm n X1 X" by (simp add: X1_def eqm_dvd)
    then have "eqm n (c * (X1 * a)) (c * (X * a))" by (intro eqm_intros)
    also note "1.prems"(2)
    finally have "eqm n (2 * (c * (X1 div 2 * a))) (2 * (B div 2))"
      using ev False by (auto simp: algebra_simps elim!: evenE)
    then have "eqm n (c * (X1 div 2 * a)) (B div 2)"
      by (rule eqm_halve [OF "1.prems"(1)])
    with "1.IH" [OF False X1_def] "1.prems"(1) False show ?thesis
      by (subst (1 2) inv_strip_twos.simps) (simp add: Let_def X1_def)
  qed (use "1.prems" in \<open>simp add: inv_strip_twos.simps\<close>)
qed

lemma inv_binary_loop_correct:
  "odd n \<Longrightarrow> 0 < A \<Longrightarrow> 0 \<le> B \<Longrightarrow> odd (gcd A B) \<Longrightarrow> eqm n (1 * (X * a)) B \<Longrightarrow> eqm n ((- 1) * (Y * a)) A \<Longrightarrow>
    fst (inv_binary_loop n A B X Y) = gcd A B \<and>
    eqm n ((- 1) * (snd (inv_binary_loop n A B X Y) * a)) (gcd A B)"
proof (induction n A B X Y rule: inv_binary_loop.induct)
  case (1 n A B X Y)
  show ?case
  proof (cases "B = 0")
    case True
    with "1.prems" show ?thesis by (simp add: inv_binary_loop.simps)
  next
    case False
    with "1.prems" have B: "0 < B" and ng: "\<not> (B \<le> 0 \<or> A \<le> 0)" by auto
    define B1 X1 A1 Y1 where d: "B1 = fst (inv_strip_twos n B X)" "X1 = snd (inv_strip_twos n B X)"
      "A1 = fst (inv_strip_twos n A Y)" "Y1 = snd (inv_strip_twos n A Y)"
    have g1: "gcd B1 A = gcd A B"
      unfolding d using inv_strip_twos_gcd [OF "1.prems"(4)] by (simp add: gcd.commute)
    then have "odd (gcd B1 A)" using "1.prems"(4) by simp
    then have g: "gcd A1 B1 = gcd A B"
      using inv_strip_twos_gcd [of B1 A n Y] g1 by (simp add: d(3) gcd.commute)
    have pos: "0 < A1" "0 < B1"
      using inv_strip_twos_le [OF B] inv_strip_twos_le [OF "1.prems"(2)] by (auto simp: d)
    have x: "eqm n (1 * (X1 * a)) B1" and y: "eqm n ((- 1) * (Y1 * a)) A1"
      unfolding d by (rule inv_strip_twos_rel, fact, fact)+
    have sum: "eqm n (1 * ((X1 + Y1) * a)) (B1 - A1)" "eqm n ((- 1) * ((Y1 + X1) * a)) (A1 - B1)"
      using eqm_diff [OF x y] eqm_diff [OF y x] by (simp_all add: distrib_right)
    have gd: "gcd A1 (B1 - A1) = gcd A B" "gcd (A1 - B1) B1 = gcd A B"
      using g gcd_diff1 [of B1 A1] gcd_diff1 [of A1 B1] by (simp_all add: gcd.commute)
    show ?thesis
    proof (cases "B1 \<ge> A1")
      case True
      then have "inv_binary_loop n A B X Y = inv_binary_loop n A1 (B1 - A1) (X1 + Y1) Y1"
        using ng by (subst inv_binary_loop.simps) (simp add: Let_def d)
      with "1.IH"(1) [OF ng d True] pos True gd sum y "1.prems"(1,4) show ?thesis by simp
    next
      case False
      then have "inv_binary_loop n A B X Y = inv_binary_loop n (A1 - B1) B1 X1 (Y1 + X1)"
        using ng by (subst inv_binary_loop.simps) (simp add: Let_def d)
      with "1.IH"(2) [OF ng d False] pos False gd sum x "1.prems"(1,4) show ?thesis by simp
    qed
  qed
qed

lemma inv_no_branch_loop_correct:
  "0 \<le> B \<Longrightarrow> 0 < A \<Longrightarrow> sign = 1 \<or> sign = - 1 \<Longrightarrow> eqm n (- sign * (X * a)) B \<Longrightarrow> eqm n (sign * (Y * a)) A \<Longrightarrow>
    (case inv_no_branch_loop A B X Y sign of (A', Y', sign') \<Rightarrow>
      A' = gcd A B \<and> (sign' = 1 \<or> sign' = - 1) \<and> eqm n (sign' * (Y' * a)) (gcd A B))"
proof (induction A B X Y sign rule: inv_no_branch_loop.induct)
  case (1 A B X Y sign)
  show ?case
  proof (cases "B = 0")
    case True
    with "1.prems" show ?thesis by (auto simp: inv_no_branch_loop.simps)
  next
    case False
    with "1.prems"(1) have B: "\<not> B \<le> 0" by simp
    have "eqm n (sign * (Y * a) - (A div B) * (- sign * (X * a))) (A - (A div B) * B)"
      by (intro eqm_intros "1.prems")
    then have "eqm n (- (- sign) * ((A div B * X + Y) * a)) (A mod B)"
      by (simp add: algebra_simps minus_div_mult_eq_mod [symmetric])
    then have "case inv_no_branch_loop B (A mod B) (A div B * X + Y) X (- sign) of (A', Y', sign') \<Rightarrow>
      A' = gcd B (A mod B) \<and> (sign' = 1 \<or> sign' = - 1) \<and> eqm n (sign' * (Y' * a)) (gcd B (A mod B))"
      using "1.prems" B by (intro "1.IH" [OF B refl refl]) auto
    moreover have "gcd B (A mod B) = gcd A B" by (simp add: gcd.commute flip: gcd_red_int)
    ultimately show ?thesis
      using B by (subst inv_no_branch_loop.simps) (simp add: Let_def)
  qed
qed

text \<open>The shortcuts of the general loop compute the same states as the plain division.\<close>

lemma inv_general_loop_eq:
  "0 \<le> B \<Longrightarrow> B \<le> A \<Longrightarrow> inv_general_loop A B X Y sign = inv_no_branch_loop A B X Y sign"
proof (induction A B X Y sign rule: inv_general_loop.induct)
  case (1 A B X Y sign)
  show ?case
  proof (cases "B = 0")
    case True
    then show ?thesis by (simp add: inv_general_loop.simps inv_no_branch_loop.simps)
  next
    case False
    with "1.prems" have g: "\<not> (B \<le> 0 \<or> A < B)" and B: "0 < B" by auto
    from inv_divide_eq [OF B "1.prems"(2)] have
      d: "A div B = fst (inv_divide A B)" "A mod B = snd (inv_divide A B)" by simp_all
    have "A mod B \<le> B" using B by (simp add: order_less_imp_le)
    with "1.IH" [OF g d] B show ?thesis using g
      by (subst inv_general_loop.simps, subst inv_no_branch_loop.simps)
        (simp add: Let_def inv_mul_add_eq flip: d)
  qed
qed

lemma inv_start_eq: "n \<noteq> 0 \<Longrightarrow> inv_start a n = Some (a mod \<bar>n\<bar>)"
  by (auto simp: inv_start_def z_nnmod_eq)

text \<open>The specification all three variants meet.\<close>

definition inverse_spec :: "int \<Rightarrow> int \<Rightarrow> int option \<Rightarrow> bool" where
  "inverse_spec a n r \<longleftrightarrow>
     (case r of None \<Rightarrow> gcd a n \<noteq> 1
      | Some x \<Rightarrow> gcd a n = 1 \<and> 0 \<le> x \<and> x < \<bar>n\<bar> \<and> (a * x) mod \<bar>n\<bar> = 1)"

lemma inv_finish_spec:
  assumes "n \<noteq> 0" "\<bar>n\<bar> \<noteq> 1" "A = gcd a n" "s = 1 \<or> s = - 1" "eqm n (s * (Y * a)) A"
  shows "inverse_spec a n (inv_finish n (A, Y, s))"
proof -
  define Y1 where "Y1 = (if s < 0 then n - Y else Y)"
  have "eqm n (Y1 * a) (s * (Y * a))"
    using assms(4) by (auto simp: Y1_def eqm_dvd algebra_simps)
  also note assms(5)
  finally have y: "eqm n (a * Y1) A" by (simp add: mult.commute)
  show ?thesis
  proof (cases "A = 1")
    case False
    with assms show ?thesis by (simp add: inv_finish_def inverse_spec_def Let_def)
  next
    case True
    have "inv_finish n (A, Y, s) = Some (Y1 mod \<bar>n\<bar>)"
      using True assms(1) z_nnmod_abs by (auto simp: inv_finish_def Let_def simp flip: Y1_def)
    moreover have "(a * (Y1 mod \<bar>n\<bar>)) mod \<bar>n\<bar> = 1"
    proof -
      have "(a * (Y1 mod \<bar>n\<bar>)) mod \<bar>n\<bar> = (a * Y1) mod \<bar>n\<bar>" by (simp add: mod_mult_right_eq)
      also have "\<dots> = 1 mod \<bar>n\<bar>" using y True by (simp flip: eqm_def add: eqm_abs)
      finally show ?thesis using assms(1,2) by simp
    qed
    ultimately show ?thesis using True assms by (simp add: inverse_spec_def)
  qed
qed

lemma gcd_mod_abs: "gcd n (a mod \<bar>n\<bar>) = gcd a (n::int)"
proof -
  have "gcd n (a mod \<bar>n\<bar>) = gcd \<bar>n\<bar> (a mod \<bar>n\<bar>)" by simp
  also have "\<dots> = gcd a \<bar>n\<bar>" by (rule gcd_red_int [symmetric])
  finally show ?thesis by simp
qed

lemma inv_start_rel:
  assumes "n \<noteq> 0"
  shows "eqm n (1 * (1 * a)) (a mod \<bar>n\<bar>)" "eqm n ((- 1) * (0 * a)) \<bar>n\<bar>"
proof -
  have "eqm \<bar>n\<bar> a (a mod \<bar>n\<bar>)" by (simp add: eqm_def)
  then show "eqm n (1 * (1 * a)) (a mod \<bar>n\<bar>)" by (simp add: eqm_abs)
  show "eqm n ((- 1) * (0 * a)) \<bar>n\<bar>" by (simp add: eqm_dvd)
qed

lemma z_mod_inverse_no_branch_spec:
  assumes "\<bar>n\<bar> \<noteq> 1" "n \<noteq> 0"
  shows "inverse_spec a n (z_mod_inverse_no_branch a n)"
proof -
  obtain A Y s where st: "inv_no_branch_loop \<bar>n\<bar> (a mod \<bar>n\<bar>) 1 0 (- 1) = (A, Y, s)"
    by (cases "inv_no_branch_loop \<bar>n\<bar> (a mod \<bar>n\<bar>) 1 0 (- 1)")
  have "A = gcd a n \<and> (s = 1 \<or> s = - 1) \<and> eqm n (s * (Y * a)) A"
    using inv_no_branch_loop_correct [of "a mod \<bar>n\<bar>" "\<bar>n\<bar>" "- 1" n 1 a 0] st assms
      inv_start_rel [OF assms(2), of a] by (auto simp: gcd_mod_abs)
  then have "inverse_spec a n (inv_finish n (A, Y, s))"
    using inv_finish_spec assms by blast
  then show ?thesis
    using st assms by (simp add: z_mod_inverse_no_branch_def inv_start_eq)
qed

lemma inv_general_spec:
  assumes "\<bar>n\<bar> \<noteq> 1" "n \<noteq> 0"
  shows "inverse_spec a n (inv_finish n (inv_general_loop \<bar>n\<bar> (a mod \<bar>n\<bar>) 1 0 (- 1)))"
proof -
  have "a mod \<bar>n\<bar> \<le> \<bar>n\<bar>" using assms(2) by (simp add: order_less_imp_le)
  then show ?thesis
    using z_mod_inverse_no_branch_spec [OF assms, of a] assms
    by (simp add: inv_general_loop_eq z_mod_inverse_no_branch_def inv_start_eq)
qed

lemma inv_binary_spec:
  assumes "\<bar>n\<bar> \<noteq> 1" "odd n"
  shows "inverse_spec a n (inv_finish n (fst (inv_binary_loop n \<bar>n\<bar> (a mod \<bar>n\<bar>) 1 0),
    snd (inv_binary_loop n \<bar>n\<bar> (a mod \<bar>n\<bar>) 1 0), - 1))"
proof -
  from assms(2) have n: "n \<noteq> 0" by auto
  have "odd (gcd \<bar>n\<bar> (a mod \<bar>n\<bar>))" using assms(2) by auto
  with inv_binary_loop_correct [OF assms(2), of "\<bar>n\<bar>" "a mod \<bar>n\<bar>" 1 a 0] inv_start_rel [OF n, of a] n
  show ?thesis by (intro inv_finish_spec) (auto simp: gcd_mod_abs assms)
qed

lemma z_mod_inverse_spec:
  "\<bar>n\<bar> \<noteq> 1 \<Longrightarrow> n \<noteq> 0 \<Longrightarrow> inverse_spec a n (int_z_mod_inverse consttime a n)"
  using z_mod_inverse_no_branch_spec inv_general_spec inv_binary_spec
  by (auto simp: int_z_mod_inverse_def inv_start_eq Let_def)

section \<open>The contract for callers\<close>

text \<open>
C36: \<open>BN_mod_inverse\<close> decides invertibility and computes the inverse: for every modulus with
\<open>|n| > 1\<close> and either setting of the constant-time flag it fails exactly when \<open>gcd(a, n) \<noteq> 1\<close>, and
otherwise returns the \<open>x\<close> in \<open>[0, |n|)\<close> with \<open>a x = 1\<close> modulo \<open>|n|\<close>; the binary, the general and
the branch-free algorithm agree.
\<close>

theorem int_bn_mod_inverse_correct:
  assumes "1 < \<bar>n\<bar>"
  shows "case int_z_mod_inverse consttime a n of
      None \<Rightarrow> gcd a n \<noteq> 1
    | Some x \<Rightarrow> gcd a n = 1 \<and> 0 \<le> x \<and> x < \<bar>n\<bar> \<and> (a * x) mod \<bar>n\<bar> = 1"
proof -
  from assms have "\<bar>n\<bar> \<noteq> 1" "n \<noteq> 0" by auto
  from z_mod_inverse_spec [OF this, of a consttime] show ?thesis by (simp add: inverse_spec_def)
qed

theorem int_bn_mod_inverse_correct_witness:
  "case int_z_mod_inverse False 10 (- 21) of
      None \<Rightarrow> False | Some x \<Rightarrow> 0 \<le> x \<and> x < 21 \<and> (10 * x) mod 21 = 1"
  using int_bn_mod_inverse_correct [of "- 21" 10 False] by (simp add: split: option.splits) code_simp

end
