(* ===== verification/Bn_Mont.thy ===== *)
theory Bn_Mont
  imports Bn_Words Bn_Inverse
begin

text \<open>
  Montgomery arithmetic (\<open>bn_mont.c\<close>, the \<open>MONT_WORD\<close> variant without assembly). The reduction
  works on word arrays exactly as the C code does: one \<open>bn_mul_add_words\<close> row per word of the
  modulus, the carry kept beside the array, and the final subtraction selected by a mask.
  The context setup computes \<open>n0\<close> by the modular inversion of \<open>Bn_Inverse\<close>. The lemmas show
  that on a context built by \<open>BN_MONT_CTX_set\<close> the routines multiply, encode and decode modulo
  the modulus.
\<close>

section \<open>The context\<close>

record bn_mont_ctx =
  mont_ri :: nat
  mont_RR :: "bn_ulong list"
  mont_N :: "bn_ulong list"
  mont_n0 :: bn_ulong

definition z_top :: "int \<Rightarrow> nat" where
  "z_top x = (z_num_bits x + 63) div 64"

definition z_words :: "int \<Rightarrow> bn_ulong list" where
  "z_words x = words_of (z_top x) \<bar>x\<bar>"

text \<open>\<open>n0\<close>: minus the inverse of the low word of the modulus, computed as
  \<open>(2\<^sup>6\<^sup>4 * Ri - 1) / N\<^sub>0\<close> with \<open>Ri\<close> the inverse of \<open>2\<^sup>6\<^sup>4\<close>.\<close>

definition mont_set_n0 :: "int \<Rightarrow> bn_ulong option" where
  "mont_set_n0 tmod = do {
     Ri \<leftarrow> (if tmod = 1 then Some 0 else z_mod_inverse (2 ^ 64) tmod);
     let Ri = Ri * 2 ^ 64;
     let Ri = (if Ri \<noteq> 0 then Ri - 1 else 2 ^ 64 - 1);
     (if tmod = 0 then None else Some (word_of_int (Ri div tmod)))
   }"

definition BN_MONT_CTX_set :: "int \<Rightarrow> bool \<Rightarrow> bn_mont_ctx option" where
  "BN_MONT_CTX_set md ctx =
     (if md = 0 then None
      else if \<not> ctx then None
      else do {
        let N = z_words md;
        let ri = (z_num_bits md + 63) div 64 * 64;
        n0 \<leftarrow> mont_set_n0 (uint (hd N));
        RR \<leftarrow> z_mod (2 ^ (ri * 2)) \<bar>md\<bar>;
        Some \<lparr>mont_ri = ri, mont_RR = words_of (length N) RR, mont_N = N, mont_n0 = n0\<rparr>
      })"

section \<open>Reduction\<close>

text \<open>One row: clear word \<open>i\<close> by adding a multiple of the modulus, push the carry into
  word \<open>i + nl\<close>.\<close>

fun mont_rows :: "bn_ulong list \<Rightarrow> bn_ulong list \<Rightarrow> bn_ulong \<Rightarrow> nat \<Rightarrow> bool \<Rightarrow> nat \<Rightarrow> bn_ulong list \<times> bool" where
  "mont_rows r np n0 i carry 0 = (r, carry)"
| "mont_rows r np n0 i carry (Suc k) =
     (let nl = length np;
          rc = bn_mul_add_words (take nl (drop i r)) np (r ! i * n0);
          old = r ! (i + nl);
          v = snd rc + of_bool carry + old;
          carry' = ((carry \<or> v \<noteq> old) \<and> v \<le> old)
      in mont_rows (take i r @ fst rc @ v # drop (i + nl + 1) r) np n0 (i + 1) carry' k)"

definition mask_select :: "bn_ulong \<Rightarrow> bn_ulong \<Rightarrow> bn_ulong \<Rightarrow> bn_ulong" where
  "mask_select m a r = ((m AND a) OR (NOT m AND r))"

text \<open>\<open>bn_from_montgomery_word\<close>: the words of \<open>r\<close> above its top are cleared first.\<close>

definition bn_from_montgomery_word :: "bn_ulong list \<Rightarrow> bn_mont_ctx \<Rightarrow> bn_ulong list" where
  "bn_from_montgomery_word r mont =
     (let np = mont_N mont; nl = length np in
      if nl = 0 then []
      else
        (let r0 = take (2 * nl) (r @ replicate (2 * nl) 0);
             rows = mont_rows r0 np (mont_n0 mont) 0 False nl;
             ap = drop nl (fst rows);
             sb = bn_sub_words ap np;
             carry = of_bool (snd rows) - snd sb
         in map2 (mask_select carry) ap (fst sb)))"

definition bn_mul_mont_fixed_top :: "bn_ulong list \<Rightarrow> bn_ulong list \<Rightarrow> bn_mont_ctx \<Rightarrow> bool \<Rightarrow> bn_ulong list option" where
  "bn_mul_mont_fixed_top a b mont ctx =
     (let num = length (mont_N mont) in
      if length a + length b > 2 * num then None
      else if \<not> ctx then None
      else Some (bn_from_montgomery_word (bn_mul_normal a b) mont))"

definition bn_from_mont_fixed_top :: "bn_ulong list \<Rightarrow> bn_mont_ctx \<Rightarrow> bool \<Rightarrow> bn_ulong list option" where
  "bn_from_mont_fixed_top a mont ctx =
     (if \<not> ctx then None else Some (bn_from_montgomery_word a mont))"

definition bn_to_mont_fixed_top :: "bn_ulong list \<Rightarrow> bn_mont_ctx \<Rightarrow> bool \<Rightarrow> bn_ulong list option" where
  "bn_to_mont_fixed_top a mont ctx = bn_mul_mont_fixed_top a (mont_RR mont) mont ctx"

text \<open>The interface to the curve code: BIGNUM values in, values out (\<open>bn_correct_top\<close> drops the
  padding). The sign of the product is carried through.\<close>

definition z_mod_mul_montgomery :: "int \<Rightarrow> int \<Rightarrow> bn_mont_ctx \<Rightarrow> bool \<Rightarrow> int option" where
  "z_mod_mul_montgomery a b mont ctx = do {
     r \<leftarrow> bn_mul_mont_fixed_top (z_words a) (z_words b) mont ctx;
     Some (if (a < 0) \<noteq> (b < 0) then - words_val r else words_val r)
   }"

definition z_to_montgomery :: "int \<Rightarrow> bn_mont_ctx \<Rightarrow> bool \<Rightarrow> int option" where
  "z_to_montgomery a mont ctx = do {
     r \<leftarrow> bn_mul_mont_fixed_top (z_words a) (mont_RR mont) mont ctx;
     Some (if a < 0 then - words_val r else words_val r)
   }"

definition z_from_montgomery :: "int \<Rightarrow> bn_mont_ctx \<Rightarrow> bool \<Rightarrow> int option" where
  "z_from_montgomery a mont ctx = do {
     r \<leftarrow> bn_from_mont_fixed_top (z_words a) mont ctx;
     Some (if a < 0 then - words_val r else words_val r)
   }"

section \<open>Correctness of the reduction\<close>

definition mont_nv :: "bn_mont_ctx \<Rightarrow> int" where
  "mont_nv mont = words_val (mont_N mont)"

definition mont_R :: "bn_mont_ctx \<Rightarrow> int" where
  "mont_R mont = B64 ^ length (mont_N mont)"

definition mont_ok :: "bn_mont_ctx \<Rightarrow> bool" where
  "mont_ok mont \<longleftrightarrow> mont_N mont \<noteq> [] \<and> 0 < mont_nv mont \<and> odd (mont_nv mont) \<and>
     mont_N mont = z_words (mont_nv mont) \<and>
     mont_n0 mont * hd (mont_N mont) = - 1 \<and>
     length (mont_RR mont) = length (mont_N mont) \<and>
     words_val (mont_RR mont) = (mont_R mont * mont_R mont) mod mont_nv mont"

lemma carry_step:
  fixes v0 old :: bn_ulong
  shows "uint (v0 + of_bool c + old) +
     B64 * of_bool ((c \<or> v0 + of_bool c + old \<noteq> old) \<and> v0 + of_bool c + old \<le> old) =
     uint v0 + of_bool c + uint old"
proof (cases "uint v0 + of_bool c + uint old < B64")
  case True
  have "uint (v0 + of_bool c + old) = (uint v0 + of_bool c + uint old) mod B64"
    by (cases c) (simp_all add: uint_word_ariths mod_simps)
  with True have e: "uint (v0 + of_bool c + old) = uint v0 + of_bool c + uint old"
    using uint64_bounds(1) [of v0] uint64_bounds(1) [of old] by (cases c) simp_all
  have "\<not> uint v0 + 1 \<le> 0" using uint64_bounds(1) [of v0] by linarith
  with e have "\<not> ((c \<or> v0 + of_bool c + old \<noteq> old) \<and> v0 + of_bool c + old \<le> old)"
    by (cases c) (auto simp: word_le_def word_uint_eq_iff)
  then show ?thesis unfolding e by (simp only: of_bool_eq if_False)
next
  case False
  have "uint (v0 + of_bool c + old) = (uint v0 + of_bool c + uint old) mod B64"
    by (cases c) (simp_all add: uint_word_ariths mod_simps)
  also have "\<dots> = (uint v0 + of_bool c + uint old - B64) mod B64" by simp
  also have "\<dots> = uint v0 + of_bool c + uint old - B64"
    using False uint64_bounds(2) [of v0] uint64_bounds(2) [of old]
    by (intro mod_pos_pos_trivial) (cases c, simp_all)+
  finally have e: "uint (v0 + of_bool c + old) = uint v0 + of_bool c + uint old - B64" .
  then have "(c \<or> v0 + of_bool c + old \<noteq> old) \<and> v0 + of_bool c + old \<le> old"
    using False uint64_bounds(2) [of v0] uint64_bounds(2) [of old]
    by (cases c) (auto simp: word_le_def word_uint_eq_iff)
  with e show ?thesis by simp
qed

lemma words_val_take_drop:
  "i \<le> length r \<Longrightarrow> words_val r = words_val (take i r) + B64 ^ i * words_val (drop i r)"
  using words_val_append [of "take i r" "drop i r"] by (simp add: min_absorb2)

lemma words_val_drop_split:
  "i + n < length r \<Longrightarrow> words_val (drop i r) =
    words_val (take n (drop i r)) + B64 ^ n * (uint (r ! (i + n)) + B64 * words_val (drop (i + n + 1) r))"
proof -
  assume l: "i + n < length r"
  have "drop i r = take n (drop i r) @ r ! (i + n) # drop (i + n + 1) r"
    using l by (metis Cons_nth_drop_Suc add.commute append_take_drop_id drop_drop Suc_eq_plus1)
  then have "words_val (drop i r) = words_val (take n (drop i r) @ r ! (i + n) # drop (i + n + 1) r)"
    by simp
  also have "\<dots> = words_val (take n (drop i r)) + B64 ^ length (take n (drop i r)) *
      (uint (r ! (i + n)) + B64 * words_val (drop (i + n + 1) r))" by (simp add: words_val_append)
  also have "length (take n (drop i r)) = n" using l by simp
  finally show ?thesis .
qed

text \<open>Each row adds a multiple of the modulus and clears one more word.\<close>

lemma mont_rows_correct:
  assumes "np \<noteq> []" "n0 * hd np = - 1"
  shows "length r = i + k + length np \<Longrightarrow> take i r = replicate i 0 \<Longrightarrow>
    \<exists>M. 0 \<le> M \<and> M < B64 ^ k \<and>
      length (fst (mont_rows r np n0 i carry k)) = i + k + length np \<and>
      take (i + k) (fst (mont_rows r np n0 i carry k)) = replicate (i + k) 0 \<and>
      words_val (fst (mont_rows r np n0 i carry k)) + B64 ^ (i + k + length np) * of_bool (snd (mont_rows r np n0 i carry k)) =
      words_val r + B64 ^ (i + length np) * of_bool carry + words_val np * (B64 ^ i * M)"
proof (induction k arbitrary: r i carry)
  case 0
  then show ?case by (intro exI [of _ 0]) simp
next
  case (Suc k)
  define nl where "nl = length np"
  define w where "w = r ! i * n0"
  define win where "win = take nl (drop i r)"
  obtain rp v0 where rc: "bn_mul_add_words win np w = (rp, v0)" by force
  define old where "old = r ! (i + nl)"
  define v where "v = v0 + of_bool carry + old"
  define carry' where "carry' = ((carry \<or> v \<noteq> old) \<and> v \<le> old)"
  define r' where "r' = take i r @ rp @ v # drop (i + nl + 1) r"
  have nl: "0 < nl" using assms(1) by (simp add: nl_def)
  have lw: "length win = nl" using Suc.prems(1) by (simp add: win_def nl_def)
  have rp: "length rp = nl" "words_val rp + B64 ^ nl * uint v0 = words_val win + words_val np * uint w"
    using bn_mul_add_words_correct [OF _ rc] lw by (simp_all add: nl_def)
  obtain n n' where np: "np = n # n'" using assms(1) by (cases np) auto
  have hdwin: "\<exists>ws. win = r ! i # ws"
    using nl Suc.prems(1) by (cases nl) (auto simp: win_def take_Suc_conv_app_nth Cons_nth_drop_Suc [symmetric])
  have rp0: "\<exists>rs. rp = 0 # rs"
  proof -
    obtain z zs where z: "rp = z # zs" using rp(1) nl by (cases rp) auto
    obtain ws where ws: "win = r ! i # ws" using hdwin by blast
    have "uint z mod B64 = (words_val rp + B64 ^ nl * uint v0) mod B64"
    proof -
      have "B64 ^ nl = B64 * B64 ^ (nl - 1)" using nl by (simp flip: power_Suc)
      then have "words_val rp + B64 ^ nl * uint v0 = uint z + B64 * (words_val zs + B64 ^ (nl - 1) * uint v0)"
        by (simp only: z words_val.simps) (simp only: algebra_simps)
      then show ?thesis by (simp only: mod_mult_self2)
    qed
    also have "\<dots> = (uint (r ! i) + uint n * uint w) mod B64"
    proof -
      have "words_val win + words_val np * uint w =
          uint (r ! i) + uint n * uint w + B64 * (words_val ws + words_val n' * uint w)"
        by (simp only: ws np words_val.simps) (simp only: algebra_simps)
      then show ?thesis unfolding rp(2) by (simp only: mod_mult_self2)
    qed
    also have "\<dots> = uint (r ! i + n * w)" by (simp add: uint_word_ariths mod_simps)
    also have "n * w = r ! i * (n0 * n)" by (simp add: w_def mult_ac)
    also have "n0 * n = - 1" using assms(2) by (simp add: np)
    finally have "uint z = 0" using uint64_bounds [of z] by simp
    with z show ?thesis by (simp add: uint_0_iff)
  qed
  have len': "length r' = (i + 1) + k + length np"
    using Suc.prems(1) rp(1) by (simp add: r'_def nl_def)
  have low': "take (i + 1) r' = replicate (i + 1) 0"
  proof -
    obtain rs where "rp = 0 # rs" using rp0 by blast
    then have "take (i + 1) r' = take i r @ [0]" using Suc.prems(1) by (simp add: r'_def)
    with Suc.prems(2) show ?thesis by (simp add: replicate_append_same)
  qed
  have val: "words_val r' + B64 ^ (i + 1 + nl) * of_bool carry' =
      words_val r + B64 ^ (i + nl) * of_bool carry + words_val np * (B64 ^ i * uint w)"
  proof -
    have cs: "uint v + B64 * of_bool carry' = uint v0 + of_bool carry + uint old"
      unfolding v_def carry'_def by (rule carry_step)
    have "words_val r' = words_val (take i r) + B64 ^ i * (words_val rp + B64 ^ nl * (uint v + B64 * words_val (drop (i + nl + 1) r)))"
      using Suc.prems(1) rp(1) by (simp add: r'_def words_val_append min_def)
    then have "words_val r' + B64 ^ (i + 1 + nl) * of_bool carry' =
        words_val (take i r) + B64 ^ i * (words_val rp + B64 ^ nl * ((uint v + B64 * of_bool carry') + B64 * words_val (drop (i + nl + 1) r)))"
      by (simp add: algebra_simps power_add)
    also have "\<dots> = words_val (take i r) + B64 ^ i * ((words_val rp + B64 ^ nl * uint v0)
        + B64 ^ nl * (uint old + B64 * words_val (drop (i + nl + 1) r))) + B64 ^ (i + nl) * of_bool carry"
      unfolding cs by (simp add: algebra_simps power_add)
    also have "\<dots> = words_val (take i r) + B64 ^ i * (words_val win
        + B64 ^ nl * (uint old + B64 * words_val (drop (i + nl + 1) r)))
        + B64 ^ (i + nl) * of_bool carry + words_val np * (B64 ^ i * uint w)"
      unfolding rp(2) by (simp add: algebra_simps)
    also have "words_val win + B64 ^ nl * (uint old + B64 * words_val (drop (i + nl + 1) r)) = words_val (drop i r)"
      using words_val_drop_split [of i nl r] Suc.prems(1) by (simp add: win_def old_def nl_def)
    also have "words_val (take i r) + B64 ^ i * words_val (drop i r) = words_val r"
      using words_val_take_drop [of i r] Suc.prems(1) by simp
    finally show ?thesis .
  qed
  have step: "mont_rows r np n0 i carry (Suc k) = mont_rows r' np n0 (i + 1) carry' k"
    using rc by (simp add: Let_def r'_def carry'_def v_def old_def win_def w_def nl_def)
  from Suc.IH [OF len' low', of carry'] obtain M where M: "0 \<le> M" "M < B64 ^ k"
    "length (fst (mont_rows r' np n0 (i + 1) carry' k)) = i + 1 + k + length np"
    "take (i + 1 + k) (fst (mont_rows r' np n0 (i + 1) carry' k)) = replicate (i + 1 + k) 0"
    "words_val (fst (mont_rows r' np n0 (i + 1) carry' k)) + B64 ^ (i + 1 + k + length np) * of_bool (snd (mont_rows r' np n0 (i + 1) carry' k)) =
      words_val r' + B64 ^ (i + 1 + length np) * of_bool carry' + words_val np * (B64 ^ (i + 1) * M)" by blast
  have e: "i + Suc k = i + 1 + k" by simp
  have "uint w + B64 * M < B64 ^ Suc k"
  proof -
    have "M \<le> B64 ^ k - 1" using M(2) by linarith
    then have "B64 * M \<le> B64 * (B64 ^ k - 1)" by (intro mult_left_mono) simp_all
    with uint64_bounds(2) [of w] show ?thesis by (simp add: right_diff_distrib)
  qed
  moreover have "words_val r' + B64 ^ (i + 1 + length np) * of_bool carry' + words_val np * (B64 ^ (i + 1) * M) =
      words_val r + B64 ^ (i + length np) * of_bool carry + words_val np * (B64 ^ i * (uint w + B64 * M))"
    using val unfolding nl_def by (simp add: algebra_simps)
  ultimately show ?case
    unfolding step e using M uint64_bounds(1) [of w]
    by (intro exI [of _ "uint w + B64 * M"] conjI) simp_all
qed

lemma mask_select_0 [simp]: "mask_select 0 a r = r"
  by (simp add: mask_select_def)

lemma mask_select_m1 [simp]: "mask_select (- 1) a r = a"
  by (simp add: mask_select_def)

lemma map2_snd: "length xs = length ys \<Longrightarrow> map2 (\<lambda>a r. r) xs ys = ys"
  by (induction xs ys rule: list_induct2) simp_all

lemma map2_fst: "length xs = length ys \<Longrightarrow> map2 (\<lambda>a r. a) xs ys = xs"
  by (induction xs ys rule: list_induct2) simp_all

text \<open>The masked final subtraction brings a value below \<open>2 * N\<close> into range.\<close>

lemma final_subtract:
  assumes "length ap = length np" "words_val ap + B64 ^ length np * of_bool c < 2 * words_val np"
    "bn_sub_words ap np = (rp, bw)"
  shows "length (map2 (mask_select (of_bool c - bw)) ap rp) = length np"
    "words_val (map2 (mask_select (of_bool c - bw)) ap rp) =
      (words_val ap + B64 ^ length np * of_bool c) mod words_val np"
proof -
  define A where "A = words_val ap + B64 ^ length np * of_bool c"
  let ?R = "B64 ^ length np"
  have sb: "length rp = length ap" "uint bw \<le> 1" "words_val rp - ?R * uint bw = words_val ap - words_val np"
    using bn_sub_words_correct [OF assms(1,3)] assms(1) by simp_all
  show "length (map2 (mask_select (of_bool c - bw)) ap rp) = length np"
    using sb(1) assms(1) by simp
  have rpb: "0 \<le> words_val rp" "words_val rp < ?R" using words_val_lt [of rp] sb(1) assms(1) by simp_all
  have npb: "words_val np < ?R" using words_val_lt [of np] .
  have bw: "bw = 0 \<or> bw = 1" using sb(2) uint64_bounds(1) [of bw]
    by (metis unsigned_0 unsigned_1 word_uint_eqI zle_iff_zadd add.commute add_0 int_one_le_iff_zero_less le_less order_antisym)
  have A2: "A < 2 * words_val np" using assms(2) by (simp add: A_def)
  have A0: "0 \<le> A" by (simp add: A_def)
  consider "c" "bw = 1" | "c" "bw = 0" | "\<not> c" "bw = 0" | "\<not> c" "bw = 1" using bw by blast
  then show "words_val (map2 (mask_select (of_bool c - bw)) ap rp) = A mod words_val np"
  proof cases
    case 1
    then have "words_val rp = A - words_val np" using sb(3) by (simp add: A_def)
    moreover have "A mod words_val np = (A - words_val np) mod words_val np" by simp
    moreover have "\<dots> = A - words_val np" using A2 rpb calculation(1) by (intro mod_pos_pos_trivial) linarith+
    ultimately show ?thesis using 1 sb(1) by (simp add: map2_snd)
  next
    case 2
    then have "words_val rp = words_val ap - words_val np" using sb(3) by simp
    with A2 2 npb rpb show ?thesis by (simp add: A_def)
  next
    case 3
    then have "words_val rp = A - words_val np" using sb(3) by (simp add: A_def)
    moreover have "A mod words_val np = (A - words_val np) mod words_val np" by simp
    moreover have "\<dots> = A - words_val np" using A2 rpb calculation(1) by (intro mod_pos_pos_trivial) linarith+
    ultimately show ?thesis using 3 sb(1) by (simp add: map2_snd)
  next
    case 4
    then have "A < words_val np" using sb(3) rpb by (simp add: A_def)
    with A0 4 sb(1) show ?thesis by (simp add: map2_fst A_def)
  qed
qed

theorem bn_from_montgomery_word_correct:
  assumes "mont_ok mont" "length r \<le> 2 * length (mont_N mont)"
    "words_val r < mont_nv mont * mont_R mont"
  shows "length (bn_from_montgomery_word r mont) = length (mont_N mont)"
    "red (mont_nv mont) (words_val (bn_from_montgomery_word r mont))"
    "eqm (mont_nv mont) (words_val (bn_from_montgomery_word r mont) * mont_R mont) (words_val r)"
proof -
  define np where "np = mont_N mont"
  define nl where "nl = length np"
  define r0 where "r0 = take (2 * nl) (r @ replicate (2 * nl) 0)"
  define rows where "rows = mont_rows r0 np (mont_n0 mont) 0 False nl"
  define ap where "ap = drop nl (fst rows)"
  obtain rp bw where sb: "bn_sub_words ap np = (rp, bw)" by force
  define res where "res = bn_from_montgomery_word r mont"
  have np: "np \<noteq> []" "mont_n0 mont * hd np = - 1" "0 < words_val np"
    using assms(1) by (simp_all add: mont_ok_def np_def mont_nv_def)
  then have nl0: "nl \<noteq> 0" by (simp add: nl_def)
  have r0: "length r0 = 0 + nl + length np" "words_val r0 = words_val r"
  proof -
    show "length r0 = 0 + nl + length np" by (simp add: r0_def nl_def)
    have "r0 = r @ replicate (2 * nl - length r) 0" using assms(2) by (simp add: r0_def nl_def np_def)
    then show "words_val r0 = words_val r" by (simp add: words_val_append)
  qed
  from mont_rows_correct [OF np(1,2) r0(1), of False] obtain M where
    M: "0 \<le> M" "M < B64 ^ nl" "length (fst rows) = nl + nl" "take nl (fst rows) = replicate nl 0"
    "words_val (fst rows) + B64 ^ (nl + nl) * of_bool (snd rows) = words_val r0 + words_val np * M"
    by (auto simp: rows_def nl_def)
  define A where "A = words_val ap + B64 ^ length np * of_bool (snd rows)"
  have RA: "B64 ^ nl * A = words_val r + words_val np * M"
  proof -
    have "words_val (fst rows) = B64 ^ nl * words_val ap"
      using words_val_take_drop [of nl "fst rows"] M(3,4) by (simp add: ap_def)
    then show ?thesis using M(5) r0(2) by (simp add: A_def nl_def power_add algebra_simps)
  qed
  have A2: "A < 2 * words_val np"
  proof -
    have "words_val np * M \<le> words_val np * B64 ^ nl" using M(2) np(3) by (intro mult_left_mono) simp_all
    moreover have "words_val r < words_val np * B64 ^ nl"
      using assms(3) by (simp add: mont_nv_def mont_R_def np_def nl_def)
    ultimately have "B64 ^ nl * A < B64 ^ nl * (2 * words_val np)" using RA by (simp add: algebra_simps)
    then show ?thesis by (simp only: mult_less_cancel_left_pos zero_less_power zero_less_numeral)
  qed
  have lap: "length ap = length np" using M(3) by (simp add: ap_def nl_def)
  have res: "res = map2 (mask_select (of_bool (snd rows) - bw)) ap rp"
    using nl0 sb by (simp add: res_def bn_from_montgomery_word_def Let_def np_def nl_def r0_def rows_def ap_def)
  note fs = final_subtract [OF lap A2 [unfolded A_def] sb, folded A_def]
  show "length (bn_from_montgomery_word r mont) = length (mont_N mont)"
    using fs(1) res by (simp add: res_def np_def)
  have v: "words_val res = A mod words_val np" using fs(2) res by simp
  then show "red (mont_nv mont) (words_val (bn_from_montgomery_word r mont))"
    using np(3) by (simp add: mont_nv_def np_def res_def)
  have "eqm (words_val np) (words_val res * B64 ^ nl) (A * B64 ^ nl)"
    unfolding v by (intro eqm_intros) (simp add: eqm_def)
  also have "A * B64 ^ nl = words_val r + words_val np * M" using RA by (simp add: mult.commute)
  also have "eqm (words_val np) \<dots> (words_val r)" by (simp add: eqm_def)
  finally show "eqm (mont_nv mont) (words_val (bn_from_montgomery_word r mont) * mont_R mont) (words_val r)"
    by (simp add: mont_nv_def mont_R_def np_def nl_def res_def)
qed

section \<open>The value interface\<close>

lemma z_top_le_iff: "z_top x \<le> n \<longleftrightarrow> \<bar>x\<bar> < B64 ^ n"
proof -
  have "z_top x \<le> n \<longleftrightarrow> z_num_bits x \<le> 64 * n" by (auto simp: z_top_def)
  also have "\<dots> \<longleftrightarrow> nat \<bar>x\<bar> < 2 ^ (64 * n)" unfolding z_num_bits_def by (rule nat_bits_le_iff)
  also have "\<dots> \<longleftrightarrow> \<bar>x\<bar> < 2 ^ (64 * n)" by (simp add: nat_less_iff)
  finally show ?thesis by (simp only: power_mult)
qed

lemma length_z_words [simp]: "length (z_words x) = z_top x"
  by (simp add: z_words_def)

lemma words_val_z_words [simp]: "words_val (z_words x) = \<bar>x\<bar>"
  using z_top_le_iff [of x "z_top x"] by (simp add: z_words_def words_val_words_of)

lemma z_words_top: "x \<noteq> 0 \<Longrightarrow> z_words x \<noteq> []"
  using words_val_z_words [of x] by (metis abs_eq_0 words_val.simps(1))

lemma mont_nv_lt: "mont_nv mont < mont_R mont"
  unfolding mont_nv_def mont_R_def by (rule words_val_lt)

lemma z_top_mont: "red (mont_nv mont) a \<Longrightarrow> z_top a \<le> length (mont_N mont)"
  using mont_nv_lt [of mont] by (simp add: z_top_le_iff red_def mont_R_def)

text \<open>The factor every Montgomery product carries: the inverse of \<open>R\<close>.\<close>

definition mont_unit :: "bn_mont_ctx \<Rightarrow> int" where
  "mont_unit mont = (case z_mod_inverse (mont_R mont) (mont_nv mont) of Some u \<Rightarrow> u | None \<Rightarrow> 0)"

lemma odd_coprime_2_power: "odd (n::int) \<Longrightarrow> gcd (2 ^ k) n = 1"
  by (simp add: coprime_iff_gcd_eq_1 [symmetric])

lemma mont_unit_eqm:
  assumes "mont_ok mont"
  shows "eqm (mont_nv mont) (mont_R mont * mont_unit mont) 1"
proof (cases "mont_nv mont = 1")
  case True
  then show ?thesis by (simp add: eqm_def)
next
  case False
  from assms have N: "0 < mont_nv mont" "odd (mont_nv mont)" by (simp_all add: mont_ok_def)
  have g: "gcd (mont_R mont) (mont_nv mont) = 1"
    using odd_coprime_2_power [OF N(2), of "64 * length (mont_N mont)"] by (simp add: mont_R_def power_mult)
  have "inverse_spec (mont_R mont) (mont_nv mont) (z_mod_inverse (mont_R mont) (mont_nv mont))"
    unfolding z_mod_inverse_def using False N(1) by (intro z_mod_inverse_spec) auto
  with g N(1) False show ?thesis
    by (auto simp: inverse_spec_def mont_unit_def eqm_def split: option.splits)
qed

lemma mont_cancel:
  assumes "mont_ok mont" "eqm (mont_nv mont) (r * mont_R mont) x"
  shows "eqm (mont_nv mont) r (x * mont_unit mont)"
proof -
  have "eqm (mont_nv mont) (r * 1) (r * (mont_R mont * mont_unit mont))"
    by (intro eqm_intros eqm_sym [OF mont_unit_eqm [OF assms(1)]])
  also have "r * (mont_R mont * mont_unit mont) = r * mont_R mont * mont_unit mont" by simp
  also have "eqm (mont_nv mont) \<dots> (x * mont_unit mont)" by (intro eqm_intros assms(2))
  finally show ?thesis by simp
qed

lemma mont_mul_words:
  assumes "mont_ok mont" "length a \<le> length (mont_N mont)" "length b \<le> length (mont_N mont)"
    "words_val a < mont_nv mont" "words_val b < mont_nv mont"
  shows "\<exists>r. bn_mul_mont_fixed_top a b mont True = Some r \<and> length r = length (mont_N mont) \<and>
    words_val r = (words_val a * words_val b * mont_unit mont) mod mont_nv mont"
proof -
  define r where "r = bn_from_montgomery_word (bn_mul_normal a b) mont"
  have "words_val a * words_val b \<le> words_val a * mont_nv mont"
    using assms(5) by (intro mult_left_mono) simp_all
  also have "\<dots> < mont_R mont * mont_nv mont"
    using assms(4) mont_nv_lt [of mont] assms(1) by (intro mult_strict_right_mono) (auto simp: mont_ok_def)
  finally have lt: "words_val (bn_mul_normal a b) < mont_nv mont * mont_R mont"
    by (simp add: bn_mul_normal_correct mult.commute)
  note c = bn_from_montgomery_word_correct [OF assms(1) _ lt]
  have len: "length (bn_mul_normal a b) \<le> 2 * length (mont_N mont)"
    using assms(2,3) by (simp add: bn_mul_normal_correct)
  have "eqm (mont_nv mont) (words_val r * mont_R mont) (words_val a * words_val b)"
    using c(3) [OF len] by (simp add: r_def bn_mul_normal_correct)
  then have "eqm (mont_nv mont) (words_val r) (words_val a * words_val b * mont_unit mont)"
    by (rule mont_cancel [OF assms(1)])
  with c(1,2) [OF len] assms(2,3) show ?thesis
    by (auto simp: bn_mul_mont_fixed_top_def Let_def r_def eqm_def red_id)
qed

lemma z_mod_mul_montgomery_red:
  assumes "mont_ok mont" "red (mont_nv mont) a" "red (mont_nv mont) b"
  shows "z_mod_mul_montgomery a b mont True = Some ((a * b * mont_unit mont) mod mont_nv mont)"
  using mont_mul_words [of mont "z_words a" "z_words b"] z_top_mont assms
  by (auto simp: z_mod_mul_montgomery_def red_def)

lemma z_to_montgomery_red:
  assumes "mont_ok mont" "red (mont_nv mont) a"
  shows "z_to_montgomery a mont True = Some ((a * mont_R mont) mod mont_nv mont)"
proof -
  let ?N = "mont_nv mont" and ?R = "mont_R mont"
  have RR: "words_val (mont_RR mont) = (?R * ?R) mod ?N" "length (mont_RR mont) = length (mont_N mont)" "0 < ?N"
    using assms(1) by (simp_all add: mont_ok_def)
  have "words_val (mont_RR mont) < ?N" using RR by simp
  then obtain r where r: "bn_mul_mont_fixed_top (z_words a) (mont_RR mont) mont True = Some r"
    "words_val r = (\<bar>a\<bar> * words_val (mont_RR mont) * mont_unit mont) mod ?N"
    using mont_mul_words [of mont "z_words a" "mont_RR mont"] z_top_mont [of mont a] assms RR(2)
    by (auto simp: red_def)
  have "eqm ?N (\<bar>a\<bar> * words_val (mont_RR mont) * mont_unit mont) (a * (?R * ?R) * mont_unit mont)"
    unfolding RR(1) using assms(2) by (intro eqm_intros) (auto simp: eqm_def red_def)
  also have "a * (?R * ?R) * mont_unit mont = a * ?R * (?R * mont_unit mont)" by simp
  also have "eqm ?N \<dots> (a * ?R * 1)" by (intro eqm_intros mont_unit_eqm assms(1))
  finally show ?thesis using r assms(2) by (simp add: z_to_montgomery_def red_def eqm_def)
qed

lemma z_from_montgomery_red:
  assumes "mont_ok mont" "red (mont_nv mont) a"
  shows "z_from_montgomery a mont True = Some ((a * mont_unit mont) mod mont_nv mont)"
proof -
  let ?r = "bn_from_montgomery_word (z_words a) mont"
  have N: "0 < mont_nv mont" "0 < mont_R mont" using assms(1) by (simp_all add: mont_ok_def mont_R_def)
  have "words_val (z_words a) < mont_nv mont * 1" using assms(2) by (simp add: red_def)
  also have "\<dots> \<le> mont_nv mont * mont_R mont" using N by (intro mult_left_mono) simp_all
  finally have lt: "words_val (z_words a) < mont_nv mont * mont_R mont" .
  have len: "length (z_words a) \<le> 2 * length (mont_N mont)" using z_top_mont [OF assms(2)] by simp
  note c = bn_from_montgomery_word_correct [OF assms(1) len lt]
  have "eqm (mont_nv mont) (words_val ?r) (words_val (z_words a) * mont_unit mont)"
    by (rule mont_cancel [OF assms(1) c(3)])
  with c(2) assms(2) show ?thesis
    by (simp add: z_from_montgomery_def bn_from_mont_fixed_top_def red_def eqm_def)
qed

text \<open>\<open>BN_MONT_CTX_set\<close> succeeds on odd moduli and builds a valid context.\<close>

lemma mont_set_n0_correct:
  assumes "odd t" "0 < t" "t < B64"
  shows "\<exists>n0. mont_set_n0 t = Some n0 \<and> n0 * word_of_int t = - 1"
proof (cases "t = 1")
  case True
  then show ?thesis by (simp add: mont_set_n0_def Let_def)
next
  case False
  have "inverse_spec (2 ^ 64) t (z_mod_inverse (2 ^ 64) t)"
    unfolding z_mod_inverse_def using False assms(2) by (intro z_mod_inverse_spec) auto
  moreover have "gcd (2 ^ 64) t = 1" using odd_coprime_2_power [OF assms(1)] .
  ultimately obtain x where x: "z_mod_inverse (2 ^ 64) t = Some x" "0 \<le> x" "(2 ^ 64 * x) mod t = 1"
    using assms(2) by (auto simp: inverse_spec_def split: option.splits)
  then have xn: "x \<noteq> 0" using False by auto
  have d: "t dvd x * 2 ^ 64 - 1"
  proof -
    have "(x * 2 ^ 64) mod t = 1 mod t" using x(3) assms(2) False by (simp add: mult.commute)
    then show ?thesis by (simp only: mod_eq_dvd_iff)
  qed
  define q where "q = (x * 2 ^ 64 - 1) div t"
  have q: "q * t = x * 2 ^ 64 - 1" using d by (simp add: q_def)
  have "(word_of_int q :: bn_ulong) * word_of_int t = word_of_int (q * t)" by simp
  also have "\<dots> = word_of_int x * word_of_int (2 ^ 64) - 1" unfolding q by simp
  also have "(word_of_int (2 ^ 64) :: bn_ulong) = 0" by simp
  finally have "(word_of_int q :: bn_ulong) * word_of_int t = - 1" by simp
  moreover have "mont_set_n0 t = Some (word_of_int q)"
    using x xn False assms(2) by (simp add: mont_set_n0_def Let_def q_def)
  ultimately show ?thesis by blast
qed

theorem BN_MONT_CTX_set_correct:
  assumes "odd md" "0 < md"
  shows "\<exists>mont. BN_MONT_CTX_set md True = Some mont \<and> mont_ok mont \<and> mont_nv mont = md"
proof -
  let ?N = "z_words md"
  obtain t ts where N: "?N = t # ts" using z_words_top [of md] assms(2) by (cases ?N) auto
  have v: "words_val ?N = md" using assms(2) by simp
  then have md: "md = uint t + B64 * words_val ts" by (simp add: N)
  have "odd (uint t)" using assms(1) unfolding md by simp
  then have "uint t \<noteq> 0" by auto
  then have "0 < uint t" using uint64_bounds(1) [of t] by linarith
  with mont_set_n0_correct [OF \<open>odd (uint t)\<close> _ uint64_bounds(2)] obtain n0 where
    n0: "mont_set_n0 (uint t) = Some n0" "n0 * word_of_int (uint t) = - 1" by blast
  define mont where "mont = \<lparr>mont_ri = (z_num_bits md + 63) div 64 * 64,
    mont_RR = words_of (length ?N) (2 ^ ((z_num_bits md + 63) div 64 * 64 * 2) mod md),
    mont_N = ?N, mont_n0 = n0\<rparr>"
  have set: "BN_MONT_CTX_set md True = Some mont"
    using assms(2) n0(1) N by (simp add: BN_MONT_CTX_set_def Let_def mont_def z_mod_nonneg)
  have R: "2 ^ ((z_num_bits md + 63) div 64 * 64 * 2) = mont_R mont * mont_R mont"
  proof -
    have "mont_R mont = 2 ^ (64 * z_top md)" by (simp add: mont_R_def mont_def power_mult)
    then show ?thesis by (simp add: z_top_def mult.commute flip: power_add mult_2_right)
  qed
  have nv: "mont_nv mont = md" using v by (simp add: mont_nv_def mont_def)
  have lt: "md < B64 ^ length ?N" using words_val_lt [of ?N] v by (simp only:)
  have "words_val (mont_RR mont) = 2 ^ ((z_num_bits md + 63) div 64 * 64 * 2) mod md mod B64 ^ length ?N"
    by (simp only: mont_def words_val_words_of bn_mont_ctx.simps)
  also have "\<dots> = 2 ^ ((z_num_bits md + 63) div 64 * 64 * 2) mod md"
    using lt assms(2) pos_mod_bound [OF assms(2), of "2 ^ ((z_num_bits md + 63) div 64 * 64 * 2)"]
    by (intro mod_pos_pos_trivial) (simp, linarith)
  finally have RR: "words_val (mont_RR mont) = (mont_R mont * mont_R mont) mod md" unfolding R .
  have flds: "mont_N mont = t # ts" "mont_n0 mont = n0" "length (mont_RR mont) = length (mont_N mont)"
    by (simp_all add: mont_def N)
  have "n0 * t = - 1" using n0(2) by simp
  then have "mont_ok mont"
    unfolding mont_ok_def nv RR flds(3) using assms flds(1,2) N by simp
  with set nv show ?thesis by blast
qed

section \<open>The contract for callers\<close>

text \<open>
C37: Montgomery multiplication through the code's own context: for every odd positive modulus
\<open>BN_MONT_CTX_set\<close> succeeds, and with the context it builds, mapping two residues to Montgomery
form, multiplying them and mapping the result back is multiplication modulo \<open>md\<close>.
\<close>

theorem montgomery_product:
  assumes "odd md" "0 < md" "red md a" "red md b"
  shows "\<exists>mont ma mb mc. BN_MONT_CTX_set md True = Some mont \<and>
    z_to_montgomery a mont True = Some ma \<and> z_to_montgomery b mont True = Some mb \<and>
    z_mod_mul_montgomery ma mb mont True = Some mc \<and>
    z_from_montgomery mc mont True = Some ((a * b) mod md)"
proof -
  obtain mont where m: "BN_MONT_CTX_set md True = Some mont" "mont_ok mont" "mont_nv mont = md"
    using BN_MONT_CTX_set_correct [OF assms(1,2)] by blast
  let ?R = "mont_R mont" and ?U = "mont_unit mont"
  have RU: "eqm md (?R * ?U) 1" using mont_unit_eqm [OF m(2)] m(3) by simp
  let ?A = "(a * ?R) mod md" and ?B = "(b * ?R) mod md"
  let ?C = "(?A * ?B * ?U) mod md"
  have modr: "eqm md (x mod md) x" for x by (simp add: eqm_def)
  have "eqm md ?C (?A * ?B * ?U)" by (rule modr)
  also have "eqm md \<dots> ((a * ?R) * (b * ?R) * ?U)" by (intro eqm_intros modr)
  finally have "eqm md (?C * ?U) ((a * ?R) * (b * ?R) * ?U * ?U)" by (intro eqm_intros)
  also have "(a * ?R) * (b * ?R) * ?U * ?U = (a * b) * (?R * ?U) * (?R * ?U)" by simp
  also have "eqm md \<dots> ((a * b) * 1 * 1)" by (intro eqm_intros RU)
  finally have "(?C * ?U) mod md = (a * b) mod md" by (simp add: eqm_def)
  with m assms show ?thesis
    by (simp add: z_to_montgomery_red z_mod_mul_montgomery_red z_from_montgomery_red)
qed

theorem montgomery_product_witness:
  "\<exists>mont ma mb mc. BN_MONT_CTX_set 97 True = Some mont \<and>
    z_to_montgomery 50 mont True = Some ma \<and> z_to_montgomery 60 mont True = Some mb \<and>
    z_mod_mul_montgomery ma mb mont True = Some mc \<and>
    z_from_montgomery mc mont True = Some 90"
  using montgomery_product [of 97 50 60] by (simp add: red_def)

text \<open>
The word-level reduction \<open>bn_from_montgomery_word\<close>: for every input below \<open>N R\<close> the result has
exactly the modulus' number of words, is fully reduced, and times \<open>R\<close> is the input modulo \<open>N\<close>.
\<close>

theorem bn_from_montgomery_word_reduces:
  assumes "mont_ok mont" "length r \<le> 2 * length (mont_N mont)" "words_val r < mont_nv mont * mont_R mont"
  shows "length (bn_from_montgomery_word r mont) = length (mont_N mont) \<and>
    red (mont_nv mont) (words_val (bn_from_montgomery_word r mont)) \<and>
    (words_val (bn_from_montgomery_word r mont) * mont_R mont) mod mont_nv mont = words_val r mod mont_nv mont"
  using bn_from_montgomery_word_correct [OF assms] by (simp add: eqm_def)

theorem bn_from_montgomery_word_reduces_witness:
  "let mont = \<lparr>mont_ri = 64, mont_RR = [35], mont_N = [97], mont_n0 = 6656041676080766047\<rparr>
   in length (bn_from_montgomery_word [1000, 3] mont) = 1 \<and>
    (words_val (bn_from_montgomery_word [1000, 3] mont) * mont_R mont) mod 97 = (1000 + 3 * B64) mod 97"
proof -
  define mont where "mont = \<lparr>mont_ri = 64, mont_RR = [35], mont_N = [97], mont_n0 = 6656041676080766047\<rparr>"
  have nv: "mont_nv mont = 97" "mont_R mont = B64" "mont_N mont = [97]"
    by (simp_all add: mont_nv_def mont_R_def mont_def)
  have "z_words 97 = [97]" by code_simp
  then have "mont_ok mont" unfolding mont_ok_def nv by (simp add: mont_def)
  from bn_from_montgomery_word_reduces [OF this, of "[1000, 3]"] nv
  show ?thesis unfolding Let_def mont_def [symmetric] by simp
qed

end
