(* ===== verification/Bn_Exp.thy ===== *)
theory Bn_Exp
  imports Bn_Mont
begin

text \<open>
  Montgomery exponentiation with a sliding window (\<open>BN_mod_exp_mont\<close> of \<open>bn_exp.c\<close>, operands
  without the constant-time flag), and the inverse it gives modulo a prime. The exponent is
  scanned from its top bit; a window starts and ends at a set bit and is at most \<open>window\<close> bits
  wide, so only the odd powers of the base are tabulated.
\<close>

section \<open>The routine\<close>

definition BN_window_bits_for_exponent_size :: "nat \<Rightarrow> nat" where
  "BN_window_bits_for_exponent_size b =
     (if b > 671 then 6 else if b > 239 then 5 else if b > 79 then 4 else if b > 23 then 3 else 1)"

text \<open>The table of odd powers: \<open>val[i] = val[i-1] * d\<close>.\<close>

fun exp_table :: "bn_ulong list \<Rightarrow> bn_ulong list \<Rightarrow> bn_mont_ctx \<Rightarrow> bool \<Rightarrow> nat \<Rightarrow> bn_ulong list list option" where
  "exp_table v d mont ctx 0 = Some []"
| "exp_table v d mont ctx (Suc n) = do {
     v' \<leftarrow> bn_mul_mont_fixed_top v d mont ctx;
     vs \<leftarrow> exp_table v' d mont ctx n;
     Some (v' # vs)
   }"

text \<open>Scan forward from bit \<open>wstart\<close> for the last set bit of the window: the window's value and
  the offset of its last bit.\<close>

fun exp_window :: "nat \<Rightarrow> nat \<Rightarrow> nat \<Rightarrow> nat \<Rightarrow> nat \<Rightarrow> nat \<Rightarrow> nat \<times> nat" where
  "exp_window p wstart i wvalue wend 0 = (wvalue, wend)"
| "exp_window p wstart i wvalue wend (Suc n) =
     (if wstart < i then (wvalue, wend)
      else if odd (p div 2 ^ (wstart - i))
      then exp_window p wstart (i + 1) (wvalue * 2 ^ (i - wend) + 1) i n
      else exp_window p wstart (i + 1) wvalue wend n)"

fun mont_sqr_n :: "bn_ulong list \<Rightarrow> bn_mont_ctx \<Rightarrow> bool \<Rightarrow> nat \<Rightarrow> bn_ulong list option" where
  "mont_sqr_n r mont ctx 0 = Some r"
| "mont_sqr_n r mont ctx (Suc n) = do {
     r' \<leftarrow> bn_mul_mont_fixed_top r r mont ctx;
     mont_sqr_n r' mont ctx n
   }"

text \<open>The main loop, with \<open>k = wstart + 1\<close> bits left.\<close>

function exp_loop :: "nat \<Rightarrow> nat \<Rightarrow> bn_ulong list list \<Rightarrow> bn_mont_ctx \<Rightarrow> bool \<Rightarrow> bool \<Rightarrow> nat \<Rightarrow> bn_ulong list \<Rightarrow> bn_ulong list option" where
  "exp_loop p window val mont ctx start k r =
     (if k = 0 then Some r
      else if even (p div 2 ^ (k - 1)) then do {
        r' \<leftarrow> (if start then Some r else bn_mul_mont_fixed_top r r mont ctx);
        exp_loop p window val mont ctx start (k - 1) r'
      }
      else do {
        let (wvalue, wend) = exp_window p (k - 1) 1 1 0 (window - 1);
        r1 \<leftarrow> (if start then Some r else mont_sqr_n r mont ctx (wend + 1));
        r2 \<leftarrow> bn_mul_mont_fixed_top r1 (val ! (wvalue div 2)) mont ctx;
        exp_loop p window val mont ctx False (k - (wend + 1)) r2
      })"
  by pat_completeness auto
termination
  by (relation "measure (\<lambda>(p, w, v, m, c, s, k, r). k)") auto

declare exp_loop.simps [simp del]

text \<open>The start value 1 in Montgomery form; for a modulus with its top bit set it is
  \<open>2\<^bsup>64 top\<^esup> - m\<close>, by complementing words.\<close>

definition exp_one :: "int \<Rightarrow> bn_mont_ctx \<Rightarrow> bool \<Rightarrow> bn_ulong list option" where
  "exp_one m mont ctx =
     (if 2 ^ 63 \<le> uint (last (z_words m))
      then Some ((- hd (z_words m)) # map (\<lambda>w. NOT w) (tl (z_words m)))
      else bn_to_mont_fixed_top [1] mont ctx)"

definition z_mod_exp_mont :: "int \<Rightarrow> int \<Rightarrow> int \<Rightarrow> bool \<Rightarrow> bn_mont_ctx option \<Rightarrow> int option" where
  "z_mod_exp_mont a p m ctx in_mont =
     (if even m then None
      else if z_num_bits p = 0 then (if \<bar>m\<bar> = 1 then Some 0 else Some 1)
      else if \<not> ctx then None
      else do {
        mont \<leftarrow> (case in_mont of Some mt \<Rightarrow> Some mt | None \<Rightarrow> BN_MONT_CTX_set m ctx);
        aa \<leftarrow> (if a < 0 \<or> \<bar>a\<bar> \<ge> \<bar>m\<bar> then z_nnmod a m else Some a);
        val0 \<leftarrow> bn_to_mont_fixed_top (z_words aa) mont ctx;
        let window = BN_window_bits_for_exponent_size (z_num_bits p);
        vals \<leftarrow> (if window > 1 then do {
             d \<leftarrow> bn_mul_mont_fixed_top val0 val0 mont ctx;
             exp_table val0 d mont ctx (2 ^ (window - 1) - 1)
           } else Some []);
        r \<leftarrow> exp_one m mont ctx;
        r' \<leftarrow> exp_loop (nat \<bar>p\<bar>) window (val0 # vals) mont ctx True (z_num_bits p) r;
        rr \<leftarrow> bn_from_mont_fixed_top r' mont ctx;
        Some (words_val rr)
      })"

section \<open>Correctness\<close>

text \<open>\<open>mrep mont v x\<close>: the padded array \<open>v\<close> holds \<open>x\<close> in Montgomery form.\<close>

definition mrep :: "bn_mont_ctx \<Rightarrow> bn_ulong list \<Rightarrow> int \<Rightarrow> bool" where
  "mrep mont v x \<longleftrightarrow> length v = length (mont_N mont) \<and> red (mont_nv mont) (words_val v) \<and>
     eqm (mont_nv mont) (words_val v * mont_unit mont) x"

lemma mrep_mul:
  assumes "mont_ok mont" "mrep mont v x" "mrep mont w y"
  shows "\<exists>r. bn_mul_mont_fixed_top v w mont True = Some r \<and> mrep mont r (x * y)"
proof -
  let ?N = "mont_nv mont" and ?u = "mont_unit mont"
  have N: "0 < ?N" using assms(1) by (simp add: mont_ok_def)
  obtain r where r: "bn_mul_mont_fixed_top v w mont True = Some r" "length r = length (mont_N mont)"
    "words_val r = (words_val v * words_val w * ?u) mod ?N"
    using mont_mul_words [of mont v w] assms by (auto simp: mrep_def red_def)
  have "eqm ?N (words_val r * ?u) (words_val v * words_val w * ?u * ?u)"
    unfolding r(3) by (intro eqm_intros) (simp add: eqm_def)
  also have "words_val v * words_val w * ?u * ?u = (words_val v * ?u) * (words_val w * ?u)" by simp
  also have "eqm ?N \<dots> (x * y)" using assms(2,3) by (intro eqm_intros) (simp_all add: mrep_def)
  finally have "mrep mont r (x * y)" using r(2,3) N by (simp add: mrep_def)
  with r(1) show ?thesis by blast
qed

lemma exp_table_correct:
  assumes "mont_ok mont" "mrep mont d (x ^ 2)"
  shows "mrep mont v (x ^ (2 * i + 1)) \<Longrightarrow> \<exists>vs. exp_table v d mont True n = Some vs \<and> length vs = n \<and>
    (\<forall>j < n. mrep mont (vs ! j) (x ^ (2 * (i + 1 + j) + 1)))"
proof (induction n arbitrary: v i)
  case (Suc n)
  obtain v' where v': "bn_mul_mont_fixed_top v d mont True = Some v'" "mrep mont v' (x ^ (2 * i + 1) * x ^ 2)"
    using mrep_mul [OF assms(1) Suc.prems assms(2)] by blast
  have "x ^ (2 * i + 1) * x ^ 2 = x ^ (2 * (i + 1) + 1)" by (simp flip: power_add)
  with v'(2) have v2: "mrep mont v' (x ^ (2 * (i + 1) + 1))" by (simp only:)
  from Suc.IH [OF v2] obtain vs where vs: "exp_table v' d mont True n = Some vs" "length vs = n"
    "\<forall>j < n. mrep mont (vs ! j) (x ^ (2 * (i + 1 + 1 + j) + 1))" by blast
  have "mrep mont ((v' # vs) ! j) (x ^ (2 * (i + 1 + j) + 1))" if "j < Suc n" for j
    using that vs(3) v2 by (cases j) (simp_all add: add.commute add.left_commute)
  with v'(1) vs(1,2) show ?case by simp
qed simp

lemma mont_sqr_n_correct:
  assumes "mont_ok mont"
  shows "mrep mont r x \<Longrightarrow> \<exists>r'. mont_sqr_n r mont True n = Some r' \<and> mrep mont r' (x ^ 2 ^ n)"
proof (induction n arbitrary: r x)
  case (Suc n)
  obtain r1 where r1: "bn_mul_mont_fixed_top r r mont True = Some r1" "mrep mont r1 (x * x)"
    using mrep_mul [OF assms Suc.prems Suc.prems] by blast
  from Suc.IH [OF r1(2)] r1(1) show ?case
    by (auto simp: power_mult_distrib power2_eq_square [symmetric] power_mult [symmetric])
qed simp

lemma div_pow2_step: "i \<le> w \<Longrightarrow> (p::nat) div 2 ^ (w - i) = 2 * (p div 2 ^ (w + 1 - i)) + (p div 2 ^ (w - i)) mod 2"
proof -
  assume "i \<le> w"
  then have "w + 1 - i = Suc (w - i)" by simp
  then have "p div 2 ^ (w + 1 - i) = p div 2 ^ (w - i) div 2"
    by (simp only: power_Suc2 div_mult2_eq)
  then show ?thesis by simp
qed

lemma exp_window_correct:
  "i \<ge> 1 \<Longrightarrow> wend < i \<Longrightarrow> i \<le> ws + 1 \<Longrightarrow> odd wvalue \<Longrightarrow> wvalue < 2 ^ (wend + 1) \<Longrightarrow>
   p div 2 ^ (ws - wend) = p div 2 ^ (ws + 1) * 2 ^ (wend + 1) + wvalue \<Longrightarrow>
   p div 2 ^ (ws + 1 - i) = p div 2 ^ (ws - wend) * 2 ^ (i - 1 - wend) \<Longrightarrow>
   (case exp_window p ws i wvalue wend n of (wv, we) \<Rightarrow>
      odd wv \<and> wv < 2 ^ (we + 1) \<and> we \<le> ws \<and> we < i + n \<and>
      p div 2 ^ (ws - we) = p div 2 ^ (ws + 1) * 2 ^ (we + 1) + wv)"
proof (induction p ws i wvalue wend n rule: exp_window.induct)
  case (2 p ws i wvalue wend n)
  show ?case
  proof (cases "ws < i")
    case True
    with "2.prems" show ?thesis by simp
  next
    case False
    then have step: "p div 2 ^ (ws - i) = 2 * (p div 2 ^ (ws + 1 - i)) + (p div 2 ^ (ws - i)) mod 2"
      by (intro div_pow2_step) simp
    have e1: "ws + 1 - (i + 1) = ws - i" by simp
    have e2: "(2::nat) ^ (i - wend) = 2 * 2 ^ (i - 1 - wend)"
      using "2.prems"(2) by (simp flip: power_Suc add: Suc_diff_Suc)
    show ?thesis
    proof (cases "odd (p div 2 ^ (ws - i))")
      case odd: True
      have bnd: "wvalue * 2 ^ (i - wend) + 1 < 2 ^ (i + 1)"
      proof -
        have "wvalue + 1 \<le> 2 ^ (wend + 1)" using "2.prems"(5) by simp
        then have "(wvalue + 1) * 2 ^ (i - wend) \<le> 2 ^ (wend + 1) * 2 ^ (i - wend)" by (rule mult_le_mono1)
        also have "(2::nat) ^ (wend + 1) * 2 ^ (i - wend) = 2 ^ (i + 1)"
          using "2.prems"(2) by (simp flip: power_add)
        finally have "wvalue * 2 ^ (i - wend) + 2 ^ (i - wend) \<le> 2 ^ (i + 1)" by (simp add: algebra_simps)
        moreover have "(2::nat) ^ 1 \<le> 2 ^ (i - wend)" using "2.prems"(2) by (intro power_increasing) simp_all
        ultimately show ?thesis by simp
      qed
      have v: "p div 2 ^ (ws - i) = p div 2 ^ (ws + 1) * 2 ^ (i + 1) + (wvalue * 2 ^ (i - wend) + 1)"
      proof -
        have "p div 2 ^ (ws - i) = 2 * (p div 2 ^ (ws - wend) * 2 ^ (i - 1 - wend)) + 1"
          using step odd "2.prems"(7) by (simp add: odd_iff_mod_2_eq_one)
        also have "\<dots> = p div 2 ^ (ws - wend) * 2 ^ (i - wend) + 1" using e2 by simp
        also have "\<dots> = p div 2 ^ (ws + 1) * (2 ^ (wend + 1) * 2 ^ (i - wend)) + wvalue * 2 ^ (i - wend) + 1"
          unfolding "2.prems"(6) by (simp only: algebra_simps)
        also have "(2::nat) ^ (wend + 1) * 2 ^ (i - wend) = 2 ^ (i + 1)"
          using "2.prems"(2) by (simp flip: power_add)
        finally show ?thesis by simp
      qed
      have ev: "odd (wvalue * 2 ^ (i - wend) + 1)" using "2.prems"(2) by simp
      have "case exp_window p ws (i + 1) (wvalue * 2 ^ (i - wend) + 1) i n of (wv, we) \<Rightarrow>
        odd wv \<and> wv < 2 ^ (we + 1) \<and> we \<le> ws \<and> we < i + 1 + n \<and>
        p div 2 ^ (ws - we) = p div 2 ^ (ws + 1) * 2 ^ (we + 1) + wv"
        by (rule "2.IH"(1) [OF False odd]) (use False ev bnd v in \<open>simp_all del: power_Suc add_2_eq_Suc'\<close>)
      with False odd show ?thesis by simp
    next
      case even: False
      have "p div 2 ^ (ws + 1 - (i + 1)) = p div 2 ^ (ws - wend) * 2 ^ (i + 1 - 1 - wend)"
        using step even "2.prems"(7) e2 unfolding e1 by (simp add: even_iff_mod_2_eq_zero)
      with "2.IH"(2) [OF False even] "2.prems" False
      have "case exp_window p ws (i + 1) wvalue wend n of (wv, we) \<Rightarrow>
        odd wv \<and> wv < 2 ^ (we + 1) \<and> we \<le> ws \<and> we < i + 1 + n \<and>
        p div 2 ^ (ws - we) = p div 2 ^ (ws + 1) * 2 ^ (we + 1) + wv" by simp
      with False even show ?thesis by simp
    qed
  qed
qed simp

lemma exp_loop_correct:
  assumes "mont_ok mont" "1 \<le> window" "\<forall>j < 2 ^ (window - 1). mrep mont (val ! j) (x ^ (2 * j + 1))"
  shows "mrep mont r (x ^ (p div 2 ^ k)) \<Longrightarrow> (start \<longrightarrow> p div 2 ^ k = 0) \<Longrightarrow>
    \<exists>r'. exp_loop p window val mont True start k r = Some r' \<and> mrep mont r' (x ^ p)"
proof (induction k arbitrary: r start rule: less_induct)
  case (less k)
  show ?case
  proof (cases "k = 0")
    case True
    with less.prems(1) show ?thesis by (simp add: exp_loop.simps)
  next
    case k: False
    have step: "p div 2 ^ (k - 1) = 2 * (p div 2 ^ k) + (p div 2 ^ (k - 1)) mod 2"
      using div_pow2_step [of 0 "k - 1" p] k by simp
    show ?thesis
    proof (cases "even (p div 2 ^ (k - 1))")
      case even: True
      then have e: "p div 2 ^ (k - 1) = 2 * (p div 2 ^ k)" using step by (simp add: even_iff_mod_2_eq_zero)
      obtain r1 where r1: "(if start then Some r else bn_mul_mont_fixed_top r r mont True) = Some r1"
        "mrep mont r1 (x ^ (p div 2 ^ (k - 1)))"
      proof (cases start)
        case True
        with less.prems e that [of r] show thesis by simp
      next
        case False
        obtain r1 where "bn_mul_mont_fixed_top r r mont True = Some r1" "mrep mont r1 (x ^ (p div 2 ^ k) * x ^ (p div 2 ^ k))"
          using mrep_mul [OF assms(1) less.prems(1) less.prems(1)] by blast
        moreover have "x ^ (p div 2 ^ k) * x ^ (p div 2 ^ k) = x ^ (p div 2 ^ (k - 1))"
          unfolding e by (simp add: mult_2 power_add)
        ultimately show thesis using False that by simp
      qed
      have "start \<longrightarrow> p div 2 ^ (k - 1) = 0" using less.prems(2) e by simp
      from less.IH [OF _ r1(2) this] k obtain r' where
        "exp_loop p window val mont True start (k - 1) r1 = Some r'" "mrep mont r' (x ^ p)" by auto
      with r1(1) even k show ?thesis by (subst exp_loop.simps) simp
    next
      case odd: False
      obtain wv we where w: "exp_window p (k - 1) 1 1 0 (window - 1) = (wv, we)" by force
      have k1: "k - 1 + 1 = k" using k by simp
      have "odd wv \<and> wv < 2 ^ (we + 1) \<and> we \<le> k - 1 \<and> we < 1 + (window - 1) \<and>
        p div 2 ^ (k - 1 - we) = p div 2 ^ (k - 1 + 1) * 2 ^ (we + 1) + wv"
        using exp_window_correct [of 1 0 "k - 1" 1 p "window - 1"] odd step k
        unfolding w k1 by (simp add: odd_iff_mod_2_eq_one)
      then have W: "odd wv" "wv < 2 ^ (we + 1)" "we \<le> k - 1" "we < window"
        "p div 2 ^ (k - (we + 1)) = p div 2 ^ k * 2 ^ (we + 1) + wv"
        using assms(2) k1 by (auto simp: diff_diff_left)
      have wvj: "wv div 2 < 2 ^ (window - 1)"
      proof -
        have "wv < 2 * 2 ^ we" using W(2) by simp
        then have "wv div 2 < 2 ^ we" by simp
        also have "(2::nat) ^ we \<le> 2 ^ (window - 1)" using W(4) by (intro power_increasing) simp_all
        finally show ?thesis .
      qed
      have val: "mrep mont (val ! (wv div 2)) (x ^ wv)"
        using assms(3) wvj W(1) by (metis odd_two_times_div_two_succ)
      obtain r1 where r1: "(if start then Some r else mont_sqr_n r mont True (we + 1)) = Some r1"
        "mrep mont r1 (x ^ (p div 2 ^ k * 2 ^ (we + 1)))"
      proof (cases start)
        case True
        with less.prems that [of r] show thesis by simp
      next
        case False
        with mont_sqr_n_correct [OF assms(1) less.prems(1), of "we + 1"] that show thesis
          by (auto simp: power_mult)
      qed
      obtain r2 where r2: "bn_mul_mont_fixed_top r1 (val ! (wv div 2)) mont True = Some r2"
        "mrep mont r2 (x ^ (p div 2 ^ k * 2 ^ (we + 1)) * x ^ wv)"
        using mrep_mul [OF assms(1) r1(2) val] by blast
      then have "mrep mont r2 (x ^ (p div 2 ^ (k - (we + 1))))" unfolding W(5) by (simp only: power_add)
      from less.IH [OF _ this, of False] k obtain r' where
        "exp_loop p window val mont True False (k - (we + 1)) r2 = Some r'" "mrep mont r' (x ^ p)" by auto
      with r1(1) r2(1) odd k w show ?thesis by (subst exp_loop.simps) (simp add: Let_def)
    qed
  qed
qed

lemma words_val_map_NOT: "words_val (map (\<lambda>w. NOT w) ws) = B64 ^ length ws - 1 - words_val ws"
proof (induction ws)
  case (Cons w ws)
  have "uint (NOT w) = B64 - 1 - uint w"
  proof -
    have "NOT w = - w - 1" by (rule not_eq_complement)
    then have "uint (NOT w) = (- uint w - 1) mod B64" by (simp add: uint_word_ariths mod_simps)
    also have "\<dots> = (B64 - 1 - uint w) mod B64"
      using mod_add_self2 [of "- uint w - 1" B64] by (simp add: algebra_simps)
    also have "\<dots> = B64 - 1 - uint w" using uint64_bounds [of w] by (intro mod_pos_pos_trivial) linarith+
    finally show ?thesis .
  qed
  with Cons.IH show ?case by (simp add: algebra_simps)
qed simp

lemma exp_one_correct:
  assumes "mont_ok mont" "1 < mont_nv mont"
  shows "\<exists>r. exp_one (mont_nv mont) mont True = Some r \<and> mrep mont r 1"
proof (cases "2 ^ 63 \<le> uint (last (z_words (mont_nv mont)))")
  case True
  let ?m = "mont_nv mont"
  have N: "mont_N mont = z_words ?m" "odd ?m" using assms(1) by (simp_all add: mont_ok_def)
  obtain t ts where ts: "z_words ?m = t # ts" using z_words_top [of ?m] assms(2) by (cases "z_words ?m") auto
  have v: "?m = uint t + B64 * words_val ts" using words_val_z_words [of ?m] assms(2) by (simp add: ts)
  have t0: "uint t \<noteq> 0" using N(2) by (subst (asm) v) auto
  define r where "r = (- t) # map (\<lambda>w. NOT w) ts"
  have "uint (- t) = B64 - uint t"
  proof -
    have "uint (- t) = (- uint t) mod B64" by (simp add: uint_word_ariths)
    also have "\<dots> = (B64 - uint t) mod B64" by simp
    also have "\<dots> = B64 - uint t" using uint64_bounds [of t] t0 by (intro mod_pos_pos_trivial) linarith+
    finally show ?thesis .
  qed
  then have "words_val r = B64 - uint t + B64 * (B64 ^ length ts - 1 - words_val ts)"
    by (simp add: r_def words_val_map_NOT)
  also have "\<dots> = B64 ^ Suc (length ts) - (uint t + B64 * words_val ts)" by (simp add: algebra_simps)
  also have "B64 ^ Suc (length ts) = mont_R mont"
    unfolding mont_R_def N(1) ts by simp
  finally have rv: "words_val r = mont_R mont - ?m" unfolding v [symmetric] .
  have "mont_R mont < 2 * ?m"
  proof -
    define bs where "bs = butlast (z_words ?m)"
    have sp: "z_words ?m = bs @ [last (z_words ?m)]" by (simp add: bs_def ts)
    then have "words_val (z_words ?m) = words_val (bs @ [last (z_words ?m)])" by simp
    then have "?m = words_val bs + B64 ^ length bs * uint (last (z_words ?m))"
      using assms(2) by (simp add: words_val_append)
    moreover have "B64 ^ length bs * 2 ^ 63 \<le> B64 ^ length bs * uint (last (z_words ?m))"
      using True by (intro mult_left_mono) simp_all
    ultimately have "B64 ^ length bs * 2 ^ 63 \<le> ?m" using words_val_ge_0 [of bs] by linarith
    moreover have "mont_R mont = B64 ^ length bs * 2 ^ 63 * 2"
      by (simp add: mont_R_def N(1) ts bs_def)
    ultimately have le: "mont_R mont \<le> 2 * ?m" by simp
    have "mont_R mont \<noteq> 2 * ?m"
    proof
      assume "mont_R mont = 2 * ?m"
      with \<open>mont_R mont = B64 ^ length bs * 2 ^ 63 * 2\<close> have "?m = B64 ^ length bs * 2 ^ 63" by simp
      with N(2) show False by simp
    qed
    with le show ?thesis by simp
  qed
  then have "red ?m (words_val r)" using rv mont_nv_lt [of mont] by (simp add: red_def)
  moreover have "eqm ?m (words_val r * mont_unit mont) (mont_R mont * mont_unit mont)"
    unfolding rv by (intro eqm_intros) (simp add: eqm_dvd)
  then have "eqm ?m (words_val r * mont_unit mont) 1" using mont_unit_eqm [OF assms(1)] eqm_trans by blast
  moreover have "length r = length (mont_N mont)" by (simp add: r_def N(1) ts)
  ultimately have "mrep mont r 1" by (simp add: mrep_def)
  with True show ?thesis by (simp add: exp_one_def ts r_def)
next
  case False
  let ?N = "mont_nv mont" and ?R = "mont_R mont" and ?u = "mont_unit mont"
  have ok: "mont_N mont \<noteq> []" "length (mont_RR mont) = length (mont_N mont)"
    "words_val (mont_RR mont) = (?R * ?R) mod ?N" using assms(1) unfolding mont_ok_def by blast+
  obtain r where r: "bn_mul_mont_fixed_top [1] (mont_RR mont) mont True = Some r" "length r = length (mont_N mont)"
    "words_val r = (words_val [1] * words_val (mont_RR mont) * ?u) mod ?N"
    using mont_mul_words [OF assms(1), of "[1]" "mont_RR mont"] ok assms(2) by (auto simp: Suc_le_eq)
  have "eqm ?N (words_val r * ?u) (1 * (?R * ?R) * ?u * ?u)"
    unfolding r(3) ok(3) by (intro eqm_intros) (simp add: eqm_def mod_simps)
  also have "1 * (?R * ?R) * ?u * ?u = (?R * ?u) * (?R * ?u)" by simp
  also have "eqm ?N \<dots> (1 * 1)" by (intro eqm_intros mont_unit_eqm assms(1))
  finally have "mrep mont r 1" using r(2,3) assms(2) by (simp add: mrep_def)
  with False r(1) show ?thesis by (auto simp: exp_one_def bn_to_mont_fixed_top_def)
qed

lemma z_to_mrep:
  assumes "mont_ok mont" "red (mont_nv mont) a"
  shows "\<exists>v. bn_to_mont_fixed_top (z_words a) mont True = Some v \<and> mrep mont v a"
proof -
  let ?N = "mont_nv mont"
  have ok: "length (mont_RR mont) = length (mont_N mont)" "0 < ?N" "words_val (mont_RR mont) < ?N"
    using assms(1) by (simp_all add: mont_ok_def)
  obtain r where r: "bn_mul_mont_fixed_top (z_words a) (mont_RR mont) mont True = Some r"
    "length r = length (mont_N mont)" "words_val r = (\<bar>a\<bar> * words_val (mont_RR mont) * mont_unit mont) mod ?N"
    using mont_mul_words [OF assms(1), of "z_words a" "mont_RR mont"] ok assms(2) z_top_mont [OF assms(2)]
    by (auto simp: red_def)
  have "z_to_montgomery a mont True = Some (words_val r)"
    using r(1) assms(2) by (simp add: z_to_montgomery_def red_def)
  with z_to_montgomery_red [OF assms] have w: "words_val r = (a * mont_R mont) mod ?N" by simp
  have "eqm ?N (words_val r * mont_unit mont) (a * mont_R mont * mont_unit mont)"
    unfolding w by (intro eqm_intros) (simp add: eqm_def)
  also have "a * mont_R mont * mont_unit mont = a * (mont_R mont * mont_unit mont)" by simp
  also have "eqm ?N \<dots> (a * 1)" by (intro eqm_intros mont_unit_eqm assms(1))
  finally have "mrep mont r a" using r(2) w ok(2) by (simp add: mrep_def)
  with r(1) show ?thesis by (auto simp: bn_to_mont_fixed_top_def)
qed

theorem z_mod_exp_mont_correct:
  assumes "odd m" "1 < m" "0 \<le> p"
    "in_mont = None \<or> (\<exists>mont. in_mont = Some mont \<and> mont_ok mont \<and> mont_nv mont = m)"
  shows "z_mod_exp_mont a p m True in_mont = Some (a ^ nat p mod m)"
proof (cases "p = 0")
  case True
  then show ?thesis using assms by (simp add: z_mod_exp_mont_def z_num_bits_def)
next
  case False
  obtain mont where mont: "(case in_mont of Some mt \<Rightarrow> Some mt | None \<Rightarrow> BN_MONT_CTX_set m True) = Some mont"
    "mont_ok mont" "mont_nv mont = m"
    using assms(4) BN_MONT_CTX_set_correct [OF assms(1)] assms(2) by (auto split: option.splits)
  define aa where "aa = a mod m"
  have aa: "(if a < 0 \<or> \<bar>a\<bar> \<ge> \<bar>m\<bar> then z_nnmod a m else Some a) = Some aa" "red m aa"
    using assms(2) by (auto simp: aa_def z_nnmod_eq)
  obtain val0 where val0: "bn_to_mont_fixed_top (z_words aa) mont True = Some val0" "mrep mont val0 aa"
    using z_to_mrep [OF mont(2)] aa(2) mont(3) by blast
  define window where "window = BN_window_bits_for_exponent_size (z_num_bits p)"
  have w1: "1 \<le> window" by (simp add: window_def BN_window_bits_for_exponent_size_def)
  obtain vals where vals: "(if window > 1 then do {
             d \<leftarrow> bn_mul_mont_fixed_top val0 val0 mont True;
             exp_table val0 d mont True (2 ^ (window - 1) - 1)
           } else Some []) = Some vals"
    "\<forall>j < 2 ^ (window - 1). mrep mont ((val0 # vals) ! j) (aa ^ (2 * j + 1))"
  proof (cases "window > 1")
    case True
    obtain d where d: "bn_mul_mont_fixed_top val0 val0 mont True = Some d" "mrep mont d (aa * aa)"
      using mrep_mul [OF mont(2) val0(2) val0(2)] by blast
    then have d2: "mrep mont d (aa ^ 2)" by (simp add: power2_eq_square)
    have "mrep mont val0 (aa ^ (2 * 0 + 1))" using val0(2) by simp
    from exp_table_correct [OF mont(2) d2 this, of "2 ^ (window - 1) - 1"] obtain vs where
      vs: "exp_table val0 d mont True (2 ^ (window - 1) - 1) = Some vs"
        "\<forall>j < 2 ^ (window - 1) - 1. mrep mont (vs ! j) (aa ^ (2 * (0 + 1 + j) + 1))" by blast
    have "mrep mont ((val0 # vs) ! j) (aa ^ (2 * j + 1))" if "j < 2 ^ (window - 1)" for j
    proof (cases j)
      case (Suc i)
      with that vs(2) have "mrep mont (vs ! i) (aa ^ (2 * (0 + 1 + i) + 1))" by simp
      with Suc show ?thesis by simp
    qed (use val0(2) in simp)
    with True d(1) vs(1) that [of vs] show thesis by simp
  next
    case False
    with w1 have "window = 1" by simp
    with val0(2) that [of "[]"] show thesis by simp
  qed
  obtain r where r: "exp_one m mont True = Some r" "mrep mont r 1"
    using exp_one_correct [OF mont(2)] mont(3) assms(2) by auto
  have z: "nat p div 2 ^ z_num_bits p = 0"
    using nat_bits_bounds(1) [of "nat p"] assms(3) by (simp add: z_num_bits_def)
  then have "mrep mont r (aa ^ (nat p div 2 ^ z_num_bits p))" using r(2) by simp
  from exp_loop_correct [OF mont(2) w1 vals(2) this, of True] z obtain r' where
    r': "exp_loop (nat p) window (val0 # vals) mont True True (z_num_bits p) r = Some r'" "mrep mont r' (aa ^ nat p)"
    by auto
  define rr where "rr = bn_from_montgomery_word r' mont"
  have rr: "words_val rr = aa ^ nat p mod m"
  proof -
    have lr: "length r' = length (mont_N mont)" "words_val r' < m" "0 < mont_R mont"
      using r'(2) mont(3) by (simp_all add: mrep_def red_def mont_R_def)
    have "words_val r' < m * 1" using lr by simp
    also have "\<dots> \<le> m * mont_R mont" using lr(3) assms(2) by (intro mult_left_mono) simp_all
    finally have lt: "words_val r' < mont_nv mont * mont_R mont" using mont(3) by simp
    have len: "length r' \<le> 2 * length (mont_N mont)" using lr(1) by simp
    note c = bn_from_montgomery_word_correct [OF mont(2) len lt, folded rr_def]
    have "eqm m (words_val rr) (words_val r' * mont_unit mont)" using mont_cancel [OF mont(2) c(3)] mont(3) by simp
    also have "eqm m \<dots> (aa ^ nat p)" using r'(2) mont(3) by (simp add: mrep_def)
    finally show ?thesis using c(2) mont(3) by (simp add: eqm_def red_id)
  qed
  have np: "z_num_bits p \<noteq> 0" using False assms(3) by (simp add: z_num_bits_def nat_bits.simps)
  have "z_mod_exp_mont a p m True in_mont = Some (words_val rr)"
    unfolding z_mod_exp_mont_def Let_def window_def [symmetric]
    using assms(1,3) np mont(1) aa(1) val0(1) vals(1) r(1) r'(1)
    by (simp add: bn_from_mont_fixed_top_def rr_def)
  then show ?thesis unfolding rr aa_def by (simp add: power_mod)
qed

section \<open>The contract for callers\<close>

text \<open>
C38: \<open>BN_mod_exp_mont\<close> is modular exponentiation for every odd modulus and every exponent: the
window recoding, the table of odd powers, the first squarings it skips and the conversions in and
out of Montgomery form cancel exactly.
\<close>

theorem BN_mod_exp_mont_power:
  assumes "odd m" "1 < m" "0 \<le> p"
  shows "z_mod_exp_mont a p m True None = Some (a ^ nat p mod m)"
  using z_mod_exp_mont_correct [OF assms, of None] by simp

theorem BN_mod_exp_mont_power_witness: "z_mod_exp_mont 5 100 97 True None = Some 43"
  by (subst BN_mod_exp_mont_power) simp_all

end
