(* ===== verification/Ec_Group.thy ===== *)
theory Ec_Group
  imports Ec_Method Bn_Exp
begin

text \<open>
  Groups and their field arithmetic: the \<open>EC_GROUP\<close> record, the field operations of
  \<open>ecp_smpl.c\<close> (plain residues) and \<open>ecp_mont.c\<close> (Montgomery residues), the calls through
  \<open>group->meth\<close>, and the group operations of the two implementations. BIGNUMs are their
  values; \<open>ctx\<close> says whether the BN_CTX can still hand out temporaries. The locale
  \<open>ec_field\<close> states what the curve code relies on; both implementations interpret it.
\<close>

section \<open>Groups\<close>

text \<open>
  Left out of the record: \<open>poly\<close> and \<open>field_mod_func\<close> (binary and NIST fields), the
  precomputation tables, the library context and its property query.
\<close>

record ec_group =
  g_meth :: ec_meth
  g_generator :: "nat option"
  g_order :: int
  g_cofactor :: int
  g_curve_name :: int
  g_asn1_flag :: int
  g_decoded_from_explicit_params :: int
  g_asn1_form :: int
  g_seed :: "nat list option"
  g_field :: int
  g_a :: int
  g_b :: int
  g_a_is_minus3 :: bool
  g_field_data1 :: "bn_mont_ctx option"
  g_field_data2 :: "int option"
  g_mont_data :: "bn_mont_ctx option"

section \<open>Field operations\<close>

definition ossl_ec_GFp_simple_field_mul :: "ec_group \<Rightarrow> int \<Rightarrow> int \<Rightarrow> bool \<Rightarrow> int option" where
  "ossl_ec_GFp_simple_field_mul g a b ctx = z_mod_mul a b (g_field g) ctx"

definition ossl_ec_GFp_simple_field_sqr :: "ec_group \<Rightarrow> int \<Rightarrow> bool \<Rightarrow> int option" where
  "ossl_ec_GFp_simple_field_sqr g a ctx = (if ctx then z_mod_sqr a (g_field g) else None)"

definition ossl_ec_GFp_mont_field_mul :: "ec_group \<Rightarrow> int \<Rightarrow> int \<Rightarrow> bool \<Rightarrow> int option" where
  "ossl_ec_GFp_mont_field_mul g a b ctx =
     (case g_field_data1 g of None \<Rightarrow> None | Some mont \<Rightarrow> z_mod_mul_montgomery a b mont ctx)"

definition ossl_ec_GFp_mont_field_sqr :: "ec_group \<Rightarrow> int \<Rightarrow> bool \<Rightarrow> int option" where
  "ossl_ec_GFp_mont_field_sqr g a ctx =
     (case g_field_data1 g of None \<Rightarrow> None | Some mont \<Rightarrow> z_mod_mul_montgomery a a mont ctx)"

definition ossl_ec_GFp_mont_field_encode :: "ec_group \<Rightarrow> int \<Rightarrow> bool \<Rightarrow> int option" where
  "ossl_ec_GFp_mont_field_encode g a ctx =
     (case g_field_data1 g of None \<Rightarrow> None | Some mont \<Rightarrow> z_to_montgomery a mont ctx)"

definition ossl_ec_GFp_mont_field_decode :: "ec_group \<Rightarrow> int \<Rightarrow> bool \<Rightarrow> int option" where
  "ossl_ec_GFp_mont_field_decode g a ctx =
     (case g_field_data1 g of None \<Rightarrow> None | Some mont \<Rightarrow> z_from_montgomery a mont ctx)"

definition ossl_ec_GFp_mont_field_set_to_one :: "ec_group \<Rightarrow> bool \<Rightarrow> int option" where
  "ossl_ec_GFp_mont_field_set_to_one g ctx = g_field_data2 g"

text \<open>The calls \<open>group->meth->field_mul(...)\<close> and so on, dispatched on the function the
  slot holds. Functions of other implementations are outside the model (\<open>None\<close>).\<close>

definition field_mul :: "ec_group \<Rightarrow> int \<Rightarrow> int \<Rightarrow> bool \<Rightarrow> int option" where
  "field_mul g a b ctx =
     (let f = slot (g_meth g) ''field_mul'' in
      if f = ''ossl_ec_GFp_simple_field_mul'' then ossl_ec_GFp_simple_field_mul g a b ctx
      else if f = ''ossl_ec_GFp_mont_field_mul'' then ossl_ec_GFp_mont_field_mul g a b ctx
      else None)"

definition field_sqr :: "ec_group \<Rightarrow> int \<Rightarrow> bool \<Rightarrow> int option" where
  "field_sqr g a ctx =
     (let f = slot (g_meth g) ''field_sqr'' in
      if f = ''ossl_ec_GFp_simple_field_sqr'' then ossl_ec_GFp_simple_field_sqr g a ctx
      else if f = ''ossl_ec_GFp_mont_field_sqr'' then ossl_ec_GFp_mont_field_sqr g a ctx
      else None)"

definition has_slot :: "ec_group \<Rightarrow> string \<Rightarrow> bool" where
  "has_slot g nm \<longleftrightarrow> slot (g_meth g) nm \<noteq> ''0''"

definition field_encode :: "ec_group \<Rightarrow> int \<Rightarrow> bool \<Rightarrow> int option" where
  "field_encode g a ctx =
     (if slot (g_meth g) ''field_encode'' = ''ossl_ec_GFp_mont_field_encode''
      then ossl_ec_GFp_mont_field_encode g a ctx else None)"

definition field_decode :: "ec_group \<Rightarrow> int \<Rightarrow> bool \<Rightarrow> int option" where
  "field_decode g a ctx =
     (if slot (g_meth g) ''field_decode'' = ''ossl_ec_GFp_mont_field_decode''
      then ossl_ec_GFp_mont_field_decode g a ctx else None)"

definition field_set_to_one :: "ec_group \<Rightarrow> bool \<Rightarrow> int option" where
  "field_set_to_one g ctx =
     (if slot (g_meth g) ''field_set_to_one'' = ''ossl_ec_GFp_mont_field_set_to_one''
      then ossl_ec_GFp_mont_field_set_to_one g ctx else None)"

text \<open>
  Random numbers: the stream of samples in \<open>[0, field)\<close> that \<open>BN_priv_rand_range_ex\<close> will
  return is part of the state; an empty stream is a failing generator. The
  \<open>do ... while (BN_is_zero(e))\<close> loops take the first nonzero sample.
\<close>

fun rand_nonzero :: "int list \<Rightarrow> (int \<times> int list) option" where
  "rand_nonzero [] = None"
| "rand_nonzero (e # es) = (if e = 0 then rand_nonzero es else Some (e, es))"

definition ossl_ec_GFp_simple_field_inv :: "ec_group \<Rightarrow> int \<Rightarrow> int list \<Rightarrow> bool \<Rightarrow> (int \<times> int list) option" where
  "ossl_ec_GFp_simple_field_inv g a rng ctx =
     (if \<not> ctx then None
      else do {
        (e, rng') \<leftarrow> rand_nonzero rng;
        r \<leftarrow> field_mul g a e ctx;
        r \<leftarrow> z_mod_inverse r (g_field g);
        r \<leftarrow> field_mul g r e ctx;
        Some (r, rng')
      })"

definition ossl_ec_GFp_mont_field_inv :: "ec_group \<Rightarrow> int \<Rightarrow> int list \<Rightarrow> bool \<Rightarrow> (int \<times> int list) option" where
  "ossl_ec_GFp_mont_field_inv g a rng ctx =
     (case g_field_data1 g of None \<Rightarrow> None
      | Some mont \<Rightarrow>
          if \<not> ctx then None
          else do {
            let e = g_field g - 2;
            r \<leftarrow> z_mod_exp_mont a e (g_field g) ctx (Some mont);
            (if r = 0 then None else Some (r, rng))
          })"

definition field_inv :: "ec_group \<Rightarrow> int \<Rightarrow> int list \<Rightarrow> bool \<Rightarrow> (int \<times> int list) option" where
  "field_inv g a rng ctx =
     (let f = slot (g_meth g) ''field_inv'' in
      if f = ''ossl_ec_GFp_simple_field_inv'' then ossl_ec_GFp_simple_field_inv g a rng ctx
      else if f = ''ossl_ec_GFp_mont_field_inv'' then ossl_ec_GFp_mont_field_inv g a rng ctx
      else None)"

section \<open>Group operations\<close>

definition ossl_ec_GFp_simple_group_init :: "ec_group \<Rightarrow> ec_group" where
  "ossl_ec_GFp_simple_group_init g = g\<lparr>g_field := 0, g_a := 0, g_b := 0, g_a_is_minus3 := False\<rparr>"

definition ossl_ec_GFp_mont_group_init :: "ec_group \<Rightarrow> ec_group" where
  "ossl_ec_GFp_mont_group_init g =
     (ossl_ec_GFp_simple_group_init g)\<lparr>g_field_data1 := None, g_field_data2 := None\<rparr>"

definition ossl_ec_GFp_simple_group_copy :: "ec_group \<Rightarrow> ec_group \<Rightarrow> ec_group" where
  "ossl_ec_GFp_simple_group_copy dest src =
     dest\<lparr>g_field := g_field src, g_a := g_a src, g_b := g_b src, g_a_is_minus3 := g_a_is_minus3 src\<rparr>"

definition ossl_ec_GFp_mont_group_copy :: "ec_group \<Rightarrow> ec_group \<Rightarrow> ec_group" where
  "ossl_ec_GFp_mont_group_copy dest src =
     (ossl_ec_GFp_simple_group_copy dest src)
       \<lparr>g_field_data1 := g_field_data1 src, g_field_data2 := g_field_data2 src\<rparr>"

definition ossl_ec_GFp_simple_group_set_curve :: "ec_group \<Rightarrow> int \<Rightarrow> int \<Rightarrow> int \<Rightarrow> bool \<Rightarrow> ec_group option" where
  "ossl_ec_GFp_simple_group_set_curve g p a b ctx =
     (if z_num_bits p \<le> 2 \<or> even p then None
      else if \<not> ctx then None
      else do {
        let g = g\<lparr>g_field := \<bar>p\<bar>\<rparr>;
        tmp_a \<leftarrow> z_nnmod a p;
        a' \<leftarrow> (if has_slot g ''field_encode'' then field_encode g tmp_a ctx else Some tmp_a);
        let g = g\<lparr>g_a := a'\<rparr>;
        b' \<leftarrow> z_nnmod b p;
        b' \<leftarrow> (if has_slot g ''field_encode'' then field_encode g b' ctx else Some b');
        let g = g\<lparr>g_b := b'\<rparr>;
        Some (g\<lparr>g_a_is_minus3 := (tmp_a + 3 = g_field g)\<rparr>)
      })"

definition ossl_ec_GFp_mont_group_set_curve :: "ec_group \<Rightarrow> int \<Rightarrow> int \<Rightarrow> int \<Rightarrow> bool \<Rightarrow> ec_group option" where
  "ossl_ec_GFp_mont_group_set_curve g p a b ctx = do {
     mont \<leftarrow> BN_MONT_CTX_set p ctx;
     one \<leftarrow> z_to_montgomery 1 mont ctx;
     ossl_ec_GFp_simple_group_set_curve (g\<lparr>g_field_data1 := Some mont, g_field_data2 := Some one\<rparr>) p a b ctx
   }"

definition ossl_ec_GFp_simple_group_get_curve :: "ec_group \<Rightarrow> bool \<Rightarrow> (int \<times> int \<times> int) option" where
  "ossl_ec_GFp_simple_group_get_curve g ctx =
     (if has_slot g ''field_decode'' then do {
        a \<leftarrow> field_decode g (g_a g) ctx;
        b \<leftarrow> field_decode g (g_b g) ctx;
        Some (g_field g, a, b)
      }
      else Some (g_field g, g_a g, g_b g))"

definition ossl_ec_GFp_simple_group_get_degree :: "ec_group \<Rightarrow> nat" where
  "ossl_ec_GFp_simple_group_get_degree g = z_num_bits (g_field g)"

definition ossl_ec_GFp_simple_group_check_discriminant :: "ec_group \<Rightarrow> bool \<Rightarrow> unit option" where
  "ossl_ec_GFp_simple_group_check_discriminant g ctx =
     (if \<not> ctx then None
      else do {
        a \<leftarrow> (if has_slot g ''field_decode'' then field_decode g (g_a g) ctx else Some (g_a g));
        b \<leftarrow> (if has_slot g ''field_decode'' then field_decode g (g_b g) ctx else Some (g_b g));
        let p = g_field g;
        (if a = 0 then (if b = 0 then None else Some ())
         else if b \<noteq> 0 then do {
           tmp_1 \<leftarrow> z_mod_sqr a p;
           tmp_2 \<leftarrow> z_mod_mul tmp_1 a p ctx;
           let tmp_1 = tmp_2 * 2 ^ 2;
           tmp_2 \<leftarrow> z_mod_sqr b p;
           let tmp_2 = tmp_2 * 27;
           a \<leftarrow> z_mod_add tmp_1 tmp_2 p;
           (if a = 0 then None else Some ())
         }
         else Some ())
      })"

text \<open>\<open>EC_GROUP_set_curve\<close> calls through the \<open>group_set_curve\<close> slot.\<close>

definition EC_GROUP_set_curve :: "ec_group \<Rightarrow> int \<Rightarrow> int \<Rightarrow> int \<Rightarrow> bool \<Rightarrow> ec_group option" where
  "EC_GROUP_set_curve g p a b ctx =
     (let f = slot (g_meth g) ''group_set_curve'' in
      if f = ''ossl_ec_GFp_simple_group_set_curve'' then ossl_ec_GFp_simple_group_set_curve g p a b ctx
      else if f = ''ossl_ec_GFp_mont_group_set_curve'' then ossl_ec_GFp_mont_group_set_curve g p a b ctx
      else None)"

section \<open>What the curve code relies on\<close>

text \<open>
  \<open>valid g\<close> are the groups of an implementation, \<open>fac g\<close> the factor its products carry (1 for
  plain residues, the inverse of \<open>R\<close> for Montgomery residues): \<open>x * fac g\<close> is the field
  element that the residue \<open>x\<close> stands for.
\<close>

text \<open>The samples left are residues, and at least \<open>n\<close> of them are not zero.\<close>

definition rng_avail :: "ec_group \<Rightarrow> nat \<Rightarrow> int list \<Rightarrow> bool" where
  "rng_avail g n rng \<longleftrightarrow> list_all (red (g_field g)) rng \<and> n \<le> length (filter (\<lambda>e. e \<noteq> 0) rng)"

locale ec_field =
  fixes valid :: "ec_group \<Rightarrow> bool" and fac :: "ec_group \<Rightarrow> int"
  assumes meth_law: "valid g \<Longrightarrow> g_meth g = M_GFp_simple \<or> g_meth g = M_GFp_mont"
    and field_prime: "valid g \<Longrightarrow> prime_int (g_field g)"
    and field_gt_3: "valid g \<Longrightarrow> 3 < g_field g"
    and fac_unit: "valid g \<Longrightarrow> \<not> g_field g dvd fac g"
    and curve_red: "valid g \<Longrightarrow> red (g_field g) (g_a g) \<and> red (g_field g) (g_b g)"
    and minus3: "valid g \<Longrightarrow> g_a_is_minus3 g \<Longrightarrow> eqm (g_field g) (g_a g * fac g) (- 3)"
    and mul_law: "valid g \<Longrightarrow> red (g_field g) x \<Longrightarrow> red (g_field g) y \<Longrightarrow>
      field_mul g x y True = Some ((x * y * fac g) mod g_field g)"
    and sqr_law: "valid g \<Longrightarrow> red (g_field g) x \<Longrightarrow>
      field_sqr g x True = Some ((x * x * fac g) mod g_field g)"
    and encode_law: "valid g \<Longrightarrow> has_slot g ''field_encode'' \<Longrightarrow> red (g_field g) x \<Longrightarrow>
      \<exists>y. field_encode g x True = Some y \<and> red (g_field g) y \<and> eqm (g_field g) (y * fac g) x"
    and decode_law: "valid g \<Longrightarrow> has_slot g ''field_encode'' \<Longrightarrow> red (g_field g) x \<Longrightarrow>
      field_decode g x True = Some ((x * fac g) mod g_field g)"
    and plain_law: "valid g \<Longrightarrow> \<not> has_slot g ''field_encode'' \<Longrightarrow> fac g = 1"
    and one_law: "valid g \<Longrightarrow> has_slot g ''field_set_to_one'' \<Longrightarrow>
      \<exists>y. field_set_to_one g True = Some y \<and> red (g_field g) y \<and> eqm (g_field g) (y * fac g) 1"
    and same_slots: "valid g \<Longrightarrow> has_slot g ''field_decode'' = has_slot g ''field_encode'' \<and>
      has_slot g ''field_set_to_one'' = has_slot g ''field_encode''"
    and inv_law: "valid g \<Longrightarrow> red (g_field g) x \<Longrightarrow> x \<noteq> 0 \<Longrightarrow> rng_avail g (Suc n) rng \<Longrightarrow>
      \<exists>y rng'. field_inv g x rng True = Some (y, rng') \<and> red (g_field g) y \<and>
        eqm (g_field g) (y * x) 1 \<and> rng_avail g n rng'"
    and inv_zero: "valid g \<Longrightarrow> field_inv g 0 rng True = None"

text \<open>Plain residues.\<close>

definition simple_valid :: "ec_group \<Rightarrow> bool" where
  "simple_valid g \<longleftrightarrow> g_meth g = M_GFp_simple \<and> prime_int (g_field g) \<and> 3 < g_field g \<and>
     red (g_field g) (g_a g) \<and> red (g_field g) (g_b g) \<and>
     (g_a_is_minus3 g \<longleftrightarrow> g_a g + 3 = g_field g)"

lemma simple_field_mul:
  "g_meth g = M_GFp_simple \<Longrightarrow> 0 < g_field g \<Longrightarrow> field_mul g x y True = Some ((x * y) mod g_field g)"
  by (simp add: field_mul_def ossl_ec_GFp_simple_field_mul_def z_mod_mul_red)

lemma rand_nonzero_avail:
  "rng_avail g (Suc n) rng \<Longrightarrow>
   \<exists>e rng'. rand_nonzero rng = Some (e, rng') \<and> e \<noteq> 0 \<and> red (g_field g) e \<and> rng_avail g n rng'"
  by (induction rng) (auto simp: rng_avail_def)

lemma simple_field_inv_law:
  assumes "simple_valid g" "red (g_field g) x" "x \<noteq> 0" "rng_avail g (Suc n) rng"
  shows "\<exists>y rng'. field_inv g x rng True = Some (y, rng') \<and> red (g_field g) y \<and>
    eqm (g_field g) (y * x) 1 \<and> rng_avail g n rng'"
proof -
  let ?p = "g_field g"
  have p: "prime_int ?p" "1 < ?p" "g_meth g = M_GFp_simple"
    using assms(1) by (auto simp: simple_valid_def)
  obtain e es where e: "rand_nonzero rng = Some (e, es)" "e \<noteq> 0" and er: "red ?p e" and es: "rng_avail g n es"
    using rand_nonzero_avail [OF assms(4)] by blast
  have nd: "\<not> ?p dvd x" "\<not> ?p dvd e"
    using red_dvd_0 [OF assms(2)] red_dvd_0 [OF er] assms(3) e(2) by simp_all
  define r where "r = (x * e) mod ?p"
  have "\<not> ?p dvd r" using nd p(1) by (simp add: r_def prime_int_dvd_mult dvd_mod_iff)
  then have "gcd r ?p = 1" using prime_int_coprime [OF p(1)] by (metis coprime_iff_gcd_eq_1 gcd.commute)
  moreover have "inverse_spec r ?p (z_mod_inverse r ?p)"
    unfolding z_mod_inverse_def using p(2) by (intro z_mod_inverse_spec) auto
  ultimately obtain i where i: "z_mod_inverse r ?p = Some i" "red ?p i" "(r * i) mod ?p = 1"
    using p(2) by (auto simp: inverse_spec_def red_def split: option.splits)
  define y where "y = (i * e) mod ?p"
  have "eqm ?p (y * x) (i * e * x)" unfolding y_def by (intro eqm_intros) (simp add: eqm_def)
  also have "i * e * x = (x * e) * i" by simp
  also have "eqm ?p \<dots> (r * i)" unfolding r_def by (intro eqm_intros) (simp add: eqm_def)
  also have "eqm ?p (r * i) 1" using i(3) p(2) by (simp add: eqm_def)
  finally have "eqm ?p (y * x) 1" .
  moreover have "field_inv g x rng True = Some (y, es)"
    using p e(1) i(1) by (simp add: field_inv_def ossl_ec_GFp_simple_field_inv_def simple_field_mul r_def y_def)
  ultimately show ?thesis using es p(2) by (auto simp: y_def)
qed

lemma simple_field_inv_zero: "simple_valid g \<Longrightarrow> field_inv g 0 rng True = None"
proof -
  assume v: "simple_valid g"
  then have p: "1 < g_field g" "g_meth g = M_GFp_simple" by (auto simp: simple_valid_def)
  have "inverse_spec 0 (g_field g) (z_mod_inverse 0 (g_field g))"
    unfolding z_mod_inverse_def using p(1) by (intro z_mod_inverse_spec) auto
  then have "z_mod_inverse 0 (g_field g) = None" using p(1) by (auto simp: inverse_spec_def split: option.splits)
  then show ?thesis
    using p by (auto simp: field_inv_def ossl_ec_GFp_simple_field_inv_def simple_field_mul
      split: Option.bind_split)
qed

interpretation simple_f: ec_field simple_valid "\<lambda>g. 1"
proof
  show "\<And>g. simple_valid g \<Longrightarrow> prime_int (g_field g)" by (simp add: simple_valid_def)
  show "\<And>g. simple_valid g \<Longrightarrow> \<not> g_field g dvd 1" by (auto simp: simple_valid_def zdvd1_eq)
  show "\<And>g. simple_valid g \<Longrightarrow> g_a_is_minus3 g \<Longrightarrow> eqm (g_field g) (g_a g * 1) (- 3)"
    by (auto simp: simple_valid_def eqm_dvd)
qed (auto simp: simple_valid_def simple_field_mul field_sqr_def ossl_ec_GFp_simple_field_sqr_def
    z_mod_sqr_red has_slot_def intro: simple_field_inv_law simple_field_inv_zero)

text \<open>Montgomery residues.\<close>

definition mont_fac :: "ec_group \<Rightarrow> int" where
  "mont_fac g = (case g_field_data1 g of Some mont \<Rightarrow> mont_unit mont | None \<Rightarrow> 1)"

definition mont_valid :: "ec_group \<Rightarrow> bool" where
  "mont_valid g \<longleftrightarrow> g_meth g = M_GFp_mont \<and> prime_int (g_field g) \<and> 3 < g_field g \<and>
     red (g_field g) (g_a g) \<and> red (g_field g) (g_b g) \<and>
     (case g_field_data1 g of None \<Rightarrow> False
      | Some mont \<Rightarrow> mont_ok mont \<and> mont_nv mont = g_field g \<and>
          g_field_data2 g = Some (mont_R mont mod g_field g)) \<and>
     (g_a_is_minus3 g \<longleftrightarrow> (g_a g * mont_fac g) mod g_field g + 3 = g_field g)"

lemma mont_validD:
  assumes "mont_valid g"
  obtains mont where "g_meth g = M_GFp_mont" "prime_int (g_field g)" "3 < g_field g"
    "red (g_field g) (g_a g)" "red (g_field g) (g_b g)" "g_field_data1 g = Some mont" "mont_ok mont"
    "mont_nv mont = g_field g" "g_field_data2 g = Some (mont_R mont mod g_field g)"
    "mont_fac g = mont_unit mont"
  using assms by (auto simp: mont_valid_def mont_fac_def split: option.splits)

lemma mont_field_mul:
  assumes "mont_valid g" "red (g_field g) x" "red (g_field g) y"
  shows "field_mul g x y True = Some ((x * y * mont_fac g) mod g_field g)"
proof -
  from assms(1) obtain mont where m: "g_meth g = M_GFp_mont" "g_field_data1 g = Some mont" "mont_ok mont"
    "mont_nv mont = g_field g" "mont_fac g = mont_unit mont" by (rule mont_validD)
  with z_mod_mul_montgomery_red [OF m(3), of x y] assms(2,3) show ?thesis
    by (simp add: field_mul_def ossl_ec_GFp_mont_field_mul_def)
qed

lemma mont_field_sqr:
  assumes "mont_valid g" "red (g_field g) x"
  shows "field_sqr g x True = Some ((x * x * mont_fac g) mod g_field g)"
proof -
  from assms(1) obtain mont where m: "g_meth g = M_GFp_mont" "g_field_data1 g = Some mont" "mont_ok mont"
    "mont_nv mont = g_field g" "mont_fac g = mont_unit mont" by (rule mont_validD)
  with z_mod_mul_montgomery_red [OF m(3), of x x] assms(2) show ?thesis
    by (simp add: field_sqr_def ossl_ec_GFp_mont_field_sqr_def)
qed

lemma mont_R_fac:
  assumes "mont_ok mont" "mont_nv mont = p"
  shows "eqm p ((x * mont_R mont) mod p * mont_unit mont) x"
proof -
  have "eqm p ((x * mont_R mont) mod p * mont_unit mont) (x * mont_R mont * mont_unit mont)"
    by (intro eqm_intros) (simp add: eqm_def)
  also have "x * mont_R mont * mont_unit mont = x * (mont_R mont * mont_unit mont)" by simp
  also have "eqm p \<dots> (x * 1)" using mont_unit_eqm [OF assms(1)] assms(2) by (intro eqm_intros) simp
  finally show ?thesis by simp
qed

lemma mont_field_encode:
  assumes "mont_valid g" "red (g_field g) x"
  shows "\<exists>y. field_encode g x True = Some y \<and> red (g_field g) y \<and> eqm (g_field g) (y * mont_fac g) x"
proof -
  from assms(1) obtain mont where m: "g_meth g = M_GFp_mont" "3 < g_field g" "g_field_data1 g = Some mont" "mont_ok mont"
    "mont_nv mont = g_field g" "mont_fac g = mont_unit mont" by (rule mont_validD)
  with z_to_montgomery_red [OF m(4), of x] assms(2) mont_R_fac [OF m(4,5), of x] show ?thesis
    by (simp add: field_encode_def ossl_ec_GFp_mont_field_encode_def)
qed

lemma mont_field_decode:
  assumes "mont_valid g" "red (g_field g) x"
  shows "field_decode g x True = Some ((x * mont_fac g) mod g_field g)"
proof -
  from assms(1) obtain mont where m: "g_meth g = M_GFp_mont" "g_field_data1 g = Some mont" "mont_ok mont"
    "mont_nv mont = g_field g" "mont_fac g = mont_unit mont" by (rule mont_validD)
  with z_from_montgomery_red [OF m(3), of x] assms(2) show ?thesis
    by (simp add: field_decode_def ossl_ec_GFp_mont_field_decode_def)
qed

lemma mont_field_one:
  assumes "mont_valid g"
  shows "\<exists>y. field_set_to_one g True = Some y \<and> red (g_field g) y \<and> eqm (g_field g) (y * mont_fac g) 1"
proof -
  from assms(1) obtain mont where m: "g_meth g = M_GFp_mont" "3 < g_field g" "mont_ok mont"
    "mont_nv mont = g_field g" "g_field_data2 g = Some (mont_R mont mod g_field g)"
    "mont_fac g = mont_unit mont" by (rule mont_validD)
  with mont_R_fac [OF m(3,4), of 1] show ?thesis
    by (simp add: field_set_to_one_def ossl_ec_GFp_mont_field_set_to_one_def)
qed

lemma prime_gt_3_odd: "prime_int p \<Longrightarrow> 3 < p \<Longrightarrow> odd p"
proof
  assume p: "prime_int p" "3 < p" and "even p"
  then have "2 dvd p" by simp
  with prime_int_divisor [OF p(1), of 2] p(2) show False by simp
qed

lemma mont_field_inv:
  assumes "mont_valid g"
  shows "red (g_field g) x \<Longrightarrow> x \<noteq> 0 \<Longrightarrow> rng_avail g (Suc n) rng \<Longrightarrow>
      \<exists>y rng'. field_inv g x rng True = Some (y, rng') \<and>
      red (g_field g) y \<and> eqm (g_field g) (y * x) 1 \<and> rng_avail g n rng'"
    and "field_inv g 0 rng True = None"
proof -
  let ?p = "g_field g"
  from assms(1) obtain mont where m: "g_meth g = M_GFp_mont" "prime_int ?p" "3 < ?p" "g_field_data1 g = Some mont"
    "mont_ok mont" "mont_nv mont = ?p" by (rule mont_validD)
  have inv: "field_inv g a rng True = (let r = a ^ nat (?p - 2) mod ?p in if r = 0 then None else Some (r, rng))" for a
    using m prime_gt_3_odd [OF m(2,3)]
    by (simp add: field_inv_def ossl_ec_GFp_mont_field_inv_def z_mod_exp_mont_correct Let_def)
  show "field_inv g 0 rng True = None" using m(3) by (simp add: inv power_0_left)
  assume x: "red ?p x" "x \<noteq> 0" and av: "rng_avail g (Suc n) rng"
  then have nd: "\<not> ?p dvd x" by (simp add: red_dvd_0)
  define y where "y = x ^ nat (?p - 2) mod ?p"
  have "eqm ?p (y * x) (x ^ nat (?p - 2) * x)" unfolding y_def by (intro eqm_intros) (simp add: eqm_def)
  also have "eqm ?p \<dots> 1" using fermat_inverse [OF m(2) nd] .
  finally have yx: "eqm ?p (y * x) 1" .
  then have "y \<noteq> 0" using m(3) by (auto simp: eqm_def)
  with yx m(3) show "\<exists>y rng'. field_inv g x rng True = Some (y, rng') \<and>
      red (g_field g) y \<and> eqm (g_field g) (y * x) 1 \<and> rng_avail g n rng'"
    using av by (intro exI [of _ y] exI [of _ rng]) (auto simp: inv Let_def y_def rng_avail_def)
qed

lemma mont_fac_unit: "mont_valid g \<Longrightarrow> \<not> g_field g dvd mont_fac g"
proof
  assume v: "mont_valid g" and d: "g_field g dvd mont_fac g"
  obtain mont where m: "3 < g_field g" "mont_ok mont" "mont_nv mont = g_field g" "mont_fac g = mont_unit mont"
    using v by (rule mont_validD)
  have "eqm (g_field g) (mont_R mont * mont_fac g) 1" using mont_unit_eqm [OF m(2)] m(3,4) by simp
  with d m(1) show False by (auto simp: eqm_def dvd_eq_mod_eq_0 mod_mult_right_eq)
qed

interpretation mont_f: ec_field mont_valid mont_fac
proof
  show "\<And>g. mont_valid g \<Longrightarrow> g_a_is_minus3 g \<Longrightarrow> eqm (g_field g) (g_a g * mont_fac g) (- 3)"
  proof -
    fix g assume v: "mont_valid g" and m3: "g_a_is_minus3 g"
    then have "(g_a g * mont_fac g) mod g_field g = g_field g - 3" by (auto simp: mont_valid_def)
    then have "eqm (g_field g) (g_a g * mont_fac g) (- 3 + g_field g)" by (metis eqm_mod_left eqm_refl uminus_add_conv_diff)
    then show "eqm (g_field g) (g_a g * mont_fac g) (- 3)" by (simp add: eqm_def)
  qed
qed (auto simp: mont_field_mul mont_field_sqr mont_field_encode mont_field_decode mont_field_one
    mont_field_inv mont_fac_unit has_slot_def elim!: mont_validD)

text \<open>\<open>EC_GROUP_set_curve\<close> establishes validity.\<close>

lemma z_num_bits_gt_2: "2 < p \<Longrightarrow> odd p \<Longrightarrow> 3 < p \<Longrightarrow> \<not> z_num_bits p \<le> 2"
  by (simp add: z_num_bits_def nat_bits_le_iff)

lemma set_curve_simple:
  assumes "g_meth g = M_GFp_simple" "prime_int p" "3 < p"
  shows "\<exists>g'. EC_GROUP_set_curve g p a b True = Some g' \<and> simple_valid g' \<and> g_field g' = p \<and>
    g_a g' = a mod p \<and> g_b g' = b mod p"
  using assms prime_gt_3_odd [of p] z_num_bits_gt_2 [of p]
  by (auto simp: EC_GROUP_set_curve_def ossl_ec_GFp_simple_group_set_curve_def z_nnmod_eq has_slot_def
      simple_valid_def Let_def)

lemma set_curve_mont:
  assumes "g_meth g = M_GFp_mont" "prime_int p" "3 < p"
  shows "\<exists>g'. EC_GROUP_set_curve g p a b True = Some g' \<and> mont_valid g' \<and> g_field g' = p \<and>
    eqm p (g_a g' * mont_fac g') a \<and> eqm p (g_b g' * mont_fac g') b"
proof -
  note p = prime_gt_3_odd [OF assms(2,3)]
  obtain mont where m: "BN_MONT_CTX_set p True = Some mont" "mont_ok mont" "mont_nv mont = p"
    using BN_MONT_CTX_set_correct [OF p] assms(3) by auto
  let ?enc = "\<lambda>x. (x * mont_R mont) mod p"
  have enc: "z_to_montgomery x mont True = Some (?enc x)" if "red p x" for x
    using z_to_montgomery_red [OF m(2), of x] that m(3) by simp
  define g' where "g' = g\<lparr>g_field_data1 := Some mont, g_field_data2 := Some (?enc 1), g_field := p,
    g_a := ?enc (a mod p), g_b := ?enc (b mod p), g_a_is_minus3 := (a mod p + 3 = p)\<rparr>"
  have "red p 1" "red p (a mod p)" "red p (b mod p)" using assms(3) by auto
  with m(1) p assms z_num_bits_gt_2 [of p] have
    sc: "EC_GROUP_set_curve g p a b True = Some g'"
    by (simp add: EC_GROUP_set_curve_def ossl_ec_GFp_mont_group_set_curve_def enc
        ossl_ec_GFp_simple_group_set_curve_def z_nnmod_eq has_slot_def Let_def field_encode_def
        ossl_ec_GFp_mont_field_encode_def g'_def)
  have f: "mont_fac g' = mont_unit mont" by (simp add: g'_def mont_fac_def)
  have "eqm p (?enc (x mod p) * mont_unit mont) x" for x
  proof -
    have "eqm p (?enc (x mod p) * mont_unit mont) (x mod p)" by (rule mont_R_fac [OF m(2,3)])
    then show ?thesis by (simp add: eqm_mod_right)
  qed
  then have ab: "eqm p (g_a g' * mont_fac g') a" "eqm p (g_b g' * mont_fac g') b"
    unfolding f by (simp_all add: g'_def)
  from ab(1) have "(g_a g' * mont_fac g') mod p = a mod p" by (simp add: eqm_def)
  then have "mont_valid g'"
    using assms m(2,3) by (simp add: mont_valid_def) (simp add: g'_def)
  with sc ab show ?thesis by (auto simp: g'_def)
qed

end
