(* ===== verification/Ecp_Simple.thy ===== *)
theory Ecp_Simple
  imports Ec_Group
begin

text \<open>
  Points in Jacobian coordinates and the operations of \<open>ecp_smpl.c\<close>, with the entry points of
  \<open>ec_lib.c\<close> they call back into. Points live in a store indexed by address, so that \<open>r\<close>, \<open>a\<close>
  and \<open>b\<close> may be the same object and the pointer tests \<open>a == b\<close>, \<open>a == r\<close> are equalities of
  addresses; every read of a coordinate is a read of the current store. \<open>None\<close> is a return
  of 0 (what the failing call left in its result is not modelled). \<open>is_on_curve\<close> and \<open>cmp\<close>
  return their three-valued codes.
\<close>

section \<open>Points and the store\<close>

record ec_point =
  p_meth :: ec_meth
  p_curve_name :: int
  pX :: int
  pY :: int
  pZ :: int
  pZ_is_one :: bool

record ec_state =
  heap :: "nat \<Rightarrow> ec_point"
  rng :: "int list"

definition upd_pt :: "nat \<Rightarrow> (ec_point \<Rightarrow> ec_point) \<Rightarrow> ec_state \<Rightarrow> ec_state" where
  "upd_pt r f s = s\<lparr>heap := (heap s)(r := f (heap s r))\<rparr>"

definition wr_X :: "nat \<Rightarrow> int \<Rightarrow> ec_state \<Rightarrow> ec_state" where
  "wr_X r v s = upd_pt r (pX_update (\<lambda>_. v)) s"

definition wr_Y :: "nat \<Rightarrow> int \<Rightarrow> ec_state \<Rightarrow> ec_state" where
  "wr_Y r v s = upd_pt r (pY_update (\<lambda>_. v)) s"

definition wr_Z :: "nat \<Rightarrow> int \<Rightarrow> ec_state \<Rightarrow> ec_state" where
  "wr_Z r v s = upd_pt r (pZ_update (\<lambda>_. v)) s"

definition wr_Z_is_one :: "nat \<Rightarrow> bool \<Rightarrow> ec_state \<Rightarrow> ec_state" where
  "wr_Z_is_one r v s = upd_pt r (pZ_is_one_update (\<lambda>_. v)) s"

definition wr_rng :: "int list \<Rightarrow> ec_state \<Rightarrow> ec_state" where
  "wr_rng es s = s\<lparr>rng := es\<rparr>"

abbreviation "Xof s a \<equiv> pX (heap s a)"
abbreviation "Yof s a \<equiv> pY (heap s a)"
abbreviation "Zof s a \<equiv> pZ (heap s a)"
abbreviation "Z1of s a \<equiv> pZ_is_one (heap s a)"

section \<open>Entry points of \<open>ec_lib.c\<close> and basic operations\<close>

definition ec_point_is_compat :: "ec_point \<Rightarrow> ec_group \<Rightarrow> bool" where
  "ec_point_is_compat point g \<longleftrightarrow>
     g_meth g = p_meth point \<and>
     (g_curve_name g = 0 \<or> p_curve_name point = 0 \<or> g_curve_name g = p_curve_name point)"

definition ossl_ec_GFp_simple_is_at_infinity :: "ec_group \<Rightarrow> ec_point \<Rightarrow> bool" where
  "ossl_ec_GFp_simple_is_at_infinity g point \<longleftrightarrow> pZ point = 0"

definition EC_POINT_is_at_infinity :: "ec_group \<Rightarrow> ec_point \<Rightarrow> bool" where
  "EC_POINT_is_at_infinity g point \<longleftrightarrow>
     (let f = slot (g_meth g) ''is_at_infinity'' in
      if f = ''0'' then False
      else if \<not> ec_point_is_compat point g then False
      else if f = ''ossl_ec_GFp_simple_is_at_infinity'' then ossl_ec_GFp_simple_is_at_infinity g point
      else False)"

definition ossl_ec_GFp_simple_point_init :: "ec_point \<Rightarrow> ec_point" where
  "ossl_ec_GFp_simple_point_init point = point\<lparr>pX := 0, pY := 0, pZ := 0, pZ_is_one := False\<rparr>"

definition ossl_ec_GFp_simple_point_copy :: "nat \<Rightarrow> nat \<Rightarrow> ec_state \<Rightarrow> ec_state option" where
  "ossl_ec_GFp_simple_point_copy dest src s = do {
     let s = wr_X dest (Xof s src) s;
     let s = wr_Y dest (Yof s src) s;
     let s = wr_Z dest (Zof s src) s;
     let s = wr_Z_is_one dest (Z1of s src) s;
     Some (upd_pt dest (p_curve_name_update (\<lambda>_. p_curve_name (heap s src))) s)
   }"

definition EC_POINT_copy :: "nat \<Rightarrow> nat \<Rightarrow> ec_state \<Rightarrow> ec_state option" where
  "EC_POINT_copy dest src s =
     (let d = heap s dest; sr = heap s src; f = slot (p_meth d) ''point_copy'' in
      if f = ''0'' then None
      else if p_meth d \<noteq> p_meth sr \<or>
        (p_curve_name d \<noteq> p_curve_name sr \<and> p_curve_name d \<noteq> 0 \<and> p_curve_name sr \<noteq> 0) then None
      else if dest = src then Some s
      else if f = ''ossl_ec_GFp_simple_point_copy'' then ossl_ec_GFp_simple_point_copy dest src s
      else None)"

definition ossl_ec_GFp_simple_point_set_to_infinity :: "nat \<Rightarrow> ec_state \<Rightarrow> ec_state option" where
  "ossl_ec_GFp_simple_point_set_to_infinity r s = Some (wr_Z r 0 (wr_Z_is_one r False s))"

definition EC_POINT_set_to_infinity :: "ec_group \<Rightarrow> nat \<Rightarrow> ec_state \<Rightarrow> ec_state option" where
  "EC_POINT_set_to_infinity g r s =
     (let f = slot (g_meth g) ''point_set_to_infinity'' in
      if f = ''0'' then None
      else if g_meth g \<noteq> p_meth (heap s r) then None
      else if f = ''ossl_ec_GFp_simple_point_set_to_infinity''
      then ossl_ec_GFp_simple_point_set_to_infinity r s
      else None)"

section \<open>Doubling\<close>

text \<open>The slope numerator \<open>n1\<close>, by the shape of the point and of the curve.\<close>

definition dbl_n1 :: "ec_group \<Rightarrow> nat \<Rightarrow> bool \<Rightarrow> ec_state \<Rightarrow> int option" where
  "dbl_n1 g a ctx s =
     (let p = g_field g in
      if Z1of s a then do {
        n0 \<leftarrow> field_sqr g (Xof s a) ctx;
        n1 \<leftarrow> z_mod_lshift1_quick n0 p;
        n0 \<leftarrow> z_mod_add_quick n0 n1 p;
        z_mod_add_quick n0 (g_a g) p
      }
      else if g_a_is_minus3 g then do {
        n1 \<leftarrow> field_sqr g (Zof s a) ctx;
        n0 \<leftarrow> z_mod_add_quick (Xof s a) n1 p;
        n2 \<leftarrow> z_mod_sub_quick (Xof s a) n1 p;
        n1 \<leftarrow> field_mul g n0 n2 ctx;
        n0 \<leftarrow> z_mod_lshift1_quick n1 p;
        z_mod_add_quick n0 n1 p
      }
      else do {
        n0 \<leftarrow> field_sqr g (Xof s a) ctx;
        n1 \<leftarrow> z_mod_lshift1_quick n0 p;
        n0 \<leftarrow> z_mod_add_quick n0 n1 p;
        n1 \<leftarrow> field_sqr g (Zof s a) ctx;
        n1 \<leftarrow> field_sqr g n1 ctx;
        n1 \<leftarrow> field_mul g n1 (g_a g) ctx;
        z_mod_add_quick n1 n0 p
      })"

definition ossl_ec_GFp_simple_dbl :: "ec_group \<Rightarrow> nat \<Rightarrow> nat \<Rightarrow> bool \<Rightarrow> ec_state \<Rightarrow> ec_state option" where
  "ossl_ec_GFp_simple_dbl g r a ctx s =
     (let p = g_field g in
      if EC_POINT_is_at_infinity g (heap s a) then Some (wr_Z_is_one r False (wr_Z r 0 s))
      else if \<not> ctx then None
      else do {
        n1 \<leftarrow> dbl_n1 g a ctx s;
        n0 \<leftarrow> (if Z1of s a then Some (Yof s a) else field_mul g (Yof s a) (Zof s a) ctx);
        z \<leftarrow> z_mod_lshift1_quick n0 p;
        let s = wr_Z_is_one r False (wr_Z r z s);
        n3 \<leftarrow> field_sqr g (Yof s a) ctx;
        n2 \<leftarrow> field_mul g (Xof s a) n3 ctx;
        n2 \<leftarrow> z_mod_lshift_quick n2 2 p;
        n0 \<leftarrow> z_mod_lshift1_quick n2 p;
        x \<leftarrow> field_sqr g n1 ctx;
        let s = wr_X r x s;
        x \<leftarrow> z_mod_sub_quick (Xof s r) n0 p;
        let s = wr_X r x s;
        n0 \<leftarrow> field_sqr g n3 ctx;
        n3 \<leftarrow> z_mod_lshift_quick n0 3 p;
        n0 \<leftarrow> z_mod_sub_quick n2 (Xof s r) p;
        n0 \<leftarrow> field_mul g n1 n0 ctx;
        y \<leftarrow> z_mod_sub_quick n0 n3 p;
        Some (wr_Y r y s)
      })"

definition EC_POINT_dbl :: "ec_group \<Rightarrow> nat \<Rightarrow> nat \<Rightarrow> bool \<Rightarrow> ec_state \<Rightarrow> ec_state option" where
  "EC_POINT_dbl g r a ctx s =
     (let f = slot (g_meth g) ''dbl'' in
      if f = ''0'' then None
      else if \<not> ec_point_is_compat (heap s r) g \<or> \<not> ec_point_is_compat (heap s a) g then None
      else if f = ''ossl_ec_GFp_simple_dbl'' then ossl_ec_GFp_simple_dbl g r a ctx s
      else None)"

section \<open>Addition\<close>

text \<open>\<open>n1, n2\<close> (and symmetrically \<open>n3, n4\<close>): the coordinates of one point scaled by the
  powers of the other point's \<open>Z\<close>.\<close>

definition add_scale :: "ec_group \<Rightarrow> ec_point \<Rightarrow> ec_point \<Rightarrow> bool \<Rightarrow> (int \<times> int) option" where
  "add_scale g a b ctx =
     (if pZ_is_one b then Some (pX a, pY a)
      else do {
        n0 \<leftarrow> field_sqr g (pZ b) ctx;
        n1 \<leftarrow> field_mul g (pX a) n0 ctx;
        n0 \<leftarrow> field_mul g n0 (pZ b) ctx;
        n2 \<leftarrow> field_mul g (pY a) n0 ctx;
        Some (n1, n2)
      })"

text \<open>\<open>Z_r\<close>, by which of the operands has \<open>Z = 1\<close>.\<close>

definition add_Z :: "ec_group \<Rightarrow> ec_point \<Rightarrow> ec_point \<Rightarrow> int \<Rightarrow> bool \<Rightarrow> int option" where
  "add_Z g a b n5 ctx =
     (if pZ_is_one a \<and> pZ_is_one b then Some n5
      else do {
        n0 \<leftarrow> (if pZ_is_one a then Some (pZ b)
               else if pZ_is_one b then Some (pZ a)
               else field_mul g (pZ a) (pZ b) ctx);
        field_mul g n0 n5 ctx
      })"

definition ossl_ec_GFp_simple_add :: "ec_group \<Rightarrow> nat \<Rightarrow> nat \<Rightarrow> nat \<Rightarrow> bool \<Rightarrow> ec_state \<Rightarrow> ec_state option" where
  "ossl_ec_GFp_simple_add g r a b ctx s =
     (let p = g_field g in
      if a = b then EC_POINT_dbl g r a ctx s
      else if EC_POINT_is_at_infinity g (heap s a) then EC_POINT_copy r b s
      else if EC_POINT_is_at_infinity g (heap s b) then EC_POINT_copy r a s
      else if \<not> ctx then None
      else do {
        (n1, n2) \<leftarrow> add_scale g (heap s a) (heap s b) ctx;
        (n3, n4) \<leftarrow> add_scale g (heap s b) (heap s a) ctx;
        n5 \<leftarrow> z_mod_sub_quick n1 n3 p;
        n6 \<leftarrow> z_mod_sub_quick n2 n4 p;
        if n5 = 0 then
          (if n6 = 0 then EC_POINT_dbl g r a ctx s
           else Some (wr_Z_is_one r False (wr_Z r 0 s)))
        else do {
          n1 \<leftarrow> z_mod_add_quick n1 n3 p;
          n2 \<leftarrow> z_mod_add_quick n2 n4 p;
          z \<leftarrow> add_Z g (heap s a) (heap s b) n5 ctx;
          let s = wr_Z_is_one r False (wr_Z r z s);
          n0 \<leftarrow> field_sqr g n6 ctx;
          n4 \<leftarrow> field_sqr g n5 ctx;
          n3 \<leftarrow> field_mul g n1 n4 ctx;
          x \<leftarrow> z_mod_sub_quick n0 n3 p;
          let s = wr_X r x s;
          n0 \<leftarrow> z_mod_lshift1_quick (Xof s r) p;
          n0 \<leftarrow> z_mod_sub_quick n3 n0 p;
          n0 \<leftarrow> field_mul g n0 n6 ctx;
          n5 \<leftarrow> field_mul g n4 n5 ctx;
          n1 \<leftarrow> field_mul g n2 n5 ctx;
          n0 \<leftarrow> z_mod_sub_quick n0 n1 p;
          let n0 = (if odd n0 then n0 + p else n0);
          Some (wr_Y r (n0 div 2) s)
        }
      })"

definition EC_POINT_add :: "ec_group \<Rightarrow> nat \<Rightarrow> nat \<Rightarrow> nat \<Rightarrow> bool \<Rightarrow> ec_state \<Rightarrow> ec_state option" where
  "EC_POINT_add g r a b ctx s =
     (let f = slot (g_meth g) ''add'' in
      if f = ''0'' then None
      else if \<not> ec_point_is_compat (heap s r) g \<or> \<not> ec_point_is_compat (heap s a) g
        \<or> \<not> ec_point_is_compat (heap s b) g then None
      else if f = ''ossl_ec_GFp_simple_add'' then ossl_ec_GFp_simple_add g r a b ctx s
      else None)"

section \<open>Tripling\<close>

text \<open>
  The tripling routine ignores the result of every field operation: a destination keeps its
  old value when the operation fails (\<open>ignoring\<close>). It uses \<open>r->Z\<close>, \<open>r->X\<close>, \<open>r->Y\<close> as the
  temporaries \<open>temp5\<close>, \<open>temp6\<close>, \<open>temp7\<close>, copies the coordinates of \<open>a\<close> first when \<open>a == r\<close>
  (otherwise they are not written), and does not touch \<open>r->Z_is_one\<close>. The results of
  \<open>BN_CTX_get\<close> are not checked either; \<open>None\<close> for an exhausted context stands for the null
  pointer that the C code then dereferences.
\<close>

definition ignoring :: "int \<Rightarrow> int option \<Rightarrow> int option" where
  "ignoring old m = Some (case m of None \<Rightarrow> old | Some v \<Rightarrow> v)"

definition ossl_ec_GFp_simple_tpl :: "ec_group \<Rightarrow> nat \<Rightarrow> nat \<Rightarrow> bool \<Rightarrow> ec_state \<Rightarrow> ec_state option" where
  "ossl_ec_GFp_simple_tpl g r a ctx s =
     (let p = g_field g in
      if EC_POINT_is_at_infinity g (heap s a) then Some (wr_Z_is_one r False (wr_Z r 0 s))
      else if \<not> ctx then None
      else do {
        let temp_aX = Xof s a;
        let temp_aY = Yof s a;
        let temp_aZ = Zof s a;
        XX \<leftarrow> ignoring 0 (field_sqr g temp_aX ctx);
        YY \<leftarrow> ignoring 0 (field_sqr g temp_aY ctx);
        ZZ \<leftarrow> ignoring 0 (field_sqr g temp_aZ ctx);
        YYYY \<leftarrow> ignoring 0 (field_sqr g YY ctx);
        temp1 \<leftarrow> ignoring 0 (field_sqr g ZZ ctx);
        temp2 \<leftarrow> ignoring 0 (field_mul g (g_a g) temp1 ctx);
        temp3 \<leftarrow> ignoring 0 (z_mod_lshift1_quick XX p);
        temp4 \<leftarrow> ignoring 0 (z_mod_add_quick temp3 XX p);
        M \<leftarrow> ignoring 0 (z_mod_add_quick temp4 temp2 p);
        MM \<leftarrow> ignoring 0 (field_sqr g M ctx);
        temp1 \<leftarrow> ignoring temp1 (z_mod_add_quick temp_aX YY p);
        temp2 \<leftarrow> ignoring temp2 (field_sqr g temp1 ctx);
        temp3 \<leftarrow> ignoring temp3 (z_mod_sub_quick temp2 XX p);
        temp4 \<leftarrow> ignoring temp4 (z_mod_sub_quick temp3 YYYY p);
        temp5 \<leftarrow> ignoring (Zof s r) (z_mod_lshift1_quick temp4 p);
        let s = wr_Z r temp5 s;
        temp6 \<leftarrow> ignoring (Xof s r) (z_mod_lshift1_quick (Zof s r) p);
        let s = wr_X r temp6 s;
        temp7 \<leftarrow> ignoring (Yof s r) (z_mod_add_quick (Zof s r) (Xof s r) p);
        let s = wr_Y r temp7 s;
        E \<leftarrow> ignoring 0 (z_mod_sub_quick (Yof s r) MM p);
        EE \<leftarrow> ignoring 0 (field_sqr g E ctx);
        T \<leftarrow> ignoring 0 (z_mod_lshift_quick YYYY 4 p);
        temp1 \<leftarrow> ignoring temp1 (z_mod_add_quick M E p);
        temp2 \<leftarrow> ignoring temp2 (field_sqr g temp1 ctx);
        temp3 \<leftarrow> ignoring temp3 (z_mod_sub_quick temp2 MM p);
        temp4 \<leftarrow> ignoring temp4 (z_mod_sub_quick temp3 EE p);
        U \<leftarrow> ignoring 0 (z_mod_sub_quick temp4 T p);
        temp1 \<leftarrow> ignoring temp1 (field_mul g temp_aX EE ctx);
        temp2 \<leftarrow> ignoring temp2 (field_mul g YY U ctx);
        temp3 \<leftarrow> ignoring temp3 (z_mod_lshift_quick temp2 2 p);
        temp4 \<leftarrow> ignoring temp4 (z_mod_sub_quick temp1 temp3 p);
        x \<leftarrow> ignoring (Xof s r) (z_mod_lshift_quick temp4 2 p);
        let s = wr_X r x s;
        temp1 \<leftarrow> ignoring temp1 (field_mul g E EE ctx);
        temp2 \<leftarrow> ignoring temp2 (z_mod_sub_quick T U p);
        temp3 \<leftarrow> ignoring temp3 (field_mul g U temp2 ctx);
        temp4 \<leftarrow> ignoring temp4 (z_mod_sub_quick temp3 temp1 p);
        temp5 \<leftarrow> ignoring (Zof s r) (field_mul g temp_aY temp4 ctx);
        let s = wr_Z r temp5 s;
        y \<leftarrow> ignoring (Yof s r) (z_mod_lshift_quick (Zof s r) 3 p);
        let s = wr_Y r y s;
        temp1 \<leftarrow> ignoring temp1 (z_mod_add_quick temp_aZ E p);
        temp2 \<leftarrow> ignoring temp2 (field_sqr g temp1 ctx);
        temp3 \<leftarrow> ignoring temp3 (z_mod_sub_quick temp2 ZZ p);
        z \<leftarrow> ignoring (Zof s r) (z_mod_sub_quick temp3 EE p);
        Some (wr_Z r z s)
      })"

definition EC_POINT_tpl :: "ec_group \<Rightarrow> nat \<Rightarrow> nat \<Rightarrow> bool \<Rightarrow> ec_state \<Rightarrow> ec_state option" where
  "EC_POINT_tpl g r a ctx s =
     (let f = slot (g_meth g) ''tpl'' in
      if f = ''0'' then None
      else if \<not> ec_point_is_compat (heap s r) g \<or> \<not> ec_point_is_compat (heap s a) g then None
      else if f = ''ossl_ec_GFp_simple_tpl'' then ossl_ec_GFp_simple_tpl g r a ctx s
      else None)"

section \<open>Inversion, the curve equation, comparison\<close>

text \<open>\<open>BN_usub\<close> fails when the field is smaller than the ordinate.\<close>

definition ossl_ec_GFp_simple_invert :: "ec_group \<Rightarrow> nat \<Rightarrow> bool \<Rightarrow> ec_state \<Rightarrow> ec_state option" where
  "ossl_ec_GFp_simple_invert g a ctx s =
     (if EC_POINT_is_at_infinity g (heap s a) \<or> Yof s a = 0 then Some s
      else if \<bar>g_field g\<bar> < \<bar>Yof s a\<bar> then None
      else Some (wr_Y a (\<bar>g_field g\<bar> - \<bar>Yof s a\<bar>) s))"

definition EC_POINT_invert :: "ec_group \<Rightarrow> nat \<Rightarrow> bool \<Rightarrow> ec_state \<Rightarrow> ec_state option" where
  "EC_POINT_invert g a ctx s =
     (let f = slot (g_meth g) ''invert'' in
      if f = ''0'' then None
      else if \<not> ec_point_is_compat (heap s a) g then None
      else if f = ''ossl_ec_GFp_simple_invert'' then ossl_ec_GFp_simple_invert g a ctx s
      else None)"

text \<open>The right-hand side \<open>X\<^sup>3 + a X Z\<^sup>4 + b Z\<^sup>6\<close> (with \<open>Z = 1\<close> when the flag says so).\<close>

definition curve_rhs :: "ec_group \<Rightarrow> ec_point \<Rightarrow> bool \<Rightarrow> int option" where
  "curve_rhs g point ctx =
     (let p = g_field g in do {
        rh \<leftarrow> field_sqr g (pX point) ctx;
        if \<not> pZ_is_one point then do {
          tmp \<leftarrow> field_sqr g (pZ point) ctx;
          Z4 \<leftarrow> field_sqr g tmp ctx;
          Z6 \<leftarrow> field_mul g Z4 tmp ctx;
          rh \<leftarrow> (if g_a_is_minus3 g then do {
              tmp \<leftarrow> z_mod_lshift1_quick Z4 p;
              tmp \<leftarrow> z_mod_add_quick tmp Z4 p;
              rh \<leftarrow> z_mod_sub_quick rh tmp p;
              field_mul g rh (pX point) ctx
            }
            else do {
              tmp \<leftarrow> field_mul g Z4 (g_a g) ctx;
              rh \<leftarrow> z_mod_add_quick rh tmp p;
              field_mul g rh (pX point) ctx
            });
          tmp \<leftarrow> field_mul g (g_b g) Z6 ctx;
          z_mod_add_quick rh tmp p
        }
        else do {
          rh \<leftarrow> z_mod_add_quick rh (g_a g) p;
          rh \<leftarrow> field_mul g rh (pX point) ctx;
          z_mod_add_quick rh (g_b g) p
        }
      })"

definition ossl_ec_GFp_simple_is_on_curve :: "ec_group \<Rightarrow> ec_point \<Rightarrow> bool \<Rightarrow> int" where
  "ossl_ec_GFp_simple_is_on_curve g point ctx =
     (if EC_POINT_is_at_infinity g point then 1
      else if \<not> ctx then - 1
      else case (do { rh \<leftarrow> curve_rhs g point ctx; tmp \<leftarrow> field_sqr g (pY point) ctx; Some (tmp, rh) }) of
             None \<Rightarrow> - 1
           | Some (tmp, rh) \<Rightarrow> if \<bar>tmp\<bar> = \<bar>rh\<bar> then 1 else 0)"

definition EC_POINT_is_on_curve :: "ec_group \<Rightarrow> ec_point \<Rightarrow> bool \<Rightarrow> int" where
  "EC_POINT_is_on_curve g point ctx =
     (let f = slot (g_meth g) ''is_on_curve'' in
      if f = ''0'' then 0
      else if \<not> ec_point_is_compat point g then 0
      else if f = ''ossl_ec_GFp_simple_is_on_curve'' then ossl_ec_GFp_simple_is_on_curve g point ctx
      else - 1)"

definition ossl_ec_GFp_simple_cmp :: "ec_group \<Rightarrow> ec_point \<Rightarrow> ec_point \<Rightarrow> bool \<Rightarrow> int" where
  "ossl_ec_GFp_simple_cmp g a b ctx =
     (if EC_POINT_is_at_infinity g a then (if EC_POINT_is_at_infinity g b then 0 else 1)
      else if EC_POINT_is_at_infinity g b then 1
      else if pZ_is_one a \<and> pZ_is_one b then (if pX a = pX b \<and> pY a = pY b then 0 else 1)
      else if \<not> ctx then - 1
      else case (do {
          (tmp1, Zb23) \<leftarrow> (if \<not> pZ_is_one b then do {
              Zb23 \<leftarrow> field_sqr g (pZ b) ctx;
              tmp1 \<leftarrow> field_mul g (pX a) Zb23 ctx;
              Some (tmp1, Zb23)
            } else Some (pX a, 0));
          (tmp2, Za23) \<leftarrow> (if \<not> pZ_is_one a then do {
              Za23 \<leftarrow> field_sqr g (pZ a) ctx;
              tmp2 \<leftarrow> field_mul g (pX b) Za23 ctx;
              Some (tmp2, Za23)
            } else Some (pX b, 0));
          if tmp1 \<noteq> tmp2 then Some 1
          else do {
            tmp1 \<leftarrow> (if \<not> pZ_is_one b then do {
                Zb23 \<leftarrow> field_mul g Zb23 (pZ b) ctx;
                field_mul g (pY a) Zb23 ctx
              } else Some (pY a));
            tmp2 \<leftarrow> (if \<not> pZ_is_one a then do {
                Za23 \<leftarrow> field_mul g Za23 (pZ a) ctx;
                field_mul g (pY b) Za23 ctx
              } else Some (pY b));
            Some (if tmp1 \<noteq> tmp2 then 1 else 0)
          }
        }) of None \<Rightarrow> - 1 | Some r \<Rightarrow> r)"

definition EC_POINT_cmp :: "ec_group \<Rightarrow> ec_point \<Rightarrow> ec_point \<Rightarrow> bool \<Rightarrow> int" where
  "EC_POINT_cmp g a b ctx =
     (let f = slot (g_meth g) ''point_cmp'' in
      if f = ''0'' then - 1
      else if \<not> ec_point_is_compat a g \<or> \<not> ec_point_is_compat b g then - 1
      else if f = ''ossl_ec_GFp_simple_cmp'' then ossl_ec_GFp_simple_cmp g a b ctx
      else - 1)"

end
