(* ===== verification/Ec_Affine.thy ===== *)
theory Ec_Affine
  imports Ecp_Simple
begin

text \<open>
  The specification the curve code is measured against: the chord-and-tangent law on affine
  points modulo the field prime, and the relation between a stored Jacobian point and the
  affine point it represents. \<open>frep p u z e\<close> says that the stored residue \<open>z\<close> stands for the
  field element \<open>e\<close>, where \<open>u\<close> is the factor of the representation (1 or the inverse of \<open>R\<close>).
\<close>

section \<open>The affine group law\<close>

datatype apoint = Inf | Aff int int

definition minv :: "int \<Rightarrow> int \<Rightarrow> int" where
  "minv p x = (x ^ nat (p - 2)) mod p"

definition chord :: "int \<Rightarrow> int \<Rightarrow> int \<Rightarrow> int \<Rightarrow> int \<Rightarrow> apoint" where
  "chord p l x1 x2 y1 = (let x3 = (l ^ 2 - x1 - x2) mod p in Aff x3 ((l * (x1 - x3) - y1) mod p))"

fun aff_add :: "int \<Rightarrow> int \<Rightarrow> apoint \<Rightarrow> apoint \<Rightarrow> apoint" where
  "aff_add p a Inf Q = Q"
| "aff_add p a P Inf = P"
| "aff_add p a (Aff x1 y1) (Aff x2 y2) =
     (if x1 = x2 then
        (if y1 = y2 \<and> y1 \<noteq> 0 then chord p ((3 * x1 ^ 2 + a) * minv p (2 * y1)) x1 x1 y1 else Inf)
      else chord p ((y2 - y1) * minv p (x2 - x1)) x1 x2 y1)"

fun aff_neg :: "int \<Rightarrow> apoint \<Rightarrow> apoint" where
  "aff_neg p Inf = Inf"
| "aff_neg p (Aff x y) = Aff x ((- y) mod p)"

fun aff_red :: "int \<Rightarrow> apoint \<Rightarrow> bool" where
  "aff_red p Inf = True"
| "aff_red p (Aff x y) = (red p x \<and> red p y)"

fun aff_on :: "int \<Rightarrow> int \<Rightarrow> int \<Rightarrow> apoint \<Rightarrow> bool" where
  "aff_on p a b Inf = True"
| "aff_on p a b (Aff x y) = (red p x \<and> red p y \<and> eqm p (y ^ 2) (x ^ 3 + a * x + b))"

definition nonsingular :: "int \<Rightarrow> int \<Rightarrow> int \<Rightarrow> bool" where
  "nonsingular p a b \<longleftrightarrow> \<not> p dvd 4 * a ^ 3 + 27 * b ^ 2"

lemma minv_eqm: "prime_int p \<Longrightarrow> \<not> p dvd x \<Longrightarrow> eqm p (minv p x * x) 1"
proof -
  assume p: "prime_int p" "\<not> p dvd x"
  have "eqm p (minv p x * x) (x ^ nat (p - 2) * x)"
    unfolding minv_def by (intro eqm_intros) (simp add: eqm_def)
  from eqm_trans [OF this fermat_inverse [OF p]] show ?thesis .
qed

lemma minv_solve: "prime_int p \<Longrightarrow> \<not> p dvd d \<Longrightarrow> eqm p (c * minv p d * d) c"
  using eqm_mult [OF eqm_refl minv_eqm, of p d c] by (simp add: mult.assoc)

lemma singular_tangent:
  assumes "nonsingular p a b" "eqm p (x ^ 3 + a * x + b) 0"
  shows "\<not> p dvd 3 * x ^ 2 + a"
proof
  assume d: "p dvd 3 * x ^ 2 + a"
  have "eqm p (3 * x ^ 2 + a) 0" using d by (simp add: eqm_0)
  then have "eqm p (3 * x ^ 2 + a - 3 * x ^ 2) (0 - 3 * x ^ 2)" by (intro eqm_diff eqm_refl)
  then have a: "eqm p a (- 3 * x ^ 2)" by simp
  have "eqm p (x ^ 3 + a * x + b - x ^ 3 - a * x) (0 - x ^ 3 - (- 3 * x ^ 2) * x)"
    by (intro eqm_diff eqm_mult eqm_refl assms(2) a)
  then have b: "eqm p b (2 * x ^ 3)" by (simp add: power2_eq_square power3_eq_cube mult.assoc)
  have "eqm p (4 * a ^ 3 + 27 * b ^ 2) (4 * (- 3 * x ^ 2) ^ 3 + 27 * (2 * x ^ 3) ^ 2)"
    by (intro eqm_intros a b)
  also have "4 * (- 3 * x ^ 2) ^ 3 + 27 * (2 * x ^ 3) ^ 2 = 0"
    by (simp add: power_mult_distrib flip: power_mult)
  finally show False using assms(1) by (simp add: nonsingular_def eqm_0)
qed

section \<open>Representation\<close>

definition frep :: "int \<Rightarrow> int \<Rightarrow> int \<Rightarrow> int \<Rightarrow> bool" where
  "frep p u z e \<longleftrightarrow> red p z \<and> eqm p (z * u) e"

lemma frep_cong: "frep p u z e \<Longrightarrow> eqm p e e' \<Longrightarrow> frep p u z e'"
  unfolding frep_def using eqm_trans by blast

lemma frep_eq: "frep p u z e \<Longrightarrow> e = e' \<Longrightarrow> frep p u z e'"
  by simp

lemma frep_self: "red p z \<Longrightarrow> frep p u z (z * u)"
  by (simp add: frep_def)

lemma frep_red: "frep p u z e \<Longrightarrow> red p z"
  by (simp add: frep_def)

text \<open>A stored point is well formed when its coordinates are residues and its flag is true
  only of \<open>Z = 1\<close>; it represents an affine point \<open>P\<close> in Jacobian coordinates.\<close>

definition pt_ok :: "int \<Rightarrow> int \<Rightarrow> ec_point \<Rightarrow> bool" where
  "pt_ok p u pt \<longleftrightarrow> red p (pX pt) \<and> red p (pY pt) \<and> red p (pZ pt) \<and>
     (pZ_is_one pt \<longrightarrow> eqm p (pZ pt * u) 1)"

definition jac_rep :: "int \<Rightarrow> int \<Rightarrow> ec_point \<Rightarrow> apoint \<Rightarrow> bool" where
  "jac_rep p u pt P \<longleftrightarrow>
     (case P of
        Inf \<Rightarrow> pZ pt = 0
      | Aff x y \<Rightarrow> pZ pt \<noteq> 0 \<and> red p x \<and> red p y \<and>
          eqm p (pX pt * u) (x * (pZ pt * u) ^ 2) \<and> eqm p (pY pt * u) (y * (pZ pt * u) ^ 3))"

text \<open>The decoded \<open>Z\<close>, with the value 1 the flag promises.\<close>

definition zdec :: "int \<Rightarrow> ec_point \<Rightarrow> int" where
  "zdec u pt = (if pZ_is_one pt then 1 else pZ pt * u)"

lemma jac_frep:
  assumes "pt_ok p u pt" "jac_rep p u pt (Aff x y)"
  shows "frep p u (pZ pt) (zdec u pt)" "frep p u (pX pt) (x * zdec u pt ^ 2)"
    "frep p u (pY pt) (y * zdec u pt ^ 3)"
proof -
  have z: "eqm p (pZ pt * u) (zdec u pt)" using assms(1) by (simp add: pt_ok_def zdec_def)
  then show "frep p u (pZ pt) (zdec u pt)" using assms(1) by (simp add: frep_def pt_ok_def)
  have "eqm p (x * (pZ pt * u) ^ 2) (x * zdec u pt ^ 2)" "eqm p (y * (pZ pt * u) ^ 3) (y * zdec u pt ^ 3)"
    by (intro eqm_intros z)+
  then show "frep p u (pX pt) (x * zdec u pt ^ 2)" "frep p u (pY pt) (y * zdec u pt ^ 3)"
    using assms by (auto simp: frep_def pt_ok_def jac_rep_def intro: eqm_trans)
qed

text \<open>Conversely, coordinates that stand for \<open>x z\<^sup>2, y z\<^sup>3, z\<close> represent \<open>(x, y)\<close>.\<close>

lemma jac_repI:
  assumes "frep p u (pX pt) (x' * z ^ 2)" "frep p u (pY pt) (y' * z ^ 3)" "frep p u (pZ pt) z"
    "\<not> p dvd z" "x = x' mod p" "y = y' mod p" "0 < p"
  shows "jac_rep p u pt (Aff x y)"
proof -
  have z: "eqm p z (pZ pt * u)" using assms(3) by (simp add: frep_def eqm_sym)
  have "eqm p (x' * z ^ 2) (x * (pZ pt * u) ^ 2)" "eqm p (y' * z ^ 3) (y * (pZ pt * u) ^ 3)"
    unfolding assms(5,6) by (intro eqm_intros z, simp add: eqm_def)+
  moreover have "pZ pt \<noteq> 0"
  proof
    assume "pZ pt = 0"
    then have "eqm p z 0" using z by simp
    then show False using assms(4) by (simp add: eqm_0)
  qed
  ultimately show ?thesis
    using assms by (auto simp: jac_rep_def frep_def intro: eqm_trans)
qed

lemma frep_zero:
  assumes "prime_int p" "\<not> p dvd u" "frep p u z e"
  shows "z = 0 \<longleftrightarrow> p dvd e"
proof -
  have "p dvd e \<longleftrightarrow> p dvd z * u" using assms(3) by (simp add: frep_def eqm_def dvd_eq_mod_eq_0)
  also have "\<dots> \<longleftrightarrow> p dvd z" using assms(1,2) by (simp add: prime_int_dvd_mult)
  also have "\<dots> \<longleftrightarrow> z = 0" using assms(3) by (simp add: frep_def red_dvd_0)
  finally show ?thesis by simp
qed

end
