(* ===== verification/Ec_Jacobian.thy ===== *)
theory Ec_Jacobian
  imports Ec_Affine
begin

text \<open>
  The Jacobian formulas of \<open>ecp_smpl.c\<close> refine the affine group law, for plain and Montgomery
  residues alike: inside \<open>ec_field\<close> every field operation is replaced by the operation on the
  elements its operands stand for, which leaves polynomial identities.
\<close>

section \<open>Reading back the store\<close>

lemma heap_wr:
  "heap (wr_X r v s) = (heap s)(r := (heap s r)\<lparr>pX := v\<rparr>)"
  "heap (wr_Y r v s) = (heap s)(r := (heap s r)\<lparr>pY := v\<rparr>)"
  "heap (wr_Z r v s) = (heap s)(r := (heap s r)\<lparr>pZ := v\<rparr>)"
  "heap (wr_Z_is_one r c s) = (heap s)(r := (heap s r)\<lparr>pZ_is_one := c\<rparr>)"
  "heap (wr_rng es s) = heap s"
  by (simp_all add: wr_X_def wr_Y_def wr_Z_def wr_Z_is_one_def wr_rng_def upd_pt_def)

lemma rng_wr [simp]:
  "rng (wr_X r v s) = rng s" "rng (wr_Y r v s) = rng s" "rng (wr_Z r v s) = rng s"
  "rng (wr_Z_is_one r c s) = rng s" "rng (wr_rng es s) = es"
  by (simp_all add: wr_X_def wr_Y_def wr_Z_def wr_Z_is_one_def wr_rng_def upd_pt_def)

lemma coord_wr [simp]:
  "Xof (wr_X r v s) a = (if a = r then v else Xof s a)" "Yof (wr_X r v s) a = Yof s a"
  "Zof (wr_X r v s) a = Zof s a" "Z1of (wr_X r v s) a = Z1of s a"
  "Xof (wr_Y r v s) a = Xof s a" "Yof (wr_Y r v s) a = (if a = r then v else Yof s a)"
  "Zof (wr_Y r v s) a = Zof s a" "Z1of (wr_Y r v s) a = Z1of s a"
  "Xof (wr_Z r v s) a = Xof s a" "Yof (wr_Z r v s) a = Yof s a"
  "Zof (wr_Z r v s) a = (if a = r then v else Zof s a)" "Z1of (wr_Z r v s) a = Z1of s a"
  "Xof (wr_Z_is_one r c s) a = Xof s a" "Yof (wr_Z_is_one r c s) a = Yof s a"
  "Zof (wr_Z_is_one r c s) a = Zof s a" "Z1of (wr_Z_is_one r c s) a = (if a = r then c else Z1of s a)"
  "heap (wr_rng es s) a = heap s a"
  by (simp_all add: heap_wr)

lemma ident_wr [simp]:
  "p_meth (heap (wr_X r v s) a) = p_meth (heap s a)" "p_meth (heap (wr_Y r v s) a) = p_meth (heap s a)"
  "p_meth (heap (wr_Z r v s) a) = p_meth (heap s a)" "p_meth (heap (wr_Z_is_one r c s) a) = p_meth (heap s a)"
  "p_curve_name (heap (wr_X r v s) a) = p_curve_name (heap s a)"
  "p_curve_name (heap (wr_Y r v s) a) = p_curve_name (heap s a)"
  "p_curve_name (heap (wr_Z r v s) a) = p_curve_name (heap s a)"
  "p_curve_name (heap (wr_Z_is_one r c s) a) = p_curve_name (heap s a)"
  by (simp_all add: heap_wr)

lemma other_wr [simp]:
  "a \<noteq> r \<Longrightarrow> heap (wr_X r v s) a = heap s a" "a \<noteq> r \<Longrightarrow> heap (wr_Y r v s) a = heap s a"
  "a \<noteq> r \<Longrightarrow> heap (wr_Z r v s) a = heap s a" "a \<noteq> r \<Longrightarrow> heap (wr_Z_is_one r c s) a = heap s a"
  by (simp_all add: heap_wr)

text \<open>What every operation with result \<open>r\<close> leaves alone.\<close>

definition frame :: "nat \<Rightarrow> ec_state \<Rightarrow> ec_state \<Rightarrow> bool" where
  "frame r s s' \<longleftrightarrow> (\<forall>a. a \<noteq> r \<longrightarrow> heap s' a = heap s a) \<and> p_meth (heap s' r) = p_meth (heap s r)"

lemma compat_wr [simp]:
  "ec_point_is_compat (heap (wr_X r v s) a) g = ec_point_is_compat (heap s a) g"
  "ec_point_is_compat (heap (wr_Y r v s) a) g = ec_point_is_compat (heap s a) g"
  "ec_point_is_compat (heap (wr_Z r v s) a) g = ec_point_is_compat (heap s a) g"
  "ec_point_is_compat (heap (wr_Z_is_one r c s) a) g = ec_point_is_compat (heap s a) g"
  by (simp_all add: ec_point_is_compat_def)

text \<open>A point made for the group by \<open>EC_POINT_new\<close>.\<close>

definition pt_of :: "ec_group \<Rightarrow> ec_point \<Rightarrow> bool" where
  "pt_of g pt \<longleftrightarrow> p_meth pt = g_meth g \<and> p_curve_name pt = g_curve_name g"

lemma pt_of_compat: "pt_of g pt \<Longrightarrow> ec_point_is_compat pt g"
  by (simp add: pt_of_def ec_point_is_compat_def)

section \<open>Operations on represented elements\<close>

text \<open>The modular routines of \<open>bn_mod.c\<close> on residues that stand for field elements.\<close>

lemma frep_mod:
  assumes "0 < p" "eqm p (v * u) e"
  shows "frep p u (v mod p) e"
proof -
  have "eqm p (v mod p * u) (v * u)" by (intro eqm_intros) (simp add: eqm_def)
  with assms show ?thesis by (auto simp: frep_def intro: eqm_trans)
qed

lemma ret_add:
  "frep p u x a \<Longrightarrow> frep p u y b \<Longrightarrow> returns (z_mod_add_quick x y p) (\<lambda>z. frep p u z (a + b))"
  using eqm_add [of p "x * u" a "y * u" b]
  by (simp add: frep_def z_mod_add_quick_red) (auto intro!: frep_mod [unfolded frep_def] simp: distrib_right red_pos)

lemma ret_sub:
  "frep p u x a \<Longrightarrow> frep p u y b \<Longrightarrow> returns (z_mod_sub_quick x y p) (\<lambda>z. frep p u z (a - b))"
  using eqm_diff [of p "x * u" a "y * u" b]
  by (simp add: frep_def z_mod_sub_quick_red) (auto intro!: frep_mod [unfolded frep_def] simp: left_diff_distrib red_pos)

lemma ret_dbl:
  "frep p u x a \<Longrightarrow> returns (z_mod_lshift1_quick x p) (\<lambda>z. frep p u z (2 * a))"
  using eqm_mult [OF eqm_refl [of p 2], of "x * u" a]
  by (simp add: frep_def z_mod_lshift1_quick_red) (auto intro!: frep_mod [unfolded frep_def] simp: mult.assoc red_pos)

lemma ret_shift:
  "frep p u x a \<Longrightarrow> returns (z_mod_lshift_quick x n p) (\<lambda>z. frep p u z (2 ^ n * a))"
proof -
  assume x: "frep p u x a"
  have "eqm p (2 ^ n * (x * u)) (2 ^ n * a)" using x by (intro eqm_intros) (simp add: frep_def)
  then have "frep p u ((x * 2 ^ n) mod p) (2 ^ n * a)"
    using x by (intro frep_mod) (auto simp: frep_def mult_ac red_pos)
  with x show ?thesis by (simp add: z_mod_lshift_quick_red frep_red)
qed

lemma ret_ignoring: "returns m Q \<Longrightarrow> returns (ignoring old m) Q"
  by (cases m) (simp_all add: ignoring_def)

context ec_field
begin

abbreviation "rp g \<equiv> frep (g_field g) (fac g)"

lemma pos: "valid g \<Longrightarrow> 0 < g_field g"
  using field_gt_3 [of g] by simp

lemma ret_mul:
  "valid g \<Longrightarrow> rp g x a \<Longrightarrow> rp g y b \<Longrightarrow> returns (field_mul g x y True) (\<lambda>z. rp g z (a * b))"
proof -
  assume v: "valid g" and x: "rp g x a" and y: "rp g y b"
  have "eqm (g_field g) (x * fac g * (y * fac g)) (a * b)" using x y by (intro eqm_intros) (simp_all add: frep_def)
  then have "rp g ((x * y * fac g) mod g_field g) (a * b)"
    by (intro frep_mod) (simp_all add: v pos mult_ac)
  with v x y show ?thesis by (simp add: mul_law frep_red)
qed

lemma ret_sqr:
  "valid g \<Longrightarrow> rp g x a \<Longrightarrow> returns (field_sqr g x True) (\<lambda>z. rp g z (a * a))"
  using ret_mul [of g x a x a] mul_law [of g x x] sqr_law [of g x] by (simp add: frep_red)

lemmas ret_ops = ret_mul ret_sqr ret_add ret_sub ret_dbl ret_shift

text \<open>The same, as rules that execute one line of a routine.\<close>

lemmas step_ops =
  ret_mul [THEN returns_bindI] ret_sqr [THEN returns_bindI] ret_add [THEN returns_bindI]
  ret_sub [THEN returns_bindI] ret_dbl [THEN returns_bindI] ret_shift [THEN returns_bindI]

lemmas ignoring_ops =
  ret_mul [THEN ret_ignoring, THEN returns_bindI] ret_sqr [THEN ret_ignoring, THEN returns_bindI]
  ret_add [THEN ret_ignoring, THEN returns_bindI] ret_sub [THEN ret_ignoring, THEN returns_bindI]
  ret_dbl [THEN ret_ignoring, THEN returns_bindI] ret_shift [THEN ret_ignoring, THEN returns_bindI]

lemma rp_zero: "valid g \<Longrightarrow> rp g z e \<Longrightarrow> z = 0 \<longleftrightarrow> g_field g dvd e"
  using frep_zero field_prime fac_unit by blast

lemma small_unit: "valid g \<Longrightarrow> \<not> g_field g dvd 2" "valid g \<Longrightarrow> \<not> g_field g dvd 3"
  using field_gt_3 [of g] by (auto dest: zdvd_imp_le)

lemma infinity_iff:
  "valid g \<Longrightarrow> ec_point_is_compat pt g \<Longrightarrow> EC_POINT_is_at_infinity g pt \<longleftrightarrow> pZ pt = 0"
  using meth_law [of g]
  by (auto simp: EC_POINT_is_at_infinity_def ossl_ec_GFp_simple_is_at_infinity_def Let_def)

text \<open>The tangent numerator \<open>3 x\<^sup>2 + a\<close>.\<close>

lemma dbl_n1_ret:
  assumes "valid g" "pt_ok (g_field g) (fac g) (heap s P)" "jac_rep (g_field g) (fac g) (heap s P) (Aff x y)"
  shows "returns (dbl_n1 g P True s) (\<lambda>n. rp g n ((3 * x ^ 2 + g_a g * fac g) * zdec (fac g) (heap s P) ^ 4))"
proof -
  define z where "z = zdec (fac g) (heap s P)"
  note v = assms(1)
  note c = jac_frep [OF assms(2,3), folded z_def]
  have a: "rp g (g_a g) (g_a g * fac g)" using curve_red [OF v] by (simp add: frep_self)
  show ?thesis
  proof (cases "Z1of s P")
    case True
    then have "z = 1" by (simp add: z_def zdec_def)
    with True show ?thesis
      unfolding dbl_n1_def z_def [symmetric]
      apply (simp only: Let_def if_True)
      apply (rule step_ops, (rule v c a | assumption)+)+
      apply (rule ret_ops [THEN returns_mono], (rule v c a | assumption)+, erule frep_eq)
      apply (simp add: algebra_simps power2_eq_square)
      done
  next
    case nz: False
    show ?thesis
    proof (cases "g_a_is_minus3 g")
      case True
      have a3: "eqm (g_field g) (g_a g * fac g) (- 3)" using minus3 v True by blast
      have e: "eqm (g_field g) ((3 * x ^ 2 - 3) * z ^ 4) ((3 * x ^ 2 + g_a g * fac g) * z ^ 4)"
        using eqm_add [OF eqm_refl [of _ "3 * x ^ 2"] eqm_sym [OF a3]] by (intro eqm_mult) simp_all
      show ?thesis
        unfolding dbl_n1_def z_def [symmetric]
        apply (simp only: Let_def if_True if_False nz True)
        apply (rule step_ops, (rule v c a | assumption)+)+
        apply (rule ret_ops [THEN returns_mono], (rule v c a | assumption)+, rule frep_cong [OF _ e], erule frep_eq)
        apply (simp add: algebra_simps power2_eq_square power4_eq_xxxx)
        done
    next
      case False
      show ?thesis
        unfolding dbl_n1_def z_def [symmetric]
        apply (simp only: Let_def if_True if_False nz False)
        apply (rule step_ops, (rule v c a | assumption)+)+
        apply (rule ret_ops [THEN returns_mono], (rule v c a | assumption)+, erule frep_eq)
        apply (simp add: algebra_simps power2_eq_square power4_eq_xxxx)
        done
    qed
  qed
qed

text \<open>Doubling.\<close>

lemma dbl_infinity:
  assumes "valid g" "ec_point_is_compat (heap s a) g" "Zof s a = 0"
  shows "ossl_ec_GFp_simple_dbl g r a ctx s = Some (wr_Z_is_one r False (wr_Z r 0 s))"
  using assms by (simp add: ossl_ec_GFp_simple_dbl_def infinity_iff Let_def)

lemma dbl_run:
  assumes "valid g" "ec_point_is_compat (heap s a) g" "Zof s a \<noteq> 0"
    "pt_ok (g_field g) (fac g) (heap s a)" "jac_rep (g_field g) (fac g) (heap s a) (Aff x y)"
  defines "z \<equiv> zdec (fac g) (heap s a)" and "m \<equiv> 3 * x ^ 2 + g_a g * fac g"
  shows "returns (ossl_ec_GFp_simple_dbl g r a True s) (\<lambda>s'.
    frame r s s' \<and> \<not> Z1of s' r \<and> p_curve_name (heap s' r) = p_curve_name (heap s r) \<and>
    rp g (Zof s' r) (2 * y * z ^ 4) \<and>
    rp g (Xof s' r) ((m ^ 2 - 8 * x * y ^ 2) * z ^ 8) \<and>
    rp g (Yof s' r) ((m * (12 * x * y ^ 2 - m ^ 2) - 8 * y ^ 4) * z ^ 12))"
proof -
  note v = assms(1)
  note c = jac_frep [OF assms(4,5), folded z_def]
  note n1 = dbl_n1_ret [OF v assms(4,5), folded z_def m_def]
  have n0: "returns (if Z1of s a then Some (Yof s a) else field_mul g (Yof s a) (Zof s a) True)
      (\<lambda>n. rp g n (y * z ^ 4))"
  proof (cases "Z1of s a")
    case True
    then have "z = 1" by (simp add: z_def zdec_def)
    with True c show ?thesis by simp
  next
    case False
    have e: "y * z ^ 3 * z = y * z ^ 4" by (simp add: power4_eq_xxxx power3_eq_cube)
    from False returns_mono [OF ret_mul [OF v c(3,1)], of "\<lambda>n. rp g n (y * z ^ 4)"] show ?thesis
      by (simp add: e)
  qed
  show ?thesis
    unfolding ossl_ec_GFp_simple_dbl_def
    using assms(2,3) infinity_iff [OF v assms(2)]
    apply (simp only: Let_def if_False not_True_eq_False)
    apply (rule returns_bindI [OF n1])
    apply (rule returns_bindI [OF n0])
    apply (simp only: coord_wr if_True simp_thms)
    apply (rule step_ops, (rule v c | assumption)+)+
    apply (simp only: returns_Some coord_wr if_True simp_thms)
    apply (intro conjI)
    apply (simp add: frame_def)
    apply simp
    apply simp
    apply (erule frep_eq, algebra)+
    done
qed

lemma slope_dbl:
  assumes "valid g" "\<not> g_field g dvd y"
  shows "eqm (g_field g) m (2 * y * (m * minv (g_field g) (2 * y)))"
proof -
  have "\<not> g_field g dvd 2 * y"
    using assms(2) small_unit(1) [OF assms(1)] prime_int_dvd_mult [OF field_prime [OF assms(1)]] by simp
  from eqm_sym [OF minv_solve [OF field_prime [OF assms(1)] this, of m]]
  show ?thesis by (simp add: mult.commute)
qed

lemma not_dvd_mult: "valid g \<Longrightarrow> g_field g dvd a * b \<longleftrightarrow> g_field g dvd a \<or> g_field g dvd b"
  using field_prime prime_int_dvd_mult by blast

lemma not_dvd_power: "valid g \<Longrightarrow> 0 < n \<Longrightarrow> g_field g dvd a ^ n \<longleftrightarrow> g_field g dvd a"
  using field_prime prime_int_dvd_power dvd_power [of n a] dvd_trans by blast

lemma zdec_unit:
  assumes "valid g" "pt_ok (g_field g) (fac g) pt" "pZ pt \<noteq> 0"
  shows "\<not> g_field g dvd zdec (fac g) pt"
proof (cases "pZ_is_one pt")
  case True
  then show ?thesis using field_gt_3 [OF assms(1)] by (auto simp: zdec_def dest: zdvd_imp_le)
next
  case False
  have "rp g (pZ pt) (pZ pt * fac g)" using assms(2) by (simp add: frep_self pt_ok_def)
  with rp_zero [OF assms(1)] assms(3) False show ?thesis by (simp add: zdec_def)
qed

text \<open>\<open>ossl_ec_GFp_simple_dbl\<close> doubles, whatever \<open>r\<close> aliases.\<close>

lemma dbl_refines:
  assumes "valid g" "ec_point_is_compat (heap s a) g"
    "pt_ok (g_field g) (fac g) (heap s a)" "jac_rep (g_field g) (fac g) (heap s a) P"
    "P = Inf \<longrightarrow> red (g_field g) (Xof s r) \<and> red (g_field g) (Yof s r)"
  shows "returns (ossl_ec_GFp_simple_dbl g r a True s) (\<lambda>s'.
    frame r s s' \<and> p_curve_name (heap s' r) = p_curve_name (heap s r) \<and>
    pt_ok (g_field g) (fac g) (heap s' r) \<and>
    jac_rep (g_field g) (fac g) (heap s' r) (aff_add (g_field g) (g_a g * fac g) P P))"
proof (cases P)
  case Inf
  then have "Zof s a = 0" using assms(4) by (simp add: jac_rep_def)
  with assms Inf pos [OF assms(1)] show ?thesis
    by (auto simp: dbl_infinity frame_def pt_ok_def jac_rep_def)
next
  case (Aff x y)
  let ?p = "g_field g" and ?u = "fac g"
  define z where "z = zdec ?u (heap s a)"
  define m where "m = 3 * x ^ 2 + g_a g * ?u"
  note v = assms(1)
  have J: "jac_rep ?p ?u (heap s a) (Aff x y)" using assms(4) Aff by simp
  then have Z: "Zof s a \<noteq> 0" and y: "red ?p y" by (simp_all add: jac_rep_def)
  have zu: "\<not> ?p dvd z" unfolding z_def by (rule zdec_unit [OF v assms(3) Z])
  show ?thesis
  proof (rule returns_mono [OF dbl_run [OF v assms(2) Z assms(3) J]], fold z_def m_def, elim conjE, intro conjI)
    fix s'
    assume Z': "rp g (Zof s' r) (2 * y * z ^ 4)"
      and X': "rp g (Xof s' r) ((m ^ 2 - 8 * x * y ^ 2) * z ^ 8)"
      and Y': "rp g (Yof s' r) ((m * (12 * x * y ^ 2 - m ^ 2) - 8 * y ^ 4) * z ^ 12)"
      and f: "\<not> Z1of s' r"
    show "pt_ok ?p ?u (heap s' r)" using X' Y' Z' f by (simp add: pt_ok_def frep_red)
    show "jac_rep ?p ?u (heap s' r) (aff_add ?p (g_a g * ?u) P P)"
    proof (cases "y = 0")
      case True
      then have "Zof s' r = 0" using rp_zero [OF v Z'] by simp
      with True Aff show ?thesis by (simp add: jac_rep_def)
    next
      case False
      then have yu: "\<not> ?p dvd y" using red_dvd_0 [OF y] by simp
      define l where "l = m * minv ?p (2 * y)"
      have ml: "eqm ?p m (2 * y * l)" unfolding l_def by (rule slope_dbl [OF v yu])
      let ?Z = "2 * y * z ^ 4" and ?x = "l ^ 2 - x - x"
      define x3 where "x3 = ?x mod ?p"
      have Z3: "\<not> ?p dvd ?Z"
        using yu zu small_unit(1) [OF v] by (simp add: not_dvd_mult [OF v] not_dvd_power [OF v])
      have X: "rp g (Xof s' r) (?x * ?Z ^ 2)"
      proof (rule frep_cong [OF X'])
        have "eqm ?p ((m ^ 2 - 8 * x * y ^ 2) * z ^ 8) (((2 * y * l) ^ 2 - 8 * x * y ^ 2) * z ^ 8)"
          by (intro eqm_intros ml)
        also have "((2 * y * l) ^ 2 - 8 * x * y ^ 2) * z ^ 8 = ?x * ?Z ^ 2" by algebra
        finally show "eqm ?p ((m ^ 2 - 8 * x * y ^ 2) * z ^ 8) (?x * ?Z ^ 2)" .
      qed
      have Y: "rp g (Yof s' r) ((l * (x - x3) - y) * ?Z ^ 3)"
      proof (rule frep_cong [OF Y'])
        have "eqm ?p ((m * (12 * x * y ^ 2 - m ^ 2) - 8 * y ^ 4) * z ^ 12)
            ((2 * y * l * (12 * x * y ^ 2 - (2 * y * l) ^ 2) - 8 * y ^ 4) * z ^ 12)"
          by (intro eqm_intros ml)
        also have "(2 * y * l * (12 * x * y ^ 2 - (2 * y * l) ^ 2) - 8 * y ^ 4) * z ^ 12 =
            (l * (x - ?x) - y) * ?Z ^ 3" by algebra
        also have "eqm ?p \<dots> ((l * (x - x3) - y) * ?Z ^ 3)"
          unfolding x3_def by (intro eqm_intros) (simp add: eqm_def)
        finally show "eqm ?p ((m * (12 * x * y ^ 2 - m ^ 2) - 8 * y ^ 4) * z ^ 12) ((l * (x - x3) - y) * ?Z ^ 3)" .
      qed
      from jac_repI [OF X Y Z' Z3 refl refl pos [OF v]]
      show ?thesis using Aff False by (simp add: chord_def Let_def l_def m_def x3_def)
    qed
  qed
qed

text \<open>Addition.\<close>

lemma add_scale_ret:
  assumes "valid g" "rp g (pX A) x" "rp g (pY A) y" "rp g (pZ B) z" "pZ_is_one B \<longrightarrow> z = 1"
  shows "returns (add_scale g A B True) (\<lambda>(n1, n2). rp g n1 (x * z ^ 2) \<and> rp g n2 (y * z ^ 3))"
proof (cases "pZ_is_one B")
  case True
  with assms show ?thesis by (simp add: add_scale_def)
next
  case False
  then show ?thesis
    unfolding add_scale_def
    apply (simp only: if_False)
    apply (rule step_ops, (rule assms | assumption)+)+
    apply (simp only: returns_Some prod.case)
    apply (intro conjI)
    apply (erule frep_eq, algebra)+
    done
qed

lemma add_Z_ret:
  assumes "valid g" "rp g (pZ A) z1" "rp g (pZ B) z2" "rp g n5 e"
    "pZ_is_one A \<longrightarrow> z1 = 1" "pZ_is_one B \<longrightarrow> z2 = 1"
  shows "returns (add_Z g A B n5 True) (\<lambda>z. rp g z (z1 * z2 * e))"
proof -
  have "returns (if pZ_is_one A then Some (pZ B) else if pZ_is_one B then Some (pZ A)
      else field_mul g (pZ A) (pZ B) True) (\<lambda>n. rp g n (z1 * z2))"
    using assms ret_mul [OF assms(1-3)] by simp
  then have "returns (do {
        n0 \<leftarrow> (if pZ_is_one A then Some (pZ B) else if pZ_is_one B then Some (pZ A)
          else field_mul g (pZ A) (pZ B) True);
        field_mul g n0 n5 True}) (\<lambda>z. rp g z (z1 * z2 * e))"
    by (rule returns_bindI) (rule ret_mul [OF assms(1) _ assms(4)])
  with assms(4,5,6) show ?thesis by (simp add: add_Z_def)
qed

lemma halve_ret:
  assumes "valid g" "rp g n (2 * h)"
  shows "rp g ((if odd n then n + g_field g else n) div 2) h"
proof -
  let ?p = "g_field g"
  define n' where "n' = (if odd n then n + ?p else n)"
  have p: "odd ?p" using prime_gt_3_odd field_prime field_gt_3 assms(1) by blast
  have n: "0 \<le> n" "n < ?p" using assms(2) by (simp_all add: frep_def red_def)
  have ev: "even n'" using p by (simp add: n'_def)
  then have n2: "n' = 2 * (n' div 2)" by simp
  have "eqm ?p (n' * fac g) (n * fac g)" by (intro eqm_intros) (simp add: n'_def eqm_def)
  also have "eqm ?p (n * fac g) (2 * h)" using assms(2) by (simp add: frep_def)
  finally have "eqm ?p (2 * (n' div 2 * fac g)) (2 * h)" using n2 by (metis mult.assoc)
  then have "eqm ?p (n' div 2 * fac g) h"
    by (rule eqm_cancel [OF field_prime [OF assms(1)] small_unit(1) [OF assms(1)]])
  moreover have "red ?p (n' div 2)" using n by (auto simp: red_def n'_def)
  ultimately show ?thesis by (simp add: frep_def n'_def)
qed

lemma dbl_slot [simp]:
  "valid g \<Longrightarrow> ec_point_is_compat (heap s r) g \<Longrightarrow> ec_point_is_compat (heap s a) g \<Longrightarrow>
   EC_POINT_dbl g r a ctx s = ossl_ec_GFp_simple_dbl g r a ctx s"
  using meth_law [of g] by (auto simp: EC_POINT_dbl_def Let_def)

text \<open>The generic case: distinct abscissas.\<close>

lemma add_run:
  assumes v: "valid g" and ab: "a \<noteq> b" and ca: "ec_point_is_compat (heap s a) g" and cb: "ec_point_is_compat (heap s b) g"
    and Za: "Zof s a \<noteq> 0" and Zb: "Zof s b \<noteq> 0"
    and za: "rp g (Zof s a) z1" "Z1of s a \<longrightarrow> z1 = 1" and zb: "rp g (Zof s b) z2" "Z1of s b \<longrightarrow> z2 = 1"
    and xa: "rp g (Xof s a) (x1 * z1 ^ 2)" and ya: "rp g (Yof s a) (y1 * z1 ^ 3)"
    and xb: "rp g (Xof s b) (x2 * z2 ^ 2)" and yb: "rp g (Yof s b) ((y1 - l * (x1 - x2)) * z2 ^ 3)"
    and nd: "\<not> g_field g dvd (z1 * z2) ^ 2 * (x1 - x2)"
  shows "returns (ossl_ec_GFp_simple_add g r a b True s) (\<lambda>s'.
    frame r s s' \<and> \<not> Z1of s' r \<and> p_curve_name (heap s' r) = p_curve_name (heap s r) \<and>
    rp g (Zof s' r) ((z1 * z2) ^ 3 * (x1 - x2)) \<and>
    rp g (Xof s' r) ((l ^ 2 - x1 - x2) * ((z1 * z2) ^ 3 * (x1 - x2)) ^ 2) \<and>
    rp g (Yof s' r) ((l * (x1 - (l ^ 2 - x1 - x2)) - y1) * ((z1 * z2) ^ 3 * (x1 - x2)) ^ 3))"
proof -
  let ?w = "z1 * z2" and ?d = "x1 - x2"
  note sc1 = add_scale_ret [OF v xa ya zb]
  note sc2 = add_scale_ret [OF v xb yb za]
  show ?thesis
    unfolding ossl_ec_GFp_simple_add_def
    using ab infinity_iff [OF v ca] infinity_iff [OF v cb] Za Zb
    apply (simp only: Let_def if_False not_True_eq_False)
    apply (rule returns_bindI [OF sc1], clarify)
    apply (rule returns_bindI [OF sc2], clarify)
    apply (rule step_ops, assumption, assumption)+
    subgoal for n1 n2 n3 n4 n5 n6
    proof -
      assume n1: "rp g n1 (x1 * z1 ^ 2 * z2 ^ 2)" and n2: "rp g n2 (y1 * z1 ^ 3 * z2 ^ 3)"
        and n3: "rp g n3 (x2 * z2 ^ 2 * z1 ^ 2)" and n4: "rp g n4 ((y1 - l * (x1 - x2)) * z2 ^ 3 * z1 ^ 3)"
        and n5': "rp g n5 (x1 * z1 ^ 2 * z2 ^ 2 - x2 * z2 ^ 2 * z1 ^ 2)"
        and n6': "rp g n6 (y1 * z1 ^ 3 * z2 ^ 3 - (y1 - l * (x1 - x2)) * z2 ^ 3 * z1 ^ 3)"
      from n5' have n5: "rp g n5 (?w ^ 2 * ?d)" by (rule frep_eq) algebra
      from n6' have n6: "rp g n6 (?w ^ 3 * l * ?d)" by (rule frep_eq) algebra
      have "n5 \<noteq> 0" using rp_zero [OF v n5] nd by simp
      note Zr = add_Z_ret [OF v za(1) zb(1) n5 za(2) zb(2)]
      show ?thesis
        using \<open>n5 \<noteq> 0\<close>
        apply (simp only: if_False)
        apply (rule step_ops, rule n1, rule n3)
        apply (rule step_ops, rule n2, rule n4)
        apply (rule returns_bindI [OF Zr])
        apply (rule step_ops, (rule v n5 n6 | assumption)+)+
        apply (simp only: returns_Some coord_wr if_True simp_thms)
        apply (rule step_ops, (rule v n5 n6 | assumption)+)+
        apply (simp only: returns_Some coord_wr if_True simp_thms)
        apply (intro conjI)
        apply (simp add: frame_def)
        apply simp
        apply simp
        apply (erule frep_eq, algebra)
        apply (erule frep_eq, algebra)
        apply (rule halve_ret [OF v], erule frep_eq, algebra)
        done
    qed
    done
qed

text \<open>Equal abscissas: the point is doubled, or the result is infinity.\<close>

lemma add_run_same:
  assumes v: "valid g" and ab: "a \<noteq> b" and ca: "ec_point_is_compat (heap s a) g" and cb: "ec_point_is_compat (heap s b) g"
    and cr: "ec_point_is_compat (heap s r) g"
    and Za: "Zof s a \<noteq> 0" and Zb: "Zof s b \<noteq> 0"
    and za: "rp g (Zof s a) z1" "Z1of s a \<longrightarrow> z1 = 1" and zb: "rp g (Zof s b) z2" "Z1of s b \<longrightarrow> z2 = 1"
    and xa: "rp g (Xof s a) (x * z1 ^ 2)" and ya: "rp g (Yof s a) (y1 * z1 ^ 3)"
    and xb: "rp g (Xof s b) (x * z2 ^ 2)" and yb: "rp g (Yof s b) (y2 * z2 ^ 3)"
    and zu: "\<not> g_field g dvd z1 * z2"
  shows "ossl_ec_GFp_simple_add g r a b True s =
    (if g_field g dvd y1 - y2 then ossl_ec_GFp_simple_dbl g r a True s
     else Some (wr_Z_is_one r False (wr_Z r 0 s)))"
proof -
  let ?w = "z1 * z2"
  obtain n1 n2 where s1: "add_scale g (heap s a) (heap s b) True = Some (n1, n2)"
    "rp g n1 (x * z1 ^ 2 * z2 ^ 2)" "rp g n2 (y1 * z1 ^ 3 * z2 ^ 3)"
    using add_scale_ret [OF v xa ya zb] by (auto simp: returns_ex)
  obtain n3 n4 where s2: "add_scale g (heap s b) (heap s a) True = Some (n3, n4)"
    "rp g n3 (x * z2 ^ 2 * z1 ^ 2)" "rp g n4 (y2 * z2 ^ 3 * z1 ^ 3)"
    using add_scale_ret [OF v xb yb za] by (auto simp: returns_ex)
  obtain n5 where n5: "z_mod_sub_quick n1 n3 (g_field g) = Some n5"
    "rp g n5 (x * z1 ^ 2 * z2 ^ 2 - x * z2 ^ 2 * z1 ^ 2)"
    using ret_sub [OF s1(2) s2(2)] by (auto simp: returns_ex)
  obtain n6 where n6: "z_mod_sub_quick n2 n4 (g_field g) = Some n6"
    "rp g n6 (y1 * z1 ^ 3 * z2 ^ 3 - y2 * z2 ^ 3 * z1 ^ 3)"
    using ret_sub [OF s1(3) s2(3)] by (auto simp: returns_ex)
  have "n5 = 0" using rp_zero [OF v n5(2)] by (simp add: mult.assoc mult.commute [of "z1 ^ 2"])
  moreover have "n6 = 0 \<longleftrightarrow> g_field g dvd y1 - y2"
  proof -
    have "y1 * z1 ^ 3 * z2 ^ 3 - y2 * z2 ^ 3 * z1 ^ 3 = ?w ^ 3 * (y1 - y2)" by algebra
    with rp_zero [OF v n6(2)] zu show ?thesis by (simp add: not_dvd_mult [OF v] not_dvd_power [OF v])
  qed
  ultimately show ?thesis
    using ab infinity_iff [OF v ca] infinity_iff [OF v cb] Za Zb s1(1) s2(1) n5(1) n6(1) v cr ca
    by (simp add: ossl_ec_GFp_simple_add_def Let_def)
qed

lemma jac_rep_unique:
  assumes "valid g" "pt_ok (g_field g) (fac g) pt" "jac_rep (g_field g) (fac g) pt P" "jac_rep (g_field g) (fac g) pt Q"
  shows "P = Q"
proof (cases "pZ pt = 0")
  case True
  with assms show ?thesis by (auto simp: jac_rep_def split: apoint.splits)
next
  case False
  let ?p = "g_field g" and ?z = "pZ pt * fac g"
  obtain x y x' y' where P: "P = Aff x y" "Q = Aff x' y'"
    using False assms(3,4) by (auto simp: jac_rep_def split: apoint.splits)
  have zu: "\<not> ?p dvd ?z"
    using False assms(1,2) fac_unit [OF assms(1)] by (simp add: not_dvd_mult red_dvd_0 pt_ok_def)
  then have z2: "\<not> ?p dvd ?z ^ 2" and z3: "\<not> ?p dvd ?z ^ 3" by (simp_all only: not_dvd_power [OF assms(1)] zero_less_numeral not_False_eq_True)
  have "eqm ?p (?z ^ 2 * x) (?z ^ 2 * x')" "eqm ?p (?z ^ 3 * y) (?z ^ 3 * y')"
    using assms(3,4) P by (auto simp: jac_rep_def mult.commute intro: eqm_trans eqm_sym)
  then have "eqm ?p x x'" "eqm ?p y y'"
    using eqm_cancel [OF field_prime [OF assms(1)]] z2 z3 by blast+
  then show ?thesis using assms(3,4) P by (auto simp: jac_rep_def intro: red_eqm_eq)
qed

lemma copy_refines:
  assumes "valid g" "pt_of g (heap s r)" "pt_of g (heap s b)"
    "pt_ok (g_field g) (fac g) (heap s b)" "jac_rep (g_field g) (fac g) (heap s b) Q"
  shows "returns (EC_POINT_copy r b s) (\<lambda>s'. frame r s s' \<and> pt_of g (heap s' r) \<and>
    pt_ok (g_field g) (fac g) (heap s' r) \<and> jac_rep (g_field g) (fac g) (heap s' r) Q)"
proof (cases "r = b")
  case True
  with assms meth_law [OF assms(1)] show ?thesis by (auto simp: EC_POINT_copy_def Let_def pt_of_def frame_def)
next
  case False
  with assms meth_law [OF assms(1)] show ?thesis
    by (auto simp: EC_POINT_copy_def Let_def pt_of_def frame_def ossl_ec_GFp_simple_point_copy_def
        upd_pt_def heap_wr pt_ok_def jac_rep_def split: apoint.splits)
qed

text \<open>\<open>ossl_ec_GFp_simple_add\<close> adds, whatever \<open>r\<close>, \<open>a\<close> and \<open>b\<close> alias.\<close>

lemma add_refines:
  assumes v: "valid g" and of: "pt_of g (heap s r)" "pt_of g (heap s a)" "pt_of g (heap s b)"
    and ok: "pt_ok (g_field g) (fac g) (heap s a)" "pt_ok (g_field g) (fac g) (heap s b)"
    and J: "jac_rep (g_field g) (fac g) (heap s a) P" "jac_rep (g_field g) (fac g) (heap s b) Q"
    and rr: "red (g_field g) (Xof s r)" "red (g_field g) (Yof s r)"
  shows "returns (ossl_ec_GFp_simple_add g r a b True s) (\<lambda>s'.
    frame r s s' \<and> pt_of g (heap s' r) \<and> pt_ok (g_field g) (fac g) (heap s' r) \<and>
    jac_rep (g_field g) (fac g) (heap s' r) (aff_add (g_field g) (g_a g * fac g) P Q))"
proof -
  let ?p = "g_field g" and ?u = "fac g" and ?A = "g_a g * fac g"
  let ?Q = "\<lambda>R s'. frame r s s' \<and> pt_of g (heap s' r) \<and> pt_ok ?p ?u (heap s' r) \<and> jac_rep ?p ?u (heap s' r) R"
  note ca = pt_of_compat [OF of(2)] and cb = pt_of_compat [OF of(3)] and cr = pt_of_compat [OF of(1)]
  have dbl: "returns (ossl_ec_GFp_simple_dbl g r a True s) (?Q (aff_add ?p ?A P P))"
    by (rule returns_mono [OF dbl_refines [OF v ca ok(1) J(1)]]) (use rr of in \<open>auto simp: frame_def pt_of_def\<close>)
  have PInf: "P = Inf \<longleftrightarrow> Zof s a = 0" and QInf: "Q = Inf \<longleftrightarrow> Zof s b = 0"
    using J by (auto simp: jac_rep_def split: apoint.splits)
  have AInf: "aff_add ?p ?A P Inf = P" by (cases P) simp_all
  consider (eq) "a = b" | (a_inf) "a \<noteq> b" "P = Inf" | (b_inf) "a \<noteq> b" "P \<noteq> Inf" "Q = Inf"
    | (aff) "a \<noteq> b" "P \<noteq> Inf" "Q \<noteq> Inf" by blast
  then show ?thesis
  proof cases
    case eq
    then have "Q = P" using jac_rep_unique [OF v ok(1)] J by blast
    with eq dbl v ca cr show ?thesis by (simp add: ossl_ec_GFp_simple_add_def Let_def)
  next
    case a_inf
    then have "aff_add ?p ?A P Q = Q" by simp
    with a_inf copy_refines [OF v of(1,3) ok(2) J(2)] show ?thesis
      by (simp add: ossl_ec_GFp_simple_add_def Let_def infinity_iff [OF v ca] PInf)
  next
    case b_inf
    with copy_refines [OF v of(1,2) ok(1) J(1)] show ?thesis
      using PInf QInf by (simp add: ossl_ec_GFp_simple_add_def Let_def infinity_iff [OF v ca] infinity_iff [OF v cb] AInf)
  next
    case aff
    obtain x1 y1 x2 y2 where PQ: "P = Aff x1 y1" "Q = Aff x2 y2"
      using aff by (cases P; cases Q) auto
    define z1 where "z1 = zdec ?u (heap s a)"
    define z2 where "z2 = zdec ?u (heap s b)"
    note ja = jac_frep [OF ok(1) J(1) [unfolded PQ], folded z1_def]
    note jb = jac_frep [OF ok(2) J(2) [unfolded PQ], folded z2_def]
    have Z: "Zof s a \<noteq> 0" "Zof s b \<noteq> 0" using aff PInf QInf by simp_all
    have zu: "\<not> ?p dvd z1 * z2"
      using zdec_unit [OF v ok(1)] zdec_unit [OF v ok(2)] Z by (simp add: not_dvd_mult [OF v] z1_def z2_def)
    have one: "Z1of s a \<longrightarrow> z1 = 1" "Z1of s b \<longrightarrow> z2 = 1" by (simp_all add: z1_def z2_def zdec_def)
    have red: "red ?p x1" "red ?p x2" "red ?p y1" "red ?p y2" using J PQ by (simp_all add: jac_rep_def)
    show ?thesis
    proof (cases "x1 = x2")
      case True
      note same = add_run_same [OF v aff(1) ca cb cr Z ja(1) one(1) jb(1) one(2) ja(2,3) jb(2) [folded True] jb(3) zu]
      show ?thesis
      proof (cases "y1 = y2")
        case y: True
        with same True PQ dbl show ?thesis by simp
      next
        case y: False
        then have "\<not> ?p dvd y1 - y2" using red(3,4) by (metis eqm_dvd red_eqm_eq)
        with same y True PQ rr of pos [OF v] show ?thesis
          by (auto simp: frame_def pt_of_def pt_ok_def jac_rep_def)
      qed
    next
      case False
      then have ndx: "\<not> ?p dvd x2 - x1" using red(1,2) by (metis eqm_dvd red_eqm_eq)
      define l where "l = (y2 - y1) * minv ?p (x2 - x1)"
      have "eqm ?p (l * (x2 - x1)) (y2 - y1)" unfolding l_def by (rule minv_solve [OF field_prime [OF v] ndx])
      then have "eqm ?p (y1 + l * (x2 - x1)) (y1 + (y2 - y1))" by (intro eqm_intros)
      then have "eqm ?p (y1 - l * (x1 - x2)) y2" by (simp add: algebra_simps)
      then have "eqm ?p (y2 * z2 ^ 3) ((y1 - l * (x1 - x2)) * z2 ^ 3)" by (intro eqm_intros) (rule eqm_sym)
      then have yb: "rp g (Yof s b) ((y1 - l * (x1 - x2)) * z2 ^ 3)" by (rule frep_cong [OF jb(3)])
      have ndx': "\<not> ?p dvd x1 - x2" using ndx by (metis dvd_minus_iff minus_diff_eq)
      then have nd: "\<not> ?p dvd (z1 * z2) ^ 2 * (x1 - x2)" and nd3: "\<not> ?p dvd (z1 * z2) ^ 3 * (x1 - x2)"
        using zu by (simp_all add: not_dvd_mult [OF v] not_dvd_power [OF v])
      note run = add_run [OF v aff(1) ca cb Z ja(1) one(1) jb(1) one(2) ja(2,3) jb(2) yb nd, of r]
      show ?thesis
      proof (rule returns_mono [OF run], elim conjE, intro conjI)
        fix s'
        let ?Z = "(z1 * z2) ^ 3 * (x1 - x2)" and ?x = "l ^ 2 - x1 - x2"
        assume Z': "rp g (Zof s' r) ?Z" and X': "rp g (Xof s' r) (?x * ?Z ^ 2)"
          and Y': "rp g (Yof s' r) ((l * (x1 - ?x) - y1) * ?Z ^ 3)" and f: "\<not> Z1of s' r"
          and fr: "frame r s s'" and cn: "p_curve_name (heap s' r) = p_curve_name (heap s r)"
        show "frame r s s'" by (rule fr)
        show "pt_of g (heap s' r)" using fr cn of(1) by (simp add: frame_def pt_of_def)
        show "pt_ok ?p ?u (heap s' r)" using X' Y' Z' f by (simp add: pt_ok_def frep_red)
        define x3 where "x3 = ?x mod ?p"
        have "eqm ?p ((l * (x1 - ?x) - y1) * ?Z ^ 3) ((l * (x1 - x3) - y1) * ?Z ^ 3)"
          unfolding x3_def by (intro eqm_intros) (simp add: eqm_def)
        then have Y: "rp g (Yof s' r) ((l * (x1 - x3) - y1) * ?Z ^ 3)" by (rule frep_cong [OF Y'])
        from jac_repI [OF X' Y Z' nd3 refl refl pos [OF v]]
        show "jac_rep ?p ?u (heap s' r) (aff_add ?p ?A P Q)"
          using PQ False by (simp add: chord_def Let_def l_def x3_def)
      qed
    qed
  qed
qed

text \<open>Tripling. The flag of the result is the flag \<open>r\<close> had before.\<close>

lemma tpl_run:
  assumes v: "valid g" and ca: "ec_point_is_compat (heap s a) g" and Za: "Zof s a \<noteq> 0"
    and z: "rp g (Zof s a) z" and xa: "rp g (Xof s a) (x * z ^ 2)" and ya: "rp g (Yof s a) (y * z ^ 3)"
  defines "m \<equiv> 3 * x ^ 2 + g_a g * fac g"
  defines "e \<equiv> 12 * x * y ^ 2 - m ^ 2"
  defines "w \<equiv> 2 * m * e - 16 * y ^ 4"
  shows "returns (ossl_ec_GFp_simple_tpl g r a True s) (\<lambda>s'.
    frame r s s' \<and> Z1of s' r = Z1of s r \<and> p_curve_name (heap s' r) = p_curve_name (heap s r) \<and>
    rp g (Zof s' r) (2 * e * z ^ 9) \<and>
    rp g (Xof s' r) (4 * (x * e ^ 2 - 4 * y ^ 2 * w) * z ^ 18) \<and>
    rp g (Yof s' r) (8 * y * (w * (16 * y ^ 4 - w) - e ^ 3) * z ^ 27))"
proof -
  have a: "rp g (g_a g) (g_a g * fac g)" using curve_red [OF v] by (simp add: frep_self)
  let ?X = "x * z ^ 2" and ?Y = "y * z ^ 3"
  let ?YY = "?Y * ?Y"
  let ?S = "(?X + ?YY) * (?X + ?YY) - ?X * ?X - ?YY * ?YY"
  let ?M = "m * z ^ 4" and ?E = "e * z ^ 8" and ?U = "w * z ^ 12"
  have stepM: "returns (ignoring old (z_mod_add_quick t4 t2 (g_field g))) (\<lambda>n. rp g n ?M)"
    if "rp g t4 (2 * (?X * ?X) + ?X * ?X)" "rp g t2 (g_a g * fac g * (z * z * (z * z)))" for old t4 t2
    by (rule returns_mono [OF ret_ignoring [OF ret_add [OF that]]], erule frep_eq, unfold m_def, algebra)
  have stepE: "returns (ignoring old (z_mod_sub_quick t7 mm (g_field g))) (\<lambda>n. rp g n ?E)"
    if "rp g t7 (2 * ?S + 2 * (2 * ?S))" "rp g mm (?M * ?M)" for old t7 mm
    by (rule returns_mono [OF ret_ignoring [OF ret_sub [OF that]]], erule frep_eq, unfold e_def, algebra)
  have stepU: "returns (ignoring old (z_mod_sub_quick t4 t (g_field g))) (\<lambda>n. rp g n ?U)"
    if "rp g t4 ((?M + ?E) * (?M + ?E) - ?M * ?M - ?E * ?E)" "rp g t (2 ^ 4 * (?YY * ?YY))" for old t4 t
    by (rule returns_mono [OF ret_ignoring [OF ret_sub [OF that]]], erule frep_eq, unfold w_def, algebra)
  note ops = stepM [THEN returns_bindI] stepE [THEN returns_bindI] stepU [THEN returns_bindI] ignoring_ops
  show ?thesis
    unfolding ossl_ec_GFp_simple_tpl_def
    using ca Za infinity_iff [OF v ca]
    apply (simp only: Let_def if_False not_True_eq_False)
    apply ((rule ops, (rule v z xa ya a | assumption)+) | simp only: coord_wr if_True simp_thms)+
    apply (simp only: returns_Some coord_wr if_True simp_thms)
    apply (intro conjI)
    apply (simp add: frame_def)
    apply simp
    apply (erule frep_eq, algebra)+
    done
qed

text \<open>The polynomial outputs of \<open>tpl\<close> in terms of the two slopes \<open>l\<close> (of the tangent) and \<open>k\<close>
  (of the chord through \<open>2P\<close> and \<open>P\<close>).\<close>

lemma tpl_poly:
  fixes x y z l k m D A p :: int
  assumes m: "eqm p m (2 * y * l)" and D: "D = l ^ 2 - 3 * x" and k: "eqm p (k * D) (- (2 * y + l * D))"
    and x2: "eqm p x2 (D + x)" and y2: "eqm p y2 (- l * D - y)"
  defines "e \<equiv> 12 * x * y ^ 2 - m ^ 2" and "w \<equiv> 2 * m * (12 * x * y ^ 2 - m ^ 2) - 16 * y ^ 4"
    and "Z \<equiv> - 8 * y ^ 2 * D * z ^ 9" and "x3 \<equiv> k ^ 2 - x2 - x"
  shows "eqm p (2 * e * z ^ 9) Z"
    and "eqm p (4 * (x * e ^ 2 - 4 * y ^ 2 * w) * z ^ 18) (x3 * Z ^ 2)"
    and "eqm p (8 * y * (w * (16 * y ^ 4 - w) - e ^ 3) * z ^ 27) ((k * (x2 - x3) - y2) * Z ^ 3)"
proof -
  have e: "eqm p e (- 4 * y ^ 2 * D)"
  proof -
    have "eqm p e (12 * x * y ^ 2 - (2 * y * l) ^ 2)" unfolding e_def by (intro eqm_intros m)
    also have "12 * x * y ^ 2 - (2 * y * l) ^ 2 = - 4 * y ^ 2 * D" unfolding D by algebra
    finally show ?thesis .
  qed
  have w: "eqm p w (- 16 * y ^ 3 * (l * D + y))"
  proof -
    have "eqm p w (2 * (2 * y * l) * (- 4 * y ^ 2 * D) - 16 * y ^ 4)"
      unfolding w_def by (intro eqm_intros m e [unfolded e_def])
    also have "2 * (2 * y * l) * (- 4 * y ^ 2 * D) - 16 * y ^ 4 = - 16 * y ^ 3 * (l * D + y)" by algebra
    finally show ?thesis .
  qed
  show "eqm p (2 * e * z ^ 9) Z"
    using eqm_mult [OF eqm_mult [OF eqm_refl [of p 2] e] eqm_refl [of p "z ^ 9"]]
    by (simp add: Z_def mult.assoc)
  have x3D: "eqm p (x3 * D ^ 2) (x * D ^ 2 + 4 * y * (l * D + y))"
  proof -
    have "x3 * D ^ 2 = (k * D) ^ 2 - x2 * D ^ 2 - x * D ^ 2" unfolding x3_def by algebra
    also have "eqm p \<dots> ((- (2 * y + l * D)) ^ 2 - (D + x) * D ^ 2 - x * D ^ 2)"
      by (intro eqm_intros k x2)
    also have "(- (2 * y + l * D)) ^ 2 - (D + x) * D ^ 2 - x * D ^ 2 = x * D ^ 2 + 4 * y * (l * D + y)"
      unfolding D by algebra
    finally show ?thesis .
  qed
  show "eqm p (4 * (x * e ^ 2 - 4 * y ^ 2 * w) * z ^ 18) (x3 * Z ^ 2)"
  proof -
    have "eqm p (4 * (x * e ^ 2 - 4 * y ^ 2 * w) * z ^ 18)
        (4 * (x * (- 4 * y ^ 2 * D) ^ 2 - 4 * y ^ 2 * (- 16 * y ^ 3 * (l * D + y))) * z ^ 18)"
      by (intro eqm_intros e w)
    also have "4 * (x * (- 4 * y ^ 2 * D) ^ 2 - 4 * y ^ 2 * (- 16 * y ^ 3 * (l * D + y))) * z ^ 18 =
        64 * y ^ 4 * z ^ 18 * (x * D ^ 2 + 4 * y * (l * D + y))" by algebra
    also have "eqm p \<dots> (64 * y ^ 4 * z ^ 18 * (x3 * D ^ 2))" by (intro eqm_intros eqm_sym [OF x3D])
    also have "64 * y ^ 4 * z ^ 18 * (x3 * D ^ 2) = x3 * Z ^ 2" unfolding Z_def by algebra
    finally show ?thesis .
  qed
  show "eqm p (8 * y * (w * (16 * y ^ 4 - w) - e ^ 3) * z ^ 27) ((k * (x2 - x3) - y2) * Z ^ 3)"
  proof -
    let ?G = "l * D + y"
    have "eqm p (8 * y * (w * (16 * y ^ 4 - w) - e ^ 3) * z ^ 27)
        (8 * y * (- 16 * y ^ 3 * ?G * (16 * y ^ 4 - - 16 * y ^ 3 * ?G) - (- 4 * y ^ 2 * D) ^ 3) * z ^ 27)"
      by (intro eqm_intros e w)
    also have "8 * y * (- 16 * y ^ 3 * ?G * (16 * y ^ 4 - - 16 * y ^ 3 * ?G) - (- 4 * y ^ 2 * D) ^ 3) * z ^ 27 =
        - 512 * y ^ 6 * z ^ 27 * (- (2 * y + l * D) * ((D + x) * D ^ 2 - (x * D ^ 2 + 4 * y * ?G)) - (- l * D - y) * D ^ 3)"
      by algebra
    also have "eqm p \<dots> (- 512 * y ^ 6 * z ^ 27 * (k * D * (x2 * D ^ 2 - x3 * D ^ 2) - y2 * D ^ 3))"
      by (intro eqm_intros eqm_sym [OF k] eqm_sym [OF x2] eqm_sym [OF x3D] eqm_sym [OF y2])
    also have "- 512 * y ^ 6 * z ^ 27 * (k * D * (x2 * D ^ 2 - x3 * D ^ 2) - y2 * D ^ 3) = (k * (x2 - x3) - y2) * Z ^ 3"
      unfolding Z_def by algebra
    finally show ?thesis .
  qed
qed

text \<open>\<open>ossl_ec_GFp_simple_tpl\<close> triples the points of a nonsingular curve. Its result has the
  flag \<open>r\<close> had, unless the operand was infinity.\<close>

lemma tpl_refines:
  assumes v: "valid g" and ca: "ec_point_is_compat (heap s a) g"
    and ok: "pt_ok (g_field g) (fac g) (heap s a)" and J: "jac_rep (g_field g) (fac g) (heap s a) P"
    and ns: "nonsingular (g_field g) (g_a g * fac g) B" and on: "aff_on (g_field g) (g_a g * fac g) B P"
    and rr: "P = Inf \<longrightarrow> red (g_field g) (Xof s r) \<and> red (g_field g) (Yof s r)"
  shows "returns (ossl_ec_GFp_simple_tpl g r a True s) (\<lambda>s'.
    frame r s s' \<and> p_curve_name (heap s' r) = p_curve_name (heap s r) \<and>
    (Z1of s' r \<longleftrightarrow> P \<noteq> Inf \<and> Z1of s r) \<and>
    red (g_field g) (Xof s' r) \<and> red (g_field g) (Yof s' r) \<and> red (g_field g) (Zof s' r) \<and>
    jac_rep (g_field g) (fac g) (heap s' r)
      (aff_add (g_field g) (g_a g * fac g) (aff_add (g_field g) (g_a g * fac g) P P) P))"
proof (cases P)
  case Inf
  then have "Zof s a = 0" using J by (simp add: jac_rep_def)
  with infinity_iff [OF v ca] Inf rr pos [OF v] show ?thesis
    by (auto simp: ossl_ec_GFp_simple_tpl_def Let_def frame_def jac_rep_def)
next
  case (Aff x y)
  let ?p = "g_field g" and ?u = "fac g" and ?A = "g_a g * fac g"
  define z where "z = Zof s a * ?u"
  have Ja: "jac_rep ?p ?u (heap s a) (Aff x y)" using J Aff by simp
  then have Z: "Zof s a \<noteq> 0" and rx: "red ?p x" and ry: "red ?p y" by (simp_all add: jac_rep_def)
  have zr: "rp g (Zof s a) z" and xr: "rp g (Xof s a) (x * z ^ 2)" and yr: "rp g (Yof s a) (y * z ^ 3)"
    using ok Ja by (auto simp: frep_def pt_ok_def jac_rep_def z_def)
  have zu: "\<not> ?p dvd z" using rp_zero [OF v zr] Z by simp
  define m where "m = 3 * x ^ 2 + ?A"
  define e where "e = 12 * x * y ^ 2 - m ^ 2"
  define w where "w = 2 * m * e - 16 * y ^ 4"
  show ?thesis
  proof (rule returns_mono [OF tpl_run [OF v ca Z zr xr yr]], fold m_def, fold e_def, fold w_def,
      elim conjE, intro conjI)
    fix s'
    assume Z': "rp g (Zof s' r) (2 * e * z ^ 9)"
      and X': "rp g (Xof s' r) (4 * (x * e ^ 2 - 4 * y ^ 2 * w) * z ^ 18)"
      and Y': "rp g (Yof s' r) (8 * y * (w * (16 * y ^ 4 - w) - e ^ 3) * z ^ 27)"
      and f: "Z1of s' r = Z1of s r"
    show "red ?p (Xof s' r)" "red ?p (Yof s' r)" "red ?p (Zof s' r)" using X' Y' Z' by (simp_all add: frep_red)
    show "Z1of s' r \<longleftrightarrow> P \<noteq> Inf \<and> Z1of s r" using f Aff by simp
    show "jac_rep ?p ?u (heap s' r) (aff_add ?p ?A (aff_add ?p ?A P P) P)"
    proof (cases "y = 0")
      case y0: True
      have "eqm ?p (x ^ 3 + ?A * x + B) 0" using on Aff y0 by (simp add: eqm_def)
      then have mu: "\<not> ?p dvd m" unfolding m_def by (rule singular_tangent [OF ns])
      have e: "e = - (m ^ 2)" by (simp add: e_def y0)
      have eu: "\<not> ?p dvd 2 * e * z ^ 9"
        using mu zu small_unit(1) [OF v] unfolding e by (simp add: not_dvd_mult [OF v] not_dvd_power [OF v])
      have X: "rp g (Xof s' r) (x * (2 * e * z ^ 9) ^ 2)" by (rule frep_eq [OF X']) (use y0 in algebra)
      have Y: "rp g (Yof s' r) (0 * (2 * e * z ^ 9) ^ 3)" by (rule frep_eq [OF Y']) (use y0 in simp)
      from jac_repI [OF X Y Z' eu refl refl pos [OF v]] rx show ?thesis
        using Aff y0 by (simp add: red_id)
    next
      case yn: False
      then have yu: "\<not> ?p dvd y" using red_dvd_0 [OF ry] by simp
      define l where "l = m * minv ?p (2 * y)"
      have ml: "eqm ?p m (2 * y * l)" unfolding l_def by (rule slope_dbl [OF v yu])
      define x2 where "x2 = (l ^ 2 - x - x) mod ?p"
      define y2 where "y2 = (l * (x - x2) - y) mod ?p"
      define D where "D = l ^ 2 - 3 * x"
      have P2: "aff_add ?p ?A P P = Aff x2 y2"
        using Aff yn by (simp add: chord_def Let_def x2_def y2_def l_def m_def)
      have ex2: "eqm ?p x2 (D + x)" by (simp add: x2_def D_def eqm_def)
      have "eqm ?p y2 (l * (x - x2) - y)" by (simp add: y2_def eqm_def)
      also have "eqm ?p \<dots> (l * (x - (D + x)) - y)" by (intro eqm_intros ex2)
      also have "l * (x - (D + x)) - y = - l * D - y" by simp
      finally have ey2: "eqm ?p y2 (- l * D - y)" .
      have r2: "red ?p x2" "red ?p y2" using pos [OF v] by (simp_all add: x2_def y2_def)
      define k where "k = (y - y2) * minv ?p (x - x2)"
      have poly: "eqm ?p (k * D) (- (2 * y + l * D)) \<Longrightarrow> ?thesis" if "x2 \<noteq> x"
      proof -
        assume "eqm ?p (k * D) (- (2 * y + l * D))"
        note tp = tpl_poly [OF ml D_def this ex2 ey2, of z, folded e_def, folded w_def]
        let ?Z = "- 8 * y ^ 2 * D * z ^ 9"
        have nD: "\<not> ?p dvd D"
        proof
          assume "?p dvd D"
          then have "eqm ?p x2 (0 + x)" using ex2 by (metis eqm_0 eqm_add eqm_refl eqm_trans)
          then show False using that r2 rx by (simp add: red_eqm_eq)
        qed
        have "\<not> ?p dvd 8" using small_unit(1) [OF v] not_dvd_power [OF v, of 3 2] by simp
        then have Zu: "\<not> ?p dvd ?Z"
          using nD yu zu by (simp add: not_dvd_mult [OF v] not_dvd_power [OF v])
        define x3 where "x3 = (k ^ 2 - x2 - x) mod ?p"
        have "eqm ?p ((k * (x2 - (k ^ 2 - x2 - x)) - y2) * ?Z ^ 3) ((k * (x2 - x3) - y2) * ?Z ^ 3)"
          unfolding x3_def by (intro eqm_intros) (simp add: eqm_def)
        with frep_cong [OF Y' tp(3)] have Y: "rp g (Yof s' r) ((k * (x2 - x3) - y2) * ?Z ^ 3)"
          by (rule frep_cong)
        from jac_repI [OF frep_cong [OF X' tp(2)] Y frep_cong [OF Z' tp(1)] Zu refl refl pos [OF v]]
        have "jac_rep ?p ?u (heap s' r) (Aff x3 ((k * (x2 - x3) - y2) mod ?p))" by (simp only: x3_def)
        moreover have "aff_add ?p ?A (Aff x2 y2) P = Aff x3 ((k * (x2 - x3) - y2) mod ?p)"
          using that by (simp add: Aff chord_def Let_def k_def x3_def)
        ultimately show ?thesis unfolding P2 by simp
      qed
      show ?thesis
      proof (cases "x2 = x")
        case True
        have "eqm ?p (D + x - x) (x - x)" using ex2 True by (intro eqm_diff eqm_refl) (simp add: eqm_sym)
        then have pD: "?p dvd D" by (simp add: eqm_0)
        have "eqm ?p e (12 * x * y ^ 2 - (2 * y * l) ^ 2)" unfolding e_def by (intro eqm_intros ml)
        also have "12 * x * y ^ 2 - (2 * y * l) ^ 2 = - 4 * y ^ 2 * D" unfolding D_def by algebra
        finally have "eqm ?p e 0" using pD by (metis dvd_mult eqm_0 eqm_trans)
        then have "?p dvd 2 * e * z ^ 9" by (simp add: eqm_0)
        then have "Zof s' r = 0" using rp_zero [OF v Z'] by simp
        moreover have "y2 \<noteq> y"
        proof
          assume "y2 = y"
          then have "eqm ?p (y + y) (y + (- l * D - y))" using ey2 by (intro eqm_add eqm_refl) simp
          then have "?p dvd 2 * y + l * D" by (simp add: eqm_dvd algebra_simps)
          then have "?p dvd 2 * y" using pD by (metis dvd_add_left_iff dvd_mult)
          then show False using yu small_unit(1) [OF v] by (simp add: not_dvd_mult [OF v])
        qed
        ultimately show ?thesis unfolding P2 using True Aff by (simp add: jac_rep_def)
      next
        case False
        then have "\<not> ?p dvd x - x2" using r2 rx by (metis eqm_dvd red_eqm_eq)
        then have kx: "eqm ?p (k * (x - x2)) (y - y2)"
          unfolding k_def by (rule minv_solve [OF field_prime [OF v]])
        have "eqm ?p (k * (- D)) (k * (x - (D + x)))" by simp
        also have "eqm ?p \<dots> (k * (x - x2))" by (intro eqm_intros eqm_sym [OF ex2])
        also note kx
        also have "eqm ?p (y - y2) (y - (- l * D - y))" by (intro eqm_intros ey2)
        finally have "eqm ?p (- (k * (- D))) (- (y - (- l * D - y)))" by (rule eqm_minus)
        then have "eqm ?p (k * D) (- (2 * y + l * D))" by (simp add: algebra_simps)
        with False show ?thesis by (rule poly)
      qed
    qed
  qed
qed

text \<open>The curve equation.\<close>

lemma curve_rhs_ret:
  assumes v: "valid g" and ok: "pt_ok (g_field g) (fac g) pt" and J: "jac_rep (g_field g) (fac g) pt (Aff x y)"
  shows "returns (curve_rhs g pt True) (\<lambda>r. rp g r ((x ^ 3 + g_a g * fac g * x + g_b g * fac g) * zdec (fac g) pt ^ 6))"
proof -
  define z where "z = zdec (fac g) pt"
  note c = jac_frep [OF ok J, folded z_def]
  have a: "rp g (g_a g) (g_a g * fac g)" and b: "rp g (g_b g) (g_b g * fac g)"
    using curve_red [OF v] by (simp_all add: frep_self)
  show ?thesis
  proof (cases "pZ_is_one pt")
    case True
    then have "z = 1" by (simp add: z_def zdec_def)
    with True show ?thesis
      unfolding curve_rhs_def z_def [symmetric]
      apply (simp only: Let_def if_False not_True_eq_False)
      apply (rule step_ops, (rule v c a b | assumption)+)+
      apply (rule ret_ops [THEN returns_mono], (rule v c a b | assumption)+, erule frep_eq)
      apply (simp add: power2_eq_square power3_eq_cube algebra_simps)
      done
  next
    case nz: False
    let ?A = "g_a g * fac g"
    have mid: "returns (if g_a_is_minus3 g then do {
              tmp \<leftarrow> z_mod_lshift1_quick Z4 (g_field g);
              tmp \<leftarrow> z_mod_add_quick tmp Z4 (g_field g);
              rh \<leftarrow> z_mod_sub_quick rh tmp (g_field g);
              field_mul g rh (pX pt) True
            }
            else do {
              tmp \<leftarrow> field_mul g Z4 (g_a g) True;
              rh \<leftarrow> z_mod_add_quick rh tmp (g_field g);
              field_mul g rh (pX pt) True
            }) (\<lambda>r. rp g r ((x ^ 3 + ?A * x) * z ^ 6))"
      if Z4: "rp g Z4 (z * z * (z * z))" and rh: "rp g rh (x * z ^ 2 * (x * z ^ 2))" for Z4 rh
    proof (cases "g_a_is_minus3 g")
      case True
      have e: "eqm (g_field g) ((x ^ 3 + - 3 * x) * z ^ 6) ((x ^ 3 + ?A * x) * z ^ 6)"
        by (intro eqm_intros eqm_sym [OF minus3 [OF v True]])
      from True show ?thesis
        apply (simp only: if_True)
        apply (rule step_ops, (rule v c a Z4 rh | assumption)+)+
        apply (rule ret_ops [THEN returns_mono], (rule v c a | assumption)+, rule frep_cong [OF _ e], erule frep_eq)
        apply algebra
        done
    next
      case False
      then show ?thesis
        apply (simp only: if_False)
        apply (rule step_ops, (rule v c a Z4 rh | assumption)+)+
        apply (rule ret_ops [THEN returns_mono], (rule v c a | assumption)+, erule frep_eq)
        apply algebra
        done
    qed
    from nz show ?thesis
      unfolding curve_rhs_def z_def [symmetric]
      apply (simp only: Let_def if_True not_False_eq_True)
      apply (rule step_ops, (rule v c a | assumption)+)+
      apply (rule returns_bindI [OF mid], assumption, assumption)
      apply (rule step_ops, (rule v c b | assumption)+)+
      apply (rule ret_ops [THEN returns_mono], (rule v c a | assumption)+, erule frep_eq)
      apply algebra
      done
  qed
qed

lemma rp_inj: "valid g \<Longrightarrow> rp g x a \<Longrightarrow> rp g y b \<Longrightarrow> x = y \<longleftrightarrow> eqm (g_field g) a b"
proof
  assume v: "valid g" and x: "rp g x a" and y: "rp g y b" and e: "eqm (g_field g) a b"
  have "eqm (g_field g) (x * fac g) (y * fac g)"
    using x y e unfolding frep_def by (blast intro: eqm_trans eqm_sym)
  then have "eqm (g_field g) (fac g * x) (fac g * y)" by (simp add: mult.commute)
  then have "eqm (g_field g) x y" by (rule eqm_cancel [OF field_prime [OF v] fac_unit [OF v]])
  then show "x = y" using x y by (auto simp: frep_def intro: red_eqm_eq)
qed (auto simp: frep_def intro: eqm_trans eqm_sym)

lemma is_on_curve_correct:
  assumes v: "valid g" and cp: "ec_point_is_compat pt g" and ok: "pt_ok (g_field g) (fac g) pt"
    and J: "jac_rep (g_field g) (fac g) pt P"
  shows "ossl_ec_GFp_simple_is_on_curve g pt True =
    (if aff_on (g_field g) (g_a g * fac g) (g_b g * fac g) P then 1 else 0)"
proof (cases P)
  case Inf
  with J show ?thesis
    by (simp add: ossl_ec_GFp_simple_is_on_curve_def infinity_iff [OF v cp] jac_rep_def)
next
  case (Aff x y)
  let ?p = "g_field g" and ?A = "g_a g * fac g" and ?B = "g_b g * fac g"
  define z where "z = zdec (fac g) pt"
  note Ja = J [unfolded Aff]
  have Z: "pZ pt \<noteq> 0" and r: "red ?p x" "red ?p y" using Ja by (simp_all add: jac_rep_def)
  have zu: "\<not> ?p dvd z" unfolding z_def by (rule zdec_unit [OF v ok Z])
  note c = jac_frep [OF ok Ja, folded z_def]
  obtain rh where rh: "curve_rhs g pt True = Some rh" "rp g rh ((x ^ 3 + ?A * x + ?B) * z ^ 6)"
    using curve_rhs_ret [OF v ok Ja, folded z_def] by (auto simp: returns_ex)
  obtain t where t: "field_sqr g (pY pt) True = Some t" "rp g t (y * z ^ 3 * (y * z ^ 3))"
    using ret_sqr [OF v c(3)] by (auto simp: returns_ex)
  have "t = rh \<longleftrightarrow> eqm ?p (y * z ^ 3 * (y * z ^ 3)) ((x ^ 3 + ?A * x + ?B) * z ^ 6)"
    by (rule rp_inj [OF v t(2) rh(2)])
  also have "\<dots> \<longleftrightarrow> ?p dvd z ^ 6 * (y ^ 2 - (x ^ 3 + ?A * x + ?B))"
  proof -
    have "y * z ^ 3 * (y * z ^ 3) - (x ^ 3 + ?A * x + ?B) * z ^ 6 = z ^ 6 * (y ^ 2 - (x ^ 3 + ?A * x + ?B))"
      by algebra
    then show ?thesis by (simp only: eqm_dvd)
  qed
  also have "\<dots> \<longleftrightarrow> eqm ?p (y ^ 2) (x ^ 3 + ?A * x + ?B)"
    using zu by (simp add: not_dvd_mult [OF v] not_dvd_power [OF v] eqm_dvd)
  finally have eq: "t = rh \<longleftrightarrow> aff_on ?p ?A ?B P" using Aff r by simp
  have "0 \<le> t" "0 \<le> rh" using t(2) rh(2) by (simp_all add: frep_def red_def)
  then show ?thesis
    using eq rh(1) t(1) Z by (simp add: ossl_ec_GFp_simple_is_on_curve_def infinity_iff [OF v cp])
qed

text \<open>Negation.\<close>

lemma invert_refines:
  assumes v: "valid g" and cp: "ec_point_is_compat (heap s a) g" and ok: "pt_ok (g_field g) (fac g) (heap s a)"
    and J: "jac_rep (g_field g) (fac g) (heap s a) P"
  shows "returns (ossl_ec_GFp_simple_invert g a ctx s) (\<lambda>s'. frame a s s' \<and>
    p_curve_name (heap s' a) = p_curve_name (heap s a) \<and>
    pt_ok (g_field g) (fac g) (heap s' a) \<and> jac_rep (g_field g) (fac g) (heap s' a) (aff_neg (g_field g) P))"
proof (cases P)
  case Inf
  with assms show ?thesis
    by (simp add: ossl_ec_GFp_simple_invert_def infinity_iff jac_rep_def frame_def)
next
  case (Aff x y)
  let ?p = "g_field g" and ?u = "fac g"
  let ?z = "Zof s a * ?u"
  have Z: "Zof s a \<noteq> 0" and r: "red ?p x" "red ?p y" and Y: "eqm ?p (Yof s a * ?u) (y * ?z ^ 3)"
    and X: "eqm ?p (Xof s a * ?u) (x * ?z ^ 2)"
    using J Aff by (simp_all add: jac_rep_def)
  have ry: "red ?p (Yof s a)" using ok by (simp add: pt_ok_def)
  have zu: "\<not> ?p dvd ?z"
    using Z ok fac_unit [OF v] by (simp add: not_dvd_mult [OF v] red_dvd_0 pt_ok_def)
  have y0: "Yof s a = 0 \<longleftrightarrow> y = 0"
  proof -
    have "Yof s a = 0 \<longleftrightarrow> ?p dvd y * ?z ^ 3"
      using rp_zero [OF v, of "Yof s a"] Y ry by (simp add: frep_def)
    also have "\<dots> \<longleftrightarrow> y = 0" using zu r(2) by (simp only: not_dvd_mult [OF v] not_dvd_power [OF v] red_dvd_0 zero_less_numeral simp_thms)
    finally show ?thesis .
  qed
  show ?thesis
  proof (cases "y = 0")
    case True
    with assms Aff Z y0 show ?thesis
      by (simp add: ossl_ec_GFp_simple_invert_def infinity_iff [OF v cp] frame_def)
  next
    case False
    have b: "0 < Yof s a" "Yof s a < ?p" using ry False y0 by (auto simp: red_def)
    have "eqm ?p ((?p - Yof s a) * ?u) (- (Yof s a * ?u))" by (simp add: eqm_dvd algebra_simps)
    also have "eqm ?p \<dots> (- (y * ?z ^ 3))" by (rule eqm_minus [OF Y])
    also have "- (y * ?z ^ 3) = (- y) * ?z ^ 3" by simp
    also have "eqm ?p \<dots> (((- y) mod ?p) * ?z ^ 3)" by (intro eqm_intros) (simp add: eqm_def)
    finally have Y': "eqm ?p ((?p - Yof s a) * ?u) (((- y) mod ?p) * ?z ^ 3)" .
    have res: "ossl_ec_GFp_simple_invert g a ctx s = Some (wr_Y a (?p - Yof s a) s)"
      using b Z False y0 by (simp add: ossl_ec_GFp_simple_invert_def infinity_iff [OF v cp])
    show ?thesis
      unfolding res using ok b Z r X Y' Aff pos [OF v] by (simp add: frame_def pt_ok_def jac_rep_def red_def)
  qed
qed

text \<open>Comparison.\<close>

lemma scaled_eq_iff:
  assumes v: "valid g" and zu: "\<not> g_field g dvd z" and r: "red (g_field g) x1" "red (g_field g) x2"
    and t: "rp g t1 (x1 * z ^ n)" "rp g t2 (x2 * z ^ n)" and n: "0 < n"
  shows "t1 = t2 \<longleftrightarrow> x1 = x2"
proof -
  have "t1 = t2 \<longleftrightarrow> g_field g dvd x1 * z ^ n - x2 * z ^ n" using rp_inj [OF v t] by (simp add: eqm_dvd)
  also have "x1 * z ^ n - x2 * z ^ n = z ^ n * (x1 - x2)" by (simp add: algebra_simps)
  also have "g_field g dvd z ^ n * (x1 - x2) \<longleftrightarrow> eqm (g_field g) x1 x2"
    using zu n by (simp add: not_dvd_mult [OF v] not_dvd_power [OF v] eqm_dvd)
  also have "\<dots> \<longleftrightarrow> x1 = x2" using r by (auto intro: red_eqm_eq)
  finally show ?thesis .
qed

lemma cmp_correct:
  assumes v: "valid g" and cp: "ec_point_is_compat A g" "ec_point_is_compat B g"
    and ok: "pt_ok (g_field g) (fac g) A" "pt_ok (g_field g) (fac g) B"
    and J: "jac_rep (g_field g) (fac g) A P" "jac_rep (g_field g) (fac g) B Q"
  shows "ossl_ec_GFp_simple_cmp g A B True = (if P = Q then 0 else 1)"
proof -
  let ?p = "g_field g"
  have PI: "P = Inf \<longleftrightarrow> pZ A = 0" and QI: "Q = Inf \<longleftrightarrow> pZ B = 0"
    using J by (auto simp: jac_rep_def split: apoint.splits)
  show ?thesis
  proof (cases "P = Inf \<or> Q = Inf")
    case True
    with PI QI show ?thesis
      by (auto simp: ossl_ec_GFp_simple_cmp_def infinity_iff [OF v cp(1)] infinity_iff [OF v cp(2)])
  next
    case False
    then obtain x1 y1 x2 y2 where PQ: "P = Aff x1 y1" "Q = Aff x2 y2" by (cases P; cases Q) auto
    define z1 where "z1 = zdec (fac g) A"
    define z2 where "z2 = zdec (fac g) B"
    note ja = jac_frep [OF ok(1) J(1) [unfolded PQ], folded z1_def]
    note jb = jac_frep [OF ok(2) J(2) [unfolded PQ], folded z2_def]
    have Z: "pZ A \<noteq> 0" "pZ B \<noteq> 0" using False PI QI by simp_all
    have zu: "\<not> ?p dvd z1 * z2"
      using zdec_unit [OF v ok(1)] zdec_unit [OF v ok(2)] Z by (simp add: not_dvd_mult [OF v] z1_def z2_def)
    have one: "pZ_is_one A \<longrightarrow> z1 = 1" "pZ_is_one B \<longrightarrow> z2 = 1" by (simp_all add: z1_def z2_def zdec_def)
    have red: "red ?p x1" "red ?p x2" "red ?p y1" "red ?p y2" using J PQ by (simp_all add: jac_rep_def)
    have scale: "\<exists>s t t3 t4. field_sqr g (pZ C) True = Some s \<and> field_mul g (pX D) s True = Some t \<and>
        field_mul g s (pZ C) True = Some t3 \<and> field_mul g (pY D) t3 True = Some t4 \<and>
        rp g t (x * zc ^ 2) \<and> rp g t4 (y * zc ^ 3)"
      if C: "rp g (pZ C) zc" and D: "rp g (pX D) x" "rp g (pY D) y" for C D x y zc
    proof -
      obtain s where s: "field_sqr g (pZ C) True = Some s" "rp g s (zc * zc)"
        using ret_sqr [OF v C] by (auto simp: returns_ex)
      obtain t where t: "field_mul g (pX D) s True = Some t" "rp g t (x * (zc * zc))"
        using ret_mul [OF v D(1) s(2)] by (auto simp: returns_ex)
      obtain t3 where t3: "field_mul g s (pZ C) True = Some t3" "rp g t3 (zc * zc * zc)"
        using ret_mul [OF v s(2) C] by (auto simp: returns_ex)
      obtain t4 where t4: "field_mul g (pY D) t3 True = Some t4" "rp g t4 (y * (zc * zc * zc))"
        using ret_mul [OF v D(2) t3(2)] by (auto simp: returns_ex)
      from s(1) t t3(1) t4 show ?thesis by (simp add: power2_eq_square power3_eq_cube)
    qed
    obtain sb tb ub vb where B: "field_sqr g (pZ B) True = Some sb" "field_mul g (pX A) sb True = Some tb"
      "field_mul g sb (pZ B) True = Some ub" "field_mul g (pY A) ub True = Some vb"
      "rp g tb (x1 * z1 ^ 2 * z2 ^ 2)" "rp g vb (y1 * z1 ^ 3 * z2 ^ 3)"
      using scale [OF jb(1) ja(2,3)] by blast
    obtain sa ta ua va where A: "field_sqr g (pZ A) True = Some sa" "field_mul g (pX B) sa True = Some ta"
      "field_mul g sa (pZ A) True = Some ua" "field_mul g (pY B) ua True = Some va"
      "rp g ta (x2 * z2 ^ 2 * z1 ^ 2)" "rp g va (y2 * z2 ^ 3 * z1 ^ 3)"
      using scale [OF ja(1) jb(2,3)] by blast
    define u1 where "u1 = (if pZ_is_one B then pX A else tb)"
    define u2 where "u2 = (if pZ_is_one A then pX B else ta)"
    define w1 where "w1 = (if pZ_is_one B then pY A else vb)"
    define w2 where "w2 = (if pZ_is_one A then pY B else va)"
    have "rp g u1 (x1 * (z1 * z2) ^ 2)" "rp g w1 (y1 * (z1 * z2) ^ 3)"
      using ja one(2) B(5,6) by (auto simp: u1_def w1_def power_mult_distrib mult.assoc)
    moreover have "rp g u2 (x2 * (z1 * z2) ^ 2)" "rp g w2 (y2 * (z1 * z2) ^ 3)"
      using jb one(1) A(5,6) by (auto simp: u2_def w2_def power_mult_distrib mult_ac)
    ultimately have x: "u1 = u2 \<longleftrightarrow> x1 = x2" and y: "w1 = w2 \<longleftrightarrow> y1 = y2"
      using scaled_eq_iff [OF v zu] red by auto
    show ?thesis
    proof (cases "pZ_is_one A \<and> pZ_is_one B")
      case True
      with x y Z PQ show ?thesis
        by (simp add: ossl_ec_GFp_simple_cmp_def infinity_iff [OF v cp(1)] infinity_iff [OF v cp(2)]
            u1_def u2_def w1_def w2_def)
    next
      case False
      have "ossl_ec_GFp_simple_cmp g A B True = (if u1 \<noteq> u2 then 1 else if w1 \<noteq> w2 then 1 else 0)"
        using False Z A B
        by (simp add: ossl_ec_GFp_simple_cmp_def infinity_iff [OF v cp(1)] infinity_iff [OF v cp(2)]
            u1_def u2_def w1_def w2_def)
      with x y PQ show ?thesis by simp
    qed
  qed
qed

end

section \<open>Both implementations\<close>

definition gfp_valid :: "ec_group \<Rightarrow> bool" where
  "gfp_valid g \<longleftrightarrow> simple_valid g \<or> mont_valid g"

definition gfp_fac :: "ec_group \<Rightarrow> int" where
  "gfp_fac g = (if g_meth g = M_GFp_mont then mont_fac g else 1)"

lemma valid_meth:
  "simple_valid g \<Longrightarrow> g_meth g = M_GFp_simple" "mont_valid g \<Longrightarrow> g_meth g = M_GFp_mont"
  by (simp_all add: simple_valid_def mont_valid_def)

lemma simple_no_encode: "simple_valid g \<Longrightarrow> \<not> has_slot g ''field_encode''"
  by (simp add: simple_valid_def has_slot_def)

lemma gfp_cases:
  assumes "gfp_valid g"
  obtains "simple_valid g" "gfp_fac g = 1" | "mont_valid g" "gfp_fac g = mont_fac g"
  using assms by (auto simp: gfp_valid_def gfp_fac_def valid_meth)

text \<open>The coefficients of the curve the group stands for.\<close>

definition curve_A :: "ec_group \<Rightarrow> int" where
  "curve_A g = g_a g * gfp_fac g"

definition curve_B :: "ec_group \<Rightarrow> int" where
  "curve_B g = g_b g * gfp_fac g"

definition represents :: "ec_group \<Rightarrow> ec_point \<Rightarrow> apoint \<Rightarrow> bool" where
  "represents g pt P \<longleftrightarrow> pt_ok (g_field g) (gfp_fac g) pt \<and> jac_rep (g_field g) (gfp_fac g) pt P"

interpretation gfp: ec_field gfp_valid gfp_fac
proof
  fix g :: ec_group assume v: "gfp_valid g"
  show "g_meth g = M_GFp_simple \<or> g_meth g = M_GFp_mont" "prime_int (g_field g)" "3 < g_field g"
    "\<not> g_field g dvd gfp_fac g" "red (g_field g) (g_a g) \<and> red (g_field g) (g_b g)"
    using v by (auto elim!: gfp_cases simp: valid_meth simple_f.field_prime mont_f.field_prime
        simple_f.field_gt_3 mont_f.field_gt_3 mont_f.fac_unit simple_f.curve_red mont_f.curve_red
        simple_f.fac_unit [simplified])
  show "g_a_is_minus3 g \<Longrightarrow> eqm (g_field g) (g_a g * gfp_fac g) (- 3)"
    using v simple_f.minus3 mont_f.minus3 by (auto elim!: gfp_cases)
  show "\<not> has_slot g ''field_encode'' \<Longrightarrow> gfp_fac g = 1"
    using v by (auto elim!: gfp_cases simp: mont_f.plain_law)
  show "has_slot g ''field_decode'' = has_slot g ''field_encode'' \<and>
      has_slot g ''field_set_to_one'' = has_slot g ''field_encode''"
    using v simple_f.same_slots mont_f.same_slots by (auto elim!: gfp_cases)
  show "has_slot g ''field_set_to_one'' \<Longrightarrow>
      \<exists>y. field_set_to_one g True = Some y \<and> red (g_field g) y \<and> eqm (g_field g) (y * gfp_fac g) 1"
    using v
  proof (rule gfp_cases)
    assume "has_slot g ''field_set_to_one''" "simple_valid g"
    then show ?thesis using simple_f.same_slots simple_no_encode by blast
  qed (simp add: mont_field_one)
  fix x y :: int
  show "red (g_field g) x \<Longrightarrow> red (g_field g) y \<Longrightarrow>
      field_mul g x y True = Some ((x * y * gfp_fac g) mod g_field g)"
    using v by (rule gfp_cases) (simp_all add: simple_f.mul_law mont_f.mul_law)
  show "red (g_field g) x \<Longrightarrow> field_sqr g x True = Some ((x * x * gfp_fac g) mod g_field g)"
    using v by (rule gfp_cases) (simp_all add: simple_f.sqr_law mont_f.sqr_law)
  show "has_slot g ''field_encode'' \<Longrightarrow> red (g_field g) x \<Longrightarrow>
      \<exists>y. field_encode g x True = Some y \<and> red (g_field g) y \<and> eqm (g_field g) (y * gfp_fac g) x"
    using v by (rule gfp_cases) (simp_all add: simple_no_encode mont_f.encode_law)
  show "has_slot g ''field_encode'' \<Longrightarrow> red (g_field g) x \<Longrightarrow>
      field_decode g x True = Some ((x * gfp_fac g) mod g_field g)"
    using v by (rule gfp_cases) (simp_all add: simple_no_encode mont_f.decode_law)
  fix rng :: "int list"
  show "field_inv g 0 rng True = None"
    using v by (rule gfp_cases) (simp_all add: simple_f.inv_zero mont_f.inv_zero)
  fix n
  show "red (g_field g) x \<Longrightarrow> x \<noteq> 0 \<Longrightarrow> rng_avail g (Suc n) rng \<Longrightarrow>
      \<exists>y rng'. field_inv g x rng True = Some (y, rng') \<and> red (g_field g) y \<and>
        eqm (g_field g) (y * x) 1 \<and> rng_avail g n rng'"
    using v by (rule gfp_cases) (rule simple_f.inv_law mont_f.inv_law; assumption)+
qed

end
