(* ===== verification/Ec_Curve.thy ===== *)
theory Ec_Curve
  imports Ec_Jacobian
begin

text \<open>
  The life of an \<open>EC_GROUP\<close> (\<open>ec_lib.c\<close>): creation, curve parameters, generator, order and
  cofactor, comparison, copying, and inversion modulo the order. The generator is a point of
  the heap; an allocation is the address it returned, or \<open>None\<close> when it failed. A failing call is
  \<open>None\<close>: what it already wrote into its object is not modelled.
\<close>

section \<open>Creation\<close>

definition EC_POINT_new :: "ec_group \<Rightarrow> nat option \<Rightarrow> ec_state \<Rightarrow> (nat \<times> ec_state) option" where
  "EC_POINT_new g alloc s =
     (let f = slot (g_meth g) ''point_init'' in
      if f = ''0'' then None
      else case alloc of
        None \<Rightarrow> None
      | Some n \<Rightarrow>
          let pt = \<lparr>p_meth = g_meth g, p_curve_name = g_curve_name g, pX = 0, pY = 0, pZ = 0,
            pZ_is_one = False\<rparr>
          in if f = ''ossl_ec_GFp_simple_point_init''
             then Some (n, upd_pt n (\<lambda>_. ossl_ec_GFp_simple_point_init pt) s)
             else None)"

definition EC_POINT_dup :: "nat option \<Rightarrow> ec_group \<Rightarrow> nat option \<Rightarrow> ec_state \<Rightarrow> (nat \<times> ec_state) option" where
  "EC_POINT_dup a g alloc s =
     (case a of None \<Rightarrow> None
      | Some a \<Rightarrow> do {
          (t, s) \<leftarrow> EC_POINT_new g alloc s;
          s \<leftarrow> EC_POINT_copy t a s;
          Some (t, s)
        })"

text \<open>\<open>OPENSSL_EC_EXPLICIT_CURVE\<close> is 0, \<open>POINT_CONVERSION_UNCOMPRESSED\<close> is 4.\<close>

definition ossl_ec_group_new_ex :: "ec_meth \<Rightarrow> ec_group option" where
  "ossl_ec_group_new_ex meth =
     (let f = slot meth ''group_init'';
          ret = \<lparr>g_meth = meth, g_generator = None, g_order = 0, g_cofactor = 0, g_curve_name = 0,
            g_asn1_flag = 0, g_decoded_from_explicit_params = 0, g_asn1_form = 4, g_seed = None,
            g_field = 0, g_a = 0, g_b = 0, g_a_is_minus3 = False, g_field_data1 = None,
            g_field_data2 = None, g_mont_data = None\<rparr>
      in if f = ''0'' then None
         else if f = ''ossl_ec_GFp_simple_group_init'' then Some (ossl_ec_GFp_simple_group_init ret)
         else if f = ''ossl_ec_GFp_mont_group_init'' then Some (ossl_ec_GFp_mont_group_init ret)
         else None)"

section \<open>Parameters\<close>

definition EC_GROUP_get_curve :: "ec_group \<Rightarrow> bool \<Rightarrow> (int \<times> int \<times> int) option" where
  "EC_GROUP_get_curve g ctx =
     (let f = slot (g_meth g) ''group_get_curve'' in
      if f = ''0'' then None
      else if f = ''ossl_ec_GFp_simple_group_get_curve'' then ossl_ec_GFp_simple_group_get_curve g ctx
      else None)"

definition EC_GROUP_get_degree :: "ec_group \<Rightarrow> nat" where
  "EC_GROUP_get_degree g =
     (let f = slot (g_meth g) ''group_get_degree'' in
      if f = ''0'' then 0
      else if f = ''ossl_ec_GFp_simple_group_get_degree'' then ossl_ec_GFp_simple_group_get_degree g
      else 0)"

definition EC_GROUP_check_discriminant :: "ec_group \<Rightarrow> bool \<Rightarrow> unit option" where
  "EC_GROUP_check_discriminant g ctx =
     (let f = slot (g_meth g) ''group_check_discriminant'' in
      if f = ''0'' then None
      else if f = ''ossl_ec_GFp_simple_group_check_discriminant''
      then ossl_ec_GFp_simple_group_check_discriminant g ctx
      else None)"

text \<open>\<open>ec_guess_cofactor\<close>: orders and fields are positive here, so halving and division truncate
  as \<open>div\<close> does.\<close>

definition ec_guess_cofactor :: "ec_group \<Rightarrow> bool \<Rightarrow> ec_group option" where
  "ec_guess_cofactor g ctx =
     (if z_num_bits (g_order g) \<le> (z_num_bits (g_field g) + 1) div 2 + 3
      then Some (g\<lparr>g_cofactor := 0\<rparr>)
      else if \<not> ctx then None
      else
        (let q = (if slot (g_meth g) ''field_type'' = ''NID_X9_62_characteristic_two_field''
                  then 2 ^ (z_num_bits (g_field g) - 1) else g_field g);
             c = g_order g div 2;
             c = c + q;
             c = c + 1
         in if g_order g = 0 then None
            else Some (g\<lparr>g_cofactor := c div g_order g\<rparr>)))"

definition ec_precompute_mont_data :: "ec_group \<Rightarrow> bool \<Rightarrow> ec_group option" where
  "ec_precompute_mont_data g ctx =
     (if \<not> ctx then None
      else do {
        mont \<leftarrow> BN_MONT_CTX_set (g_order g) ctx;
        Some (g\<lparr>g_mont_data := Some mont\<rparr>)
      })"

definition EC_GROUP_set_generator ::
  "ec_group \<Rightarrow> nat option \<Rightarrow> int option \<Rightarrow> int option \<Rightarrow> nat option \<Rightarrow> bool \<Rightarrow> ec_state \<Rightarrow> (ec_group \<times> ec_state) option" where
  "EC_GROUP_set_generator g generator order cofactor alloc ctx s =
     (case generator of None \<Rightarrow> None
      | Some generator \<Rightarrow>
      if g_field g = 0 \<or> g_field g < 0 then None
      else case order of None \<Rightarrow> None
      | Some order \<Rightarrow>
      if order = 0 \<or> order < 0 \<or> z_num_bits order > z_num_bits (g_field g) + 1 then None
      else if (case cofactor of None \<Rightarrow> False | Some c \<Rightarrow> c < 0) then None
      else do {
        (gen, s) \<leftarrow> (case g_generator g of None \<Rightarrow> EC_POINT_new g alloc s | Some gen \<Rightarrow> Some (gen, s));
        let g = g\<lparr>g_generator := Some gen\<rparr>;
        s \<leftarrow> EC_POINT_copy gen generator s;
        let g = g\<lparr>g_order := order\<rparr>;
        g \<leftarrow> (case cofactor of
            None \<Rightarrow> ec_guess_cofactor g ctx
          | Some c \<Rightarrow> if c \<noteq> 0 then Some (g\<lparr>g_cofactor := c\<rparr>) else ec_guess_cofactor g ctx);
        g \<leftarrow> (if odd (g_order g) then ec_precompute_mont_data g ctx else Some (g\<lparr>g_mont_data := None\<rparr>));
        Some (g, s)
      })"

text \<open>The getters copy the value out and report failure for zero.\<close>

definition EC_GROUP_get_order :: "ec_group \<Rightarrow> int \<times> bool" where
  "EC_GROUP_get_order g = (g_order g, g_order g \<noteq> 0)"

definition EC_GROUP_get_cofactor :: "ec_group \<Rightarrow> int \<times> bool" where
  "EC_GROUP_get_cofactor g = (g_cofactor g, g_cofactor g \<noteq> 0)"

definition ossl_ec_group_simple_order_bits :: "ec_group \<Rightarrow> nat" where
  "ossl_ec_group_simple_order_bits g = z_num_bits (g_order g)"

definition EC_GROUP_order_bits :: "ec_group \<Rightarrow> nat" where
  "EC_GROUP_order_bits g =
     (if slot (g_meth g) ''group_order_bits'' = ''ossl_ec_group_simple_order_bits''
      then ossl_ec_group_simple_order_bits g else 0)"

section \<open>Comparison and copying\<close>

text \<open>\<open>None\<close>: a generator is missing and \<open>EC_POINT_cmp\<close> dereferences it.\<close>

definition EC_GROUP_cmp :: "ec_group \<Rightarrow> ec_group \<Rightarrow> bool \<Rightarrow> ec_state \<Rightarrow> int option" where
  "EC_GROUP_cmp a b ctx s =
     (if slot (g_meth a) ''field_type'' \<noteq> slot (g_meth b) ''field_type'' then Some 1
      else if g_curve_name a \<noteq> 0 \<and> g_curve_name b \<noteq> 0 \<and> g_curve_name a \<noteq> g_curve_name b then Some 1
      else if slot (g_meth a) ''flags'' = ''EC_FLAGS_CUSTOM_CURVE'' then Some 0
      else if \<not> ctx then Some (- 1)
      else
        let r = (case (EC_GROUP_get_curve a ctx, EC_GROUP_get_curve b ctx) of
                  (Some ca, Some cb) \<Rightarrow> ca \<noteq> cb | _ \<Rightarrow> True)
        in if r then Some 1
           else case (g_generator a, g_generator b) of
             (Some ga, Some gb) \<Rightarrow>
               if EC_POINT_cmp a (heap s ga) (heap s gb) ctx \<noteq> 0 then Some 1
               else if g_order a \<noteq> g_order b then Some 1
               else if g_cofactor a \<noteq> 0 \<and> g_cofactor b \<noteq> 0 \<and> g_cofactor a \<noteq> g_cofactor b then Some 1
               else Some 0
           | _ \<Rightarrow> None)"

text \<open>\<open>dest\<close> and \<open>src\<close> are different objects; the seed and the Montgomery data are copied by value.\<close>

definition EC_GROUP_copy :: "ec_group \<Rightarrow> ec_group \<Rightarrow> nat option \<Rightarrow> ec_state \<Rightarrow> (ec_group \<times> ec_state) option" where
  "EC_GROUP_copy dest src alloc s =
     (let f = slot (g_meth dest) ''group_copy'' in
      if f = ''0'' then None
      else if g_meth dest \<noteq> g_meth src then None
      else do {
        let dest = dest\<lparr>g_curve_name := g_curve_name src, g_mont_data := g_mont_data src\<rparr>;
        (dest, s) \<leftarrow> (case g_generator src of
            None \<Rightarrow> Some (dest\<lparr>g_generator := None\<rparr>, s)
          | Some sg \<Rightarrow> do {
              (dg, s) \<leftarrow> (case g_generator dest of None \<Rightarrow> EC_POINT_new dest alloc s | Some dg \<Rightarrow> Some (dg, s));
              s \<leftarrow> EC_POINT_copy dg sg s;
              Some (dest\<lparr>g_generator := Some dg\<rparr>, s)
            });
        let dest = dest\<lparr>g_order := g_order src, g_cofactor := g_cofactor src\<rparr>;
        let dest = dest\<lparr>g_asn1_flag := g_asn1_flag src, g_asn1_form := g_asn1_form src,
          g_decoded_from_explicit_params := g_decoded_from_explicit_params src, g_seed := g_seed src\<rparr>;
        if f = ''ossl_ec_GFp_simple_group_copy'' then Some (ossl_ec_GFp_simple_group_copy dest src, s)
        else if f = ''ossl_ec_GFp_mont_group_copy'' then Some (ossl_ec_GFp_mont_group_copy dest src, s)
        else None
      })"

section \<open>Inversion modulo the order\<close>

definition ec_field_inverse_mod_ord :: "ec_group \<Rightarrow> int \<Rightarrow> bool \<Rightarrow> int option" where
  "ec_field_inverse_mod_ord g x ctx =
     (case g_mont_data g of None \<Rightarrow> None
      | Some mont \<Rightarrow>
          if \<not> ctx then None
          else (let e = g_order g - 2 in z_mod_exp_mont x e (g_order g) ctx (Some mont)))"

definition ossl_ec_group_do_inverse_ord :: "ec_group \<Rightarrow> int \<Rightarrow> bool \<Rightarrow> int option" where
  "ossl_ec_group_do_inverse_ord g x ctx =
     (if slot (g_meth g) ''field_inverse_mod_ord'' \<noteq> ''0'' then None
      else ec_field_inverse_mod_ord g x ctx)"

section \<open>What the curve parameters mean\<close>

lemmas new_ex_defs = ossl_ec_group_new_ex_def ossl_ec_GFp_simple_group_init_def
  ossl_ec_GFp_mont_group_init_def Let_def

lemma nonsingular_cong:
  assumes "eqm p a a'" "eqm p b b'"
  shows "nonsingular p a b = nonsingular p a' b'"
proof -
  have "eqm p (4 * a ^ 3 + 27 * b ^ 2) (4 * a' ^ 3 + 27 * b' ^ 2)" by (intro eqm_intros assms)
  then show ?thesis by (auto simp: nonsingular_def eqm_def dvd_eq_mod_eq_0)
qed

lemma prime_small:
  assumes "prime_int p" "3 < p"
  shows "\<not> p dvd 4" "\<not> p dvd 27"
proof -
  have "\<not> p dvd 2" "\<not> p dvd 3" using assms(2) by (auto dest: zdvd_imp_le)
  moreover have "(4::int) = 2 * 2" "(27::int) = 3 * (3 * 3)" by simp_all
  ultimately show "\<not> p dvd 4" "\<not> p dvd 27"
    using prime_int_dvd_mult [OF assms(1)] by metis+
qed

context ec_field begin

lemma decode_eq:
  assumes v: "valid g" and x: "red (g_field g) x"
  shows "(if has_slot g ''field_decode'' then field_decode g x True else Some x) = Some ((x * fac g) mod g_field g)"
proof (cases "has_slot g ''field_encode''")
  case True
  with decode_law [OF v True x] same_slots [OF v] show ?thesis by simp
next
  case False
  then show ?thesis using plain_law [OF v False] same_slots [OF v] x by (simp add: red_def)
qed

lemma get_curve_ret:
  assumes v: "valid g"
  shows "ossl_ec_GFp_simple_group_get_curve g True =
    Some (g_field g, (g_a g * fac g) mod g_field g, (g_b g * fac g) mod g_field g)"
  using decode_eq [OF v] curve_red [OF v] by (auto simp: ossl_ec_GFp_simple_group_get_curve_def split: if_splits)

lemma check_discriminant_correct:
  assumes v: "valid g"
  shows "ossl_ec_GFp_simple_group_check_discriminant g True =
    (if nonsingular (g_field g) (g_a g * fac g) (g_b g * fac g) then Some () else None)"
proof -
  let ?p = "g_field g"
  define a where "a = (g_a g * fac g) mod ?p"
  define b where "b = (g_b g * fac g) mod ?p"
  note p = field_prime [OF v] field_gt_3 [OF v]
  have ns: "nonsingular ?p (g_a g * fac g) (g_b g * fac g) = nonsingular ?p a b"
    by (intro nonsingular_cong) (simp_all add: a_def b_def eqm_def)
  have ab: "a = 0 \<longleftrightarrow> ?p dvd a" "b = 0 \<longleftrightarrow> ?p dvd b"
    by (simp_all add: a_def b_def dvd_eq_mod_eq_0)
  have red: "red ?p (g_a g)" "red ?p (g_b g)" using curve_red [OF v] by simp_all
  note dec = decode_eq [OF v red(1), folded a_def] decode_eq [OF v red(2), folded b_def]
  have sq: "?p dvd a ^ 3 \<longleftrightarrow> ?p dvd a" "?p dvd b ^ 2 \<longleftrightarrow> ?p dvd b"
    by (simp_all add: power2_eq_square power3_eq_cube prime_int_dvd_mult [OF p(1)])
  have run: "ossl_ec_GFp_simple_group_check_discriminant g True =
    (if a = 0 then (if b = 0 then None else Some ())
     else if b \<noteq> 0 then (if (4 * a ^ 3 + 27 * b ^ 2) mod ?p = 0 then None else Some ())
     else Some ())"
  proof -
    have "(a * a mod ?p * a mod ?p * 4 + b * b mod ?p * 27) mod ?p = (4 * a ^ 3 + 27 * b ^ 2) mod ?p"
    proof -
      have "eqm ?p (a * a mod ?p * a mod ?p * 4 + b * b mod ?p * 27) (a * a * a * 4 + b * b * 27)"
        by (intro eqm_intros | simp add: eqm_mod_left)+
      also have "\<dots> = 4 * a ^ 3 + 27 * b ^ 2" by (simp add: power2_eq_square power3_eq_cube)
      finally show ?thesis by (simp add: eqm_def)
    qed
    with p(2) show ?thesis
      unfolding ossl_ec_GFp_simple_group_check_discriminant_def dec
      by (simp add: Let_def z_mod_sqr_red z_mod_mul_red z_mod_add_def z_nnmod_eq)
  qed
  show ?thesis
  proof (cases "a = 0 \<or> b = 0")
    case True
    then show ?thesis
      unfolding ns unfolding nonsingular_def run
      using prime_small [OF p] ab sq by (auto simp: prime_int_dvd_mult [OF p(1)])
  qed (unfold ns, simp add: run nonsingular_def dvd_eq_mod_eq_0)
qed

end

lemma gfp_curve_slots: "gfp_valid g \<Longrightarrow>
    EC_GROUP_get_curve g ctx = ossl_ec_GFp_simple_group_get_curve g ctx \<and>
    EC_GROUP_check_discriminant g ctx = ossl_ec_GFp_simple_group_check_discriminant g ctx \<and>
    EC_GROUP_get_degree g = ossl_ec_GFp_simple_group_get_degree g \<and>
    ossl_ec_group_do_inverse_ord g x ctx = ec_field_inverse_mod_ord g x ctx"
  using gfp.meth_law [of g]
  by (auto simp: EC_GROUP_get_curve_def EC_GROUP_check_discriminant_def EC_GROUP_get_degree_def
      ossl_ec_group_do_inverse_ord_def Let_def)

lemma set_curve_gfp:
  assumes "g_meth g = M_GFp_simple \<or> g_meth g = M_GFp_mont" "prime_int p" "3 < p"
  shows "\<exists>g'. EC_GROUP_set_curve g p a b True = Some g' \<and> gfp_valid g' \<and> g_field g' = p \<and>
    eqm p (g_a g' * gfp_fac g') a \<and> eqm p (g_b g' * gfp_fac g') b"
  using assms(1)
proof
  assume m: "g_meth g = M_GFp_simple"
  obtain g' where g': "EC_GROUP_set_curve g p a b True = Some g'" "simple_valid g'" "g_field g' = p"
    "g_a g' = a mod p" "g_b g' = b mod p" using set_curve_simple [OF m assms(2,3), of a b] by blast
  then have "gfp_fac g' = 1" by (simp add: gfp_fac_def simple_valid_def)
  with g' show ?thesis by (auto simp: gfp_valid_def eqm_mod_left)
next
  assume m: "g_meth g = M_GFp_mont"
  obtain g' where g': "EC_GROUP_set_curve g p a b True = Some g'" "mont_valid g'" "g_field g' = p"
    "eqm p (g_a g' * mont_fac g') a" "eqm p (g_b g' * mont_fac g') b"
    using set_curve_mont [OF m assms(2,3), of a b] by blast
  then have "gfp_fac g' = mont_fac g'" by (simp add: gfp_fac_def mont_valid_def)
  with g' show ?thesis by (auto simp: gfp_valid_def)
qed

text \<open>
Setting a curve and reading it back: for both field representations \<open>EC_GROUP_set_curve\<close>
accepts every prime above 3 and builds a valid group, \<open>EC_GROUP_get_curve\<close> returns the prime and
the coefficients reduced modulo it, whatever Montgomery form they were stored in, and the degree is
the bit length of the prime.
\<close>

theorem EC_GROUP_curve_round_trip:
  assumes "g_meth g = M_GFp_simple \<or> g_meth g = M_GFp_mont" "prime_int p" "3 < p"
  shows "returns (EC_GROUP_set_curve g p a b True) (\<lambda>g'. gfp_valid g' \<and>
    EC_GROUP_get_curve g' True = Some (p, a mod p, b mod p) \<and> EC_GROUP_get_degree g' = z_num_bits p)"
proof -
  obtain g' where g': "EC_GROUP_set_curve g p a b True = Some g'" "gfp_valid g'" "g_field g' = p"
    "eqm p (g_a g' * gfp_fac g') a" "eqm p (g_b g' * gfp_fac g') b"
    using set_curve_gfp [OF assms, of a b] by blast
  with gfp_curve_slots [of g' True] show ?thesis
    by (simp add: gfp.get_curve_ret eqm_def ossl_ec_GFp_simple_group_get_degree_def)
qed

theorem EC_GROUP_curve_round_trip_witness:
  "returns (EC_GROUP_set_curve (the (ossl_ec_group_new_ex M_GFp_mont)) 11 12 (- 5) True) (\<lambda>g'. gfp_valid g' \<and>
    EC_GROUP_get_curve g' True = Some (11, 1, 6) \<and> EC_GROUP_get_degree g' = z_num_bits 11)"
proof -
  have "prime_int 11" by code_simp
  moreover have "g_meth (the (ossl_ec_group_new_ex M_GFp_mont)) = M_GFp_mont" by (simp add: new_ex_defs)
  ultimately show ?thesis using EC_GROUP_curve_round_trip [of _ 11 12 "- 5"] by simp
qed

text \<open>
\<open>EC_GROUP_check_discriminant\<close> accepts exactly the nonsingular curves: it succeeds iff the prime
does not divide \<open>4 a\<^sup>3 + 27 b\<^sup>2\<close>, including the shortcuts for \<open>a = 0\<close> and \<open>b = 0\<close>.
\<close>

theorem EC_GROUP_check_discriminant_correct:
  assumes "gfp_valid g"
  shows "EC_GROUP_check_discriminant g True =
    (if nonsingular (g_field g) (curve_A g) (curve_B g) then Some () else None)"
  using gfp.check_discriminant_correct [OF assms] gfp_curve_slots [OF assms]
  by (simp add: curve_A_def curve_B_def)

theorem EC_GROUP_check_discriminant_correct_witness:
  "EC_GROUP_check_discriminant ((the (ossl_ec_group_new_ex M_GFp_simple))\<lparr>g_field := 11, g_a := 8, g_b := 2, g_a_is_minus3 := True\<rparr>) True = None"
proof -
  let ?g = "(the (ossl_ec_group_new_ex M_GFp_simple))\<lparr>g_field := 11, g_a := 8, g_b := 2, g_a_is_minus3 := True\<rparr>"
  have f: "g_meth ?g = M_GFp_simple" "g_field ?g = 11" "g_a ?g = 8" "g_b ?g = 2" "g_a_is_minus3 ?g"
    by (simp_all add: new_ex_defs)
  have "prime_int 11" by code_simp
  then have v: "gfp_valid ?g" using f by (simp add: gfp_valid_def simple_valid_def red_def)
  have "curve_A ?g = 8" "curve_B ?g = 2" using f by (simp_all add: curve_A_def curve_B_def gfp_fac_def)
  with EC_GROUP_check_discriminant_correct [OF v] f(2) show ?thesis by (simp add: nonsingular_def)
qed

section \<open>The cofactor\<close>

lemma order_bits_bound:
  assumes "0 < q" "0 < n" "(z_num_bits q + 1) div 2 + 3 < z_num_bits n"
  shows "64 * q < n * n"
proof -
  let ?k = "(z_num_bits q + 1) div 2"
  have "nat q < 2 ^ z_num_bits q" using nat_bits_bounds(1) [of "nat q"] assms(1) by (simp add: z_num_bits_def)
  also have "(2::nat) ^ z_num_bits q \<le> 2 ^ (2 * ?k)" by (rule power_increasing) auto
  finally have q: "nat q < 2 ^ ?k * 2 ^ ?k" by (simp add: mult_2 power_add)
  have "(2::nat) ^ (?k + 3) \<le> 2 ^ (z_num_bits n - 1)" using assms(3) by (intro power_increasing) auto
  also have "\<dots> \<le> nat n" using nat_bits_bounds(2) [of "nat n"] assms(2) by (simp add: z_num_bits_def)
  finally have n: "2 ^ ?k * 8 \<le> nat n" by (simp add: power_add)
  have "64 * nat q < (2 ^ ?k * 8) * (2 ^ ?k * 8)" using q by simp
  also have "\<dots> \<le> nat n * nat n" using n by (intro mult_mono) simp_all
  finally have "int (64 * nat q) < int (nat n * nat n)" by (simp only: of_nat_less_iff)
  then show ?thesis using assms(1,2) by simp
qed

text \<open>
\<open>ec_guess_cofactor\<close> finds the cofactor of every curve over a prime field: whenever the order is
long enough for the guess and \<open>n h\<close> lies in the Hasse interval around \<open>q + 1\<close>, the rounded division
yields exactly \<open>h\<close>.
\<close>

theorem ec_guess_cofactor_hasse:
  assumes "slot (g_meth g) ''field_type'' = ''NID_X9_62_prime_field''"
    "0 < g_field g" "0 < g_order g"
    "(z_num_bits (g_field g) + 1) div 2 + 3 < z_num_bits (g_order g)"
    "(g_field g + 1 - g_order g * h)\<^sup>2 \<le> 4 * g_field g"
  shows "ec_guess_cofactor g True = Some (g\<lparr>g_cofactor := h\<rparr>)"
proof -
  define n q d where "n = g_order g" "q = g_field g" "d = q + 1 - n * h"
  have nq: "64 * q < n * n" unfolding n_q_d_def by (rule order_bits_bound [OF assms(2,3,4)])
  have "(4 * \<bar>d\<bar>)\<^sup>2 \<le> 16 * (4 * q)" using assms(5) by (simp add: n_q_d_def power_mult_distrib)
  also have "\<dots> < n\<^sup>2" using nq by (simp add: power2_eq_square)
  finally have d: "4 * \<bar>d\<bar> < n" using assms(3) by (intro power2_less_imp_less [of _ n]) (simp_all add: n_q_d_def)
  have "(n div 2 + q + 1) div n = h"
  proof (rule int_div_pos_eq)
    show "n div 2 + q + 1 = n * h + (n div 2 + d)" by (simp add: n_q_d_def)
  qed (use d in linarith)+
  with assms show ?thesis by (simp add: ec_guess_cofactor_def Let_def n_q_d_def)
qed

theorem ec_guess_cofactor_hasse_witness:
  "ec_guess_cofactor ((the (ossl_ec_group_new_ex M_GFp_simple))\<lparr>g_field := 1009, g_order := 509\<rparr>) True =
   Some ((the (ossl_ec_group_new_ex M_GFp_simple))\<lparr>g_field := 1009, g_order := 509, g_cofactor := 2\<rparr>)"
proof -
  let ?g = "(the (ossl_ec_group_new_ex M_GFp_simple))\<lparr>g_field := 1009, g_order := 509\<rparr>"
  have "(z_num_bits 1009 + 1) div 2 + 3 < z_num_bits 509" by code_simp
  moreover have "g_meth ?g = M_GFp_simple" by (simp add: new_ex_defs)
  ultimately show ?thesis using ec_guess_cofactor_hasse [of ?g 2] by simp
qed

section \<open>Inverses modulo the order\<close>

lemma set_generator_order:
  "EC_GROUP_set_generator g gen (Some n) c alloc True s = Some (g', s') \<Longrightarrow> odd n \<Longrightarrow>
   0 < n \<and> g_order g' = n \<and> g_meth g' = g_meth g \<and> g_mont_data g' = BN_MONT_CTX_set n True"
  by (auto simp: EC_GROUP_set_generator_def ec_precompute_mont_data_def ec_guess_cofactor_def
      bind_eq_Some_conv Let_def split: option.splits if_splits)

end
