(* ===== verification/Ec_Coords.thy ===== *)
theory Ec_Coords
  imports Ec_Curve
begin

text \<open>
  Coordinates (\<open>ecp_smpl.c\<close> 399-679, 1421-1641, 1702-1752, and the calls of \<open>ec_lib.c\<close>): setting and
  reading projective and affine coordinates, normalising one point or an array of points with a
  single inversion, and blinding. A null pointer for an optional argument is \<open>None\<close> or \<open>False\<close>.
\<close>

section \<open>Setting and reading coordinates\<close>

definition set_coord :: "ec_group \<Rightarrow> int \<Rightarrow> bool \<Rightarrow> int option" where
  "set_coord g x ctx = do {
     v \<leftarrow> z_nnmod x (g_field g);
     (if has_slot g ''field_encode'' then field_encode g v ctx else Some v)
   }"

definition ossl_ec_GFp_simple_set_Jprojective_coordinates_GFp ::
  "ec_group \<Rightarrow> nat \<Rightarrow> int option \<Rightarrow> int option \<Rightarrow> int option \<Rightarrow> bool \<Rightarrow> ec_state \<Rightarrow> ec_state option" where
  "ossl_ec_GFp_simple_set_Jprojective_coordinates_GFp g point x y z ctx s =
     (if \<not> ctx then None
      else do {
        s \<leftarrow> (case x of None \<Rightarrow> Some s
              | Some x \<Rightarrow> do { v \<leftarrow> set_coord g x ctx; Some (wr_X point v s) });
        s \<leftarrow> (case y of None \<Rightarrow> Some s
              | Some y \<Rightarrow> do { v \<leftarrow> set_coord g y ctx; Some (wr_Y point v s) });
        (case z of None \<Rightarrow> Some s
         | Some z \<Rightarrow> do {
             v \<leftarrow> z_nnmod z (g_field g);
             let Z_is_one = (v = 1);
             v \<leftarrow> (if has_slot g ''field_encode'' then
                     (if Z_is_one \<and> has_slot g ''field_set_to_one'' then field_set_to_one g ctx
                      else field_encode g v ctx)
                   else Some v);
             Some (wr_Z_is_one point Z_is_one (wr_Z point v s))
           })
      })"

definition EC_POINT_set_Jprojective_coordinates_GFp ::
  "ec_group \<Rightarrow> nat \<Rightarrow> int option \<Rightarrow> int option \<Rightarrow> int option \<Rightarrow> bool \<Rightarrow> ec_state \<Rightarrow> ec_state option" where
  "EC_POINT_set_Jprojective_coordinates_GFp g point x y z ctx s =
     (if slot (g_meth g) ''field_type'' \<noteq> ''NID_X9_62_prime_field'' then None
      else if \<not> ec_point_is_compat (heap s point) g then None
      else ossl_ec_GFp_simple_set_Jprojective_coordinates_GFp g point x y z ctx s)"

text \<open>Reading: which of the outputs are wanted, and the values of those.\<close>

definition get_coord :: "ec_group \<Rightarrow> bool \<Rightarrow> int \<Rightarrow> bool \<Rightarrow> int option option" where
  "get_coord g wanted v ctx =
     (if \<not> wanted then Some None
      else if has_slot g ''field_decode'' then do { d \<leftarrow> field_decode g v ctx; Some (Some d) }
      else Some (Some v))"

definition ossl_ec_GFp_simple_get_Jprojective_coordinates_GFp ::
  "ec_group \<Rightarrow> ec_point \<Rightarrow> bool \<Rightarrow> bool \<Rightarrow> bool \<Rightarrow> bool \<Rightarrow> (int option \<times> int option \<times> int option) option" where
  "ossl_ec_GFp_simple_get_Jprojective_coordinates_GFp g point x y z ctx =
     (if has_slot g ''field_decode'' \<and> \<not> ctx then None
      else do {
        x \<leftarrow> get_coord g x (pX point) ctx;
        y \<leftarrow> get_coord g y (pY point) ctx;
        z \<leftarrow> get_coord g z (pZ point) ctx;
        Some (x, y, z)
      })"

definition EC_POINT_get_Jprojective_coordinates_GFp ::
  "ec_group \<Rightarrow> ec_point \<Rightarrow> bool \<Rightarrow> bool \<Rightarrow> bool \<Rightarrow> bool \<Rightarrow> (int option \<times> int option \<times> int option) option" where
  "EC_POINT_get_Jprojective_coordinates_GFp g point x y z ctx =
     (if slot (g_meth g) ''field_type'' \<noteq> ''NID_X9_62_prime_field'' then None
      else if \<not> ec_point_is_compat point g then None
      else ossl_ec_GFp_simple_get_Jprojective_coordinates_GFp g point x y z ctx)"

definition ossl_ec_GFp_simple_point_set_affine_coordinates ::
  "ec_group \<Rightarrow> nat \<Rightarrow> int option \<Rightarrow> int option \<Rightarrow> bool \<Rightarrow> ec_state \<Rightarrow> ec_state option" where
  "ossl_ec_GFp_simple_point_set_affine_coordinates g point x y ctx s =
     (if x = None \<or> y = None then None
      else EC_POINT_set_Jprojective_coordinates_GFp g point x y (Some 1) ctx s)"

definition EC_POINT_set_affine_coordinates ::
  "ec_group \<Rightarrow> nat \<Rightarrow> int option \<Rightarrow> int option \<Rightarrow> bool \<Rightarrow> ec_state \<Rightarrow> ec_state option" where
  "EC_POINT_set_affine_coordinates g point x y ctx s =
     (let f = slot (g_meth g) ''point_set_affine_coordinates'' in
      if f = ''0'' then None
      else if \<not> ec_point_is_compat (heap s point) g then None
      else do {
        s \<leftarrow> (if f = ''ossl_ec_GFp_simple_point_set_affine_coordinates''
              then ossl_ec_GFp_simple_point_set_affine_coordinates g point x y ctx s else None);
        (if EC_POINT_is_on_curve g (heap s point) ctx \<le> 0 then None else Some s)
      })"

text \<open>Division by \<open>Z\<^sup>2\<close> and \<open>Z\<^sup>3\<close>. The inverse is of the decoded \<open>Z\<close>, so in the Montgomery case its
  powers are plain and the multiplication with \<open>X\<close> and \<open>Y\<close> removes their factor.\<close>

definition affine_divide :: "ec_group \<Rightarrow> ec_point \<Rightarrow> int \<Rightarrow> bool \<Rightarrow> bool \<Rightarrow> bool \<Rightarrow> (int option \<times> int option) option" where
  "affine_divide g point Z_1 x y ctx = do {
     Z_2 \<leftarrow> (if \<not> has_slot g ''field_encode'' then field_sqr g Z_1 ctx else z_mod_sqr Z_1 (g_field g));
     x \<leftarrow> (if x then do { v \<leftarrow> field_mul g (pX point) Z_2 ctx; Some (Some v) } else Some None);
     y \<leftarrow> (if y then do {
            Z_3 \<leftarrow> (if \<not> has_slot g ''field_encode'' then field_mul g Z_2 Z_1 ctx
                    else z_mod_mul Z_2 Z_1 (g_field g) ctx);
            v \<leftarrow> field_mul g (pY point) Z_3 ctx;
            Some (Some v)
          } else Some None);
     Some (x, y)
   }"

definition ossl_ec_GFp_simple_point_get_affine_coordinates ::
  "ec_group \<Rightarrow> nat \<Rightarrow> bool \<Rightarrow> bool \<Rightarrow> bool \<Rightarrow> ec_state \<Rightarrow> ((int option \<times> int option) \<times> ec_state) option" where
  "ossl_ec_GFp_simple_point_get_affine_coordinates g pt x y ctx s =
     (let point = heap s pt in
      if EC_POINT_is_at_infinity g point then None
      else if \<not> ctx then None
      else do {
        Z0 \<leftarrow> (if has_slot g ''field_decode'' then field_decode g (pZ point) ctx else Some (pZ point));
        (if Z0 = 1 then do {
           x \<leftarrow> get_coord g x (pX point) ctx;
           y \<leftarrow> get_coord g y (pY point) ctx;
           Some ((x, y), s)
         }
         else do {
           (Z_1, rng') \<leftarrow> field_inv g Z0 (rng s) ctx;
           xy \<leftarrow> affine_divide g point Z_1 x y ctx;
           Some (xy, wr_rng rng' s)
         })
      })"

definition EC_POINT_get_affine_coordinates ::
  "ec_group \<Rightarrow> nat \<Rightarrow> bool \<Rightarrow> bool \<Rightarrow> bool \<Rightarrow> ec_state \<Rightarrow> ((int option \<times> int option) \<times> ec_state) option" where
  "EC_POINT_get_affine_coordinates g point x y ctx s =
     (let f = slot (g_meth g) ''point_get_affine_coordinates'' in
      if f = ''0'' then None
      else if \<not> ec_point_is_compat (heap s point) g then None
      else if EC_POINT_is_at_infinity g (heap s point) then None
      else if f = ''ossl_ec_GFp_simple_point_get_affine_coordinates''
      then ossl_ec_GFp_simple_point_get_affine_coordinates g point x y ctx s
      else None)"

section \<open>Normalising\<close>

definition ossl_ec_GFp_simple_make_affine :: "ec_group \<Rightarrow> nat \<Rightarrow> bool \<Rightarrow> ec_state \<Rightarrow> ec_state option" where
  "ossl_ec_GFp_simple_make_affine g point ctx s =
     (if Z1of s point \<or> EC_POINT_is_at_infinity g (heap s point) then Some s
      else if \<not> ctx then None
      else do {
        ((x, y), s) \<leftarrow> EC_POINT_get_affine_coordinates g point True True ctx s;
        s \<leftarrow> EC_POINT_set_affine_coordinates g point x y ctx s;
        (if \<not> Z1of s point then None else Some s)
      })"

definition EC_POINT_make_affine :: "ec_group \<Rightarrow> nat \<Rightarrow> bool \<Rightarrow> ec_state \<Rightarrow> ec_state option" where
  "EC_POINT_make_affine g point ctx s =
     (let f = slot (g_meth g) ''make_affine'' in
      if f = ''0'' then None
      else if \<not> ec_point_is_compat (heap s point) g then None
      else if f = ''ossl_ec_GFp_simple_make_affine'' then ossl_ec_GFp_simple_make_affine g point ctx s
      else None)"

text \<open>The value one in the representation of the field.\<close>

definition field_one :: "ec_group \<Rightarrow> bool \<Rightarrow> int option" where
  "field_one g ctx = (if has_slot g ''field_set_to_one'' then field_set_to_one g ctx else Some 1)"

text \<open>\<open>prod_Z[i]\<close> for \<open>i > 0\<close>: the running product, zeros skipped.\<close>

fun prod_Z_loop :: "ec_group \<Rightarrow> bool \<Rightarrow> ec_state \<Rightarrow> int \<Rightarrow> nat list \<Rightarrow> int list option" where
  "prod_Z_loop g ctx s prev [] = Some []"
| "prod_Z_loop g ctx s prev (p # ps) = do {
     v \<leftarrow> (if Zof s p \<noteq> 0 then field_mul g prev (Zof s p) ctx else Some prev);
     vs \<leftarrow> prod_Z_loop g ctx s v ps;
     Some (v # vs)
   }"

text \<open>From the last point down to the second: the pairs of \<open>prod_Z[i - 1]\<close> and \<open>points[i]\<close>.\<close>

fun inv_Z_loop :: "ec_group \<Rightarrow> bool \<Rightarrow> int \<Rightarrow> (int \<times> nat) list \<Rightarrow> ec_state \<Rightarrow> (int \<times> ec_state) option" where
  "inv_Z_loop g ctx tmp [] s = Some (tmp, s)"
| "inv_Z_loop g ctx tmp ((prev, p) # rest) s =
     (if Zof s p \<noteq> 0 then do {
        tmp_Z \<leftarrow> field_mul g prev tmp ctx;
        tmp' \<leftarrow> field_mul g tmp (Zof s p) ctx;
        inv_Z_loop g ctx tmp' rest (wr_Z p tmp_Z s)
      }
      else inv_Z_loop g ctx tmp rest s)"

fun scale_loop :: "ec_group \<Rightarrow> bool \<Rightarrow> nat list \<Rightarrow> ec_state \<Rightarrow> ec_state option" where
  "scale_loop g ctx [] s = Some s"
| "scale_loop g ctx (p # ps) s =
     (if Zof s p \<noteq> 0 then do {
        tmp \<leftarrow> field_sqr g (Zof s p) ctx;
        x \<leftarrow> field_mul g (Xof s p) tmp ctx;
        let s = wr_X p x s;
        tmp \<leftarrow> field_mul g tmp (Zof s p) ctx;
        y \<leftarrow> field_mul g (Yof s p) tmp ctx;
        let s = wr_Y p y s;
        one \<leftarrow> field_one g ctx;
        scale_loop g ctx ps (wr_Z_is_one p True (wr_Z p one s))
      }
      else scale_loop g ctx ps s)"

definition ossl_ec_GFp_simple_points_make_affine :: "ec_group \<Rightarrow> nat list \<Rightarrow> bool \<Rightarrow> ec_state \<Rightarrow> ec_state option" where
  "ossl_ec_GFp_simple_points_make_affine g points ctx s =
     (case points of
        [] \<Rightarrow> Some s
      | p0 # ps \<Rightarrow>
          if \<not> ctx then None
          else do {
            v0 \<leftarrow> (if Zof s p0 \<noteq> 0 then Some (Zof s p0) else field_one g ctx);
            vs \<leftarrow> prod_Z_loop g ctx s v0 ps;
            let prod_Z = v0 # vs;
            (tmp, rng') \<leftarrow> field_inv g (last prod_Z) (rng s) ctx;
            let s = wr_rng rng' s;
            tmp \<leftarrow> (if has_slot g ''field_encode'' then do {
                tmp \<leftarrow> field_encode g tmp ctx;
                field_encode g tmp ctx
              } else Some tmp);
            (tmp, s) \<leftarrow> inv_Z_loop g ctx tmp (rev (zip prod_Z ps)) s;
            let s = (if Zof s p0 \<noteq> 0 then wr_Z p0 tmp s else s);
            scale_loop g ctx points s
          })"

definition EC_POINTs_make_affine :: "ec_group \<Rightarrow> nat list \<Rightarrow> bool \<Rightarrow> ec_state \<Rightarrow> ec_state option" where
  "EC_POINTs_make_affine g points ctx s =
     (let f = slot (g_meth g) ''points_make_affine'' in
      if f = ''0'' then None
      else if \<not> list_all (\<lambda>p. ec_point_is_compat (heap s p) g) points then None
      else if f = ''ossl_ec_GFp_simple_points_make_affine''
      then ossl_ec_GFp_simple_points_make_affine g points ctx s
      else None)"

section \<open>Blinding\<close>

text \<open>
  The return value is the one the random generator gave, so a field operation that fails after
  it still reports success, with the coordinates written so far.
\<close>

definition ossl_ec_GFp_simple_blind_coordinates :: "ec_group \<Rightarrow> nat \<Rightarrow> bool \<Rightarrow> ec_state \<Rightarrow> ec_state option" where
  "ossl_ec_GFp_simple_blind_coordinates g p ctx s =
     (if \<not> ctx then None
      else case rand_nonzero (rng s) of
        None \<Rightarrow> Some (wr_rng [] s)
      | Some (lambda, rng') \<Rightarrow>
        let s = wr_rng rng' s in
        case (if has_slot g ''field_encode'' then field_encode g lambda ctx else Some lambda) of
          None \<Rightarrow> Some s
        | Some lambda \<Rightarrow>
        case field_mul g (Zof s p) lambda ctx of
          None \<Rightarrow> Some s
        | Some z \<Rightarrow>
        let s = wr_Z p z s in
        case field_sqr g lambda ctx of
          None \<Rightarrow> Some s
        | Some temp \<Rightarrow>
        case field_mul g (Xof s p) temp ctx of
          None \<Rightarrow> Some s
        | Some x \<Rightarrow>
        let s = wr_X p x s in
        case field_mul g temp lambda ctx of
          None \<Rightarrow> Some s
        | Some temp \<Rightarrow>
        case field_mul g (Yof s p) temp ctx of
          None \<Rightarrow> Some s
        | Some y \<Rightarrow> Some (wr_Z_is_one p False (wr_Y p y s)))"

definition ossl_ec_point_blind_coordinates :: "ec_group \<Rightarrow> nat \<Rightarrow> bool \<Rightarrow> ec_state \<Rightarrow> ec_state option" where
  "ossl_ec_point_blind_coordinates g p ctx s =
     (let f = slot (g_meth g) ''blind_coordinates'' in
      if f = ''0'' then Some s
      else if f = ''ossl_ec_GFp_simple_blind_coordinates'' then ossl_ec_GFp_simple_blind_coordinates g p ctx s
      else None)"

end
