(* ===== verification/Ec_Coords_Correct.thy ===== *)
theory Ec_Coords_Correct
  imports Ec_Coords
begin

text \<open>
  What the coordinate routines do to the points they stand for: reading returns the affine
  coordinates, setting succeeds exactly on the curve, normalising and blinding change the
  coordinates and keep the point.
\<close>

context ec_field
begin

lemma dec_rp:
  assumes "valid g" "rp g z e"
  shows "(if has_slot g ''field_decode'' then field_decode g z True else Some z) = Some (e mod g_field g)"
  using decode_eq [OF assms(1), of z] assms by (simp add: frep_def eqm_def)

lemma get_coord_rp:
  assumes "valid g" "rp g z e"
  shows "get_coord g w z True = Some (if w then Some (e mod g_field g) else None)"
  using dec_rp [OF assms] by (auto simp: get_coord_def split: if_splits)

lemma enc_rp:
  assumes v: "valid g" and x: "red (g_field g) x" and e: "eqm (g_field g) x e"
  shows "returns (if has_slot g ''field_encode'' then field_encode g x True else Some x) (\<lambda>z. rp g z e)"
proof (cases "has_slot g ''field_encode''")
  case True
  with encode_law [OF v True x] e show ?thesis by (auto simp: frep_def intro: eqm_trans)
next
  case False
  with plain_law [OF v False] x e show ?thesis by (simp add: frep_def)
qed

lemma red_mod_field: "valid g \<Longrightarrow> red (g_field g) (x mod g_field g)" "eqm (g_field g) (x mod g_field g) x"
  using pos [of g] by (simp_all add: eqm_def)

lemma set_coord_ret:
  assumes v: "valid g"
  shows "returns (set_coord g x True) (\<lambda>z. rp g z x)"
  using enc_rp [OF v red_mod_field(1) [OF v] red_mod_field(2)] pos [OF v]
  by (simp add: set_coord_def z_nnmod_eq)

lemma field_one_ret:
  assumes v: "valid g"
  shows "returns (field_one g True) (\<lambda>z. rp g z 1)"
proof (cases "has_slot g ''field_encode''")
  case True
  with one_law [OF v] same_slots [OF v] show ?thesis by (auto simp: field_one_def frep_def)
next
  case False
  with plain_law [OF v False] same_slots [OF v] field_gt_3 [OF v] show ?thesis
    by (simp add: field_one_def frep_def red_def)
qed

text \<open>Setting projective coordinates.\<close>

lemma set_Jprojective_ret:
  assumes v: "valid g"
  shows "returns (ossl_ec_GFp_simple_set_Jprojective_coordinates_GFp g r (Some x) (Some y) (Some z) True s)
    (\<lambda>s'. frame r s s' \<and> rng s' = rng s \<and> p_curve_name (heap s' r) = p_curve_name (heap s r) \<and>
      rp g (Xof s' r) x \<and> rp g (Yof s' r) y \<and> rp g (Zof s' r) z \<and> (Z1of s' r \<longleftrightarrow> z mod g_field g = 1))"
proof -
  let ?p = "g_field g"
  have z: "returns (if has_slot g ''field_encode'' then
      (if z mod ?p = 1 \<and> has_slot g ''field_set_to_one'' then field_set_to_one g True
       else field_encode g (z mod ?p) True) else Some (z mod ?p)) (\<lambda>w. rp g w z)"
  proof (cases "has_slot g ''field_encode'' \<and> z mod ?p = 1 \<and> has_slot g ''field_set_to_one''")
    case True
    then have "eqm ?p 1 z" by (metis eqm_def mod_mod_trivial)
    with True field_one_ret [OF v] show ?thesis
      by (simp add: field_one_def) (elim returns_mono frep_cong, simp)
  next
    case False
    with enc_rp [OF v red_mod_field(1) [OF v] red_mod_field(2), of z] show ?thesis
      by (auto split: if_splits)
  qed
  have one: "(1::int) mod ?p = 1" using field_gt_3 [OF v] by simp
  show ?thesis
    unfolding ossl_ec_GFp_simple_set_Jprojective_coordinates_GFp_def
    apply (simp only: option.case if_False if_True not_True_eq_False Let_def returns_bind returns_Some z_nnmod_eq [OF pos [OF v]] bind.bind_lunit)
    apply (rule returns_mono [OF set_coord_ret [OF v, of x]])
    apply (rule returns_mono [OF set_coord_ret [OF v, of y]])
    apply (rule returns_mono)
     apply (rule z)
    apply (simp add: frame_def)
    done
qed

text \<open>Reading affine coordinates.\<close>

lemma ret_mixed:
  assumes v: "valid g" and x: "rp g x a" and w: "red (g_field g) w"
  shows "field_mul g x w True = Some ((a * w) mod g_field g)"
proof -
  have "eqm (g_field g) (x * fac g * w) (a * w)" using x by (intro eqm_intros) (simp add: frep_def)
  then show ?thesis using mul_law [OF v frep_red [OF x] w] by (simp add: eqm_def mult_ac)
qed

lemma affine_divide_ret:
  assumes v: "valid g" and X: "rp g (pX pt) (x * z ^ 2)" and Y: "rp g (pY pt) (y * z ^ 3)"
    and r: "red (g_field g) x" "red (g_field g) y" "red (g_field g) i" and i: "eqm (g_field g) (i * z) 1"
  shows "affine_divide g pt i wx wy True = Some (if wx then Some x else None, if wy then Some y else None)"
proof -
  let ?p = "g_field g"
  let ?Z2 = "(i * i) mod ?p" and ?Z3 = "((i * i) mod ?p * i) mod ?p"
  have rz: "red ?p ?Z2" "red ?p ?Z3" using red_mod_field(1) [OF v] by blast+
  have Z2: "(if \<not> has_slot g ''field_encode'' then field_sqr g i True else z_mod_sqr i ?p) = Some ?Z2"
    using sqr_law [OF v r(3)] plain_law [OF v] pos [OF v] by (simp add: z_mod_sqr_red)
  have Z3: "(if \<not> has_slot g ''field_encode'' then field_mul g ?Z2 i True else z_mod_mul ?Z2 i ?p True) = Some ?Z3"
    using mul_law [OF v rz(1) r(3)] plain_law [OF v] pos [OF v] by (simp add: z_mod_mul_red)
  have "eqm ?p (x * z ^ 2 * ?Z2) (x * z ^ 2 * (i * i))" by (intro eqm_intros red_mod_field)
  also have "x * z ^ 2 * (i * i) = x * (i * z) ^ 2" by algebra
  also have "eqm ?p \<dots> (x * 1 ^ 2)" by (intro eqm_intros i)
  finally have x2: "(x * z ^ 2 * ?Z2) mod ?p = x" using r(1) by (simp add: eqm_def red_def)
  have "eqm ?p ?Z3 (?Z2 * i)" by (rule red_mod_field)
  also have "eqm ?p \<dots> (i * i * i)" by (intro eqm_intros red_mod_field)
  finally have "eqm ?p (y * z ^ 3 * ?Z3) (y * z ^ 3 * (i * i * i))" by (intro eqm_intros)
  also have "y * z ^ 3 * (i * i * i) = y * (i * z) ^ 3" by algebra
  also have "eqm ?p \<dots> (y * 1 ^ 3)" by (intro eqm_intros i)
  finally have y3: "(y * z ^ 3 * ?Z3) mod ?p = y" using r(2) by (simp add: eqm_def red_def)
  show ?thesis
    unfolding affine_divide_def Z2 bind.bind_lunit Z3
    using ret_mixed [OF v X rz(1)] ret_mixed [OF v Y rz(2)] x2 y3 by (simp del: mod_mult_left_eq mod_mult_right_eq)
qed

lemma get_affine_ret:
  assumes v: "valid g" and cp: "ec_point_is_compat (heap s r) g" and ok: "pt_ok (g_field g) (fac g) (heap s r)"
    and J: "jac_rep (g_field g) (fac g) (heap s r) (Aff x y)" and av: "rng_avail g (Suc n) (rng s)"
  shows "returns (ossl_ec_GFp_simple_point_get_affine_coordinates g r wx wy True s)
    (\<lambda>(xy, s'). xy = (if wx then Some x else None, if wy then Some y else None) \<and>
      heap s' = heap s \<and> rng_avail g n (rng s'))"
proof -
  let ?p = "g_field g"
  define z where "z = zdec (fac g) (heap s r)"
  have Z: "Zof s r \<noteq> 0" and rd: "red ?p x" "red ?p y" using J by (simp_all add: jac_rep_def)
  have zu: "\<not> ?p dvd z" unfolding z_def by (rule zdec_unit [OF v ok Z])
  note c = jac_frep [OF ok J, folded z_def]
  have inf: "\<not> EC_POINT_is_at_infinity g (heap s r)" using infinity_iff [OF v cp] Z by simp
  have avn: "rng_avail g n (rng s)" using av by (simp add: rng_avail_def)
  show ?thesis
  proof (cases "z mod ?p = 1")
    case True
    then have z1: "eqm ?p z 1" by (metis eqm_def mod_mod_trivial)
    have "eqm ?p (x * z ^ 2) (x * 1 ^ 2)" "eqm ?p (y * z ^ 3) (y * 1 ^ 3)" by (intro eqm_intros z1)+
    then have xy: "(x * z ^ 2) mod ?p = x" "(y * z ^ 3) mod ?p = y" using rd by (simp_all add: eqm_def red_def)
    show ?thesis
      unfolding ossl_ec_GFp_simple_point_get_affine_coordinates_def Let_def dec_rp [OF v c(1)]
        get_coord_rp [OF v c(2)] get_coord_rp [OF v c(3)] xy
      using True inf avn by simp
  next
    case False
    have "z mod ?p \<noteq> 0" using zu by (simp add: dvd_eq_mod_eq_0)
    from inv_law [OF v red_mod_field(1) [OF v] this av] obtain i rng' where
      i: "field_inv g (z mod ?p) (rng s) True = Some (i, rng')" "red ?p i" "eqm ?p (i * (z mod ?p)) 1"
        "rng_avail g n rng'" by blast
    have "eqm ?p (i * z) (i * (z mod ?p))" by (intro eqm_intros eqm_sym [OF red_mod_field(2)])
    then have iz: "eqm ?p (i * z) 1" using i(3) by (rule eqm_trans)
    show ?thesis
      unfolding ossl_ec_GFp_simple_point_get_affine_coordinates_def Let_def dec_rp [OF v c(1)]
      using False inf i(1,4) by (simp add: heap_wr affine_divide_ret [OF v c(2,3) rd i(2) iz])
  qed
qed

lemma on_curve_slot: "valid g \<Longrightarrow> ec_point_is_compat pt g \<Longrightarrow>
    EC_POINT_is_on_curve g pt ctx = ossl_ec_GFp_simple_is_on_curve g pt ctx"
  using meth_law [of g] by (auto simp: EC_POINT_is_on_curve_def Let_def)

lemma get_affine_infinity: "EC_POINT_is_at_infinity g (heap s r) \<Longrightarrow>
    ossl_ec_GFp_simple_point_get_affine_coordinates g r wx wy ctx s = None"
  by (simp add: ossl_ec_GFp_simple_point_get_affine_coordinates_def)

lemma coord_slots: "valid g \<Longrightarrow> ec_point_is_compat (heap s r) g \<Longrightarrow>
    EC_POINT_set_Jprojective_coordinates_GFp g r x y z ctx s =
      ossl_ec_GFp_simple_set_Jprojective_coordinates_GFp g r x y z ctx s \<and>
    EC_POINT_get_affine_coordinates g r wx wy ctx s =
      ossl_ec_GFp_simple_point_get_affine_coordinates g r wx wy ctx s \<and>
    EC_POINT_make_affine g r ctx s = ossl_ec_GFp_simple_make_affine g r ctx s"
  using meth_law [of g] get_affine_infinity [of g s r wx wy ctx]
  by (auto simp: EC_POINT_set_Jprojective_coordinates_GFp_def EC_POINT_get_affine_coordinates_def
      EC_POINT_make_affine_def Let_def)

lemma affine_pt:
  assumes v: "valid g" and X: "rp g (pX pt) x" and Y: "rp g (pY pt) y" and Z: "rp g (pZ pt) 1"
  shows "pt_ok (g_field g) (fac g) pt" "jac_rep (g_field g) (fac g) pt (Aff (x mod g_field g) (y mod g_field g))"
proof -
  show "pt_ok (g_field g) (fac g) pt" using X Y Z by (simp add: pt_ok_def frep_def)
  have "\<not> g_field g dvd 1" using field_gt_3 [OF v] by (auto dest: zdvd_imp_le)
  with X Y Z show "jac_rep (g_field g) (fac g) pt (Aff (x mod g_field g) (y mod g_field g))"
    by (intro jac_repI [of _ _ _ x 1 y]) (simp_all add: pos [OF v])
qed

text \<open>Setting affine coordinates.\<close>

lemma set_affine_ret:
  assumes v: "valid g" and of: "pt_of g (heap s r)"
    and P: "P = Aff (x mod g_field g) (y mod g_field g)"
  shows "if aff_on (g_field g) (g_a g * fac g) (g_b g * fac g) P
    then returns (EC_POINT_set_affine_coordinates g r (Some x) (Some y) True s) (\<lambda>s'. frame r s s' \<and>
      pt_of g (heap s' r) \<and> rng s' = rng s \<and> Z1of s' r \<and>
      pt_ok (g_field g) (fac g) (heap s' r) \<and> jac_rep (g_field g) (fac g) (heap s' r) P)
    else EC_POINT_set_affine_coordinates g r (Some x) (Some y) True s = None"
proof -
  note cp = pt_of_compat [OF of]
  obtain s' where s': "ossl_ec_GFp_simple_set_Jprojective_coordinates_GFp g r (Some x) (Some y) (Some 1) True s = Some s'"
    "frame r s s'" "rng s' = rng s" "p_curve_name (heap s' r) = p_curve_name (heap s r)"
    "rp g (Xof s' r) x" "rp g (Yof s' r) y" "rp g (Zof s' r) 1" "Z1of s' r"
    using set_Jprojective_ret [OF v, of r x y 1 s] field_gt_3 [OF v] by (auto simp: returns_ex)
  have of': "pt_of g (heap s' r)" using of s'(2,4) by (simp add: pt_of_def frame_def)
  note ap = affine_pt [OF v s'(5,6,7), folded P]
  have "EC_POINT_set_affine_coordinates g r (Some x) (Some y) True s =
      (if EC_POINT_is_on_curve g (heap s' r) True \<le> 0 then None else Some s')"
    using meth_law [OF v] cp coord_slots [OF v cp] s'(1)
    by (auto simp: EC_POINT_set_affine_coordinates_def ossl_ec_GFp_simple_point_set_affine_coordinates_def)
  also have "EC_POINT_is_on_curve g (heap s' r) True =
      (if aff_on (g_field g) (g_a g * fac g) (g_b g * fac g) P then 1 else 0)"
    using on_curve_slot [OF v] is_on_curve_correct [OF v _ ap] pt_of_compat [OF of'] by simp
  finally show ?thesis using s' of' ap by simp
qed

lemma make_affine_ret:
  assumes v: "valid g" and of: "pt_of g (heap s r)" and ok: "pt_ok (g_field g) (fac g) (heap s r)"
    and J: "jac_rep (g_field g) (fac g) (heap s r) P"
    and on: "aff_on (g_field g) (g_a g * fac g) (g_b g * fac g) P" and av: "rng_avail g (Suc n) (rng s)"
  shows "returns (ossl_ec_GFp_simple_make_affine g r True s) (\<lambda>s'. frame r s s' \<and> pt_of g (heap s' r) \<and>
    pt_ok (g_field g) (fac g) (heap s' r) \<and> jac_rep (g_field g) (fac g) (heap s' r) P \<and>
    (P \<noteq> Inf \<longrightarrow> Z1of s' r) \<and> rng_avail g n (rng s'))"
proof (cases "Z1of s r \<or> Zof s r = 0")
  case True
  have avn: "rng_avail g n (rng s)" using av by (simp add: rng_avail_def)
  with True of ok J infinity_iff [OF v pt_of_compat [OF of]] show ?thesis
    by (auto simp: ossl_ec_GFp_simple_make_affine_def frame_def jac_rep_def split: apoint.splits)
next
  case False
  then obtain x y where P: "P = Aff x y" using J by (cases P) (auto simp: jac_rep_def)
  note cp = pt_of_compat [OF of]
  obtain s1 where s1: "EC_POINT_get_affine_coordinates g r True True True s = Some ((Some x, Some y), s1)"
    "heap s1 = heap s" "rng_avail g n (rng s1)"
    using get_affine_ret [OF v cp ok J [unfolded P] av, of True True] coord_slots [OF v cp]
    by (auto simp: returns_ex)
  have red: "x mod g_field g = x" "y mod g_field g = y" using J P by (simp_all add: jac_rep_def red_def)
  from set_affine_ret [OF v, of s1 r P x y] on of P s1(2) red have
    "returns (EC_POINT_set_affine_coordinates g r (Some x) (Some y) True s1) (\<lambda>s'. frame r s1 s' \<and>
      pt_of g (heap s' r) \<and> rng s' = rng s1 \<and> Z1of s' r \<and>
      pt_ok (g_field g) (fac g) (heap s' r) \<and> jac_rep (g_field g) (fac g) (heap s' r) P)"
    by simp
  with s1 False infinity_iff [OF v cp] show ?thesis
    by (auto simp: ossl_ec_GFp_simple_make_affine_def returns_ex frame_def)
qed

text \<open>Blinding keeps the point, whatever the random generator does.\<close>

lemma rand_nonzero_red:
  "list_all (red p) es \<Longrightarrow> rand_nonzero es = Some (e, es') \<Longrightarrow> e \<noteq> 0 \<and> red p e \<and> list_all (red p) es'"
  by (induction es) (auto split: if_splits)

lemma blind_ret:
  assumes v: "valid g" and of: "pt_of g (heap s r)" and ok: "pt_ok (g_field g) (fac g) (heap s r)"
    and J: "jac_rep (g_field g) (fac g) (heap s r) P" and rg: "list_all (red (g_field g)) (rng s)"
  shows "returns (ossl_ec_GFp_simple_blind_coordinates g r True s) (\<lambda>s'. frame r s s' \<and> pt_of g (heap s' r) \<and>
    pt_ok (g_field g) (fac g) (heap s' r) \<and> jac_rep (g_field g) (fac g) (heap s' r) P)"
proof (cases "rand_nonzero (rng s)")
  case None
  then show ?thesis
    using assms by (simp add: ossl_ec_GFp_simple_blind_coordinates_def frame_def heap_wr)
next
  case (Some er)
  then obtain e rng' where e: "rand_nonzero (rng s) = Some (e, rng')" by (cases er) auto
  let ?p = "g_field g"
  note er = rand_nonzero_red [OF rg e]
  have eu: "\<not> ?p dvd e" using er red_dvd_0 [of ?p e] by auto
  obtain l where l: "(if has_slot g ''field_encode'' then field_encode g e True else Some e) = Some l" "rp g l e"
    using enc_rp [OF v _ eqm_refl, of e] er by (auto simp: returns_ex)
  define X Y Z where "X = Xof s r" "Y = Yof s r" "Z = Zof s r"
  have rX: "rp g X (X * fac g)" "rp g Y (Y * fac g)" "rp g Z (Z * fac g)"
    using ok by (simp_all add: X_Y_Z_def pt_ok_def frep_self)
  obtain z where z: "field_mul g Z l True = Some z" "rp g z (Z * fac g * e)"
    using ret_mul [OF v rX(3) l(2)] by (auto simp: returns_ex)
  obtain t where t: "field_sqr g l True = Some t" "rp g t (e * e)"
    using ret_sqr [OF v l(2)] by (auto simp: returns_ex)
  obtain x where x: "field_mul g X t True = Some x" "rp g x (X * fac g * (e * e))"
    using ret_mul [OF v rX(1) t(2)] by (auto simp: returns_ex)
  obtain t' where t': "field_mul g t l True = Some t'" "rp g t' (e * e * e)"
    using ret_mul [OF v t(2) l(2)] by (auto simp: returns_ex)
  obtain y where y: "field_mul g Y t' True = Some y" "rp g y (Y * fac g * (e * e * e))"
    using ret_mul [OF v rX(2) t'(2)] by (auto simp: returns_ex)
  define s' where "s' = wr_Z_is_one r False (wr_Y r y (wr_X r x (wr_Z r z (wr_rng rng' s))))"
  have run: "ossl_ec_GFp_simple_blind_coordinates g r True s = Some s'"
    using e l z t x t' y by (simp add: ossl_ec_GFp_simple_blind_coordinates_def X_Y_Z_def s'_def)
  have ok': "pt_ok ?p (fac g) (heap s' r)"
    using x(2) y(2) z(2) by (simp add: s'_def pt_ok_def frep_red)
  have "jac_rep ?p (fac g) (heap s' r) P"
  proof (cases P)
    case Inf
    then have "Z = 0" using J by (simp add: X_Y_Z_def jac_rep_def)
    with rp_zero [OF v z(2)] have "z = 0" by simp
    with Inf show ?thesis by (simp add: s'_def jac_rep_def)
  next
    case (Aff a b)
    define w where "w = zdec (fac g) (heap s r)"
    note c = jac_frep [OF ok J [unfolded Aff], folded w_def X_Y_Z_def]
    have Z0: "Zof s r \<noteq> 0" and rd: "red ?p a" "red ?p b" using J Aff by (simp_all add: jac_rep_def)
    have wu: "\<not> ?p dvd w * e"
      using zdec_unit [OF v ok Z0] eu by (simp add: not_dvd_mult [OF v] w_def)
    have cz: "eqm ?p (X * fac g) (a * w ^ 2)" "eqm ?p (Y * fac g) (b * w ^ 3)" "eqm ?p (Z * fac g) w"
      using c by (simp_all add: frep_def)
    have "rp g x (a * w ^ 2 * (e * e))" "rp g y (b * w ^ 3 * (e * e * e))" "rp g z (w * e)"
      by (rule frep_cong [OF x(2)] frep_cong [OF y(2)] frep_cong [OF z(2)]; intro eqm_intros cz)+
    moreover have "a * w ^ 2 * (e * e) = a * (w * e) ^ 2" "b * w ^ 3 * (e * e * e) = b * (w * e) ^ 3" by algebra+
    ultimately show ?thesis
      using wu rd pos [OF v] unfolding Aff by (intro jac_repI [of _ _ _ a "w * e" b]) (simp_all add: s'_def red_def)
  qed
  with run ok' of show ?thesis by (simp add: s'_def frame_def pt_of_def heap_wr)
qed

end

end
