(* ===== verification/Ec_Batch.thy ===== *)
theory Ec_Batch
  imports Ec_Coords_Correct
begin

text \<open>
  The batch normalisation \<open>points_make_affine\<close>: the product of all nonzero \<open>Z\<close> is inverted once and
  the inverses of the single \<open>Z\<close> are peeled off from the last point to the first. \<open>E p\<close> is the element
  the \<open>Z\<close> of point \<open>p\<close> stands for, 1 when it is zero.
\<close>

definition Zel :: "int \<Rightarrow> int \<Rightarrow> ec_state \<Rightarrow> nat \<Rightarrow> int \<Rightarrow> bool" where
  "Zel p u s a e \<longleftrightarrow> (if Zof s a = 0 then e = 1 else frep p u (Zof s a) e)"

text \<open>What the second loop does to the store, and to the \<open>Z\<close> of one point.\<close>

definition only_Z :: "nat set \<Rightarrow> ec_state \<Rightarrow> ec_state \<Rightarrow> bool" where
  "only_Z A s s' \<longleftrightarrow> rng s' = rng s \<and> (\<forall>a. (\<exists>z. heap s' a = (heap s a)\<lparr>pZ := z\<rparr>) \<and> (a \<notin> A \<longrightarrow> heap s' a = heap s a))"

definition Zinv :: "int \<Rightarrow> int \<Rightarrow> ec_state \<Rightarrow> ec_state \<Rightarrow> nat \<Rightarrow> int \<Rightarrow> bool" where
  "Zinv p u s s' a e \<longleftrightarrow>
     (if Zof s a = 0 then Zof s' a = 0
      else \<exists>i. frep p u (Zof s' a) i \<and> eqm p (i * e) 1)"

lemma only_Z_refl [simp]: "only_Z A s s"
proof -
  have "heap s a = (heap s a)\<lparr>pZ := Zof s a\<rparr>" for a by simp
  then show ?thesis unfolding only_Z_def by blast
qed

lemma zip_take_left: "zip xs ys = zip (take (length ys) xs) ys"
proof (induction ys arbitrary: xs)
  case (Cons y ys)
  then show ?case by (cases xs) simp_all
qed simp

context ec_field
begin

abbreviation "zel g \<equiv> Zel (g_field g) (fac g)"
abbreviation "zinv g \<equiv> Zinv (g_field g) (fac g)"

lemma prod_Z_loop_ret:
  assumes v: "valid g"
  shows "rp g w c \<Longrightarrow> \<forall>p \<in> set ps. zel g s p (E p) \<Longrightarrow>
    returns (prod_Z_loop g True s w ps) (\<lambda>vs. length vs = length ps \<and>
      (\<forall>i \<le> length ps. rp g ((w # vs) ! i) (c * prod_list (map E (take i ps)))))"
proof (induction ps arbitrary: w c)
  case (Cons p ps)
  have "returns (if Zof s p \<noteq> 0 then field_mul g w (Zof s p) True else Some w) (\<lambda>v. rp g v (c * E p))"
    using Cons.prems ret_mul [OF v Cons.prems(1), of "Zof s p" "E p"] by (auto simp: Zel_def)
  then obtain u where u: "(if Zof s p \<noteq> 0 then field_mul g w (Zof s p) True else Some w) = Some u"
    "rp g u (c * E p)" unfolding returns_ex by blast
  obtain vs where vs: "prod_Z_loop g True s u ps = Some vs" "length vs = length ps"
    "\<forall>i \<le> length ps. rp g ((u # vs) ! i) (c * E p * prod_list (map E (take i ps)))"
    using Cons.IH [OF u(2)] Cons.prems(2) unfolding returns_ex by auto
  have "rp g ((w # u # vs) ! i) (c * prod_list (map E (take i (p # ps))))" if "i \<le> Suc (length ps)" for i
    using that vs(3) Cons.prems(1) by (cases i) (auto simp: mult.assoc)
  with u vs show ?case by simp
qed simp

lemma inv_Z_loop_ret:
  assumes v: "valid g"
  shows "distinct ps \<Longrightarrow> \<forall>p \<in> set ps. zel g s p (E p) \<Longrightarrow> length vs = length ps \<Longrightarrow>
    \<forall>i < length ps. rp g (vs ! i) (c * prod_list (map E (take i ps))) \<Longrightarrow>
    rp g t \<tau> \<Longrightarrow> eqm (g_field g) (\<tau> * (c * prod_list (map E ps))) 1 \<Longrightarrow>
    returns (inv_Z_loop g True t (rev (zip vs ps)) s) (\<lambda>(t', s'). only_Z (set ps) s s' \<and>
      (\<exists>\<tau>'. rp g t' \<tau>' \<and> eqm (g_field g) (\<tau>' * c) 1) \<and> (\<forall>p \<in> set ps. zinv g s s' p (E p)))"
proof (induction ps arbitrary: s vs t \<tau> rule: rev_induct)
  case Nil
  then show ?case by auto
next
  case (snoc q ps)
  let ?p = "g_field g"
  obtain us u where vs: "vs = us @ [u]" "length us = length ps"
    using snoc.prems(3) by (cases vs rule: rev_cases) auto
  have us: "\<forall>i < length ps. rp g (us ! i) (c * prod_list (map E (take i ps)))"
    using snoc.prems(4) vs by (auto simp: nth_append less_Suc_eq split: if_splits)
  have u: "rp g u (c * prod_list (map E ps))" using snoc.prems(4) vs by (auto simp: nth_append)
  have q: "q \<notin> set ps" "distinct ps" "zel g s q (E q)" using snoc.prems(1,2) by auto
  have L: "rev (zip vs (ps @ [q])) = (u, q) # rev (zip us ps)" using vs by simp
  have e1: "eqm ?p (\<tau> * E q * (c * prod_list (map E ps))) 1" using snoc.prems(6) by (simp add: mult_ac)
  show ?case
  proof (cases "Zof s q = 0")
    case True
    then have E1: "E q = 1" using q(3) by (simp add: Zel_def)
    show ?thesis unfolding L inv_Z_loop.simps
      using snoc.IH [of s us t \<tau>] q snoc.prems us vs(2) e1 True E1
      by (auto simp: Zinv_def only_Z_def elim!: returns_mono)
  next
    case False
    then have Eq: "rp g (Zof s q) (E q)" using q(3) by (simp add: Zel_def)
    obtain tz where tz: "field_mul g u t True = Some tz" "rp g tz (c * prod_list (map E ps) * \<tau>)"
      using ret_mul [OF v u snoc.prems(5)] unfolding returns_ex by blast
    obtain t1 where t1: "field_mul g t (Zof s q) True = Some t1" "rp g t1 (\<tau> * E q)"
      using ret_mul [OF v snoc.prems(5) Eq] unfolding returns_ex by blast
    let ?s = "wr_Z q tz s"
    have same: "heap ?s a = heap s a" if "a \<noteq> q" for a using that by simp
    have "\<forall>p \<in> set ps. zel g ?s p (E p)" using snoc.prems(2) q(1) same by (auto simp: Zel_def)
    from snoc.IH [OF q(2) this vs(2) us t1(2) e1] show ?thesis
      unfolding L inv_Z_loop.simps using False tz(1) t1(1)
    proof (simp, elim returns_mono, clarify)
      fix t' s' \<tau>'
      assume r: "only_Z (set ps) ?s s'" "\<forall>p \<in> set ps. zinv g ?s s' p (E p)" "rp g t' \<tau>'" "eqm ?p (\<tau>' * c) 1"
      have hq: "heap s' q = heap ?s q" using r(1) q(1) by (simp add: only_Z_def)
      have "only_Z (insert q (set ps)) s s'"
        unfolding only_Z_def
      proof (intro conjI allI impI)
        show "rng s' = rng s" using r(1) by (simp add: only_Z_def)
        fix a
        show "\<exists>z. heap s' a = heap s a\<lparr>pZ := z\<rparr>"
        proof (cases "a = q")
          case False
          from r(1) obtain z where "heap s' a = (heap ?s a)\<lparr>pZ := z\<rparr>" unfolding only_Z_def by blast
          then show ?thesis unfolding same [OF False] by blast
        qed (use hq in \<open>auto simp: heap_wr\<close>)
        show "a \<notin> insert q (set ps) \<Longrightarrow> heap s' a = heap s a"
          using r(1) by (simp add: only_Z_def)
      qed
      moreover have "zinv g s s' q (E q)"
        using False hq tz(2) e1 by (auto simp: Zinv_def mult_ac intro!: exI [of _ "c * prod_list (map E ps) * \<tau>"])
      moreover have "\<forall>p \<in> set ps. zinv g s s' p (E p)"
        using r(2) q(1) same unfolding Zinv_def by (metis (no_types, lifting))
      ultimately show "only_Z (insert q (set ps)) s s' \<and> (\<exists>\<tau>'. rp g t' \<tau>' \<and> eqm ?p (\<tau>' * c) 1) \<and>
          zinv g s s' q (E q) \<and> (\<forall>p \<in> set ps. zinv g s s' p (E p))"
        using r(3,4) by blast
    qed
  qed
qed

text \<open>The last loop: \<open>(X, Y, 1/Z)\<close> becomes the affine point.\<close>

lemma scale_loop_ret:
  assumes v: "valid g"
  shows "distinct ps \<Longrightarrow>
    \<forall>p \<in> set ps. Zof s p \<noteq> 0 \<longrightarrow> (\<exists>i. rp g (Zof s p) i \<and> eqm (g_field g) (i * z p) 1) \<and>
      rp g (Xof s p) (x p * z p ^ 2) \<and> rp g (Yof s p) (y p * z p ^ 3) \<Longrightarrow>
    returns (scale_loop g True ps s) (\<lambda>s'. rng s' = rng s \<and> (\<forall>a. a \<notin> set ps \<longrightarrow> heap s' a = heap s a) \<and>
      (\<forall>p \<in> set ps. p_meth (heap s' p) = p_meth (heap s p) \<and> p_curve_name (heap s' p) = p_curve_name (heap s p) \<and>
        (if Zof s p = 0 then heap s' p = heap s p
         else Z1of s' p \<and> rp g (Xof s' p) (x p) \<and> rp g (Yof s' p) (y p) \<and> rp g (Zof s' p) 1)))"
proof (induction ps arbitrary: s)
  case (Cons q ps)
  let ?p = "g_field g"
  have q: "q \<notin> set ps" "distinct ps" using Cons.prems(1) by auto
  have rest: "\<forall>p \<in> set ps. Zof s p \<noteq> 0 \<longrightarrow> (\<exists>i. rp g (Zof s p) i \<and> eqm ?p (i * z p) 1) \<and>
      rp g (Xof s p) (x p * z p ^ 2) \<and> rp g (Yof s p) (y p * z p ^ 3)"
    using Cons.prems(2) by simp
  show ?case
  proof (cases "Zof s q = 0")
    case True
    with Cons.IH [OF q(2) rest] q(1) show ?thesis by (auto elim!: returns_mono)
  next
    case False
    then obtain i where c: "rp g (Zof s q) i" "eqm ?p (i * z q) 1" "rp g (Xof s q) (x q * z q ^ 2)"
      "rp g (Yof s q) (y q * z q ^ 3)" using Cons.prems(2) by auto
    obtain t where t: "field_sqr g (Zof s q) True = Some t" "rp g t (i * i)"
      using ret_sqr [OF v c(1)] unfolding returns_ex by blast
    obtain x' where x': "field_mul g (Xof s q) t True = Some x'" "rp g x' (x q * z q ^ 2 * (i * i))"
      using ret_mul [OF v c(3) t(2)] unfolding returns_ex by blast
    obtain t' where t': "field_mul g t (Zof s q) True = Some t'" "rp g t' (i * i * i)"
      using ret_mul [OF v t(2) c(1)] unfolding returns_ex by blast
    obtain y' where y': "field_mul g (Yof s q) t' True = Some y'" "rp g y' (y q * z q ^ 3 * (i * i * i))"
      using ret_mul [OF v c(4) t'(2)] unfolding returns_ex by blast
    obtain w where w: "field_one g True = Some w" "rp g w 1"
      using field_one_ret [OF v] unfolding returns_ex by blast
    have "x q * z q ^ 2 * (i * i) = x q * (i * z q) ^ 2" by algebra
    also have "eqm ?p \<dots> (x q * 1 ^ 2)" by (intro eqm_intros c(2))
    finally have x: "rp g x' (x q)" by (intro frep_cong [OF x'(2)]) simp
    have "y q * z q ^ 3 * (i * i * i) = y q * (i * z q) ^ 3" by algebra
    also have "eqm ?p \<dots> (y q * 1 ^ 3)" by (intro eqm_intros c(2))
    finally have y: "rp g y' (y q)" by (intro frep_cong [OF y'(2)]) simp
    let ?s = "wr_Z_is_one q True (wr_Z q w (wr_Y q y' (wr_X q x' s)))"
    have same: "heap ?s a = heap s a" if "a \<noteq> q" for a using that by simp
    have "\<forall>p \<in> set ps. Zof ?s p \<noteq> 0 \<longrightarrow> (\<exists>i. rp g (Zof ?s p) i \<and> eqm ?p (i * z p) 1) \<and>
      rp g (Xof ?s p) (x p * z p ^ 2) \<and> rp g (Yof ?s p) (y p * z p ^ 3)"
      using rest q(1) same by metis
    from Cons.IH [OF q(2) this] obtain s' where s': "scale_loop g True ps ?s = Some s'" "rng s' = rng ?s"
      "\<forall>a. a \<notin> set ps \<longrightarrow> heap s' a = heap ?s a"
      "\<forall>p \<in> set ps. p_meth (heap s' p) = p_meth (heap ?s p) \<and> p_curve_name (heap s' p) = p_curve_name (heap ?s p) \<and>
        (if Zof ?s p = 0 then heap s' p = heap ?s p
         else Z1of s' p \<and> rp g (Xof s' p) (x p) \<and> rp g (Yof s' p) (y p) \<and> rp g (Zof s' p) 1)"
      unfolding returns_ex by blast
    have run: "scale_loop g True (q # ps) s = Some s'"
      using False t(1) x'(1) t'(1) y'(1) w(1) s'(1) by simp
    have "p_meth (heap s' p) = p_meth (heap s p) \<and> p_curve_name (heap s' p) = p_curve_name (heap s p) \<and>
        (if Zof s p = 0 then heap s' p = heap s p
         else Z1of s' p \<and> rp g (Xof s' p) (x p) \<and> rp g (Yof s' p) (y p) \<and> rp g (Zof s' p) 1)"
      if "p \<in> set (q # ps)" for p
    proof (cases "p = q")
      case True
      have "heap s' q = heap ?s q" using s'(3) q(1) by blast
      with True False x y w show ?thesis by simp
    next
      case pq: False
      then show ?thesis using bspec [OF s'(4), of p] that same [OF pq] by simp
    qed
    moreover have "heap s' a = heap s a" if "a \<notin> set (q # ps)" for a using that s'(3) by simp
    ultimately show ?thesis unfolding run returns_Some using s'(2) by simp
  qed
qed simp

text \<open>The routine: every point keeps its meaning and gets \<open>Z = 1\<close>, infinity stays.\<close>

lemma points_make_affine_ret:
  assumes v: "valid g" and dist: "distinct ps" and of: "\<forall>p \<in> set ps. pt_of g (heap s p)"
    and ok: "\<forall>p \<in> set ps. pt_ok (g_field g) (fac g) (heap s p) \<and> jac_rep (g_field g) (fac g) (heap s p) (P p)"
    and av: "rng_avail g (Suc n) (rng s)"
  shows "returns (ossl_ec_GFp_simple_points_make_affine g ps True s) (\<lambda>s'. rng_avail g n (rng s') \<and>
    (\<forall>a. a \<notin> set ps \<longrightarrow> heap s' a = heap s a) \<and>
    (\<forall>p \<in> set ps. pt_of g (heap s' p) \<and> pt_ok (g_field g) (fac g) (heap s' p) \<and>
      jac_rep (g_field g) (fac g) (heap s' p) (P p) \<and> (P p \<noteq> Inf \<longrightarrow> Z1of s' p)))"
proof (cases ps)
  case Nil
  then show ?thesis using av by (simp add: ossl_ec_GFp_simple_points_make_affine_def rng_avail_def)
next
  case (Cons p0 qs)
  let ?p = "g_field g"
  define E where "E = (\<lambda>a. if Zof s a = 0 then 1 else zdec (fac g) (heap s a))"
  have Inf: "P a = Inf \<longleftrightarrow> Zof s a = 0" if "a \<in> set ps" for a
    using bspec [OF ok that] by (auto simp: jac_rep_def split: apoint.splits)
  have zE: "zel g s a (E a)" "\<not> ?p dvd E a" if "a \<in> set ps" for a
  proof -
    have o: "pt_ok ?p (fac g) (heap s a)" using ok that by blast
    have "frep ?p (fac g) (Zof s a) (zdec (fac g) (heap s a))"
      using o by (auto simp: frep_def zdec_def pt_ok_def)
    then show "zel g s a (E a)" by (simp add: Zel_def E_def)
    have "\<not> ?p dvd 1" using field_gt_3 [OF v] by (auto dest: zdvd_imp_le)
    with zdec_unit [OF v o] show "\<not> ?p dvd E a" by (simp add: E_def)
  qed
  have p0: "p0 \<in> set ps" "p0 \<notin> set qs" "distinct qs" using Cons dist by auto
  have "returns (if Zof s p0 \<noteq> 0 then Some (Zof s p0) else field_one g True) (\<lambda>w. rp g w (E p0))"
    using field_one_ret [OF v] zE(1) [OF p0(1)] by (auto simp: Zel_def)
  then obtain w where w: "(if Zof s p0 \<noteq> 0 then Some (Zof s p0) else field_one g True) = Some w" "rp g w (E p0)"
    unfolding returns_ex by blast
  have zq: "\<forall>a \<in> set qs. zel g s a (E a)" using zE(1) Cons by simp
  obtain vs where vs: "prod_Z_loop g True s w qs = Some vs" "length vs = length qs"
    "\<forall>i \<le> length qs. rp g ((w # vs) ! i) (E p0 * prod_list (map E (take i qs)))"
    using prod_Z_loop_ret [OF v w(2) zq] unfolding returns_ex by blast
  define L where "L = last (w # vs)"
  define c where "c = E p0 * prod_list (map E qs)"
  have "L = (w # vs) ! length qs" using vs(2) last_conv_nth [of "w # vs"] by (simp add: L_def del: last.simps)
  with spec [OF vs(3), of "length qs"] have L: "rp g L c" by (simp add: c_def)
  have "\<not> ?p dvd prod_list (map E xs)" if "set xs \<subseteq> set ps" for xs
    using that field_gt_3 [OF v] by (induction xs) (auto simp: not_dvd_mult [OF v] zE(2) dest: zdvd_imp_le)
  then have "\<not> ?p dvd c" using zE(2) [OF p0(1)] Cons by (auto simp: c_def not_dvd_mult [OF v])
  then have L0: "L \<noteq> 0" using rp_zero [OF v L] by simp
  obtain i rng' where i: "field_inv g L (rng s) True = Some (i, rng')" "red ?p i" "eqm ?p (i * L) 1"
    "rng_avail g n rng'" using inv_law [OF v frep_red [OF L] L0 av] by blast
  have "returns (if has_slot g ''field_encode'' then do { t \<leftarrow> field_encode g i True; field_encode g t True }
      else Some i) (\<lambda>t. \<exists>\<tau>. rp g t \<tau> \<and> eqm ?p (\<tau> * c) 1)"
  proof -
    have m: "eqm ?p (t2 * fac g * c) 1" if "eqm ?p (t2 * fac g * fac g) i" for t2
    proof -
      have "eqm ?p (t2 * fac g * c) (t2 * fac g * (L * fac g))"
        using L by (intro eqm_intros) (simp add: frep_def eqm_sym)
      also have "t2 * fac g * (L * fac g) = t2 * fac g * fac g * L" by simp
      also have "eqm ?p \<dots> (i * L)" by (intro eqm_intros that)
      also note i(3)
      finally show ?thesis .
    qed
    show ?thesis
    proof (cases "has_slot g ''field_encode''")
      case True
      obtain t1 where t1: "field_encode g i True = Some t1" "red ?p t1" "eqm ?p (t1 * fac g) i"
        using encode_law [OF v True i(2)] by blast
      obtain t2 where t2: "field_encode g t1 True = Some t2" "red ?p t2" "eqm ?p (t2 * fac g) t1"
        using encode_law [OF v True t1(2)] by blast
      have "eqm ?p (t2 * fac g * fac g) (t1 * fac g)" by (intro eqm_intros t2(3))
      with t1(3) have "eqm ?p (t2 * fac g * fac g) i" by (blast intro: eqm_trans)
      from m [OF this] frep_self [OF t2(2)] True t1(1) t2(1) show ?thesis by auto
    next
      case False
      then have "fac g = 1" by (rule plain_law [OF v])
      with m [of i] frep_self [OF i(2), of "fac g"] False show ?thesis by auto
    qed
  qed
  then obtain t \<tau> where t: "(if has_slot g ''field_encode'' then do { t \<leftarrow> field_encode g i True; field_encode g t True }
      else Some i) = Some t" "rp g t \<tau>" "eqm ?p (\<tau> * c) 1" unfolding returns_ex by blast
  let ?s1 = "wr_rng rng' s"
  have "\<forall>a \<in> set qs. zel g ?s1 a (E a)" using zq by (simp add: Zel_def)
  moreover have "length (w # butlast vs) = length qs \<or> qs = []" using vs(2) by auto
  ultimately obtain t' s2 where s2: "inv_Z_loop g True t (rev (zip (w # vs) qs)) ?s1 = Some (t', s2)"
    "only_Z (set qs) ?s1 s2" "\<exists>\<tau>'. rp g t' \<tau>' \<and> eqm ?p (\<tau>' * E p0) 1" "\<forall>a \<in> set qs. zinv g ?s1 s2 a (E a)"
  proof -
    have z: "zip (w # vs) qs = zip (take (length qs) (w # vs)) qs" by (rule zip_take_left)
    have "\<forall>j < length qs. rp g (take (length qs) (w # vs) ! j) (E p0 * prod_list (map E (take j qs)))"
      using vs(3) by (simp del: take_Suc_Cons)
    moreover have "length (take (length qs) (w # vs)) = length qs" using vs(2) by simp
    ultimately have "returns (inv_Z_loop g True t (rev (zip (w # vs) qs)) ?s1) (\<lambda>(t', s'). only_Z (set qs) ?s1 s' \<and>
        (\<exists>\<tau>'. rp g t' \<tau>' \<and> eqm ?p (\<tau>' * E p0) 1) \<and> (\<forall>a \<in> set qs. zinv g ?s1 s' a (E a)))"
      using t(3) \<open>\<forall>a \<in> set qs. zel g ?s1 a (E a)\<close> unfolding z c_def
      by (intro inv_Z_loop_ret [OF v p0(3) _ _ _ t(2)]) simp_all
    with that show ?thesis by (auto simp: returns_ex)
  qed
  let ?s3 = "if Zof s2 p0 \<noteq> 0 then wr_Z p0 t' s2 else s2"
  have h2: "heap s2 p0 = heap s p0" using s2(2) p0(2) by (simp add: only_Z_def)
  have XY: "Xof ?s3 a = Xof s a" "Yof ?s3 a = Yof s a" "p_meth (heap ?s3 a) = p_meth (heap s a)"
    "p_curve_name (heap ?s3 a) = p_curve_name (heap s a)" "Z1of ?s3 a = Z1of s a" for a
    using s2(2) by (auto simp: only_Z_def heap_wr dest: spec [of _ a])
  have out: "heap ?s3 a = heap s a" if "a \<notin> set ps" for a
    using s2(2) that Cons by (auto simp: only_Z_def heap_wr)
  have Z3: "if Zof s a = 0 then Zof ?s3 a = 0 else \<exists>i. rp g (Zof ?s3 a) i \<and> eqm ?p (i * E a) 1" if "a \<in> set ps" for a
  proof (cases "a = p0")
    case True
    then show ?thesis using h2 s2(3) by auto
  next
    case False
    then show ?thesis using s2(4) that Cons by (auto simp: Zinv_def)
  qed
  define xf where "xf = (\<lambda>a. case P a of Inf \<Rightarrow> 0 | Aff x y \<Rightarrow> x)"
  define yf where "yf = (\<lambda>a. case P a of Inf \<Rightarrow> 0 | Aff x y \<Rightarrow> y)"
  have PA: "P a = Aff (xf a) (yf a) \<and> red ?p (xf a) \<and> red ?p (yf a) \<and> rp g (Xof s a) (xf a * E a ^ 2) \<and>
      rp g (Yof s a) (yf a * E a ^ 3)" if "a \<in> set ps" "Zof s a \<noteq> 0" for a
  proof -
    have "P a \<noteq> Inf" using Inf [OF that(1)] that(2) by simp
    then obtain x y where xy: "P a = Aff x y" by (cases "P a") auto
    have o: "pt_ok ?p (fac g) (heap s a)" "jac_rep ?p (fac g) (heap s a) (Aff x y)"
      using bspec [OF ok that(1)] xy by simp_all
    then have "red ?p x" "red ?p y" by (simp_all add: jac_rep_def)
    with jac_frep(2,3) [OF o] xy that(2) show ?thesis by (simp add: xf_def yf_def E_def)
  qed
  have Zz: "Zof ?s3 a \<noteq> 0 \<longleftrightarrow> Zof s a \<noteq> 0" if "a \<in> set ps" for a
  proof (cases "Zof s a = 0")
    case False
    with Z3 [OF that] obtain i where i: "rp g (Zof ?s3 a) i" "eqm ?p (i * E a) 1" by auto
    have "\<not> ?p dvd i"
    proof
      assume "?p dvd i"
      then have "?p dvd i * E a" by simp
      with i(2) field_gt_3 [OF v] show False by (auto simp: eqm_def dvd_eq_mod_eq_0)
    qed
    with rp_zero [OF v i(1)] False show ?thesis by simp
  qed (use Z3 [OF that] in simp)
  have "\<forall>a \<in> set ps. Zof ?s3 a \<noteq> 0 \<longrightarrow> (\<exists>i. rp g (Zof ?s3 a) i \<and> eqm ?p (i * E a) 1) \<and>
      rp g (Xof ?s3 a) (xf a * E a ^ 2) \<and> rp g (Yof ?s3 a) (yf a * E a ^ 3)"
    using Z3 PA Zz unfolding XY by (metis (no_types, lifting))
  from scale_loop_ret [OF v dist this] obtain s4 where s4: "scale_loop g True ps ?s3 = Some s4" "rng s4 = rng ?s3"
    "\<forall>a. a \<notin> set ps \<longrightarrow> heap s4 a = heap ?s3 a"
    "\<forall>a \<in> set ps. p_meth (heap s4 a) = p_meth (heap ?s3 a) \<and> p_curve_name (heap s4 a) = p_curve_name (heap ?s3 a) \<and>
        (if Zof ?s3 a = 0 then heap s4 a = heap ?s3 a
         else Z1of s4 a \<and> rp g (Xof s4 a) (xf a) \<and> rp g (Yof s4 a) (yf a) \<and> rp g (Zof s4 a) 1)"
    unfolding returns_ex by blast
  have run: "ossl_ec_GFp_simple_points_make_affine g ps True s = Some s4"
    using w(1) vs(1) i(1) t(1) s2(1) s4(1) L_def Cons
    by (simp add: ossl_ec_GFp_simple_points_make_affine_def Let_def)
  have "rng s4 = rng'" using s4(2) s2(2) by (simp add: only_Z_def)
  moreover have "pt_of g (heap s4 a) \<and> pt_ok ?p (fac g) (heap s4 a) \<and>
      jac_rep ?p (fac g) (heap s4 a) (P a) \<and> (P a \<noteq> Inf \<longrightarrow> Z1of s4 a)" if a: "a \<in> set ps" for a
  proof -
    have id: "pt_of g (heap s4 a)" using bspec [OF s4(4) a] bspec [OF of a] XY by (simp add: pt_of_def)
    show ?thesis
    proof (cases "Zof s a = 0")
      case True
      then have Z0: "Zof ?s3 a = 0" using Zz [OF a] by blast
      then have h: "heap s4 a = heap ?s3 a" using bspec [OF s4(4) a] by simp
      have "pt_ok ?p (fac g) (heap s a)" "P a = Inf" using bspec [OF ok a] Inf [OF a] True by simp_all
      with Z0 XY id h field_gt_3 [OF v] True show ?thesis
        unfolding h by (auto simp: pt_ok_def jac_rep_def)
    next
      case False
      then have r: "Z1of s4 a" "rp g (Xof s4 a) (xf a)" "rp g (Yof s4 a) (yf a)" "rp g (Zof s4 a) 1"
        using bspec [OF s4(4) a] Zz [OF a] by auto
      have "P a = Aff (xf a mod ?p) (yf a mod ?p)" using PA [OF a False] by (simp add: red_def)
      with affine_pt [OF v r(2,3,4)] id r(1) show ?thesis by simp
    qed
  qed
  ultimately show ?thesis using run s4(3) out i(4) by simp
qed

end

end
