(* ===== verification/Ec_Law.thy ===== *)
theory Ec_Law
  imports Ec_Affine
begin

text \<open>
  The affine law is an abelian group on every nonsingular curve over a prime field above 3. The
  proof uses lines: \<open>linep\<close> says that the cubic \<open>x\<^sup>3 + a x + b - (l x + c)\<^sup>2\<close> has the roots
  \<open>x1, x2, x3\<close> with multiplicity, by its coefficients, so chords and tangents are one case.
\<close>

section \<open>Lines\<close>

definition linep :: "int \<Rightarrow> int \<Rightarrow> int \<Rightarrow> int \<Rightarrow> int \<Rightarrow> int \<Rightarrow> int \<Rightarrow> int \<Rightarrow> bool" where
  "linep p a b l c x1 x2 x3 \<longleftrightarrow> eqm p (x1 + x2 + x3) (l ^ 2) \<and>
     eqm p (x1 * x2 + x1 * x3 + x2 * x3) (a - 2 * l * c) \<and> eqm p (x1 * x2 * x3) (c ^ 2 - b)"

lemma linep_perm:
  "linep p a b l c x1 x2 x3 = linep p a b l c x2 x1 x3"
  "linep p a b l c x1 x2 x3 = linep p a b l c x1 x3 x2"
  by (auto simp: linep_def algebra_simps)

lemma linep_neg: "linep p a b l c x1 x2 x3 \<Longrightarrow> linep p a b (- l) (- c) x1 x2 x3"
  by (simp add: linep_def)

lemma linep_curve: "linep p a b l c x1 x2 x3 \<Longrightarrow> eqm p ((l * x1 + c) ^ 2) (x1 ^ 3 + a * x1 + b)"
  unfolding linep_def eqm_dvd by algebra

lemma linep_sum: "linep p a b l c x1 x2 x3 \<Longrightarrow> eqm p x3 (l ^ 2 - x1 - x2)"
  unfolding linep_def eqm_dvd by algebra

text \<open>Multiples of a point, by naturals and by integers.\<close>

primrec aff_mult :: "int \<Rightarrow> int \<Rightarrow> nat \<Rightarrow> apoint \<Rightarrow> apoint" where
  "aff_mult p a 0 P = Inf"
| "aff_mult p a (Suc n) P = aff_add p a P (aff_mult p a n P)"

definition aff_smul :: "int \<Rightarrow> int \<Rightarrow> int \<Rightarrow> apoint \<Rightarrow> apoint" where
  "aff_smul p a k P = (if k < 0 then aff_neg p (aff_mult p a (nat (- k)) P) else aff_mult p a (nat k) P)"

locale good_curve =
  fixes p a b :: int
  assumes prime: "prime_int p" and gt3: "3 < p" and nons: "nonsingular p a b"
begin

abbreviation "on \<equiv> aff_on p a b"
abbreviation "add \<equiv> aff_add p a"
abbreviation "neg \<equiv> aff_neg p"
abbreviation "line \<equiv> linep p a b"

lemma not2: "\<not> p dvd 2"
  using gt3 by (auto dest: zdvd_imp_le)

lemma cancel: "p dvd x * y \<Longrightarrow> \<not> p dvd y \<Longrightarrow> p dvd x"
  using prime_int_dvd_mult [OF prime] by blast

lemma red_diff: "red p x \<Longrightarrow> red p y \<Longrightarrow> p dvd x - y \<longleftrightarrow> x = y"
  using red_eqm_eq [of p x y] by (auto simp: eqm_dvd)

text \<open>No nonvertical line is tangent at a point of order two.\<close>

lemma double_root:
  assumes "line l c x x x3"
  shows "eqm p (3 * x ^ 2 + a) (2 * l * (l * x + c))" "\<not> p dvd l * x + c"
proof -
  show t: "eqm p (3 * x ^ 2 + a) (2 * l * (l * x + c))"
    using assms unfolding linep_def eqm_dvd by algebra
  show "\<not> p dvd l * x + c"
  proof
    assume d: "p dvd l * x + c"
    have "eqm p (x ^ 3 + a * x + b) 0"
      using linep_curve [OF assms] d unfolding eqm_dvd by algebra
    moreover have "p dvd 3 * x ^ 2 + a" using t d unfolding eqm_dvd by algebra
    ultimately show False using singular_tangent [OF nons] by blast
  qed
qed

lemma line_add:
  assumes L: "line l c x1 x2 x3" and r: "red p x1" "red p x2" "red p x3" "red p y1" "red p y2"
    and y: "eqm p y1 (l * x1 + c)" "eqm p y2 (l * x2 + c)" "eqm p y3 (l * x3 + c)"
  shows "add (Aff x1 y1) (Aff x2 y2) = Aff x3 ((- y3) mod p)"
proof -
  have fin: "chord p m x1 x2 y1 = Aff x3 ((- y3) mod p)" if m: "eqm p m l" for m
  proof -
    have "eqm p (m ^ 2 - x1 - x2) x3" using L m unfolding linep_def eqm_dvd by algebra
    then have x3: "(m ^ 2 - x1 - x2) mod p = x3" using r(3) by (simp add: eqm_def red_def)
    have "eqm p (m * (x1 - x3) - y1) (- y3)" using m y unfolding eqm_dvd by algebra
    then show ?thesis unfolding chord_def Let_def x3 by (simp add: eqm_def)
  qed
  show ?thesis
  proof (cases "x1 = x2")
    case False
    then have nd: "\<not> p dvd x2 - x1" using red_diff [OF r(2,1)] by simp
    define m where "m = (y2 - y1) * minv p (x2 - x1)"
    have "eqm p (m * (x2 - x1)) (y2 - y1)" unfolding m_def by (rule minv_solve [OF prime nd])
    then have "p dvd (m - l) * (x2 - x1)" using y(1,2) unfolding eqm_dvd by algebra
    then have "eqm p m l" unfolding eqm_dvd by (rule cancel [OF _ nd])
    with fin False show ?thesis by (simp add: m_def)
  next
    case True
    note L2 = L [folded True]
    have y12: "y1 = y2"
      using y(1,2) True red_eqm_eq [OF r(4,5)] by (auto intro: eqm_trans eqm_sym)
    have ny: "\<not> p dvd y1" using double_root(2) [OF L2] y(1) by (simp add: eqm_def dvd_eq_mod_eq_0)
    then have nd: "\<not> p dvd 2 * y1" using not2 prime_int_dvd_mult [OF prime] by blast
    define m where "m = (3 * x1 ^ 2 + a) * minv p (2 * y1)"
    have "eqm p (m * (2 * y1)) (3 * x1 ^ 2 + a)" unfolding m_def by (rule minv_solve [OF prime nd])
    then have "p dvd (m - l) * (2 * y1)"
      using double_root(1) [OF L2] y(1) unfolding eqm_dvd by algebra
    then have "eqm p m l" unfolding eqm_dvd by (rule cancel [OF _ nd])
    moreover have "y1 \<noteq> 0" using ny by auto
    ultimately show ?thesis using fin True y12 by (simp add: m_def)
  qed
qed

lemma add_line:
  assumes on: "on (Aff x1 y1)" "on (Aff x2 y2)" and s: "add (Aff x1 y1) (Aff x2 y2) = Aff x3 w"
  shows "\<exists>l c. line l c x1 x2 x3 \<and> eqm p y1 (l * x1 + c) \<and> eqm p y2 (l * x2 + c) \<and>
    eqm p w (- (l * x3 + c)) \<and> red p x3 \<and> red p w"
proof -
  have r: "red p x1" "red p x2" "red p y1" "red p y2" and p0: "0 < p" using on gt3 by simp_all
  have fin: ?thesis if l: "chord p l x1 x2 y1 = Aff x3 w" and e2: "eqm p y2 (y1 + l * (x2 - x1))"
    and tan: "p dvd x1 * x2 + (x1 + x2) * (l ^ 2 - x1 - x2) - a + 2 * l * (y1 - l * x1)" for l
  proof -
    have x3: "eqm p x3 (l ^ 2 - x1 - x2)" "red p x3" and w: "eqm p w (l * (x1 - x3) - y1)" "red p w"
      using l p0 by (auto simp: chord_def Let_def eqm_def)
    have "line l (y1 - l * x1) x1 x2 x3"
      unfolding linep_def
    proof (intro conjI)
      show "eqm p (x1 + x2 + x3) (l ^ 2)" using x3(1) unfolding eqm_dvd by algebra
      show t: "eqm p (x1 * x2 + x1 * x3 + x2 * x3) (a - 2 * l * (y1 - l * x1))"
        using x3(1) tan unfolding eqm_dvd by algebra
      have "eqm p (y1 ^ 2) (x1 ^ 3 + a * x1 + b)" using on(1) by simp
      then show "eqm p (x1 * x2 * x3) ((y1 - l * x1) ^ 2 - b)" using x3(1) t unfolding eqm_dvd by algebra
    qed
    moreover have "eqm p y1 (l * x1 + (y1 - l * x1))" by simp
    moreover have "eqm p y2 (l * x2 + (y1 - l * x1))" using e2 by (simp add: algebra_simps)
    moreover have "eqm p w (- (l * x3 + (y1 - l * x1)))" using w(1) by (simp add: algebra_simps)
    ultimately show ?thesis using x3(2) w(2) by blast
  qed
  have c1: "eqm p (y1 ^ 2) (x1 ^ 3 + a * x1 + b)" and c2: "eqm p (y2 ^ 2) (x2 ^ 3 + a * x2 + b)"
    using on by simp_all
  show ?thesis
  proof (cases "x1 = x2")
    case False
    then have nd: "\<not> p dvd x2 - x1" using red_diff [OF r(2,1)] by simp
    define l where "l = (y2 - y1) * minv p (x2 - x1)"
    have l: "eqm p (l * (x2 - x1)) (y2 - y1)" unfolding l_def by (rule minv_solve [OF prime nd])
    then have "p dvd (x1 * x2 + (x1 + x2) * (l ^ 2 - x1 - x2) - a + 2 * l * (y1 - l * x1)) * (x2 - x1)"
      using c1 c2 unfolding eqm_dvd by algebra
    then have tan: "p dvd x1 * x2 + (x1 + x2) * (l ^ 2 - x1 - x2) - a + 2 * l * (y1 - l * x1)"
      by (rule cancel [OF _ nd])
    have "eqm p y2 (y1 + l * (x2 - x1))" using l unfolding eqm_dvd by algebra
    from fin [OF _ this tan] s False show ?thesis by (simp add: l_def)
  next
    case True
    have y12: "y1 = y2" and y0: "y1 \<noteq> 0" using s True by (auto split: if_splits)
    have "\<not> p dvd y1" using red_dvd_0 [OF r(3)] y0 by simp
    then have nd: "\<not> p dvd 2 * y1" using not2 prime_int_dvd_mult [OF prime] by blast
    define l where "l = (3 * x1 ^ 2 + a) * minv p (2 * y1)"
    have l: "eqm p (l * (2 * y1)) (3 * x1 ^ 2 + a)" unfolding l_def by (rule minv_solve [OF prime nd])
    then have tan: "p dvd x1 * x1 + (x1 + x1) * (l ^ 2 - x1 - x1) - a + 2 * l * (y1 - l * x1)"
      unfolding eqm_dvd by algebra
    have "eqm p y1 (y1 + l * (x1 - x1))" by simp
    with fin [of l] tan s True y12 y0 show ?thesis by (simp add: l_def)
  qed
qed

section \<open>Associativity\<close>

text \<open>
  Three lines: through \<open>A, B, -E\<close>, through \<open>E, C, -F\<close> and through \<open>B, C, -E'\<close>. Their slopes satisfy
  \<open>(l + m)(l - n) = x1 - x3\<close>, and the line of slope \<open>l + m - n\<close> through \<open>E'\<close> meets \<open>A\<close> and \<open>-F\<close>.
\<close>

lemma line_assoc:
  assumes L1: "line l c x1 x2 x4" and L2: "line m d x4 x3 x5" and L3: "line n c' x2 x3 x6"
    and r: "red p x1" "red p x2" "red p x3" "red p x4" "red p x5" "red p x6" "red p y1" "red p y6"
    and A: "eqm p y1 (l * x1 + c)" and B: "eqm p y2 (l * x2 + c)" "eqm p y2 (n * x2 + c')"
    and C: "eqm p y3 (m * x3 + d)" "eqm p y3 (n * x3 + c')"
    and E: "eqm p y4 (- (l * x4 + c))" "eqm p y4 (m * x4 + d)"
    and F: "eqm p y5 (- (m * x5 + d))" and E': "eqm p y6 (- (n * x6 + c'))"
  shows "add (Aff x6 y6) (Aff x1 y1) = Aff x5 (y5 mod p)"
proof -
  have f1: "eqm p x4 (l ^ 2 - x1 - x2)" and f2: "eqm p x5 (m ^ 2 - x4 - x3)"
    and f3: "eqm p x6 (n ^ 2 - x2 - x3)"
    using linep_sum [OF L1] linep_sum [OF L2] linep_sum [OF L3] by (simp_all add: algebra_simps)
  note f = f1 f2 f3
  have e2: "eqm p (x1 * x2 + x1 * x4 + x2 * x4) (a - 2 * l * c)"
    "eqm p (x4 * x3 + x4 * x5 + x3 * x5) (a - 2 * m * d)"
    "eqm p (x2 * x3 + x2 * x6 + x3 * x6) (a - 2 * n * c')"
    using L1 L2 L3 unfolding linep_def by simp_all
  have e3: "eqm p (x2 * x3 * x6) (c' ^ 2 - b)" using L3 unfolding linep_def by simp
  have h4: "eqm p ((l + m) * x4) (- (c + d))" using E unfolding eqm_dvd by algebra
  have h2: "eqm p ((l - n) * x2) (c' - c)" using B unfolding eqm_dvd by algebra
  have S2: "eqm p ((m + l) * (d - c)) (x1 * x2 - x3 * x5)"
    using f(1,2) e2(1,2) h4 unfolding eqm_dvd by algebra
  have K1: "p dvd ((l + m) * (l - n) - (x1 - x3)) * (x3 - x2)"
  proof -
    have "eqm p ((m + l) * ((m - l) * x3 + d - c)) ((x3 - x1) * (x3 - x2))"
      using f(1,2) S2 unfolding eqm_dvd by algebra
    moreover have "eqm p ((m - l) * x3 + d - c) ((n - l) * (x3 - x2))"
      using C h2 unfolding eqm_dvd by algebra
    ultimately show ?thesis unfolding eqm_dvd by algebra
  qed
  have K2: "p dvd ((l + m) * (l - n) - (x1 - x3)) * (x3 - x4)"
  proof -
    have "eqm p ((n - l) * (c + c')) (x1 * x4 - x3 * x6)"
      using f(1,3) e2(1,3) h2 unfolding eqm_dvd by algebra
    then have "eqm p ((n - l) * ((n + l) * x3 + c + c')) ((x3 - x1) * (x3 - x4))"
      using f(1,3) unfolding eqm_dvd by algebra
    moreover have "eqm p ((n + l) * x3 + c + c') ((l + m) * (x3 - x4))"
      using C h4 unfolding eqm_dvd by algebra
    ultimately show ?thesis unfolding eqm_dvd by algebra
  qed
  have K: "eqm p ((l + m) * (l - n)) (x1 - x3)"
  proof (cases "x3 = x2 \<and> x3 = x4")
    case True
    then have x32: "x3 = x2" and x42: "x4 = x2" by simp_all
    have "line l c x2 x2 x1" using L1 True linep_perm by metis
    then have "\<not> p dvd l * x2 + c" by (rule double_root(2))
    moreover have "p dvd 2 * (l * x2 + c)"
      using B C E unfolding x32 x42 eqm_dvd by algebra
    ultimately show ?thesis using not2 prime_int_dvd_mult [OF prime] by blast
  next
    case False
    then have "\<not> p dvd x3 - x2 \<or> \<not> p dvd x3 - x4" using red_diff r by blast
    then show ?thesis unfolding eqm_dvd using cancel [OF K1] cancel [OF K2] by blast
  qed
  define k where "k = l + m - n"
  define e where "e = - (l + m) * x6 - c'"
  have T: "eqm p ((l + m) * (x4 - x6)) ((l - n) * (x2 - x5))"
    using f K unfolding eqm_dvd by algebra
  have "eqm p (e - c' - d + c) (- (l - n) * (x2 + x5))"
    using T h2 h4 unfolding e_def eqm_dvd by algebra
  then have "eqm p ((l + m) * (e - c' - d + c)) (- (x1 - x3) * (x2 + x5))"
    using K unfolding eqm_dvd by algebra
  then have S3: "eqm p ((l + m) * (e - c')) (x2 * x3 - x1 * x5)"
    using S2 unfolding eqm_dvd by algebra
  have S4: "eqm p ((l + m) * (k - n)) (x1 + x5 - x2 - x3)"
    using f(1,2) K unfolding k_def eqm_dvd by algebra
  have L: "line k e x6 x1 x5"
    unfolding linep_def
  proof (intro conjI)
    show "eqm p (x6 + x1 + x5) (k ^ 2)" using S4 f(3) unfolding k_def eqm_dvd by algebra
    show "eqm p (x6 * x1 + x6 * x5 + x1 * x5) (a - 2 * k * e)"
      using S4 S3 e2(3) unfolding k_def e_def eqm_dvd by algebra
    show "eqm p (x6 * x1 * x5) (e ^ 2 - b)"
      using S3 e3 unfolding e_def eqm_dvd by algebra
  qed
  have P6: "eqm p y6 (k * x6 + e)" using E' unfolding k_def e_def eqm_dvd by algebra
  have "eqm p y1 (k * x1 + e) \<and> eqm p (- y5) (k * x5 + e)"
  proof (cases "p dvd l + m")
    case False
    have "p dvd (y1 - (k * x1 + e)) * (l + m)"
      using S3 S4 K A h2 unfolding eqm_dvd by algebra
    moreover have "p dvd (- y5 - (k * x5 + e)) * (l + m)"
    proof -
      have "eqm p ((l + m) * (c' - c)) ((x1 - x3) * x2)" using K h2 unfolding eqm_dvd by algebra
      then have "eqm p ((l + m) * (d - e)) ((x1 - x3) * x5)"
        using S2 S3 unfolding eqm_dvd by algebra
      then have "p dvd (m * x5 + d - (k * x5 + e)) * (l + m)"
        using K unfolding k_def eqm_dvd by algebra
      then show ?thesis using F unfolding eqm_dvd by algebra
    qed
    ultimately show ?thesis unfolding eqm_dvd using cancel False by blast
  next
    case True
    have "p dvd x1 - x3" using K True unfolding eqm_dvd by algebra
    then have x13: "x1 = x3" using red_diff [OF r(1,3)] by simp
    have "eqm p x5 x2" using f(1,2) True unfolding x13 eqm_dvd by algebra
    then have x52: "x5 = x2" using red_eqm_eq r by blast
    have cd: "eqm p d (- c)" using h4 True unfolding eqm_dvd by algebra
    have "eqm p y1 (k * x1 + e)"
      using A C cd True unfolding k_def e_def x13 eqm_dvd by algebra
    moreover have "eqm p (- y5) (k * x5 + e)"
      using B F cd True unfolding k_def e_def x52 eqm_dvd by algebra
    ultimately show ?thesis ..
  qed
  from line_add [OF L r(6,1,5,8,7) P6 conjunct1 [OF this] conjunct2 [OF this]]
  show ?thesis by simp
qed

section \<open>The abelian group\<close>

lemma p_pos: "0 < p"
  using gt3 by simp

lemma neg_neg: "aff_red p P \<Longrightarrow> neg (neg P) = P"
  by (cases P) (auto simp: mod_minus_eq red_def)

lemma on_red: "on P \<Longrightarrow> aff_red p P"
  by (cases P) auto

lemma on_neg: "on P \<Longrightarrow> on (neg P)"
proof (cases P)
  case (Aff x y)
  assume "on P"
  moreover have "eqm p (((- y) mod p) ^ 2) ((- y) ^ 2)" by (intro eqm_intros) (simp add: eqm_def)
  ultimately show ?thesis using Aff p_pos by (auto intro: eqm_trans)
qed simp

lemma add_inf: "on P \<Longrightarrow> on Q \<Longrightarrow> add P Q = Inf \<longleftrightarrow> Q = neg P"
proof (cases P; cases Q)
  fix x1 y1 x2 y2 assume on: "on P" "on Q" and PQ: "P = Aff x1 y1" "Q = Aff x2 y2"
  have r: "red p x1" "red p y1" "red p x2" "red p y2" using on PQ by simp_all
  have "y1 = y2 \<or> y2 = (- y1) mod p" if "x1 = x2"
  proof -
    have "eqm p (y1 ^ 2) (x1 ^ 3 + a * x1 + b)" "eqm p (y2 ^ 2) (x1 ^ 3 + a * x1 + b)"
      using on PQ that by simp_all
    then have "p dvd (y1 - y2) * (y1 + y2)" unfolding eqm_dvd by algebra
    then have "p dvd y1 - y2 \<or> p dvd y1 + y2" using prime_int_dvd_mult [OF prime] by blast
    moreover have "y2 = (- y1) mod p" if "p dvd y1 + y2"
    proof -
      have "eqm p y2 (- y1)" using that unfolding eqm_dvd by algebra
      then show ?thesis using r(4) by (simp add: eqm_def red_def)
    qed
    ultimately show ?thesis using red_diff r by blast
  qed
  moreover have "y1 = 0" if "y1 = (- y1) mod p"
  proof -
    have "eqm p y1 (- y1)" using that by (metis eqm_def mod_mod_trivial)
    then have "p dvd 2 * y1" unfolding eqm_dvd by algebra
    then show ?thesis using not2 prime_int_dvd_mult [OF prime] red_dvd_0 [OF r(2)] by blast
  qed
  ultimately show ?thesis using PQ by (auto simp: chord_def Let_def)
qed auto

lemma neg_add: "on P \<Longrightarrow> add (neg P) P = Inf" "on P \<Longrightarrow> add P (neg P) = Inf"
  by (simp_all add: add_inf on_neg neg_neg on_red)

text \<open>Three finite points on a line, as the sum gives them.\<close>

lemma addE:
  assumes "on P" "on Q" "add P Q = Aff x3 w" "P \<noteq> Inf" "Q \<noteq> Inf"
  obtains l c x1 y1 x2 y2 where "P = Aff x1 y1" "Q = Aff x2 y2" "line l c x1 x2 x3"
    "eqm p y1 (l * x1 + c)" "eqm p y2 (l * x2 + c)" "eqm p w (- (l * x3 + c))"
    "red p x1" "red p x2" "red p x3" "red p y1" "red p y2" "red p w"
proof (cases P; cases Q)
  fix x1 y1 x2 y2 assume PQ: "P = Aff x1 y1" "Q = Aff x2 y2"
  from add_line [OF assms(1-3) [unfolded PQ]] that [OF PQ] assms(1,2) PQ show thesis by auto
qed (use assms in auto)

lemma add_comm: "on P \<Longrightarrow> on Q \<Longrightarrow> add P Q = add Q P"
proof (cases "add P Q")
  case Inf
  assume "on P" "on Q"
  with Inf show ?thesis by (metis add_inf neg_neg on_red)
next
  case (Aff x3 w)
  assume on: "on P" "on Q"
  show ?thesis
  proof (cases "P = Inf \<or> Q = Inf")
    case False
    then have N: "P \<noteq> Inf" "Q \<noteq> Inf" by auto
    show ?thesis
    proof (rule addE [OF on Aff N])
      fix l c x1 y1 x2 y2
      assume PQ: "P = Aff x1 y1" "Q = Aff x2 y2" and L: "line l c x1 x2 x3"
        and e: "eqm p y1 (l * x1 + c)" "eqm p y2 (l * x2 + c)" "eqm p w (- (l * x3 + c))"
        and r: "red p x1" "red p x2" "red p x3" "red p y1" "red p y2" "red p w"
      have "add Q P = Aff x3 ((- (l * x3 + c)) mod p)"
        unfolding PQ using L e r by (intro line_add) (auto simp: linep_perm)
      then show ?thesis using Aff e(3) r(6) by (simp add: eqm_def red_def)
    qed
  qed (cases P; auto; cases Q; auto)
qed

lemma on_add: "on P \<Longrightarrow> on Q \<Longrightarrow> on (add P Q)"
proof (cases "P = Inf \<or> Q = Inf \<or> add P Q = Inf")
  case False
  assume on: "on P" "on Q"
  from False obtain x3 w where s: "add P Q = Aff x3 w" by (cases "add P Q") auto
  from False have N: "P \<noteq> Inf" "Q \<noteq> Inf" by auto
  show ?thesis
  proof (rule addE [OF on s N])
    fix l c x1 y1 x2 y2
    assume "line l c x1 x2 x3" and w: "eqm p w (- (l * x3 + c))" and r: "red p x3" "red p w"
    then have "line l c x3 x1 x2" using linep_perm by metis
    from linep_curve [OF this] w have "eqm p (w ^ 2) (x3 ^ 3 + a * x3 + b)"
      unfolding eqm_dvd by algebra
    with s r show ?thesis by simp
  qed
qed (cases P; auto)

lemma rotate:
  assumes "on P" "on Q" "add P Q \<noteq> Inf" "P \<noteq> Inf" "Q \<noteq> Inf"
  shows "add Q (neg (add P Q)) = neg P"
proof -
  obtain x3 w where s: "add P Q = Aff x3 w" using assms(3) by (cases "add P Q") auto
  show ?thesis
  proof (rule addE [OF assms(1,2) s assms(4,5)])
    fix l c x1 y1 x2 y2
    assume PQ: "P = Aff x1 y1" "Q = Aff x2 y2" and L: "line l c x1 x2 x3"
      and e: "eqm p y1 (l * x1 + c)" "eqm p y2 (l * x2 + c)" "eqm p w (- (l * x3 + c))"
      and r: "red p x1" "red p x2" "red p x3" "red p y1" "red p y2" "red p w"
    have L2: "line l c x2 x3 x1" using L linep_perm by metis
    have "eqm p (- w) (l * x3 + c)" using e(3) unfolding eqm_dvd by algebra
    then have "eqm p ((- w) mod p) (l * x3 + c)" by (simp add: eqm_def)
    from line_add [OF L2 r(2,3,1,5) _ e(2) this e(1)] p_pos
    show ?thesis unfolding s unfolding PQ aff_neg.simps by (simp del: aff_add.simps)
  qed
qed

lemma cancel_left: "on P \<Longrightarrow> on Q \<Longrightarrow> add (neg P) (add P Q) = Q"
proof (cases "P = Inf \<or> Q = Inf \<or> add P Q = Inf")
  case True
  assume on: "on P" "on Q"
  consider "P = Inf" | "Q = Inf" | "add P Q = Inf" using True by blast
  then show ?thesis
  proof cases
    case 2
    then have "add P Q = P" by (cases P) auto
    with 2 neg_add(1) on show ?thesis by simp
  next
    case 3
    with on have "Q = neg P" by (simp add: add_inf)
    with 3 show ?thesis by (cases P) auto
  qed simp
next
  case False
  assume on: "on P" "on Q"
  from False obtain x3 w where s: "add P Q = Aff x3 w" by (cases "add P Q") auto
  from False have N: "P \<noteq> Inf" "Q \<noteq> Inf" by auto
  show ?thesis
  proof (rule addE [OF on s N])
    fix l c x1 y1 x2 y2
    assume PQ: "P = Aff x1 y1" "Q = Aff x2 y2" and L: "line l c x1 x2 x3"
      and e: "eqm p y1 (l * x1 + c)" "eqm p y2 (l * x2 + c)" "eqm p w (- (l * x3 + c))"
      and r: "red p x1" "red p x2" "red p x3" "red p y1" "red p y2" "red p w"
    have "line l c x1 x3 x2" using L linep_perm by metis
    then have L2: "line (- l) (- c) x1 x3 x2" by (rule linep_neg)
    have "eqm p (- y1) (- l * x1 + - c)" using e(1) unfolding eqm_dvd by algebra
    then have e1: "eqm p ((- y1) mod p) (- l * x1 + - c)" by (simp add: eqm_def)
    have e3: "eqm p w (- l * x3 + - c)" using e(3) unfolding eqm_dvd by algebra
    have e2: "eqm p (- y2) (- l * x2 + - c)" using e(2) unfolding eqm_dvd by algebra
    from line_add [OF L2 r(1,3,2) _ r(6) e1 e3 e2] p_pos r(5)
    show ?thesis unfolding s unfolding PQ aff_neg.simps by (simp add: red_def del: aff_add.simps)
  qed
qed

lemma cancel_right: "on P \<Longrightarrow> on Q \<Longrightarrow> add (add P Q) (neg Q) = P"
  using cancel_left [of "Q" "P"] by (simp add: add_comm on_add on_neg)

lemma cancel_left': "on P \<Longrightarrow> on Q \<Longrightarrow> add P (add (neg P) Q) = Q"
  using cancel_left [of "neg P" Q] by (simp add: on_neg neg_neg on_red)

lemma assoc_finite:
  assumes on: "on A" "on B" "on C" and N: "A \<noteq> Inf" "B \<noteq> Inf" "C \<noteq> Inf"
    and E: "add A B = Aff x4 y4" and F: "add (add A B) C = Aff x5 y5" and E': "add B C = Aff x6 y6"
  shows "add (add B C) A = Aff x5 y5"
proof (rule addE [OF on(1,2) E N(1,2)], rule addE [OF on(2,3) E' N(2,3)])
  have onE: "on (Aff x4 y4)" using on_add [OF on(1,2)] E by simp
  fix l c x1 y1 x2 y2 n c' x2' y2' x3 y3
  assume AB: "A = Aff x1 y1" "B = Aff x2 y2" "B = Aff x2' y2'" "C = Aff x3 y3"
    and L1: "line l c x1 x2 x4" and L3: "line n c' x2' x3 x6"
    and e1: "eqm p y1 (l * x1 + c)" "eqm p y2 (l * x2 + c)" "eqm p y4 (- (l * x4 + c))"
    and e3: "eqm p y2' (n * x2' + c')" "eqm p y3 (n * x3 + c')" "eqm p y6 (- (n * x6 + c'))"
    and r: "red p x1" "red p x2" "red p x4" "red p y1" "red p x6" "red p y6" "red p x3"
  have b: "x2' = x2" "y2' = y2" using AB(2,3) by simp_all
  show ?thesis
  proof (rule addE [OF onE on(3) F [unfolded E] _ N(3)])
    fix m d x4' y4' x3' y3'
    assume EC: "Aff x4 y4 = Aff x4' y4'" "C = Aff x3' y3'" and L2: "line m d x4' x3' x5"
      and e2: "eqm p y4' (m * x4' + d)" "eqm p y3' (m * x3' + d)" "eqm p y5 (- (m * x5 + d))"
      and r5: "red p x5" "red p y5"
    have ec: "x4' = x4" "y4' = y4" "x3' = x3" "y3' = y3" using EC AB(4) by simp_all
    have "add (Aff x6 y6) (Aff x1 y1) = Aff x5 (y5 mod p)"
      by (rule line_assoc [OF L1 L2 [unfolded ec] L3 [unfolded b] r(1,2,7,3) r5(1) r(5,4,6)
            e1(1,2) e3(1) [unfolded b] e2(2) [unfolded ec] e3(2) e1(3) e2(1) [unfolded ec] e2(3) e3(3)])
    then show ?thesis using E' AB(1) r5(2) by (simp add: red_def)
  qed simp
qed

theorem add_assoc: "on A \<Longrightarrow> on B \<Longrightarrow> on C \<Longrightarrow> add (add A B) C = add A (add B C)"
proof -
  assume on: "on A" "on B" "on C"
  have inf: "add X Inf = X" for X by (cases X) auto
  consider "A = Inf \<or> B = Inf \<or> C = Inf" | "add A B = Inf" | "add B C = Inf"
    | "add (add A B) C = Inf" "add A B \<noteq> Inf" "A \<noteq> Inf" "B \<noteq> Inf"
    | "A \<noteq> Inf" "B \<noteq> Inf" "C \<noteq> Inf" "add A B \<noteq> Inf" "add B C \<noteq> Inf" "add (add A B) C \<noteq> Inf"
    by blast
  then show ?thesis
  proof cases
    case 1
    then show ?thesis by (auto simp: inf)
  next
    case 2
    then have "B = neg A" using on by (simp add: add_inf)
    with 2 cancel_left' [OF on(1,3)] show ?thesis by simp
  next
    case 3
    then have "C = neg B" using on by (simp add: add_inf)
    with 3 cancel_right [OF on(1,2)] show ?thesis by (simp add: inf)
  next
    case 4
    then have "C = neg (add A B)" using on by (simp add: add_inf on_add)
    with 4 rotate [OF on(1,2)] neg_add(2) [OF on(1)] show ?thesis by simp
  next
    case 5
    from 5(4-6) obtain x4 y4 x5 y5 x6 y6 where
      "add A B = Aff x4 y4" "add (add A B) C = Aff x5 y5" "add B C = Aff x6 y6"
      by (metis apoint.exhaust)
    with assoc_finite [OF on 5(1-3) this] add_comm [OF on(1) on_add [OF on(2,3)]]
    show ?thesis by simp
  qed
qed

section \<open>Multiples\<close>

abbreviation "mult \<equiv> aff_mult p a"
abbreviation "smul \<equiv> aff_smul p a"

lemma add_Inf [simp]: "add P Inf = P"
  by (cases P) auto

lemma on_mult: "on P \<Longrightarrow> on (mult n P)"
  by (induction n) (auto simp: on_add)

lemma mult_add: "on P \<Longrightarrow> mult (m + n) P = add (mult m P) (mult n P)"
  by (induction m) (auto simp: add_assoc on_mult)

lemma mult_1 [simp]: "mult (Suc 0) P = P"
  by simp

lemma mult_2: "mult 2 P = add P P"
  by (simp add: numeral_2_eq_2)

lemma mult_mult: "on P \<Longrightarrow> mult m (mult n P) = mult (m * n) P"
  by (induction m) (auto simp: mult_add on_mult)

lemma neg_Inf_iff: "neg P = Inf \<longleftrightarrow> P = Inf"
  by (cases P) auto

lemma neg_unique: "on P \<Longrightarrow> on Q \<Longrightarrow> add P Q = Inf \<Longrightarrow> Q = neg P"
  by (simp add: add_inf)

lemma neg_add_distrib: "on P \<Longrightarrow> on Q \<Longrightarrow> neg (add P Q) = add (neg P) (neg Q)"
proof -
  assume on: "on P" "on Q"
  note c = on_add on_neg on
  have "add (add P Q) (add (neg P) (neg Q)) = add P (add Q (add (neg Q) (neg P)))"
    by (simp add: add_assoc c add_comm [of "neg P" "neg Q"])
  also have "\<dots> = add P (add (add Q (neg Q)) (neg P))" by (simp add: add_assoc c)
  also have "\<dots> = Inf" by (simp add: neg_add c)
  finally have "add (neg P) (neg Q) = neg (add P Q)" by (intro neg_unique c)
  then show ?thesis by simp
qed

lemma mult_neg: "on P \<Longrightarrow> mult n (neg P) = neg (mult n P)"
  by (induction n) (auto simp: neg_add_distrib on_mult)

lemma on_smul: "on P \<Longrightarrow> on (smul k P)"
  by (simp add: aff_smul_def on_mult on_neg)

lemma smul_of_nat [simp]: "smul (int n) P = mult n P"
  by (simp add: aff_smul_def)

lemma smul_0 [simp]: "smul 0 P = Inf" and smul_1 [simp]: "smul 1 P = P"
  by (simp_all add: aff_smul_def)

lemma smul_minus: "on P \<Longrightarrow> smul (- k) P = neg (smul k P)"
  by (auto simp: aff_smul_def neg_neg on_red on_mult)

text \<open>The difference of two multiples, whatever the sign.\<close>

lemma smul_diff: "on P \<Longrightarrow> smul (int m - int n) P = add (mult m P) (neg (mult n P))"
proof (cases "n \<le> m")
  case True
  assume on: "on P"
  from True obtain k where m: "m = k + n" by (metis add.commute le_iff_add)
  have "add (add (mult k P) (mult n P)) (neg (mult n P)) = mult k P"
    by (rule cancel_right) (simp_all add: on_mult on)
  then show ?thesis by (simp add: m mult_add on)
next
  case False
  assume on: "on P"
  from False obtain k where n: "n = m + k" by (metis le_iff_add nat_le_linear)
  have "add (mult m P) (neg (mult n P)) = add (mult m P) (add (neg (mult m P)) (neg (mult k P)))"
    by (simp add: n mult_add neg_add_distrib on_mult on)
  also have "\<dots> = neg (mult k P)" by (rule cancel_left') (simp_all add: on_mult on_neg on)
  finally show ?thesis using smul_minus [OF on, of "int k"] by (simp add: n)
qed

lemma smul_add: "on P \<Longrightarrow> smul (j + k) P = add (smul j P) (smul k P)"
proof -
  assume on: "on P"
  obtain m n where j: "j = int m - int n" by (metis int_diff_cases)
  obtain m' n' where k: "k = int m' - int n'" by (metis int_diff_cases)
  note c = on_add on_neg on_mult on
  have "j + k = int (m + m') - int (n + n')" by (simp add: j k)
  then have "smul (j + k) P = smul (int (m + m') - int (n + n')) P" by (rule arg_cong)
  also have "\<dots> = add (add (mult m P) (mult m' P)) (add (neg (mult n P)) (neg (mult n' P)))"
    by (simp only: smul_diff [OF on] mult_add [OF on] neg_add_distrib c)
  also have "\<dots> = add (mult m P) (add (neg (mult n P)) (add (mult m' P) (neg (mult n' P))))"
    by (simp add: add_assoc c) (metis add_assoc add_comm c)
  also have "\<dots> = add (smul j P) (smul k P)" by (simp add: j k smul_diff on add_assoc c)
  finally show ?thesis .
qed

lemma smul_double: "on P \<Longrightarrow> smul (2 * k) P = add (smul k P) (smul k P)"
  using smul_add [of P k k] by (simp add: mult_2)

lemma smul_smul: "on P \<Longrightarrow> smul j (smul k P) = smul (j * k) P"
proof -
  assume on: "on P"
  have nat: "mult n (smul k P) = smul (int n * k) P" for n k
    by (induction n) (simp_all add: distrib_right smul_add on)
  show ?thesis
  proof (cases "j < 0")
    case True
    then have "smul j (smul k P) = neg (smul (int (nat (- j)) * k) P)"
      by (simp add: aff_smul_def [of p a j] nat)
    then show ?thesis using True by (simp flip: smul_minus [OF on])
  qed (simp add: aff_smul_def [of p a j] nat)
qed

end

end
