(* ===== verification/Ec_Points.thy ===== *)
theory Ec_Points
  imports Ec_Law Ec_Coords_Correct
begin

text \<open>
  The point operations as steps on the abelian group: \<open>holds g s a P\<close> says that address \<open>a\<close> holds a
  well-formed representation of the affine point \<open>P\<close>, and every \<open>EC_POINT_\<close> call is a rule about it.
  The group law of \<open>Ec_Law\<close> is made available for every nonsingular group of the model.
\<close>

section \<open>Nonsingular groups\<close>

definition curve_ok :: "ec_group \<Rightarrow> bool" where
  "curve_ok g \<longleftrightarrow> gfp_valid g \<and> nonsingular (g_field g) (curve_A g) (curve_B g)"

abbreviation gadd :: "ec_group \<Rightarrow> apoint \<Rightarrow> apoint \<Rightarrow> apoint" where
  "gadd g \<equiv> aff_add (g_field g) (curve_A g)"

abbreviation gneg :: "ec_group \<Rightarrow> apoint \<Rightarrow> apoint" where
  "gneg g \<equiv> aff_neg (g_field g)"

abbreviation gmul :: "ec_group \<Rightarrow> int \<Rightarrow> apoint \<Rightarrow> apoint" where
  "gmul g \<equiv> aff_smul (g_field g) (curve_A g)"

abbreviation gon :: "ec_group \<Rightarrow> apoint \<Rightarrow> bool" where
  "gon g \<equiv> aff_on (g_field g) (curve_A g) (curve_B g)"

text \<open>The curve \<open>y\<^sup>2 = x\<^sup>3 + x + 6\<close> over the field of 11 elements, with plain residues.\<close>

definition small_group :: ec_group where
  "small_group = \<lparr>g_meth = M_GFp_simple, g_generator = None, g_order = 13, g_cofactor = 1,
     g_curve_name = 0, g_asn1_flag = 1, g_decoded_from_explicit_params = 0, g_asn1_form = 4,
     g_seed = None, g_field = 11, g_a = 1, g_b = 6, g_a_is_minus3 = False,
     g_field_data1 = None, g_field_data2 = None, g_mont_data = None\<rparr>"

lemma prime_11: "prime_int 11"
  by code_simp

lemma small_curve: "g_field small_group = 11" "curve_A small_group = 1" "curve_B small_group = 6"
  by (simp_all add: curve_A_def curve_B_def gfp_fac_def small_group_def)

lemma small_curve_ok: "curve_ok small_group"
  by (simp add: curve_ok_def small_curve nonsingular_def)
    (simp add: gfp_valid_def simple_valid_def small_group_def prime_11 red_def)

typedef curve_group = "{g. curve_ok g}" morphisms group_of Curve
  using small_curve_ok by blast

interpretation law: good_curve "g_field (group_of G)" "curve_A (group_of G)" "curve_B (group_of G)" for G
proof
  have "curve_ok (group_of G)" using group_of [of G] by simp
  then show "prime_int (g_field (group_of G))" "3 < g_field (group_of G)"
    "nonsingular (g_field (group_of G)) (curve_A (group_of G)) (curve_B (group_of G))"
    using gfp.field_prime gfp.field_gt_3 by (auto simp: curve_ok_def)
qed

lemma group_of_Curve: "curve_ok g \<Longrightarrow> group_of (Curve g) = g"
  by (simp add: Curve_inverse)

lemma curve_valid: "curve_ok g \<Longrightarrow> gfp_valid g"
  by (simp add: curve_ok_def)

lemma gadd_comm: "curve_ok g \<Longrightarrow> gon g P \<Longrightarrow> gon g Q \<Longrightarrow> gadd g P Q = gadd g Q P"
  using law.add_comm [of "Curve g" P Q] by (simp add: group_of_Curve)

lemma gon_add: "curve_ok g \<Longrightarrow> gon g P \<Longrightarrow> gon g Q \<Longrightarrow> gon g (gadd g P Q)"
  using law.on_add [of "Curve g" P Q] by (simp add: group_of_Curve)

lemma gon_neg: "curve_ok g \<Longrightarrow> gon g P \<Longrightarrow> gon g (gneg g P)"
  using law.on_neg [of "Curve g" P] by (simp add: group_of_Curve)

lemma gon_mul: "curve_ok g \<Longrightarrow> gon g P \<Longrightarrow> gon g (gmul g k P)"
  using law.on_smul [of "Curve g" P] by (simp add: group_of_Curve)

lemma gneg_neg: "curve_ok g \<Longrightarrow> gon g P \<Longrightarrow> gneg g (gneg g P) = P"
  using law.neg_neg [of "Curve g" P] law.on_red [of "Curve g" P] by (simp add: group_of_Curve)

lemma gmul_add: "curve_ok g \<Longrightarrow> gon g P \<Longrightarrow> gadd g (gmul g j P) (gmul g k P) = gmul g (j + k) P"
  using law.smul_add [of "Curve g" P] by (simp add: group_of_Curve)

lemma gmul_minus: "curve_ok g \<Longrightarrow> gon g P \<Longrightarrow> gmul g (- k) P = gneg g (gmul g k P)"
  using law.smul_minus [of "Curve g" P] by (simp add: group_of_Curve)

lemma gmul_0 [simp]: "aff_smul p a 0 P = Inf" and gmul_1 [simp]: "aff_smul p a 1 P = P"
  by (cases P; simp add: aff_smul_def)+

lemma gadd_mul_1:
  assumes "curve_ok g" "gon g P"
  shows "gadd g (gmul g k P) P = gmul g (k + 1) P" "gadd g P (gmul g k P) = gmul g (k + 1) P"
    "gadd g (gmul g k P) (gneg g P) = gmul g (k - 1) P"
  using gmul_add [OF assms, of k 1] gmul_add [OF assms, of 1 k] gmul_add [OF assms, of k "- 1"]
    gmul_minus [OF assms, of 1] by (simp_all add: add.commute)

lemma gmul_double: "curve_ok g \<Longrightarrow> gon g P \<Longrightarrow> gadd g (gmul g v P) (gmul g v P) = gmul g (v * 2) P"
  by (simp add: gmul_add) (simp add: mult.commute)

lemma gmul_triple:
  "curve_ok g \<Longrightarrow> gon g P \<Longrightarrow> gadd g (gadd g (gmul g v P) (gmul g v P)) (gmul g v P) = gmul g (v * 3) P"
  by (simp add: gmul_add) (simp add: mult.commute)

section \<open>Points at addresses\<close>

definition holds :: "ec_group \<Rightarrow> ec_state \<Rightarrow> nat \<Rightarrow> apoint \<Rightarrow> bool" where
  "holds g s a P \<longleftrightarrow> pt_of g (heap s a) \<and> represents g (heap s a) P"

lemma holdsD:
  assumes "holds g s a P"
  shows "pt_of g (heap s a)" "ec_point_is_compat (heap s a) g" "represents g (heap s a) P"
    "pt_ok (g_field g) (gfp_fac g) (heap s a)" "jac_rep (g_field g) (gfp_fac g) (heap s a) P"
    "red (g_field g) (Xof s a)" "red (g_field g) (Yof s a)"
  using assms by (auto simp: holds_def represents_def pt_ok_def pt_of_compat)

lemma holds_frame: "holds g s a P \<Longrightarrow> frame r s s' \<Longrightarrow> a \<noteq> r \<Longrightarrow> holds g s' a P"
  by (auto simp: holds_def frame_def)

lemma holds_unique: "gfp_valid g \<Longrightarrow> holds g s a P \<Longrightarrow> holds g s a Q \<Longrightarrow> P = Q"
  using gfp.jac_rep_unique by (auto simp: holds_def represents_def)

lemma add_slot: "gfp_valid g \<Longrightarrow> pt_of g (heap s r) \<Longrightarrow> pt_of g (heap s a) \<Longrightarrow> pt_of g (heap s b) \<Longrightarrow>
    EC_POINT_add g r a b ctx s = ossl_ec_GFp_simple_add g r a b ctx s"
  using gfp.meth_law [of g] by (auto simp: EC_POINT_add_def Let_def dest!: pt_of_compat)

lemma tpl_slot: "gfp_valid g \<Longrightarrow> pt_of g (heap s r) \<Longrightarrow> pt_of g (heap s a) \<Longrightarrow>
    EC_POINT_tpl g r a ctx s = ossl_ec_GFp_simple_tpl g r a ctx s"
  using gfp.meth_law [of g] by (auto simp: EC_POINT_tpl_def Let_def dest!: pt_of_compat)

lemma invert_slot: "gfp_valid g \<Longrightarrow> pt_of g (heap s a) \<Longrightarrow>
    EC_POINT_invert g a ctx s = ossl_ec_GFp_simple_invert g a ctx s"
  using gfp.meth_law [of g] by (auto simp: EC_POINT_invert_def Let_def dest!: pt_of_compat)

lemma infinity_slot: "gfp_valid g \<Longrightarrow> pt_of g pt \<Longrightarrow> EC_POINT_is_at_infinity g pt \<longleftrightarrow> pZ pt = 0"
  using gfp.infinity_iff [of g pt] by (simp add: pt_of_compat)

lemma holds_infinity: "gfp_valid g \<Longrightarrow> holds g s a P \<Longrightarrow> EC_POINT_is_at_infinity g (heap s a) \<longleftrightarrow> P = Inf"
  by (cases P) (auto simp: infinity_slot holds_def represents_def jac_rep_def)

lemma holds_flag: "gfp_valid g \<Longrightarrow> holds g s a Inf \<Longrightarrow> \<not> Z1of s a"
  using gfp.field_gt_3 [of g]
  by (auto simp: holds_def represents_def pt_ok_def jac_rep_def eqm_def mod_eq_0_iff_dvd)

text \<open>A result is flagged \<open>Z = 1\<close> only where the code copies a flagged operand.\<close>

lemma dbl_flag: "EC_POINT_dbl g r a ctx s = Some s' \<Longrightarrow> \<not> Z1of s' r"
  by (auto simp: EC_POINT_dbl_def ossl_ec_GFp_simple_dbl_def Let_def split: if_splits Option.bind_splits)

lemma copy_flag: "EC_POINT_copy r a s = Some s' \<Longrightarrow> Z1of s' r = Z1of s a"
  by (auto simp: EC_POINT_copy_def ossl_ec_GFp_simple_point_copy_def Let_def upd_pt_def split: if_splits)

lemma add_flag:
  "EC_POINT_add g r a b ctx s = Some s' \<Longrightarrow> Z1of s' r \<Longrightarrow>
    EC_POINT_is_at_infinity g (heap s a) \<and> Z1of s b \<or> EC_POINT_is_at_infinity g (heap s b) \<and> Z1of s a"
  by (auto simp: EC_POINT_add_def ossl_ec_GFp_simple_add_def Let_def dbl_flag copy_flag
      split: if_splits Option.bind_splits dest: dbl_flag copy_flag)

section \<open>The calls as steps\<close>

lemma returns_more: "returns m P \<Longrightarrow> (\<And>v. m = Some v \<Longrightarrow> P v \<Longrightarrow> Q v) \<Longrightarrow> returns m Q"
  by (auto simp: returns_ex)

text \<open>The step rules: what a call returns from addresses that hold points. The result may be one
  of the operands; every other address is left alone.\<close>

lemma add_holds:
  assumes "gfp_valid g" "holds g s a P" "holds g s b Q" "holds g s r R"
  shows "returns (EC_POINT_add g r a b True s) (\<lambda>s'. frame r s s' \<and> holds g s' r (gadd g P Q) \<and>
    (Z1of s' r \<longrightarrow> P = Inf \<and> Z1of s b \<or> Q = Inf \<and> Z1of s a))"
proof -
  have "returns (EC_POINT_add g r a b True s) (\<lambda>s'. frame r s s' \<and> holds g s' r (gadd g P Q))"
    using gfp.add_refines [of g s r a b P Q] assms holdsD [OF assms(2)] holdsD [OF assms(3)] holdsD [OF assms(4)]
    by (simp add: add_slot holds_def represents_def curve_A_def)
  then show ?thesis
  proof (rule returns_more)
    fix s' assume "EC_POINT_add g r a b True s = Some s'" "frame r s s' \<and> holds g s' r (gadd g P Q)"
    with add_flag [of g r a b True s s'] show "frame r s s' \<and> holds g s' r (gadd g P Q) \<and>
        (Z1of s' r \<longrightarrow> P = Inf \<and> Z1of s b \<or> Q = Inf \<and> Z1of s a)"
      using holds_infinity [OF assms(1,2)] holds_infinity [OF assms(1,3)] by blast
  qed
qed

lemma dbl_holds:
  assumes "gfp_valid g" "holds g s a P" "holds g s r R"
  shows "returns (EC_POINT_dbl g r a True s) (\<lambda>s'. frame r s s' \<and> holds g s' r (gadd g P P) \<and> \<not> Z1of s' r)"
proof -
  have "returns (ossl_ec_GFp_simple_dbl g r a True s) (\<lambda>s'. frame r s s' \<and> holds g s' r (gadd g P P))"
    by (rule returns_mono [OF gfp.dbl_refines [OF assms(1) holdsD(2,4,5) [OF assms(2)], of r]])
      (use holdsD [OF assms(3)] in \<open>auto simp: holds_def represents_def curve_A_def frame_def pt_of_def\<close>)
  then have "returns (EC_POINT_dbl g r a True s) (\<lambda>s'. frame r s s' \<and> holds g s' r (gadd g P P))"
    using assms(1) holdsD(2) [OF assms(2)] holdsD(2) [OF assms(3)] by simp
  then show ?thesis by (auto simp: returns_ex dest: dbl_flag)
qed

text \<open>Tripling a point that is not flagged, or infinity.\<close>

lemma tpl_holds:
  assumes "curve_ok g" "holds g s a P" "holds g s r R" "gon g P" "Z1of s r \<longrightarrow> P = Inf"
  shows "returns (EC_POINT_tpl g r a True s) (\<lambda>s'. frame r s s' \<and>
    holds g s' r (gadd g (gadd g P P) P) \<and> \<not> Z1of s' r)"
proof -
  have v: "gfp_valid g" using assms(1) by (rule curve_valid)
  have "returns (ossl_ec_GFp_simple_tpl g r a True s) (\<lambda>s'. frame r s s' \<and>
      holds g s' r (gadd g (gadd g P P) P) \<and> \<not> Z1of s' r)"
    by (rule returns_mono [OF gfp.tpl_refines [OF v holdsD(2,4,5) [OF assms(2)], of "curve_B g" r]])
      (use assms(1,4,5) holdsD [OF assms(3)] in
        \<open>auto simp: holds_def represents_def curve_A_def frame_def pt_of_def pt_ok_def curve_ok_def\<close>)
  then show ?thesis using v holdsD(1) [OF assms(2)] holdsD(1) [OF assms(3)] by (simp add: tpl_slot)
qed

lemma copy_holds:
  assumes "gfp_valid g" "holds g s a P" "pt_of g (heap s r)"
  shows "returns (EC_POINT_copy r a s) (\<lambda>s'. frame r s s' \<and> holds g s' r P \<and> Z1of s' r = Z1of s a)"
proof -
  have "returns (EC_POINT_copy r a s) (\<lambda>s'. frame r s s' \<and> holds g s' r P)"
    using gfp.copy_refines [OF assms(1,3) holdsD(1,4,5) [OF assms(2)]]
    by (simp add: holds_def represents_def)
  then show ?thesis by (auto simp: returns_ex dest: copy_flag)
qed

lemma invert_holds:
  assumes "gfp_valid g" "holds g s a P"
  shows "returns (EC_POINT_invert g a ctx s) (\<lambda>s'. frame a s s' \<and> holds g s' a (gneg g P) \<and> Z1of s' a = Z1of s a)"
proof -
  have "returns (ossl_ec_GFp_simple_invert g a ctx s) (\<lambda>s'. frame a s s' \<and> holds g s' a (gneg g P))"
    by (rule returns_mono [OF gfp.invert_refines [OF assms(1) holdsD(2,4,5) [OF assms(2)]]])
      (use holdsD(1) [OF assms(2)] in \<open>auto simp: holds_def represents_def frame_def pt_of_def\<close>)
  then have "returns (ossl_ec_GFp_simple_invert g a ctx s) (\<lambda>s'. frame a s s' \<and> holds g s' a (gneg g P) \<and> Z1of s' a = Z1of s a)"
    by (auto simp: returns_ex ossl_ec_GFp_simple_invert_def split: if_splits Option.bind_splits)
  then show ?thesis using assms(1) holdsD(1) [OF assms(2)] by (simp add: invert_slot)
qed

lemma new_holds:
  assumes "gfp_valid g"
  shows "returns (EC_POINT_new g (Some n) s) (\<lambda>(m, s'). m = n \<and> (\<forall>a. a \<noteq> n \<longrightarrow> heap s' a = heap s a) \<and> holds g s' n Inf \<and> \<not> Z1of s' n)"
  using gfp.meth_law [OF assms] gfp.pos [OF assms]
  by (auto simp: EC_POINT_new_def Let_def ossl_ec_GFp_simple_point_init_def upd_pt_def holds_def pt_of_def
      represents_def pt_ok_def jac_rep_def red_def)

text \<open>The point operations do not use the random generator.\<close>

lemma dbl_rng: "EC_POINT_dbl g r a ctx s = Some s' \<Longrightarrow> rng s' = rng s"
  by (auto simp: EC_POINT_dbl_def ossl_ec_GFp_simple_dbl_def Let_def split: if_splits Option.bind_splits)

lemma copy_rng: "EC_POINT_copy r a s = Some s' \<Longrightarrow> rng s' = rng s"
  by (auto simp: EC_POINT_copy_def ossl_ec_GFp_simple_point_copy_def Let_def upd_pt_def split: if_splits)

lemma add_rng: "EC_POINT_add g r a b ctx s = Some s' \<Longrightarrow> rng s' = rng s"
  by (auto simp: EC_POINT_add_def ossl_ec_GFp_simple_add_def Let_def
      split: if_splits Option.bind_splits dest!: dbl_rng copy_rng)

lemma tpl_rng: "EC_POINT_tpl g r a ctx s = Some s' \<Longrightarrow> rng s' = rng s"
  by (auto simp: EC_POINT_tpl_def ossl_ec_GFp_simple_tpl_def ossl_ec_GFp_simple_point_set_to_infinity_def
      EC_POINT_set_to_infinity_def Let_def split: if_splits Option.bind_splits)

lemma invert_rng: "EC_POINT_invert g a ctx s = Some s' \<Longrightarrow> rng s' = rng s"
  by (auto simp: EC_POINT_invert_def ossl_ec_GFp_simple_invert_def Let_def split: if_splits Option.bind_splits)

lemma new_rng: "EC_POINT_new g al s = Some (n, s') \<Longrightarrow> rng s' = rng s"
  by (auto simp: EC_POINT_new_def Let_def upd_pt_def split: if_splits option.splits)

end
