(* ===== verification/Ec_Ladder.thy ===== *)
theory Ec_Ladder
  imports Ec_Points
begin

text \<open>
  The Montgomery ladder (\<open>ecp_smpl.c\<close> 1755-1933, \<open>ec_mult.c\<close> 112-384, \<open>ec_local.h\<close> 739-773):
  randomised initialisation, the differential addition-and-doubling step on X and Z, the recovery of
  Y, and the loop over the bits of the padded scalar with merged conditional swaps.
\<close>

section \<open>Initialisation\<close>

text \<open>The temporaries are the coordinates of \<open>r\<close> and \<open>s\<close> themselves: \<open>t1 = s->Z\<close>, \<open>t2 = r->Z\<close>,
  \<open>t3 = s->X\<close>, \<open>t4 = r->X\<close>, \<open>t5 = s->Y\<close>, and \<open>r->Y\<close> and \<open>s->Z\<close> keep the two blinding factors.\<close>

definition ladder_pre_coords :: "ec_group \<Rightarrow> nat \<Rightarrow> nat \<Rightarrow> nat \<Rightarrow> bool \<Rightarrow> ec_state \<Rightarrow> ec_state option" where
  "ladder_pre_coords g r s p ctx st = do {
     v \<leftarrow> field_sqr g (Xof st p) ctx;
     let st = wr_X s v st;
     v \<leftarrow> z_mod_sub_quick (Xof st s) (g_a g) (g_field g);
     let st = wr_X r v st;
     v \<leftarrow> field_sqr g (Xof st r) ctx;
     let st = wr_X r v st;
     v \<leftarrow> field_mul g (Xof st p) (g_b g) ctx;
     let st = wr_Y s v st;
     v \<leftarrow> z_mod_lshift_quick (Yof st s) 3 (g_field g);
     let st = wr_Y s v st;
     v \<leftarrow> z_mod_sub_quick (Xof st r) (Yof st s) (g_field g);
     let st = wr_X r v st;
     v \<leftarrow> z_mod_add_quick (Xof st s) (g_a g) (g_field g);
     let st = wr_Z s v st;
     v \<leftarrow> field_mul g (Xof st p) (Zof st s) ctx;
     let st = wr_Z r v st;
     v \<leftarrow> z_mod_add_quick (g_b g) (Zof st r) (g_field g);
     let st = wr_Z r v st;
     v \<leftarrow> z_mod_lshift_quick (Zof st r) 2 (g_field g);
     Some (wr_Z r v st)
   }"

definition ladder_pre_blind :: "ec_group \<Rightarrow> nat \<Rightarrow> nat \<Rightarrow> nat \<Rightarrow> bool \<Rightarrow> ec_state \<Rightarrow> ec_state option" where
  "ladder_pre_blind g r s p ctx st = do {
     v \<leftarrow> field_mul g (Zof st r) (Yof st r) ctx;
     let st = wr_Z r v st;
     v \<leftarrow> field_mul g (Xof st r) (Yof st r) ctx;
     let st = wr_X r v st;
     v \<leftarrow> field_mul g (Xof st p) (Zof st s) ctx;
     let st = wr_X s v st;
     Some (wr_Z_is_one s False (wr_Z_is_one r False st))
   }"

definition ossl_ec_GFp_simple_ladder_pre :: "ec_group \<Rightarrow> nat \<Rightarrow> nat \<Rightarrow> nat \<Rightarrow> bool \<Rightarrow> ec_state \<Rightarrow> ec_state option" where
  "ossl_ec_GFp_simple_ladder_pre g r s p ctx st =
     (if \<not> Z1of st p then None
      else do {
        st \<leftarrow> ladder_pre_coords g r s p ctx st;
        (lambda, rng') \<leftarrow> rand_nonzero (rng st);
        let st = wr_Y r lambda (wr_rng rng' st);
        (lambda, rng') \<leftarrow> rand_nonzero (rng st);
        let st = wr_Z s lambda (wr_rng rng' st);
        st \<leftarrow> (if has_slot g ''field_encode'' then do {
            v \<leftarrow> field_encode g (Yof st r) ctx;
            let st = wr_Y r v st;
            v \<leftarrow> field_encode g (Zof st s) ctx;
            Some (wr_Z s v st)
          } else Some st);
        ladder_pre_blind g r s p ctx st
      })"

section \<open>One step\<close>

definition ossl_ec_GFp_simple_ladder_step :: "ec_group \<Rightarrow> nat \<Rightarrow> nat \<Rightarrow> nat \<Rightarrow> bool \<Rightarrow> ec_state \<Rightarrow> ec_state option" where
  "ossl_ec_GFp_simple_ladder_step g r s p ctx st =
     (if \<not> ctx then None
      else do {
        t6 \<leftarrow> field_mul g (Xof st r) (Xof st s) ctx;
        t0 \<leftarrow> field_mul g (Zof st r) (Zof st s) ctx;
        t4 \<leftarrow> field_mul g (Xof st r) (Zof st s) ctx;
        t3 \<leftarrow> field_mul g (Zof st r) (Xof st s) ctx;
        t5 \<leftarrow> field_mul g (g_a g) t0 ctx;
        t5 \<leftarrow> z_mod_add_quick t6 t5 (g_field g);
        t6 \<leftarrow> z_mod_add_quick t3 t4 (g_field g);
        t5 \<leftarrow> field_mul g t6 t5 ctx;
        t0 \<leftarrow> field_sqr g t0 ctx;
        t2 \<leftarrow> z_mod_lshift_quick (g_b g) 2 (g_field g);
        t0 \<leftarrow> field_mul g t2 t0 ctx;
        t5 \<leftarrow> z_mod_lshift1_quick t5 (g_field g);
        t3 \<leftarrow> z_mod_sub_quick t4 t3 (g_field g);
        v \<leftarrow> field_sqr g t3 ctx;
        let st = wr_Z s v st;
        t4 \<leftarrow> field_mul g (Zof st s) (Xof st p) ctx;
        t0 \<leftarrow> z_mod_add_quick t0 t5 (g_field g);
        v \<leftarrow> z_mod_sub_quick t0 t4 (g_field g);
        let st = wr_X s v st;
        t4 \<leftarrow> field_sqr g (Xof st r) ctx;
        t5 \<leftarrow> field_sqr g (Zof st r) ctx;
        t6 \<leftarrow> field_mul g t5 (g_a g) ctx;
        t1 \<leftarrow> z_mod_add_quick (Xof st r) (Zof st r) (g_field g);
        t1 \<leftarrow> field_sqr g t1 ctx;
        t1 \<leftarrow> z_mod_sub_quick t1 t4 (g_field g);
        t1 \<leftarrow> z_mod_sub_quick t1 t5 (g_field g);
        t3 \<leftarrow> z_mod_sub_quick t4 t6 (g_field g);
        t3 \<leftarrow> field_sqr g t3 ctx;
        t0 \<leftarrow> field_mul g t5 t1 ctx;
        t0 \<leftarrow> field_mul g t2 t0 ctx;
        v \<leftarrow> z_mod_sub_quick t3 t0 (g_field g);
        let st = wr_X r v st;
        t3 \<leftarrow> z_mod_add_quick t4 t6 (g_field g);
        t4 \<leftarrow> field_sqr g t5 ctx;
        t4 \<leftarrow> field_mul g t4 t2 ctx;
        t1 \<leftarrow> field_mul g t1 t3 ctx;
        t1 \<leftarrow> z_mod_lshift1_quick t1 (g_field g);
        v \<leftarrow> z_mod_add_quick t4 t1 (g_field g);
        Some (wr_Z r v st)
      })"

section \<open>Recovering the point\<close>

text \<open>The numerators of \<open>x\<close> and \<open>y\<close> and their common denominator, for finite \<open>r\<close> and \<open>s\<close>.\<close>

definition ladder_post_nums :: "ec_group \<Rightarrow> ec_point \<Rightarrow> ec_point \<Rightarrow> ec_point \<Rightarrow> bool \<Rightarrow> (int \<times> int \<times> int) option" where
  "ladder_post_nums g r s p ctx = do {
     t4 \<leftarrow> z_mod_lshift1_quick (pY p) (g_field g);
     t6 \<leftarrow> field_mul g (pX r) t4 ctx;
     t6 \<leftarrow> field_mul g (pZ s) t6 ctx;
     t5 \<leftarrow> field_mul g (pZ r) t6 ctx;
     t1 \<leftarrow> z_mod_lshift1_quick (g_b g) (g_field g);
     t1 \<leftarrow> field_mul g (pZ s) t1 ctx;
     t3 \<leftarrow> field_sqr g (pZ r) ctx;
     t2 \<leftarrow> field_mul g t3 t1 ctx;
     t6 \<leftarrow> field_mul g (pZ r) (g_a g) ctx;
     t1 \<leftarrow> field_mul g (pX p) (pX r) ctx;
     t1 \<leftarrow> z_mod_add_quick t1 t6 (g_field g);
     t1 \<leftarrow> field_mul g (pZ s) t1 ctx;
     t0 \<leftarrow> field_mul g (pX p) (pZ r) ctx;
     t6 \<leftarrow> z_mod_add_quick (pX r) t0 (g_field g);
     t6 \<leftarrow> field_mul g t6 t1 ctx;
     t6 \<leftarrow> z_mod_add_quick t6 t2 (g_field g);
     t0 \<leftarrow> z_mod_sub_quick t0 (pX r) (g_field g);
     t0 \<leftarrow> field_sqr g t0 ctx;
     t0 \<leftarrow> field_mul g t0 (pX s) ctx;
     t0 \<leftarrow> z_mod_sub_quick t6 t0 (g_field g);
     t1 \<leftarrow> field_mul g (pZ s) t4 ctx;
     t1 \<leftarrow> field_mul g t3 t1 ctx;
     Some (t5, t0, t1)
   }"

definition ossl_ec_GFp_simple_ladder_post :: "ec_group \<Rightarrow> nat \<Rightarrow> nat \<Rightarrow> nat \<Rightarrow> bool \<Rightarrow> ec_state \<Rightarrow> ec_state option" where
  "ossl_ec_GFp_simple_ladder_post g r s p ctx st =
     (if Zof st r = 0 then EC_POINT_set_to_infinity g r st
      else if Zof st s = 0 then do {
        st \<leftarrow> EC_POINT_copy r p st;
        EC_POINT_invert g r ctx st
      }
      else if \<not> ctx then None
      else do {
        (t5, t0, t1) \<leftarrow> ladder_post_nums g (heap st r) (heap st s) (heap st p) ctx;
        t1 \<leftarrow> (if has_slot g ''field_decode'' then field_decode g t1 ctx else Some t1);
        (t1, rng') \<leftarrow> field_inv g t1 (rng st) ctx;
        t1 \<leftarrow> (if has_slot g ''field_encode'' then field_encode g t1 ctx else Some t1);
        x \<leftarrow> field_mul g t5 t1 ctx;
        y \<leftarrow> field_mul g t0 t1 ctx;
        one \<leftarrow> field_one g ctx;
        Some (wr_Z_is_one r True (wr_Z r one (wr_Y r y (wr_X r x (wr_rng rng' st)))))
      })"

text \<open>The dispatchers; without a method the step is an addition and a doubling.\<close>

definition ec_point_ladder_pre :: "ec_group \<Rightarrow> nat \<Rightarrow> nat \<Rightarrow> nat \<Rightarrow> bool \<Rightarrow> ec_state \<Rightarrow> ec_state option" where
  "ec_point_ladder_pre g r s p ctx st =
     (let f = slot (g_meth g) ''ladder_pre'' in
      if f = ''ossl_ec_GFp_simple_ladder_pre'' then ossl_ec_GFp_simple_ladder_pre g r s p ctx st
      else if f \<noteq> ''0'' then None
      else do { st \<leftarrow> EC_POINT_copy s p st; EC_POINT_dbl g r s ctx st })"

definition ec_point_ladder_step :: "ec_group \<Rightarrow> nat \<Rightarrow> nat \<Rightarrow> nat \<Rightarrow> bool \<Rightarrow> ec_state \<Rightarrow> ec_state option" where
  "ec_point_ladder_step g r s p ctx st =
     (let f = slot (g_meth g) ''ladder_step'' in
      if f = ''ossl_ec_GFp_simple_ladder_step'' then ossl_ec_GFp_simple_ladder_step g r s p ctx st
      else if f \<noteq> ''0'' then None
      else do { st \<leftarrow> EC_POINT_add g s r s ctx st; EC_POINT_dbl g r r ctx st })"

definition ec_point_ladder_post :: "ec_group \<Rightarrow> nat \<Rightarrow> nat \<Rightarrow> nat \<Rightarrow> bool \<Rightarrow> ec_state \<Rightarrow> ec_state option" where
  "ec_point_ladder_post g r s p ctx st =
     (let f = slot (g_meth g) ''ladder_post'' in
      if f = ''ossl_ec_GFp_simple_ladder_post'' then ossl_ec_GFp_simple_ladder_post g r s p ctx st
      else if f \<noteq> ''0'' then None
      else Some st)"

section \<open>The ladder\<close>

text \<open>\<open>EC_POINT_CSWAP\<close>: coordinates and flag change places; method and curve name stay.\<close>

definition EC_POINT_CSWAP :: "bool \<Rightarrow> nat \<Rightarrow> nat \<Rightarrow> ec_state \<Rightarrow> ec_state" where
  "EC_POINT_CSWAP c a b st =
     (if c then
        let A = heap st a; B = heap st b;
            st = wr_X b (pX A) (wr_X a (pX B) st);
            st = wr_Y b (pY A) (wr_Y a (pY B) st);
            st = wr_Z b (pZ A) (wr_Z a (pZ B) st)
        in wr_Z_is_one b (pZ_is_one A) (wr_Z_is_one a (pZ_is_one B) st)
      else st)"

text \<open>The iterations \<open>i - 1, .., 0\<close>.\<close>

fun ladder_loop :: "ec_group \<Rightarrow> nat \<Rightarrow> nat \<Rightarrow> nat \<Rightarrow> int \<Rightarrow> bool \<Rightarrow> nat \<Rightarrow> bool \<Rightarrow> ec_state \<Rightarrow> (bool \<times> ec_state) option" where
  "ladder_loop g r s p k ctx 0 pbit st = Some (pbit, st)"
| "ladder_loop g r s p k ctx (Suc i) pbit st = do {
     let kbit = (bit k i \<noteq> pbit);
     let st = EC_POINT_CSWAP kbit r s st;
     st \<leftarrow> ec_point_ladder_step g r s p ctx st;
     ladder_loop g r s p k ctx i (pbit \<noteq> kbit) st
   }"

text \<open>The scalar padded to a fixed length: \<open>k + n\<close> or \<open>k + 2 n\<close> for the cardinality \<open>n\<close>, whichever has
  the bit above the length of \<open>n\<close>.\<close>

definition ladder_scalar :: "int \<Rightarrow> int \<Rightarrow> int option" where
  "ladder_scalar scalar cardinality = do {
     let cardinality_bits = z_num_bits cardinality;
     k \<leftarrow> (if z_num_bits scalar > cardinality_bits \<or> scalar < 0 then z_nnmod scalar cardinality else Some scalar);
     let lambda = k + cardinality;
     let k = lambda + cardinality;
     Some (if bit lambda cardinality_bits then lambda else k)
   }"

definition ossl_ec_scalar_mul_ladder ::
  "ec_group \<Rightarrow> nat \<Rightarrow> int \<Rightarrow> nat option \<Rightarrow> nat option \<Rightarrow> nat option \<Rightarrow> bool \<Rightarrow> ec_state \<Rightarrow> ec_state option" where
  "ossl_ec_scalar_mul_ladder g r scalar point alloc_p alloc_s ctx st =
     (if (case point of None \<Rightarrow> False | Some pt \<Rightarrow> EC_POINT_is_at_infinity g (heap st pt))
      then EC_POINT_set_to_infinity g r st
      else if g_order g = 0 then None
      else if g_cofactor g = 0 then None
      else do {
        (p, st) \<leftarrow> EC_POINT_new g alloc_p st;
        (s, st) \<leftarrow> EC_POINT_new g alloc_s st;
        src \<leftarrow> (case point of None \<Rightarrow> g_generator g | Some pt \<Rightarrow> Some pt);
        st \<leftarrow> EC_POINT_copy p src st;
        (if \<not> ctx then None else Some ());
        let cardinality = g_order g * g_cofactor g;
        k \<leftarrow> ladder_scalar scalar cardinality;
        st \<leftarrow> (if Z1of st p then Some st
              else if slot (g_meth g) ''make_affine'' = ''ossl_ec_GFp_simple_make_affine''
              then ossl_ec_GFp_simple_make_affine g p ctx st else None);
        st \<leftarrow> ec_point_ladder_pre g r s p ctx st;
        (pbit, st) \<leftarrow> ladder_loop g r s p k ctx (z_num_bits cardinality) True st;
        let st = EC_POINT_CSWAP pbit r s st;
        ec_point_ladder_post g r s p ctx st
      })"

end
