(* ===== verification/Ec_Ladder_Law.thy ===== *)
theory Ec_Ladder_Law
  imports Ec_Points
begin

text \<open>
  The formulas of the Montgomery ladder on the curve: \<open>xz p X Z P\<close> says that \<open>(X : Z)\<close> are
  homogeneous coordinates of the abscissa of \<open>P\<close>. The three lemmas are the doubling formula, the
  differential addition formula, for all operands that differ by a finite point, and the recovery of
  the ordinate.
\<close>

fun xz :: "int \<Rightarrow> int \<Rightarrow> int \<Rightarrow> apoint \<Rightarrow> bool" where
  "xz p X Z Inf = (p dvd Z \<and> \<not> p dvd X)"
| "xz p X Z (Aff x y) = (\<not> p dvd Z \<and> eqm p X (x * Z))"

lemma xz_cong:
  assumes "eqm p X X'" "eqm p Z Z'"
  shows "xz p X Z P \<longleftrightarrow> xz p X' Z' P"
proof (cases P)
  case (Aff x y)
  have "eqm p (x * Z) (x * Z')" by (intro eqm_intros assms)
  with assms Aff show ?thesis
    by (simp add: dvd_eq_mod_eq_0 eqm_def)
qed (use assms in \<open>simp add: dvd_eq_mod_eq_0 eqm_def\<close>)

context good_curve
begin

lemma ndvd_mult: "\<not> p dvd x \<Longrightarrow> \<not> p dvd y \<Longrightarrow> \<not> p dvd x * y"
  using prime_int_dvd_mult [OF prime] by blast

lemma ndvd_sq: "\<not> p dvd x \<Longrightarrow> \<not> p dvd x ^ 2"
  by (simp add: power2_eq_square ndvd_mult)

lemma not4: "\<not> p dvd 4"
  using ndvd_sq [OF not2] by simp

lemma red_neq0: "red p y \<Longrightarrow> y \<noteq> 0 \<Longrightarrow> \<not> p dvd y"
  using red_dvd_0 by blast

lemma xz_double:
  assumes on: "on P" and x: "xz p X Z P"
  shows "xz p ((X ^ 2 - a * Z ^ 2) ^ 2 - 8 * b * X * Z ^ 3) (4 * Z * (X ^ 3 + a * X * Z ^ 2 + b * Z ^ 3)) (add P P)"
proof (cases P)
  case Inf
  then have Z: "p dvd Z" and "\<not> p dvd X" using x by simp_all
  then have X: "\<not> p dvd X ^ 2 * X ^ 2" by (intro ndvd_mult ndvd_sq)
  have Z0: "eqm p Z 0" using Z by (simp add: eqm_0)
  have "p dvd 4 * Z * (X ^ 3 + a * X * Z ^ 2 + b * Z ^ 3)" using Z by simp
  moreover have "eqm p ((X ^ 2 - a * Z ^ 2) ^ 2 - 8 * b * X * Z ^ 3) (X ^ 2 * X ^ 2)"
    using Z0 unfolding eqm_dvd by algebra
  ultimately show ?thesis using X Inf by (simp add: eqm_def dvd_eq_mod_eq_0)
next
  case (Aff x y)
  have e: "eqm p (y ^ 2) (x ^ 3 + a * x + b)" and r: "red p x" "red p y" using on Aff by simp_all
  have Z: "\<not> p dvd Z" and X: "eqm p X (x * Z)" using \<open>xz p X Z P\<close> Aff by simp_all
  have Z2: "\<not> p dvd Z ^ 2 * Z ^ 2" using Z by (intro ndvd_mult ndvd_sq)
  have Z': "eqm p (4 * Z * (X ^ 3 + a * X * Z ^ 2 + b * Z ^ 3)) (4 * y ^ 2 * (Z ^ 2 * Z ^ 2))"
    using X e unfolding eqm_dvd by algebra
  have X': "eqm p ((X ^ 2 - a * Z ^ 2) ^ 2 - 8 * b * X * Z ^ 3)
      (((3 * x ^ 2 + a) ^ 2 - 8 * x * y ^ 2) * (Z ^ 2 * Z ^ 2))"
    using X e unfolding eqm_dvd by algebra
  show ?thesis
  proof (cases "y = 0")
    case True
    have "\<not> p dvd 3 * x ^ 2 + a"
      using e True by (intro singular_tangent [OF nons]) (auto intro: eqm_sym)
    then have "\<not> p dvd (3 * x ^ 2 + a) ^ 2 * (Z ^ 2 * Z ^ 2)" using Z2 by (simp add: ndvd_mult ndvd_sq)
    with True Aff show ?thesis unfolding xz_cong [OF X' Z'] by simp
  next
    case False
    have nd: "\<not> p dvd 2 * y" using red_neq0 [OF r(2) False] not2 by (simp add: ndvd_mult)
    define l where "l = (3 * x ^ 2 + a) * minv p (2 * y)"
    have l: "eqm p (l * (2 * y)) (3 * x ^ 2 + a)" unfolding l_def by (rule minv_solve [OF prime nd])
    define x3 where "x3 = (l ^ 2 - x - x) mod p"
    have x3: "eqm p x3 (l ^ 2 - x - x)" by (simp add: x3_def eqm_def)
    have "eqm p (((3 * x ^ 2 + a) ^ 2 - 8 * x * y ^ 2) * (Z ^ 2 * Z ^ 2)) (x3 * (4 * y ^ 2 * (Z ^ 2 * Z ^ 2)))"
    proof -
      have "eqm p ((3 * x ^ 2 + a) ^ 2 - 8 * x * y ^ 2) (x3 * (4 * y ^ 2))"
        using l x3 unfolding eqm_dvd by algebra
      from eqm_mult [OF this eqm_refl] show ?thesis by (simp add: mult.assoc)
    qed
    moreover have "\<not> p dvd 4 * y ^ 2 * (Z ^ 2 * Z ^ 2)"
      using Z2 not4 red_neq0 [OF r(2) False] by (simp add: ndvd_mult ndvd_sq)
    moreover obtain w where "add P P = Aff x3 w"
      using Aff False by (auto simp: chord_def Let_def l_def x3_def)
    ultimately show ?thesis unfolding xz_cong [OF X' Z'] by simp
  qed
qed

lemma xz_diff_add:
  assumes on: "on R" "on S" and d: "add S (neg R) = Aff xp yp"
    and R: "xz p X1 Z1 R" and S: "xz p X2 Z2 S"
  shows "xz p (2 * (X1 * Z2 + X2 * Z1) * (X1 * X2 + a * (Z1 * Z2)) + 4 * b * (Z1 * Z2) ^ 2 -
      xp * (X1 * Z2 - X2 * Z1) ^ 2) ((X1 * Z2 - X2 * Z1) ^ 2) (add R S)" (is "xz p ?X ?Z _")
proof -
  consider "R = Inf" | "R \<noteq> Inf" "S = Inf" | x1 y1 x2 y2 where "R = Aff x1 y1" "S = Aff x2 y2"
    by (cases R; cases S) auto
  then show ?thesis
  proof cases
    case 1
    with d have S': "S = Aff xp yp" by simp
    have Z: "p dvd Z1" "\<not> p dvd X1" "\<not> p dvd Z2" "eqm p X2 (xp * Z2)" using R S 1 S' by simp_all
    have Z0: "eqm p Z1 0" using Z(1) by (simp add: eqm_0)
    have Z': "eqm p ?Z ((X1 * Z2) ^ 2)" using Z0 unfolding eqm_dvd by algebra
    have X': "eqm p ?X (xp * (X1 * Z2) ^ 2)" using Z0 Z(4) unfolding eqm_dvd by algebra
    have "\<not> p dvd (X1 * Z2) ^ 2" using Z by (simp add: ndvd_mult ndvd_sq)
    then show ?thesis unfolding xz_cong [OF X' Z'] using 1 S' by simp
  next
    case 2
    with d have "neg R = Aff xp yp" by simp
    with 2 obtain y1 where R': "R = Aff xp y1" by (cases R) auto
    have Z: "p dvd Z2" "\<not> p dvd X2" "\<not> p dvd Z1" "eqm p X1 (xp * Z1)" using R S 2 R' by simp_all
    have Z0: "eqm p Z2 0" using Z(1) by (simp add: eqm_0)
    have Z': "eqm p ?Z ((X2 * Z1) ^ 2)" using Z0 unfolding eqm_dvd by algebra
    have X': "eqm p ?X (xp * (X2 * Z1) ^ 2)" using Z0 Z(4) unfolding eqm_dvd by algebra
    have "\<not> p dvd (X2 * Z1) ^ 2" using Z by (simp add: ndvd_mult ndvd_sq)
    then show ?thesis unfolding xz_cong [OF X' Z'] using 2 R' by simp
  next
    case (3 x1 y1 x2 y2)
    have Z: "\<not> p dvd Z1" "\<not> p dvd Z2" "eqm p X1 (x1 * Z1)" "eqm p X2 (x2 * Z2)" using R S 3 by simp_all
    have e: "eqm p (y1 ^ 2) (x1 ^ 3 + a * x1 + b)" "eqm p (y2 ^ 2) (x2 ^ 3 + a * x2 + b)"
      and r: "red p x1" "red p y1" "red p x2" "red p y2" using on 3 by simp_all
    have ZZ: "\<not> p dvd (Z1 * Z2) ^ 2" using Z by (simp add: ndvd_mult ndvd_sq)
    have Z': "eqm p ?Z ((x1 - x2) ^ 2 * (Z1 * Z2) ^ 2)" using Z(3,4) unfolding eqm_dvd by algebra
    have X': "eqm p ?X ((2 * (x1 + x2) * (x1 * x2 + a) + 4 * b - xp * (x1 - x2) ^ 2) * (Z1 * Z2) ^ 2)"
      using Z(3,4) unfolding eqm_dvd by algebra
    show ?thesis
    proof (cases "x1 = x2")
      case True
      have "y2 \<noteq> (- y1) mod p \<or> y1 = 0 \<Longrightarrow> False" and s: "y2 \<noteq> y1"
      proof -
        have N: "S \<noteq> R" using d neg_add(2) [OF on(1)] by auto
        then show s: "y2 \<noteq> y1" using 3 True by simp
        assume a: "y2 \<noteq> (- y1) mod p \<or> y1 = 0"
        have "add R S = Inf" using 3 True s by auto
        then have "S = neg R" using on by (simp add: add_inf)
        then have y2: "y2 = (- y1) mod p" using 3 by simp
        with a have "y1 = 0" by blast
        with y2 s show False by simp
      qed
      then have y: "y2 = (- y1) mod p" "y1 \<noteq> 0" by blast+
      have "eqm p (2 * (x1 + x2) * (x1 * x2 + a) + 4 * b - xp * (x1 - x2) ^ 2) (4 * y1 ^ 2)"
      proof -
        have E: "2 * (x1 + x1) * (x1 * x1 + a) + 4 * b - xp * (x1 - x1) ^ 2 - 4 * y1 ^ 2 =
            - 4 * (y1 ^ 2 - (x1 ^ 3 + a * x1 + b))"
          by (simp add: power2_eq_square power3_eq_cube algebra_simps)
        show ?thesis unfolding True [symmetric] eqm_dvd E
          by (rule dvd_mult) (rule e(1) [unfolded eqm_dvd])
      qed
      from eqm_trans [OF X' eqm_mult [OF this eqm_refl]]
      have X'': "eqm p ?X (4 * y1 ^ 2 * (Z1 * Z2) ^ 2)" .
      have "\<not> p dvd 4 * y1 ^ 2 * (Z1 * Z2) ^ 2"
        using ZZ not4 red_neq0 [OF r(2) y(2)] by (simp add: ndvd_mult ndvd_sq)
      moreover have "add R S = Inf" using 3 True s by auto
      ultimately show ?thesis unfolding xz_cong [OF X'' Z'] using True by simp
    next
      case False
      have nd: "\<not> p dvd x2 - x1" "\<not> p dvd x1 - x2" using red_diff [OF r(3,1)] red_diff [OF r(1,3)] False by auto
      define l where "l = (y2 - y1) * minv p (x2 - x1)"
      have l: "eqm p (l * (x2 - x1)) (y2 - y1)" unfolding l_def by (rule minv_solve [OF prime nd(1)])
      define x3 where "x3 = (l ^ 2 - x1 - x2) mod p"
      have x3: "eqm p x3 (l ^ 2 - x1 - x2)" by (simp add: x3_def eqm_def)
      obtain w where w: "add R S = Aff x3 w"
        using 3 False by (auto simp: chord_def Let_def l_def x3_def)
      define m where "m = ((- y1) mod p - y2) * minv p (x1 - x2)"
      have "eqm p (m * (x1 - x2)) ((- y1) mod p - y2)" unfolding m_def by (rule minv_solve [OF prime nd(2)])
      moreover have "eqm p ((- y1) mod p - y2) (- y1 - y2)" by (intro eqm_intros) (simp add: eqm_def)
      ultimately have m: "eqm p (m * (x1 - x2)) (- y1 - y2)" by (rule eqm_trans)
      have "xp = (m ^ 2 - x2 - x1) mod p"
        using d 3 False by (auto simp: chord_def Let_def m_def)
      then have xp: "eqm p xp (m ^ 2 - x2 - x1)" by (simp add: eqm_def)
      have sum: "eqm p (2 * (x1 + x2) * (x1 * x2 + a) + 4 * b - xp * (x1 - x2) ^ 2) (x3 * (x1 - x2) ^ 2)"
      proof -
        have "eqm p (xp * (x1 - x2) ^ 2) ((y1 + y2) ^ 2 - (x1 + x2) * (x1 - x2) ^ 2)"
          using xp m unfolding eqm_dvd by algebra
        moreover have "eqm p (x3 * (x1 - x2) ^ 2) ((y1 - y2) ^ 2 - (x1 + x2) * (x1 - x2) ^ 2)"
          using x3 l unfolding eqm_dvd by algebra
        ultimately show ?thesis using e unfolding eqm_dvd by algebra
      qed
      from eqm_mult [OF this eqm_refl [of p "(Z1 * Z2) ^ 2"]]
      have "eqm p ((2 * (x1 + x2) * (x1 * x2 + a) + 4 * b - xp * (x1 - x2) ^ 2) * (Z1 * Z2) ^ 2)
          (x3 * ((x1 - x2) ^ 2 * (Z1 * Z2) ^ 2))" by (simp add: mult.assoc)
      moreover have "\<not> p dvd (x1 - x2) ^ 2 * (Z1 * Z2) ^ 2" using ZZ nd by (simp add: ndvd_mult ndvd_sq)
      ultimately show ?thesis unfolding xz_cong [OF X' Z'] w by simp
    qed
  qed
qed

text \<open>The ordinate of \<open>R\<close> from the abscissas of \<open>R\<close>, \<open>P\<close> and \<open>R + P\<close>.\<close>

lemma recover_y:
  assumes on: "on (Aff x2 y2)" "on (Aff x1 y1)" and s: "add (Aff x2 y2) (Aff x1 y1) = Aff x3 w"
  shows "eqm p (2 * y1 * y2) (2 * b + (a + x1 * x2) * (x1 + x2) - x3 * (x1 - x2) ^ 2)"
proof -
  have e: "eqm p (y1 ^ 2) (x1 ^ 3 + a * x1 + b)" "eqm p (y2 ^ 2) (x2 ^ 3 + a * x2 + b)"
    and r: "red p x1" "red p y1" "red p x2" "red p y2" using on by simp_all
  show ?thesis
  proof (cases "x1 = x2")
    case True
    have y: "y1 = y2" using s True by (auto split: if_splits)
    have E: "2 * y2 * y2 - (2 * b + (a + x2 * x2) * (x2 + x2) - x3 * (x2 - x2) ^ 2) =
        2 * (y2 ^ 2 - (x2 ^ 3 + a * x2 + b))"
      by (simp add: power2_eq_square power3_eq_cube algebra_simps)
    show ?thesis unfolding True y eqm_dvd E by (rule dvd_mult) (rule e(2) [unfolded eqm_dvd])
  next
    case False
    have nd: "\<not> p dvd x1 - x2" using red_diff [OF r(1,3)] False by auto
    define l where "l = (y1 - y2) * minv p (x1 - x2)"
    have l: "eqm p (l * (x1 - x2)) (y1 - y2)" unfolding l_def by (rule minv_solve [OF prime nd])
    have "x3 = (l ^ 2 - x2 - x1) mod p" using s False by (auto simp: chord_def Let_def l_def)
    then have x3: "eqm p x3 (l ^ 2 - x2 - x1)" by (simp add: eqm_def)
    have "eqm p (x3 * (x1 - x2) ^ 2) ((y1 - y2) ^ 2 - (x1 + x2) * (x1 - x2) ^ 2)"
      using x3 l unfolding eqm_dvd by algebra
    then show ?thesis using e unfolding eqm_dvd by algebra
  qed
qed

end

end
