(* ===== verification/Ec_Ladder_Correct.thy ===== *)
theory Ec_Ladder_Correct
  imports Ec_Ladder Ec_Ladder_Law
begin

text \<open>
  Correctness of the ladder: \<open>lad g st r R\<close> says that address \<open>r\<close> holds homogeneous coordinates of
  the abscissa of \<open>R\<close>. Initialisation, step and recovery are rules about it; the loop keeps
  \<open>R = m P\<close> and \<open>S = (m + 1) P\<close>, exchanged as \<open>pbit\<close> says.
\<close>

section \<open>The routines on represented coordinates\<close>

context ec_field
begin

lemma ladder_step_run:
  assumes v: "valid g" and d: "r \<noteq> s" "p \<noteq> r" "p \<noteq> s"
    and X1: "rp g (Xof st r) X1" and Z1: "rp g (Zof st r) Z1"
    and X2: "rp g (Xof st s) X2" and Z2: "rp g (Zof st s) Z2" and xp: "rp g (Xof st p) xp"
  defines "a \<equiv> g_a g * fac g" and "b \<equiv> g_b g * fac g"
  shows "returns (ossl_ec_GFp_simple_ladder_step g r s p True st) (\<lambda>st'.
    (\<forall>c. c \<noteq> r \<and> c \<noteq> s \<longrightarrow> heap st' c = heap st c) \<and> rng st' = rng st \<and>
    Yof st' r = Yof st r \<and> Yof st' s = Yof st s \<and>
    (pt_of g (heap st r) \<longrightarrow> pt_of g (heap st' r)) \<and> (pt_of g (heap st s) \<longrightarrow> pt_of g (heap st' s)) \<and>
    rp g (Zof st' s) ((X1 * Z2 - X2 * Z1) ^ 2) \<and>
    rp g (Xof st' s) (2 * (X1 * Z2 + X2 * Z1) * (X1 * X2 + a * (Z1 * Z2)) + 4 * b * (Z1 * Z2) ^ 2 -
      xp * (X1 * Z2 - X2 * Z1) ^ 2) \<and>
    rp g (Xof st' r) ((X1 ^ 2 - a * Z1 ^ 2) ^ 2 - 8 * b * X1 * Z1 ^ 3) \<and>
    rp g (Zof st' r) (4 * Z1 * (X1 ^ 3 + a * X1 * Z1 ^ 2 + b * Z1 ^ 3)))"
proof -
  have a: "rp g (g_a g) a" and b: "rp g (g_b g) b" using curve_red [OF v] by (simp_all add: frep_self a_def b_def)
  have e: "(X1 * Z2 - Z1 * X2) * (X1 * Z2 - Z1 * X2) = (X1 * Z2 - X2 * Z1) ^ 2"
    "2\<^sup>2 * b * (Z1 * Z2 * (Z1 * Z2)) + 2 * ((Z1 * X2 + X1 * Z2) * (X1 * X2 + a * (Z1 * Z2))) -
      (X1 * Z2 - Z1 * X2) * (X1 * Z2 - Z1 * X2) * xp =
      2 * (X1 * Z2 + X2 * Z1) * (X1 * X2 + a * (Z1 * Z2)) + 4 * b * (Z1 * Z2) ^ 2 - xp * (X1 * Z2 - X2 * Z1) ^ 2"
    "(X1 * X1 - Z1 * Z1 * a) * (X1 * X1 - Z1 * Z1 * a) -
      2\<^sup>2 * b * (Z1 * Z1 * ((X1 + Z1) * (X1 + Z1) - X1 * X1 - Z1 * Z1)) =
      (X1 ^ 2 - a * Z1 ^ 2) ^ 2 - 8 * b * X1 * Z1 ^ 3"
    "Z1 * Z1 * (Z1 * Z1) * (2\<^sup>2 * b) + 2 * (((X1 + Z1) * (X1 + Z1) - X1 * X1 - Z1 * Z1) * (X1 * X1 + Z1 * Z1 * a)) =
      4 * Z1 * (X1 ^ 3 + a * X1 * Z1 ^ 2 + b * Z1 ^ 3)"
    by algebra+
  show ?thesis
    unfolding ossl_ec_GFp_simple_ladder_step_def
    using d d [symmetric]
    apply (simp only: Let_def if_False not_True_eq_False simp_thms)
    apply (simp only: coord_wr if_True if_False simp_thms |
      (rule step_ops, (rule v X1 Z1 X2 Z2 xp a b | assumption)+))+
    apply (simp only: returns_Some)
    apply (intro conjI)
    apply (simp add: heap_wr)
    apply simp
    apply simp
    apply simp
    apply (simp add: pt_of_def)
    apply (simp add: pt_of_def)
    apply (simp only: coord_wr if_True if_False simp_thms, erule frep_eq, rule e)+
    done
qed

text \<open>The frame of an operation on the pair \<open>r\<close>, \<open>s\<close>.\<close>

abbreviation pair_frame :: "ec_group \<Rightarrow> nat \<Rightarrow> nat \<Rightarrow> ec_state \<Rightarrow> ec_state \<Rightarrow> bool" where
  "pair_frame g r s st st' \<equiv> (\<forall>c. c \<noteq> r \<and> c \<noteq> s \<longrightarrow> heap st' c = heap st c) \<and>
    (pt_of g (heap st r) \<longrightarrow> pt_of g (heap st' r)) \<and> (pt_of g (heap st s) \<longrightarrow> pt_of g (heap st' s))"

lemma ladder_pre_coords_run:
  assumes v: "valid g" and d: "r \<noteq> s" "p \<noteq> r" "p \<noteq> s" and x: "rp g (Xof st p) x"
  defines "a \<equiv> g_a g * fac g" and "b \<equiv> g_b g * fac g"
  shows "returns (ladder_pre_coords g r s p True st) (\<lambda>st'. pair_frame g r s st st' \<and> rng st' = rng st \<and>
    rp g (Xof st' r) ((x ^ 2 - a) ^ 2 - 8 * b * x) \<and> rp g (Zof st' r) (4 * (x ^ 3 + a * x + b)) \<and>
    red (g_field g) (Yof st' s))"
proof -
  have a: "rp g (g_a g) a" and b: "rp g (g_b g) b" using curve_red [OF v] by (simp_all add: frep_self a_def b_def)
  have e: "(x * x - a) * (x * x - a) - 2 ^ 3 * (x * b) = (x ^ 2 - a) ^ 2 - 8 * b * x"
    "2\<^sup>2 * (b + x * (x * x + a)) = 4 * (x ^ 3 + a * x + b)" by algebra+
  show ?thesis
    unfolding ladder_pre_coords_def
    using d d [symmetric]
    apply (simp only: Let_def)
    apply (simp only: coord_wr if_True if_False simp_thms |
      (rule step_ops, (rule v x a b | assumption)+))+
    apply (simp only: returns_Some)
    apply (intro conjI)
    apply (simp add: heap_wr)
    apply (simp add: pt_of_def)
    apply (simp add: pt_of_def)
    apply simp
    apply (simp only: coord_wr if_True if_False simp_thms, erule frep_eq, rule e)+
    apply (simp add: frep_def)
    done
qed

lemma ladder_pre_blind_run:
  assumes v: "valid g" and d: "r \<noteq> s" "p \<noteq> r" "p \<noteq> s" and x: "rp g (Xof st p) x"
    and X: "rp g (Xof st r) X" and Z: "rp g (Zof st r) Z" and k: "rp g (Yof st r) k" and l: "rp g (Zof st s) l"
    and Y: "red (g_field g) (Yof st s)"
  shows "returns (ladder_pre_blind g r s p True st) (\<lambda>st'. pair_frame g r s st st' \<and> rng st' = rng st \<and>
    rp g (Xof st' r) (X * k) \<and> rp g (Zof st' r) (Z * k) \<and> red (g_field g) (Yof st' r) \<and>
    rp g (Xof st' s) (x * l) \<and> rp g (Zof st' s) l \<and> red (g_field g) (Yof st' s))"
  unfolding ladder_pre_blind_def
  using d d [symmetric]
  apply (simp only: Let_def)
  apply (simp only: coord_wr if_True if_False simp_thms |
    (rule step_ops, (rule v x X Z k l | assumption)+))+
  apply (simp only: returns_Some)
  apply (intro conjI)
  apply (simp add: heap_wr)
  apply (simp add: pt_of_def)
  apply (simp add: pt_of_def)
  apply simp
  apply (simp only: coord_wr if_True if_False simp_thms)+
  apply (rule frep_red [OF k])
  apply (simp only: coord_wr if_True if_False simp_thms)
  apply (simp only: coord_wr if_True if_False simp_thms, rule l)
  apply (simp only: coord_wr if_True if_False simp_thms, rule Y)
  done

lemma ladder_pre_ret:
  assumes v: "valid g" and d: "r \<noteq> s" "p \<noteq> r" "p \<noteq> s" and x: "rp g (Xof st p) x" and z1: "Z1of st p"
    and av: "rng_avail g (Suc (Suc n)) (rng st)"
  defines "a \<equiv> g_a g * fac g" and "b \<equiv> g_b g * fac g"
  shows "returns (ossl_ec_GFp_simple_ladder_pre g r s p True st) (\<lambda>st'. pair_frame g r s st st' \<and>
    rng_avail g n (rng st') \<and> red (g_field g) (Yof st' r) \<and> red (g_field g) (Yof st' s) \<and>
    (\<exists>k l. \<not> g_field g dvd k \<and> \<not> g_field g dvd l \<and>
      rp g (Xof st' r) (((x ^ 2 - a) ^ 2 - 8 * b * x) * k) \<and> rp g (Zof st' r) (4 * (x ^ 3 + a * x + b) * k) \<and>
      rp g (Xof st' s) (x * l) \<and> rp g (Zof st' s) l))"
proof -
  obtain s1 where s1: "ladder_pre_coords g r s p True st = Some s1" "pair_frame g r s st s1" "rng s1 = rng st"
    "rp g (Xof s1 r) ((x ^ 2 - a) ^ 2 - 8 * b * x)" "rp g (Zof s1 r) (4 * (x ^ 3 + a * x + b))"
    "red (g_field g) (Yof s1 s)"
    using ladder_pre_coords_run [OF v d x] unfolding a_def b_def returns_ex by blast
  obtain k rng1 where k: "rand_nonzero (rng s1) = Some (k, rng1)" "k \<noteq> 0" "red (g_field g) k"
    "rng_avail g (Suc n) rng1"
    using rand_nonzero_avail [of g "Suc n" "rng s1"] av s1(3) by auto
  obtain l rng2 where l: "rand_nonzero rng1 = Some (l, rng2)" "l \<noteq> 0" "red (g_field g) l" "rng_avail g n rng2"
    using rand_nonzero_avail [OF k(4)] by auto
  have kl: "\<not> g_field g dvd k" "\<not> g_field g dvd l" using k(2,3) l(2,3) red_dvd_0 by blast+
  obtain k' where k': "(if has_slot g ''field_encode'' then field_encode g k True else Some k) = Some k'" "rp g k' k"
    using enc_rp [OF v k(3) eqm_refl] by (auto simp: returns_ex)
  obtain l' where l': "(if has_slot g ''field_encode'' then field_encode g l True else Some l) = Some l'" "rp g l' l"
    using enc_rp [OF v l(3) eqm_refl] by (auto simp: returns_ex)
  define s2 where "s2 = wr_Z s l' (wr_Y r k' (wr_Z s l (wr_rng rng2 (wr_Y r k (wr_rng rng1 s1)))))"
  define s3 where "s3 = wr_Z s l' (wr_rng rng2 (wr_Y r k' (wr_rng rng1 s1)))"
  let ?t = "if has_slot g ''field_encode'' then s2 else s3"
  have run: "ossl_ec_GFp_simple_ladder_pre g r s p True st = ladder_pre_blind g r s p True ?t"
    using z1 s1(1) k(1) l(1) k'(1) l'(1) d
    by (auto simp: ossl_ec_GFp_simple_ladder_pre_def s2_def s3_def split: if_splits)
  have px: "rp g (Xof ?t p) x" using x s1(2) d by (simp add: s2_def s3_def)
  have "returns (ladder_pre_blind g r s p True ?t) (\<lambda>st'. pair_frame g r s ?t st' \<and> rng st' = rng ?t \<and>
      rp g (Xof st' r) (((x ^ 2 - a) ^ 2 - 8 * b * x) * k) \<and> rp g (Zof st' r) (4 * (x ^ 3 + a * x + b) * k) \<and>
      red (g_field g) (Yof st' r) \<and> rp g (Xof st' s) (x * l) \<and> rp g (Zof st' s) l \<and> red (g_field g) (Yof st' s))"
    by (rule ladder_pre_blind_run [OF v d px]) (use s1 k' l' d in \<open>simp_all add: s2_def s3_def\<close>)
  moreover have "pair_frame g r s st ?t" "rng ?t = rng2"
    using s1(2) by (auto simp: s2_def s3_def heap_wr pt_of_def)
  ultimately show ?thesis
    unfolding run using l(4) kl by (elim returns_mono) auto
qed

lemma ladder_post_nums_run:
  assumes v: "valid g" and x: "rp g (pX p) x" and y: "rp g (pY p) y"
    and X2: "rp g (pX r) X2" and Z2: "rp g (pZ r) Z2" and X3: "rp g (pX s) X3" and Z3: "rp g (pZ s) Z3"
  defines "a \<equiv> g_a g * fac g" and "b \<equiv> g_b g * fac g"
  shows "returns (ladder_post_nums g r s p True) (\<lambda>(t5, t0, t1).
    rp g t5 (2 * y * X2 * Z3 * Z2) \<and>
    rp g t0 ((X2 + x * Z2) * (Z3 * (x * X2 + a * Z2)) + 2 * b * Z2 ^ 2 * Z3 - (x * Z2 - X2) ^ 2 * X3) \<and>
    rp g t1 (2 * y * Z3 * Z2 ^ 2))"
proof -
  have a: "rp g (g_a g) a" and b: "rp g (g_b g) b" using curve_red [OF v] by (simp_all add: frep_self a_def b_def)
  show ?thesis
    unfolding ladder_post_nums_def
    apply (rule step_ops, (rule v x y X2 Z2 X3 Z3 a b | assumption)+)+
    apply (simp only: returns_Some prod.case)
    apply (intro conjI)
    apply (erule frep_eq, algebra)+
    done
qed

lemma ladder_post_run:
  assumes v: "valid g" and ok: "pt_of g (heap st r)"
    and x: "rp g (Xof st p) x" and y: "rp g (Yof st p) y" and X2: "rp g (Xof st r) X2" and Z2: "rp g (Zof st r) Z2"
    and X3: "rp g (Xof st s) X3" and Z3: "rp g (Zof st s) Z3"
    and nz: "\<not> g_field g dvd Z2" "\<not> g_field g dvd Z3" "\<not> g_field g dvd y"
    and av: "rng_avail g (Suc n) (rng st)"
  defines "a \<equiv> g_a g * fac g" and "b \<equiv> g_b g * fac g"
  shows "returns (ossl_ec_GFp_simple_ladder_post g r s p True st) (\<lambda>st'. frame r st st' \<and> pt_of g (heap st' r) \<and>
    Z1of st' r \<and> rng_avail g n (rng st') \<and> rp g (Zof st' r) 1 \<and>
    (\<exists>j. eqm (g_field g) (j * (2 * y * Z3 * Z2 ^ 2)) 1 \<and> rp g (Xof st' r) (2 * y * X2 * Z3 * Z2 * j) \<and>
      rp g (Yof st' r) (((X2 + x * Z2) * (Z3 * (x * X2 + a * Z2)) + 2 * b * Z2 ^ 2 * Z3 - (x * Z2 - X2) ^ 2 * X3) * j)))"
proof -
  let ?p = "g_field g"
  obtain t5 t0 t1 where t: "ladder_post_nums g (heap st r) (heap st s) (heap st p) True = Some (t5, t0, t1)"
    "rp g t5 (2 * y * X2 * Z3 * Z2)" "rp g t1 (2 * y * Z3 * Z2 ^ 2)"
    "rp g t0 ((X2 + x * Z2) * (Z3 * (x * X2 + a * Z2)) + 2 * b * Z2 ^ 2 * Z3 - (x * Z2 - X2) ^ 2 * X3)"
    using ladder_post_nums_run [OF v x y X2 Z2 X3 Z3] unfolding a_def b_def by (auto simp: returns_ex)
  define D where "D = 2 * y * Z3 * Z2 ^ 2"
  have nD: "\<not> ?p dvd D"
    using nz small_unit(1) [OF v] by (simp add: D_def not_dvd_mult [OF v] not_dvd_power [OF v])
  have d: "red ?p (D mod ?p)" "D mod ?p \<noteq> 0" using pos [OF v] nD by (simp_all add: dvd_eq_mod_eq_0)
  obtain j rng' where j: "field_inv g (D mod ?p) (rng st) True = Some (j, rng')" "red ?p j"
    "eqm ?p (j * (D mod ?p)) 1" "rng_avail g n rng'"
    using inv_law [OF v d av] by blast
  obtain j' where j': "(if has_slot g ''field_encode'' then field_encode g j True else Some j) = Some j'" "rp g j' j"
    using enc_rp [OF v j(2) eqm_refl] by (auto simp: returns_ex)
  obtain X where X: "field_mul g t5 j' True = Some X" "rp g X (2 * y * X2 * Z3 * Z2 * j)"
    using ret_mul [OF v t(2) j'(2)] by (auto simp: returns_ex)
  obtain Y where Y: "field_mul g t0 j' True = Some Y"
    "rp g Y (((X2 + x * Z2) * (Z3 * (x * X2 + a * Z2)) + 2 * b * Z2 ^ 2 * Z3 - (x * Z2 - X2) ^ 2 * X3) * j)"
    using ret_mul [OF v t(4) j'(2)] by (auto simp: returns_ex)
  obtain o1 where o1: "field_one g True = Some o1" "rp g o1 1" using field_one_ret [OF v] by (auto simp: returns_ex)
  have "eqm ?p (j * D) (j * (D mod ?p))" by (intro eqm_intros) (simp add: eqm_def)
  then have "eqm ?p (j * D) 1" using j(3) by (rule eqm_trans)
  moreover have "Zof st r \<noteq> 0" "Zof st s \<noteq> 0" using rp_zero [OF v Z2] rp_zero [OF v Z3] nz by auto
  ultimately show ?thesis
    using t(1) dec_rp [OF v t(3)] j(1,4) j'(1) X Y o1 ok
    by (auto simp: ossl_ec_GFp_simple_ladder_post_def frame_def heap_wr pt_of_def D_def)
qed

end

section \<open>The ladder on multiples of the point\<close>

text \<open>Address \<open>r\<close> holds homogeneous coordinates of the abscissa of \<open>R\<close>.\<close>

definition lad :: "ec_group \<Rightarrow> ec_state \<Rightarrow> nat \<Rightarrow> apoint \<Rightarrow> bool" where
  "lad g st r R \<longleftrightarrow> pt_of g (heap st r) \<and> red (g_field g) (Xof st r) \<and> red (g_field g) (Yof st r) \<and>
     red (g_field g) (Zof st r) \<and> xz (g_field g) (Xof st r * gfp_fac g) (Zof st r * gfp_fac g) R"

abbreviation grp :: "ec_group \<Rightarrow> int \<Rightarrow> int \<Rightarrow> bool" where
  "grp g \<equiv> frep (g_field g) (gfp_fac g)"

lemma ladI:
  "pt_of g (heap st r) \<Longrightarrow> red (g_field g) (Yof st r) \<Longrightarrow> grp g (Xof st r) X \<Longrightarrow> grp g (Zof st r) Z \<Longrightarrow>
    xz (g_field g) X Z R \<Longrightarrow> lad g st r R"
  using xz_cong [of "g_field g" "Xof st r * gfp_fac g" X "Zof st r * gfp_fac g" Z R]
  by (simp add: lad_def frep_def)

lemma ladD:
  assumes "lad g st r R"
  shows "grp g (Xof st r) (Xof st r * gfp_fac g)" "grp g (Zof st r) (Zof st r * gfp_fac g)"
    "xz (g_field g) (Xof st r * gfp_fac g) (Zof st r * gfp_fac g) R" "pt_of g (heap st r)"
    "red (g_field g) (Yof st r)" "red (g_field g) (Xof st r)" "red (g_field g) (Zof st r)"
  using assms by (simp_all add: lad_def frep_self)

lemma lad_Z:
  assumes "gfp_valid g" "lad g st r R"
  shows "Zof st r = 0 \<longleftrightarrow> R = Inf"
  using gfp.rp_zero [OF assms(1) ladD(2) [OF assms(2)]] ladD(3) [OF assms(2)] by (cases R) auto

lemma xz_scale:
  assumes "prime_int p" "\<not> p dvd k" "xz p X Z P"
  shows "xz p (X * k) (Z * k) P"
proof (cases P)
  case (Aff x y)
  with assms(3) have "eqm p (X * k) (x * Z * k)" by (intro eqm_intros) simp
  with assms Aff show ?thesis by (simp add: prime_int_dvd_mult mult.assoc)
qed (use assms in \<open>simp add: prime_int_dvd_mult\<close>)

text \<open>The base point of the ladder: finite, on the curve, in affine form.\<close>

definition lad_base :: "ec_group \<Rightarrow> ec_state \<Rightarrow> nat \<Rightarrow> int \<Rightarrow> int \<Rightarrow> bool" where
  "lad_base g st p x y \<longleftrightarrow> curve_ok g \<and> gon g (Aff x y) \<and> holds g st p (Aff x y) \<and> Z1of st p"

lemma lad_baseD:
  assumes "lad_base g st p x y"
  shows "curve_ok g" "gfp_valid g" "gon g (Aff x y)" "holds g st p (Aff x y)" "Z1of st p"
    "grp g (Xof st p) x" "grp g (Yof st p) y"
proof -
  show h: "curve_ok g" "gfp_valid g" "gon g (Aff x y)" "holds g st p (Aff x y)" "Z1of st p"
    using assms by (simp_all add: lad_base_def curve_valid)
  show "grp g (Xof st p) x" "grp g (Yof st p) y"
    using jac_frep [OF holdsD(4,5) [OF h(4)]] h(5) by (simp_all add: zdec_def)
qed

lemma ladder_slots:
  assumes "gfp_valid g"
  shows "ec_point_ladder_pre g r s p ctx st = ossl_ec_GFp_simple_ladder_pre g r s p ctx st"
    "ec_point_ladder_step g r s p ctx st = ossl_ec_GFp_simple_ladder_step g r s p ctx st"
    "ec_point_ladder_post g r s p ctx st = ossl_ec_GFp_simple_ladder_post g r s p ctx st"
  using gfp.meth_law [OF assms]
  by (auto simp: ec_point_ladder_pre_def ec_point_ladder_step_def ec_point_ladder_post_def)

lemma pre_lad:
  assumes b: "lad_base g st p x y" and d: "r \<noteq> s" "p \<noteq> r" "p \<noteq> s"
    and of: "pt_of g (heap st r)" "pt_of g (heap st s)" and av: "rng_avail g (Suc (Suc n)) (rng st)"
  shows "returns (ec_point_ladder_pre g r s p True st) (\<lambda>st'.
    (\<forall>c. c \<noteq> r \<and> c \<noteq> s \<longrightarrow> heap st' c = heap st c) \<and> rng_avail g n (rng st') \<and>
    lad g st' r (gmul g 2 (Aff x y)) \<and> lad g st' s (Aff x y))"
proof -
  note B = lad_baseD [OF b]
  let ?p = "g_field g"
  have pr: "prime_int ?p" using gfp.field_prime [OF B(2)] .
  have n1: "\<not> ?p dvd 1" using gfp.field_gt_3 [OF B(2)] by (auto dest: zdvd_imp_le)
  have dbl: "xz ?p ((x ^ 2 - curve_A g) ^ 2 - 8 * curve_B g * x) (4 * (x ^ 3 + curve_A g * x + curve_B g)) (gmul g 2 (Aff x y))"
    using law.xz_double [of "Curve g" "Aff x y" x 1] B(1,3) n1 gmul_double [OF B(1,3), of 1]
    by (simp add: group_of_Curve del: aff_add.simps)
  obtain st' k l where r: "ossl_ec_GFp_simple_ladder_pre g r s p True st = Some st'"
    "\<forall>c. c \<noteq> r \<and> c \<noteq> s \<longrightarrow> heap st' c = heap st c" "pt_of g (heap st' r)" "pt_of g (heap st' s)"
    "rng_avail g n (rng st')" "red ?p (Yof st' r)" "red ?p (Yof st' s)" "\<not> ?p dvd k" "\<not> ?p dvd l"
    "grp g (Xof st' r) (((x ^ 2 - curve_A g) ^ 2 - 8 * curve_B g * x) * k)"
    "grp g (Zof st' r) (4 * (x ^ 3 + curve_A g * x + curve_B g) * k)"
    "grp g (Xof st' s) (x * l)" "grp g (Zof st' s) l"
    using gfp.ladder_pre_ret [OF B(2) d B(6,5) av] of unfolding returns_ex curve_A_def curve_B_def by blast
  have "lad g st' r (gmul g 2 (Aff x y))" using r(3,6,10,11) xz_scale [OF pr r(8) dbl] by (rule ladI)
  moreover have "lad g st' s (Aff x y)" using r(4,7,12,13) by (rule ladI) (use r(9) in simp)
  ultimately show ?thesis using r(1,2,5) by (simp add: ladder_slots B(2))
qed

lemma step_lad:
  assumes b: "lad_base g st p x y" and d: "r \<noteq> s" "p \<noteq> r" "p \<noteq> s"
    and R: "lad g st r R" "gon g R" and S: "lad g st s S" "gon g S" and diff: "gadd g S (gneg g R) = Aff x y'"
  shows "returns (ec_point_ladder_step g r s p True st) (\<lambda>st'.
    (\<forall>c. c \<noteq> r \<and> c \<noteq> s \<longrightarrow> heap st' c = heap st c) \<and> rng st' = rng st \<and>
    lad g st' r (gadd g R R) \<and> lad g st' s (gadd g R S))"
proof -
  note B = lad_baseD [OF b] and DR = ladD [OF R(1)] and DS = ladD [OF S(1)]
  note dbl = law.xz_double [of "Curve g", unfolded group_of_Curve [OF B(1)], OF R(2) DR(3)]
  note sum = law.xz_diff_add [of "Curve g", unfolded group_of_Curve [OF B(1)], OF R(2) S(2) diff DR(3) DS(3)]
  from gfp.ladder_step_run [OF B(2) d DR(1,2) DS(1,2) B(6), folded curve_A_def curve_B_def]
  show ?thesis
    unfolding ladder_slots [OF B(2)]
    apply (rule returns_mono)
    apply (elim conjE)
    apply (intro conjI)
    apply assumption
    apply assumption
    apply (rule ladI [OF _ _ _ _ dbl]; (assumption | simp add: DR(4,5)))
    apply (rule ladI [OF _ _ _ _ sum]; (assumption | simp add: DS(4,5)))
    done
qed

lemma swap_lad:
  assumes "lad g st r R" "lad g st s S" "r \<noteq> s"
  shows "lad g (EC_POINT_CSWAP c r s st) r (if c then S else R)" "lad g (EC_POINT_CSWAP c r s st) s (if c then R else S)"
    "\<forall>b. b \<noteq> r \<and> b \<noteq> s \<longrightarrow> heap (EC_POINT_CSWAP c r s st) b = heap st b" "rng (EC_POINT_CSWAP c r s st) = rng st"
  using assms by (auto simp: EC_POINT_CSWAP_def Let_def lad_def pt_of_def)

lemma lad_base_frame:
  "lad_base g st p x y \<Longrightarrow> heap st' p = heap st p \<Longrightarrow> lad_base g st' p x y"
  by (simp add: lad_base_def holds_def)

text \<open>The loop: \<open>m\<close> is the part of the scalar already read.\<close>

lemma ladder_loop_holds:
  assumes P: "P = Aff x y" and d: "r \<noteq> s" "p \<noteq> r" "p \<noteq> s"
  shows "lad_base g st p x y \<Longrightarrow>
    lad g st r (gmul g (k div 2 ^ i + of_bool pbit) P) \<Longrightarrow>
    lad g st s (gmul g (k div 2 ^ i + 1 - of_bool pbit) P) \<Longrightarrow>
    returns (ladder_loop g r s p k True i pbit st) (\<lambda>(pbit', st').
      (\<forall>c. c \<noteq> r \<and> c \<noteq> s \<longrightarrow> heap st' c = heap st c) \<and> rng st' = rng st \<and>
      lad g st' r (gmul g (k + of_bool pbit') P) \<and> lad g st' s (gmul g (k + 1 - of_bool pbit') P))"
proof (induction i arbitrary: pbit st)
  case (Suc i)
  note B = lad_baseD [OF Suc.prems(1)]
  have on: "gon g P" using B(3) P by simp
  define m where "m = k div 2 ^ Suc i"
  define b where "b = bit k i"
  have m': "k div 2 ^ i = 2 * m + of_bool b"
  proof -
    have "m = k div 2 ^ i div 2" using zdiv_zmult2_eq [of 2 k "2 ^ i"]
      by (simp add: m_def mult.commute)
    then show ?thesis by (simp add: b_def bit_iff_odd odd_iff_mod_2_eq_one even_iff_mod_2_eq_zero)
  qed
  define st1 where "st1 = EC_POINT_CSWAP (b \<noteq> pbit) r s st"
  have R: "lad g st1 r (gmul g (m + of_bool b) P)" and S: "lad g st1 s (gmul g (m + 1 - of_bool b) P)"
    and f1: "\<forall>c. c \<noteq> r \<and> c \<noteq> s \<longrightarrow> heap st1 c = heap st c" "rng st1 = rng st"
    using swap_lad [OF Suc.prems(2,3) d(1), of "b \<noteq> pbit"] by (cases b; cases pbit; simp add: st1_def m_def)+
  have base1: "lad_base g st1 p x y" using lad_base_frame [OF Suc.prems(1)] f1(1) d by auto
  have "gadd g (gmul g (m + 1 - of_bool b) P) (gneg g (gmul g (m + of_bool b) P)) = gmul g (1 - 2 * of_bool b) P"
    using gmul_add [OF B(1) on, of "m + 1 - of_bool b" "- (m + of_bool b)"]
    by (simp add: gmul_minus [OF B(1) on, symmetric])
  moreover have "\<exists>y'. gmul g (1 - 2 * of_bool b) P = Aff x y'"
    using gmul_minus [OF B(1) on, of 1] P by (cases b) simp_all
  ultimately obtain y' where df: "gadd g (gmul g (m + 1 - of_bool b) P) (gneg g (gmul g (m + of_bool b) P)) = Aff x y'"
    by metis
  have e: "m + of_bool b + (m + of_bool b) = k div 2 ^ i + of_bool b"
    "m + of_bool b + (m + 1 - of_bool b) = k div 2 ^ i + 1 - of_bool b" by (simp_all add: m')
  obtain st2 where st2: "ec_point_ladder_step g r s p True st1 = Some st2"
    "\<forall>c. c \<noteq> r \<and> c \<noteq> s \<longrightarrow> heap st2 c = heap st1 c" "rng st2 = rng st1"
    "lad g st2 r (gmul g (k div 2 ^ i + of_bool b) P)" "lad g st2 s (gmul g (k div 2 ^ i + 1 - of_bool b) P)"
    using step_lad [OF base1 d R gon_mul [OF B(1) on] S gon_mul [OF B(1) on] df]
    unfolding gmul_add [OF B(1) on] e returns_ex by blast
  have base2: "lad_base g st2 p x y" using lad_base_frame [OF base1] st2(2) d by auto
  have run: "ladder_loop g r s p k True (Suc i) pbit st = ladder_loop g r s p k True i b st2"
  proof -
    have "(pbit \<noteq> (b \<noteq> pbit)) = b" by auto
    then show ?thesis using st2(1) by (simp add: st1_def b_def Let_def)
  qed
  from Suc.IH [OF base2 st2(4,5)] show ?case
    unfolding run by (elim returns_mono) (use st2(2,3) f1 in \<open>auto split: prod.splits\<close>)
qed (simp add: P)

section \<open>Recovery\<close>

lemma gmul_gmul: "curve_ok g \<Longrightarrow> gon g P \<Longrightarrow> gmul g j (gmul g k P) = gmul g (j * k) P"
  using law.smul_smul [of "Curve g" P] by (simp add: group_of_Curve)

lemma gmul_Inf [simp]: "aff_smul p a k Inf = Inf"
proof -
  have "aff_mult p a n Inf = Inf" for n by (induction n) simp_all
  then show ?thesis by (simp add: aff_smul_def)
qed

text \<open>A point of order two has no finite multiple with a finite successor.\<close>

lemma order_two:
  assumes c: "curve_ok g" "gon g (Aff x 0)"
  shows "gmul g k (Aff x 0) = Inf \<or> gmul g (k + 1) (Aff x 0) = Inf"
proof -
  have two: "gmul g 2 (Aff x 0) = Inf" using gmul_double [OF c, of 1] by simp
  have "even k \<or> even (k + 1)" by simp
  then show ?thesis
    using gmul_gmul [OF c, of _ 2] two by (metis dvd_def gmul_Inf mult.commute)
qed

lemma post_lad:
  assumes b: "lad_base g st p x y" and d: "r \<noteq> s" "p \<noteq> r" "p \<noteq> s" and P: "P = Aff x y"
    and R: "lad g st r (gmul g k P)" and S: "lad g st s (gmul g (k + 1) P)"
    and av: "rng_avail g (Suc n) (rng st)"
  shows "returns (ec_point_ladder_post g r s p True st) (\<lambda>st'. frame r st st' \<and> holds g st' r (gmul g k P) \<and>
    rng_avail g n (rng st'))"
proof -
  have avn: "rng_avail g n (rng st)" using av by (simp add: rng_avail_def)
  note B = lad_baseD [OF b] and DR = ladD [OF R] and DS = ladD [OF S]
  have on: "gon g P" using B(3) P by simp
  let ?p = "g_field g"
  consider (r) "gmul g k P = Inf" | (s) "gmul g k P \<noteq> Inf" "gmul g (k + 1) P = Inf"
    | (fin) x2 y2 x3 w where "gmul g k P = Aff x2 y2" "gmul g (k + 1) P = Aff x3 w"
    by (cases "gmul g k P"; cases "gmul g (k + 1) P") auto
  then show ?thesis
  proof cases
    case r
    then have "Zof st r = 0" using lad_Z [OF B(2) R] by simp
    then show ?thesis
      using r DR(4-6) gfp.meth_law [OF B(2)] gfp.pos [OF B(2)]
      by (auto simp: ladder_slots [OF B(2)] ossl_ec_GFp_simple_ladder_post_def EC_POINT_set_to_infinity_def Let_def
          ossl_ec_GFp_simple_point_set_to_infinity_def pt_of_def frame_def heap_wr holds_def represents_def
          pt_ok_def jac_rep_def avn)
  next
    case s
    then have Z: "Zof st r \<noteq> 0" "Zof st s = 0" using lad_Z [OF B(2) R] lad_Z [OF B(2) S] by auto
    have "gmul g k P = gneg g P" using gadd_mul_1(3) [OF B(1) on, of "k + 1"] s(2) by simp
    moreover obtain s1 where s1: "EC_POINT_copy r p st = Some s1" "frame r st s1" "holds g s1 r P"
      using copy_holds [OF B(2,4) DR(4)] P by (auto simp: returns_ex)
    moreover obtain s2 where s2: "EC_POINT_invert g r True s1 = Some s2" "frame r s1 s2" "holds g s2 r (gneg g P)"
      using invert_holds [OF B(2) s1(3)] by (auto simp: returns_ex)
    moreover have "rng s2 = rng st" using copy_rng [OF s1(1)] invert_rng [OF s2(1)] by simp
    ultimately show ?thesis
      using Z avn by (simp add: ladder_slots [OF B(2)] ossl_ec_GFp_simple_ladder_post_def frame_def)
  next
    case fin
    define Z2 Z3 X2 X3 where "Z2 = Zof st r * gfp_fac g" "Z3 = Zof st s * gfp_fac g"
      "X2 = Xof st r * gfp_fac g" "X3 = Xof st s * gfp_fac g"
    have X: "\<not> ?p dvd Z2" "\<not> ?p dvd Z3" "eqm ?p X2 (x2 * Z2)" "eqm ?p X3 (x3 * Z3)"
      using DR(3) DS(3) fin by (simp_all add: Z2_Z3_X2_X3_def)
    have "y \<noteq> 0" using order_two [OF B(1), of x k] on fin P by auto
    moreover have "red ?p y" using on P by simp
    ultimately have ny: "\<not> ?p dvd y" using red_dvd_0 by blast
    have on2: "gon g (Aff x2 y2)" using gon_mul [OF B(1) on, of k] fin by simp
    have "gadd g (Aff x2 y2) (Aff x y) = Aff x3 w" using gadd_mul_1(1) [OF B(1) on, of k] fin P by simp
    note rec = law.recover_y [of "Curve g", unfolded group_of_Curve [OF B(1)], OF on2 B(3) this]
    obtain st' j where st': "ec_point_ladder_post g r s p True st = Some st'" "frame r st st'" "pt_of g (heap st' r)"
      "Z1of st' r" "grp g (Zof st' r) 1" "rng_avail g n (rng st')" and j: "eqm ?p (j * (2 * y * Z3 * Z2 ^ 2)) 1"
      and xj: "grp g (Xof st' r) (2 * y * X2 * Z3 * Z2 * j)"
      and yj: "grp g (Yof st' r) (((X2 + x * Z2) * (Z3 * (x * X2 + curve_A g * Z2)) + 2 * curve_B g * Z2 ^ 2 * Z3 -
        (x * Z2 - X2) ^ 2 * X3) * j)"
      using gfp.ladder_post_run [OF B(2) DR(4) B(6,7) DR(1,2) DS(1,2) _ _ ny av] X(1,2)
      unfolding ladder_slots [OF B(2)] Z2_Z3_X2_X3_def returns_ex curve_A_def curve_B_def by blast
    have "eqm ?p (2 * y * X2 * Z3 * Z2 * j) x2" using X(3) j unfolding eqm_dvd by algebra
    then have X': "grp g (Xof st' r) (x2 * 1 ^ 2)" using frep_cong [OF xj] by simp
    have "eqm ?p ((X2 + x * Z2) * (Z3 * (x * X2 + curve_A g * Z2)) + 2 * curve_B g * Z2 ^ 2 * Z3 - (x * Z2 - X2) ^ 2 * X3)
        (Z2 ^ 2 * Z3 * (2 * curve_B g + (curve_A g + x * x2) * (x + x2) - x3 * (x - x2) ^ 2))"
      using X(3,4) unfolding eqm_dvd by algebra
    also have "eqm ?p (Z2 ^ 2 * Z3 * (2 * curve_B g + (curve_A g + x * x2) * (x + x2) - x3 * (x - x2) ^ 2))
        (Z2 ^ 2 * Z3 * (2 * y * y2))"
      by (intro eqm_intros eqm_sym [OF rec])
    finally have "eqm ?p (((X2 + x * Z2) * (Z3 * (x * X2 + curve_A g * Z2)) + 2 * curve_B g * Z2 ^ 2 * Z3 -
        (x * Z2 - X2) ^ 2 * X3) * j) (Z2 ^ 2 * Z3 * (2 * y * y2) * j)"
      by (intro eqm_mult eqm_refl)
    also have "eqm ?p (Z2 ^ 2 * Z3 * (2 * y * y2) * j) y2" using j unfolding eqm_dvd by algebra
    finally have Y': "grp g (Yof st' r) (y2 * 1 ^ 3)" using frep_cong [OF yj] by simp
    have n1: "\<not> ?p dvd 1" using gfp.field_gt_3 [OF B(2)] by (auto dest: zdvd_imp_le)
    have rd: "red ?p x2" "red ?p y2" using on2 by simp_all
    have "jac_rep ?p (gfp_fac g) (heap st' r) (Aff x2 y2)"
      using rd gfp.pos [OF B(2)] by (intro jac_repI [OF X' Y' st'(5) n1]) (simp_all add: red_def)
    moreover have "pt_ok ?p (gfp_fac g) (heap st' r)"
      using X' Y' st'(4,5) by (simp add: pt_ok_def frep_def)
    ultimately show ?thesis using st'(1-3,6) fin by (simp add: holds_def represents_def)
  qed
qed

section \<open>The whole ladder\<close>

lemma make_affine_holds:
  assumes "curve_ok g" "holds g s r P" "gon g P" "P \<noteq> Inf" "rng_avail g (Suc n) (rng s)"
  shows "returns (ossl_ec_GFp_simple_make_affine g r True s) (\<lambda>s'. frame r s s' \<and> holds g s' r P \<and> Z1of s' r \<and>
    rng_avail g n (rng s'))"
  using gfp.make_affine_ret [OF curve_valid [OF assms(1)] holdsD(1,4,5) [OF assms(2)], of n] assms(3-5)
  by (simp add: curve_A_def curve_B_def holds_def represents_def)

text \<open>The padded scalar is congruent to the scalar and has a fixed length.\<close>

lemma ladder_scalar_correct:
  assumes n: "0 < n"
  obtains k where "ladder_scalar scalar n = Some k" "k mod n = scalar mod n" "k div 2 ^ z_num_bits n = 1"
proof -
  define B :: int where "B = 2 ^ z_num_bits n"
  define k where "k = (if z_num_bits scalar > z_num_bits n \<or> scalar < 0 then scalar mod n else scalar)"
  define l where "l = (if bit (k + n) (z_num_bits n) then k + n else k + n + n)"
  have nB: "n < B" "B \<le> 2 * n"
  proof -
    have "nat n < 2 ^ nat_bits (nat n)" "2 ^ (nat_bits (nat n) - 1) \<le> nat n"
      using nat_bits_bounds [of "nat n"] n by simp_all
    moreover have "0 < nat_bits (nat n)" using n by (subst nat_bits.simps) simp
    ultimately have "nat n < 2 ^ nat_bits (nat n)" "2 ^ nat_bits (nat n) \<le> 2 * nat n"
      by (cases "nat_bits (nat n)"; simp)+
    then have "int (nat n) < int (2 ^ nat_bits (nat n))" "int (2 ^ nat_bits (nat n)) \<le> int (2 * nat n)"
      by (simp_all only: of_nat_less_iff of_nat_le_iff)
    then show "n < B" "B \<le> 2 * n" using n by (simp_all add: B_def z_num_bits_def)
  qed
  have k: "0 \<le> k" "k < B"
  proof -
    show "0 \<le> k" using n by (simp add: k_def)
    have "scalar < B" if "z_num_bits scalar \<le> z_num_bits n" "0 \<le> scalar"
    proof -
      have "nat scalar < 2 ^ z_num_bits n" using that nat_bits_le_iff [of "nat scalar"] by (simp add: z_num_bits_def)
      then have "int (nat scalar) < int (2 ^ z_num_bits n)" by (simp only: of_nat_less_iff)
      then show ?thesis using that(2) by (simp add: B_def)
    qed
    moreover have "scalar mod n < B" using nB n pos_mod_bound [of n scalar] by linarith
    ultimately show "k < B" by (auto simp: k_def)
  qed
  have km: "k mod n = scalar mod n" by (simp add: k_def)
  have "ladder_scalar scalar n = Some l"
    using n by (simp add: ladder_scalar_def k_def l_def Let_def z_nnmod_eq)
  moreover have "l mod n = scalar mod n" using km by (auto simp: l_def mod_add_eq [symmetric])
  moreover have "l div 2 ^ z_num_bits n = 1"
  proof -
    have b: "bit (k + n) (z_num_bits n) \<longleftrightarrow> B \<le> k + n"
    proof -
      have "(k + n) div B = (if B \<le> k + n then 1 else 0)"
      proof (cases "B \<le> k + n")
        case True
        then have "(k + n) div B = 1 + (k + n - B) div B" using nB n by (simp add: div_pos_geq)
        moreover have "(k + n - B) div B = 0" using True nB k by (intro div_pos_pos_trivial) auto
        ultimately show ?thesis using True by simp
      next
        case False
        then show ?thesis using k n by (simp add: div_pos_pos_trivial)
      qed
      then show ?thesis by (simp add: bit_iff_odd B_def)
    qed
    have "B \<le> l" "l < 2 * B" using b k nB n by (auto simp: l_def)
    then have "l div B = 1 + (l - B) div B" "(l - B) div B = 0"
      using nB n by (simp_all add: div_pos_geq div_pos_pos_trivial)
    then show ?thesis by (simp add: B_def)
  qed
  ultimately show thesis by (rule that)
qed

lemma gmul_mod:
  assumes c: "curve_ok g" "gon g P" and n: "gmul g n P = Inf" and e: "j mod n = k mod n"
  shows "gmul g j P = gmul g k P"
proof -
  obtain q where q: "j = k + q * n" using e by (metis mod_eq_dvd_iff dvd_def add_diff_cancel_left' diff_add_cancel mult.commute add.commute)
  have "gmul g (q * n) P = Inf" using gmul_gmul [OF c, of q n] n by simp
  then show ?thesis using gmul_add [OF c, of k "q * n"] q by (cases "gmul g k P") simp_all
qed

lemma scalar_mul_ladder_rng:
  assumes c: "curve_ok g" "gon g P" and nz: "g_order g \<noteq> 0" "g_cofactor g \<noteq> 0" "0 < g_order g * g_cofactor g"
    and ann: "gmul g (g_order g * g_cofactor g) P = Inf"
    and src: "(case point of None \<Rightarrow> g_generator g | Some pt \<Rightarrow> Some pt) = Some a"
    and h: "holds g st a P" "holds g st r Q" and fin: "point = None \<longrightarrow> P \<noteq> Inf"
    and new: "p \<noteq> s" "p \<noteq> r" "s \<noteq> r" "p \<noteq> a" "s \<noteq> a"
    and av: "rng_avail g (Suc (Suc (Suc (Suc m)))) (rng st)"
  shows "returns (ossl_ec_scalar_mul_ladder g r k point (Some p) (Some s) True st) (\<lambda>st'.
    holds g st' r (gmul g k P) \<and> (\<forall>b. b \<noteq> r \<and> b \<noteq> p \<and> b \<noteq> s \<longrightarrow> heap st' b = heap st b) \<and> rng_avail g m (rng st'))"
proof (cases "P = Inf")
  case True
  then have "point = Some a" using src fin by (cases point) auto
  moreover have "EC_POINT_is_at_infinity g (heap st a)"
    using holds_infinity [OF curve_valid [OF c(1)] h(1)] True by simp
  moreover have "rng_avail g m (rng st)" using av by (simp add: rng_avail_def)
  ultimately show ?thesis
    using True holdsD [OF h(2)] gfp.meth_law [OF curve_valid [OF c(1)]] gfp.pos [OF curve_valid [OF c(1)]]
    by (auto simp: ossl_ec_scalar_mul_ladder_def EC_POINT_set_to_infinity_def Let_def
        ossl_ec_GFp_simple_point_set_to_infinity_def pt_of_def heap_wr holds_def represents_def pt_ok_def jac_rep_def)
next
  case False
  note va = curve_valid [OF c(1)]
  then obtain x y where P: "P = Aff x y" using False by (cases P) auto
  let ?n = "g_order g * g_cofactor g"
  obtain kk where kk: "ladder_scalar k ?n = Some kk" "kk mod ?n = k mod ?n" "kk div 2 ^ z_num_bits ?n = 1"
    by (rule ladder_scalar_correct [OF nz(3)])
  obtain s1 where s1: "EC_POINT_new g (Some p) st = Some (p, s1)" "\<forall>b. b \<noteq> p \<longrightarrow> heap s1 b = heap st b" "holds g s1 p Inf"
    using new_holds [OF va, of p st] by (auto simp: returns_ex)
  obtain s2 where s2: "EC_POINT_new g (Some s) s1 = Some (s, s2)" "\<forall>b. b \<noteq> s \<longrightarrow> heap s2 b = heap s1 b" "holds g s2 s Inf"
    using new_holds [OF va, of s s1] by (auto simp: returns_ex)
  have h2: "holds g s2 a P" "holds g s2 r Q" "pt_of g (heap s2 p)"
    using h s1(2,3) s2(2) new by (auto simp: holds_def)
  obtain s3 where s3: "EC_POINT_copy p a s2 = Some s3" "frame p s2 s3" "holds g s3 p P"
    using copy_holds [OF va h2(1,3)] by (auto simp: returns_ex)
  have av3: "rng_avail g (Suc (Suc (Suc (Suc m)))) (rng s3)" using av new_rng [OF s1(1)] new_rng [OF s2(1)] copy_rng [OF s3(1)] by simp
  obtain s4 where s4: "(if Z1of s3 p then Some s3
        else if slot (g_meth g) ''make_affine'' = ''ossl_ec_GFp_simple_make_affine''
        then ossl_ec_GFp_simple_make_affine g p True s3 else None) = Some s4"
    "frame p s3 s4" "holds g s4 p P" "Z1of s4 p" "rng_avail g (Suc (Suc (Suc m))) (rng s4)"
  proof (cases "Z1of s3 p")
    case True
    then show thesis using that [of s3] s3 av3 by (simp add: frame_def rng_avail_def)
  next
    case nf: False
    from make_affine_holds [OF c(1) s3(3) c(2) False av3] nf that gfp.meth_law [OF va]
    show thesis by (auto simp: returns_ex)
  qed
  have b4: "lad_base g s4 p x y" using c P s4(3,4) by (simp add: lad_base_def)
  have of4: "pt_of g (heap s4 r)" "pt_of g (heap s4 s)"
    using h2(2) s2(3) s3(2) s4(2) new by (auto simp: holds_def frame_def)
  have d: "r \<noteq> s" "p \<noteq> r" "p \<noteq> s" using new by auto
  obtain s5 where s5: "ec_point_ladder_pre g r s p True s4 = Some s5"
    "\<forall>c. c \<noteq> r \<and> c \<noteq> s \<longrightarrow> heap s5 c = heap s4 c" "rng_avail g (Suc m) (rng s5)"
    "lad g s5 r (gmul g 2 P)" "lad g s5 s P"
    using pre_lad [OF b4 d of4 s4(5)] P by (auto simp: returns_ex simp del: aff_add.simps)
  have b5: "lad_base g s5 p x y" using lad_base_frame [OF b4] s5(2) d by auto
  obtain pbit s6 where s6: "ladder_loop g r s p kk True (z_num_bits ?n) True s5 = Some (pbit, s6)"
    "\<forall>c. c \<noteq> r \<and> c \<noteq> s \<longrightarrow> heap s6 c = heap s5 c" "rng s6 = rng s5"
    "lad g s6 r (gmul g (kk + of_bool pbit) P)" "lad g s6 s (gmul g (kk + 1 - of_bool pbit) P)"
    using ladder_loop_holds [OF P d b5, of kk "z_num_bits ?n" True] s5(4,5) kk(3) by (auto simp: returns_ex)
  define s7 where "s7 = EC_POINT_CSWAP pbit r s s6"
  have s7: "lad g s7 r (gmul g kk P)" "lad g s7 s (gmul g (kk + 1) P)" "rng s7 = rng s6"
    "\<forall>c. c \<noteq> r \<and> c \<noteq> s \<longrightarrow> heap s7 c = heap s6 c"
    using swap_lad [OF s6(4,5) d(1), of pbit] by (cases pbit; simp add: s7_def)+
  have b7: "lad_base g s7 p x y" using lad_base_frame [OF b5] s6(2) s7(4) d by auto
  have av7: "rng_avail g (Suc m) (rng s7)" using s5(3) s6(3) s7(3) by simp
  obtain s8 where s8: "ec_point_ladder_post g r s p True s7 = Some s8" "frame r s7 s8" "holds g s8 r (gmul g kk P)" "rng_avail g m (rng s8)"
    using post_lad [OF b7 d P s7(1,2) av7] by (auto simp: returns_ex)
  have ninf: "\<not> (case point of None \<Rightarrow> False | Some pt \<Rightarrow> EC_POINT_is_at_infinity g (heap st pt))"
    using src holds_infinity [OF va h(1)] False by (auto split: option.splits)
  have run: "ossl_ec_scalar_mul_ladder g r k point (Some p) (Some s) True st = Some s8"
    using ninf nz(1,2) s1(1) s2(1) src s3(1) kk(1) s4(1) s5(1) s6(1) s8(1)
    by (simp add: ossl_ec_scalar_mul_ladder_def s7_def Let_def split del: if_split)
  moreover have "gmul g kk P = gmul g k P" by (rule gmul_mod [OF c ann kk(2)])
  moreover have "heap s8 b = heap st b" if "b \<noteq> r" "b \<noteq> p" "b \<noteq> s" for b
    using that s1(2) s2(2) s3(2) s4(2) s5(2) s6(2) s7(4) s8(2) by (simp add: frame_def)
  ultimately show ?thesis using s8(3,4) by simp
qed

lemma scalar_mul_ladder_holds:
  assumes "curve_ok g" "gon g P" "g_order g \<noteq> 0" "g_cofactor g \<noteq> 0" "0 < g_order g * g_cofactor g"
    "gmul g (g_order g * g_cofactor g) P = Inf" "(case point of None \<Rightarrow> g_generator g | Some pt \<Rightarrow> Some pt) = Some a"
    "holds g st a P" "holds g st r Q" "point = None \<longrightarrow> P \<noteq> Inf"
    "p \<noteq> s" "p \<noteq> r" "s \<noteq> r" "p \<noteq> a" "s \<noteq> a" "rng_avail g 4 (rng st)"
  shows "returns (ossl_ec_scalar_mul_ladder g r k point (Some p) (Some s) True st) (\<lambda>st'.
    holds g st' r (gmul g k P) \<and> (\<forall>b. b \<noteq> r \<and> b \<noteq> p \<and> b \<noteq> s \<longrightarrow> heap st' b = heap st b))"
  by (rule returns_mono [OF scalar_mul_ladder_rng [OF assms(1-15), of 0]]) (use assms(16) in \<open>simp_all add: numeral_eq_Suc\<close>)

end
