(* ===== verification/Bn_Wnaf.thy ===== *)
theory Bn_Wnaf
  imports Bn_Value
begin

text \<open>
  \<open>bn_compute_wNAF\<close> (\<open>bn_intern.c\<close>): the modified window non-adjacent form of a scalar. The digits are
  in the order of the array \<open>r\<close>, the least significant first; \<open>None\<close> is an internal error. The window
  is at most 256, so the int arithmetic does not overflow. The loop carries no bound in the code and
  is a partial function; that it returns is proved.
\<close>

section \<open>The code\<close>

text \<open>The digit taken from the window, before its range is checked.\<close>

definition wnaf_digit :: "nat \<Rightarrow> nat \<Rightarrow> nat \<Rightarrow> int \<Rightarrow> int" where
  "wnaf_digit w len j window_val =
     (let bit' = 2 ^ w; next_bit = 2 * bit'; mask = next_bit - 1 in
      if odd window_val then
        (if and window_val bit' \<noteq> 0 then
           (if j + w + 1 \<ge> len then and window_val (mask div 2) else window_val - next_bit)
         else window_val)
      else 0)"

partial_function (option) wnaf_loop :: "nat \<Rightarrow> nat \<Rightarrow> int \<Rightarrow> int \<Rightarrow> nat \<Rightarrow> int \<Rightarrow> int list option" where
  "wnaf_loop w len scalar sign j window_val =
     (let bit' = 2 ^ w; next_bit = 2 * bit' in
      if window_val \<noteq> 0 \<or> j + w + 1 < len then do {
        let digit = wnaf_digit w len j window_val;
        window_val \<leftarrow> (if odd window_val then
            (if digit \<le> - bit' \<or> digit \<ge> bit' \<or> even digit then None
             else
               let window_val = window_val - digit in
               if window_val \<noteq> 0 \<and> window_val \<noteq> next_bit \<and> window_val \<noteq> bit' then None
               else Some window_val)
          else Some window_val);
        let j = j + 1;
        let window_val = window_val div 2 + bit' * of_bool (bit \<bar>scalar\<bar> (j + w));
        (if window_val > next_bit then None else do {
           r \<leftarrow> wnaf_loop w len scalar sign j window_val;
           Some (sign * digit # r)
         })
      }
      else Some [])"

definition bn_compute_wNAF :: "int \<Rightarrow> int \<Rightarrow> int list option" where
  "bn_compute_wNAF scalar w =
     (if scalar = 0 then Some [0]
      else if w \<le> 0 \<or> w > 7 then None
      else do {
        let sign = (if scalar < 0 then - 1 else 1);
        let len = z_num_bits scalar;
        r \<leftarrow> wnaf_loop (nat w) len scalar sign 0 (and \<bar>scalar\<bar> (2 * 2 ^ nat w - 1));
        (if length r > len + 1 then None else Some r)
      })"

section \<open>Correctness\<close>

text \<open>The value of digits with the least significant first.\<close>

fun wnaf_value :: "int list \<Rightarrow> int" where
  "wnaf_value [] = 0"
| "wnaf_value (d # ds) = d + 2 * wnaf_value ds"

definition wnaf_digit_ok :: "nat \<Rightarrow> int \<Rightarrow> bool" where
  "wnaf_digit_ok w d \<longleftrightarrow> d = 0 \<or> odd d \<and> \<bar>d\<bar> < 2 ^ w"

text \<open>One round: the digit is in range, the rest is a multiple of two no larger than the window.\<close>

lemma bit_w:
  fixes v :: int
  assumes "0 \<le> v" "v < 2 * 2 ^ w"
  shows "and v (2 ^ w) \<noteq> 0 \<longleftrightarrow> 2 ^ w \<le> v"
proof -
  have "and v (2 ^ w) \<noteq> 0 \<longleftrightarrow> bit v w"
    by (simp add: and_exp_eq_0_iff_not_bit)
  also have "\<dots> \<longleftrightarrow> 2 ^ w \<le> v"
  proof (cases "2 ^ w \<le> v")
    case True
    then have "v div 2 ^ w = (v - 2 ^ w) div 2 ^ w + 1" by (simp add: div_pos_geq)
    moreover have "(v - 2 ^ w) div 2 ^ w = 0" using True assms by (intro div_pos_pos_trivial) auto
    ultimately have "v div 2 ^ w = 1" by simp
    then show ?thesis using True by (simp add: bit_iff_odd)
  next
    case False
    then show ?thesis using assms by (simp add: bit_iff_odd div_pos_pos_trivial)
  qed
  finally show ?thesis .
qed

lemma digit_facts:
  assumes w: "0 < w" and v: "0 \<le> v" "v \<le> 2 * 2 ^ w" and d_def: "d = wnaf_digit w len j v"
  shows "odd v \<Longrightarrow> - (2 ^ w) < d \<and> d < 2 ^ w \<and> odd d \<and> (v - d = 0 \<or> v - d = 2 * 2 ^ w \<or> v - d = 2 ^ w)"
    "even v \<Longrightarrow> d = 0" "j + w + 1 \<ge> len \<Longrightarrow> 0 \<le> d"
proof -
  have e: "even (2 ^ w :: int)" using w by simp
  have m: "and v (2 ^ w - 1) = v mod 2 ^ w" for v :: int by (simp add: mask_eq_exp_minus_1 [symmetric] take_bit_eq_mask [symmetric] take_bit_eq_mod)
  have h: "(2 * 2 ^ w - 1) div 2 = (2 ^ w - 1 :: int)" by simp
  show "even v \<Longrightarrow> d = 0" by (simp add: d_def wnaf_digit_def Let_def)
  show "odd v \<Longrightarrow> - (2 ^ w) < d \<and> d < 2 ^ w \<and> odd d \<and> (v - d = 0 \<or> v - d = 2 * 2 ^ w \<or> v - d = 2 ^ w)"
  proof -
    assume o: "odd v"
    then have v1: "v < 2 * 2 ^ w" using v e by (cases "v = 2 * 2 ^ w") auto
    show ?thesis
    proof (cases "2 ^ w \<le> v")
      case True
      have "v \<noteq> 2 ^ w" using o e by auto
      with True have gt: "2 ^ w < v" by simp
      have "v mod 2 ^ w = (v - 2 ^ w) mod 2 ^ w" by simp
      also have "\<dots> = v - 2 ^ w" using True v1 by (intro mod_pos_pos_trivial) auto
      finally have "v mod 2 ^ w = v - 2 ^ w" .
      then have "d = v - 2 ^ w \<or> d = v - 2 * 2 ^ w"
        using o True bit_w [OF v(1) v1] by (auto simp: d_def wnaf_digit_def Let_def h m)
      then show ?thesis using o e gt v1 by auto
    next
      case False
      then have "d = v" using o bit_w [OF v(1) v1] by (simp add: d_def wnaf_digit_def Let_def)
      then show ?thesis using False o v by auto
    qed
  qed
  show "j + w + 1 \<ge> len \<Longrightarrow> 0 \<le> d"
    using v(1) by (auto simp: d_def wnaf_digit_def Let_def)
qed

text \<open>What is left to read at position \<open>j\<close>: the window and the bits above it.\<close>

definition wnaf_rest :: "nat \<Rightarrow> int \<Rightarrow> nat \<Rightarrow> int \<Rightarrow> int" where
  "wnaf_rest w m j v = v + 2 * 2 ^ w * (m div 2 ^ (j + w + 1))"

lemma wnaf_rest_step:
  assumes "even (v - d)"
  shows "wnaf_rest w m j v = d + 2 * wnaf_rest w m (j + 1) ((v - d) div 2 + 2 ^ w * of_bool (bit m (j + 1 + w)))"
proof -
  have "m div 2 ^ (j + w + 1) = 2 * (m div 2 ^ (j + 1 + w + 1)) + of_bool (bit m (j + 1 + w))"
  proof -
    have "m div 2 ^ (j + 1 + w + 1) = m div 2 ^ (j + w + 1) div 2"
      using zdiv_zmult2_eq [of 2 m "2 ^ (j + w + 1)"] by (simp add: mult.commute add.commute)
    moreover have "of_bool (bit m (j + 1 + w)) = m div 2 ^ (j + w + 1) mod 2"
      by (simp add: bit_iff_odd mod2_eq_if add.commute)
    ultimately show ?thesis by simp
  qed
  moreover have "v = d + 2 * ((v - d) div 2)" using assms by simp
  ultimately show ?thesis by (simp add: wnaf_rest_def algebra_simps)
qed

lemma wnaf_loop_correct:
  assumes w: "0 < w" and m: "m = \<bar>scalar\<bar>" "m < 2 ^ len" and s: "sign = 1 \<or> sign = - 1"
  shows "0 \<le> v \<Longrightarrow> v \<le> 2 * 2 ^ w \<Longrightarrow>
    \<exists>ds. wnaf_loop w len scalar sign j v = Some ds \<and> wnaf_value ds = sign * wnaf_rest w m j v \<and>
      list_all (wnaf_digit_ok w) ds \<and>
      (j + w + 1 \<ge> len \<longrightarrow> (\<forall>k. v < 2 ^ k \<longrightarrow> length ds \<le> k)) \<and> (j + w + 1 < len \<longrightarrow> length ds \<le> len - j + 1)"
proof (induction "(len - (j + w + 1), nat v)" arbitrary: j v rule: wf_induct_rule [OF wf_lex_prod [OF wf_less_than wf_less_than]])
  case (1 j v)
  show ?case
  proof (cases "v \<noteq> 0 \<or> j + w + 1 < len")
    case False
    then have "m div 2 ^ (j + w + 1) = 0"
    proof -
      have "m < 2 ^ (j + w + 1)" using m(2) False power_increasing [of len "j + w + 1" "2 :: int"] by linarith
      then show ?thesis using m(1) by (intro div_pos_pos_trivial) auto
    qed
    with False show ?thesis by (subst wnaf_loop.simps) (auto simp: wnaf_rest_def)
  next
    case True
    define d where "d = wnaf_digit w len j v"
    define b where "b = bit m (j + 1 + w)"
    define v' where "v' = (v - d) div 2 + 2 ^ w * of_bool b"
    note f = digit_facts [OF w "1.prems" d_def]
    have vd: "v - d = 0 \<or> v - d = 2 * 2 ^ w \<or> v - d = 2 ^ w \<or> even v \<and> d = 0" using f(1,2) by (cases "odd v") auto
    have e2: "even (2 ^ w :: int)" using w by simp
    have ev: "even (v - d)" using f(1,2) by (cases "odd v") auto
    have vd0: "0 \<le> (v - d) div 2" "(v - d) div 2 \<le> 2 ^ w" using vd "1.prems" by auto
    have v': "0 \<le> v'" "v' \<le> 2 * 2 ^ w"
      using vd0 zero_le_power [of "2 :: int" w] by (cases b; simp add: v'_def del: zero_le_power)+
    have nb: "\<not> b" if "j + w + 1 \<ge> len"
    proof -
      have "m < 2 ^ (j + 1 + w)" using m(2) that power_increasing [of len "j + 1 + w" "2 :: int"] by (simp add: add.commute)
      then have "m div 2 ^ (j + 1 + w) = 0" using m(1) by (intro div_pos_pos_trivial) auto
      then show ?thesis by (simp add: b_def bit_iff_odd)
    qed
    have late: "v' \<le> v div 2" if "j + w + 1 \<ge> len"
    proof -
      have "0 \<le> d" by (rule f(3) [OF that])
      then have "(v - d) div 2 \<le> v div 2" by (intro zdiv_mono1) auto
      then show ?thesis using nb [OF that] by (simp add: v'_def)
    qed
    have less: "((len - (j + 1 + w + 1), nat v'), (len - (j + w + 1), nat v)) \<in> less_than <*lex*> less_than"
    proof (cases "j + w + 1 < len")
      case False
      then have "0 < v" "v' \<le> v div 2" using True late "1.prems" by auto
      then have "nat v' < nat v" by auto
      then show ?thesis using False by simp
    next
      case True
      then have "len - (j + 1 + w + 1) < len - (j + w + 1)" by simp
      then show ?thesis by simp
    qed
    obtain ds where ds: "wnaf_loop w len scalar sign (j + 1) v' = Some ds" "wnaf_value ds = sign * wnaf_rest w m (j + 1) v'"
      "list_all (wnaf_digit_ok w) ds"
      "j + 1 + w + 1 \<ge> len \<longrightarrow> (\<forall>k. v' < 2 ^ k \<longrightarrow> length ds \<le> k)" "j + 1 + w + 1 < len \<longrightarrow> length ds \<le> len - (j + 1) + 1"
      using "1.hyps" [OF less v'] by blast
    have run: "wnaf_loop w len scalar sign j v = Some (sign * d # ds)"
    proof (cases "odd v")
      case True
      then show ?thesis
        using ds(1) v'(2) f(1) by (subst wnaf_loop.simps) (auto simp: Let_def d_def [symmetric] v'_def b_def m(1))
    next
      case False
      then show ?thesis
        using ds(1) v'(2) f(2) True by (subst wnaf_loop.simps) (auto simp: Let_def d_def [symmetric] v'_def b_def m(1))
    qed
    have "sign * d + 2 * (sign * wnaf_rest w m (j + 1) v') = sign * wnaf_rest w m j v"
      unfolding wnaf_rest_step [OF ev] v'_def b_def by (simp add: algebra_simps)
    moreover have "wnaf_digit_ok w (sign * d)"
      using f(1,2) s by (cases "odd v") (auto simp: wnaf_digit_ok_def)
    moreover have "length (sign * d # ds) \<le> k" if late': "j + w + 1 \<ge> len" and k: "v < 2 ^ k" for k
    proof -
      have "v \<noteq> 0" using True late' by simp
      then obtain k' where k': "k = Suc k'" using k "1.prems" by (cases k) auto
      have "v' < 2 ^ k'" using late [OF late'] k k' by simp
      then show ?thesis using ds(4) late' k' by simp
    qed
    moreover have "length (sign * d # ds) \<le> len - j + 1" if early: "j + w + 1 < len"
    proof (cases "j + 1 + w + 1 < len")
      case True
      then show ?thesis using ds(5) by simp
    next
      case False
      have "0 < (2 :: int) ^ w" by simp
      with v'(2) have "v' < 4 * 2 ^ w" by linarith
      then have "v' < 2 ^ (w + 2)" by simp
      then show ?thesis using ds(4) False early by fastforce
    qed
    ultimately show ?thesis using run ds(2,3) by auto
  qed
qed

text \<open>No internal error for a legal window: the digits are zero or odd and small, their value is the
  scalar, and there is at most one digit more than the scalar has bits.\<close>

lemma wNAF_digits:
  assumes w: "0 < w" "w \<le> 7"
  obtains r where "bn_compute_wNAF scalar w = Some r" "wnaf_value r = scalar" "list_all (wnaf_digit_ok (nat w)) r"
    "length r \<le> z_num_bits scalar + 1"
proof (cases "scalar = 0")
  case True
  then show thesis using that [of "[0]"] by (simp add: bn_compute_wNAF_def wnaf_digit_ok_def)
next
  case False
  define m where "m = \<bar>scalar\<bar>"
  define len where "len = z_num_bits scalar"
  define sign :: int where "sign = (if scalar < 0 then - 1 else 1)"
  define v where "v = m mod (2 * 2 ^ nat w)"
  have len: "m < 2 ^ len"
  proof -
    have "nat m < 2 ^ len" using nat_bits_bounds(1) [of "nat m"] by (simp add: len_def z_num_bits_def m_def)
    then have "int (nat m) < int (2 ^ len)" by (simp only: of_nat_less_iff)
    then show ?thesis by (simp add: m_def)
  qed
  have v: "0 \<le> v" "v \<le> 2 * 2 ^ nat w" using pos_mod_bound [of "2 * 2 ^ nat w" m] by (simp_all add: v_def less_imp_le)
  have a: "and m (2 * 2 ^ nat w - 1) = v"
  proof -
    have "and m (2 ^ Suc (nat w) - 1) = m mod 2 ^ Suc (nat w)"
      by (simp only: mask_eq_exp_minus_1 [symmetric] take_bit_eq_mask [symmetric] take_bit_eq_mod)
    then show ?thesis by (simp add: v_def)
  qed
  have w0: "0 < nat w" using w by simp
  have sg: "sign = 1 \<or> sign = - 1" by (simp add: sign_def)
  have "wnaf_rest (nat w) m 0 v = m"
    by (simp add: wnaf_rest_def v_def)
  then obtain r where r: "wnaf_loop (nat w) len scalar sign 0 v = Some r" "wnaf_value r = sign * m"
    "list_all (wnaf_digit_ok (nat w)) r" "nat w + 1 \<ge> len \<longrightarrow> (\<forall>k. v < 2 ^ k \<longrightarrow> length r \<le> k)"
    "nat w + 1 < len \<longrightarrow> length r \<le> len + 1"
    using wnaf_loop_correct [OF w0 m_def len sg v, where j = 0] by auto
  have "length r \<le> len + 1"
  proof (cases "nat w + 1 < len")
    case False
    have "v \<le> m" by (simp add: v_def m_def zmod_le_nonneg_dividend)
    with len have "v < 2 ^ len" by simp
    with r(4) False show ?thesis by fastforce
  qed (use r(5) in simp)
  moreover have "sign * m = scalar" by (simp add: sign_def m_def)
  moreover have "bn_compute_wNAF scalar w = Some r"
    using False w r(1) a calculation(1) by (simp add: bn_compute_wNAF_def len_def sign_def m_def Let_def)
  ultimately show thesis using that r(2,3) by (simp add: len_def)
qed

end
