(* ===== verification/Ec_Wnaf.thy ===== *)
theory Ec_Wnaf
  imports Bn_Wnaf Ec_Ladder_Correct Ec_Batch
begin

text \<open>
  Simultaneous multiplication (\<open>ossl_ec_wNAF_mul\<close> of \<open>ec_mult.c\<close>) and the calls \<open>EC_POINT_mul\<close> and
  \<open>EC_POINTs_mul\<close>, for groups without precomputed multiples of the generator (\<open>pre_comp.ec\<close> null).
  \<open>fresh\<close> lists the addresses the allocator gives, in order. A scalar argument is the group's own
  order object or another number, because the code compares the pointers.
\<close>

section \<open>The code\<close>

datatype bn_arg = GroupOrder | Bn int

fun bn_arg_value :: "ec_group \<Rightarrow> bn_arg \<Rightarrow> int" where
  "bn_arg_value g GroupOrder = g_order g"
| "bn_arg_value g (Bn k) = k"

definition EC_window_bits_for_scalar_size :: "nat \<Rightarrow> nat" where
  "EC_window_bits_for_scalar_size b =
     (if b \<ge> 2000 then 6 else if b \<ge> 800 then 5 else if b \<ge> 300 then 4 else if b \<ge> 70 then 3
      else if b \<ge> 20 then 2 else 1)"

text \<open>Window size, digits and point of every summand.\<close>

fun wnaf_items :: "(int \<times> nat) list \<Rightarrow> (nat \<times> int list \<times> nat) list option" where
  "wnaf_items [] = Some []"
| "wnaf_items ((k, p) # xs) = do {
     let wsize = EC_window_bits_for_scalar_size (z_num_bits k);
     wNAF \<leftarrow> bn_compute_wNAF k (int wsize);
     rest \<leftarrow> wnaf_items xs;
     Some ((wsize, wNAF, p) # rest)
   }"

fun alloc_points :: "ec_group \<Rightarrow> nat \<Rightarrow> nat list \<Rightarrow> ec_state \<Rightarrow> (nat list \<times> nat list \<times> ec_state) option" where
  "alloc_points g 0 fresh st = Some ([], fresh, st)"
| "alloc_points g (Suc n) [] st = None"
| "alloc_points g (Suc n) (a # fresh) st = do {
     (a, st) \<leftarrow> EC_POINT_new g (Some a) st;
     (v, fresh, st) \<leftarrow> alloc_points g n fresh st;
     Some (a # v, fresh, st)
   }"

text \<open>The sub-arrays \<open>val_sub[i]\<close> of \<open>val\<close>.\<close>

fun alloc_subs :: "ec_group \<Rightarrow> (nat \<times> int list \<times> nat) list \<Rightarrow> nat list \<Rightarrow> ec_state \<Rightarrow>
    (nat list list \<times> nat list \<times> ec_state) option" where
  "alloc_subs g [] fresh st = Some ([], fresh, st)"
| "alloc_subs g ((wsize, wNAF, p) # items) fresh st = do {
     (v, fresh, st) \<leftarrow> alloc_points g (2 ^ (wsize - 1)) fresh st;
     (vs, fresh, st) \<leftarrow> alloc_subs g items fresh st;
     Some (v # vs, fresh, st)
   }"

fun add_chain :: "ec_group \<Rightarrow> nat \<Rightarrow> nat \<Rightarrow> nat list \<Rightarrow> bool \<Rightarrow> ec_state \<Rightarrow> ec_state option" where
  "add_chain g tmp prev [] ctx st = Some st"
| "add_chain g tmp prev (v # vs) ctx st = do {
     st \<leftarrow> EC_POINT_add g v prev tmp ctx st;
     add_chain g tmp v vs ctx st
   }"

fun precompute :: "ec_group \<Rightarrow> nat \<Rightarrow> (nat \<times> int list \<times> nat) list \<Rightarrow> nat list list \<Rightarrow> bool \<Rightarrow> ec_state \<Rightarrow>
    ec_state option" where
  "precompute g tmp ((wsize, wNAF, p) # items) (v # vs) ctx st = do {
     st \<leftarrow> EC_POINT_copy (hd v) p st;
     st \<leftarrow> (if wsize > 1 then do {
          st \<leftarrow> EC_POINT_dbl g tmp (hd v) ctx st;
          add_chain g tmp (hd v) (tl v) ctx st
        } else Some st);
     precompute g tmp items vs ctx st
   }"
| "precompute g tmp items vs ctx st = Some st"

text \<open>The summands at digit position \<open>k\<close>; \<open>iv\<close> is \<open>r_is_inverted\<close>, \<open>ai\<close> is \<open>r_is_at_infinity\<close>.\<close>

fun wnaf_row :: "ec_group \<Rightarrow> nat \<Rightarrow> nat \<Rightarrow> (int list \<times> nat list) list \<Rightarrow> bool \<Rightarrow> bool \<Rightarrow> bool \<Rightarrow> ec_state \<Rightarrow>
    (bool \<times> bool \<times> ec_state) option" where
  "wnaf_row g r k [] ctx iv ai st = Some (iv, ai, st)"
| "wnaf_row g r k ((wNAF, val_sub) # rest) ctx iv ai st =
     (if length wNAF > k \<and> wNAF ! k \<noteq> 0 then do {
        let is_neg = wNAF ! k < 0;
        let digit = \<bar>wNAF ! k\<bar>;
        (iv, st) \<leftarrow> (if is_neg \<noteq> iv then do {
             st \<leftarrow> (if \<not> ai then EC_POINT_invert g r ctx st else Some st);
             Some (\<not> iv, st)
           } else Some (iv, st));
        st \<leftarrow> (if ai then do {
             st \<leftarrow> EC_POINT_copy r (val_sub ! nat (digit div 2)) st;
             ossl_ec_point_blind_coordinates g r ctx st
           } else EC_POINT_add g r r (val_sub ! nat (digit div 2)) ctx st);
        wnaf_row g r k rest ctx iv False st
      }
      else wnaf_row g r k rest ctx iv ai st)"

fun wnaf_main :: "ec_group \<Rightarrow> nat \<Rightarrow> nat \<Rightarrow> (int list \<times> nat list) list \<Rightarrow> bool \<Rightarrow> bool \<Rightarrow> bool \<Rightarrow> ec_state \<Rightarrow>
    (bool \<times> bool \<times> ec_state) option" where
  "wnaf_main g r 0 items ctx iv ai st = Some (iv, ai, st)"
| "wnaf_main g r (Suc k) items ctx iv ai st = do {
     st \<leftarrow> (if \<not> ai then EC_POINT_dbl g r r ctx st else Some st);
     (iv, ai, st) \<leftarrow> wnaf_row g r k items ctx iv ai st;
     wnaf_main g r k items ctx iv ai st
   }"

definition wnaf_general :: "ec_group \<Rightarrow> nat \<Rightarrow> (int \<times> nat) list \<Rightarrow> nat list \<Rightarrow> bool \<Rightarrow> ec_state \<Rightarrow> ec_state option" where
  "wnaf_general g r summands fresh ctx st = do {
     items \<leftarrow> wnaf_items summands;
     (val_sub, fresh, st) \<leftarrow> alloc_subs g items fresh st;
     (tmp, fresh, st) \<leftarrow> alloc_points g 1 fresh st;
     st \<leftarrow> precompute g (hd tmp) items val_sub ctx st;
     st \<leftarrow> (if slot (g_meth g) ''points_make_affine'' = ''ossl_ec_GFp_simple_points_make_affine''
           then ossl_ec_GFp_simple_points_make_affine g (concat val_sub) ctx st else None);
     let rows = zip (map (\<lambda>(wsize, wNAF, p). wNAF) items) val_sub;
     let max_len = fold max (map (\<lambda>(wsize, wNAF, p). length wNAF) items) 0;
     (iv, ai, st) \<leftarrow> wnaf_main g r max_len rows ctx False True st;
     (if ai then EC_POINT_set_to_infinity g r st
      else if iv then EC_POINT_invert g r ctx st
      else Some st)
   }"

definition alloc_at :: "nat list \<Rightarrow> nat \<Rightarrow> nat option" where
  "alloc_at fresh i = (if i < length fresh then Some (fresh ! i) else None)"

definition ossl_ec_wNAF_mul ::
  "ec_group \<Rightarrow> nat \<Rightarrow> bn_arg option \<Rightarrow> (bn_arg \<times> nat) list \<Rightarrow> nat list \<Rightarrow> bool \<Rightarrow> ec_state \<Rightarrow> ec_state option" where
  "ossl_ec_wNAF_mul g r scalar points fresh ctx st =
     (let summands = map (\<lambda>(k, p). (bn_arg_value g k, p)) points;
          known = (g_order g \<noteq> 0 \<and> g_cofactor g \<noteq> 0) in
      case scalar of
        Some k \<Rightarrow>
          if known \<and> k \<noteq> GroupOrder \<and> points = []
          then ossl_ec_scalar_mul_ladder g r (bn_arg_value g k) None (alloc_at fresh 0) (alloc_at fresh 1) ctx st
          else (case g_generator g of
              None \<Rightarrow> None
            | Some gen \<Rightarrow> wnaf_general g r (summands @ [(bn_arg_value g k, gen)]) fresh ctx st)
      | None \<Rightarrow>
          (case points of
             [(k, p)] \<Rightarrow>
               if known \<and> k \<noteq> GroupOrder
               then ossl_ec_scalar_mul_ladder g r (bn_arg_value g k) (Some p) (alloc_at fresh 0) (alloc_at fresh 1) ctx st
               else wnaf_general g r summands fresh ctx st
           | _ \<Rightarrow> wnaf_general g r summands fresh ctx st))"

definition EC_POINTs_mul ::
  "ec_group \<Rightarrow> nat \<Rightarrow> bn_arg option \<Rightarrow> (bn_arg \<times> nat) list \<Rightarrow> nat list \<Rightarrow> bool \<Rightarrow> ec_state \<Rightarrow> ec_state option" where
  "EC_POINTs_mul g r scalar points fresh ctx st =
     (if \<not> ec_point_is_compat (heap st r) g then None
      else if scalar = None \<and> points = [] then EC_POINT_set_to_infinity g r st
      else if \<not> list_all (\<lambda>(k, p). ec_point_is_compat (heap st p) g) points then None
      else if \<not> ctx then None
      else if slot (g_meth g) ''mul'' \<noteq> ''0'' then None
      else ossl_ec_wNAF_mul g r scalar points fresh ctx st)"

definition EC_POINT_mul ::
  "ec_group \<Rightarrow> nat \<Rightarrow> bn_arg option \<Rightarrow> nat option \<Rightarrow> bn_arg option \<Rightarrow> nat list \<Rightarrow> bool \<Rightarrow> ec_state \<Rightarrow> ec_state option" where
  "EC_POINT_mul g r g_scalar point p_scalar fresh ctx st =
     (if \<not> ec_point_is_compat (heap st r) g then None
      else if (case point of None \<Rightarrow> False | Some p \<Rightarrow> \<not> ec_point_is_compat (heap st p) g) then None
      else if g_scalar = None \<and> p_scalar = None then EC_POINT_set_to_infinity g r st
      else if \<not> ctx then None
      else if slot (g_meth g) ''mul'' \<noteq> ''0'' then None
      else ossl_ec_wNAF_mul g r g_scalar
        (case (p_scalar, point) of (Some k, Some p) \<Rightarrow> [(k, p)] | _ \<Rightarrow> []) fresh ctx st)"

section \<open>Sums of multiples\<close>

lemma gadd_assoc:
  "curve_ok g \<Longrightarrow> gon g P \<Longrightarrow> gon g Q \<Longrightarrow> gon g R \<Longrightarrow> gadd g (gadd g P Q) R = gadd g P (gadd g Q R)"
  using law.add_assoc [of "Curve g" P Q R] by (simp add: group_of_Curve)

lemma gneg_add:
  "curve_ok g \<Longrightarrow> gon g P \<Longrightarrow> gon g Q \<Longrightarrow> gneg g (gadd g P Q) = gadd g (gneg g P) (gneg g Q)"
  using law.neg_add_distrib [of "Curve g" P Q] by (simp add: group_of_Curve)

lemma gadd_swap:
  assumes c: "curve_ok g" and on: "gon g A" "gon g B" "gon g C" "gon g D"
  shows "gadd g (gadd g A B) (gadd g C D) = gadd g (gadd g A C) (gadd g B D)"
proof -
  note r = gadd_assoc [OF c] gon_add [OF c] on
  have "gadd g (gadd g A B) (gadd g C D) = gadd g A (gadd g (gadd g B C) D)" by (simp add: r del: aff_add.simps)
  also have "gadd g B C = gadd g C B" by (rule gadd_comm [OF c on(2,3)])
  also have "gadd g A (gadd g (gadd g C B) D) = gadd g (gadd g A C) (gadd g B D)" by (simp add: r del: aff_add.simps)
  finally show ?thesis .
qed

text \<open>The sum of the multiples \<open>k P\<close> of a list of pairs.\<close>

fun gsum :: "ec_group \<Rightarrow> (int \<times> apoint) list \<Rightarrow> apoint" where
  "gsum g [] = Inf"
| "gsum g ((k, P) # xs) = gadd g (gmul g k P) (gsum g xs)"

lemma gadd_Inf [simp]: "aff_add p a Inf P = P" "aff_add p a P Inf = P"
  by (cases P; simp)+

lemma gon_gsum: "curve_ok g \<Longrightarrow> \<forall>(k, P) \<in> set xs. gon g P \<Longrightarrow> gon g (gsum g xs)"
  by (induction g xs rule: gsum.induct) (auto simp: gon_add gon_mul simp del: aff_add.simps)

lemma gsum_add:
  assumes c: "curve_ok g"
  shows "\<forall>x \<in> set xs. gon g (P x) \<Longrightarrow>
    gadd g (gsum g (map (\<lambda>x. (f x, P x)) xs)) (gsum g (map (\<lambda>x. (h x, P x)) xs)) = gsum g (map (\<lambda>x. (f x + h x, P x)) xs)"
proof (induction xs)
  case (Cons x xs)
  have on: "gon g (gsum g (map (\<lambda>x. (u x, P x)) xs))" for u by (rule gon_gsum [OF c]) (use Cons.prems in auto)
  have "gadd g (gadd g (gmul g (f x) (P x)) (gsum g (map (\<lambda>x. (f x, P x)) xs)))
      (gadd g (gmul g (h x) (P x)) (gsum g (map (\<lambda>x. (h x, P x)) xs))) =
    gadd g (gadd g (gmul g (f x) (P x)) (gmul g (h x) (P x)))
      (gadd g (gsum g (map (\<lambda>x. (f x, P x)) xs)) (gsum g (map (\<lambda>x. (h x, P x)) xs)))"
    by (rule gadd_swap [OF c]) (use Cons.prems c on in \<open>simp_all add: gon_mul\<close>)
  with Cons show ?case by (simp add: gmul_add [OF c] del: aff_add.simps)
qed simp

section \<open>The digit loop\<close>

definition wnaf_dig :: "nat \<Rightarrow> int list \<Rightarrow> int" where
  "wnaf_dig k ds = (if k < length ds then ds ! k else 0)"

lemma wnaf_value_drop: "wnaf_value (drop k ds) = wnaf_dig k ds + (wnaf_value (drop (Suc k) ds) + wnaf_value (drop (Suc k) ds))"
  by (cases "k < length ds") (auto simp: wnaf_dig_def Cons_nth_drop_Suc [symmetric])

text \<open>A table holds the odd multiples of its point, as many as the digits ask for.\<close>

definition odd_table :: "ec_group \<Rightarrow> ec_state \<Rightarrow> nat list \<Rightarrow> apoint \<Rightarrow> bool" where
  "odd_table g st v P \<longleftrightarrow> (\<forall>i < length v. holds g st (v ! i) (gmul g (2 * int i + 1) P))"

definition row_ok :: "ec_group \<Rightarrow> nat \<Rightarrow> ec_state \<Rightarrow> int list \<times> nat list \<times> apoint \<Rightarrow> bool" where
  "row_ok g r st = (\<lambda>(ds, v, P). gon g P \<and> r \<notin> set v \<and> odd_table g st v P \<and>
     (\<forall>d \<in> set ds. d \<noteq> 0 \<longrightarrow> odd d \<and> nat (\<bar>d\<bar> div 2) < length v))"

text \<open>The accumulator: \<open>A\<close>, up to the sign flag; the address \<open>r\<close> is not yet in use while it is infinity.
  Its first use blinds it and may take one of the \<open>m\<close> outputs left to the generator.\<close>

definition acc :: "nat \<Rightarrow> ec_group \<Rightarrow> nat \<Rightarrow> ec_state \<Rightarrow> bool \<Rightarrow> bool \<Rightarrow> apoint \<Rightarrow> bool" where
  "acc m g r st iv ai A \<longleftrightarrow> gon g A \<and>
     (if ai then A = Inf \<and> (\<exists>Q. holds g st r Q) \<and> rng_avail g m (rng st)
      else holds g st r (if iv then gneg g A else A) \<and> rng_avail g (m - 1) (rng st))"

lemma row_frame: "row_ok g r st x \<Longrightarrow> frame r st st' \<Longrightarrow> row_ok g r st' x"
  by (auto simp: row_ok_def odd_table_def split: prod.splits elim!: holds_frame)

lemma frame_trans: "frame r s s' \<Longrightarrow> frame r s' s'' \<Longrightarrow> frame r s s''"
  by (auto simp: frame_def)

lemma frame_id [simp]: "frame r s s"
  by (simp add: frame_def)

lemma rand_nonzero_left:
  "rng_avail g m rs \<Longrightarrow> rng_avail g (m - 1) (case rand_nonzero rs of None \<Rightarrow> [] | Some (e, rs') \<Rightarrow> rs')"
proof (induction rs)
  case (Cons e rs)
  then show ?case by (cases "e = 0") (auto simp: rng_avail_def)
qed (simp add: rng_avail_def)

lemma blind_rng:
  assumes "ossl_ec_GFp_simple_blind_coordinates g r True s = Some s'"
  shows "rng s' = (case rand_nonzero (rng s) of None \<Rightarrow> [] | Some (e, rs') \<Rightarrow> rs')"
  using assms unfolding ossl_ec_GFp_simple_blind_coordinates_def Let_def
  by (auto split: option.splits prod.splits if_splits)

lemma blind_holds:
  assumes "gfp_valid g" "holds g s r P" "rng_avail g m (rng s)"
  shows "returns (ossl_ec_point_blind_coordinates g r True s) (\<lambda>s'. frame r s s' \<and> holds g s' r P \<and> rng_avail g (m - 1) (rng s'))"
proof -
  have "list_all (red (g_field g)) (rng s)" using assms(3) by (simp add: rng_avail_def)
  then obtain s' where s': "ossl_ec_GFp_simple_blind_coordinates g r True s = Some s'" "frame r s s'" "holds g s' r P"
    using gfp.blind_ret [OF assms(1) holdsD(1,4,5) [OF assms(2)]] by (auto simp: returns_ex holds_def represents_def)
  moreover have "rng_avail g (m - 1) (rng s')" using blind_rng [OF s'(1)] rand_nonzero_left [OF assms(3)] by simp
  ultimately show ?thesis using gfp.meth_law [OF assms(1)]
    by (auto simp: ossl_ec_point_blind_coordinates_def Let_def)
qed

text \<open>The sign flag is brought in line with the digit.\<close>

lemma flip_holds:
  assumes c: "curve_ok g" and a: "acc m g r st iv ai A"
  shows "returns (if n \<noteq> iv then do {
             st \<leftarrow> (if \<not> ai then EC_POINT_invert g r True st else Some st);
             Some (\<not> iv, st)
           } else Some (iv, st)) (\<lambda>(iv', st'). iv' = n \<and> frame r st st' \<and> acc m g r st' n ai A)"
proof (cases "n = iv")
  case False
  show ?thesis
  proof (cases ai)
    case ai: False
    with a have h: "holds g st r (if iv then gneg g A else A)" "gon g A" "rng_avail g (m - 1) (rng st)" by (auto simp: acc_def)
    obtain s1 where s1: "EC_POINT_invert g r True st = Some s1" "frame r st s1" "holds g s1 r (gneg g (if iv then gneg g A else A))"
      using invert_holds [OF curve_valid [OF c] h(1), of True] by (auto simp: returns_ex)
    then show ?thesis using False ai gneg_neg [OF c h(2)] h invert_rng [OF s1(1)] by (auto simp: acc_def)
  qed (use False a in \<open>auto simp: acc_def\<close>)
qed (use a in simp)

text \<open>One table entry is taken or added.\<close>

lemma take_holds:
  assumes c: "curve_ok g" and a: "acc m g r st n ai A" and e: "holds g st e (if n then gneg g D else D)" "e \<noteq> r" "gon g D"
  shows "returns (if ai then do {
             st \<leftarrow> EC_POINT_copy r e st;
             ossl_ec_point_blind_coordinates g r True st
           } else EC_POINT_add g r r e True st) (\<lambda>st'. frame r st st' \<and> acc m g r st' n False (gadd g A D))"
proof (cases ai)
  case True
  with a obtain Q where Q: "A = Inf" "holds g st r Q" "rng_avail g m (rng st)" by (auto simp: acc_def)
  obtain s1 where s1: "EC_POINT_copy r e st = Some s1" "frame r st s1" "holds g s1 r (if n then gneg g D else D)"
    using copy_holds [OF curve_valid [OF c] e(1) holdsD(1) [OF Q(2)]] by (auto simp: returns_ex)
  from blind_holds [OF curve_valid [OF c] s1(3), of m] Q(3) copy_rng [OF s1(1)]
  obtain s2 where "ossl_ec_point_blind_coordinates g r True s1 = Some s2" "frame r s1 s2"
    "holds g s2 r (if n then gneg g D else D)" "rng_avail g (m - 1) (rng s2)" by (auto simp: returns_ex)
  with True s1 Q(1) e(3) show ?thesis by (auto simp: acc_def intro: frame_trans)
next
  case False
  with a have h: "holds g st r (if n then gneg g A else A)" "gon g A" "rng_avail g (m - 1) (rng st)" by (auto simp: acc_def)
  obtain s1 where s1: "EC_POINT_add g r r e True st = Some s1" "frame r st s1"
    "holds g s1 r (gadd g (if n then gneg g A else A) (if n then gneg g D else D))"
    using add_holds [OF curve_valid [OF c] h(1) e(1) h(1)] by (auto simp: returns_ex)
  moreover have "gadd g (if n then gneg g A else A) (if n then gneg g D else D) =
      (if n then gneg g (gadd g A D) else gadd g A D)"
    by (simp add: gneg_add [OF c h(2) e(3)] del: aff_add.simps)
  moreover have "gon g (gadd g A D)" by (rule gon_add [OF c h(2) e(3)])
  moreover have "rng_avail g (m - 1) (rng s1)" using h(3) add_rng [OF s1(1)] by simp
  ultimately show ?thesis using False by (simp add: acc_def del: aff_add.simps)
qed

lemma entry_holds:
  assumes c: "curve_ok g" "gon g P" and t: "odd_table g st v P" and d: "odd d" "nat (\<bar>d\<bar> div 2) < length v"
  shows "holds g st (v ! nat (\<bar>d\<bar> div 2)) (if d < 0 then gneg g (gmul g d P) else gmul g d P)"
proof -
  have "2 * int (nat (\<bar>d\<bar> div 2)) + 1 = \<bar>d\<bar>" using d(1) by simp
  with t d(2) have "holds g st (v ! nat (\<bar>d\<bar> div 2)) (gmul g \<bar>d\<bar> P)" unfolding odd_table_def by metis
  then show ?thesis using gmul_minus [OF c, of d] by (cases "d < 0") (simp_all add: abs_if)
qed

abbreviation wnaf_rows :: "(int list \<times> nat list \<times> apoint) list \<Rightarrow> (int list \<times> nat list) list" where
  "wnaf_rows tr \<equiv> map (\<lambda>(ds, v, P). (ds, v)) tr"

definition wsum :: "ec_group \<Rightarrow> (int list \<Rightarrow> int) \<Rightarrow> (int list \<times> nat list \<times> apoint) list \<Rightarrow> apoint" where
  "wsum g f tr = gsum g (map (\<lambda>x. (f (fst x), snd (snd x))) tr)"

lemma wsum_Cons: "wsum g f ((ds, v, P) # tr) = gadd g (gmul g (f ds) P) (wsum g f tr)"
  by (simp add: wsum_def)

lemma gon_wsum: "curve_ok g \<Longrightarrow> \<forall>x \<in> set tr. row_ok g r st x \<Longrightarrow> gon g (wsum g f tr)"
  unfolding wsum_def by (rule gon_gsum) (auto simp: row_ok_def)

lemma wsum_value:
  assumes "curve_ok g" "\<forall>x \<in> set tr. row_ok g r st x"
  shows "gadd g (gadd g (wsum g (\<lambda>ds. wnaf_value (drop (Suc k) ds)) tr) (wsum g (\<lambda>ds. wnaf_value (drop (Suc k) ds)) tr))
      (wsum g (wnaf_dig k) tr) = wsum g (\<lambda>ds. wnaf_value (drop k ds)) tr"
proof -
  have on: "\<forall>x \<in> set tr. gon g (snd (snd x))" using assms(2) by (auto simp: row_ok_def)
  show ?thesis
    unfolding wsum_def by (simp add: gsum_add [OF assms(1) on] wnaf_value_drop [of k] add.commute del: aff_add.simps)
qed

lemma wnaf_row_holds:
  assumes c: "curve_ok g"
  shows "\<forall>x \<in> set tr. row_ok g r st x \<Longrightarrow> acc m g r st iv ai A \<Longrightarrow>
    returns (wnaf_row g r k (wnaf_rows tr) True iv ai st) (\<lambda>(iv', ai', st').
      frame r st st' \<and> acc m g r st' iv' ai' (gadd g A (wsum g (wnaf_dig k) tr)))"
proof (induction tr arbitrary: st iv ai A)
  case Nil
  then show ?case by (simp add: wsum_def)
next
  case (Cons x tr)
  obtain ds v P where x: "x = (ds, v, P)" by (cases x)
  have row: "row_ok g r st (ds, v, P)" and rows: "\<forall>x \<in> set tr. row_ok g r st x" using Cons.prems(1) x by auto
  have P: "gon g P" "odd_table g st v P" using row by (simp_all add: row_ok_def)
  have A: "gon g A" using Cons.prems(2) by (simp add: acc_def)
  note asc = gadd_assoc [OF c A gon_mul [OF c P(1)] gon_wsum [OF c rows]]
  show ?case
  proof (cases "k < length ds \<and> ds ! k \<noteq> 0")
    case False
    then have "wnaf_dig k ds = 0" by (auto simp: wnaf_dig_def)
    then have "wsum g (wnaf_dig k) (x # tr) = wsum g (wnaf_dig k) tr" by (simp add: x wsum_Cons)
    with Cons.IH [OF rows Cons.prems(2)] False x show ?thesis by auto
  next
    case True
    define d where "d = ds ! k"
    have d: "d \<noteq> 0" "wnaf_dig k ds = d" "d \<in> set ds" using True by (simp_all add: d_def wnaf_dig_def)
    with row have D: "odd d" "nat (\<bar>d\<bar> div 2) < length v" "r \<notin> set v" by (auto simp: row_ok_def)
    let ?e = "v ! nat (\<bar>d\<bar> div 2)"
    obtain s1 where s1: "(if (d < 0) \<noteq> iv then do {
             st \<leftarrow> (if \<not> ai then EC_POINT_invert g r True st else Some st);
             Some (\<not> iv, st)
           } else Some (iv, st)) = Some (d < 0, s1)" "frame r st s1" "acc m g r s1 (d < 0) ai A"
      using flip_holds [OF c Cons.prems(2), of "d < 0"] by (auto simp: returns_ex)
    have e: "holds g st ?e (if d < 0 then gneg g (gmul g d P) else gmul g d P)" "?e \<noteq> r"
      using entry_holds [OF c P D(1,2)] D(2,3) by (auto dest: nth_mem)
    obtain s2 where s2: "(if ai then do {
             st \<leftarrow> EC_POINT_copy r ?e s1;
             ossl_ec_point_blind_coordinates g r True st
           } else EC_POINT_add g r r ?e True s1) = Some s2" "frame r s1 s2"
        "acc m g r s2 (d < 0) False (gadd g A (gmul g d P))"
      using take_holds [OF c s1(3) holds_frame [OF e(1) s1(2) e(2)] e(2) gon_mul [OF c P(1)]]
      unfolding returns_ex by blast
    have fr: "frame r st s2" by (rule frame_trans [OF s1(2) s2(2)])
    then have rows2: "\<forall>x \<in> set tr. row_ok g r s2 x" using rows row_frame by blast
    have run: "wnaf_row g r k (wnaf_rows (x # tr)) True iv ai st =
        wnaf_row g r k (wnaf_rows tr) True (d < 0) False s2"
      using True s1(1) s2(1) unfolding d_def by (simp add: x Let_def split del: if_split)
    have sum: "gadd g (gadd g A (gmul g d P)) (wsum g (wnaf_dig k) tr) = gadd g A (wsum g (wnaf_dig k) (x # tr))"
      unfolding asc by (simp add: x wsum_Cons d(2) del: aff_add.simps)
    show ?thesis unfolding run
      by (rule returns_more [OF Cons.IH [OF rows2 s2(3)]]) (auto simp: sum simp del: aff_add.simps intro: frame_trans [OF fr])
  qed
qed

lemma wnaf_main_holds:
  assumes c: "curve_ok g"
  shows "\<forall>x \<in> set tr. row_ok g r st x \<Longrightarrow> acc m g r st iv ai (wsum g (\<lambda>ds. wnaf_value (drop k ds)) tr) \<Longrightarrow>
    returns (wnaf_main g r k (wnaf_rows tr) True iv ai st) (\<lambda>(iv', ai', st').
      frame r st st' \<and> acc m g r st' iv' ai' (wsum g wnaf_value tr))"
proof (induction k arbitrary: st iv ai)
  case (Suc k)
  let ?A = "wsum g (\<lambda>ds. wnaf_value (drop (Suc k) ds)) tr"
  have on: "gon g ?A" by (rule gon_wsum [OF c Suc.prems(1)])
  have "returns (if \<not> ai then EC_POINT_dbl g r r True st else Some st) (\<lambda>st'. frame r st st' \<and> acc m g r st' iv ai (gadd g ?A ?A))"
  proof (cases ai)
    case False
    let ?X = "if iv then gneg g ?A else ?A"
    have h: "holds g st r ?X" and av: "rng_avail g (m - 1) (rng st)" using False Suc.prems(2) by (auto simp: acc_def)
    have "gadd g ?X ?X = (if iv then gneg g (gadd g ?A ?A) else gadd g ?A ?A)"
      by (simp add: gneg_add [OF c on on] del: aff_add.simps)
    moreover obtain s1 where s1: "EC_POINT_dbl g r r True st = Some s1" "frame r st s1" "holds g s1 r (gadd g ?X ?X)"
      using dbl_holds [OF curve_valid [OF c] h h] by (auto simp: returns_ex simp del: aff_add.simps)
    ultimately show ?thesis using False gon_add [OF c on on] av dbl_rng [OF s1(1)]
      by (auto simp: acc_def simp del: aff_add.simps)
  qed (use Suc.prems(2) in \<open>auto simp: acc_def\<close>)
  then obtain s1 where s1: "(if \<not> ai then EC_POINT_dbl g r r True st else Some st) = Some s1" "frame r st s1"
    "acc m g r s1 iv ai (gadd g ?A ?A)" unfolding returns_ex by blast
  have rows1: "\<forall>x \<in> set tr. row_ok g r s1 x" using Suc.prems(1) s1(2) row_frame by blast
  obtain iv2 ai2 s2 where s2: "wnaf_row g r k (wnaf_rows tr) True iv ai s1 = Some (iv2, ai2, s2)" "frame r s1 s2"
    "acc m g r s2 iv2 ai2 (wsum g (\<lambda>ds. wnaf_value (drop k ds)) tr)"
    using wnaf_row_holds [OF c rows1 s1(3), of k] unfolding wsum_value [OF c rows1] returns_ex by auto
  have rows2: "\<forall>x \<in> set tr. row_ok g r s2 x" using rows1 s2(2) row_frame by blast
  have run: "wnaf_main g r (Suc k) (wnaf_rows tr) True iv ai st = wnaf_main g r k (wnaf_rows tr) True iv2 ai2 s2"
    using s1(1) s2(1) by (simp split del: if_split)
  show ?case unfolding run
    by (rule returns_more [OF Suc.IH [OF rows2 s2(3)]]) (auto intro: frame_trans [OF frame_trans [OF s1(2) s2(2)]])
qed simp

section \<open>The tables\<close>

definition others :: "nat set \<Rightarrow> ec_state \<Rightarrow> ec_state \<Rightarrow> bool" where
  "others A s s' \<longleftrightarrow> rng s' = rng s \<and> (\<forall>a. a \<notin> A \<longrightarrow> heap s' a = heap s a)"

lemma others_holds: "holds g s a P \<Longrightarrow> others A s s' \<Longrightarrow> a \<notin> A \<Longrightarrow> holds g s' a P"
  by (simp add: holds_def others_def)

lemma others_trans: "others A s s' \<Longrightarrow> others B s' s'' \<Longrightarrow> A \<subseteq> C \<Longrightarrow> B \<subseteq> C \<Longrightarrow> others C s s''"
  unfolding others_def subset_iff by metis

lemma others_refl [simp]: "others A s s"
  by (simp add: others_def)

lemma window_bits: "1 \<le> EC_window_bits_for_scalar_size b" "EC_window_bits_for_scalar_size b \<le> 6"
  by (simp_all add: EC_window_bits_for_scalar_size_def)

lemma wnaf_items_ret:
  "returns (wnaf_items ks) (list_all2 (\<lambda>(k, p) (w, ds, q). q = p \<and> w = EC_window_bits_for_scalar_size (z_num_bits k) \<and>
     wnaf_value ds = k \<and> list_all (wnaf_digit_ok w) ds) ks)"
proof (induction ks)
  case (Cons x ks)
  obtain k p where x: "x = (k, p)" by (cases x)
  let ?w = "EC_window_bits_for_scalar_size (z_num_bits k)"
  have w: "0 < int ?w" "int ?w \<le> 7" using window_bits [of "z_num_bits k"] by auto
  obtain ds where "bn_compute_wNAF k (int ?w) = Some ds" "wnaf_value ds = k" "list_all (wnaf_digit_ok (nat (int ?w))) ds"
    by (rule wNAF_digits [OF w, of k])
  with Cons.IH x show ?case by (auto simp: returns_ex Let_def)
qed simp

lemma alloc_points_ret:
  assumes v: "gfp_valid g"
  shows "n \<le> length fresh \<Longrightarrow> distinct fresh \<Longrightarrow> returns (alloc_points g n fresh st) (\<lambda>(vs, fr, st').
    vs = take n fresh \<and> fr = drop n fresh \<and> others (set vs) st st' \<and> (\<forall>a \<in> set vs. holds g st' a Inf))"
proof (induction n arbitrary: fresh st)
  case (Suc n)
  obtain a fr where fr: "fresh = a # fr" using Suc.prems(1) by (cases fresh) auto
  obtain s1 where s1: "EC_POINT_new g (Some a) st = Some (a, s1)" "\<forall>b. b \<noteq> a \<longrightarrow> heap s1 b = heap st b" "holds g s1 a Inf"
    using new_holds [OF v, of a st] by (auto simp: returns_ex)
  have le: "n \<le> length fr" "distinct fr" using Suc.prems fr by auto
  obtain s2 where s2: "alloc_points g n fr s1 = Some (take n fr, drop n fr, s2)" "others (set (take n fr)) s1 s2"
    "\<forall>a \<in> set (take n fr). holds g s2 a Inf"
    using Suc.IH [OF le, of s1] by (auto simp: returns_ex)
  have "a \<notin> set (take n fr)" using Suc.prems(2) fr by (auto dest: in_set_takeD)
  then have "holds g s2 a Inf" by (rule others_holds [OF s1(3) s2(2)])
  with s1 s2 fr new_rng [OF s1(1)] show ?case by (simp add: others_def)
qed simp

abbreviation table_size :: "nat \<times> int list \<times> nat \<Rightarrow> nat" where
  "table_size x \<equiv> 2 ^ (fst x - 1)"

lemma alloc_subs_ret:
  assumes v: "gfp_valid g"
  shows "sum_list (map table_size items) \<le> length fresh \<Longrightarrow> distinct fresh \<Longrightarrow>
    returns (alloc_subs g items fresh st) (\<lambda>(vs, fr, st'). concat vs @ fr = fresh \<and> map length vs = map table_size items \<and>
      others (set (concat vs)) st st' \<and> (\<forall>a \<in> set (concat vs). holds g st' a Inf))"
proof (induction items arbitrary: fresh st)
  case (Cons x items)
  obtain w ds p where x: "x = (w, ds, p)" by (cases x)
  let ?n = "2 ^ (w - 1) :: nat"
  have le: "?n \<le> length fresh" "sum_list (map table_size items) \<le> length (drop ?n fresh)"
    "distinct (drop ?n fresh)" using Cons.prems x by auto
  obtain s1 where s1: "alloc_points g ?n fresh st = Some (take ?n fresh, drop ?n fresh, s1)"
    "others (set (take ?n fresh)) st s1" "\<forall>a \<in> set (take ?n fresh). holds g s1 a Inf"
    using alloc_points_ret [OF v le(1) Cons.prems(2), of st] by (auto simp: returns_ex)
  obtain vs fr s2 where s2: "alloc_subs g items (drop ?n fresh) s1 = Some (vs, fr, s2)" "concat vs @ fr = drop ?n fresh"
    "map length vs = map table_size items" "others (set (concat vs)) s1 s2" "\<forall>a \<in> set (concat vs). holds g s2 a Inf"
    using Cons.IH [OF le(2,3), of s1] unfolding returns_ex by auto
  have "distinct (take ?n fresh @ concat vs @ fr)" using Cons.prems(2) s2(2) by simp
  then have "set (take ?n fresh) \<inter> set (concat vs) = {}" by auto
  then have "\<forall>a \<in> set (take ?n fresh). holds g s2 a Inf" using s1(3) others_holds [OF _ s2(4)] by blast
  moreover have "others (set (concat (take ?n fresh # vs))) st s2" by (rule others_trans [OF s1(2) s2(4)]) auto
  moreover have "concat (take ?n fresh # vs) @ fr = fresh" using s2(2) by simp
  moreover have "map length (take ?n fresh # vs) = map table_size (x # items)" using s2(3) le(1) x by simp
  moreover have "alloc_subs g (x # items) fresh st = Some (take ?n fresh # vs, fr, s2)" using s1(1) s2(1) by (simp add: x)
  moreover have "\<forall>a \<in> set (concat (take ?n fresh # vs)). holds g s2 a Inf" using calculation(1) s2(5) by auto
  ultimately show ?case unfolding returns_ex by blast
qed simp

lemma add_chain_ret:
  assumes c: "curve_ok g" "gon g P"
  shows "holds g st tmp (gmul g 2 P) \<Longrightarrow> holds g st prev (gmul g m P) \<Longrightarrow> \<forall>a \<in> set vs. \<exists>Q. holds g st a Q \<Longrightarrow>
    distinct (tmp # prev # vs) \<Longrightarrow>
    returns (add_chain g tmp prev vs True st) (\<lambda>st'. others (set vs) st st' \<and>
      (\<forall>i < length vs. holds g st' (vs ! i) (gmul g (m + 2 * (int i + 1)) P)))"
proof (induction vs arbitrary: prev m st)
  case (Cons a vs)
  obtain Q where Q: "holds g st a Q" using Cons.prems(3) by auto
  obtain s1 where s1: "EC_POINT_add g a prev tmp True st = Some s1" "frame a st s1" "holds g s1 a (gmul g (m + 2) P)"
    using add_holds [OF curve_valid [OF c(1)] Cons.prems(2,1) Q] unfolding gmul_add [OF c] by (auto simp: returns_ex)
  have keep: "holds g s1 b R" if "b \<noteq> a" "holds g st b R" for b R using holds_frame [OF that(2) s1(2) that(1)] .
  have ne: "tmp \<noteq> a" "a \<notin> set vs" using Cons.prems(4) by auto
  have prem: "holds g s1 tmp (gmul g 2 P)" "distinct (tmp # a # vs)"
    using Cons.prems(1,4) keep [OF ne(1)] by auto
  have prem3: "\<forall>b \<in> set vs. \<exists>Q. holds g s1 b Q"
    using Cons.prems(3) keep ne(2) by (metis list.set_intros(2))
  obtain s2 where s2: "add_chain g tmp a vs True s1 = Some s2" "others (set vs) s1 s2"
    "\<forall>i < length vs. holds g s2 (vs ! i) (gmul g (m + 2 + 2 * (int i + 1)) P)"
    using Cons.IH [OF prem(1) s1(3) prem3 prem(2)] by (auto simp: returns_ex)
  have "holds g s2 a (gmul g (m + 2) P)" by (rule others_holds [OF s1(3) s2(2)]) (use Cons.prems(4) in auto)
  then have "holds g s2 ((a # vs) ! i) (gmul g (m + 2 * (int i + 1)) P)" if "i < length (a # vs)" for i
    using that s2(3) by (cases i) (auto simp: algebra_simps)
  moreover have "others (set (a # vs)) st s2"
    using s1(2) add_rng [OF s1(1)] s2(2) by (auto simp: others_def frame_def)
  ultimately show ?case using s1(1) s2(1) by simp
qed simp

lemma precompute_step:
  assumes c: "curve_ok g" "gon g P" and h: "holds g st p P" "holds g st tmp T" "\<forall>a \<in> set v. \<exists>Q. holds g st a Q"
    and d: "distinct (tmp # v)" "p \<noteq> tmp" "p \<notin> set v" and n: "length v = 2 ^ (w - 1)" "1 \<le> w"
  shows "returns (do {
     st \<leftarrow> EC_POINT_copy (hd v) p st;
     (if w > 1 then do {
          st \<leftarrow> EC_POINT_dbl g tmp (hd v) True st;
          add_chain g tmp (hd v) (tl v) True st
        } else Some st) }) (\<lambda>st'. others (insert tmp (set v)) st st' \<and> odd_table g st' v P \<and> (\<exists>T. holds g st' tmp T))"
proof -
  note va = curve_valid [OF c(1)]
  obtain a vs where v: "v = a # vs" using n by (cases v) auto
  obtain Q where Q: "holds g st a Q" using h(3) v by auto
  obtain s1 where s1: "EC_POINT_copy a p st = Some s1" "frame a st s1" "holds g s1 a P"
    using copy_holds [OF va h(1) holdsD(1) [OF Q]] by (auto simp: returns_ex)
  have t1: "holds g s1 tmp T" by (rule holds_frame [OF h(2) s1(2)]) (use d v in auto)
  have q1: "\<exists>Q. holds g s1 b Q" if b: "b \<in> set vs" for b
  proof -
    obtain Q where "holds g st b Q" using h(3) b v by auto
    moreover have "b \<noteq> a" using d b v by auto
    ultimately show ?thesis using holds_frame s1(2) by blast
  qed
  show ?thesis
  proof (cases "w > 1")
    case False
    with n have "vs = []" using v by simp
    then show ?thesis using False s1 copy_rng [OF s1(1)] t1 v by (auto simp: odd_table_def others_def frame_def)
  next
    case True
    obtain s2 where s2: "EC_POINT_dbl g tmp a True s1 = Some s2" "frame tmp s1 s2" "holds g s2 tmp (gadd g P P)"
      using dbl_holds [OF va s1(3) t1] by (auto simp: returns_ex)
    have t2: "holds g s2 tmp (gmul g 2 P)" using s2(3) gmul_double [OF c, of 1] by simp
    have a2: "holds g s2 a (gmul g 1 P)" using holds_frame [OF s1(3) s2(2)] d v by simp
    have q2: "\<forall>b \<in> set vs. \<exists>Q. holds g s2 b Q"
    proof
      fix b assume b: "b \<in> set vs"
      then obtain Q where "holds g s1 b Q" using q1 by blast
      moreover have "b \<noteq> tmp" using d b v by auto
      ultimately show "\<exists>Q. holds g s2 b Q" using holds_frame s2(2) by blast
    qed
    obtain s3 where s3: "add_chain g tmp a vs True s2 = Some s3" "others (set vs) s2 s3"
      "\<forall>i < length vs. holds g s3 (vs ! i) (gmul g (1 + 2 * (int i + 1)) P)"
      using add_chain_ret [OF c t2 a2 q2] d v by (auto simp: returns_ex)
    have "holds g s3 a (gmul g 1 P)" "holds g s3 tmp (gmul g 2 P)"
      using others_holds [OF a2 s3(2)] others_holds [OF t2 s3(2)] d v by auto
    moreover have "holds g s3 (v ! i) (gmul g (2 * int i + 1) P)" if "i < length v" for i
      using that s3(3) calculation(1) v by (cases i) (auto simp: algebra_simps)
    moreover have "others (insert tmp (set v)) st s3"
      using s1(2) copy_rng [OF s1(1)] s2(2) dbl_rng [OF s2(1)] s3(2) v by (auto simp: others_def frame_def)
    ultimately show ?thesis using True s1(1) s2(1) s3(1) v by (auto simp: odd_table_def)
  qed
qed

lemma others_table: "odd_table g s v P \<Longrightarrow> others A s s' \<Longrightarrow> set v \<inter> A = {} \<Longrightarrow> odd_table g s' v P"
  unfolding odd_table_def using others_holds [of g s _ _ A s'] by (metis IntI empty_iff nth_mem)

lemma precompute_ret:
  assumes c: "curve_ok g"
  shows "\<forall>(w, ds, p) \<in> set items. 1 \<le> w \<and> gon g (Pt p) \<and> holds g st p (Pt p) \<and> p \<notin> insert tmp (set (concat vs)) \<Longrightarrow>
    holds g st tmp T \<Longrightarrow> \<forall>a \<in> set (concat vs). \<exists>Q. holds g st a Q \<Longrightarrow> distinct (tmp # concat vs) \<Longrightarrow>
    map length vs = map table_size items \<Longrightarrow>
    returns (precompute g tmp items vs True st) (\<lambda>st'. others (insert tmp (set (concat vs))) st st' \<and>
      list_all2 (\<lambda>(w, ds, p) v. odd_table g st' v (Pt p)) items vs)"
proof (induction items arbitrary: vs st T)
  case Nil
  then show ?case by simp
next
  case (Cons x items)
  obtain w ds p where x: "x = (w, ds, p)" by (cases x)
  obtain v us where vs: "vs = v # us" using Cons.prems(5) by (cases vs) auto
  have p: "1 \<le> w" "gon g (Pt p)" "holds g st p (Pt p)" "p \<noteq> tmp" "p \<notin> set v" using Cons.prems(1) x vs by auto
  have d: "distinct (tmp # v)" "set v \<inter> insert tmp (set (concat us)) = {}" "distinct (tmp # concat us)"
    using Cons.prems(4) vs by auto
  have hv: "\<forall>a \<in> set v. \<exists>Q. holds g st a Q" using Cons.prems(3) vs by auto
  have n: "length v = 2 ^ (w - 1)" using Cons.prems(5) x vs by simp
  obtain s1 T1 where s1: "(do {
     st \<leftarrow> EC_POINT_copy (hd v) p st;
     (if w > 1 then do {
          st \<leftarrow> EC_POINT_dbl g tmp (hd v) True st;
          add_chain g tmp (hd v) (tl v) True st
        } else Some st) }) = Some s1" "others (insert tmp (set v)) st s1" "odd_table g s1 v (Pt p)" "holds g s1 tmp T1"
    using precompute_step [OF c p(2,3) Cons.prems(2) hv d(1) p(4,5) n p(1)] unfolding returns_ex by blast
  have run: "precompute g tmp (x # items) vs True st = precompute g tmp items us True s1"
    using s1(1) by (cases "EC_POINT_copy (hd v) p st") (simp_all add: x vs split del: if_split)
  have keep: "holds g s1 a Q" if "holds g st a Q" "a \<notin> insert tmp (set v)" for a Q
    using others_holds [OF that(1) s1(2) that(2)] .
  have items: "\<forall>(w, ds, p) \<in> set items. 1 \<le> w \<and> gon g (Pt p) \<and> holds g s1 p (Pt p) \<and> p \<notin> insert tmp (set (concat us))"
    using Cons.prems(1) vs keep by fastforce
  have rest: "\<forall>a \<in> set (concat us). \<exists>Q. holds g s1 a Q"
  proof
    fix a assume a: "a \<in> set (concat us)"
    then obtain Q where "holds g st a Q" using Cons.prems(3) vs by fastforce
    moreover have "a \<notin> insert tmp (set v)" using a d by auto
    ultimately show "\<exists>Q. holds g s1 a Q" using keep by blast
  qed
  have len: "map length us = map table_size items" using Cons.prems(5) vs by simp
  show ?case unfolding run
  proof (rule returns_more [OF Cons.IH [OF items s1(4) rest d(3) len]])
    fix s2 assume s2: "others (insert tmp (set (concat us))) s1 s2 \<and>
      list_all2 (\<lambda>(w, ds, p) v. odd_table g s2 v (Pt p)) items us"
    then have "odd_table g s2 v (Pt p)" using others_table [OF s1(3)] d(2) by blast
    moreover have "others (insert tmp (set (concat vs))) st s2"
      by (rule others_trans [OF s1(2) conjunct1 [OF s2]]) (auto simp: vs)
    ultimately show "others (insert tmp (set (concat vs))) st s2 \<and>
      list_all2 (\<lambda>(w, ds, p) v. odd_table g s2 v (Pt p)) (x # items) vs" using s2 by (simp add: x vs)
  qed
qed

section \<open>The sum\<close>

lemma points_make_affine_holds:
  assumes v: "gfp_valid g" and ps: "distinct ps" "\<forall>a \<in> set ps. \<exists>Q. holds g st a Q" and av: "rng_avail g (Suc n) (rng st)"
  shows "returns (ossl_ec_GFp_simple_points_make_affine g ps True st) (\<lambda>st'. rng_avail g n (rng st') \<and>
    (\<forall>a. a \<notin> set ps \<longrightarrow> heap st' a = heap st a) \<and> (\<forall>a \<in> set ps. \<forall>Q. holds g st a Q \<longrightarrow> holds g st' a Q))"
proof -
  obtain P where P: "\<forall>a \<in> set ps. holds g st a (P a)" using bchoice [OF ps(2)] by blast
  have "returns (ossl_ec_GFp_simple_points_make_affine g ps True st) (\<lambda>st'. rng_avail g n (rng st') \<and>
      (\<forall>a. a \<notin> set ps \<longrightarrow> heap st' a = heap st a) \<and> (\<forall>a \<in> set ps. holds g st' a (P a)))"
    by (rule returns_more [OF gfp.points_make_affine_ret [OF v ps(1) _ _ av, of P]])
      (use P in \<open>auto simp: holds_def represents_def\<close>)
  moreover have "Q = P a" if "a \<in> set ps" "holds g st a Q" for a Q using holds_unique [OF v that(2)] P that(1) by blast
  ultimately show ?thesis unfolding returns_ex by metis
qed

lemma table_rows:
  assumes "list_all2 (\<lambda>(k, p) (w, ds, q). q = p \<and> w = EC_window_bits_for_scalar_size (z_num_bits k) \<and>
      wnaf_value ds = k \<and> list_all (wnaf_digit_ok w) ds) ks items"
    and "list_all2 (\<lambda>(w, ds, p) v. odd_table g st v (Pt p)) items vs"
    and "map length vs = map table_size items" "r \<notin> set (concat vs)" "\<forall>(k, p) \<in> set ks. gon g (Pt p)"
  shows "\<exists>tr. wnaf_rows tr = zip (map (\<lambda>(w, ds, p). ds) items) vs \<and> (\<forall>x \<in> set tr. row_ok g r st x) \<and>
    wsum g wnaf_value tr = gsum g (map (\<lambda>(k, p). (k, Pt p)) ks)"
  using assms
proof (induction ks items arbitrary: vs rule: list_all2_induct)
  case Nil
  then show ?case by (simp add: wsum_def)
next
  case (Cons x ks y items)
  obtain k p where x: "x = (k, p)" by (cases x)
  obtain w ds where y: "y = (w, ds, p)" "w = EC_window_bits_for_scalar_size (z_num_bits k)" "wnaf_value ds = k"
    "list_all (wnaf_digit_ok w) ds" using Cons.hyps x by (cases y) auto
  obtain v us where vs: "vs = v # us" "odd_table g st v (Pt p)"
    "list_all2 (\<lambda>(w, ds, p) v. odd_table g st v (Pt p)) items us"
    using Cons.prems(1) y(1) by (auto simp: list_all2_Cons1)
  have side: "map length us = map table_size items" "r \<notin> set (concat us)" "\<forall>(k, p) \<in> set ks. gon g (Pt p)"
    using Cons.prems vs(1) by auto
  obtain tr where tr: "wnaf_rows tr = zip (map (\<lambda>(w, ds, p). ds) items) us" "\<forall>x \<in> set tr. row_ok g r st x"
    "wsum g wnaf_value tr = gsum g (map (\<lambda>(k, p). (k, Pt p)) ks)"
    using Cons.IH [OF vs(3) side] by blast
  have len: "length v = 2 ^ (w - 1)" using Cons.prems(2) y(1) vs(1) by simp
  have "nat (\<bar>d\<bar> div 2) < length v" if "wnaf_digit_ok w d" "d \<noteq> 0" for d
  proof -
    have "w = Suc (w - 1)" using window_bits(1) [of "z_num_bits k"] y(2) by simp
    then have "(2 :: int) ^ w = 2 * 2 ^ (w - 1)" by (metis power_Suc)
    with that have "\<bar>d\<bar> div 2 < 2 ^ (w - 1)" by (auto simp: wnaf_digit_ok_def)
    then have "nat (\<bar>d\<bar> div 2) < nat (2 ^ (w - 1))" by (subst nat_less_eq_zless) auto
    then show ?thesis by (simp add: len nat_power_eq)
  qed
  then have "row_ok g r st (ds, v, Pt p)"
    using vs(1,2) Cons.prems(3,4) y(4) x by (auto simp: row_ok_def list_all_iff wnaf_digit_ok_def)
  then show ?case using tr vs(1) y x
    by (intro exI [of _ "(ds, v, Pt p) # tr"]) (auto simp: wsum_Cons simp del: aff_add.simps)
qed

lemma drop_all_value:
  assumes "\<forall>x \<in> set tr. length (fst x) \<le> k"
  shows "wsum g (\<lambda>ds. wnaf_value (drop k ds)) tr = Inf"
  using assms by (induction tr) (auto simp: wsum_def)

lemma fold_max_bound: "x \<in> set xs \<Longrightarrow> x \<le> fold max xs (m :: nat)"
  by (simp add: Max.set_eq_fold [symmetric])

lemma acc_end:
  assumes c: "curve_ok g" and a: "acc m g r st iv ai A"
  shows "returns (if ai then EC_POINT_set_to_infinity g r st
      else if iv then EC_POINT_invert g r True st
      else Some st) (\<lambda>st'. frame r st st' \<and> holds g st' r A \<and> rng_avail g (m - 1) (rng st'))"
proof (cases ai)
  case True
  then obtain Q where Q: "A = Inf" "holds g st r Q" "rng_avail g (m - 1) (rng st)"
    using a by (auto simp: acc_def rng_avail_def)
  show ?thesis
    using True Q(1,3) holdsD [OF Q(2)] gfp.meth_law [OF curve_valid [OF c]] gfp.pos [OF curve_valid [OF c]]
    by (auto simp: EC_POINT_set_to_infinity_def Let_def frame_def
        ossl_ec_GFp_simple_point_set_to_infinity_def pt_of_def heap_wr holds_def represents_def pt_ok_def jac_rep_def)
next
  case False
  then have h: "holds g st r (if iv then gneg g A else A)" "gon g A" "rng_avail g (m - 1) (rng st)" using a by (auto simp: acc_def)
  obtain s1 where s1: "EC_POINT_invert g r True st = Some s1" "frame r st s1" "holds g s1 r (gneg g (if iv then gneg g A else A))"
    using invert_holds [OF curve_valid [OF c] h(1), of True] by (auto simp: returns_ex)
  then show ?thesis using False h gneg_neg [OF c h(2)] invert_rng [OF s1(1)] by auto
qed

text \<open>How many points the routine allocates.\<close>

definition wnaf_room :: "(int \<times> nat) list \<Rightarrow> nat" where
  "wnaf_room ks = sum_list (map (\<lambda>(k, p). 2 ^ (EC_window_bits_for_scalar_size (z_num_bits k) - 1)) ks) + 1"

lemma wnaf_general_holds:
  assumes c: "curve_ok g"
    and ps: "\<forall>(k, p) \<in> set ks. gon g (Pt p) \<and> holds g st p (Pt p) \<and> p \<notin> set fresh"
    and r: "holds g st r Q" "r \<notin> set fresh" and fresh: "distinct fresh" "wnaf_room ks \<le> length fresh"
    and av: "rng_avail g (Suc m) (rng st)"
  shows "returns (wnaf_general g r ks fresh True st) (\<lambda>st'. holds g st' r (gsum g (map (\<lambda>(k, p). (k, Pt p)) ks)) \<and>
    rng_avail g (m - 1) (rng st') \<and> (\<forall>a. a \<noteq> r \<and> a \<notin> set fresh \<longrightarrow> heap st' a = heap st a))"
proof -
  note va = curve_valid [OF c]
  obtain items where items: "wnaf_items ks = Some items"
    "list_all2 (\<lambda>(k, p) (w, ds, q). q = p \<and> w = EC_window_bits_for_scalar_size (z_num_bits k) \<and>
      wnaf_value ds = k \<and> list_all (wnaf_digit_ok w) ds) ks items"
    using wnaf_items_ret [of ks] unfolding returns_ex by blast
  have size: "sum_list (map table_size items) + 1 = wnaf_room ks"
    using items(2) by (induction rule: list_all2_induct) (auto simp: wnaf_room_def)
  then have le: "sum_list (map table_size items) \<le> length fresh" using fresh(2) by simp
  obtain vs fr s1 where s1: "alloc_subs g items fresh st = Some (vs, fr, s1)" "concat vs @ fr = fresh"
    "map length vs = map table_size items" "others (set (concat vs)) st s1" "\<forall>a \<in> set (concat vs). holds g s1 a Inf"
    using alloc_subs_ret [OF va le fresh(1), of st] unfolding returns_ex by auto
  have "length (concat vs) = sum_list (map table_size items)" using s1(3) by (simp add: length_concat)
  then obtain tmp fr' where fr: "fr = tmp # fr'" using fresh(2) size s1(2) by (cases fr) auto
  have dist: "distinct (tmp # concat vs)" "distinct fr" "tmp \<notin> set (concat vs)" using fresh(1) s1(2) fr by auto
  have sub: "insert tmp (set (concat vs)) \<subseteq> set fresh" using s1(2) fr by auto
  obtain s2 where s2: "alloc_points g 1 fr s1 = Some ([tmp], fr', s2)" "others {tmp} s1 s2" "holds g s2 tmp Inf"
    using alloc_points_ret [OF va _ dist(2), of 1 s1] fr by (auto simp: returns_ex)
  have o2: "others (insert tmp (set (concat vs))) st s2" by (rule others_trans [OF s1(4) s2(2)]) auto
  have src: "\<forall>(w, ds, p) \<in> set items. 1 \<le> w \<and> gon g (Pt p) \<and> holds g s2 p (Pt p) \<and> p \<notin> insert tmp (set (concat vs))"
  proof -
    have "\<exists>k. (k, p) \<in> set ks \<and> w = EC_window_bits_for_scalar_size (z_num_bits k)" if "(w, ds, p) \<in> set items" for w ds p
      using items(2) that by (induction rule: list_all2_induct) fastforce+
    moreover have "gon g (Pt p) \<and> holds g s2 p (Pt p) \<and> p \<notin> insert tmp (set (concat vs))" if "(k, p) \<in> set ks" for k p
    proof -
      have "gon g (Pt p)" "holds g st p (Pt p)" "p \<notin> insert tmp (set (concat vs))" using ps that sub by auto
      then show ?thesis using others_holds [OF _ o2] by blast
    qed
    ultimately show ?thesis using window_bits(1) by blast
  qed
  have tabs: "\<forall>a \<in> set (concat vs). \<exists>Q. holds g s2 a Q"
  proof
    fix a assume a: "a \<in> set (concat vs)"
    then have "a \<notin> {tmp}" using dist(3) by auto
    then show "\<exists>Q. holds g s2 a Q" using others_holds [OF _ s2(2)] s1(5) a by blast
  qed
  obtain s3 where s3: "precompute g tmp items vs True s2 = Some s3" "others (insert tmp (set (concat vs))) s2 s3"
    "list_all2 (\<lambda>(w, ds, p) v. odd_table g s3 v (Pt p)) items vs"
    using precompute_ret [OF c src s2(3) tabs dist(1) s1(3)] unfolding returns_ex by blast
  have o3: "others (insert tmp (set (concat vs))) st s3" by (rule others_trans [OF o2 s3(2)]) auto
  have tabs3: "\<forall>a \<in> set (concat vs). \<exists>Q. holds g s3 a Q"
  proof
    fix a assume "a \<in> set (concat vs)"
    then obtain v where v: "v \<in> set vs" "a \<in> set v" by auto
    then obtain i where i: "i < length vs" "v = vs ! i" by (auto simp: in_set_conv_nth)
    obtain j where "j < length v" "a = v ! j" using v(2) by (auto simp: in_set_conv_nth)
    with list_all2_nthD2 [OF s3(3) i(1)] i(2) show "\<exists>Q. holds g s3 a Q"
      by (auto simp: odd_table_def split: prod.splits)
  qed
  have av3: "rng_avail g (Suc m) (rng s3)" using av o3 by (simp add: others_def)
  have dc: "distinct (concat vs)" using dist(1) by simp
  obtain s4 where s4: "ossl_ec_GFp_simple_points_make_affine g (concat vs) True s3 = Some s4" "rng_avail g m (rng s4)"
    "\<forall>a. a \<notin> set (concat vs) \<longrightarrow> heap s4 a = heap s3 a"
    "\<forall>a \<in> set (concat vs). \<forall>Q. holds g s3 a Q \<longrightarrow> holds g s4 a Q"
    using points_make_affine_holds [OF va dc tabs3 av3] unfolding returns_ex by blast
  have tab4: "list_all2 (\<lambda>(w, ds, p) v. odd_table g s4 v (Pt p)) items vs"
    unfolding list_all2_conv_all_nth
  proof (intro conjI allI impI)
    show "length items = length vs" by (rule list_all2_lengthD [OF s3(3)])
    fix i assume "i < length items"
    then have i: "i < length vs" using list_all2_lengthD [OF s3(3)] by simp
    obtain w ds p where e: "items ! i = (w, ds, p)" by (cases "items ! i")
    have "set (vs ! i) \<subseteq> set (concat vs)" using nth_mem [OF i] by auto
    moreover have "odd_table g s3 (vs ! i) (Pt p)" using list_all2_nthD2 [OF s3(3) i] e by simp
    ultimately have "odd_table g s4 (vs ! i) (Pt p)" using s4(4) unfolding odd_table_def by (meson nth_mem subsetD)
    then show "(case items ! i of (w, ds, p) \<Rightarrow> \<lambda>v. odd_table g s4 v (Pt p)) (vs ! i)" by (simp add: e)
  qed
  have rr: "r \<notin> set (concat vs)" "r \<noteq> tmp" using r(2) sub by auto
  have on: "\<forall>(k, p) \<in> set ks. gon g (Pt p)" using ps by auto
  obtain tr where tr: "wnaf_rows tr = zip (map (\<lambda>(w, ds, p). ds) items) vs" "\<forall>x \<in> set tr. row_ok g r s4 x"
    "wsum g wnaf_value tr = gsum g (map (\<lambda>(k, p). (k, Pt p)) ks)"
    using table_rows [OF items(2) tab4 s1(3) rr(1) on] by blast
  define len where "len = fold max (map (\<lambda>(w, ds, p). length ds) items) 0"
  have "length (fst x) \<le> len" if "x \<in> set tr" for x
  proof -
    have "(fst x, fst (snd x)) \<in> set (wnaf_rows tr)" using imageI [OF that, of "\<lambda>(ds, v, P). (ds, v)"] by (simp add: case_prod_beta)
    then have "fst x \<in> set (map (\<lambda>(w, ds, p). ds) items)" unfolding tr(1) by (rule set_zip_leftD)
    then have "length (fst x) \<in> length ` set (map (\<lambda>(w, ds, p). ds) items)" by (rule imageI)
    then have "length (fst x) \<in> set (map (\<lambda>(w, ds, p). length ds) items)" by (simp add: image_image case_prod_beta)
    then show ?thesis unfolding len_def by (rule fold_max_bound)
  qed
  then have "wsum g (\<lambda>ds. wnaf_value (drop len ds)) tr = Inf" by (intro drop_all_value) blast
  moreover have "holds g s4 r Q"
    using others_holds [OF r(1) o3] rr s4(3) by (simp add: holds_def)
  ultimately have a4: "acc m g r s4 False True (wsum g (\<lambda>ds. wnaf_value (drop len ds)) tr)"
    using s4(2) by (auto simp: acc_def)
  obtain iv ai s5 where s5: "wnaf_main g r len (wnaf_rows tr) True False True s4 = Some (iv, ai, s5)" "frame r s4 s5"
    "acc m g r s5 iv ai (wsum g wnaf_value tr)"
    using wnaf_main_holds [OF c tr(2) a4] unfolding returns_ex by auto
  obtain s6 where s6: "(if ai then EC_POINT_set_to_infinity g r s5 else if iv then EC_POINT_invert g r True s5 else Some s5) = Some s6"
    "frame r s5 s6" "holds g s6 r (wsum g wnaf_value tr)" "rng_avail g (m - 1) (rng s6)"
    using acc_end [OF c s5(3)] unfolding returns_ex by blast
  have run: "wnaf_general g r ks fresh True st = Some s6"
    using items(1) s1(1) s2(1) s3(1) s4(1) s5(1) s6(1) gfp.meth_law [OF va] fr
    by (auto simp: wnaf_general_def Let_def len_def tr(1) simp del: alloc_points.simps split del: if_split)
  have "heap s6 a = heap st a" if "a \<noteq> r" "a \<notin> set fresh" for a
  proof -
    have "a \<notin> set (concat vs)" "a \<noteq> tmp" using that(2) sub by auto
    then show ?thesis using that(1) s4(3) s5(2) s6(2) o3 by (simp add: frame_def others_def del: set_concat)
  qed
  with run s6(3,4) tr(3) show ?thesis by simp
qed

text \<open>The summands of a call, the generator's last, and the calls that go to the ladder instead.\<close>

definition mul_summands :: "ec_group \<Rightarrow> bn_arg option \<Rightarrow> (bn_arg \<times> nat) list \<Rightarrow> (int \<times> nat) list" where
  "mul_summands g scalar points = map (\<lambda>(k, p). (bn_arg_value g k, p)) points @
     (case (scalar, g_generator g) of (Some k, Some gen) \<Rightarrow> [(bn_arg_value g k, gen)] | _ \<Rightarrow> [])"

definition to_ladder :: "ec_group \<Rightarrow> bn_arg option \<Rightarrow> (bn_arg \<times> nat) list \<Rightarrow> bool" where
  "to_ladder g scalar points \<longleftrightarrow> g_order g \<noteq> 0 \<and> g_cofactor g \<noteq> 0 \<and>
     (case scalar of Some k \<Rightarrow> k \<noteq> GroupOrder \<and> points = []
      | None \<Rightarrow> length points = 1 \<and> fst (hd points) \<noteq> GroupOrder)"

lemma wNAF_mul_run:
  assumes "\<not> to_ladder g scalar points" "scalar \<noteq> None \<longrightarrow> g_generator g \<noteq> None"
  shows "ossl_ec_wNAF_mul g r scalar points fresh ctx st = wnaf_general g r (mul_summands g scalar points) fresh ctx st"
  using assms
  by (auto simp: ossl_ec_wNAF_mul_def to_ladder_def mul_summands_def Let_def split: option.splits list.splits)

lemma wNAF_mul_rng:
  assumes "curve_ok g" "\<not> to_ladder g scalar points" "scalar \<noteq> None \<longrightarrow> g_generator g \<noteq> None"
    "\<forall>(k, p) \<in> set (mul_summands g scalar points). gon g (Pt p) \<and> holds g st p (Pt p) \<and> p \<notin> set fresh"
    "holds g st r Q" "r \<notin> set fresh" "distinct fresh" "wnaf_room (mul_summands g scalar points) \<le> length fresh"
    "rng_avail g (Suc m) (rng st)"
  shows "returns (ossl_ec_wNAF_mul g r scalar points fresh True st) (\<lambda>st'.
    holds g st' r (gsum g (map (\<lambda>(k, p). (k, Pt p)) (mul_summands g scalar points))) \<and>
    rng_avail g (m - 1) (rng st') \<and> (\<forall>a. a \<noteq> r \<and> a \<notin> set fresh \<longrightarrow> heap st' a = heap st a))"
  unfolding wNAF_mul_run [OF assms(2,3)] by (rule wnaf_general_holds [OF assms(1,4-9)])

lemma wNAF_mul_holds:
  assumes "curve_ok g" "\<not> to_ladder g scalar points" "scalar \<noteq> None \<longrightarrow> g_generator g \<noteq> None"
    "\<forall>(k, p) \<in> set (mul_summands g scalar points). gon g (Pt p) \<and> holds g st p (Pt p) \<and> p \<notin> set fresh"
    "holds g st r Q" "r \<notin> set fresh" "distinct fresh" "wnaf_room (mul_summands g scalar points) \<le> length fresh"
    "rng_avail g 1 (rng st)"
  shows "returns (ossl_ec_wNAF_mul g r scalar points fresh True st) (\<lambda>st'.
    holds g st' r (gsum g (map (\<lambda>(k, p). (k, Pt p)) (mul_summands g scalar points))) \<and>
    (\<forall>a. a \<noteq> r \<and> a \<notin> set fresh \<longrightarrow> heap st' a = heap st a))"
  by (rule returns_mono [OF wNAF_mul_rng [OF assms(1-8), of 0]]) (use assms(9) in simp_all)

lemma mul_slot: "gfp_valid g \<Longrightarrow> slot (g_meth g) ''mul'' = ''0''"
  using gfp.meth_law [of g] by auto

end
