(* ===== verification/Ec_Key.thy ===== *)
theory Ec_Key
  imports Ec_Wnaf
begin

text \<open>
  The validation of keys (\<open>ec_key.c\<close>). An \<open>EC_KEY\<close> holds a group, the address of its public point and a
  private scalar, each of which may be missing, its flags and the counter of changes to its material; a
  missing key is \<open>None\<close>. A check returns the state when
  it accepts and \<open>None\<close> when it rejects or fails, which the code does not distinguish either.
\<close>

record ec_key =
  k_group :: "ec_group option"
  pub_key :: "nat option"
  priv_key :: "int option"
  k_flags :: "32 word"
  dirty_cnt :: nat

definition ec_key_public_range_check :: "ec_group \<Rightarrow> nat \<Rightarrow> bool \<Rightarrow> ec_state \<Rightarrow> ec_state option" where
  "ec_key_public_range_check g pub ctx st = do {
     (xy, st) \<leftarrow> EC_POINT_get_affine_coordinates g pub True True ctx st;
     (if slot (g_meth g) ''field_type'' = ''NID_X9_62_prime_field'' then
        (case xy of
           (Some x, Some y) \<Rightarrow> if x < 0 \<or> x \<ge> g_field g \<or> y < 0 \<or> y \<ge> g_field g then None else Some st
         | _ \<Rightarrow> None)
      else
        (let m = EC_GROUP_get_degree g in
         case xy of
           (Some x, Some y) \<Rightarrow> if z_num_bits x > m \<or> z_num_bits y > m then None else Some st
         | _ \<Rightarrow> None))
   }"

definition ossl_ec_key_public_check_quick :: "ec_key option \<Rightarrow> bool \<Rightarrow> ec_state \<Rightarrow> ec_state option" where
  "ossl_ec_key_public_check_quick eckey ctx st = do {
     key \<leftarrow> eckey;
     g \<leftarrow> k_group key;
     pub \<leftarrow> pub_key key;
     (if EC_POINT_is_at_infinity g (heap st pub) then None else do {
        st \<leftarrow> ec_key_public_range_check g pub ctx st;
        (if EC_POINT_is_on_curve g (heap st pub) ctx \<le> 0 then None else Some st)
      })
   }"

text \<open>\<open>point\<close> is the address for the new point, \<open>fresh\<close> the addresses of the multiplication.\<close>

definition ossl_ec_key_public_check ::
  "ec_key option \<Rightarrow> nat option \<Rightarrow> nat list \<Rightarrow> bool \<Rightarrow> ec_state \<Rightarrow> ec_state option" where
  "ossl_ec_key_public_check eckey point fresh ctx st = do {
     st \<leftarrow> ossl_ec_key_public_check_quick eckey ctx st;
     key \<leftarrow> eckey;
     g \<leftarrow> k_group key;
     (point, st) \<leftarrow> EC_POINT_new g point st;
     (if g_order g = 0 then None else do {
        st \<leftarrow> EC_POINT_mul g point None (pub_key key) (Some GroupOrder) fresh ctx st;
        (if \<not> EC_POINT_is_at_infinity g (heap st point) then None else Some st)
      })
   }"

definition ossl_ec_key_private_check :: "ec_key option \<Rightarrow> bool" where
  "ossl_ec_key_private_check eckey =
     (case eckey of
        None \<Rightarrow> False
      | Some key \<Rightarrow>
          (case (k_group key, priv_key key) of
             (Some g, Some d) \<Rightarrow> \<not> (d < 1 \<or> d \<ge> g_order g)
           | _ \<Rightarrow> False))"

definition ossl_ec_key_pairwise_check ::
  "ec_key option \<Rightarrow> nat option \<Rightarrow> nat list \<Rightarrow> bool \<Rightarrow> ec_state \<Rightarrow> ec_state option" where
  "ossl_ec_key_pairwise_check eckey point fresh ctx st = do {
     key \<leftarrow> eckey;
     g \<leftarrow> k_group key;
     pub \<leftarrow> pub_key key;
     d \<leftarrow> priv_key key;
     (point, st) \<leftarrow> EC_POINT_new g point st;
     st \<leftarrow> EC_POINT_mul g point (Some (Bn d)) None None fresh ctx st;
     (if EC_POINT_cmp g (heap st point) (heap st pub) ctx \<noteq> 0 then None else Some st)
   }"

definition ossl_ec_key_simple_check_key ::
  "ec_key option \<Rightarrow> nat option \<Rightarrow> nat list \<Rightarrow> nat option \<Rightarrow> nat list \<Rightarrow> bool \<Rightarrow> ec_state \<Rightarrow> ec_state option" where
  "ossl_ec_key_simple_check_key eckey p1 fresh1 p2 fresh2 ctx st = do {
     key \<leftarrow> eckey;
     (if \<not> ctx then None else do {
        st \<leftarrow> ossl_ec_key_public_check eckey p1 fresh1 ctx st;
        (if priv_key key \<noteq> None then
           (if ossl_ec_key_private_check eckey then ossl_ec_key_pairwise_check eckey p2 fresh2 ctx st else None)
         else Some st)
      })
   }"

end
