(* ===== verification/Ec_Dsa.thy ===== *)
theory Ec_Dsa
  imports Ec_Key Ec_Coords
begin

text \<open>
  ECDSA (\<open>ecdsa_ossl.c\<close>): the nonce and its point, signing and verifying. The nonces the random generator
  gives (\<open>BN_generate_dsa_nonce\<close>, \<open>BN_priv_rand_range_ex\<close>) are the list of its future outputs, like the
  outputs that blind; a list that is used up is a generator that fails. \<open>tmp\<close> and \<open>fresh\<close> are the
  addresses the allocator gives for the point and inside the multiplication. A signature is the pair
  of its integers. Allocation failures are not modelled, so \<open>ctx\<close> is given.
\<close>

section \<open>The digest\<close>

definition BN_bin2bn :: "8 word list \<Rightarrow> int" where
  "BN_bin2bn s = foldl (\<lambda>v b. v * 256 + uint b) 0 s"

text \<open>A digest longer than the order is cut to whole bytes, then to bits.\<close>

definition digest_to_m :: "int \<Rightarrow> 8 word list \<Rightarrow> int" where
  "digest_to_m order dgst =
     (let i = z_num_bits order;
          dgst_len = length dgst;
          dgst_len = (if 8 * dgst_len > i then (i + 7) div 8 else dgst_len);
          m = BN_bin2bn (take dgst_len dgst)
      in if 8 * dgst_len > i then drop_bit (8 - i mod 8) m else m)"

section \<open>Signing\<close>

definition EC_KEY_can_sign :: "ec_key \<Rightarrow> bool" where
  "EC_KEY_can_sign eckey =
     (case k_group eckey of None \<Rightarrow> False | Some g \<Rightarrow> slot (g_meth g) ''flags'' \<noteq> ''EC_FLAGS_NO_SIGN'')"

text \<open>\<open>bn_mod_add_fixed_top\<close> on words: the sum over as many words as the modulus has, less the modulus
  unless that borrows.\<close>

definition bn_mod_add_fixed_top :: "bn_ulong list \<Rightarrow> bn_ulong list \<Rightarrow> bn_ulong list \<Rightarrow> bn_ulong list" where
  "bn_mod_add_fixed_top a b m =
     (let mtop = length m;
          pad = (\<lambda>x. take mtop (x @ replicate mtop 0));
          (tp, carry) = bn_add_words (pad a) (pad b);
          (rp, borrow) = bn_sub_words tp m;
          carry = carry - borrow
      in map2 (mask_select carry) tp rp)"

fun setup_loop :: "ec_group \<Rightarrow> nat \<Rightarrow> nat list \<Rightarrow> bool \<Rightarrow> int list \<Rightarrow> ec_state \<Rightarrow> (int \<times> int \<times> int list \<times> ec_state) option" where
  "setup_loop g tmp fresh ctx [] st = None"
| "setup_loop g tmp fresh ctx (k # ks) st =
     (if k = 0 then setup_loop g tmp fresh ctx ks st
      else do {
        st \<leftarrow> EC_POINT_mul g tmp (Some (Bn k)) None None fresh ctx st;
        (xy, st) \<leftarrow> EC_POINT_get_affine_coordinates g tmp True False ctx st;
        X \<leftarrow> fst xy;
        r \<leftarrow> z_nnmod X (g_order g);
        (if r = 0 then setup_loop g tmp fresh ctx ks st else Some (k, r, ks, st))
      })"

definition ecdsa_sign_setup ::
  "ec_key option \<Rightarrow> nat option \<Rightarrow> nat list \<Rightarrow> bool \<Rightarrow> int list \<Rightarrow> ec_state \<Rightarrow> (int \<times> int \<times> int list \<times> ec_state) option" where
  "ecdsa_sign_setup eckey tmp fresh ctx ks st = do {
     key \<leftarrow> eckey;
     g \<leftarrow> k_group key;
     priv \<leftarrow> priv_key key;
     (if \<not> EC_KEY_can_sign key then None
      else if \<not> ctx then None
      else do {
        (tmp_point, st) \<leftarrow> EC_POINT_new g tmp st;
        (k, r, ks, st) \<leftarrow> setup_loop g tmp_point fresh ctx ks st;
        kinv \<leftarrow> ossl_ec_group_do_inverse_ord g k ctx;
        Some (kinv, r, ks, st)
      })
   }"

text \<open>\<open>s = kinv (m + r priv)\<close>: one factor of each product is in Montgomery form, so the products are not.\<close>

definition sign_s :: "bn_mont_ctx \<Rightarrow> int \<Rightarrow> int \<Rightarrow> int \<Rightarrow> int \<Rightarrow> int \<Rightarrow> bool \<Rightarrow> int option" where
  "sign_s mont order r priv m ckinv ctx = do {
     s \<leftarrow> bn_to_mont_fixed_top (z_words r) mont ctx;
     s \<leftarrow> bn_mul_mont_fixed_top s (z_words priv) mont ctx;
     let s = bn_mod_add_fixed_top s (z_words m) (z_words order);
     s \<leftarrow> bn_to_mont_fixed_top s mont ctx;
     s \<leftarrow> bn_mul_mont_fixed_top s (z_words ckinv) mont ctx;
     Some (if ckinv < 0 then - words_val s else words_val s)
   }"

text \<open>The loop until \<open>s\<close> is not zero. Every round takes at least one nonce, so as many rounds as there are
  nonces are enough. \<open>setup\<close> holds the values given by the caller, if any.\<close>

fun sign_loop ::
  "nat \<Rightarrow> ec_key \<Rightarrow> ec_group \<Rightarrow> bn_mont_ctx \<Rightarrow> int \<Rightarrow> int \<Rightarrow> (int \<times> int) option \<Rightarrow> nat option \<Rightarrow> nat list \<Rightarrow> bool \<Rightarrow>
    int list \<Rightarrow> ec_state \<Rightarrow> ((int \<times> int) \<times> int list \<times> ec_state) option" where
  "sign_loop 0 eckey g mont priv m setup tmp fresh ctx ks st = None"
| "sign_loop (Suc n) eckey g mont priv m setup tmp fresh ctx ks st = do {
     (ckinv, r, ks, st) \<leftarrow> (case setup of
         None \<Rightarrow> ecdsa_sign_setup (Some eckey) tmp fresh ctx ks st
       | Some (in_kinv, in_r) \<Rightarrow> Some (in_kinv, in_r, ks, st));
     s \<leftarrow> sign_s mont (g_order g) r priv m ckinv ctx;
     (if s = 0
      then (if setup \<noteq> None then None else sign_loop n eckey g mont priv m setup tmp fresh ctx ks st)
      else Some ((r, s), ks, st))
   }"

definition ossl_ecdsa_simple_sign_sig ::
  "8 word list \<Rightarrow> int option \<Rightarrow> int option \<Rightarrow> ec_key \<Rightarrow> nat option \<Rightarrow> nat list \<Rightarrow> bool \<Rightarrow> int list \<Rightarrow> ec_state \<Rightarrow>
    ((int \<times> int) \<times> int list \<times> ec_state) option" where
  "ossl_ecdsa_simple_sign_sig dgst in_kinv in_r eckey tmp fresh ctx ks st = do {
     g \<leftarrow> k_group eckey;
     priv \<leftarrow> priv_key eckey;
     (if \<not> EC_KEY_can_sign eckey then None
      else if \<not> ctx then None
      else do {
        mont \<leftarrow> g_mont_data g;
        let m = digest_to_m (g_order g) dgst;
        let setup = (case (in_kinv, in_r) of (Some kinv, Some r) \<Rightarrow> Some (kinv, r) | _ \<Rightarrow> None);
        sign_loop (length ks + 1) eckey g mont priv m setup tmp fresh ctx ks st
      })
   }"

section \<open>Verifying\<close>

text \<open>1, 0 and -1 as the code returns them: a correct and an incorrect signature, and an error.\<close>

definition ossl_ecdsa_simple_verify_sig ::
  "8 word list \<Rightarrow> (int \<times> int) option \<Rightarrow> ec_key option \<Rightarrow> nat option \<Rightarrow> nat list \<Rightarrow> bool \<Rightarrow> ec_state \<Rightarrow> int" where
  "ossl_ecdsa_simple_verify_sig dgst sig eckey pt fresh ctx st =
     (case do {
        key \<leftarrow> eckey;
        g \<leftarrow> k_group key;
        pub \<leftarrow> pub_key key;
        (r, s) \<leftarrow> sig;
        (if \<not> EC_KEY_can_sign key then None
         else if \<not> ctx then None
         else
           let order = g_order g in
           if r = 0 \<or> r < 0 \<or> \<bar>r\<bar> \<ge> \<bar>order\<bar> \<or> s = 0 \<or> s < 0 \<or> \<bar>s\<bar> \<ge> \<bar>order\<bar> then Some 0
           else do {
             u2 \<leftarrow> ossl_ec_group_do_inverse_ord g s ctx;
             let m = digest_to_m order dgst;
             u1 \<leftarrow> z_mod_mul m u2 order ctx;
             u2 \<leftarrow> z_mod_mul r u2 order ctx;
             (point, st) \<leftarrow> EC_POINT_new g pt st;
             st \<leftarrow> EC_POINT_mul g point (Some (Bn u1)) (Some pub) (Some (Bn u2)) fresh ctx st;
             (xy, st) \<leftarrow> EC_POINT_get_affine_coordinates g point True False ctx st;
             X \<leftarrow> fst xy;
             u1 \<leftarrow> z_nnmod X order;
             Some (if \<bar>u1\<bar> = \<bar>r\<bar> then 1 else 0)
           })
      } of None \<Rightarrow> - 1 | Some ret \<Rightarrow> ret)"

end
