(* ===== verification/Ec_Dsa_Words.thy ===== *)
theory Ec_Dsa_Words
  imports Ec_Dsa
begin

text \<open>
  The arithmetic of ECDSA on words: the digest is cut below the power of two over the order, the
  constant-time sum of two values is congruent to their sum, and the chain of Montgomery products of
  the signing code computes \<open>kinv (m + r priv)\<close> modulo the order although the digest need not be
  reduced and no value of the chain is known to be below the order until the end.
\<close>

section \<open>The digest\<close>

lemma foldl_bytes:
  "foldl (\<lambda>v b. v * 256 + uint (b :: 8 word)) v s = v * 256 ^ length s + BN_bin2bn s"
proof (induction s arbitrary: v)
  case (Cons b s)
  show ?case using Cons [of "v * 256 + uint b"] Cons [of "uint b"]
    by (simp add: BN_bin2bn_def algebra_simps)
qed (simp add: BN_bin2bn_def)

lemma BN_bin2bn_Cons: "BN_bin2bn (b # s) = uint b * 256 ^ length s + BN_bin2bn s"
  using foldl_bytes [of "uint b" s] by (simp add: BN_bin2bn_def)

lemma BN_bin2bn_bounds: "0 \<le> BN_bin2bn s \<and> BN_bin2bn s < 256 ^ length s"
proof (induction s)
  case (Cons b s)
  have "uint b \<le> 255" using uint_range_size [of b] by (simp add: word_size)
  then have "uint b * 256 ^ length s \<le> 255 * 256 ^ length s" by (intro mult_right_mono) simp_all
  with Cons have "uint b * 256 ^ length s + BN_bin2bn s < 256 * 256 ^ length s" by linarith
  with Cons show ?case by (simp add: BN_bin2bn_Cons)
qed (simp add: BN_bin2bn_def)

lemma digest_to_m_bounds: "0 \<le> digest_to_m n dgst \<and> digest_to_m n dgst < 2 ^ z_num_bits n"
proof -
  define i where "i = z_num_bits n"
  define l where "l = (if 8 * length dgst > i then (i + 7) div 8 else length dgst)"
  define m where "m = BN_bin2bn (take l dgst)"
  have d: "digest_to_m n dgst = (if 8 * l > i then drop_bit (8 - i mod 8) m else m)"
    by (simp add: digest_to_m_def Let_def i_def l_def m_def)
  have "l \<le> length dgst" by (auto simp: l_def)
  then have b: "0 \<le> m" "m < 256 ^ l" using BN_bin2bn_bounds [of "take l dgst"] by (simp_all add: m_def)
  have p: "(256 :: int) ^ l = 2 ^ (8 * l)" by (simp add: power_mult)
  show ?thesis
  proof (cases "8 * l > i")
    case True
    then have "l = (i + 7) div 8" by (auto simp: l_def split: if_splits)
    with True have e: "8 * l = i + (8 - i mod 8)" by presburger
    have "m < 2 ^ i * 2 ^ (8 - i mod 8)" using b(2) unfolding p e power_add .
    moreover have "m div 2 ^ (8 - i mod 8) * 2 ^ (8 - i mod 8) \<le> m"
    proof -
      have "0 \<le> m mod 2 ^ (8 - i mod 8)" by simp
      with minus_mod_eq_div_mult [of m "2 ^ (8 - i mod 8)"] show ?thesis by linarith
    qed
    ultimately have "m div 2 ^ (8 - i mod 8) * 2 ^ (8 - i mod 8) < 2 ^ i * 2 ^ (8 - i mod 8)" by (rule le_less_trans [rotated])
    then have "m div 2 ^ (8 - i mod 8) < 2 ^ i" by (rule mult_right_less_imp_less) simp
    with True b(1) show ?thesis by (simp add: d drop_bit_eq_div pos_imp_zdiv_nonneg_iff i_def)
  next
    case False
    then have "(2 :: int) ^ (8 * l) \<le> 2 ^ i" by (intro power_increasing) simp_all
    then have "m < 2 ^ i" using b(2) p by linarith
    with False b(1) show ?thesis by (simp add: d i_def)
  qed
qed

lemma digest_to_m_words: "0 < n \<Longrightarrow> length (z_words (digest_to_m n dgst)) \<le> z_top n"
proof -
  have "z_num_bits n \<le> 64 * z_top n" by (simp add: z_top_def)
  then have "(2 :: int) ^ z_num_bits n \<le> B64 ^ z_top n" unfolding power_mult [symmetric] by (intro power_increasing) simp_all
  then show ?thesis using digest_to_m_bounds [of n dgst] by (simp add: z_top_le_iff)
qed

section \<open>The sum\<close>

lemma words_val_pad:
  assumes "length a \<le> k"
  shows "words_val (take k (a @ replicate k 0)) = words_val a" "length (take k (a @ replicate k 0)) = k"
  using assms by (simp_all add: words_val_append)

lemma bn_mod_add_fixed_top_correct:
  assumes "length a \<le> length m" "length b \<le> length m" "words_val a < words_val m"
  shows "length (bn_mod_add_fixed_top a b m) = length m"
    "eqm (words_val m) (words_val (bn_mod_add_fixed_top a b m)) (words_val a + words_val b)"
proof -
  let ?p = "\<lambda>x. take (length m) (x @ replicate (length m) 0)"
  obtain tp c where tp: "bn_add_words (?p a) (?p b) = (tp, c)" by force
  obtain rp bw where rp: "bn_sub_words tp m = (rp, bw)" by force
  have t: "length tp = length m" "uint c \<le> 1" "words_val tp + B64 ^ length m * uint c = words_val a + words_val b"
    using bn_add_words_correct [OF _ tp] assms(1,2) by (simp_all add: words_val_append)
  have r: "length rp = length m" "uint bw \<le> 1" "words_val rp - B64 ^ length m * uint bw = words_val tp - words_val m"
    using bn_sub_words_correct [OF t(1) rp] t(1) by simp_all
  have bit: "x = 0 \<or> x = 1" if "uint x \<le> 1" for x :: bn_ulong
    using that uint64_bounds(1) [of x] by (metis unsigned_0 unsigned_1 word_uint_eqI zle_iff_zadd add.commute add_0
        int_one_le_iff_zero_less le_less order_antisym)
  have eq: "bn_mod_add_fixed_top a b m = map2 (mask_select (c - bw)) tp rp"
    by (simp add: bn_mod_add_fixed_top_def Let_def tp rp del: take_append)
  show "length (bn_mod_add_fixed_top a b m) = length m" using t(1) r(1) by (simp add: eq)
  have bb: "words_val b < B64 ^ length m"
    using words_val_lt [of "?p b"] words_val_pad [OF assms(2)] by simp
  have rb: "words_val rp < B64 ^ length m" "0 \<le> words_val rp" using words_val_lt [of rp] r(1) by simp_all
  have "words_val (bn_mod_add_fixed_top a b m) = words_val a + words_val b - words_val m \<or>
      words_val (bn_mod_add_fixed_top a b m) = words_val a + words_val b"
    using bit [OF t(2)] bit [OF r(2)]
  proof (elim disjE)
    assume "c = 1" "bw = 0"
    then show ?thesis using t(3) r(3) bb rb assms(3) by simp
  qed (use t r in \<open>simp_all add: eq map2_fst map2_snd\<close>)
  then show "eqm (words_val m) (words_val (bn_mod_add_fixed_top a b m)) (words_val a + words_val b)"
    by (auto simp: eqm_def)
qed

section \<open>The products\<close>

lemma mont_mul_words_bound:
  assumes "mont_ok mont" "length a + length b \<le> 2 * length (mont_N mont)"
    "words_val a * words_val b < mont_nv mont * mont_R mont"
  shows "\<exists>r. bn_mul_mont_fixed_top a b mont True = Some r \<and> length r = length (mont_N mont) \<and>
    words_val r = (words_val a * words_val b * mont_unit mont) mod mont_nv mont"
proof -
  define r where "r = bn_from_montgomery_word (bn_mul_normal a b) mont"
  have lt: "words_val (bn_mul_normal a b) < mont_nv mont * mont_R mont"
    using assms(3) by (simp add: bn_mul_normal_correct)
  note c = bn_from_montgomery_word_correct [OF assms(1) _ lt]
  have len: "length (bn_mul_normal a b) \<le> 2 * length (mont_N mont)"
    using assms(2) by (simp add: bn_mul_normal_correct)
  have "eqm (mont_nv mont) (words_val r * mont_R mont) (words_val a * words_val b)"
    using c(3) [OF len] by (simp add: r_def bn_mul_normal_correct)
  then have "eqm (mont_nv mont) (words_val r) (words_val a * words_val b * mont_unit mont)"
    by (rule mont_cancel [OF assms(1)])
  with c(1,2) [OF len] assms(2) show ?thesis
    by (auto simp: bn_mul_mont_fixed_top_def Let_def r_def eqm_def red_id)
qed

lemma to_mont_words:
  assumes "mont_ok mont" "length a \<le> length (mont_N mont)"
  shows "\<exists>r. bn_to_mont_fixed_top a mont True = Some r \<and> length r = length (mont_N mont) \<and>
    words_val r = (words_val a * mont_R mont) mod mont_nv mont"
proof -
  let ?N = "mont_nv mont" and ?R = "mont_R mont"
  have RR: "words_val (mont_RR mont) = (?R * ?R) mod ?N" "length (mont_RR mont) = length (mont_N mont)" "0 < ?N"
    using assms(1) by (simp_all add: mont_ok_def)
  have lt: "words_val (mont_RR mont) < ?N" using RR by simp
  have "words_val a < ?R" using words_val_lt [of "take (length (mont_N mont)) (a @ replicate (length (mont_N mont)) 0)"]
      words_val_pad [OF assms(2)] by (simp add: mont_R_def)
  then have "words_val a * words_val (mont_RR mont) < ?R * ?N"
    using lt RR(3) by (intro mult_strict_mono) (simp_all add: mont_R_def)
  then obtain r where r: "bn_to_mont_fixed_top a mont True = Some r" "length r = length (mont_N mont)"
    "words_val r = (words_val a * words_val (mont_RR mont) * mont_unit mont) mod ?N"
    using mont_mul_words_bound [OF assms(1), of a "mont_RR mont"] assms(2) RR(2)
    by (auto simp: bn_to_mont_fixed_top_def mult.commute)
  have "eqm ?N (words_val a * words_val (mont_RR mont) * mont_unit mont) (words_val a * (?R * ?R) * mont_unit mont)"
    unfolding RR(1) by (intro eqm_intros) (simp add: eqm_def)
  also have "words_val a * (?R * ?R) * mont_unit mont = words_val a * ?R * (?R * mont_unit mont)" by simp
  also have "eqm ?N \<dots> (words_val a * ?R * 1)" by (intro eqm_intros mont_unit_eqm assms(1))
  finally show ?thesis using r by (simp add: eqm_def)
qed

text \<open>A product with one factor in Montgomery form is the plain product.\<close>

lemma mont_product_plain:
  assumes "mont_ok mont" "length a \<le> length (mont_N mont)" "length b \<le> length (mont_N mont)"
  shows "\<exists>r. do {
      t \<leftarrow> bn_to_mont_fixed_top a mont True;
      bn_mul_mont_fixed_top t b mont True
    } = Some r \<and> length r = length (mont_N mont) \<and> words_val r = (words_val a * words_val b) mod mont_nv mont"
proof -
  let ?N = "mont_nv mont" and ?R = "mont_R mont"
  have N: "0 < ?N" using assms(1) by (simp add: mont_ok_def)
  obtain t where t: "bn_to_mont_fixed_top a mont True = Some t" "length t = length (mont_N mont)"
    "words_val t = (words_val a * ?R) mod ?N"
    using to_mont_words [OF assms(1,2)] by blast
  have b: "words_val b < ?R" using words_val_lt [of "take (length (mont_N mont)) (b @ replicate (length (mont_N mont)) 0)"]
      words_val_pad [OF assms(3)] by (simp add: mont_R_def)
  have "words_val t * words_val b < ?N * ?R" using t(3) N b by (intro mult_strict_mono) simp_all
  then obtain r where r: "bn_mul_mont_fixed_top t b mont True = Some r" "length r = length (mont_N mont)"
    "words_val r = (words_val t * words_val b * mont_unit mont) mod ?N"
    using mont_mul_words_bound [OF assms(1), of t b] t(2) assms(3) by auto
  have "eqm ?N (words_val t * words_val b * mont_unit mont) (words_val a * ?R * words_val b * mont_unit mont)"
    unfolding t(3) by (intro eqm_intros) (simp add: eqm_def)
  also have "words_val a * ?R * words_val b * mont_unit mont = words_val a * words_val b * (?R * mont_unit mont)" by simp
  also have "eqm ?N \<dots> (words_val a * words_val b * 1)" by (intro eqm_intros mont_unit_eqm assms(1))
  finally show ?thesis using t(1) r by (simp add: eqm_def)
qed

lemma sign_s_correct:
  assumes mont: "mont_ok mont" "mont_nv mont = n" and r: "0 \<le> r" "r < n" and priv: "0 \<le> priv" "priv < n"
    and ck: "0 \<le> ckinv" "ckinv < n" and m: "0 \<le> m" "z_top m \<le> z_top n"
  shows "sign_s mont n r priv m ckinv True = Some (((m + r * priv) * ckinv) mod n)"
proof -
  have len: "length (mont_N mont) = z_top n" using mont by (auto simp: mont_ok_def)
  have red: "length (z_words x) \<le> length (mont_N mont)" if "0 \<le> x" "x < n" for x
    using z_top_mont [of mont x] that mont(2) by (simp add: red_def)
  obtain s where s: "do { t \<leftarrow> bn_to_mont_fixed_top (z_words r) mont True; bn_mul_mont_fixed_top t (z_words priv) mont True } = Some s"
    "length s = z_top n" "words_val s = (r * priv) mod n"
    using mont_product_plain [OF mont(1) red [OF r] red [OF priv]] mont(2) r priv len by auto
  have n: "0 < n" "words_val (z_words n) = n" using r by simp_all
  define a where "a = bn_mod_add_fixed_top s (z_words m) (z_words n)"
  have a: "length a = z_top n" "eqm n (words_val a) ((r * priv) mod n + m)"
    using bn_mod_add_fixed_top_correct [of s "z_words n" "z_words m"] s(2,3) n m by (simp_all add: a_def)
  obtain s' where s': "do { t \<leftarrow> bn_to_mont_fixed_top a mont True; bn_mul_mont_fixed_top t (z_words ckinv) mont True } = Some s'"
    "words_val s' = (words_val a * ckinv) mod n"
    using mont_product_plain [OF mont(1) _ red [OF ck], of a] a(1) len mont(2) ck by auto
  have "eqm n (words_val a * ckinv) (((r * priv) mod n + m) * ckinv)" by (intro eqm_intros a(2))
  also have "eqm n \<dots> ((r * priv + m) * ckinv)" by (intro eqm_intros) (simp add: eqm_def)
  finally have "words_val s' = ((m + r * priv) * ckinv) mod n" using s'(2) by (simp add: eqm_def add.commute)
  with s(1) s'(1) ck(1) show ?thesis
    by (auto simp: sign_s_def bind_eq_Some_conv a_def Let_def)
qed

end
