(* ===== verification/Ec_Dsa_Correct.thy ===== *)
theory Ec_Dsa_Correct
  imports Ec_Dsa_Words
begin

text \<open>
  ECDSA meets its textbook definition: \<open>ecdsa_sig\<close> is the signature of a digest value with a nonce,
  \<open>ecdsa_check\<close> what the verifier computes with. Signing returns the signature of the first nonce for
  which neither part is zero, and a signature made with the private scalar passes the check of the
  public point.
\<close>

definition ap_x :: "apoint \<Rightarrow> int" where
  "ap_x P = (case P of Inf \<Rightarrow> 0 | Aff x y \<Rightarrow> x)"

definition ecdsa_sig :: "ec_group \<Rightarrow> apoint \<Rightarrow> int \<Rightarrow> int \<Rightarrow> int \<Rightarrow> int \<times> int" where
  "ecdsa_sig g G d m k =
     (let n = g_order g; r = ap_x (gmul g k G) mod n in (r, ((m + r * d) * minv n k) mod n))"

definition ecdsa_check :: "ec_group \<Rightarrow> apoint \<Rightarrow> apoint \<Rightarrow> int \<Rightarrow> int \<times> int \<Rightarrow> int" where
  "ecdsa_check g G Q m sig =
     (let n = g_order g; (r, s) = sig; w = minv n s in
      if r \<le> 0 \<or> n \<le> r \<or> s \<le> 0 \<or> n \<le> s then 0
      else case gadd g (gmul g ((r * w) mod n) Q) (gmul g ((m * w) mod n) G) of
          Inf \<Rightarrow> - 1
        | Aff x y \<Rightarrow> if x mod n = r then 1 else 0)"

text \<open>The domain: a generator of prime order, and the context the group computes for it.\<close>

definition dsa_group :: "ec_group \<Rightarrow> nat \<Rightarrow> apoint \<Rightarrow> bool" where
  "dsa_group g gen G \<longleftrightarrow> curve_ok g \<and> g_generator g = Some gen \<and> gon g G \<and> G \<noteq> Inf \<and>
     prime_int (g_order g) \<and> 2 < g_order g \<and> gmul g (g_order g) G = Inf \<and> 0 < g_cofactor g \<and>
     g_mont_data g = BN_MONT_CTX_set (g_order g) True"

section \<open>The order\<close>

lemma do_inverse_ord_holds:
  assumes "g_meth g = M_GFp_simple \<or> g_meth g = M_GFp_mont" "prime_int (g_order g)" "2 < g_order g"
    "g_mont_data g = BN_MONT_CTX_set (g_order g) True"
  shows "\<exists>mont. g_mont_data g = Some mont \<and> mont_ok mont \<and> mont_nv mont = g_order g"
    "ossl_ec_group_do_inverse_ord g x True = Some (minv (g_order g) x)"
proof -
  have odd: "odd (g_order g)" using prime_int_divisor [OF assms(2), of 2] assms(3) by auto
  show m: "\<exists>mont. g_mont_data g = Some mont \<and> mont_ok mont \<and> mont_nv mont = g_order g"
    using BN_MONT_CTX_set_correct [OF odd] assms(3,4) by auto
  then obtain mont where mont: "g_mont_data g = Some mont" "mont_ok mont" "mont_nv mont = g_order g" by blast
  have "z_mod_exp_mont x (g_order g - 2) (g_order g) True (Some mont) = Some (minv (g_order g) x)"
    using mont assms(3) odd unfolding minv_def by (intro z_mod_exp_mont_correct) auto
  then show "ossl_ec_group_do_inverse_ord g x True = Some (minv (g_order g) x)"
    using mont(1) assms(1)
    by (auto simp: ossl_ec_group_do_inverse_ord_def ec_field_inverse_mod_ord_def)
qed

lemma minv_unit:
  assumes "prime_int n" "0 < x" "x < n"
  shows "eqm n (minv n x * x) 1" "0 \<le> minv n x" "minv n x < n"
proof -
  have "\<not> n dvd x" using assms(2,3) by (auto dest: zdvd_imp_le)
  then show "eqm n (minv n x * x) 1" by (rule minv_eqm [OF assms(1)])
  show "0 \<le> minv n x" "minv n x < n" using prime_int_gt_1 [OF assms(1)] by (simp_all add: minv_def)
qed

lemma gmul_not_Inf:
  assumes "dsa_group g gen G" "0 < k" "k < g_order g"
  shows "gmul g k G \<noteq> Inf"
proof
  let ?n = "g_order g"
  assume k: "gmul g k G = Inf"
  have d: "curve_ok g" "gon g G" "G \<noteq> Inf" "prime_int ?n" "gmul g ?n G = Inf"
    using assms(1) by (simp_all add: dsa_group_def)
  have "G = gmul g 1 G" by simp
  also have "\<dots> = gmul g (minv ?n k * k) G"
    using minv_unit(1) [OF d(4) assms(2,3)] by (intro gmul_mod [OF d(1,2,5)]) (simp add: eqm_def)
  also have "\<dots> = Inf" using gmul_gmul [OF d(1,2), of "minv ?n k" k] k by simp
  finally show False using d(3) by contradiction
qed

text \<open>The signature of the private scalar passes the check of the public point.\<close>

lemma ecdsa_sig_checks:
  assumes d: "dsa_group g gen G" and k: "0 < k" "k < g_order g"
    and sig: "ecdsa_sig g G priv m k = (r, s)" "r \<noteq> 0" "s \<noteq> 0"
  shows "ecdsa_check g G (gmul g priv G) m (r, s) = 1"
proof -
  let ?n = "g_order g"
  have D: "curve_ok g" "gon g G" "prime_int ?n" "gmul g ?n G = Inf" "0 < ?n"
    using d by (simp_all add: dsa_group_def)
  have rs: "r = ap_x (gmul g k G) mod ?n" "s = ((m + r * priv) * minv ?n k) mod ?n"
    using sig(1) by (auto simp: ecdsa_sig_def Let_def)
  have "0 \<le> r" "r < ?n" "0 \<le> s" "s < ?n" using D(5) by (simp_all add: rs)
  with sig(2,3) have b: "0 < r" "r < ?n" "0 < s" "s < ?n" by simp_all
  define v where "v = minv ?n s"
  have "eqm ?n (k * s) (k * ((m + r * priv) * minv ?n k))"
    unfolding rs(2) by (intro eqm_intros) (simp add: eqm_def)
  also have "k * ((m + r * priv) * minv ?n k) = (m + r * priv) * (minv ?n k * k)" by simp
  also have "eqm ?n \<dots> ((m + r * priv) * 1)" by (intro eqm_intros minv_unit(1) D(3) k)
  finally have ks: "eqm ?n (k * s) (m + r * priv)" by simp
  have "eqm ?n ((r * v) mod ?n * priv + (m * v) mod ?n) (r * v * priv + m * v)"
    by (intro eqm_intros) (simp_all add: eqm_def)
  also have "r * v * priv + m * v = (m + r * priv) * v" by (simp add: algebra_simps)
  also have "eqm ?n \<dots> (k * s * v)" by (intro eqm_intros eqm_sym [OF ks])
  also have "k * s * v = k * (v * s)" by simp
  also have "eqm ?n \<dots> (k * 1)" unfolding v_def by (intro eqm_intros minv_unit(1) D(3) b)
  finally have e: "((r * v) mod ?n * priv + (m * v) mod ?n) mod ?n = k mod ?n" by (simp add: eqm_def)
  have "gadd g (gmul g ((r * v) mod ?n) (gmul g priv G)) (gmul g ((m * v) mod ?n) G) = gmul g k G"
    using gmul_mod [OF D(1,2,4) e] by (simp add: gmul_gmul [OF D(1,2)] gmul_add [OF D(1,2)])
  moreover obtain x y where xy: "gmul g k G = Aff x y" using gmul_not_Inf [OF d k] by (cases "gmul g k G") auto
  moreover have "x mod ?n = r" using rs(1) xy by (simp add: ap_x_def)
  ultimately show ?thesis using b by (simp add: ecdsa_check_def v_def [symmetric] Let_def)
qed

section \<open>Signing\<close>

text \<open>A nonce is usable when it is not zero and the residue of its point is not; \<open>sign_ok\<close> adds that \<open>s\<close>
  is not zero.\<close>

definition nonce_ok :: "ec_group \<Rightarrow> apoint \<Rightarrow> int \<Rightarrow> bool" where
  "nonce_ok g G k \<longleftrightarrow> k \<noteq> 0 \<and> ap_x (gmul g k G) mod g_order g \<noteq> 0"

definition sign_ok :: "ec_group \<Rightarrow> apoint \<Rightarrow> int \<Rightarrow> int \<Rightarrow> int \<Rightarrow> bool" where
  "sign_ok g G d m k \<longleftrightarrow> nonce_ok g G k \<and> snd (ecdsa_sig g G d m k) \<noteq> 0"

definition same_but :: "nat set \<Rightarrow> ec_state \<Rightarrow> ec_state \<Rightarrow> bool" where
  "same_but A st st' \<longleftrightarrow> (\<forall>a. a \<notin> A \<longrightarrow> heap st' a = heap st a)"

lemma same_but_trans: "same_but A s t \<Longrightarrow> same_but A t u \<Longrightarrow> same_but A s u"
  by (simp add: same_but_def)

lemma same_but_holds: "same_but A s t \<Longrightarrow> holds g s a P \<Longrightarrow> a \<notin> A \<Longrightarrow> holds g t a P"
  by (simp add: same_but_def holds_def)

lemma get_affine_x:
  assumes "gfp_valid g" "holds g s r P" "P \<noteq> Inf" "rng_avail g (Suc n) (rng s)"
  shows "\<exists>s'. EC_POINT_get_affine_coordinates g r True False True s = Some ((Some (ap_x P), None), s') \<and>
    heap s' = heap s \<and> rng_avail g n (rng s')"
proof -
  obtain x y where P: "P = Aff x y" using assms(3) by (cases P) auto
  show ?thesis
    using gfp.get_affine_ret [OF assms(1) holdsD(2,4,5) [OF assms(2) [unfolded P]] assms(4), of True False]
      gfp.coord_slots [OF assms(1) holdsD(2) [OF assms(2)]]
    by (auto simp: returns_ex P ap_x_def)
qed

lemma nonce_mul:
  assumes d: "dsa_group g gen G" and h: "holds g st gen G" "holds g st tmp Q"
    and new: "distinct [gen, tmp, p, s]" and av: "rng_avail g (Suc (Suc (Suc (Suc m)))) (rng st)"
  shows "\<exists>st'. EC_POINT_mul g tmp (Some (Bn k)) None None [p, s] True st = Some st' \<and>
    holds g st' tmp (gmul g k G) \<and> same_but {tmp, p, s} st st' \<and> rng_avail g m (rng st')"
proof -
  have D: "curve_ok g" "gon g G" "G \<noteq> Inf" "gmul g (g_order g) G = Inf" "0 < g_order g" "0 < g_cofactor g"
    "g_generator g = Some gen" using d by (simp_all add: dsa_group_def)
  have nz: "g_order g \<noteq> 0" "g_cofactor g \<noteq> 0" "0 < g_order g * g_cofactor g" using D(5,6) by simp_all
  have ann: "gmul g (g_order g * g_cofactor g) G = Inf"
    using gmul_gmul [OF D(1,2), of "g_cofactor g" "g_order g"] D(4) by (simp add: mult.commute)
  have "EC_POINT_mul g tmp (Some (Bn k)) None None [p, s] True st =
      ossl_ec_scalar_mul_ladder g tmp k None (Some p) (Some s) True st"
    using nz holdsD(2) [OF h(2)] mul_slot [OF curve_valid [OF D(1)]]
    by (simp add: EC_POINT_mul_def ossl_ec_wNAF_mul_def alloc_at_def Let_def)
  moreover have "returns (ossl_ec_scalar_mul_ladder g tmp k None (Some p) (Some s) True st) (\<lambda>st'.
      holds g st' tmp (gmul g k G) \<and> (\<forall>b. b \<noteq> tmp \<and> b \<noteq> p \<and> b \<noteq> s \<longrightarrow> heap st' b = heap st b) \<and> rng_avail g m (rng st'))"
    by (rule scalar_mul_ladder_rng [OF D(1,2) nz ann _ h _ _ _ _ _ _ av]) (use D(3,7) new in auto)
  ultimately show ?thesis by (auto simp: returns_ex same_but_def)
qed

lemma rng_avail_mono: "rng_avail g n r \<Longrightarrow> m \<le> n \<Longrightarrow> rng_avail g m r"
  by (simp add: rng_avail_def)

lemma setup_loop_holds:
  assumes d: "dsa_group g gen G" and new: "distinct [gen, tmp, p, s]"
    and h: "holds g st gen G" "holds g st tmp Q"
    and ks: "\<forall>k\<in>set ks. 0 \<le> k \<and> k < g_order g" and av: "rng_avail g (5 * length ks + m) (rng st)"
  shows "case dropWhile (\<lambda>k. \<not> nonce_ok g G k) ks of
      [] \<Rightarrow> setup_loop g tmp [p, s] True ks st = None
    | k # rest \<Rightarrow> returns (setup_loop g tmp [p, s] True ks st) (\<lambda>(k', r, rest', st').
        k' = k \<and> r = ap_x (gmul g k G) mod g_order g \<and> rest' = rest \<and> same_but {tmp, p, s} st st' \<and>
        rng_avail g (5 * length rest + m) (rng st'))"
  using h ks av
proof (induction ks arbitrary: st Q)
  case (Cons k ks)
  have v: "gfp_valid g" and n: "0 < g_order g" using d by (simp_all add: dsa_group_def curve_valid)
  show ?case
  proof (cases "k = 0")
    case True
    have "rng_avail g (5 * length ks + m) (rng st)" by (rule rng_avail_mono [OF Cons.prems(4)]) simp
    moreover have "setup_loop g tmp [p, s] True (k # ks) st = setup_loop g tmp [p, s] True ks st"
      "dropWhile (\<lambda>k. \<not> nonce_ok g G k) (k # ks) = dropWhile (\<lambda>k. \<not> nonce_ok g G k) ks"
      using True by (simp_all add: nonce_ok_def)
    ultimately show ?thesis using Cons.IH [OF Cons.prems(1,2)] Cons.prems(3) by (simp only:) simp
  next
    case False
    have av: "rng_avail g (Suc (Suc (Suc (Suc (Suc (5 * length ks + m)))))) (rng st)"
      by (rule rng_avail_mono [OF Cons.prems(4)]) simp
    obtain s1 where s1: "EC_POINT_mul g tmp (Some (Bn k)) None None [p, s] True st = Some s1"
      "holds g s1 tmp (gmul g k G)" "same_but {tmp, p, s} st s1" "rng_avail g (Suc (5 * length ks + m)) (rng s1)"
      using nonce_mul [OF d Cons.prems(1,2) new av, of k] by blast
    have "gmul g k G \<noteq> Inf" using False Cons.prems(3) by (intro gmul_not_Inf [OF d]) auto
    then obtain s2 where s2: "EC_POINT_get_affine_coordinates g tmp True False True s1 = Some ((Some (ap_x (gmul g k G)), None), s2)"
      "heap s2 = heap s1" "rng_avail g (5 * length ks + m) (rng s2)"
      using get_affine_x [OF v s1(2) _ s1(4)] by blast
    define r where "r = ap_x (gmul g k G) mod g_order g"
    have sb: "same_but {tmp, p, s} st s2" using s1(3) s2(2) by (simp add: same_but_def)
    have run: "setup_loop g tmp [p, s] True (k # ks) st =
        (if r = 0 then setup_loop g tmp [p, s] True ks s2 else Some (k, r, ks, s2))"
      using False s1(1) s2(1) n by (simp add: z_nnmod_eq r_def)
    show ?thesis
    proof (cases "r = 0")
      case True
      have "holds g s2 gen G" by (rule same_but_holds [OF sb Cons.prems(1)]) (use new in auto)
      moreover have "holds g s2 tmp (gmul g k G)" using s1(2) s2(2) by (simp add: holds_def)
      ultimately have IH: "case dropWhile (\<lambda>k. \<not> nonce_ok g G k) ks of
          [] \<Rightarrow> setup_loop g tmp [p, s] True ks s2 = None
        | k # rest \<Rightarrow> returns (setup_loop g tmp [p, s] True ks s2) (\<lambda>(k', r, rest', st').
            k' = k \<and> r = ap_x (gmul g k G) mod g_order g \<and> rest' = rest \<and> same_but {tmp, p, s} s2 st' \<and>
            rng_avail g (5 * length rest + m) (rng st'))"
        using Cons.IH [of s2] s2(3) Cons.prems(3) by simp
      have dw: "dropWhile (\<lambda>k. \<not> nonce_ok g G k) (k # ks) = dropWhile (\<lambda>k. \<not> nonce_ok g G k) ks"
        using True by (simp add: nonce_ok_def r_def)
      show ?thesis
      proof (cases "dropWhile (\<lambda>k. \<not> nonce_ok g G k) ks")
        case Nil
        from IH show ?thesis unfolding dw run Nil using True by simp
      next
        case rest: (Cons k' rest)
        from IH show ?thesis unfolding dw run rest using True same_but_trans [OF sb] by (auto simp: returns_ex)
      qed
    next
      case r: False
      then show ?thesis using False sb s2(3) by (simp add: run nonce_ok_def r_def [symmetric] del: setup_loop.simps)
    qed
  qed
qed simp

lemma can_sign: "gfp_valid g \<Longrightarrow> k_group key = Some g \<Longrightarrow> EC_KEY_can_sign key"
  using gfp.meth_law [of g] by (auto simp: EC_KEY_can_sign_def)

lemma sign_setup_holds:
  assumes d: "dsa_group g gen G" and new: "distinct [gen, tmp, p, s]"
    and key: "k_group key = Some g" "priv_key key = Some priv" and h: "holds g st gen G"
    and ks: "\<forall>k\<in>set ks. 0 \<le> k \<and> k < g_order g" and av: "rng_avail g (5 * length ks + m) (rng st)"
  shows "case dropWhile (\<lambda>k. \<not> nonce_ok g G k) ks of
      [] \<Rightarrow> ecdsa_sign_setup (Some key) (Some tmp) [p, s] True ks st = None
    | k # rest \<Rightarrow> returns (ecdsa_sign_setup (Some key) (Some tmp) [p, s] True ks st) (\<lambda>(kinv, r, rest', st').
        kinv = minv (g_order g) k \<and> r = ap_x (gmul g k G) mod g_order g \<and> rest' = rest \<and>
        same_but {tmp, p, s} st st' \<and> rng_avail g (5 * length rest + m) (rng st'))"
proof -
  have v: "gfp_valid g" using d by (simp add: dsa_group_def curve_valid)
  obtain s1 where s1: "EC_POINT_new g (Some tmp) st = Some (tmp, s1)" "\<forall>b. b \<noteq> tmp \<longrightarrow> heap s1 b = heap st b" "holds g s1 tmp Inf"
    using new_holds [OF v, of tmp st] by (auto simp: returns_ex)
  have h1: "holds g s1 gen G" using h s1(2) new by (simp add: holds_def)
  have sb: "same_but {tmp, p, s} st s1" using s1(2) by (simp add: same_but_def)
  have inv: "ossl_ec_group_do_inverse_ord g k True = Some (minv (g_order g) k)" for k
    using d by (intro do_inverse_ord_holds(2) gfp.meth_law) (simp_all add: dsa_group_def curve_valid)
  have "rng_avail g (5 * length ks + m) (rng s1)" using av new_rng [OF s1(1)] by simp
  note loop = setup_loop_holds [OF d new h1 s1(3) ks this]
  show ?thesis
  proof (cases "dropWhile (\<lambda>k. \<not> nonce_ok g G k) ks")
    case Nil
    from loop have "setup_loop g tmp [p, s] True ks s1 = None" unfolding Nil by simp
    then show ?thesis unfolding Nil using s1(1) key can_sign [OF v key(1)] by (simp add: ecdsa_sign_setup_def)
  next
    case (Cons k rest)
    then show ?thesis using loop s1(1) key can_sign [OF v key(1)] inv same_but_trans [OF sb]
      by (auto simp: ecdsa_sign_setup_def returns_ex)
  qed
qed

lemma find_dropWhile: "(\<And>x. P x \<Longrightarrow> R x) \<Longrightarrow> find P xs = find P (dropWhile (\<lambda>x. \<not> R x) xs)"
  by (induction xs) auto

lemma digest_words: "0 < n \<Longrightarrow> 0 \<le> digest_to_m n dgst \<and> z_top (digest_to_m n dgst) \<le> z_top n"
  using digest_to_m_bounds [of n dgst] digest_to_m_words [of n dgst] by simp

lemma ecdsa_sig_bounds:
  "0 < g_order g \<Longrightarrow> 0 \<le> fst (ecdsa_sig g G d m k) \<and> fst (ecdsa_sig g G d m k) < g_order g"
  by (simp add: ecdsa_sig_def Let_def)

lemma sign_loop_holds:
  assumes d: "dsa_group g gen G" and new: "distinct [gen, tmp, p, s]"
    and key: "k_group key = Some g" "priv_key key = Some priv" "0 \<le> priv" "priv < g_order g"
    and mont: "mont_ok mont" "mont_nv mont = g_order g" and m: "0 \<le> m" "z_top m \<le> z_top (g_order g)"
    and h: "holds g st gen G" and ks: "\<forall>k\<in>set ks. 0 \<le> k \<and> k < g_order g"
    and av: "rng_avail g (5 * length ks + l) (rng st)" and fuel: "length ks < n"
  shows "case find (sign_ok g G priv m) ks of
      None \<Rightarrow> sign_loop n key g mont priv m None (Some tmp) [p, s] True ks st = None
    | Some k \<Rightarrow> returns (sign_loop n key g mont priv m None (Some tmp) [p, s] True ks st) (\<lambda>(sig, ks', st').
        sig = ecdsa_sig g G priv m k \<and> same_but {tmp, p, s} st st' \<and> rng_avail g l (rng st'))"
  using h ks av fuel
proof (induction n arbitrary: ks st)
  case (Suc n)
  let ?dw = "dropWhile (\<lambda>k. \<not> nonce_ok g G k) ks"
  have D: "0 < g_order g" "prime_int (g_order g)" using d by (simp_all add: dsa_group_def)
  note stp = sign_setup_holds [OF d new key(1,2) Suc.prems(1-3)]
  have f: "find (sign_ok g G priv m) ks = find (sign_ok g G priv m) ?dw"
    by (rule find_dropWhile) (simp add: sign_ok_def)
  show ?case
  proof (cases ?dw)
    case Nil
    from stp have "ecdsa_sign_setup (Some key) (Some tmp) [p, s] True ks st = None" unfolding Nil by simp
    then show ?thesis unfolding f Nil by simp
  next
    case (Cons k rest)
    define r where "r = ap_x (gmul g k G) mod g_order g"
    have k: "k \<in> set ks" "set rest \<subseteq> set ks" "length rest < length ks" "nonce_ok g G k"
      using Cons set_dropWhileD [of _ _ ks] length_dropWhile_le [of _ ks] hd_dropWhile [of _ ks]
      by (metis list.set_intros(1), metis list.set_intros(2) subsetI, metis Suc_le_eq list.size(4) add_Suc_right add_0_right,
          metis list.discI list.sel(1))
    from stp obtain s1 where s1: "ecdsa_sign_setup (Some key) (Some tmp) [p, s] True ks st = Some (minv (g_order g) k, r, rest, s1)"
      "same_but {tmp, p, s} st s1" "rng_avail g (5 * length rest + l) (rng s1)"
      unfolding Cons by (auto simp: returns_ex r_def)
    have "0 < k" "k < g_order g" using k(1,4) Suc.prems(2) by (force simp: nonce_ok_def)+
    note ck = minv_unit(2,3) [OF D(2) this]
    have sig: "ecdsa_sig g G priv m k = (r, ((m + r * priv) * minv (g_order g) k) mod g_order g)"
      by (simp add: ecdsa_sig_def Let_def r_def)
    have ss: "sign_s mont (g_order g) r priv m (minv (g_order g) k) True = Some (snd (ecdsa_sig g G priv m k))"
      unfolding sig snd_conv by (rule sign_s_correct [OF mont _ _ key(3,4) ck m]) (use D(1) in \<open>simp_all add: r_def\<close>)
    show ?thesis
    proof (cases "snd (ecdsa_sig g G priv m k) = 0")
      case True
      have h1: "holds g s1 gen G" by (rule same_but_holds [OF s1(2) Suc.prems(1)]) (use new in auto)
      have run: "sign_loop (Suc n) key g mont priv m None (Some tmp) [p, s] True ks st =
          sign_loop n key g mont priv m None (Some tmp) [p, s] True rest s1"
        using s1(1) ss True by simp
      have f': "find (sign_ok g G priv m) ks = find (sign_ok g G priv m) rest"
        unfolding f Cons using True by (simp add: sign_ok_def)
      have IH: "case find (sign_ok g G priv m) rest of
          None \<Rightarrow> sign_loop n key g mont priv m None (Some tmp) [p, s] True rest s1 = None
        | Some k \<Rightarrow> returns (sign_loop n key g mont priv m None (Some tmp) [p, s] True rest s1) (\<lambda>(sig, ks', st').
            sig = ecdsa_sig g G priv m k \<and> same_but {tmp, p, s} s1 st' \<and> rng_avail g l (rng st'))"
        using k(2,3) Suc.prems(2,4) by (intro Suc.IH [OF h1 _ s1(3)]) auto
      show ?thesis
      proof (cases "find (sign_ok g G priv m) rest")
        case None
        with IH show ?thesis unfolding run f' by simp
      next
        case (Some k')
        from IH have "returns (sign_loop n key g mont priv m None (Some tmp) [p, s] True rest s1) (\<lambda>(sig, ks', st').
            sig = ecdsa_sig g G priv m k' \<and> same_but {tmp, p, s} s1 st' \<and> rng_avail g l (rng st'))"
          unfolding Some by simp
        then have "returns (sign_loop n key g mont priv m None (Some tmp) [p, s] True rest s1) (\<lambda>(sig, ks', st').
            sig = ecdsa_sig g G priv m k' \<and> same_but {tmp, p, s} st st' \<and> rng_avail g l (rng st'))"
          by (rule returns_mono) (auto intro: same_but_trans [OF s1(2)])
        then show ?thesis unfolding run f' Some by simp
      qed
    next
      case False
      then have "find (sign_ok g G priv m) ks = Some k" unfolding f Cons using k(4) by (simp add: sign_ok_def)
      moreover have "rng_avail g l (rng s1)" by (rule rng_avail_mono [OF s1(3)]) simp
      ultimately show ?thesis using s1 ss False by (simp add: sig)
    qed
  qed
qed simp

lemma sign_holds:
  assumes d: "dsa_group g gen G" and new: "distinct [gen, tmp, p, s]"
    and key: "k_group key = Some g" "priv_key key = Some priv" "0 \<le> priv" "priv < g_order g"
    and h: "holds g st gen G" and ks: "\<forall>k\<in>set ks. 0 \<le> k \<and> k < g_order g"
    and av: "rng_avail g (5 * length ks + l) (rng st)"
  shows "case find (sign_ok g G priv (digest_to_m (g_order g) dgst)) ks of
      None \<Rightarrow> ossl_ecdsa_simple_sign_sig dgst None None key (Some tmp) [p, s] True ks st = None
    | Some k \<Rightarrow> returns (ossl_ecdsa_simple_sign_sig dgst None None key (Some tmp) [p, s] True ks st) (\<lambda>(sig, ks', st').
        sig = ecdsa_sig g G priv (digest_to_m (g_order g) dgst) k \<and> same_but {tmp, p, s} st st' \<and> rng_avail g l (rng st'))"
proof -
  have v: "gfp_valid g" "prime_int (g_order g)" "2 < g_order g" "g_mont_data g = BN_MONT_CTX_set (g_order g) True"
    using d by (simp_all add: dsa_group_def curve_valid)
  obtain mont where mont: "g_mont_data g = Some mont" "mont_ok mont" "mont_nv mont = g_order g"
    using do_inverse_ord_holds(1) [OF gfp.meth_law [OF v(1)] v(2-4)] by blast
  have n: "0 < g_order g" using v(3) by simp
  have "ossl_ecdsa_simple_sign_sig dgst None None key (Some tmp) [p, s] True ks st =
      sign_loop (length ks + 1) key g mont priv (digest_to_m (g_order g) dgst) None (Some tmp) [p, s] True ks st"
    using key can_sign [OF v(1) key(1)] mont(1) by (simp add: ossl_ecdsa_simple_sign_sig_def Let_def del: sign_loop.simps)
  note eq = this
  show ?thesis
    unfolding eq using digest_words [OF n, of dgst] by (intro sign_loop_holds [OF d new key mont(2,3) _ _ h ks av]) simp_all
qed

section \<open>Verifying\<close>

lemma wnaf_room_two: "wnaf_room [(j, a), (k, b)] \<le> 65"
proof -
  have "EC_window_bits_for_scalar_size x \<le> 6" for x by (simp add: EC_window_bits_for_scalar_size_def)
  then have "(2 :: nat) ^ (EC_window_bits_for_scalar_size x - 1) \<le> 2 ^ 5" for x
    by (intro power_increasing) (simp_all add: diff_le_mono le_diff_conv)
  from this [of "z_num_bits j"] this [of "z_num_bits k"] show ?thesis by (simp add: wnaf_room_def)
qed

lemma verify_holds:
  assumes d: "dsa_group g gen G" and key: "k_group key = Some g" "pub_key key = Some a"
    and h: "holds g st gen G" "holds g st a Q" "gon g Q"
    and new: "b \<noteq> gen" "b \<noteq> a" "{a, gen, b} \<inter> set fresh = {}" "distinct fresh" "65 \<le> length fresh"
    and av: "rng_avail g 3 (rng st)"
  shows "ossl_ecdsa_simple_verify_sig dgst (Some sig) (Some key) (Some b) fresh True st =
    ecdsa_check g G Q (digest_to_m (g_order g) dgst) sig"
proof -
  let ?n = "g_order g"
  obtain r s where sig: "sig = (r, s)" by force
  have D: "curve_ok g" "gon g G" "prime_int ?n" "2 < ?n" "g_generator g = Some gen"
    using d by (simp_all add: dsa_group_def)
  note v = curve_valid [OF D(1)]
  have n: "0 < ?n" using D(4) by simp
  define m where "m = digest_to_m ?n dgst"
  show ?thesis
  proof (cases "r \<le> 0 \<or> ?n \<le> r \<or> s \<le> 0 \<or> ?n \<le> s")
    case True
    then have "r = 0 \<or> r < 0 \<or> \<bar>r\<bar> \<ge> \<bar>?n\<bar> \<or> s = 0 \<or> s < 0 \<or> \<bar>s\<bar> \<ge> \<bar>?n\<bar>" using n by linarith
    moreover have "ecdsa_check g G Q m sig = 0" using True by (auto simp: ecdsa_check_def sig Let_def)
    ultimately show ?thesis using key can_sign [OF v key(1)]
      by (simp add: ossl_ecdsa_simple_verify_sig_def sig Let_def m_def)
  next
    case False
    then have rng: "0 < r" "r < ?n" "0 < s" "s < ?n" by simp_all
    define w where "w = minv ?n s"
    define u1 where "u1 = (m * w) mod ?n"
    define u2 where "u2 = (r * w) mod ?n"
    define R where "R = gadd g (gmul g u2 Q) (gmul g u1 G)"
    have inv: "ossl_ec_group_do_inverse_ord g s True = Some w"
      using d unfolding w_def by (intro do_inverse_ord_holds(2) gfp.meth_law) (simp_all add: dsa_group_def curve_valid)
    obtain s1 where s1: "EC_POINT_new g (Some b) st = Some (b, s1)" "\<forall>c. c \<noteq> b \<longrightarrow> heap s1 c = heap st c" "holds g s1 b Inf"
      using new_holds [OF v, of b st] by (auto simp: returns_ex)
    have h1: "holds g s1 gen G" "holds g s1 a Q" using h(1,2) s1(2) new(1,2) by (simp_all add: holds_def)
    define Pt where "Pt = (\<lambda>c. if c = a then Q else G)"
    have Pg: "Pt gen = G" using holds_unique [OF v, of s1 a Q G] h1 by (auto simp: Pt_def)
    have ms: "mul_summands g (Some (Bn u1)) [(Bn u2, a)] = [(u2, a), (u1, gen)]" using D(5) by (simp add: mul_summands_def)
    have ps: "\<forall>(k, p) \<in> set (mul_summands g (Some (Bn u1)) [(Bn u2, a)]). gon g (Pt p) \<and> holds g s1 p (Pt p) \<and> p \<notin> set fresh"
      using h(3) h1 new(3) Pg D(2) by (simp add: ms Pt_def)
    have "EC_POINT_mul g b (Some (Bn u1)) (Some a) (Some (Bn u2)) fresh True s1 =
        ossl_ec_wNAF_mul g b (Some (Bn u1)) [(Bn u2, a)] fresh True s1"
      using holdsD(2) [OF s1(3)] holdsD(2) [OF h1(2)] mul_slot [OF v] by (simp add: EC_POINT_mul_def)
    moreover have "returns (ossl_ec_wNAF_mul g b (Some (Bn u1)) [(Bn u2, a)] fresh True s1) (\<lambda>st'.
        holds g st' b R \<and> rng_avail g (2 - 1) (rng st'))"
    proof (rule returns_mono [OF wNAF_mul_rng [OF D(1) _ _ ps s1(3) _ new(4)]])
      show "wnaf_room (mul_summands g (Some (Bn u1)) [(Bn u2, a)]) \<le> length fresh"
        unfolding ms using wnaf_room_two [of u2 a u1 gen] new(5) by simp
      show "rng_avail g (Suc 2) (rng s1)" using av new_rng [OF s1(1)] by (simp add: numeral_3_eq_3)
    qed (use D(5) new(3) Pg in \<open>auto simp: to_ladder_def ms R_def Pt_def\<close>)
    ultimately obtain s2 where s2: "EC_POINT_mul g b (Some (Bn u1)) (Some a) (Some (Bn u2)) fresh True s1 = Some s2"
      "holds g s2 b R" "rng_avail g (Suc 0) (rng s2)" by (auto simp: returns_ex)
    have run: "ossl_ecdsa_simple_verify_sig dgst (Some sig) (Some key) (Some b) fresh True st =
        (case EC_POINT_get_affine_coordinates g b True False True s2 of None \<Rightarrow> - 1
         | Some (xy, st') \<Rightarrow> (case fst xy of None \<Rightarrow> - 1 | Some X \<Rightarrow> if \<bar>X mod ?n\<bar> = \<bar>r\<bar> then 1 else 0))"
      using key can_sign [OF v key(1)] rng inv s1(1) s2(1) n
      by (simp add: ossl_ecdsa_simple_verify_sig_def sig Let_def m_def [symmetric] z_mod_mul_red z_nnmod_eq
          u1_def [symmetric] u2_def [symmetric] split: option.splits)
    have chk: "ecdsa_check g G Q m sig = (case R of Inf \<Rightarrow> - 1 | Aff x y \<Rightarrow> if x mod ?n = r then 1 else 0)"
      using False by (simp add: ecdsa_check_def sig Let_def w_def [symmetric] u1_def [symmetric] u2_def [symmetric] R_def)
    show ?thesis
    proof (cases R)
      case Inf
      then have "EC_POINT_get_affine_coordinates g b True False True s2 = None"
        using holds_infinity [OF v s2(2)] by (simp add: EC_POINT_get_affine_coordinates_def Let_def)
      then show ?thesis using run chk Inf by (simp add: m_def)
    next
      case (Aff x y)
      then obtain s3 where "EC_POINT_get_affine_coordinates g b True False True s2 = Some ((Some x, None), s3)"
        using get_affine_x [OF v s2(2) _ s2(3)] by (auto simp: ap_x_def)
      moreover have "\<bar>x mod ?n\<bar> = x mod ?n" "\<bar>r\<bar> = r" using n False by simp_all
      ultimately show ?thesis using run chk Aff by (simp add: m_def)
    qed
  qed
qed

end
