(* ===== verification/Dbc_Mul.thy ===== *)
theory Dbc_Mul
  imports Ec_Points
begin

text \<open>
  Scalar multiplication of \<open>src/DBCTest/functions.h\<close>: along a double-base chain, by the binary
  method and by the non-adjacent form. The code ignores what the \<open>EC_POINT_\<close> calls return; here a
  call that fails ends the run with \<open>None\<close>, so nothing is claimed about what the code does after it.
  A chain is the array \<open>DBC_store[min_index]\<close> of terms (sign, exponent of 2, exponent of 3), read
  from \<open>store\<close>, with \<open>DBC_len[min_index]\<close> terms. \<open>alloc\<close> is the address the allocator gives.
\<close>

section \<open>Double-base chains\<close>

text \<open>The \<open>while (1)\<close> loop: double, then triple, down to the exponents of the next term.\<close>

function dbc_lower ::
  "ec_group \<Rightarrow> nat \<Rightarrow> int \<Rightarrow> int \<Rightarrow> int \<Rightarrow> int \<Rightarrow> bool \<Rightarrow> ec_state \<Rightarrow> (int \<times> int \<times> ec_state) option" where
  "dbc_lower g r d t now_dbl now_tpl ctx s =
     (if now_dbl > d then do {
        s \<leftarrow> EC_POINT_dbl g r r ctx s;
        dbc_lower g r d t (now_dbl - 1) now_tpl ctx s
      }
      else if now_tpl > t then do {
        s \<leftarrow> EC_POINT_tpl g r r ctx s;
        dbc_lower g r d t now_dbl (now_tpl - 1) ctx s
      }
      else Some (now_dbl, now_tpl, s))"
  by pat_completeness auto
termination
  by (relation "measure (\<lambda>(g, r, d, t, nd, nt, ctx, s). nat (nd - d) + nat (nt - t))") auto

fun dbc_terms ::
  "ec_group \<Rightarrow> nat \<Rightarrow> nat \<Rightarrow> nat \<Rightarrow> bool \<Rightarrow> (int \<times> int \<times> int) list \<Rightarrow> int \<Rightarrow> int \<Rightarrow> ec_state \<Rightarrow>
    (int \<times> int \<times> ec_state) option" where
  "dbc_terms g r a invert_a ctx [] now_dbl now_tpl s = Some (now_dbl, now_tpl, s)"
| "dbc_terms g r a invert_a ctx ((c, d, t) # terms) now_dbl now_tpl s = do {
     (now_dbl, now_tpl, s) \<leftarrow> dbc_lower g r d t now_dbl now_tpl ctx s;
     s \<leftarrow> (if c = - 1 then EC_POINT_add g r r invert_a ctx s else EC_POINT_add g r r a ctx s);
     dbc_terms g r a invert_a ctx terms now_dbl now_tpl s
   }"

function dbl_down :: "ec_group \<Rightarrow> nat \<Rightarrow> int \<Rightarrow> bool \<Rightarrow> ec_state \<Rightarrow> ec_state option" where
  "dbl_down g r now_dbl ctx s =
     (if now_dbl > 0 then do {
        s \<leftarrow> EC_POINT_dbl g r r ctx s;
        dbl_down g r (now_dbl - 1) ctx s
      } else Some s)"
  by pat_completeness auto
termination
  by (relation "measure (\<lambda>(g, r, n, ctx, s). nat n)") auto

function tpl_down :: "ec_group \<Rightarrow> nat \<Rightarrow> int \<Rightarrow> bool \<Rightarrow> ec_state \<Rightarrow> ec_state option" where
  "tpl_down g r now_tpl ctx s =
     (if now_tpl > 0 then do {
        s \<leftarrow> EC_POINT_tpl g r r ctx s;
        tpl_down g r (now_tpl - 1) ctx s
      } else Some s)"
  by pat_completeness auto
termination
  by (relation "measure (\<lambda>(g, r, n, ctx, s). nat n)") auto

declare dbc_lower.simps [simp del] dbl_down.simps [simp del] tpl_down.simps [simp del]

definition DBC_POINT_mul ::
  "ec_group \<Rightarrow> nat \<Rightarrow> nat \<Rightarrow> (nat \<Rightarrow> int \<times> int \<times> int) \<Rightarrow> nat \<Rightarrow> nat option \<Rightarrow> bool \<Rightarrow> ec_state \<Rightarrow>
    ec_state option" where
  "DBC_POINT_mul g r a store len alloc ctx s = do {
     (invert_a, s) \<leftarrow> EC_POINT_new g alloc s;
     s \<leftarrow> EC_POINT_copy invert_a a s;
     s \<leftarrow> EC_POINT_invert g invert_a ctx s;
     s \<leftarrow> EC_POINT_add g r a a ctx s;
     s \<leftarrow> EC_POINT_add g r r invert_a ctx s;
     let (c, now_dbl, now_tpl) = store 0;
     (now_dbl, now_tpl, s) \<leftarrow> dbc_terms g r a invert_a ctx (map store [1..<len]) now_dbl now_tpl s;
     s \<leftarrow> dbl_down g r now_dbl ctx s;
     tpl_down g r now_tpl ctx s
   }"

section \<open>What a chain stands for\<close>

definition term_value :: "int \<times> int \<times> int \<Rightarrow> int" where
  "term_value term = (case term of (c, d, t) \<Rightarrow> (if c = - 1 then - 1 else 1) * 2 ^ nat d * 3 ^ nat t)"

text \<open>The sum of the terms, the leading one taken positive whatever its sign.\<close>

fun dbc_value :: "(int \<times> int \<times> int) list \<Rightarrow> int" where
  "dbc_value [] = 0"
| "dbc_value ((c, d, t) # terms) = 2 ^ nat d * 3 ^ nat t + sum_list (map term_value terms)"

text \<open>Both exponents fall along a chain and are not negative.\<close>

fun dbc_chain :: "int \<Rightarrow> int \<Rightarrow> (int \<times> int \<times> int) list \<Rightarrow> bool" where
  "dbc_chain nd nt [] = (0 \<le> nd \<and> 0 \<le> nt)"
| "dbc_chain nd nt ((c, d, t) # terms) = (d \<le> nd \<and> t \<le> nt \<and> dbc_chain d t terms)"

text \<open>The multiples of the point that the accumulator meets just before each addition.\<close>

fun dbc_partials :: "int \<Rightarrow> int \<Rightarrow> int \<Rightarrow> (int \<times> int \<times> int) list \<Rightarrow> int list" where
  "dbc_partials v nd nt [] = []"
| "dbc_partials v nd nt ((c, d, t) # terms) =
     (let w = v * 2 ^ nat (nd - d) * 3 ^ nat (nt - t)
      in w # dbc_partials (w + (if c = - 1 then - 1 else 1)) d t terms)"

lemma dbc_chain_pos: "dbc_chain nd nt terms \<Longrightarrow> 0 \<le> nd \<and> 0 \<le> nt"
  by (induction nd nt terms rule: dbc_chain.induct) auto

section \<open>The loops multiply\<close>

abbreviation others :: "nat \<Rightarrow> ec_state \<Rightarrow> ec_state \<Rightarrow> bool" where
  "others r s s' \<equiv> (\<forall>a. a \<noteq> r \<longrightarrow> heap s' a = heap s a)"

lemma frame_others: "frame r s s' \<Longrightarrow> others r s s'"
  by (simp add: frame_def)

lemma dbc_lower_holds:
  assumes c: "curve_ok g" "gon g P"
  shows "holds g s r (gmul g v P) \<Longrightarrow> \<not> Z1of s r \<Longrightarrow>
    returns (dbc_lower g r d t nd nt True s) (\<lambda>(nd', nt', s'). nd' = min nd d \<and> nt' = min nt t \<and>
      others r s s' \<and> holds g s' r (gmul g (v * 2 ^ nat (nd - d) * 3 ^ nat (nt - t)) P) \<and> \<not> Z1of s' r)"
proof (induction "nat (nd - d) + nat (nt - t)" arbitrary: nd nt s v rule: less_induct)
  case less
  note v = curve_valid [OF c(1)]
  consider "nd > d" | "\<not> nd > d" "nt > t" | "\<not> nd > d" "\<not> nt > t" by blast
  then show ?case
  proof cases
    case 1
    have e: "nat (nd - d) = Suc (nat (nd - 1 - d))" using 1 by simp
    have "returns (EC_POINT_dbl g r r True s) (\<lambda>s'. others r s s' \<and> holds g s' r (gmul g (v * 2) P) \<and> \<not> Z1of s' r)"
      using dbl_holds [OF v less.prems(1,1)] by (auto simp: returns_ex gmul_double c frame_others)
    then obtain s1 where s1: "EC_POINT_dbl g r r True s = Some s1" "others r s s1"
      "holds g s1 r (gmul g (v * 2) P)" "\<not> Z1of s1 r" by (auto simp: returns_ex)
    have "returns (dbc_lower g r d t (nd - 1) nt True s1) (\<lambda>(nd', nt', s'). nd' = min (nd - 1) d \<and> nt' = min nt t \<and>
        others r s1 s' \<and> holds g s' r (gmul g (v * 2 * 2 ^ nat (nd - 1 - d) * 3 ^ nat (nt - t)) P) \<and> \<not> Z1of s' r)"
      using 1 by (intro less.hyps s1) auto
    then show ?thesis
      unfolding dbc_lower.simps [of g r d t nd nt True s] using 1 s1 by (simp add: e) (elim returns_mono, auto simp: mult.assoc)
  next
    case 2
    have e: "nat (nt - t) = Suc (nat (nt - 1 - t))" using 2 by simp
    have "returns (EC_POINT_tpl g r r True s) (\<lambda>s'. others r s s' \<and> holds g s' r (gmul g (v * 3) P) \<and> \<not> Z1of s' r)"
      using tpl_holds [OF c(1) less.prems(1,1)] less.prems(2)
      by (auto simp: returns_ex gmul_triple c gon_mul frame_others)
    then obtain s1 where s1: "EC_POINT_tpl g r r True s = Some s1" "others r s s1"
      "holds g s1 r (gmul g (v * 3) P)" "\<not> Z1of s1 r" by (auto simp: returns_ex)
    have "returns (dbc_lower g r d t nd (nt - 1) True s1) (\<lambda>(nd', nt', s'). nd' = min nd d \<and> nt' = min (nt - 1) t \<and>
        others r s1 s' \<and> holds g s' r (gmul g (v * 3 * 2 ^ nat (nd - d) * 3 ^ nat (nt - 1 - t)) P) \<and> \<not> Z1of s' r)"
      using 2 by (intro less.hyps s1) auto
    then show ?thesis
      unfolding dbc_lower.simps [of g r d t nd nt True s] using 2 s1
      by (simp add: e) (elim returns_mono, auto simp: ac_simps)
  next
    case 3
    with less.prems show ?thesis unfolding dbc_lower.simps [of g r d t nd nt True s] by simp
  qed
qed

lemma dbl_down_eq: "dbl_down g r n ctx s = map_option (\<lambda>(_, _, s). s) (dbc_lower g r 0 0 n 0 ctx s)"
  by (induction g r n ctx s rule: dbl_down.induct)
    (subst dbl_down.simps, subst dbc_lower.simps, auto simp: map_option_bind comp_def split: Option.bind_splits)

lemma tpl_down_eq: "tpl_down g r n ctx s = map_option (\<lambda>(_, _, s). s) (dbc_lower g r 0 0 0 n ctx s)"
  by (induction g r n ctx s rule: tpl_down.induct)
    (subst tpl_down.simps, subst dbc_lower.simps, auto simp: map_option_bind comp_def split: Option.bind_splits)

lemma down_holds:
  assumes c: "curve_ok g" "gon g P" and h: "holds g s r (gmul g v P)" "\<not> Z1of s r"
  shows "returns (dbl_down g r n True s) (\<lambda>s'. others r s s' \<and> holds g s' r (gmul g (v * 2 ^ nat n) P) \<and> \<not> Z1of s' r)"
    "returns (tpl_down g r n True s) (\<lambda>s'. others r s s' \<and> holds g s' r (gmul g (v * 3 ^ nat n) P) \<and> \<not> Z1of s' r)"
  using dbc_lower_holds [OF c h, of 0 0 n 0] dbc_lower_holds [OF c h, of 0 0 0 n]
  by (auto simp: dbl_down_eq tpl_down_eq returns_ex)

lemma dbc_terms_holds:
  assumes c: "curve_ok g" "gon g P" and ar: "a \<noteq> r" "i \<noteq> r"
  shows "holds g s r (gmul g v P) \<Longrightarrow> \<not> Z1of s r \<Longrightarrow> holds g s a P \<Longrightarrow> holds g s i (gneg g P) \<Longrightarrow>
    Z1of s i = Z1of s a \<Longrightarrow> Z1of s a \<longrightarrow> (\<forall>w\<in>set (dbc_partials v nd nt terms). gmul g w P \<noteq> Inf) \<Longrightarrow>
    dbc_chain nd nt terms \<Longrightarrow>
    returns (dbc_terms g r a i True terms nd nt s) (\<lambda>(nd', nt', s'). others r s s' \<and>
      (\<exists>u. holds g s' r (gmul g u P) \<and>
        u * 2 ^ nat nd' * 3 ^ nat nt' = v * 2 ^ nat nd * 3 ^ nat nt + sum_list (map term_value terms)) \<and>
      \<not> Z1of s' r)"
proof (induction v nd nt terms arbitrary: s rule: dbc_partials.induct)
  case (1 v nd nt)
  then show ?case by auto
next
  case (2 v nd nt k d t terms)
  note va = curve_valid [OF c(1)]
  define w where "w = v * 2 ^ nat (nd - d) * 3 ^ nat (nt - t)"
  define k' :: int where "k' = (if k = - 1 then - 1 else 1)"
  have dt: "0 \<le> d" "0 \<le> t" "d \<le> nd" "t \<le> nt" "dbc_chain d t terms"
    using "2.prems"(7) dbc_chain_pos [of d t terms] by auto
  obtain s1 where s1: "dbc_lower g r d t nd nt True s = Some (d, t, s1)" "others r s s1"
    "holds g s1 r (gmul g w P)" "\<not> Z1of s1 r"
    using dbc_lower_holds [OF c "2.prems"(1,2), of d t nd nt] dt by (auto simp: returns_ex w_def)
  have h1: "holds g s1 a P" "holds g s1 i (gneg g P)" "Z1of s1 i = Z1of s1 a" "Z1of s1 a = Z1of s a"
    using "2.prems"(3-5) s1(2) ar by (auto simp: holds_def)
  define b where "b = (if k = - 1 then i else a)"
  have hb: "holds g s1 b (if k = - 1 then gneg g P else P)" "Z1of s1 b = Z1of s a"
    using h1 by (auto simp: b_def)
  have plus: "gadd g (gmul g w P) (if k = - 1 then gneg g P else P) = gmul g (w + k') P"
    using gadd_mul_1 [OF c] by (simp add: k'_def)
  obtain s2 where s2: "EC_POINT_add g r r b True s1 = Some s2" "frame r s1 s2"
    "holds g s2 r (gmul g (w + k') P)" "Z1of s2 r \<longrightarrow> gmul g w P = Inf \<and> Z1of s a"
    using add_holds [OF va s1(3) hb(1) s1(3)] s1(4) hb(2) plus by (auto simp: returns_ex)
  have nz: "\<not> Z1of s2 r" using s2(4) "2.prems"(6) by (auto simp: w_def Let_def)
  have h2: "holds g s2 a P" "holds g s2 i (gneg g P)" "Z1of s2 i = Z1of s2 a" "Z1of s2 a = Z1of s a"
    using h1 s2(2) ar by (auto simp: holds_def frame_def)
  have run: "dbc_terms g r a i True ((k, d, t) # terms) nd nt s = dbc_terms g r a i True terms d t s2"
    using s1(1) s2(1) by (auto simp: b_def)
  have val: "w * 2 ^ nat d * 3 ^ nat t = v * 2 ^ nat nd * 3 ^ nat nt"
  proof -
    have "nat nd = nat (nd - d) + nat d" "nat nt = nat (nt - t) + nat t" using dt by auto
    then show ?thesis by (simp add: w_def power_add)
  qed
  have "returns (dbc_terms g r a i True terms d t s2) (\<lambda>(nd', nt', s'). others r s2 s' \<and>
      (\<exists>u. holds g s' r (gmul g u P) \<and>
        u * 2 ^ nat nd' * 3 ^ nat nt' = (w + k') * 2 ^ nat d * 3 ^ nat t + sum_list (map term_value terms)) \<and>
      \<not> Z1of s' r)"
    unfolding k'_def w_def
    by (rule "2.IH" [OF refl]) (use s2(3) nz h2 dt(5) "2.prems"(6) in \<open>auto simp: w_def k'_def Let_def\<close>)
  moreover have "(w + k') * 2 ^ nat d * 3 ^ nat t + sum_list (map term_value terms) =
      v * 2 ^ nat nd * 3 ^ nat nt + sum_list (map term_value ((k, d, t) # terms))"
    by (simp add: term_value_def k'_def distrib_right val)
  ultimately show ?case
    unfolding run
    by (elim returns_mono) (use s1(2) s2(2) in \<open>auto simp: frame_def simp del: list.map sum_list.Cons\<close>)
qed

text \<open>The whole multiplication.\<close>

lemma DBC_POINT_mul_holds:
  assumes c: "curve_ok g" "gon g P" and h: "holds g s a P" "holds g s r R"
    and new: "n \<noteq> a" "n \<noteq> r" "r \<noteq> a" and terms: "map store [0..<len] = (k, d, t) # terms"
    and chain: "dbc_chain d t terms"
    and flag: "Z1of s a \<longrightarrow> (\<forall>w\<in>set (2 # dbc_partials 1 d t terms). gmul g w P \<noteq> Inf)"
  shows "returns (DBC_POINT_mul g r a store len (Some n) True s) (\<lambda>s'.
    holds g s' r (gmul g (dbc_value ((k, d, t) # terms)) P) \<and>
    (\<forall>b. b \<noteq> r \<and> b \<noteq> n \<longrightarrow> heap s' b = heap s b))"
proof -
  note va = curve_valid [OF c(1)]
  have st: "store 0 = (k, d, t)" "map store [1..<len] = terms"
  proof -
    have "0 < len" using terms by (cases len) auto
    then have "[0..<len] = 0 # [1..<len]" using upt_conv_Cons [of 0 len] by simp
    then show "store 0 = (k, d, t)" "map store [1..<len] = terms" using terms by simp_all
  qed
  obtain s1 where s1: "EC_POINT_new g (Some n) s = Some (n, s1)" "others n s s1" "holds g s1 n Inf"
    using new_holds [OF va, of n s] by (auto simp: returns_ex)
  have h1: "holds g s1 a P" "holds g s1 r R" using h s1(2) new by (auto simp: holds_def)
  obtain s2 where s2: "EC_POINT_copy n a s1 = Some s2" "frame n s1 s2" "holds g s2 n P" "Z1of s2 n = Z1of s1 a"
    using copy_holds [OF va h1(1) holdsD(1) [OF s1(3)]] by (auto simp: returns_ex)
  obtain s3 where s3: "EC_POINT_invert g n True s2 = Some s3" "frame n s2 s3" "holds g s3 n (gneg g P)"
    "Z1of s3 n = Z1of s2 n"
    using invert_holds [OF va s2(3), of True] by (auto simp: returns_ex)
  have h3: "holds g s3 a P" "holds g s3 r R" "Z1of s3 n = Z1of s a" "Z1of s3 a = Z1of s a"
    using h1 s1(2) s2 s3 new by (auto simp: holds_def frame_def)
  obtain s4 where s4: "EC_POINT_add g r a a True s3 = Some s4" "frame r s3 s4" "holds g s4 r (gadd g P P)"
    "Z1of s4 r \<longrightarrow> P = Inf \<and> Z1of s3 a"
    using add_holds [OF va h3(1) h3(1) h3(2)] by (auto simp: returns_ex)
  have nz4: "\<not> Z1of s4 r" using s4(4) h3(1) holds_flag [OF va, of s3 a] by auto
  have P2: "gadd g P P = gmul g 2 P" using gmul_double [OF c, of 1] by simp
  have h4: "holds g s4 n (gneg g P)" "Z1of s4 n = Z1of s a" "holds g s4 a P" "Z1of s4 a = Z1of s a"
    using h3 s3(3) s4(2) new by (auto simp: holds_def frame_def)
  obtain s5 where s5: "EC_POINT_add g r r n True s4 = Some s5" "frame r s4 s5" "holds g s5 r (gmul g 1 P)"
    "Z1of s5 r \<longrightarrow> gmul g 2 P = Inf \<and> Z1of s a"
    using add_holds [OF va s4(3) h4(1) s4(3)] nz4 h4(2) gadd_mul_1(3) [OF c, of 2] by (auto simp: returns_ex P2)
  have h5: "holds g s5 n (gneg g P)" "holds g s5 a P" "Z1of s5 n = Z1of s5 a" "Z1of s5 a = Z1of s a"
    using h4 s5(2) new by (auto simp: holds_def frame_def)
  have nz5: "\<not> Z1of s5 r" using s5(4) flag by auto
  obtain nd nt s6 u where s6: "dbc_terms g r a n True terms d t s5 = Some (nd, nt, s6)" "others r s5 s6"
    "holds g s6 r (gmul g u P)" "\<not> Z1of s6 r"
    "u * 2 ^ nat nd * 3 ^ nat nt = dbc_value ((k, d, t) # terms)"
    using dbc_terms_holds [OF c new(3) [symmetric] new(2) s5(3) nz5 h5(2,1,3) _ chain] flag h5(4)
    by (auto simp: returns_ex)
  obtain s7 where s7: "dbl_down g r nd True s6 = Some s7" "others r s6 s7"
    "holds g s7 r (gmul g (u * 2 ^ nat nd) P)" "\<not> Z1of s7 r"
    using down_holds(1) [OF c s6(3,4)] by (auto simp: returns_ex)
  obtain s8 where s8: "tpl_down g r nt True s7 = Some s8" "others r s7 s8"
    "holds g s8 r (gmul g (u * 2 ^ nat nd * 3 ^ nat nt) P)"
    using down_holds(2) [OF c s7(3,4)] by (auto simp: returns_ex)
  have "DBC_POINT_mul g r a store len (Some n) True s = Some s8"
    unfolding DBC_POINT_mul_def st using s1(1) s2(1) s3(1) s4(1) s5(1) s6(1) s7(1) s8(1) st(2) by simp
  moreover have "heap s8 b = heap s b" if "b \<noteq> r" "b \<noteq> n" for b
    using that s1(2) s2(2) s3(2) s4(2) s5(2) s6(2) s7(2) s8(2) by (simp add: frame_def)
  ultimately show ?thesis using s8(3) s6(5) by simp
qed

lemma dbc_lower_rng: "dbc_lower g r d t nd nt ctx s = Some (nd', nt', s') \<Longrightarrow> rng s' = rng s"
  by (induction g r d t nd nt ctx s rule: dbc_lower.induct)
    (subst (asm) (3) dbc_lower.simps, auto split: if_splits Option.bind_splits dest!: dbl_rng tpl_rng)

lemma dbc_terms_rng: "dbc_terms g r a i ctx terms nd nt s = Some (nd', nt', s') \<Longrightarrow> rng s' = rng s"
  by (induction terms arbitrary: nd nt s)
    (auto split: if_splits Option.bind_splits dest!: add_rng dbc_lower_rng)

lemma DBC_POINT_mul_rng: "DBC_POINT_mul g r a store len al ctx s = Some s' \<Longrightarrow> rng s' = rng s"
  by (auto simp: DBC_POINT_mul_def dbl_down_eq tpl_down_eq Let_def split: prod.splits Option.bind_splits
      dest!: new_rng copy_rng invert_rng add_rng dbc_terms_rng dbc_lower_rng)

end
