(* ===== verification/Dbc_Naf.thy ===== *)
theory Dbc_Naf
  imports Dbc_Mul
begin

text \<open>
  The two baselines of \<open>functions.h\<close>: the binary method from the low bit, and the non-adjacent form.
  The scalar \<open>n\<close> is what \<open>BN_hex2bn\<close> read; \<open>TTV\<close>, the cost estimate the code counts in a double,
  is the integer it holds.
\<close>

section \<open>BIGNUM helpers\<close>

text \<open>\<open>BN_div\<close> and \<open>BN_rshift1\<close> work on the magnitude; \<open>BN_get_word\<close> drops the sign.\<close>

definition z_div :: "int \<Rightarrow> int \<Rightarrow> int option" where
  "z_div m d = (if d = 0 then None else Some (sgn m * sgn d * (\<bar>m\<bar> div \<bar>d\<bar>)))"

definition z_rshift1 :: "int \<Rightarrow> int" where
  "z_rshift1 n = sgn n * (\<bar>n\<bar> div 2)"

lemma z_rshift1_abs: "\<bar>z_rshift1 n\<bar> = \<bar>n\<bar> div 2"
  by (cases "n = 0") (simp_all add: z_rshift1_def abs_mult)

lemma z_div_2: "0 \<le> n \<Longrightarrow> z_div (2 * n) 2 = Some n"
  by (cases "n = 0") (simp_all add: z_div_def)

section \<open>The binary method\<close>

function binary_loop :: "ec_group \<Rightarrow> nat \<Rightarrow> nat \<Rightarrow> bool \<Rightarrow> int \<Rightarrow> int \<Rightarrow> ec_state \<Rightarrow> (int \<times> ec_state) option" where
  "binary_loop g r mult_points ctx n TTV s =
     (if n = 0 then Some (TTV, s)
      else do {
        mod_result \<leftarrow> z_mod n 2;
        (TTV, s) \<leftarrow> (if mod_result \<noteq> 0
                    then do { s \<leftarrow> EC_POINT_add g r r mult_points ctx s; Some (TTV + 15, s) }
                    else Some (TTV, s));
        s \<leftarrow> EC_POINT_dbl g mult_points mult_points ctx s;
        binary_loop g r mult_points ctx (z_rshift1 n) (TTV + 7) s
      })"
  by pat_completeness auto
termination
proof (relation "measure (\<lambda>(g, r, m, ctx, n, T, s). nat \<bar>n\<bar>)", goal_cases)
  case (2 g r m ctx n)
  then have "\<bar>n\<bar> div 2 < \<bar>n\<bar>" by simp
  then have "nat (\<bar>n\<bar> div 2) < nat \<bar>n\<bar>" using 2 by simp
  then show ?case by (simp only: in_measure prod.case z_rshift1_abs)
qed simp

declare binary_loop.simps [simp del]

definition binary_POINT_mul ::
  "ec_group \<Rightarrow> nat \<Rightarrow> nat \<Rightarrow> int \<Rightarrow> nat option \<Rightarrow> bool \<Rightarrow> ec_state \<Rightarrow> (int \<times> ec_state) option" where
  "binary_POINT_mul g r a n alloc ctx s = do {
     (mult_points, s) \<leftarrow> EC_POINT_new g alloc s;
     s \<leftarrow> EC_POINT_copy mult_points a s;
     binary_loop g r mult_points ctx n 0 s
   }"

section \<open>The non-adjacent form\<close>

text \<open>
  The digits in the order they are pushed. \<open>2 - BN_get_word(..)\<close> is computed in an unsigned long
  and stored in an int, so it is \<open>2 - w\<close>. A negative scalar need not end the loop.
\<close>

partial_function (option) naf_loop :: "int \<Rightarrow> int list option" where
  "naf_loop n =
     (if n = 0 then Some []
      else do {
        mod_result \<leftarrow> z_mod n 2;
        (ni, n) \<leftarrow> (if mod_result = 0 then Some (0, n)
          else do {
            mod_result \<leftarrow> z_mod n 4;
            let ni = 2 - \<bar>mod_result\<bar>;
            Some (ni, if ni > 0 then n - 1 else n + 1)
          });
        n \<leftarrow> z_div n 2;
        naf \<leftarrow> naf_loop n;
        Some (ni # naf)
      })"

definition int_to_naf :: "int \<Rightarrow> int list option" where
  "int_to_naf n = (if n = 0 then Some [0] else do { naf \<leftarrow> naf_loop n; Some (rev naf) })"

fun naf_steps :: "ec_group \<Rightarrow> nat \<Rightarrow> nat \<Rightarrow> nat \<Rightarrow> bool \<Rightarrow> int list \<Rightarrow> int \<Rightarrow> ec_state \<Rightarrow> (int \<times> ec_state) option" where
  "naf_steps gr R G invert_G ctx [] TTV s = Some (TTV, s)"
| "naf_steps gr R G invert_G ctx (d # ds) TTV s = do {
     s \<leftarrow> EC_POINT_dbl gr R R ctx s;
     let TTV = TTV + 7;
     (TTV, s) \<leftarrow> (if d = 1 then do { s \<leftarrow> EC_POINT_add gr R R G ctx s; Some (TTV + 15, s) } else Some (TTV, s));
     (TTV, s) \<leftarrow> (if d = - 1 then do { s \<leftarrow> EC_POINT_add gr R R invert_G ctx s; Some (TTV + 15, s) } else Some (TTV, s));
     naf_steps gr R G invert_G ctx ds TTV s
   }"

definition NAF_POINT_mul ::
  "ec_group \<Rightarrow> nat \<Rightarrow> nat \<Rightarrow> int \<Rightarrow> nat option \<Rightarrow> bool \<Rightarrow> ec_state \<Rightarrow> (int \<times> ec_state) option" where
  "NAF_POINT_mul gr R G k alloc ctx s = do {
     (invert_G, s) \<leftarrow> EC_POINT_new gr alloc s;
     s \<leftarrow> EC_POINT_copy invert_G G s;
     s \<leftarrow> EC_POINT_invert gr invert_G ctx s;
     s \<leftarrow> EC_POINT_copy R G s;
     NAF \<leftarrow> int_to_naf k;
     naf_steps gr R G invert_G ctx (tl NAF) 0 s
   }"

section \<open>Digits\<close>

text \<open>The value of digits with the least significant first, and the shape of the form.\<close>

fun digits_value :: "int list \<Rightarrow> int" where
  "digits_value [] = 0"
| "digits_value (d # ds) = d + 2 * digits_value ds"

fun non_adjacent :: "int list \<Rightarrow> bool" where
  "non_adjacent [] = True"
| "non_adjacent (d # ds) = ((d = - 1 \<or> d = 0 \<or> d = 1) \<and> (d \<noteq> 0 \<longrightarrow> ds = [] \<or> hd ds = 0) \<and> non_adjacent ds)"

lemma naf_even: "0 < n \<Longrightarrow> naf_loop (2 * n) = do { naf \<leftarrow> naf_loop n; Some (0 # naf) }"
  by (subst naf_loop.simps) (simp add: z_mod_def z_div_def)

lemma naf_1: "naf_loop (4 * n + 1) = do { naf \<leftarrow> naf_loop (2 * n); Some (1 # naf) }" if "0 \<le> n"
proof -
  have m: "(4 * n + 1) mod 2 = 1" "(4 * n + 1) mod 4 = 1" by presburger+
  have "z_div (4 * n) 2 = Some (2 * n)" using z_div_2 [of "2 * n"] that by simp
  with that m show ?thesis by (subst naf_loop.simps) (simp add: z_mod_def)
qed

lemma naf_3: "naf_loop (4 * n + 3) = do { naf \<leftarrow> naf_loop (2 * (n + 1)); Some (- 1 # naf) }" if "0 \<le> n"
proof -
  have m: "(4 * n + 3) mod 2 = 1" "(4 * n + 3) mod 4 = 3" by presburger+
  have "z_div (4 + 4 * n) 2 = Some (2 * n + 2)" using z_div_2 [of "2 * n + 2"] that
    by (simp add: add.commute)
  with that m show ?thesis by (subst naf_loop.simps) (simp add: z_mod_def)
qed

lemma naf_0: "naf_loop 0 = Some []"
  by (subst naf_loop.simps) simp

lemma naf_loop_correct:
  "0 \<le> n \<Longrightarrow> \<exists>ds. naf_loop n = Some ds \<and> digits_value ds = n \<and> non_adjacent ds \<and>
    (0 < n \<longrightarrow> ds \<noteq> [] \<and> last ds = 1) \<and> (even n \<longrightarrow> ds = [] \<or> hd ds = 0)"
proof (induction "nat n" arbitrary: n rule: less_induct)
  case less
  consider "n = 0" | k where "n = 2 * k" "0 < k" | k where "n = 4 * k + 1" "0 \<le> k" | k where "n = 4 * k + 3" "0 \<le> k"
  proof -
    assume a: "n = 0 \<Longrightarrow> thesis" "\<And>k. n = 2 * k \<Longrightarrow> 0 < k \<Longrightarrow> thesis"
      "\<And>k. n = 4 * k + 1 \<Longrightarrow> 0 \<le> k \<Longrightarrow> thesis" "\<And>k. n = 4 * k + 3 \<Longrightarrow> 0 \<le> k \<Longrightarrow> thesis"
    have "n = 0 \<or> n = 2 * (n div 2) \<and> 0 < n div 2 \<or> n = 4 * (n div 4) + 1 \<or> n = 4 * (n div 4) + 3"
      using less.prems by presburger
    moreover have "0 \<le> n div 4" using less.prems by simp
    ultimately show thesis using a by blast
  qed
  then show ?case
  proof cases
    case 2
    then obtain ds where "naf_loop k = Some ds \<and> digits_value ds = k \<and> non_adjacent ds \<and> ds \<noteq> [] \<and> last ds = 1"
      using less.hyps [of k] by auto
    with 2 show ?thesis by (auto simp: naf_even)
  next
    case 3
    then have "nat (2 * k) < nat n" "0 \<le> 2 * k" by simp_all
    from less.hyps [OF this] obtain ds where "naf_loop (2 * k) = Some ds \<and> digits_value ds = 2 * k \<and>
        non_adjacent ds \<and> (0 < 2 * k \<longrightarrow> ds \<noteq> [] \<and> last ds = 1) \<and> (even (2 * k) \<longrightarrow> ds = [] \<or> hd ds = 0)"
      by blast
    with 3 show ?thesis using naf_1 [of 0] by (cases "k = 0") (auto simp: naf_1 naf_0)
  next
    case 4
    then obtain ds where "naf_loop (2 * (k + 1)) = Some ds \<and> digits_value ds = 2 * (k + 1) \<and> non_adjacent ds \<and>
        ds \<noteq> [] \<and> last ds = 1 \<and> (ds = [] \<or> hd ds = 0)"
      using less.hyps [of "2 * (k + 1)"] by auto
    with 4 show ?thesis by (auto simp: naf_3)
  qed (simp add: naf_0)
qed

lemma int_to_naf_correct:
  assumes "0 < n"
  obtains ds where "int_to_naf n = Some (1 # ds)" "digits_value (rev (1 # ds)) = n" "non_adjacent (rev (1 # ds))"
proof -
  obtain ds where ds: "naf_loop n = Some ds" "digits_value ds = n" "non_adjacent ds" "ds \<noteq> []" "last ds = 1"
    using naf_loop_correct [of n] assms by auto
  then have "rev ds = 1 # tl (rev ds)" by (cases ds rule: rev_cases) auto
  with ds assms that [of "tl (rev ds)"] show thesis by (simp add: int_to_naf_def)
qed

lemma non_adjacent_digits: "non_adjacent ds \<Longrightarrow> d \<in> set ds \<Longrightarrow> d = - 1 \<or> d = 0 \<or> d = 1"
  by (induction ds) auto

lemma digits_value_append: "digits_value (xs @ ys) = digits_value xs + 2 ^ length xs * digits_value ys"
  by (induction xs) (auto simp: algebra_simps)

text \<open>A negative scalar never reaches zero, so the loop does not end.\<close>

lemma naf_loop_nonneg:
  assumes "naf_loop n = Some ds"
  shows "0 \<le> n"
proof (rule naf_loop.raw_induct [OF _ assms])
  fix f :: "int \<Rightarrow> int list option" and n :: int and ds :: "int list"
  assume IH: "\<And>n ds. f n = Some ds \<Longrightarrow> 0 \<le> (n :: int)"
  assume body: "(if n = 0 then Some []
      else do {
        mod_result \<leftarrow> z_mod n 2;
        (ni, n) \<leftarrow> (if mod_result = 0 then Some (0, n)
          else do {
            mod_result \<leftarrow> z_mod n 4;
            let ni = 2 - \<bar>mod_result\<bar>;
            Some (ni, if ni > 0 then n - 1 else n + 1)
          });
        n \<leftarrow> z_div n 2;
        naf \<leftarrow> f n;
        Some (ni # naf)
      }) = Some ds"
  show "0 \<le> n"
  proof (rule ccontr)
    assume "\<not> 0 \<le> n"
    then obtain m where m: "n = - m" "0 < m" by (metis minus_minus neg_0_less_iff_less not_le)
    obtain x y where "f x = Some y" "x < 0"
    proof -
      consider k where "m = 2 * k" "0 < k" | k where "m = 4 * k + 1" "0 \<le> k" | k where "m = 4 * k + 3" "0 \<le> k"
      proof -
        assume a: "\<And>k. m = 2 * k \<Longrightarrow> 0 < k \<Longrightarrow> thesis"
          "\<And>k. m = 4 * k + 1 \<Longrightarrow> 0 \<le> k \<Longrightarrow> thesis" "\<And>k. m = 4 * k + 3 \<Longrightarrow> 0 \<le> k \<Longrightarrow> thesis"
        have "m = 2 * (m div 2) \<and> 0 < m div 2 \<or> m = 4 * (m div 4) + 1 \<or> m = 4 * (m div 4) + 3"
          using m(2) by presburger
        moreover have "0 \<le> m div 4" using m(2) by simp
        ultimately show thesis using a by blast
      qed
      then show thesis
      proof cases
        case 1
        with body m that [of "- k"] show thesis
          by (auto simp: z_mod_def z_div_def sgn_if split: Option.bind_splits)
      next
        case 2
        then have "(4 * k + 1) mod 2 = 1" "(4 * k + 1) mod 4 = 1" "(4 * k + 2) div 2 = 2 * k + 1" by presburger+
        with 2 body m that [of "- (2 * k + 1)"] show thesis
          by (auto simp: z_mod_def z_div_def sgn_if abs_if split: Option.bind_splits if_splits)
      next
        case 3
        then have "(4 * k + 3) mod 2 = 1" "(4 * k + 3) mod 4 = 3" "(4 * k + 2) div 2 = 2 * k + 1" "2 * k \<noteq> - 1" by presburger+
        with 3 body m that [of "- (2 * k + 1)"] show thesis
          by (auto simp: z_mod_def z_div_def sgn_if abs_if split: Option.bind_splits if_splits)
      qed
    qed
    with IH show False by fastforce
  qed
qed

section \<open>The multiplications\<close>

lemma binary_loop_holds:
  assumes c: "curve_ok g" "gon g P" and ar: "m \<noteq> r"
  shows "holds g s r (gmul g u P) \<Longrightarrow> holds g s m (gmul g v P) \<Longrightarrow>
    returns (binary_loop g r m True n T s) (\<lambda>(T', s'). holds g s' r (gmul g (u + \<bar>n\<bar> * v) P) \<and>
      (\<forall>b. b \<noteq> r \<and> b \<noteq> m \<longrightarrow> heap s' b = heap s b))"
proof (induction "nat \<bar>n\<bar>" arbitrary: n s u v T rule: less_induct)
  case less
  note va = curve_valid [OF c(1)]
  show ?case
  proof (cases "n = 0")
    case True
    with less.prems show ?thesis by (simp add: binary_loop.simps)
  next
    case False
    define b where "b = \<bar>n\<bar> mod 2"
    have b: "b = 0 \<or> b = 1" "\<bar>n\<bar> = b + 2 * \<bar>z_rshift1 n\<bar>" by (auto simp: b_def z_rshift1_abs)
    have m2: "z_mod n 2 = Some (sgn n * b)" by (simp add: z_mod_def b_def)
    obtain s1 T1 where s1: "(if sgn n * b \<noteq> 0 then do { s \<leftarrow> EC_POINT_add g r r m True s; Some (T + 15, s) }
        else Some (T, s)) = Some (T1, s1)" "others r s s1" "holds g s1 r (gmul g (u + b * v) P)"
    proof (cases "b = 0")
      case True
      then show thesis using that [of T s] less.prems(1) by simp
    next
      case False
      obtain s' where "EC_POINT_add g r r m True s = Some s'" "frame r s s'" "holds g s' r (gmul g (u + v) P)"
        using add_holds [OF va less.prems less.prems(1)] by (auto simp: returns_ex gmul_add c)
      then show thesis using that [of "T + 15" s'] False b(1) \<open>n \<noteq> 0\<close> by (auto simp: frame_def sgn_if)
    qed
    have hm: "holds g s1 m (gmul g v P)" using less.prems(2) s1(2) ar by (simp add: holds_def)
    obtain s2 where s2: "EC_POINT_dbl g m m True s1 = Some s2" "frame m s1 s2" "holds g s2 m (gmul g (v * 2) P)"
      using dbl_holds [OF va hm hm] by (auto simp: returns_ex gmul_double c)
    have hr: "holds g s2 r (gmul g (u + b * v) P)" using holds_frame [OF s1(3) s2(2)] ar by simp
    have "nat \<bar>z_rshift1 n\<bar> < nat \<bar>n\<bar>" using False b by auto
    from less.hyps [OF this hr s2(3), of "T1 + 7"] have
      "returns (binary_loop g r m True (z_rshift1 n) (T1 + 7) s2) (\<lambda>(T', s').
        holds g s' r (gmul g (u + b * v + \<bar>z_rshift1 n\<bar> * (v * 2)) P) \<and>
        (\<forall>b. b \<noteq> r \<and> b \<noteq> m \<longrightarrow> heap s' b = heap s2 b))" .
    moreover have "u + b * v + \<bar>z_rshift1 n\<bar> * (v * 2) = u + \<bar>n\<bar> * v" using b(2) by (simp add: algebra_simps)
    moreover have "binary_loop g r m True n T s = binary_loop g r m True (z_rshift1 n) (T1 + 7) s2"
      using False m2 s1(1) s2(1) by (subst binary_loop.simps) simp
    ultimately show ?thesis
      by (auto simp: returns_ex) (use s1(2) s2(2) in \<open>simp add: frame_def\<close>)
  qed
qed

lemma binary_POINT_mul_holds:
  assumes c: "curve_ok g" "gon g P" and h: "holds g s a P" "holds g s r (gmul g u P)"
    and new: "m \<noteq> a" "m \<noteq> r"
  shows "returns (binary_POINT_mul g r a n (Some m) True s) (\<lambda>(T, s').
    holds g s' r (gmul g (u + \<bar>n\<bar>) P) \<and> (\<forall>b. b \<noteq> r \<and> b \<noteq> m \<longrightarrow> heap s' b = heap s b))"
proof -
  note va = curve_valid [OF c(1)]
  obtain s1 where s1: "EC_POINT_new g (Some m) s = Some (m, s1)" "others m s s1" "holds g s1 m Inf"
    using new_holds [OF va, of m s] by (auto simp: returns_ex)
  have h1: "holds g s1 a P" "holds g s1 r (gmul g u P)" using h s1(2) new by (auto simp: holds_def)
  obtain s2 where s2: "EC_POINT_copy m a s1 = Some s2" "frame m s1 s2" "holds g s2 m (gmul g 1 P)"
    using copy_holds [OF va h1(1) holdsD(1) [OF s1(3)]] by (auto simp: returns_ex)
  from binary_loop_holds [OF c new(2) holds_frame [OF h1(2) s2(2)] s2(3), of n 0] new s1 s2
  show ?thesis by (auto simp: binary_POINT_mul_def returns_ex frame_def)
qed

lemma naf_steps_holds:
  assumes c: "curve_ok g" "gon g P" and ar: "a \<noteq> r" "i \<noteq> r"
  shows "holds g s r (gmul g v P) \<Longrightarrow> holds g s a P \<Longrightarrow> holds g s i (gneg g P) \<Longrightarrow>
    \<forall>d\<in>set ds. d = - 1 \<or> d = 0 \<or> d = 1 \<Longrightarrow>
    returns (naf_steps g r a i True ds T s) (\<lambda>(T', s'). others r s s' \<and>
      holds g s' r (gmul g (v * 2 ^ length ds + digits_value (rev ds)) P))"
proof (induction ds arbitrary: v T s)
  case (Cons d ds)
  note va = curve_valid [OF c(1)]
  obtain s1 where s1: "EC_POINT_dbl g r r True s = Some s1" "frame r s s1" "holds g s1 r (gmul g (v * 2) P)"
    using dbl_holds [OF va Cons.prems(1,1)] by (auto simp: returns_ex gmul_double c)
  note h1 = holds_frame [OF Cons.prems(2) s1(2) ar(1)] holds_frame [OF Cons.prems(3) s1(2) ar(2)]
  obtain T2 s2 where s2: "naf_steps g r a i True (d # ds) T s = naf_steps g r a i True ds T2 s2" "others r s1 s2"
    "holds g s2 r (gmul g (v * 2 + d) P)"
  proof -
    consider "d = 0" | "d = 1" | "d = - 1" using Cons.prems(4) by auto
    then show thesis
    proof cases
      case 1
      then show thesis using that [of "T + 7" s1] s1 by simp
    next
      case 2
      obtain s' where "EC_POINT_add g r r a True s1 = Some s'" "frame r s1 s'" "holds g s' r (gmul g (v * 2 + 1) P)"
        using add_holds [OF va s1(3) h1(1) s1(3)] by (auto simp: returns_ex gadd_mul_1 c)
      then show thesis using that [of "T + 7 + 15" s'] s1(1) 2 by (simp add: frame_def)
    next
      case 3
      obtain s' where "EC_POINT_add g r r i True s1 = Some s'" "frame r s1 s'" "holds g s' r (gmul g (v * 2 - 1) P)"
        using add_holds [OF va s1(3) h1(2) s1(3)] by (auto simp: returns_ex gadd_mul_1 c)
      then show thesis using that [of "T + 7 + 15" s'] s1(1) 3 by (simp add: frame_def)
    qed
  qed
  have h2: "holds g s2 a P" "holds g s2 i (gneg g P)" using h1 s2(2) ar by (auto simp: holds_def)
  have e: "(v * 2 + d) * 2 ^ length ds + digits_value (rev ds) =
      v * 2 ^ length (d # ds) + digits_value (rev (d # ds))"
    by (simp add: digits_value_append algebra_simps)
  have "returns (naf_steps g r a i True ds T2 s2) (\<lambda>(T', s'). others r s2 s' \<and>
      holds g s' r (gmul g ((v * 2 + d) * 2 ^ length ds + digits_value (rev ds)) P))"
    by (rule Cons.IH) (use s2(3) h2 Cons.prems(4) in auto)
  then show ?case
    unfolding s2(1) e by (elim returns_mono) (use s1(2) s2(2) in \<open>auto simp: frame_def\<close>)
qed simp

text \<open>For a positive scalar the result is the multiple; for zero it is the point itself.\<close>

lemma NAF_POINT_mul_holds:
  assumes c: "curve_ok g" "gon g P" and h: "holds g s G P" "holds g s R Q" and k: "0 \<le> k"
    and new: "n \<noteq> G" "n \<noteq> R" "R \<noteq> G"
  shows "returns (NAF_POINT_mul g R G k (Some n) True s) (\<lambda>(T, s').
    holds g s' R (gmul g (if k = 0 then 1 else k) P) \<and> (\<forall>b. b \<noteq> R \<and> b \<noteq> n \<longrightarrow> heap s' b = heap s b))"
proof -
  note va = curve_valid [OF c(1)]
  obtain s1 where s1: "EC_POINT_new g (Some n) s = Some (n, s1)" "others n s s1" "holds g s1 n Inf"
    using new_holds [OF va, of n s] by (auto simp: returns_ex)
  have h1: "holds g s1 G P" "holds g s1 R Q" using h s1(2) new by (auto simp: holds_def)
  obtain s2 where s2: "EC_POINT_copy n G s1 = Some s2" "frame n s1 s2" "holds g s2 n P"
    using copy_holds [OF va h1(1) holdsD(1) [OF s1(3)]] by (auto simp: returns_ex)
  obtain s3 where s3: "EC_POINT_invert g n True s2 = Some s3" "frame n s2 s3" "holds g s3 n (gneg g P)"
    using invert_holds [OF va s2(3), of True] by (auto simp: returns_ex)
  have h3: "holds g s3 G P" "holds g s3 R Q"
    using holds_frame [OF holds_frame [OF h1(1) s2(2)] s3(2)] holds_frame [OF holds_frame [OF h1(2) s2(2)] s3(2)] new
    by auto
  obtain s4 where s4: "EC_POINT_copy R G s3 = Some s4" "frame R s3 s4" "holds g s4 R (gmul g 1 P)"
    using copy_holds [OF va h3(1) holdsD(1) [OF h3(2)]] by (auto simp: returns_ex)
  note h4 = holds_frame [OF h3(1) s4(2) new(3) [symmetric]] holds_frame [OF s3(3) s4(2) new(2)]
  obtain ds where ds: "int_to_naf k = Some ds" "\<forall>d\<in>set (tl ds). d = - 1 \<or> d = 0 \<or> d = 1"
    "2 ^ length (tl ds) + digits_value (rev (tl ds)) = (if k = 0 then 1 else k)"
  proof (cases "k = 0")
    case True
    then show thesis using that [of "[0]"] by (simp add: int_to_naf_def)
  next
    case False
    then have "0 < k" using k by simp
    then show thesis
    proof (rule int_to_naf_correct)
      fix ds assume "int_to_naf k = Some (1 # ds)" "digits_value (rev (1 # ds)) = k" "non_adjacent (rev (1 # ds))"
      then show thesis using that [of "1 # ds"] False non_adjacent_digits [of "rev (1 # ds)"]
        by (auto simp: digits_value_append)
    qed
  qed
  from naf_steps_holds [OF c new(3) [symmetric] new(2) s4(3) h4 ds(2), of 0] ds
  have "returns (naf_steps g R G n True (tl ds) 0 s4) (\<lambda>(T', s'). others R s4 s' \<and>
      holds g s' R (gmul g (if k = 0 then 1 else k) P))" by (simp add: mult.commute)
  then show ?thesis
    using s1 s2 s3 s4 ds(1) by (auto simp: NAF_POINT_mul_def returns_ex frame_def)
qed

end
