(* ===== verification/Dbc_BigInt.thy ===== *)
theory Dbc_BigInt
  imports Dbc_Prelude
begin

text \<open>
  The fixed-width integers of \<open>src/DBCTest/myBigInt.h\<close>. A \<open>myBigInt\<close> is its array \<open>data\<close> of 32-bit
  words, the most significant first; the length of the list is \<open>INTS\<close>. \<open>big_val\<close> is the number an
  array stands for. The 64-bit intermediate results are kept at their width, and so are the
  truncations on assignment. \<open>mul_3\<close> and subtraction are exact under conditions on the words only,
  and both conditions are needed.
\<close>

section \<open>The code\<close>

type_synonym uint32 = "32 word"
type_synonym uint64 = "64 word"
type_synonym bigint = "uint32 list"

text \<open>A digit of the hexadecimal constructor, with the order of its comparisons.\<close>

definition hex_digit :: "char \<Rightarrow> uint32" where
  "hex_digit c = (let x = of_char c :: int in
     if x \<le> 57 then word_of_int (x - 48) else if x \<le> 70 then word_of_int (x - 65 + 10)
     else word_of_int (x - 97 + 10))"

definition hex_word :: "string \<Rightarrow> uint32" where
  "hex_word cs = foldl (\<lambda>d c. push_bit 4 d + hex_digit c) 0 cs"

fun hex_words :: "nat \<Rightarrow> string \<Rightarrow> bigint" where
  "hex_words 0 cs = []"
| "hex_words (Suc k) cs = hex_word (take 8 cs) # hex_words k (drop 8 cs)"

text \<open>\<open>None\<close> is a write before the array.\<close>

definition from_hex :: "nat \<Rightarrow> string \<Rightarrow> bigint option" where
  "from_hex INTS c =
     (let len = length c; level = len div 8; first = len mod 8 in
      if level > INTS \<or> (first > 0 \<and> level \<ge> INTS) then None
      else Some (replicate (INTS - level - of_bool (first > 0)) 0 @
        (if first > 0 then [hex_word (take first c)] else []) @ hex_words level (drop first c)))"

definition rshift_32 :: "bigint \<Rightarrow> bigint" where
  "rshift_32 data = take (length data) (0 # data)"

fun div_loop :: "uint64 \<Rightarrow> uint64 \<Rightarrow> bigint \<Rightarrow> bigint" where
  "div_loop d temp2 [] = []"
| "div_loop d temp2 (x # data) =
     (let temp1 = push_bit 32 temp2 + ucast x in ucast (temp1 div d) # div_loop d (temp1 mod d) data)"

definition div_3_18 :: "bigint \<Rightarrow> bigint" where
  "div_3_18 data = div_loop 387420489 0 data"

definition div_3 :: "bigint \<Rightarrow> bigint" where
  "div_3 data = div_loop 3 0 data"

fun mul_2 :: "bigint \<Rightarrow> bigint" where
  "mul_2 [] = []"
| "mul_2 [x] = [push_bit 1 x]"
| "mul_2 (x # y # data) =
     ucast (drop_bit 31 (and (ucast y) 4294967295 :: uint64) + push_bit 1 (ucast x)) # mul_2 (y # data)"

fun mul_3 :: "bigint \<Rightarrow> bigint" where
  "mul_3 [] = []"
| "mul_3 [x] = [ucast (and (ucast x * 3 :: uint64) 4294967295)]"
| "mul_3 (x # y # data) =
     ucast (drop_bit 32 (ucast y * 3 :: uint64) + and (ucast x * 3) 4294967295) # mul_3 (y # data)"

text \<open>\<open>2 ^ (32 i) mod (2 * 3 ^ 19)\<close>.\<close>

definition mul_num :: "uint64 list" where
  "mul_num = [1, 1970444362, 1644176284, 848770120, 475253032,
     468402244, 1309631158, 1742236222, 569278114, 2119856536,
     199572574, 112215616, 2150738470, 1699047148, 1138432246,
     344572318, 1173799390, 1485158506, 1162871614, 1183015876]"

definition mod_2_33_3_19 :: "bigint \<Rightarrow> uint64" where
  "mod_2_33_3_19 data =
     (let a = rshift_32 data;
          ret = foldl (\<lambda>ret i. ret + ucast (a ! i) * mul_num ! (length data - 1 - i) mod 2324522934) 0 [1..<length data];
          ret = ret mod 2324522934
      in push_bit 32 ret + ucast (data ! (length data - 1)))"

definition iszero :: "bigint \<Rightarrow> bool" where
  "iszero data = (foldl or 0 data = 0)"

fun big_ge :: "bigint \<Rightarrow> bigint \<Rightarrow> bool" where
  "big_ge (a # as) (b # bs) = (if a < b then False else if a > b then True else big_ge as bs)"
| "big_ge as bs = True"

text \<open>The borrows of \<open>operator-\<close>, from the last word up; the test for 4294967295 is left out at the
  last word. Here the words are in the order the loop visits them.\<close>

fun minus_borrows :: "bool \<Rightarrow> bool \<Rightarrow> uint32 list \<Rightarrow> uint32 list \<Rightarrow> uint32 list" where
  "minus_borrows low bin (a # as) (b # bs) =
     (let r = (if bin then a - 1 else a) in
      r # minus_borrows False (r < b \<or> (\<not> low \<and> r = 4294967295)) as bs)"
| "minus_borrows low bin as bs = []"

definition big_minus :: "bigint \<Rightarrow> bigint \<Rightarrow> bigint" where
  "big_minus a b = rev (map2 (-) (minus_borrows True False (rev a) (rev b)) (rev b))"

section \<open>Values\<close>

fun big_val :: "bigint \<Rightarrow> int" where
  "big_val [] = 0"
| "big_val (x # data) = uint x * 2 ^ (32 * length data) + big_val data"

lemma uint32_bounds: "0 \<le> uint (x :: uint32)" "uint (x :: uint32) < 4294967296"
  using uint_lt2p [of x] by simp_all

lemma big_val_ge_0 [simp]: "0 \<le> big_val data"
  by (induction data) simp_all

lemma digit_bound: "0 < K \<Longrightarrow> u < M \<Longrightarrow> v < K \<Longrightarrow> u * K + v < M * (K :: int)"
proof -
  assume a: "0 < K" "u < M" "v < K"
  then have "(u + 1) * K \<le> M * K" by (intro mult_right_mono) simp_all
  with a show ?thesis by (simp add: distrib_right)
qed

lemma big_val_lt: "big_val data < 2 ^ (32 * length data)"
proof (induction data)
  case (Cons x data)
  have "2 ^ (32 * length (x # data)) = (4294967296 :: int) * 2 ^ (32 * length data)" by (simp add: power_add)
  then show ?case using digit_bound [OF _ uint32_bounds(2) Cons, of x] by simp
qed simp

lemma big_val_append: "big_val (xs @ ys) = big_val xs * 2 ^ (32 * length ys) + big_val ys"
  by (induction xs) (simp_all add: algebra_simps power_add)

lemma big_val_replicate [simp]: "big_val (replicate n 0) = 0"
  by (induction n) simp_all

lemma big_val_zero: "big_val data = 0 \<longleftrightarrow> (\<forall>x \<in> set data. x = 0)"
proof (induction data)
  case (Cons x data)
  have "0 \<le> uint x * 2 ^ (32 * length data)" by simp
  then have "big_val (x # data) = 0 \<longleftrightarrow> uint x * 2 ^ (32 * length data) = 0 \<and> big_val data = 0"
    using big_val_ge_0 [of data] by (simp only: big_val.simps) linarith
  with Cons show ?case by (simp add: uint_0_iff)
qed simp

lemma length_ops [simp]:
  "length (rshift_32 data) = length data" "length (div_loop d r data) = length data"
  "length (div_3 data) = length data" "length (div_3_18 data) = length data"
  "length (mul_2 data) = length data" "length (mul_3 data) = length data"
proof -
  show d: "length (div_loop d r data) = length data" for d r
    by (induction data arbitrary: r) (simp_all add: Let_def)
  show "length (rshift_32 data) = length data" by (simp add: rshift_32_def)
  show "length (div_3 data) = length data" "length (div_3_18 data) = length data"
    by (simp_all add: div_3_def div_3_18_def d)
  show "length (mul_2 data) = length data" by (induction data rule: mul_2.induct) simp_all
  show "length (mul_3 data) = length data" by (induction data rule: mul_3.induct) simp_all
qed

lemma iszero_val: "iszero data \<longleftrightarrow> big_val data = 0"
proof -
  have "foldl or (a :: uint32) data = 0 \<longleftrightarrow> a = 0 \<and> (\<forall>x \<in> set data. x = 0)" for a
    by (induction data arbitrary: a) (auto simp: or_eq_0_iff)
  then show ?thesis by (simp add: iszero_def big_val_zero)
qed

lemma big_ge_val: "length as = length bs \<Longrightarrow> big_ge as bs \<longleftrightarrow> big_val as \<ge> big_val bs"
proof (induction as bs rule: list_induct2)
  case (Cons a as b bs)
  let ?B = "2 ^ (32 * length as) :: int"
  have bound: "big_val as < ?B" "big_val bs < ?B" using big_val_lt [of as] big_val_lt [of bs] Cons.hyps by simp_all
  have less: "uint x * ?B + u < uint y * ?B + v" if "x < y" "u < ?B" "0 \<le> v" for x y :: uint32 and u v
  proof -
    have "uint x + 1 \<le> uint y" using that(1) by (simp add: word_less_def)
    then have "(uint x + 1) * ?B \<le> uint y * ?B" by (intro mult_right_mono) simp_all
    with that show ?thesis by (simp add: distrib_right)
  qed
  consider "a < b" | "b < a" | "a = b" by (meson linorder_less_linear)
  then show ?case
  proof cases
    case 1
    then show ?thesis using less [OF 1 bound(1), of "big_val bs"] Cons.hyps by simp
  next
    case 2
    then show ?thesis using less [OF 2 bound(2), of "big_val as"] Cons.hyps by (simp add: order_less_imp_le)
  next
    case 3
    then show ?thesis using Cons by simp
  qed
qed simp

section \<open>Correctness\<close>

lemma rshift_32_val: "big_val (rshift_32 data) = big_val data div 2 ^ 32"
proof (cases data rule: rev_cases)
  case (snoc ys y)
  then have "rshift_32 data = 0 # ys" by (simp add: rshift_32_def)
  moreover have "big_val data = big_val ys * 2 ^ 32 + uint y" using snoc by (simp add: big_val_append)
  ultimately show ?thesis using uint32_bounds [of y] by simp
qed (simp add: rshift_32_def)

lemma uint_wide: "uint (ucast (x :: uint32) :: uint64) = uint x"
  by (simp add: uint_up_ucast is_up_def source_size_def target_size_def word_size)

lemma uint_narrow: "uint (ucast (x :: uint64) :: uint32) = uint x mod 4294967296"
  by (simp add: unsigned_ucast_eq take_bit_eq_mod)

lemma uint_temp1:
  fixes r :: uint64 and x :: uint32
  assumes "uint r < 4294967296"
  shows "uint (push_bit 32 r + ucast x) = uint r * 4294967296 + uint x"
proof -
  have "uint (push_bit 32 r) = uint r * 4294967296"
    using assms uint_ge_0 [of r] by (subst unsigned_push_bit_eq) (simp add: take_bit_eq_mod push_bit_eq_mult)
  moreover have "uint r * 4294967296 + uint x < 2 ^ 64" using assms uint32_bounds [of x] by simp
  ultimately show ?thesis by (simp add: uint_word_ariths uint_wide mod_pos_pos_trivial)
qed

lemma mod_div_scale: "a mod d * K + a div d * (d * K) = a * (K :: int)"
proof -
  have "(a mod d + a div d * d) * K = a * K" by (simp only: mod_div_mult_eq)
  then show ?thesis by (simp only: distrib_right mult.assoc)
qed

lemma div_bound: "0 < d \<Longrightarrow> t < d * m \<Longrightarrow> t div d < (m :: int)"
proof (rule ccontr)
  assume a: "0 < d" "t < d * m" "\<not> t div d < m"
  then have "d * m \<le> d * (t div d)" by simp
  moreover have "d * (t div d) \<le> t" using mult_div_mod_eq [of d t] pos_mod_sign [OF a(1), of t] by linarith
  ultimately show False using a(2) by simp
qed

lemma div_loop_val:
  assumes d: "0 < uint d" "uint d \<le> 4294967296"
  shows "uint r < uint d \<Longrightarrow>
    big_val (div_loop d r data) = (uint r * 2 ^ (32 * length data) + big_val data) div uint d"
proof (induction data arbitrary: r)
  case Nil
  then show ?case by (simp add: div_pos_pos_trivial)
next
  case (Cons x data)
  define t where "t = push_bit 32 r + ucast x"
  let ?K = "2 ^ (32 * length data) :: int"
  have t: "uint t = uint r * 4294967296 + uint x" unfolding t_def using Cons.prems d(2) by (intro uint_temp1) simp
  have "uint r + 1 \<le> uint d" using Cons.prems by simp
  then have "(uint r + 1) * 4294967296 \<le> uint d * 4294967296" by (intro mult_right_mono) simp_all
  then have "uint t < uint d * 4294967296" using t uint32_bounds [of x] by simp
  then have "uint t div uint d < 4294967296" by (rule div_bound [OF d(1)])
  moreover have "0 \<le> uint t div uint d" using d(1) by (simp add: pos_imp_zdiv_nonneg_iff)
  ultimately have q: "uint (ucast (t div d) :: uint32) = uint t div uint d"
    by (simp add: uint_narrow uint_div_distrib)
  have r: "uint (t mod d) = uint t mod uint d" by (simp add: uint_mod_distrib)
  have IH: "big_val (div_loop d (t mod d) data) = (uint t mod uint d * ?K + big_val data) div uint d"
    using Cons.IH [of "t mod d"] d(1) unfolding r by simp
  have "uint t * ?K + big_val data = (uint t mod uint d * ?K + big_val data) + uint d * (uint t div uint d * ?K)"
    using mod_div_scale [of "uint t" "uint d" ?K] by (simp add: mult.left_commute)
  moreover have q2: "((uint t mod uint d * ?K + big_val data) + uint d * (uint t div uint d * ?K)) div uint d =
      uint t div uint d * ?K + (uint t mod uint d * ?K + big_val data) div uint d"
    using d(1) by (intro div_mult_self2) simp
  moreover have "uint r * 2 ^ (32 * length (x # data)) + big_val (x # data) = uint t * ?K + big_val data"
    by (simp add: t power_add algebra_simps)
  ultimately have "(uint r * 2 ^ (32 * length (x # data)) + big_val (x # data)) div uint d =
      uint t div uint d * ?K + (uint t mod uint d * ?K + big_val data) div uint d" by (simp only:)
  then show ?case using IH by (simp only: div_loop.simps Let_def t_def [symmetric] big_val.simps q length_ops)
qed

lemma div_3_18_val: "big_val (div_3_18 data) = big_val data div 3 ^ 18"
  using div_loop_val [of 387420489 0 data] by (simp add: div_3_18_def)

lemma div_3_val: "big_val (div_3 data) = big_val data div 3"
  using div_loop_val [of 3 0 data] by (simp add: div_3_def)

text \<open>A word of a product by 2 or 3: the low half of its own product and the high half of the next.\<close>

lemma uint_and_mask: "uint (and (x :: uint64) 4294967295) = uint x mod 4294967296"
proof -
  have "and x 4294967295 = take_bit 32 x" by (simp add: take_bit_eq_mask mask_eq_exp_minus_1)
  then show ?thesis by (simp add: unsigned_take_bit_eq) (simp add: take_bit_eq_mod)
qed

lemma uint_drop_bit: "uint (drop_bit n (x :: uint64)) = uint x div 2 ^ n"
  using uint_lt2p [of x] by (subst unsigned_drop_bit_eq) (simp add: drop_bit_eq_div take_bit_int_eq_self)

lemma uint_times_3: "uint (ucast (x :: uint32) * 3 :: uint64) = uint x * 3"
  using uint32_bounds [of x] by (simp add: uint_word_ariths uint_wide mod_pos_pos_trivial)

lemma uint_times_2: "uint (push_bit 1 (ucast (x :: uint32)) :: uint64) = uint x * 2"
  using uint32_bounds [of x]
  by (subst unsigned_push_bit_eq) (simp add: take_bit_eq_mod push_bit_eq_mult uint_wide mod_pos_pos_trivial)

lemma mul_2_word:
  "uint (ucast (drop_bit 31 (and (ucast y) 4294967295 :: uint64) + push_bit 1 (ucast x)) :: uint32) =
     uint (x :: uint32) * 2 mod 4294967296 + uint (y :: uint32) * 2 div 4294967296"
proof -
  define h where "h = uint y * 2 div 4294967296"
  have "uint y div 2147483648 = h" by (simp add: h_def)
  moreover have "uint (drop_bit 31 (and (ucast y) 4294967295 :: uint64)) = uint y div 2147483648"
    using uint32_bounds [of y] unfolding uint_drop_bit uint_and_mask uint_wide by (simp add: mod_pos_pos_trivial)
  ultimately have h: "uint (drop_bit 31 (and (ucast y) 4294967295 :: uint64)) = h" by simp
  have b: "0 \<le> h" "h \<le> 1" using uint32_bounds [of y] by (auto simp: h_def pos_imp_zdiv_nonneg_iff)
  have "uint (drop_bit 31 (and (ucast y) 4294967295 :: uint64) + push_bit 1 (ucast x)) = (h + uint x * 2) mod 2 ^ 64"
    unfolding uint_word_ariths(1) h uint_times_2 by simp
  also have "\<dots> = h + uint x * 2" using b uint32_bounds [of x] by (intro mod_pos_pos_trivial) simp_all
  finally have s: "uint (ucast (drop_bit 31 (and (ucast y) 4294967295 :: uint64) + push_bit 1 (ucast x)) :: uint32) =
      (h + uint x * 2) mod 4294967296" by (simp only: uint_narrow)
  define l where "l = uint x * 2 mod 4294967296"
  have "even l" unfolding l_def by (simp add: dvd_mod_iff)
  moreover have "0 \<le> l" "l < 4294967296" by (simp_all add: l_def)
  ultimately have "l \<le> 4294967294" by presburger
  then have "(h + l) mod 4294967296 = h + l" using b \<open>0 \<le> l\<close> by (intro mod_pos_pos_trivial) simp_all
  moreover have "(h + uint x * 2) mod 4294967296 = (h + l) mod 4294967296" by (simp add: l_def mod_simps)
  ultimately show ?thesis using s by (simp add: l_def h_def)
qed

lemma mul_3_word:
  "uint (ucast (drop_bit 32 (ucast y * 3 :: uint64) + and (ucast x * 3) 4294967295) :: uint32) =
     (uint (x :: uint32) * 3 mod 4294967296 + uint (y :: uint32) * 3 div 4294967296) mod 4294967296"
proof -
  have b: "0 \<le> uint y * 3 div 4294967296" "uint y * 3 div 4294967296 \<le> 2"
    using uint32_bounds [of y] by (auto simp: pos_imp_zdiv_nonneg_iff)
  have "uint (drop_bit 32 (ucast y * 3 :: uint64) + and (ucast x * 3) 4294967295) =
      (uint y * 3 div 4294967296 + uint x * 3 mod 4294967296) mod 2 ^ 64"
    unfolding uint_word_ariths(1) uint_drop_bit uint_and_mask uint_times_3 by simp
  also have "\<dots> = uint x * 3 mod 4294967296 + uint y * 3 div 4294967296"
    using b pos_mod_bound [of 4294967296 "uint x * 3"] by (subst mod_pos_pos_trivial) auto
  finally show ?thesis by (simp only: uint_narrow)
qed

text \<open>Doubling is exact up to the word that is shifted out.\<close>

lemma mul_2_val: "big_val (mul_2 (x # data)) + uint x * 2 div 4294967296 * 2 ^ (32 * length (x # data)) = 2 * big_val (x # data)"
proof (induction data arbitrary: x)
  case Nil
  have "uint (push_bit 1 x) = uint x * 2 mod 4294967296"
    by (subst unsigned_push_bit_eq) (simp add: take_bit_eq_mod push_bit_eq_mult)
  moreover have "uint x * 2 mod 4294967296 + uint x * 2 div 4294967296 * 4294967296 = uint x * 2" by (rule mod_div_mult_eq)
  ultimately show ?case by (simp only: mul_2.simps big_val.simps) simp
next
  case (Cons y data)
  let ?K = "2 ^ (32 * length (y # data)) :: int"
  have e: "2 ^ (32 * length (x # y # data)) = 4294967296 * ?K" by (simp add: power_add)
  have "uint x * 2 mod 4294967296 * ?K + uint x * 2 div 4294967296 * (4294967296 * ?K) = uint x * 2 * ?K" by (rule mod_div_scale)
  with Cons [of y] show ?case
    unfolding mul_2.simps big_val.simps(2) [of "ucast _"] big_val.simps(2) [of x] mul_2_word length_ops e by (simp only: distrib_right distrib_left)
qed

text \<open>Tripling drops a carry where the low half of a word's product and the high half of the next do
  not fit together.\<close>

fun no_lost_carry :: "bigint \<Rightarrow> bool" where
  "no_lost_carry (x # y # data) \<longleftrightarrow>
     uint x * 3 mod 4294967296 + uint y * 3 div 4294967296 < 4294967296 \<and> no_lost_carry (y # data)"
| "no_lost_carry data \<longleftrightarrow> True"

lemma mul_3_val:
  "no_lost_carry (x # data) \<Longrightarrow>
    big_val (mul_3 (x # data)) + uint x * 3 div 4294967296 * 2 ^ (32 * length (x # data)) = 3 * big_val (x # data)"
proof (induction data arbitrary: x)
  case Nil
  have "uint x * 3 mod 4294967296 + uint x * 3 div 4294967296 * 4294967296 = uint x * 3" by (rule mod_div_mult_eq)
  moreover have "uint (ucast (and (ucast x * 3 :: uint64) 4294967295) :: uint32) = uint x * 3 mod 4294967296"
    unfolding uint_narrow uint_and_mask uint_times_3 by simp
  ultimately show ?case by (simp only: mul_3.simps big_val.simps) simp
next
  case (Cons y data)
  let ?K = "2 ^ (32 * length (y # data)) :: int"
  have e: "2 ^ (32 * length (x # y # data)) = 4294967296 * ?K" by (simp add: power_add)
  have s: "uint x * 3 mod 4294967296 * ?K + uint x * 3 div 4294967296 * (4294967296 * ?K) = uint x * 3 * ?K" by (rule mod_div_scale)
  have IH: "big_val (mul_3 (y # data)) + uint y * 3 div 4294967296 * ?K = 3 * big_val (y # data)"
    using Cons.IH [of y] Cons.prems by simp
  have "0 \<le> uint y * 3 div 4294967296" by (simp add: pos_imp_zdiv_nonneg_iff)
  then have w: "uint (ucast (drop_bit 32 (ucast y * 3 :: uint64) + and (ucast x * 3) 4294967295) :: uint32) =
      uint x * 3 mod 4294967296 + uint y * 3 div 4294967296"
    using Cons.prems unfolding mul_3_word by (subst mod_pos_pos_trivial) simp_all
  from s IH show ?case
    unfolding mul_3.simps big_val.simps(2) [of "ucast _"] big_val.simps(2) [of x] w length_ops e
    by (simp only: distrib_right distrib_left)
qed

lemma carry_out_zero:
  assumes "b + c * K = v" "v < (K :: int)" "0 \<le> b" "0 \<le> c" "0 < K"
  shows "b = v"
proof -
  have "c * K < 1 * K" using assms by linarith
  then have "c < 1" using assms(5) by simp
  then have "c = 0" using assms(4) by simp
  then show ?thesis using assms(1) by simp
qed

lemma mul_2_exact: "2 * big_val data < 2 ^ (32 * length data) \<Longrightarrow> big_val (mul_2 data) = 2 * big_val data"
proof (cases data)
  case (Cons x xs)
  assume "2 * big_val data < 2 ^ (32 * length data)"
  then show ?thesis unfolding Cons
    by (intro carry_out_zero [OF mul_2_val]) (simp_all add: pos_imp_zdiv_nonneg_iff del: big_val.simps)
qed simp

lemma mul_3_exact: "no_lost_carry data \<Longrightarrow> 3 * big_val data < 2 ^ (32 * length data) \<Longrightarrow> big_val (mul_3 data) = 3 * big_val data"
proof (cases data)
  case (Cons x xs)
  assume "no_lost_carry data" "3 * big_val data < 2 ^ (32 * length data)"
  then show ?thesis unfolding Cons
    by (intro carry_out_zero [OF mul_3_val]) (simp_all add: pos_imp_zdiv_nonneg_iff del: big_val.simps mul_3.simps)
qed simp

text \<open>The residue: the terms are reduced one by one, so their sum does not overflow.\<close>

lemma mul_num_power: "k < 20 \<Longrightarrow> uint (mul_num ! k) = 2 ^ (32 * k) mod 2324522934"
proof -
  have "\<forall>k \<in> set [0..<20]. uint (mul_num ! k) = 2 ^ (32 * k) mod 2324522934" by code_simp
  moreover assume "k < 20"
  then have "k \<in> set [0..<20]" by simp
  ultimately show ?thesis by blast
qed

lemma residue_term:
  assumes "k < 20"
  shows "uint (ucast (x :: uint32) * mul_num ! k mod 2324522934) = uint x * 2 ^ (32 * k) mod 2324522934"
proof -
  let ?m = "2324522934 :: int"
  define c where "c = (2 :: int) ^ (32 * k) mod ?m"
  have c: "0 \<le> c" "c < ?m" by (simp_all add: c_def)
  have "uint x * c \<le> 4294967295 * c" using uint32_bounds [of x] c by (intro mult_right_mono) simp_all
  then have "uint x * c < 2 ^ 64" using c by simp
  moreover have "0 \<le> uint x * c" using c by simp
  ultimately have "uint (ucast x * mul_num ! k) = uint x * c"
    unfolding uint_word_ariths(3) mul_num_power [OF assms] uint_wide c_def [symmetric] by (intro mod_pos_pos_trivial) simp_all
  then show ?thesis by (simp add: uint_mod_distrib c_def mod_mult_right_eq)
qed

lemma residue_sum:
  assumes "length (xs @ ys) \<le> 20" "uint r + int (length ys) * 2324522934 < 2 ^ 64"
  shows "uint (foldl (\<lambda>ret i. ret + ucast ((xs @ ys) ! i) * mul_num ! (length (xs @ ys) - 1 - i) mod 2324522934) r
      [length xs..<length (xs @ ys)]) mod 2324522934 = (uint r + big_val ys) mod 2324522934"
  using assms
proof (induction ys arbitrary: xs r)
  case (Cons y ys)
  let ?m = "2324522934 :: int"
  define r' where "r' = r + ucast y * mul_num ! length ys mod 2324522934"
  have k: "length ys < 20" using Cons.prems(1) by simp
  have t: "0 \<le> uint y * 2 ^ (32 * length ys) mod ?m" "uint y * 2 ^ (32 * length ys) mod ?m < ?m" by simp_all
  have r': "uint r' = uint r + uint y * 2 ^ (32 * length ys) mod ?m"
    unfolding r'_def uint_word_ariths(1) residue_term [OF k]
    using t Cons.prems(2) uint_ge_0 [of r] by (intro mod_pos_pos_trivial) simp_all
  have idx: "length (xs @ y # ys) - 1 - length xs = length ys" by simp
  have len: "[length xs..<length (xs @ y # ys)] = length xs # [length (xs @ [y])..<length ((xs @ [y]) @ ys)]"
    by (subst upt_conv_Cons) simp_all
  have app: "xs @ y # ys = (xs @ [y]) @ ys" by simp
  have "uint (foldl (\<lambda>ret i. ret + ucast ((xs @ y # ys) ! i) * mul_num ! (length (xs @ y # ys) - 1 - i) mod 2324522934) r
      [length xs..<length (xs @ y # ys)]) mod ?m = (uint r' + big_val ys) mod ?m"
    unfolding len foldl.simps(2) idx nth_append_length r'_def [symmetric]
    unfolding app by (rule Cons.IH) (use Cons.prems r' t in auto)
  also have "(uint r' + big_val ys) mod ?m = (uint r + big_val (y # ys)) mod ?m"
    unfolding r' big_val.simps using mod_add_left_eq [of "uint y * 2 ^ (32 * length ys)" ?m "uint r + big_val ys"]
    by (simp only: ac_simps)
  finally show ?case .
qed simp

lemma mod_2_33_3_19_val:
  assumes "0 < length data" "length data \<le> 20"
  shows "uint (mod_2_33_3_19 data) = big_val data mod (2 ^ 33 * 3 ^ 19)"
proof -
  let ?m = "2324522934 :: int"
  obtain ys y where d: "data = ys @ [y]" using assms(1) by (cases data rule: rev_cases) auto
  have a: "rshift_32 data = [0] @ ys" by (simp add: rshift_32_def d)
  define ret where "ret = foldl (\<lambda>ret i. ret + ucast (([0] @ ys) ! i) * mul_num ! (length ([0 :: uint32] @ ys) - 1 - i) mod 2324522934) 0
    [length [0 :: uint32]..<length ([0 :: uint32] @ ys)]"
  have "uint ret mod ?m = (uint (0 :: uint64) + big_val ys) mod ?m"
    unfolding ret_def by (rule residue_sum) (use assms(2) d in auto)
  then have r: "uint (ret mod 2324522934) = big_val ys mod ?m" by (simp add: uint_mod_distrib)
  have m: "mod_2_33_3_19 data = push_bit 32 (ret mod 2324522934) + ucast y"
    unfolding mod_2_33_3_19_def a Let_def ret_def by (simp add: d nth_append)
  have "uint (ret mod 2324522934) < 4294967296" unfolding r using pos_mod_bound [of ?m "big_val ys"] by linarith
  from uint_temp1 [OF this] have "uint (mod_2_33_3_19 data) = big_val ys mod ?m * 4294967296 + uint y" unfolding m r .
  also have "\<dots> = (big_val ys * 4294967296 + uint y) mod (4294967296 * ?m)"
  proof -
    have "(big_val ys * 4294967296 + uint y) div 4294967296 = big_val ys"
      "(big_val ys * 4294967296 + uint y) mod 4294967296 = uint y" using uint32_bounds [of y] by simp_all
    then show ?thesis using zmod_zmult2_eq [of ?m "big_val ys * 4294967296 + uint y" 4294967296] by (simp only: mult.commute)
  qed
  finally show ?thesis by (simp add: d big_val_append)
qed

text \<open>Subtraction is exact modulo the width unless a middle word of the minuend is 4294967295: the code
  takes such a word for the trace of a borrow.\<close>

lemma minus_borrows_val:
  "length as = length bs \<Longrightarrow> (\<not> low \<longrightarrow> 4294967295 \<notin> set (butlast as)) \<Longrightarrow> (low \<longrightarrow> 4294967295 \<notin> set (butlast (tl as)) \<and> \<not> bin) \<Longrightarrow>
    (big_val (rev (map2 (-) (minus_borrows low bin as bs) bs)) - (big_val (rev as) - big_val (rev bs) - of_bool bin))
      mod 2 ^ (32 * length as) = 0"
proof (induction as bs arbitrary: low bin rule: list_induct2)
  case (Cons a as b bs)
  define r where "r = (if bin then a - 1 else a)"
  define br where "br \<longleftrightarrow> r < b \<or> (\<not> low \<and> r = 4294967295)"
  have big: "2 ^ (32 * length (a # as)) = (4294967296 :: int) * 2 ^ (32 * length as)" by (simp add: power_add)
  let ?R = "big_val (rev (map2 (-) (minus_borrows False br as bs) bs))"
  have rv: "big_val (rev (map2 (-) (minus_borrows low bin (a # as) (b # bs)) (b # bs))) = ?R * 4294967296 + uint (r - b)"
    by (simp add: r_def [symmetric] br_def [symmetric] Let_def big_val_append)
  show ?case
  proof (cases "as = []")
    case True
    then have "uint (r - b) mod 4294967296 = (uint a - uint b - of_bool bin) mod 4294967296"
      by (simp add: r_def uint_word_ariths mod_simps algebra_simps)
    then have "(uint (r - b) - (uint a - uint b - of_bool bin)) mod 4294967296 = 0"
      by (metis mod_eq_dvd_iff mod_eq_0_iff_dvd)
    then show ?thesis using True Cons.hyps rv by simp
  next
    case False
    have mx: "a \<noteq> 4294967295" if "\<not> low" using Cons.prems(1) that False by auto
    have br: "br \<longleftrightarrow> uint a - uint b - of_bool bin < 0"
    proof (cases bin)
      case True
      then have low: "\<not> low" using Cons.prems(2) by auto
      show ?thesis
      proof (cases "a = 0")
        case a: True
        have "- 1 < uint b" using uint_ge_0 [of b] by linarith
        then show ?thesis using True low a by (simp add: br_def r_def)
      next
        case a: False
        then have "1 \<le> uint a" using uint_ge_0 [of a] by (simp add: uint_0_iff order_less_le int_one_le_iff_zero_less)
        then have "uint (a - 1) = uint a - 1" using uint32_bounds [of a]
          unfolding uint_word_ariths(2) by (simp add: mod_pos_pos_trivial)
        moreover have "uint a - 1 < 4294967295" using uint32_bounds [of a] by simp
        moreover have "uint (4294967295 :: uint32) = 4294967295" by simp
        ultimately have "a - 1 \<noteq> 4294967295" by (metis less_irrefl)
        then show ?thesis using True \<open>uint (a - 1) = uint a - 1\<close> by (auto simp: br_def r_def word_less_def)
      qed
    next
      case False
      then show ?thesis using mx by (auto simp: br_def r_def word_less_def)
    qed
    have u: "uint (r - b) = uint a - uint b - of_bool bin + of_bool br * 4294967296"
    proof -
      have "uint (r - b) = (uint a - uint b - of_bool bin) mod 4294967296"
        by (simp add: r_def uint_word_ariths mod_simps algebra_simps)
      also have "\<dots> = (uint a - uint b - of_bool bin + of_bool br * 4294967296) mod 4294967296" by simp
      also have "\<dots> = uint a - uint b - of_bool bin + of_bool br * 4294967296"
      proof -
        define x where "x = uint a - uint b - of_bool bin"
        have "0 \<le> (of_bool bin :: int)" "(of_bool bin :: int) \<le> 1" by simp_all
        then have "- 4294967296 \<le> x" "x < 4294967296"
          using uint32_bounds [of a] uint32_bounds [of b] unfolding x_def by linarith+
        moreover have "br \<longleftrightarrow> x < 0" using br by (simp only: x_def)
        ultimately have "0 \<le> x + of_bool br * 4294967296" "x + of_bool br * 4294967296 < 4294967296" by (cases br; simp)+
        then show ?thesis unfolding x_def by (rule mod_pos_pos_trivial)
      qed
      finally show ?thesis .
    qed
    have "(?R - (big_val (rev as) - big_val (rev bs) - of_bool br)) mod 2 ^ (32 * length as) = 0"
    proof (rule Cons.IH)
      show "\<not> False \<longrightarrow> 4294967295 \<notin> set (butlast as)"
        using Cons.prems False by (cases low) (auto dest: in_set_butlastD)
    qed simp
    then have m: "4294967296 * (?R - (big_val (rev as) - big_val (rev bs) - of_bool br)) mod 2 ^ (32 * length (a # as)) = 0"
      unfolding big mult_mod_right [symmetric] by simp
    have v: "big_val (rev (a # as)) = big_val (rev as) * 4294967296 + uint a"
      "big_val (rev (b # bs)) = big_val (rev bs) * 4294967296 + uint b" by (simp_all add: big_val_append)
    have "?R * 4294967296 + uint (r - b) - (big_val (rev (a # as)) - big_val (rev (b # bs)) - of_bool bin) =
        4294967296 * (?R - (big_val (rev as) - big_val (rev bs) - of_bool br))"
      unfolding u v by (simp only: algebra_simps)
    with m show ?thesis unfolding rv by (simp only:)
  qed
qed simp

lemma length_minus_borrows [simp]: "length as = length bs \<Longrightarrow> length (minus_borrows low bin as bs) = length bs"
  by (induction as bs arbitrary: low bin rule: list_induct2) (simp_all add: Let_def)

lemma big_minus_exact:
  assumes len: "length a = length b" and mid: "4294967295 \<notin> set (butlast (tl a))" and ge: "big_val b \<le> big_val a"
  shows "big_val (big_minus a b) = big_val a - big_val b" "length (big_minus a b) = length a"
proof -
  show l: "length (big_minus a b) = length a" using len by (simp add: big_minus_def)
  have "set (butlast (tl (rev a))) = set (butlast (tl a))"
  proof -
    have "tl (rev a) = rev (butlast a)" by (metis butlast_rev rev_rev_ident)
    then have "butlast (tl (rev a)) = rev (tl (butlast a))" by (simp add: butlast_rev)
    then show ?thesis by (metis butlast_tl set_rev)
  qed
  then have "(big_val (big_minus a b) - (big_val a - big_val b)) mod 2 ^ (32 * length a) = 0"
    using minus_borrows_val [of "rev a" "rev b" True False] len mid by (simp add: big_minus_def)
  then have "big_val (big_minus a b) mod 2 ^ (32 * length a) = (big_val a - big_val b) mod 2 ^ (32 * length a)"
    by (metis mod_eq_dvd_iff mod_eq_0_iff_dvd)
  moreover have "big_val (big_minus a b) < 2 ^ (32 * length a)" using big_val_lt [of "big_minus a b"] l by simp
  moreover have "big_val a - big_val b < 2 ^ (32 * length a)" using big_val_lt [of a] big_val_ge_0 [of b] by linarith
  ultimately show "big_val (big_minus a b) = big_val a - big_val b" using ge by (simp add: mod_pos_pos_trivial)
qed

text \<open>The hexadecimal constructor.\<close>

definition hex_ok :: "char \<Rightarrow> bool" where
  "hex_ok c \<longleftrightarrow> (let x = of_char c :: int in 48 \<le> x \<and> x \<le> 57 \<or> 65 \<le> x \<and> x \<le> 70 \<or> 97 \<le> x \<and> x \<le> 102)"

definition hex_val :: "string \<Rightarrow> int" where
  "hex_val cs = foldl (\<lambda>v c. v * 16 + uint (hex_digit c)) 0 cs"

lemma hex_digit_bound: "hex_ok c \<Longrightarrow> uint (hex_digit c) < 16"
proof -
  let ?x = "of_char c :: int"
  have small: "0 \<le> y \<Longrightarrow> y < 16 \<Longrightarrow> uint (word_of_int y :: uint32) < 16" for y
    by (simp add: uint_word_of_int mod_pos_pos_trivial)
  assume "hex_ok c"
  then consider "48 \<le> ?x" "?x \<le> 57" | "65 \<le> ?x" "?x \<le> 70" | "97 \<le> ?x" "?x \<le> 102" by (auto simp: hex_ok_def Let_def)
  then show ?thesis
  proof cases
    case 1
    then have "hex_digit c = word_of_int (?x - 48)" by (simp only: hex_digit_def Let_def if_True)
    then show ?thesis using small [of "?x - 48"] 1 by (simp only:)
  next
    case 2
    then have "\<not> ?x \<le> 57" by linarith
    with 2(2) have "hex_digit c = word_of_int (?x - 65 + 10)" by (simp only: hex_digit_def Let_def if_True if_False)
    then show ?thesis using small [of "?x - 65 + 10"] 2 by (simp only:)
  next
    case 3
    then have "\<not> ?x \<le> 57" "\<not> ?x \<le> 70" by linarith+
    then have "hex_digit c = word_of_int (?x - 97 + 10)" by (simp only: hex_digit_def Let_def if_False)
    then show ?thesis using small [of "?x - 97 + 10"] 3 by (simp only:)
  qed
qed

lemma hex_val_from: "foldl (\<lambda>v c. v * 16 + uint (hex_digit c)) a cs = a * 16 ^ length cs + hex_val cs"
proof (induction cs arbitrary: a)
  case (Cons c cs)
  have "hex_val (c # cs) = uint (hex_digit c) * 16 ^ length cs + hex_val cs"
    using Cons.IH [of "uint (hex_digit c)"] by (simp add: hex_val_def)
  then show ?case using Cons.IH [of "a * 16 + uint (hex_digit c)"] by (simp add: algebra_simps)
qed (simp add: hex_val_def)

lemma hex_val_append: "hex_val (cs @ ds) = hex_val cs * 16 ^ length ds + hex_val ds"
  using hex_val_from [of "hex_val cs" ds] by (simp add: hex_val_def)

lemma hex_val_bounds: "list_all hex_ok cs \<Longrightarrow> 0 \<le> hex_val cs \<and> hex_val cs < 16 ^ length cs"
proof (induction cs rule: rev_induct)
  case (snoc c cs)
  then have b: "hex_val cs < 16 ^ length cs" "0 \<le> hex_val cs" "uint (hex_digit c) < 16" by (auto simp: hex_digit_bound)
  have "hex_val (cs @ [c]) = hex_val cs * 16 + uint (hex_digit c)" by (simp add: hex_val_append) (simp add: hex_val_def)
  with digit_bound [OF _ b(1) b(3)] b show ?case by (simp add: mult.commute)
qed (simp add: hex_val_def)

lemma hex_word_val: "list_all hex_ok cs \<Longrightarrow> length cs \<le> 8 \<Longrightarrow> uint (hex_word cs) = hex_val cs"
proof (induction cs rule: rev_induct)
  case (snoc c cs)
  have IH: "uint (hex_word cs) = hex_val cs" using snoc by simp
  have v: "hex_val (cs @ [c]) = hex_val cs * 16 + uint (hex_digit c)" by (simp add: hex_val_append) (simp add: hex_val_def)
  have b: "0 \<le> hex_val cs" "hex_val cs < 16 ^ length cs" "hex_val (cs @ [c]) < 16 ^ length (cs @ [c])"
    using hex_val_bounds [of cs] hex_val_bounds [of "cs @ [c]"] snoc.prems(1) by auto
  have "(16 :: int) ^ length (cs @ [c]) \<le> 16 ^ 8" using snoc.prems(2) by (intro power_increasing) auto
  with b(3) have lt: "hex_val cs * 16 + uint (hex_digit c) < 4294967296" unfolding v by simp
  then have "0 \<le> hex_val cs * 16" "hex_val cs * 16 < 4294967296" using b(1) uint_ge_0 [of "hex_digit c"] by linarith+
  then have "uint (push_bit 4 (hex_word cs)) = hex_val cs * 16"
    using IH by (subst unsigned_push_bit_eq) (simp add: take_bit_eq_mod push_bit_eq_mult mod_pos_pos_trivial)
  moreover have w: "hex_word (cs @ [c]) = push_bit 4 (hex_word cs) + hex_digit c" by (simp add: hex_word_def)
  ultimately show ?case unfolding v w uint_word_ariths(1) using lt b(1) uint_ge_0 [of "hex_digit c"] by (simp add: mod_pos_pos_trivial)
qed (simp add: hex_word_def hex_val_def)

lemma hex_words_val:
  "list_all hex_ok cs \<Longrightarrow> length cs = 8 * k \<Longrightarrow> big_val (hex_words k cs) = hex_val cs \<and> length (hex_words k cs) = k"
proof (induction k arbitrary: cs)
  case (Suc k)
  have "list_all hex_ok (take 8 cs)" "list_all hex_ok (drop 8 cs)"
    using Suc.prems(1) by (auto simp: list_all_iff dest: in_set_takeD in_set_dropD)
  moreover have "hex_val cs = hex_val (take 8 cs) * 16 ^ length (drop 8 cs) + hex_val (drop 8 cs)"
    using hex_val_append [of "take 8 cs" "drop 8 cs"] by simp
  moreover have "(16 :: int) ^ (8 * k) = 2 ^ (32 * k)" by (simp add: power_mult)
  ultimately show ?case using Suc.IH [of "drop 8 cs"] Suc.prems(2) hex_word_val [of "take 8 cs"] by simp
qed (simp add: hex_val_def)

lemma from_hex_val:
  assumes ok: "list_all hex_ok cs" and len: "length cs \<le> 8 * INTS"
  obtains data where "from_hex INTS cs = Some data" "big_val data = hex_val cs" "length data = INTS"
proof -
  define level where "level = length cs div 8"
  define first where "first = length cs mod 8"
  have fl: "length cs = first + 8 * level" by (simp add: level_def first_def)
  have f8: "first < 8" by (simp add: first_def)
  have le: "level \<le> INTS" "first > 0 \<Longrightarrow> level < INTS" using len fl by auto
  have oks: "list_all hex_ok (take first cs)" "list_all hex_ok (drop first cs)"
    using ok by (auto simp: list_all_iff dest: in_set_takeD in_set_dropD)
  have w: "big_val (hex_words level (drop first cs)) = hex_val (drop first cs)" "length (hex_words level (drop first cs)) = level"
    using hex_words_val [OF oks(2), of level] fl by auto
  have v: "hex_val cs = hex_val (take first cs) * 16 ^ (8 * level) + hex_val (drop first cs)"
    using hex_val_append [of "take first cs" "drop first cs"] fl by simp
  have p: "(16 :: int) ^ (8 * level) = 2 ^ (32 * level)" by (simp add: power_mult)
  define data where "data = replicate (INTS - level - of_bool (first > 0)) 0 @
        (if first > 0 then [hex_word (take first cs)] else []) @ hex_words level (drop first cs)"
  have "from_hex INTS cs = Some data"
    using le by (auto simp: from_hex_def Let_def data_def level_def [symmetric] first_def [symmetric])
  moreover have "length data = INTS" using le w(2) by (auto simp: data_def)
  moreover have "big_val data = hex_val cs"
  proof (cases "first > 0")
    case True
    then show ?thesis using w v p hex_word_val [OF oks(1)] fl f8 by (simp add: data_def big_val_append)
  next
    case False
    then show ?thesis using w v by (simp add: data_def big_val_append hex_val_def)
  qed
  ultimately show thesis using that by blast
qed

text \<open>Both conditions are needed: here the code loses a carry and takes a word for a borrow.\<close>

lemma mul_3_lost: "big_val (mul_3 [0, 1431655766, 1431655765, 1431655766]) \<noteq> 3 * big_val [0, 1431655766, 1431655765, 1431655766]"
  by code_simp

lemma big_minus_wrong: "big_val (big_minus [1, 4294967295, 1] [0, 1, 0]) \<noteq> big_val [1, 4294967295, 1] - big_val [0, 1, 0]"
  by code_simp

end
