(* ===== verification/Dbc_Chain.thy ===== *)
theory Dbc_Chain
  imports Dbc_BigInt
begin

text \<open>
  The chain nodes of \<open>src/DBCTest/DBC.h\<close> and the minima of \<open>functions.h\<close>. An \<open>optimal_DBC\<close> is one node
  of a chain: its last term \<open>addNode\<close> and a pointer \<open>parent\<close> to the node of the other terms, which is a
  cell of one of the tables \<open>w\<close> and \<open>w_\<close>. A node is copied by value, its parent is not; so the chain of
  a node is what the tables hold when it is read. \<open>now_DBC\<close> is the buffer a chain is written out to.
\<close>

section \<open>The code\<close>

record chain =
  dbl :: int
  tpl :: int
  minus :: bool

text \<open>\<open>w(dbl, tri)\<close> or \<open>w_(dbl, tri)\<close>; an index may be \<open>-1\<close>.\<close>

datatype cell_ref = W int int | W_neg int int

record optimal_DBC =
  isNULL :: bool
  isBasic :: bool
  len :: int
  addNode :: chain
  basic_value :: int
  parent :: "cell_ref option"

definition DBL_COST :: int where "DBL_COST = 70"
definition ADD_COST :: int where "ADD_COST = 150"
definition TPL_COST :: int where "TPL_COST = 126"

text \<open>The exponents are stored as unsigned short.\<close>

definition setdata :: "int \<Rightarrow> int \<Rightarrow> bool \<Rightarrow> chain" where
  "setdata d t m = \<lparr>dbl = d mod 65536, tpl = t mod 65536, minus = m\<rparr>"

definition new_DBC :: optimal_DBC where
  "new_DBC = \<lparr>isNULL = False, isBasic = False, len = 0, addNode = setdata 0 0 False, basic_value = 0, parent = None\<rparr>"

definition setNULL :: "optimal_DBC \<Rightarrow> optimal_DBC" where
  "setNULL c = c\<lparr>isNULL := True, len := 0\<rparr>"

definition getL :: "optimal_DBC \<Rightarrow> int" where
  "getL c = (if isNULL c then 99999999 else len c)"

definition getV :: "optimal_DBC \<Rightarrow> int" where
  "getV c =
     (if isBasic c then basic_value c
      else if isNULL c then 99999999
      else DBL_COST * dbl (addNode c) + TPL_COST * tpl (addNode c) + ADD_COST * (len c - 1))"

text \<open>\<open>this\<close> is the cell \<open>c\<close> lies in.\<close>

definition add_DBC :: "optimal_DBC \<Rightarrow> cell_ref \<Rightarrow> int \<Rightarrow> int \<Rightarrow> int \<Rightarrow> optimal_DBC" where
  "add_DBC c this d t coef =
     (if isNULL c then c
      else new_DBC\<lparr>parent := Some this, addNode := setdata d t (coef \<noteq> 1), len := len c + 1\<rparr>)"

definition minL2 :: "optimal_DBC \<Rightarrow> optimal_DBC \<Rightarrow> optimal_DBC" where
  "minL2 a b = (if getL a < getL b then a else b)"

definition minL :: "optimal_DBC \<Rightarrow> optimal_DBC \<Rightarrow> optimal_DBC \<Rightarrow> optimal_DBC" where
  "minL a b c =
     (let temp1 = getL a; temp2 = getL b; temp3 = getL c in
      if temp1 < temp2 then (if temp1 < temp3 then a else c)
      else (if temp2 < temp3 then b else c))"

definition minV2 :: "optimal_DBC \<Rightarrow> optimal_DBC \<Rightarrow> optimal_DBC" where
  "minV2 a b = (if getV a < getV b then a else b)"

definition minV :: "optimal_DBC \<Rightarrow> optimal_DBC \<Rightarrow> optimal_DBC \<Rightarrow> optimal_DBC" where
  "minV a b c =
     (let temp1 = getV a; temp2 = getV b; temp3 = getV c in
      if temp1 < temp2 then (if temp1 < temp3 then a else c)
      else (if temp2 < temp3 then b else c))"

text \<open>Assigning the integer \<open>n\<close>. The loop over its bits never changes \<open>n\<close>.\<close>

partial_function (option) assign_int_loop :: "int \<Rightarrow> int \<Rightarrow> nat \<Rightarrow> (nat \<Rightarrow> chain) \<Rightarrow> (nat \<times> (nat \<Rightarrow> chain)) option" where
  "assign_int_loop n i flag now_DBC =
     (if n > 0 then
        (if and n 1 = 1 then assign_int_loop n (i + 1) (flag + 1) (now_DBC(flag := setdata i 0 False))
         else assign_int_loop n (i + 1) flag now_DBC)
      else Some (flag, now_DBC))"

definition assign_int :: "optimal_DBC \<Rightarrow> int \<Rightarrow> (nat \<Rightarrow> chain) \<Rightarrow> (optimal_DBC \<times> (nat \<Rightarrow> chain)) option" where
  "assign_int c n now_DBC =
     (if n = 0 then Some (c\<lparr>isNULL := False, len := 0, isBasic := True\<rparr>, now_DBC)
      else do {
        (flag, now_DBC) \<leftarrow> assign_int_loop n 0 0 now_DBC;
        (if flag = 0 then None
         else Some (c\<lparr>len := int flag, basic_value := dbl (now_DBC (flag - 1)) * DBL_COST + ADD_COST * (int flag - 1),
           isBasic := True\<rparr>, now_DBC))
      })"

text \<open>Assigning a \<open>myBigInt\<close>: its set bits, the least significant word first. \<open>None\<close> is the read of
  \<open>now_DBC[-1]\<close> for zero.\<close>

fun assign_bits :: "uint32 \<Rightarrow> nat list \<Rightarrow> nat \<Rightarrow> nat \<Rightarrow> (nat \<Rightarrow> chain) \<Rightarrow> (nat \<times> nat \<times> (nat \<Rightarrow> chain))" where
  "assign_bits x [] flag bt now_DBC = (flag, bt, now_DBC)"
| "assign_bits x (j # js) flag bt now_DBC =
     (if and x (push_bit j 1) \<noteq> 0
      then assign_bits x js (flag + 1) (bt + 1) (now_DBC(flag := setdata (int bt) 0 False))
      else assign_bits x js flag (bt + 1) now_DBC)"

fun assign_words :: "uint32 list \<Rightarrow> nat \<Rightarrow> nat \<Rightarrow> (nat \<Rightarrow> chain) \<Rightarrow> (nat \<times> nat \<times> (nat \<Rightarrow> chain))" where
  "assign_words [] flag bt now_DBC = (flag, bt, now_DBC)"
| "assign_words (x # xs) flag bt now_DBC =
     (let (flag, bt, now_DBC) = assign_bits x [0..<32] flag bt now_DBC in assign_words xs flag bt now_DBC)"

definition assign_big :: "optimal_DBC \<Rightarrow> bigint \<Rightarrow> (nat \<Rightarrow> chain) \<Rightarrow> (optimal_DBC \<times> (nat \<Rightarrow> chain)) option" where
  "assign_big c n now_DBC =
     (let (flag, bt, now_DBC) = assign_words (rev n) 0 0 now_DBC in
      if flag = 0 then None
      else Some (c\<lparr>len := int flag, basic_value := dbl (now_DBC (flag - 1)) * DBL_COST + ADD_COST * (int flag - 1),
        isBasic := True\<rparr>, now_DBC))"

text \<open>Writing out a chain, along the parents. \<open>None\<close> is a null pointer.\<close>

fun sim_loop :: "(cell_ref \<Rightarrow> optimal_DBC) \<Rightarrow> nat \<Rightarrow> optimal_DBC option \<Rightarrow> (nat \<Rightarrow> chain) \<Rightarrow> (nat \<Rightarrow> chain) option" where
  "sim_loop tables 0 present now_DBC = Some now_DBC"
| "sim_loop tables (Suc i) None now_DBC = None"
| "sim_loop tables (Suc i) (Some present) now_DBC =
     sim_loop tables i (map_option tables (parent present)) (now_DBC(i := addNode present))"

definition simDBC :: "(cell_ref \<Rightarrow> optimal_DBC) \<Rightarrow> optimal_DBC \<Rightarrow> (nat \<Rightarrow> chain) \<Rightarrow> (nat \<Rightarrow> chain) option" where
  "simDBC tables c now_DBC = (if isBasic c then Some now_DBC else sim_loop tables (nat (len c)) (Some c) now_DBC)"

end
