(* ===== verification/Dbc_Search.thy ===== *)
theory Dbc_Search
  imports Dbc_Chain "HOL-Library.Signed_Division"
begin

text \<open>
  The search of \<open>src/DBCTest/optimal_DBC.cpp\<close> for a shortest double-base chain, with the tables that
  \<open>init\<close> of \<open>variables.cpp\<close> prepares. \<open>w(b, t)\<close> is a chain for \<open>n mod 2 ^ b 3 ^ t\<close> and \<open>w_(b, t)\<close> one for
  this residue minus \<open>2 ^ b 3 ^ t\<close>. The cells are filled in blocks of 32 by 18, because the digit of \<open>n\<close>
  that selects the case is read from a 64-bit residue per block. The two logarithms, which the code
  computes in floating point and truncates, are arguments (\<open>log2B\<close>, \<open>log3B\<close>).
\<close>

section \<open>Tables of powers\<close>

definition MAX_2 :: "nat \<Rightarrow> nat" where "MAX_2 INTS = 32 * INTS"

text \<open>\<open>int(20.19 * INTS)\<close>\<close>

definition MAX_3 :: "nat \<Rightarrow> nat" where "MAX_3 INTS = 2019 * INTS div 100"

primrec pow2_all :: "nat \<Rightarrow> nat \<Rightarrow> bigint" where
  "pow2_all INTS 0 = replicate (INTS - 1) 0 @ [1]"
| "pow2_all INTS (Suc i) = mul_2 (pow2_all INTS i)"

text \<open>The row stops where \<open>i + j * log2(3)\<close> exceeds \<open>MAX_2\<close>; later entries stay zero.\<close>

primrec pow23_all :: "nat \<Rightarrow> nat \<Rightarrow> nat \<Rightarrow> bigint" where
  "pow23_all INTS i 0 = pow2_all INTS i"
| "pow23_all INTS i (Suc j) =
     (if Suc j < MAX_3 INTS \<and> 2 ^ i * 3 ^ Suc j \<le> (2 :: int) ^ MAX_2 INTS then mul_3 (pow23_all INTS i j)
      else replicate INTS 0)"

primrec pow2 :: "nat \<Rightarrow> uint64" where
  "pow2 0 = 1"
| "pow2 (Suc i) = pow2 i * 2"

primrec pow3 :: "nat \<Rightarrow> uint64" where
  "pow3 0 = 1"
| "pow3 (Suc i) = pow3 i * 3"

definition pow23_1 :: "nat \<Rightarrow> nat \<Rightarrow> uint64" where
  "pow23_1 i j = pow2 i * pow3 j"

section \<open>State\<close>

text \<open>The globals: the two tables, the best node so far, the buffer, the bounds, the stored chain.\<close>

record search_state =
  w :: "int \<times> int \<Rightarrow> optimal_DBC"
  w_neg :: "int \<times> int \<Rightarrow> optimal_DBC"
  w_min :: optimal_DBC
  now_DBC :: "nat \<Rightarrow> chain"
  bBound :: "nat \<Rightarrow> int"
  DBC_store :: "nat \<Rightarrow> nat \<Rightarrow> int \<times> int \<times> int"
  DBC_len :: "nat \<Rightarrow> int"

fun tables :: "search_state \<Rightarrow> cell_ref \<Rightarrow> optimal_DBC" where
  "tables st (W b t) = w st (b, t)"
| "tables st (W_neg b t) = w_neg st (b, t)"

text \<open>The part of \<open>init\<close> that prepares the tables.\<close>

definition init_tables :: "nat \<Rightarrow> search_state \<Rightarrow> search_state option" where
  "init_tables INTS st = do {
     (c, now) \<leftarrow> assign_int (w st (0, 0)) 0 (now_DBC st);
     let st = st\<lparr>w := (w st)((0, 0) := c), now_DBC := now\<rparr>;
     let st = st\<lparr>w_neg := (w_neg st)((0, 0) := setNULL (w_neg st (0, 0)))\<rparr>;
     let st = fold (\<lambda>i st. st\<lparr>w := (w st)((int i, - 1) := setNULL (w st (int i, - 1))),
         w_neg := (w_neg st)((int i, - 1) := setNULL (w_neg st (int i, - 1)))\<rparr>) [0..<MAX_2 INTS] st;
     Some (fold (\<lambda>j st. st\<lparr>w := (w st)((- 1, int j) := setNULL (w st (- 1, int j))),
         w_neg := (w_neg st)((- 1, int j) := setNULL (w_neg st (- 1, int j)))\<rparr>) [0..<MAX_3 INTS] st)
   }"

section \<open>The search\<close>

text \<open>The bounds: the largest exponent of 2 for every exponent of 3. The inner loop counts \<open>i\<close> down to
  the first power that is not above \<open>B\<close>; \<open>None\<close> is that it ran below 0.\<close>

fun bound_down :: "nat \<Rightarrow> bigint \<Rightarrow> nat \<Rightarrow> nat \<Rightarrow> nat option" where
  "bound_down INTS B t i =
     (if big_ge B (pow23_all INTS i t) then Some i
      else case i of 0 \<Rightarrow> None | Suc i \<Rightarrow> bound_down INTS B t i)"

declare bound_down.simps [simp del]

fun bound_loop :: "nat \<Rightarrow> bigint \<Rightarrow> nat list \<Rightarrow> int \<Rightarrow> (nat \<Rightarrow> int) \<Rightarrow> (nat \<Rightarrow> int)" where
  "bound_loop INTS B [] i bd = bd"
| "bound_loop INTS B (t # ts) i bd =
     (if i < 0 then bound_loop INTS B ts (i - 1) bd
      else case bound_down INTS B t (nat i) of
        None \<Rightarrow> bound_loop INTS B ts (- 2) bd
      | Some k \<Rightarrow> bound_loop INTS B ts (int k - 1) (bd(t := int k)))"

text \<open>The recurrences: the new \<open>w(b, t)\<close> and \<open>w_(b, t)\<close> from the cells to the left and below.\<close>

definition cell_step :: "uint64 \<Rightarrow> int \<Rightarrow> int \<Rightarrow> optimal_DBC \<times> optimal_DBC \<Rightarrow> optimal_DBC \<times> optimal_DBC \<Rightarrow>
    optimal_DBC \<times> optimal_DBC" where
  "cell_step quot b t l d =
     (let wl = fst l; nl = snd l; wd = fst d; nd = snd d in
      if quot < 2 then
        (minL wl wd (add_DBC nd (W_neg b (t - 1)) b (t - 1) 1),
         add_DBC nl (W_neg (b - 1) t) (b - 1) t (- 1))
      else if quot = 2 then
        (minL wl (add_DBC nl (W_neg (b - 1) t) (b - 1) t 1) (add_DBC wd (W b (t - 1)) b (t - 1) 1),
         add_DBC nl (W_neg (b - 1) t) (b - 1) t (- 1))
      else if quot = 3 then
        (add_DBC wl (W (b - 1) t) (b - 1) t 1,
         minL (add_DBC wl (W (b - 1) t) (b - 1) t (- 1)) nl (add_DBC nd (W_neg b (t - 1)) b (t - 1) (- 1)))
      else
        (add_DBC wl (W (b - 1) t) (b - 1) t 1,
         minL nl (add_DBC wd (W b (t - 1)) b (t - 1) (- 1)) nd))"

definition set_cell :: "uint64 \<Rightarrow> int \<Rightarrow> int \<Rightarrow> search_state \<Rightarrow> search_state" where
  "set_cell quot b t st =
     (let c = cell_step quot b t (w st (b - 1, t), w_neg st (b - 1, t)) (w st (b, t - 1), w_neg st (b, t - 1))
      in st\<lparr>w := (w st)((b, t) := fst c), w_neg := (w_neg st)((b, t) := snd c)\<rparr>)"

definition set_min :: "nat \<Rightarrow> bigint \<Rightarrow> int \<Rightarrow> int \<Rightarrow> search_state \<Rightarrow> search_state" where
  "set_min INTS n b t st =
     (if big_ge n (pow23_all INTS (nat b) (nat t))
      then st\<lparr>w_min := minV2 (add_DBC (w st (b, t)) (W b t) b t 1) (w_min st)\<rparr>
      else st\<lparr>w_min := minV (w st (b, t)) (add_DBC (w_neg st (b, t)) (W_neg b t) b t 1) (w_min st)\<rparr>)"

text \<open>The body of the innermost loop, for the cell \<open>(b, t)\<close> at \<open>(i_inner, j_inner)\<close> of its block.\<close>

definition search_cell :: "nat \<Rightarrow> bigint \<Rightarrow> uint64 \<Rightarrow> nat \<Rightarrow> nat \<Rightarrow> nat \<Rightarrow> nat \<Rightarrow> search_state \<Rightarrow> search_state" where
  "search_cell INTS n n0 j_outer i_outer j_inner i_inner st =
     (let t = j_outer * 18 + j_inner;
          b = i_outer * 32 + i_inner;
          st = (if b + t > 0 \<and> int b \<le> bBound st t
            then set_cell (n0 div pow23_1 i_inner j_inner mod 6) (int b) (int t) st else st)
      in if int b = bBound st t then set_min INTS n (int b) (int t) st else st)"

text \<open>The loops; a \<open>break\<close> on the loop variable leaves the rest of the range.\<close>

definition search_row :: "nat \<Rightarrow> bigint \<Rightarrow> int \<Rightarrow> uint64 \<Rightarrow> nat \<Rightarrow> nat \<Rightarrow> nat \<Rightarrow> search_state \<Rightarrow> search_state" where
  "search_row INTS n log2B n0 j_outer i_outer j_inner st =
     fold (search_cell INTS n n0 j_outer i_outer j_inner)
       (takeWhile (\<lambda>i_inner. \<not> int (i_outer * 32 + i_inner) > log2B) [0..<32]) st"

definition search_block :: "nat \<Rightarrow> bigint \<Rightarrow> int \<Rightarrow> int \<Rightarrow> nat \<Rightarrow> nat \<Rightarrow> bigint \<times> search_state \<Rightarrow> bigint \<times> search_state" where
  "search_block INTS n log2B log3B j_outer i_outer ts =
     (let temp_outer = fst ts; n0 = mod_2_33_3_19 temp_outer in
      (rshift_32 temp_outer,
       fold (search_row INTS n log2B n0 j_outer i_outer)
         (takeWhile (\<lambda>j_inner. \<not> int (j_outer * 18 + j_inner) > log3B) [0..<18]) (snd ts)))"

definition search_band :: "nat \<Rightarrow> bigint \<Rightarrow> int \<Rightarrow> int \<Rightarrow> nat \<Rightarrow> bigint \<times> search_state \<Rightarrow> bigint \<times> search_state" where
  "search_band INTS n log2B log3B j_outer rs =
     (div_3_18 (fst rs),
      snd (fold (search_block INTS n log2B log3B j_outer)
        [0..<nat (bBound (snd rs) (j_outer * 18) sdiv 32 + 2)] (fst rs, snd rs)))"

text \<open>The chain in the buffer, stored with the leading term first.\<close>

definition store_chain :: "search_state \<Rightarrow> search_state" where
  "store_chain st =
     (let l = nat (len (w_min st)) in
      st\<lparr>DBC_store := (DBC_store st)(0 := fold (\<lambda>i row. row(l - i - 1 :=
             (1 - 2 * of_bool (minus (now_DBC st i)), dbl (now_DBC st i), tpl (now_DBC st i)))) [0..<l] (DBC_store st 0)),
         DBC_len := (DBC_len st)(0 := len (w_min st))\<rparr>)"

definition getOptimalDBC :: "nat \<Rightarrow> bigint \<Rightarrow> int \<Rightarrow> int \<Rightarrow> search_state \<Rightarrow> (nat \<times> search_state) option" where
  "getOptimalDBC INTS n log2B log3B st = do {
     (c, now) \<leftarrow> assign_big (w_min st) n (now_DBC st);
     let st = st\<lparr>w_min := c, now_DBC := now\<rparr>;
     let B = mul_2 n;
     let six_n = mul_3 B;
     let st = st\<lparr>bBound := bound_loop INTS B [1..<nat (log3B + 1)] log2B ((bBound st)(0 := log2B))\<rparr>;
     let st = snd (fold (search_band INTS n log2B log3B) [0..<nat (log3B sdiv 18 + 2)] (six_n, st));
     now \<leftarrow> simDBC (tables st) (w_min st) (now_DBC st);
     Some (0, store_chain (st\<lparr>now_DBC := now\<rparr>))
   }"

end
