(* ===== verification/Dbc_Greedy.thy ===== *)
theory Dbc_Greedy
  imports Dbc_Search
begin

text \<open>
  The greedy searches of \<open>src/DBCTest/EOS_DBC.cpp\<close> and \<open>subOptimal_DBC.cpp\<close>. Both start from powers
  \<open>2 ^ a 3 ^ b\<close> near the number and take away, again and again, the nearest power whose exponents do not
  rise; they differ in the powers they start from, in how far \<open>b\<close> may fall in a step and in when they stop.
  The choices are made in floating point. The operations on doubles are the fields of \<open>F\<close>: addition,
  subtraction, multiplication, division, absolute value, logarithm, comparison, a decimal literal with so
  many digits after the point, conversion from an integer and truncation to one. The chain is a row of
  \<open>DBC_store\<close>, one of two; the end of a row is not modelled.
\<close>

section \<open>Doubles\<close>

record 'd floats =
  f_add :: "'d \<Rightarrow> 'd \<Rightarrow> 'd"
  f_sub :: "'d \<Rightarrow> 'd \<Rightarrow> 'd"
  f_mul :: "'d \<Rightarrow> 'd \<Rightarrow> 'd"
  f_div :: "'d \<Rightarrow> 'd \<Rightarrow> 'd"
  f_abs :: "'d \<Rightarrow> 'd"
  f_log :: "'d \<Rightarrow> 'd"
  f_le :: "'d \<Rightarrow> 'd \<Rightarrow> bool"
  f_lit :: "int \<Rightarrow> nat \<Rightarrow> 'd"
  f_int :: "int \<Rightarrow> 'd"
  f_trunc :: "'d \<Rightarrow> int"

definition to_double :: "'d floats \<Rightarrow> bigint \<Rightarrow> 'd" where
  "to_double F data =
     foldl (\<lambda>ret x. f_add F (f_mul F ret (f_int F 4294967296)) (f_int F (uint x))) (f_int F 0) data"

definition d_pow23_all :: "'d floats \<Rightarrow> nat \<Rightarrow> int \<Rightarrow> int \<Rightarrow> 'd" where
  "d_pow23_all F INTS i j = to_double F (pow23_all INTS (nat i) (nat j))"

section \<open>One step\<close>

text \<open>\<open>fabs(dbl_t - d_pow23_all[i][j]) <= fabs(d_pow23_all[k][l] - dbl_t)\<close>\<close>

definition nearer :: "'d floats \<Rightarrow> nat \<Rightarrow> 'd \<Rightarrow> int \<times> int \<Rightarrow> int \<times> int \<Rightarrow> bool" where
  "nearer F INTS dbl_t p q =
     f_le F (f_abs F (f_sub F dbl_t (d_pow23_all F INTS (fst p) (snd p))))
       (f_abs F (f_sub F (d_pow23_all F INTS (fst q) (snd q)) dbl_t))"

text \<open>The exponent of 2 to go with \<open>j\<close>; \<open>None\<close> is a read before the table.\<close>

definition alpha_at :: "'d floats \<Rightarrow> nat \<Rightarrow> int \<Rightarrow> 'd \<Rightarrow> 'd \<Rightarrow> 'd \<Rightarrow> int \<Rightarrow> int option" where
  "alpha_at F INTS a dbl_t logt log3 j =
     (if f_le F dbl_t (d_pow23_all F INTS 0 j) then Some 0
      else let k_j = f_trunc F (f_sub F logt (f_mul F (f_int F j) log3)) in
        if k_j \<ge> a then Some a
        else if k_j < 0 then None
        else if nearer F INTS dbl_t (k_j, j) (k_j + 1, j) then Some k_j
        else Some (k_j + 1))"

fun choose_loop :: "'d floats \<Rightarrow> nat \<Rightarrow> int \<Rightarrow> 'd \<Rightarrow> 'd \<Rightarrow> 'd \<Rightarrow> int list \<Rightarrow> int \<times> int \<Rightarrow> (int \<times> int) option" where
  "choose_loop F INTS a dbl_t logt log3 [] best = Some best"
| "choose_loop F INTS a dbl_t logt log3 (j # js) best = do {
     alpha_j \<leftarrow> alpha_at F INTS a dbl_t logt log3 j;
     choose_loop F INTS a dbl_t logt log3 js
       (if nearer F INTS dbl_t (alpha_j, j) best then (alpha_j, j) else best)
   }"

definition choose_power :: "'d floats \<Rightarrow> nat \<Rightarrow> int \<Rightarrow> bigint \<Rightarrow> int \<Rightarrow> int \<Rightarrow> (int \<times> int) option" where
  "choose_power F INTS window t a b =
     (let dbl_t = to_double F t;
          logt = f_div F (f_log F dbl_t) (f_log F (f_int F 2));
          log3 = f_div F (f_log F (f_int F 3)) (f_log F (f_int F 2))
      in choose_loop F INTS a dbl_t logt log3 (rev [max 0 (b - window)..b]) (a, b))"

text \<open>The loop until nothing is left: \<open>i\<close> terms are in the row, \<open>s\<close> is the sign of what is left.\<close>

partial_function (option) greedy_loop ::
  "'d floats \<Rightarrow> nat \<Rightarrow> int \<Rightarrow> bigint \<Rightarrow> int \<Rightarrow> int \<Rightarrow> int \<Rightarrow> nat \<Rightarrow> (nat \<Rightarrow> int \<times> int \<times> int) \<Rightarrow>
    (nat \<times> (nat \<Rightarrow> int \<times> int \<times> int)) option" where
  "greedy_loop F INTS window t a b s i row =
     (if iszero t then Some (i, row)
      else do {
        (alpha, beta) \<leftarrow> choose_power F INTS window t a b;
        let p = pow23_all INTS (nat alpha) (nat beta);
        (if big_ge t p
         then greedy_loop F INTS window (big_minus t p) alpha beta s (Suc i) (row(i := (s, alpha, beta)))
         else greedy_loop F INTS window (big_minus p t) alpha beta (- s) (Suc i) (row(i := (s, alpha, beta))))
      })"

section \<open>The searches\<close>

definition chain_cost :: "search_state \<Rightarrow> nat \<Rightarrow> int" where
  "chain_cost st k = (case DBC_store st k 0 of (_, d, t) \<Rightarrow> DBC_len st k * 150 + d * 70 + t * 126)"

text \<open>The chain that starts at \<open>2 ^ a 3 ^ b\<close> replaces the dearer of the two rows; the result is the row
  to replace next.\<close>

definition greedy_start :: "'d floats \<Rightarrow> nat \<Rightarrow> int \<Rightarrow> bigint \<Rightarrow> int \<Rightarrow> int \<Rightarrow> nat \<times> search_state \<Rightarrow>
    (nat \<times> search_state) option" where
  "greedy_start F INTS window n a b DBC = (case DBC of (DBC_index, st) \<Rightarrow> do {
     (i, row) \<leftarrow> greedy_loop F INTS window n a b 1 0 (DBC_store st DBC_index);
     let st = st\<lparr>DBC_store := (DBC_store st)(DBC_index := row), DBC_len := (DBC_len st)(DBC_index := int i)\<rparr>;
     Some (if chain_cost st 0 < chain_cost st 1 then 1 else 0, st)
   })"

definition LBound :: "'d floats \<Rightarrow> nat \<Rightarrow> bigint \<Rightarrow> int \<Rightarrow> int" where
  "LBound F INTS n b =
     (let B1 = f_mul F (f_lit F 9091372900969896 16) (to_double F n) in
      f_trunc F (f_add F (f_div F (f_log F (f_div F B1 (d_pow23_all F INTS 0 b))) (f_log F (f_int F 2))) (f_int F 1)))"

definition RBound :: "'d floats \<Rightarrow> nat \<Rightarrow> bigint \<Rightarrow> int \<Rightarrow> int" where
  "RBound F INTS n b =
     (let B2 = f_mul F (f_lit F 10774960475223583 16) (to_double F n) in
      f_trunc F (f_div F (f_log F (f_div F B2 (d_pow23_all F INTS 0 b))) (f_log F (f_int F 2))))"

primrec eos_loop :: "'d floats \<Rightarrow> nat \<Rightarrow> bigint \<Rightarrow> int list \<Rightarrow> nat \<times> search_state \<Rightarrow> (nat \<times> search_state) option" where
  "eos_loop F INTS n [] DBC = Some DBC"
| "eos_loop F INTS n (b # bs) DBC =
     (let L = LBound F INTS n b; R = RBound F INTS n b in
      if L < 0 \<or> R < 0 then Some DBC
      else if L = R then do {
        DBC \<leftarrow> greedy_start F INTS 4 n R b DBC;
        eos_loop F INTS n bs DBC
      }
      else eos_loop F INTS n bs DBC)"

definition getEOSDBC :: "'d floats \<Rightarrow> nat \<Rightarrow> bigint \<Rightarrow> search_state \<Rightarrow> (nat \<times> search_state) option" where
  "getEOSDBC F INTS n st = do {
     let st = st\<lparr>DBC_len := (DBC_len st)(1 := 1048576)\<rparr>;
     (DBC_index, st) \<leftarrow> eos_loop F INTS n [0..int (MAX_3 INTS) - 1] (0, st);
     Some (1 - DBC_index, st)
   }"

text \<open>The exponents of 3 that the second search tries, in this order, for the four curves of \<open>myBigInt.h\<close>.\<close>

definition b_try :: "nat \<Rightarrow> int list" where
  "b_try INTS =
     (if INTS = 5 then
       [35, 36, 34, 37, 33, 38, 32, 39, 31, 30, 40, 29, 41, 28, 42, 27, 26, 43, 25, 24, 44, 23, 22, 45, 21, 20,
        46, 19, 18, 47, 17, 16, 48, 15, 14, 49, 13, 12, 50, 11, 10, 51, 9, 8, 52, 7, 6, 5, 53, 4, 3, 54, 2, 1,
        55, 0, 56, 57, 58, 59, 60, 61, 62, 63, 64, 65, 66, 67, 68, 69, 70, 71, 72, 73, 74, 75, 76, 77, 78, 79,
        80, 81]
      else if INTS = 9 then
       [72, 73, 71, 74, 70, 75, 69, 68, 76, 67, 77, 66, 78, 65, 79, 64, 63, 80, 62, 81, 61, 60, 82, 59, 83, 58,
        57, 84, 56, 55, 85, 54, 53, 86, 52, 51, 87, 50, 49, 88, 48, 47, 89, 46, 45, 90, 44, 43, 91, 42, 41, 92,
        40, 39, 38, 93, 37, 36, 94, 35, 34, 95, 33, 32, 96, 31, 30, 29, 97, 28, 27, 98, 26, 25, 99, 24, 23,
        100, 22, 21, 20, 101, 19, 18, 102, 17, 16, 103, 15, 14, 104, 13, 12, 11, 105, 10, 9, 106, 8, 7]
      else if INTS = 13 then
       [109, 110, 108, 111, 107, 106, 112, 105, 113, 104, 114, 103, 115, 102, 116, 101, 117, 100, 99, 118, 98,
        119, 97, 120, 96, 95, 121, 94, 122, 93, 92, 123, 91, 124, 90, 89, 125, 88, 87, 126, 86, 85, 127, 84,
        83, 128, 82, 81, 129, 80, 79, 130, 78, 77, 131, 76, 75, 132, 74, 73, 133, 72, 71, 70, 134, 69, 68, 135,
        67, 66, 136, 65, 64, 63, 137, 62, 61, 138, 60, 59, 139, 58, 57, 140, 56, 55, 54, 141, 53, 52, 142, 51,
        50, 49, 143, 48, 47, 144, 46, 45]
      else
       [146, 147, 145, 148, 144, 149, 143, 150, 142, 151, 141, 152, 140, 153, 139, 154, 138, 137, 155, 136,
        156, 135, 157, 134, 133, 158, 132, 159, 131, 160, 130, 129, 161, 128, 162, 127, 126, 163, 125, 124,
        164, 123, 122, 165, 121, 166, 120, 119, 167, 118, 117, 168, 116, 115, 169, 114, 113, 170, 112, 111,
        110, 171, 109, 108, 172, 107, 106, 173, 105, 104, 103, 174, 102, 101, 175, 100, 99, 176, 98, 97, 177,
        96, 95, 94, 178, 93, 92, 179, 91, 90, 180, 89, 88, 181, 87, 86, 85, 182, 84, 83])"

primrec sub_optimal_loop :: "'d floats \<Rightarrow> nat \<Rightarrow> bigint \<Rightarrow> int \<Rightarrow> int \<Rightarrow> int list \<Rightarrow> nat \<times> search_state \<Rightarrow>
    (nat \<times> search_state) option" where
  "sub_optimal_loop F INTS n dbc_coef count_DBC [] DBC = Some DBC"
| "sub_optimal_loop F INTS n dbc_coef count_DBC (b # bs) DBC =
     (let L = LBound F INTS n b; R = RBound F INTS n b in
      if L < 0 \<or> R < 0 then Some DBC
      else if L = R then do {
        DBC \<leftarrow> greedy_start F INTS 6 n R b DBC;
        (let count_DBC = count_DBC + 1 in
         if count_DBC > dbc_coef then Some DBC else sub_optimal_loop F INTS n dbc_coef count_DBC bs DBC)
      }
      else sub_optimal_loop F INTS n dbc_coef count_DBC bs DBC)"

definition getSubOptimalDBC :: "'d floats \<Rightarrow> nat \<Rightarrow> bigint \<Rightarrow> int \<Rightarrow> search_state \<Rightarrow> (nat \<times> search_state) option" where
  "getSubOptimalDBC F INTS n dbc_coef st = do {
     let st = st\<lparr>DBC_len := (DBC_len st)(1 := 1048576)\<rparr>;
     (DBC_index, st) \<leftarrow> sub_optimal_loop F INTS n dbc_coef 0 (b_try INTS) (0, st);
     Some (1 - DBC_index, st)
   }"

end
