(* ===== verification/Dbc_Cells.thy ===== *)
theory Dbc_Cells
  imports Dbc_Search
begin

text \<open>
  What the cells of the search mean. \<open>cells n b t\<close> is the pair of cells the recurrences give when
  every cell is computed from final ones; \<open>repr\<close> follows the parents of a node through these cells to
  the list of its terms. A cell that is not null is a chain of falling terms for \<open>n mod 2 ^ b 3 ^ t\<close>, or
  for this residue minus \<open>2 ^ b 3 ^ t\<close>.
\<close>

section \<open>Chains as lists of terms\<close>

definition tval :: "chain \<Rightarrow> int" where
  "tval c = (if minus c then - 1 else 1) * (2 ^ nat (dbl c) * 3 ^ nat (tpl c))"

definition cval :: "chain list \<Rightarrow> int" where
  "cval cs = sum_list (map tval cs)"

text \<open>Every term divides the one before it and differs from it; the first is below \<open>(b, t)\<close>.\<close>

fun below :: "int \<Rightarrow> int \<Rightarrow> chain list \<Rightarrow> bool" where
  "below b t [] \<longleftrightarrow> True"
| "below b t (c # cs) \<longleftrightarrow> 0 \<le> dbl c \<and> 0 \<le> tpl c \<and> dbl c \<le> b \<and> tpl c \<le> t \<and> (dbl c \<noteq> b \<or> tpl c \<noteq> t) \<and>
     below (dbl c) (tpl c) cs"

lemma cval_simps [simp]: "cval [] = 0" "cval (c # cs) = tval c + cval cs"
  by (simp_all add: cval_def)

lemma below_mono: "below b t cs \<Longrightarrow> b \<le> b' \<Longrightarrow> t \<le> t' \<Longrightarrow> below b' t' cs"
  by (cases cs) auto

lemma below_length: "below b t cs \<Longrightarrow> 0 \<le> b \<Longrightarrow> 0 \<le> t \<Longrightarrow> int (length cs) \<le> b + t"
proof (induction b t cs rule: below.induct)
  case (2 b t c cs)
  then have "int (length cs) \<le> dbl c + tpl c" by auto
  with 2 show ?case by auto
qed simp

text \<open>The terms below \<open>(b, t)\<close> add up to less than \<open>2 ^ b 3 ^ t\<close>.\<close>

definition pw :: "int \<Rightarrow> int \<Rightarrow> int" where
  "pw b t = 2 ^ nat b * 3 ^ nat t"

lemma pw_pos [simp]: "0 < pw b t" by (simp add: pw_def)

lemma pw_dbl: "0 < b \<Longrightarrow> pw b t = 2 * pw (b - 1) t"
proof -
  assume "0 < b"
  then have "nat b = Suc (nat (b - 1))" by simp
  then show ?thesis by (simp add: pw_def)
qed

lemma pw_tpl: "0 < t \<Longrightarrow> pw b t = 3 * pw b (t - 1)"
proof -
  assume "0 < t"
  then have "nat t = Suc (nat (t - 1))" by simp
  then show ?thesis by (simp add: pw_def)
qed

lemma pw_mono: "d \<le> b \<Longrightarrow> u \<le> t \<Longrightarrow> pw d u \<le> pw b t"
  unfolding pw_def by (intro mult_mono power_increasing) auto

lemma pw_half: "0 \<le> d \<Longrightarrow> 0 \<le> u \<Longrightarrow> d \<le> b \<Longrightarrow> u \<le> t \<Longrightarrow> d \<noteq> b \<or> u \<noteq> t \<Longrightarrow> 2 * pw d u \<le> pw b t"
proof -
  assume a: "0 \<le> d" "0 \<le> u" "d \<le> b" "u \<le> t" "d \<noteq> b \<or> u \<noteq> t"
  then consider "d \<le> b - 1" "u \<le> t" | "d \<le> b" "u \<le> t - 1" by linarith
  then show ?thesis
  proof cases
    case 1
    then show ?thesis using pw_mono [OF 1] pw_dbl [of b t] a by simp
  next
    case 2
    then show ?thesis using pw_mono [OF 2] pw_tpl [of t b] a pw_pos [of b "t - 1"] by linarith
  qed
qed

lemma tval_abs: "\<bar>tval c\<bar> = pw (dbl c) (tpl c)"
  by (simp add: tval_def pw_def abs_mult)

lemma below_bound: "below b t cs \<Longrightarrow> \<bar>cval cs\<bar> < pw b t"
proof (induction b t cs rule: below.induct)
  case (2 b t c cs)
  then have "\<bar>cval cs\<bar> < pw (dbl c) (tpl c)" "2 * pw (dbl c) (tpl c) \<le> pw b t" using pw_half by auto
  then show ?case using tval_abs [of c] by simp
qed simp

section \<open>The ideal cells\<close>

definition zero_cell :: optimal_DBC where
  "zero_cell = new_DBC\<lparr>isBasic := True\<rparr>"

definition null_cell :: optimal_DBC where
  "null_cell = setNULL new_DBC"

definition quot :: "int \<Rightarrow> int \<Rightarrow> int \<Rightarrow> int" where
  "quot n b t = 6 * n div pw b t mod 6"

function cells :: "int \<Rightarrow> int \<Rightarrow> int \<Rightarrow> optimal_DBC \<times> optimal_DBC" where
  "cells n b t =
     (if b < 0 \<or> t < 0 then (null_cell, null_cell)
      else if b + t = 0 then (zero_cell, null_cell)
      else cell_step (word_of_int (quot n b t)) b t (cells n (b - 1) t) (cells n b (t - 1)))"
  by pat_completeness auto
termination
  by (relation "measure (\<lambda>(n, b, t). nat (b + 1) + nat (t + 1))") auto

declare cells.simps [simp del]

fun ideal :: "int \<Rightarrow> cell_ref \<Rightarrow> optimal_DBC" where
  "ideal n (W b t) = fst (cells n b t)"
| "ideal n (W_neg b t) = snd (cells n b t)"

fun ref_in :: "int \<Rightarrow> int \<Rightarrow> cell_ref \<Rightarrow> bool" where
  "ref_in B T (W b t) \<longleftrightarrow> 0 \<le> b \<and> b \<le> B \<and> 0 \<le> t \<and> t \<le> T"
| "ref_in B T (W_neg b t) \<longleftrightarrow> 0 \<le> b \<and> b \<le> B \<and> 0 \<le> t \<and> t \<le> T"

inductive repr :: "int \<Rightarrow> int \<Rightarrow> int \<Rightarrow> optimal_DBC \<Rightarrow> chain list \<Rightarrow> bool" for n B T where
  repr_Nil: "\<not> isNULL c \<Longrightarrow> len c = 0 \<Longrightarrow> repr n B T c []"
| repr_Cons: "\<not> isNULL c \<Longrightarrow> \<not> isBasic c \<Longrightarrow> parent c = Some ref \<Longrightarrow> ref_in B T ref \<Longrightarrow> repr n B T (ideal n ref) cs \<Longrightarrow>
    len c = int (length cs) + 1 \<Longrightarrow> repr n B T c (addNode c # cs)"

lemma repr_len: "repr n B T c cs \<Longrightarrow> len c = int (length cs)"
  by (induction rule: repr.induct) auto

lemma repr_mono: "repr n B T c cs \<Longrightarrow> B \<le> B' \<Longrightarrow> T \<le> T' \<Longrightarrow> repr n B' T' c cs"
proof (induction rule: repr.induct)
  case (repr_Cons c ref cs)
  then have "ref_in B' T' ref" by (cases ref) auto
  with repr_Cons show ?case by (auto intro: repr.repr_Cons)
qed (auto intro: repr.intros)

section \<open>Cells are chains for their residues\<close>

definition good :: "int \<Rightarrow> int \<Rightarrow> int \<Rightarrow> optimal_DBC \<Rightarrow> int \<Rightarrow> bool" where
  "good n b t c v \<longleftrightarrow> (\<not> isNULL c \<longrightarrow> (\<exists>cs. repr n b t c cs \<and> below b t cs \<and> cval cs = v))"

lemma good_null [simp]: "good n b t null_cell v"
  by (simp add: good_def null_cell_def setNULL_def)

lemma good_mono: "good n b t c v \<Longrightarrow> b \<le> b' \<Longrightarrow> t \<le> t' \<Longrightarrow> good n b' t' c v"
  unfolding good_def using repr_mono below_mono by blast

lemma good_minL: "good n b t c1 v \<Longrightarrow> good n b t c2 v \<Longrightarrow> good n b t c3 v \<Longrightarrow> good n b t (minL c1 c2 c3) v"
  by (simp add: minL_def Let_def)

lemma good_add:
  assumes g: "good n b1 t1 (ideal n ref) v" and ref: "ref = W b1 t1 \<or> ref = W_neg b1 t1"
    and le: "0 \<le> b1 \<longrightarrow> 0 \<le> t1 \<longrightarrow> b1 < 65536 \<and> t1 < 65536" "b1 \<le> b" "t1 \<le> t" "b1 \<noteq> b \<or> t1 \<noteq> t"
    and s: "s = 1 \<or> s = - 1" and u: "u = v + s * pw b1 t1"
  shows "good n b t (add_DBC (ideal n ref) ref b1 t1 s) u"
proof (cases "isNULL (ideal n ref)")
  case True
  then show ?thesis by (simp add: good_def add_DBC_def)
next
  case False
  let ?c = "add_DBC (ideal n ref) ref b1 t1 s"
  have nn: "0 \<le> b1" "0 \<le> t1" using False ref by (auto simp: cells.simps null_cell_def setNULL_def split: if_splits)
  obtain cs where cs: "repr n b1 t1 (ideal n ref) cs" "below b1 t1 cs" "cval cs = v" using g False by (auto simp: good_def)
  have c: "\<not> isNULL ?c" "\<not> isBasic ?c" "parent ?c = Some ref" "len ?c = len (ideal n ref) + 1"
    "addNode ?c = \<lparr>dbl = b1, tpl = t1, minus = (s \<noteq> 1)\<rparr>"
    using False nn le by (simp_all add: add_DBC_def new_DBC_def setdata_def)
  have "ref_in b t ref" using nn le ref by auto
  then have "repr n b t ?c (addNode ?c # cs)"
    using c repr_mono [OF cs(1) le(2,3)] repr_len [OF cs(1)] by (intro repr_Cons) auto
  moreover have "below b t (addNode ?c # cs)" using c(5) cs(2) nn le by auto
  moreover have "cval (addNode ?c # cs) = u" using c(5) cs(3) s u by (auto simp: tval_def pw_def)
  ultimately show ?thesis unfolding good_def by blast
qed

text \<open>The case the code selects is the sixth of the interval the residue lies in.\<close>

lemma quot_cases:
  assumes n: "0 \<le> n" and M: "M = pw b t"
  shows "quot n b t = 6 * (n mod M) div M" "0 \<le> quot n b t" "quot n b t < 6"
proof -
  have "6 * (M * a + c) = 6 * c + M * (6 * a)" for a c by (simp add: algebra_simps)
  from this [of "n div M" "n mod M"] have e6: "6 * n = 6 * (n mod M) + M * (6 * (n div M))" by (simp only: mult_div_mod_eq)
  then have e: "6 * n div M = 6 * (n div M) + 6 * (n mod M) div M" unfolding e6 using M pw_pos [of b t] by (intro div_mult_self2) linarith
  have r: "0 \<le> n mod M" "n mod M < M" using M by simp_all
  have "6 * (n mod M) < M * 6" using r by simp
  then have "6 * (n mod M) div M < 6" using div_bound [of M "6 * (n mod M)" 6] M by simp
  moreover have "0 \<le> 6 * (n mod M) div M" using r M by (simp add: pos_imp_zdiv_nonneg_iff)
  ultimately show "quot n b t = 6 * (n mod M) div M" unfolding quot_def M [symmetric] e by simp
  then show "0 \<le> quot n b t" "quot n b t < 6"
    using \<open>6 * (n mod M) div M < 6\<close> \<open>0 \<le> 6 * (n mod M) div M\<close> by simp_all
qed

lemma quot_bounds:
  assumes "0 \<le> n"
  shows "quot n b t * pw b t \<le> 6 * (n mod pw b t)" "6 * (n mod pw b t) < (quot n b t + 1) * pw b t"
proof -
  define M where "M = pw b t"
  define q where "q = 6 * (n mod M) div M"
  have "6 * (n mod M) = M * q + 6 * (n mod M) mod M" by (simp add: q_def)
  moreover have "0 \<le> 6 * (n mod M) mod M" "6 * (n mod M) mod M < M" by (simp_all add: M_def)
  moreover have "M * q = q * M" by (rule mult.commute)
  ultimately have "q * M \<le> 6 * (n mod M)" "6 * (n mod M) < (q + 1) * M" by (simp_all only: distrib_right mult_1)
  moreover have "quot n b t = q" unfolding q_def by (rule quot_cases(1) [OF assms M_def])
  ultimately show "quot n b t * pw b t \<le> 6 * (n mod pw b t)" "6 * (n mod pw b t) < (quot n b t + 1) * pw b t"
    by (simp_all only: M_def)
qed

lemma mod_by: "0 \<le> r - k * m \<Longrightarrow> r - k * m < m \<Longrightarrow> r mod m = r - k * (m :: int)"
  by (metis mod_mult_self1 mod_pos_pos_trivial diff_add_cancel)

lemma quot_range: "0 \<le> n \<Longrightarrow> quot n b t \<in> {0, 1, 2, 3, 4, 5}"
  using quot_cases(2,3) [of n "pw b t" b t] by auto

lemma residue_dbl:
  assumes n: "0 \<le> n" and b: "0 < b"
  shows "n mod pw (b - 1) t = (if quot n b t < 3 then n mod pw b t else n mod pw b t - pw (b - 1) t)"
proof -
  define r where "r = n mod pw b t"
  note M = pw_dbl [OF b, of t]
  have "pw (b - 1) t dvd pw b t" unfolding M by simp
  then have e: "n mod pw (b - 1) t = r mod pw (b - 1) t" by (simp add: r_def mod_mod_cancel)
  have r: "0 \<le> r" "r < 2 * pw (b - 1) t" using M pw_pos [of b t] unfolding r_def by simp_all
  have q: "quot n b t * (2 * pw (b - 1) t) \<le> 6 * r" "6 * r < (quot n b t + 1) * (2 * pw (b - 1) t)"
    using quot_bounds [OF n, of b t] unfolding M r_def by simp_all
  show ?thesis
  proof (cases "quot n b t < 3")
    case True
    then have "(quot n b t + 1) * (2 * pw (b - 1) t) \<le> 3 * (2 * pw (b - 1) t)" by (intro mult_right_mono) (simp_all add: order_less_imp_le)
    with q(2) have "r < pw (b - 1) t" by linarith
    then show ?thesis using True r e unfolding r_def by (simp add: mod_pos_pos_trivial)
  next
    case False
    then have "3 * (2 * pw (b - 1) t) \<le> quot n b t * (2 * pw (b - 1) t)" by (intro mult_right_mono) (simp_all add: order_less_imp_le)
    with q(1) have "0 \<le> r - 1 * pw (b - 1) t" "r - 1 * pw (b - 1) t < pw (b - 1) t" using r by linarith+
    from mod_by [OF this] show ?thesis using False e unfolding r_def by simp
  qed
qed

lemma residue_tpl:
  assumes n: "0 \<le> n" and t: "0 < t"
  shows "n mod pw b (t - 1) = (if quot n b t < 2 then n mod pw b t
    else if quot n b t < 4 then n mod pw b t - pw b (t - 1) else n mod pw b t - 2 * pw b (t - 1))"
proof -
  define r where "r = n mod pw b t"
  define E where "E = pw b (t - 1)"
  have M: "pw b t = 3 * E" using pw_tpl [OF t, of b] by (simp add: E_def)
  have E0: "0 < E" by (simp add: E_def)
  have "E dvd pw b t" unfolding M by simp
  then have e: "n mod E = r mod E" by (simp add: r_def mod_mod_cancel)
  have r: "0 \<le> r" "r < 3 * E" using M pw_pos [of b t] unfolding r_def by simp_all
  have q: "quot n b t * (3 * E) \<le> 6 * r" "6 * r < (quot n b t + 1) * (3 * E)"
    using quot_bounds [OF n, of b t] unfolding M r_def by simp_all
  have up: "6 * r < k * (3 * E)" if "quot n b t < k" for k
  proof -
    have "(quot n b t + 1) * (3 * E) \<le> k * (3 * E)" using that E0 by (intro mult_right_mono) simp_all
    with q(2) show ?thesis by linarith
  qed
  have lo: "k * (3 * E) \<le> 6 * r" if "\<not> quot n b t < k" for k
  proof -
    have "k * (3 * E) \<le> quot n b t * (3 * E)" using that E0 by (intro mult_right_mono) simp_all
    with q(1) show ?thesis by linarith
  qed
  consider "quot n b t < 2" | "\<not> quot n b t < 2" "quot n b t < 4" | "\<not> quot n b t < 4" by linarith
  then show ?thesis
  proof cases
    case 1
    then have "r < E" using up [of 2] by simp
    then show ?thesis using 1 r e unfolding r_def E_def by (simp add: mod_pos_pos_trivial)
  next
    case 2
    then have "0 \<le> r - 1 * E" "r - 1 * E < E" using up [of 4] lo [of 2] by simp_all
    from mod_by [OF this] show ?thesis using 2 e unfolding r_def E_def by simp
  next
    case 3
    then have "0 \<le> r - 2 * E" "r - 2 * E < E" using lo [of 4] r by simp_all
    from mod_by [OF this] show ?thesis using 3 e unfolding r_def E_def by simp
  qed
qed

lemma quot_word:
  assumes "0 \<le> n"
  shows "(word_of_int (quot n b t) :: uint64) < 2 \<longleftrightarrow> quot n b t < 2"
    "(word_of_int (quot n b t) :: uint64) = 2 \<longleftrightarrow> quot n b t = 2"
    "(word_of_int (quot n b t) :: uint64) = 3 \<longleftrightarrow> quot n b t = 3"
  using quot_range [OF assms, of b t] by auto

lemma add_null [simp]: "add_DBC null_cell ref b t s = null_cell"
  by (simp add: add_DBC_def null_cell_def setNULL_def)

text \<open>The invariant of the tables.\<close>

lemma cells_good:
  "0 \<le> n \<Longrightarrow> b < 65536 \<Longrightarrow> t < 65536 \<Longrightarrow>
    good n b t (fst (cells n b t)) (n mod pw b t) \<and> good n b t (snd (cells n b t)) (n mod pw b t - pw b t)"
proof (induction n b t rule: cells.induct)
  case (1 n b t)
  show ?case
  proof (cases "b < 0 \<or> t < 0 \<or> b + t = 0")
    case True
    have "good n b t zero_cell 0" unfolding good_def
      by (auto simp: zero_cell_def new_DBC_def intro!: exI [of _ "[]"] repr_Nil)
    moreover have "pw b t = 1" if "\<not> b < 0" "\<not> t < 0" "b + t = 0" using that by (simp add: pw_def)
    ultimately show ?thesis using True by (auto simp: cells.simps [of n b t])
  next
    case False
    note n = "1.prems"(1)
    define q where "q = quot n b t"
    have d0: "good n (b - 1) t (fst (cells n (b - 1) t)) (n mod pw (b - 1) t)"
      "good n (b - 1) t (snd (cells n (b - 1) t)) (n mod pw (b - 1) t - pw (b - 1) t)"
      using "1.IH"(1) False "1.prems" by auto
    have t0: "good n b (t - 1) (fst (cells n b (t - 1))) (n mod pw b (t - 1))"
      "good n b (t - 1) (snd (cells n b (t - 1))) (n mod pw b (t - 1) - pw b (t - 1))"
      using "1.IH"(2) False "1.prems" by auto
    have nb: "cells n (b - 1) t = (null_cell, null_cell)" if "\<not> 0 < b" using that by (subst cells.simps) simp
    have nt: "cells n b (t - 1) = (null_cell, null_cell)" if "\<not> 0 < t" using that by (subst cells.simps) simp
    have addD: "good n b t (add_DBC (fst (cells n (b - 1) t)) (W (b - 1) t) (b - 1) t s) (n mod pw (b - 1) t + s * pw (b - 1) t)"
      "good n b t (add_DBC (snd (cells n (b - 1) t)) (W_neg (b - 1) t) (b - 1) t s) (n mod pw (b - 1) t - pw (b - 1) t + s * pw (b - 1) t)"
      if "s = 1 \<or> s = - 1" for s
      using good_add [of n "b - 1" t "W (b - 1) t" "n mod pw (b - 1) t" b t s] good_add [of n "b - 1" t "W_neg (b - 1) t" "n mod pw (b - 1) t - pw (b - 1) t" b t s]
        d0 that "1.prems" by auto
    have addT: "good n b t (add_DBC (fst (cells n b (t - 1))) (W b (t - 1)) b (t - 1) s) (n mod pw b (t - 1) + s * pw b (t - 1))"
      "good n b t (add_DBC (snd (cells n b (t - 1))) (W_neg b (t - 1)) b (t - 1) s) (n mod pw b (t - 1) - pw b (t - 1) + s * pw b (t - 1))"
      if "s = 1 \<or> s = - 1" for s
      using good_add [of n b "t - 1" "W b (t - 1)" "n mod pw b (t - 1)" b t s] good_add [of n b "t - 1" "W_neg b (t - 1)" "n mod pw b (t - 1) - pw b (t - 1)" b t s]
        t0 that "1.prems" by auto
    define r where "r = n mod pw b t"
    have dl1: "good n b t (fst (cells n (b - 1) t)) r"
      "good n b t (add_DBC (snd (cells n (b - 1) t)) (W_neg (b - 1) t) (b - 1) t 1) r"
      "good n b t (add_DBC (snd (cells n (b - 1) t)) (W_neg (b - 1) t) (b - 1) t (- 1)) (r - pw b t)" if "q < 3"
    proof (atomize (full), cases "0 < b")
      case True
      have "n mod pw (b - 1) t = r" using residue_dbl [OF n True, of t] that by (simp add: r_def q_def)
      then show "good n b t (fst (cells n (b - 1) t)) r \<and>
          good n b t (add_DBC (snd (cells n (b - 1) t)) (W_neg (b - 1) t) (b - 1) t 1) r \<and>
          good n b t (add_DBC (snd (cells n (b - 1) t)) (W_neg (b - 1) t) (b - 1) t (- 1)) (r - pw b t)"
        using good_mono [OF d0(1), of b t] addD(2) [of 1] addD(2) [of "- 1"] pw_dbl [OF True, of t] by simp
    qed (simp add: nb)
    have dl2: "good n b t (add_DBC (fst (cells n (b - 1) t)) (W (b - 1) t) (b - 1) t 1) r"
      "good n b t (add_DBC (fst (cells n (b - 1) t)) (W (b - 1) t) (b - 1) t (- 1)) (r - pw b t)"
      "good n b t (snd (cells n (b - 1) t)) (r - pw b t)" if "\<not> q < 3"
    proof (atomize (full), cases "0 < b")
      case True
      have "n mod pw (b - 1) t = r - pw (b - 1) t" using residue_dbl [OF n True, of t] that by (simp add: r_def q_def)
      then have eqs: "r = n mod pw (b - 1) t + pw (b - 1) t" "pw b t = 2 * pw (b - 1) t" using pw_dbl [OF True, of t] by simp_all
      show "good n b t (add_DBC (fst (cells n (b - 1) t)) (W (b - 1) t) (b - 1) t 1) r \<and>
          good n b t (add_DBC (fst (cells n (b - 1) t)) (W (b - 1) t) (b - 1) t (- 1)) (r - pw b t) \<and>
          good n b t (snd (cells n (b - 1) t)) (r - pw b t)"
        using good_mono [OF d0(2), of b t] addD(1) [OF disjI1, OF refl] addD(1) [OF disjI2, OF refl] eqs by simp
    qed (simp add: nb)
    have tl1: "good n b t (fst (cells n b (t - 1))) r"
      "good n b t (add_DBC (snd (cells n b (t - 1))) (W_neg b (t - 1)) b (t - 1) 1) r" if "q < 2"
    proof (atomize (full), cases "0 < t")
      case True
      have "n mod pw b (t - 1) = r" using residue_tpl [OF n True, of b] that by (simp add: r_def q_def)
      then show "good n b t (fst (cells n b (t - 1))) r \<and>
          good n b t (add_DBC (snd (cells n b (t - 1))) (W_neg b (t - 1)) b (t - 1) 1) r"
        using good_mono [OF t0(1), of b t] addT(2) [of 1] by simp
    qed (simp add: nt)
    have tl2: "good n b t (add_DBC (fst (cells n b (t - 1))) (W b (t - 1)) b (t - 1) 1) r"
      "good n b t (add_DBC (snd (cells n b (t - 1))) (W_neg b (t - 1)) b (t - 1) (- 1)) (r - pw b t)" if "\<not> q < 2" "q < 4"
    proof (atomize (full), cases "0 < t")
      case True
      have "n mod pw b (t - 1) = r - pw b (t - 1)" using residue_tpl [OF n True, of b] that by (simp add: r_def q_def)
      then have eqs: "r = n mod pw b (t - 1) + pw b (t - 1)" "pw b t = 3 * pw b (t - 1)" using pw_tpl [OF True, of b] by simp_all
      show "good n b t (add_DBC (fst (cells n b (t - 1))) (W b (t - 1)) b (t - 1) 1) r \<and>
          good n b t (add_DBC (snd (cells n b (t - 1))) (W_neg b (t - 1)) b (t - 1) (- 1)) (r - pw b t)"
        using addT(1) [OF disjI1, OF refl] addT(2) [OF disjI2, OF refl] eqs by simp
    qed (simp add: nt)
    have tl3: "good n b t (add_DBC (fst (cells n b (t - 1))) (W b (t - 1)) b (t - 1) (- 1)) (r - pw b t)"
      "good n b t (snd (cells n b (t - 1))) (r - pw b t)" if "\<not> q < 4"
    proof (atomize (full), cases "0 < t")
      case True
      have "n mod pw b (t - 1) = r - 2 * pw b (t - 1)" using residue_tpl [OF n True, of b] that by (simp add: r_def q_def)
      then have eqs: "r = n mod pw b (t - 1) + 2 * pw b (t - 1)" "pw b t = 3 * pw b (t - 1)" using pw_tpl [OF True, of b] by simp_all
      show "good n b t (add_DBC (fst (cells n b (t - 1))) (W b (t - 1)) b (t - 1) (- 1)) (r - pw b t) \<and>
          good n b t (snd (cells n b (t - 1))) (r - pw b t)"
        using good_mono [OF t0(2), of b t] addT(1) [OF disjI2, OF refl] eqs by simp
    qed (simp add: nt)
    have step: "cells n b t = cell_step (word_of_int q) b t (cells n (b - 1) t) (cells n b (t - 1))"
      using False by (subst cells.simps) (simp add: q_def)
    consider "q < 2" | "q = 2" | "q = 3" | "4 \<le> q" by linarith
    then show ?thesis unfolding r_def [symmetric] step
    proof cases
      case 1
      then show "good n b t (fst (cell_step (word_of_int q) b t (cells n (b - 1) t) (cells n b (t - 1)))) r \<and>
          good n b t (snd (cell_step (word_of_int q) b t (cells n (b - 1) t) (cells n b (t - 1)))) (r - pw b t)"
        using quot_word [OF n, of b t] good_minL dl1 tl1 by (simp add: cell_step_def Let_def q_def)
    next
      case 2
      then show "good n b t (fst (cell_step (word_of_int q) b t (cells n (b - 1) t) (cells n b (t - 1)))) r \<and>
          good n b t (snd (cell_step (word_of_int q) b t (cells n (b - 1) t) (cells n b (t - 1)))) (r - pw b t)"
        using quot_word [OF n, of b t] good_minL dl1 tl2 by (simp add: cell_step_def Let_def q_def)
    next
      case 3
      then show "good n b t (fst (cell_step (word_of_int q) b t (cells n (b - 1) t) (cells n b (t - 1)))) r \<and>
          good n b t (snd (cell_step (word_of_int q) b t (cells n (b - 1) t) (cells n b (t - 1)))) (r - pw b t)"
        using quot_word [OF n, of b t] good_minL dl2 tl2 by (simp add: cell_step_def Let_def q_def)
    next
      case 4
      then show "good n b t (fst (cell_step (word_of_int q) b t (cells n (b - 1) t) (cells n b (t - 1)))) r \<and>
          good n b t (snd (cell_step (word_of_int q) b t (cells n (b - 1) t) (cells n b (t - 1)))) (r - pw b t)"
        using quot_word [OF n, of b t] good_minL dl2 tl3 by (simp add: cell_step_def Let_def q_def)
    qed
  qed
qed

end
