(* ===== verification/Dbc_Search_Correct.thy ===== *)
theory Dbc_Search_Correct
  imports Dbc_Cells
begin

text \<open>
  The search refines the ideal cells: after the loops every cell below the bounds is the ideal one,
  in whatever state the tables were before, and the stored chain has the value \<open>n\<close>.
\<close>

section \<open>Powers and bounds\<close>

text \<open>What the search needs of its number, the tables and the two logarithms: \<open>6 n\<close> fits, no carry is
  lost in \<open>2 n * 3\<close>, the powers up to \<open>6 n\<close> are right, and the logarithms are the integer parts.\<close>

definition search_ok :: "nat \<Rightarrow> bigint \<Rightarrow> int \<Rightarrow> int \<Rightarrow> bool" where
  "search_ok INTS n log2B log3B \<longleftrightarrow>
     0 < INTS \<and> INTS \<le> 20 \<and> length n = INTS \<and> 0 < big_val n \<and> 6 * big_val n < 2 ^ (32 * INTS) \<and> no_lost_carry (mul_2 n) \<and>
     (\<forall>i j. j < MAX_3 INTS \<and> pw (int i) (int j) \<le> 6 * big_val n \<longrightarrow> big_val (pow23_all INTS i j) = pw (int i) (int j)) \<and>
     0 \<le> log2B \<and> pw log2B 0 \<le> 2 * big_val n \<and> 2 * big_val n < 2 * pw log2B 0 \<and>
     0 \<le> log3B \<and> pw 0 log3B \<le> 2 * big_val n \<and> 2 * big_val n < 3 * pw 0 log3B \<and> log3B < int (MAX_3 INTS)"

lemma length_pow23_all: "0 < INTS \<Longrightarrow> length (pow23_all INTS i j) = INTS"
proof (induction j)
  case 0
  then show ?case by (induction i) simp_all
qed simp

lemma pw_0 [simp]: "pw 0 0 = 1" by (simp add: pw_def)

text \<open>The bound of a column: the largest exponent of 2 whose power is not above \<open>2 n\<close>.\<close>

definition is_bound :: "int \<Rightarrow> int \<Rightarrow> int \<Rightarrow> bool" where
  "is_bound N t b \<longleftrightarrow> 0 \<le> b \<and> pw b t \<le> 2 * N \<and> 2 * N < 2 * pw b t"

lemma bound_less: "is_bound N t b \<Longrightarrow> pw d t \<le> 2 * N \<Longrightarrow> d \<le> b"
proof (rule ccontr)
  assume a: "is_bound N t b" "pw d t \<le> 2 * N" "\<not> d \<le> b"
  then have "2 * pw b t = pw (b + 1) t" using pw_dbl [of "b + 1" t] by (simp add: is_bound_def)
  also have "\<dots> \<le> pw d t" using a(3) by (intro pw_mono) auto
  finally show False using a(1,2) by (simp add: is_bound_def)
qed

lemma bound_antimono: "is_bound N t b \<Longrightarrow> is_bound N t' b' \<Longrightarrow> t' \<le> t \<Longrightarrow> b \<le> b'"
  by (rule bound_less [of N t' b']) (use pw_mono [of b b t' t] in \<open>auto simp: is_bound_def\<close>)

lemma B_val:
  assumes ok: "search_ok INTS n log2B log3B"
  shows "big_val (mul_2 n) = 2 * big_val n" "length (mul_2 n) = INTS"
  using ok mul_2_exact [of n] by (auto simp: search_ok_def)

lemma six_n_val:
  assumes ok: "search_ok INTS n log2B log3B"
  shows "big_val (mul_3 (mul_2 n)) = 6 * big_val n" "length (mul_3 (mul_2 n)) = INTS"
  using ok mul_3_exact [of "mul_2 n"] B_val [OF ok] by (auto simp: search_ok_def)

lemma pow_ge:
  assumes ok: "search_ok INTS n log2B log3B" and "length x = INTS" "int j \<le> log3B" "pw (int i) (int j) \<le> 6 * big_val n"
  shows "big_ge x (pow23_all INTS i j) \<longleftrightarrow> pw (int i) (int j) \<le> big_val x"
  using assms ok length_pow23_all [of INTS i j] big_ge_val [of x "pow23_all INTS i j"] by (simp add: search_ok_def)

lemma bound_down_ok:
  assumes ok: "search_ok INTS n log2B log3B"
    and t: "int t \<le> log3B"
  shows "pw 0 (int t) \<le> 2 * big_val n \<Longrightarrow> pw (int i) (int t) \<le> 6 * big_val n \<Longrightarrow> 2 * big_val n < 2 * pw (int i) (int t) \<Longrightarrow>
    \<exists>k. bound_down INTS (mul_2 n) t i = Some k \<and> is_bound (big_val n) (int t) (int k)"
proof (induction i)
  case 0
  then show ?case using pow_ge [OF ok B_val(2) [OF ok] t, of 0] B_val(1) [OF ok]
    by (subst bound_down.simps) (auto simp: is_bound_def)
next
  case (Suc i)
  have d: "pw (int (Suc i)) (int t) = 2 * pw (int i) (int t)" using pw_dbl [of "int (Suc i)" "int t"] by simp
  show ?case
  proof (cases "pw (int (Suc i)) (int t) \<le> 2 * big_val n")
    case True
    then show ?thesis using pow_ge [OF ok B_val(2) [OF ok] t Suc.prems(2)] B_val(1) [OF ok] Suc.prems
      by (subst bound_down.simps) (auto simp: is_bound_def)
  next
    case False
    then have "2 * big_val n < 2 * pw (int i) (int t)" using d by simp
    with Suc.IH Suc.prems d obtain k where "bound_down INTS (mul_2 n) t i = Some k" "is_bound (big_val n) (int t) (int k)"
      using pw_pos [of "int i" "int t"] by auto
    then show ?thesis using False pow_ge [OF ok B_val(2) [OF ok] t Suc.prems(2)] B_val(1) [OF ok] by (subst bound_down.simps) auto
  qed
qed

lemma bound_loop_ok:
  assumes ok: "search_ok INTS n log2B log3B"
  shows "0 < t \<Longrightarrow> int t \<le> log3B + 1 \<Longrightarrow> 0 \<le> i \<or> int t = log3B + 1 \<Longrightarrow> pw i (int t) \<le> 6 * big_val n \<or> int t = log3B + 1 \<Longrightarrow>
    2 * big_val n < 2 * pw i (int t) \<or> int t = log3B + 1 \<Longrightarrow> (\<forall>u < t. is_bound (big_val n) (int u) (bd u)) \<Longrightarrow>
    \<forall>u. int u \<le> log3B \<longrightarrow> is_bound (big_val n) (int u) (bound_loop INTS (mul_2 n) [t..<nat (log3B + 1)] i bd u)"
proof (induction "nat (log3B + 1) - t" arbitrary: t i bd)
  case 0
  then have "[t..<nat (log3B + 1)] = []" "int t = log3B + 1" by auto
  with 0 show ?case by auto
next
  case (Suc k)
  then have t: "t < nat (log3B + 1)" "int t \<le> log3B" "int t \<noteq> log3B + 1" by auto
  have i: "0 \<le> i" "pw i (int t) \<le> 6 * big_val n" "2 * big_val n < 2 * pw i (int t)" using Suc.prems t by auto
  have "pw 0 (int t) \<le> pw 0 log3B" using t by (intro pw_mono) auto
  then have le: "pw 0 (int t) \<le> 2 * big_val n" using ok by (simp add: search_ok_def)
  obtain j where j: "bound_down INTS (mul_2 n) t (nat i) = Some j" "is_bound (big_val n) (int t) (int j)"
    using bound_down_ok [OF ok t(2) le, of "nat i"] i by auto
  have run: "bound_loop INTS (mul_2 n) [t..<nat (log3B + 1)] i bd =
      bound_loop INTS (mul_2 n) [Suc t..<nat (log3B + 1)] (int j - 1) (bd(t := int j))"
    using t i j(1) by (simp add: upt_conv_Cons)
  have next_t: "0 \<le> int j - 1 \<and> pw (int j - 1) (int (Suc t)) \<le> 6 * big_val n \<and> 2 * big_val n < 2 * pw (int j - 1) (int (Suc t))" if "int (Suc t) \<noteq> log3B + 1"
  proof -
    have "pw 0 (int (Suc t)) \<le> pw 0 log3B" using t that by (intro pw_mono) auto
    then have "3 * pw 0 (int t) \<le> 2 * big_val n" using ok pw_tpl [of "int (Suc t)" 0] by (simp add: search_ok_def)
    then have "j \<noteq> 0" using j(2) by (auto simp: is_bound_def intro: ccontr)
    then have "pw (int j) (int t) = 2 * pw (int j - 1) (int t)" using pw_dbl [of "int j" "int t"] by simp
    moreover have "pw (int j - 1) (int (Suc t)) = 3 * pw (int j - 1) (int t)" using pw_tpl [of "int (Suc t)" "int j - 1"] by simp
    ultimately show ?thesis using j(2) \<open>j \<noteq> 0\<close> by (simp add: is_bound_def)
  qed
  show ?case unfolding run
    by (rule Suc.hyps(1)) (use Suc.hyps(2) Suc.prems t j(2) next_t in \<open>auto simp: less_Suc_eq\<close>)
qed

section \<open>Tables\<close>

definition table_ok :: "int \<Rightarrow> search_state \<Rightarrow> int \<Rightarrow> int \<Rightarrow> bool" where
  "table_ok N st b t \<longleftrightarrow> w st (b, t) = fst (cells N b t) \<and> w_neg st (b, t) = snd (cells N b t)"

text \<open>The cells \<open>init\<close> sets, the same for every number.\<close>

definition base_ok :: "nat \<Rightarrow> search_state \<Rightarrow> bool" where
  "base_ok INTS st \<longleftrightarrow> w st (0, 0) = zero_cell \<and> w_neg st (0, 0) = null_cell \<and>
     (\<forall>i < MAX_2 INTS. w st (int i, - 1) = null_cell \<and> w_neg st (int i, - 1) = null_cell) \<and>
     (\<forall>j < MAX_3 INTS. w st (- 1, int j) = null_cell \<and> w_neg st (- 1, int j) = null_cell)"

lemma cells_base: "cells N 0 0 = (zero_cell, null_cell)" "cells N b (- 1) = (null_cell, null_cell)" "cells N (- 1) t = (null_cell, null_cell)"
  by (simp_all add: cells.simps)

lemma base_table:
  assumes "base_ok INTS st"
  shows "table_ok N st 0 0" "0 \<le> b \<Longrightarrow> b < int (MAX_2 INTS) \<Longrightarrow> table_ok N st b (- 1)"
    "0 \<le> t \<Longrightarrow> t < int (MAX_3 INTS) \<Longrightarrow> table_ok N st (- 1) t"
proof -
  show "table_ok N st 0 0" using assms by (simp add: base_ok_def table_ok_def cells_base)
next
  assume "0 \<le> b" "b < int (MAX_2 INTS)"
  then obtain i where "b = int i" "i < MAX_2 INTS" by (metis nonneg_int_cases of_nat_less_iff)
  then show "table_ok N st b (- 1)" using assms by (simp add: base_ok_def table_ok_def cells_base)
next
  assume "0 \<le> t" "t < int (MAX_3 INTS)"
  then obtain j where "t = int j" "j < MAX_3 INTS" by (metis nonneg_int_cases of_nat_less_iff)
  then show "table_ok N st (- 1) t" using assms by (simp add: base_ok_def table_ok_def cells_base)
qed

text \<open>The cells the search fills: those whose power is at most \<open>2 n\<close>.\<close>

definition in_bounds :: "int \<Rightarrow> int \<Rightarrow> int \<Rightarrow> bool" where
  "in_bounds N b t \<longleftrightarrow> 0 \<le> b \<and> 0 \<le> t \<and> pw b t \<le> 2 * N"

lemma in_bounds_logs:
  assumes ok: "search_ok INTS n log2B log3B" and "in_bounds (big_val n) b t"
  shows "b \<le> log2B" "t \<le> log3B" "b < int (MAX_2 INTS)" "t < int (MAX_3 INTS)"
proof -
  have "is_bound (big_val n) 0 log2B" using ok by (simp add: search_ok_def is_bound_def)
  moreover have "pw b 0 \<le> 2 * big_val n" using assms(2) pw_mono [of b b 0 t] by (simp add: in_bounds_def)
  ultimately show b: "b \<le> log2B" by (rule bound_less)
  show t: "t \<le> log3B"
  proof (rule ccontr)
    assume a: "\<not> t \<le> log3B"
    have "pw 0 (log3B + 1) = 3 * pw 0 log3B" using pw_tpl [of "log3B + 1" 0] ok by (simp add: search_ok_def)
    moreover have "pw 0 (log3B + 1) \<le> pw b t" using a assms(2) by (intro pw_mono) (auto simp: in_bounds_def)
    ultimately show False using ok assms(2) by (simp add: search_ok_def in_bounds_def)
  qed
  show "t < int (MAX_3 INTS)" using t ok by (simp add: search_ok_def)
  have "pw log2B 0 < 2 ^ (32 * INTS)" using ok unfolding search_ok_def by linarith
  then have "(2 :: int) ^ nat log2B < 2 ^ (32 * INTS)" by (simp only: pw_def) simp
  then have "nat log2B < 32 * INTS" by (simp only: power_strict_increasing_iff)
  then show "b < int (MAX_2 INTS)" using b by (simp add: MAX_2_def)
qed

lemma in_bounds_less: "in_bounds N b t \<Longrightarrow> 0 \<le> d \<Longrightarrow> 0 \<le> u \<Longrightarrow> d \<le> b \<Longrightarrow> u \<le> t \<Longrightarrow> in_bounds N d u"
  using pw_mono [of d b u t] by (simp add: in_bounds_def)

lemma in_bounds_iff: "is_bound N t k \<Longrightarrow> 0 \<le> b \<Longrightarrow> 0 \<le> t \<Longrightarrow> in_bounds N b t \<longleftrightarrow> b \<le> k"
  using bound_less [of N t k b] pw_mono [of b k t t] by (auto simp: in_bounds_def is_bound_def)

section \<open>The case digit of a cell\<close>

lemma pow2_val: "i < 64 \<Longrightarrow> uint (pow2 i) = 2 ^ i"
proof (induction i)
  case (Suc i)
  have "(2 :: int) ^ Suc i < 2 ^ 64" using Suc.prems by (intro power_strict_increasing) simp_all
  then show ?case using Suc by (simp add: uint_word_ariths mod_pos_pos_trivial)
qed simp

lemma pow3_val: "i \<le> 40 \<Longrightarrow> uint (pow3 i) = 3 ^ i"
proof (induction i)
  case (Suc i)
  have "(3 :: int) ^ Suc i \<le> 3 ^ 40" using Suc.prems by (intro power_increasing) simp_all
  then show ?case using Suc by (simp add: uint_word_ariths mod_pos_pos_trivial)
qed simp

lemma pow23_1_val: "i \<le> 32 \<Longrightarrow> j \<le> 18 \<Longrightarrow> uint (pow23_1 i j) = 2 ^ i * 3 ^ j"
proof -
  assume a: "i \<le> 32" "j \<le> 18"
  then have "(2 :: int) ^ i \<le> 2 ^ 32" "(3 :: int) ^ j \<le> 3 ^ 18" by (intro power_increasing; simp)+
  then have "(2 :: int) ^ i * 3 ^ j \<le> 2 ^ 32 * 3 ^ 18" by (rule mult_mono) simp_all
  then show ?thesis using a unfolding pow23_1_def uint_word_ariths(3) by (simp add: pow2_val pow3_val mod_pos_pos_trivial)
qed

lemma mod_div_mod:
  assumes "(0 :: int) < q" "0 < m" "q * m dvd M"
  shows "T mod M div q mod m = T div q mod m"
proof -
  have "T mod M mod (q * m) = T mod (q * m)" using assms(3) by (rule mod_mod_cancel)
  moreover have "x mod (q * m) div q = x div q mod m" for x
  proof -
    have "x mod (q * m) = q * (x div q mod m) + x mod q" using assms by (simp add: zmod_zmult2_eq)
    then show ?thesis using assms by simp
  qed
  ultimately show ?thesis by metis
qed

lemma quot_digit:
  assumes T: "big_val temp = 6 * N div pw (32 * int io) (18 * int jo)" and len: "0 < length temp" "length temp \<le> 20"
    and i: "i < 32" and j: "j < 18"
  shows "mod_2_33_3_19 temp div pow23_1 i j mod 6 = word_of_int (quot N (int (io * 32 + i)) (int (jo * 18 + j)))"
proof -
  define q where "q = (2 :: int) ^ i * 3 ^ j"
  have "q * 6 = 2 ^ Suc i * 3 ^ Suc j" by (simp add: q_def)
  also have "\<dots> dvd 2 ^ 33 * 3 ^ 19" using i j by (intro mult_dvd_mono le_imp_power_dvd) simp_all
  finally have d: "q * 6 dvd 2 ^ 33 * 3 ^ 19" .
  have p: "pw (32 * int io) (18 * int jo) * q = pw (int (io * 32 + i)) (int (jo * 18 + j))"
    by (simp add: pw_def q_def power_add nat_add_distrib nat_mult_distrib mult.commute mult.left_commute)
  have "uint (mod_2_33_3_19 temp div pow23_1 i j mod 6) = big_val temp mod (2 ^ 33 * 3 ^ 19) div q mod 6"
    using i j len by (simp add: uint_mod_distrib uint_div_distrib mod_2_33_3_19_val pow23_1_val q_def)
  also have "\<dots> = big_val temp div q mod 6" using d by (intro mod_div_mod) (simp_all add: q_def)
  also have "big_val temp div q = 6 * N div (pw (32 * int io) (18 * int jo) * q)"
    unfolding T by (rule zdiv_zmult2_eq [symmetric]) (simp add: q_def)
  also have "\<dots> mod 6 = quot N (int (io * 32 + i)) (int (jo * 18 + j))" unfolding p by (simp only: quot_def)
  finally show ?thesis by (metis word_of_int_uint)
qed

section \<open>Loops\<close>

lemma fold_upt_inv: "P 0 x \<Longrightarrow> (\<And>i x. i < k \<Longrightarrow> P i x \<Longrightarrow> P (Suc i) (f i x)) \<Longrightarrow> P k (fold f [0..<k] x)"
  by (induction k) simp_all

text \<open>Leaving the range at the first value that fails.\<close>

lemma takeWhile_upt:
  "\<exists>k \<le> m. takeWhile Q [0..<m] = [0..<k] \<and> (\<forall>i < k. Q i) \<and> (k = m \<or> \<not> Q k)"
proof -
  define k where "k = length (takeWhile Q [0..<m])"
  have k: "k \<le> m" unfolding k_def using length_takeWhile_le [of Q "[0..<m]"] by simp
  have "takeWhile Q [0..<m] = take k [0..<m]" unfolding k_def by (rule takeWhile_eq_take)
  then have e: "takeWhile Q [0..<m] = [0..<k]" using k by (simp add: take_upt)
  moreover have "Q i" if "i < k" for i
  proof -
    have "i \<in> set (takeWhile Q [0..<m])" using that e by simp
    then show ?thesis by (auto dest: set_takeWhileD)
  qed
  moreover have "k = m \<or> \<not> Q k"
  proof (cases "k = m")
    case False
    then have "k < length [0..<m]" using k by simp
    then have "\<not> Q ([0..<m] ! k)" unfolding k_def by (rule nth_length_takeWhile)
    then show ?thesis using False k by simp
  qed simp
  ultimately show ?thesis using k by blast
qed

section \<open>The minimum\<close>

text \<open>The cost \<open>getV\<close> stands for, of a chain with its leading term first.\<close>

definition cost :: "chain list \<Rightarrow> int" where
  "cost cs = DBL_COST * dbl (hd cs) + TPL_COST * tpl (hd cs) + ADD_COST * (int (length cs) - 1)"

definition min_ok :: "int \<Rightarrow> optimal_DBC \<Rightarrow> optimal_DBC \<Rightarrow> bool" where
  "min_ok N c0 c \<longleftrightarrow> getV c \<le> getV c0 \<and>
     (c = c0 \<or> (\<exists>b t cs. in_bounds N b t \<and> repr N b t c cs \<and> \<not> isBasic c \<and> cs \<noteq> [] \<and> below (b + 1) t cs \<and> cval cs = N))"

text \<open>What may be compared with the minimum at \<open>(b, t)\<close>.\<close>

definition candidate :: "int \<Rightarrow> int \<Rightarrow> int \<Rightarrow> optimal_DBC \<Rightarrow> bool" where
  "candidate N b t c \<longleftrightarrow> \<not> isBasic c \<and> (\<not> isNULL c \<longrightarrow> (\<exists>cs. repr N b t c cs \<and> cs \<noteq> [] \<and> below (b + 1) t cs \<and> cval cs = N))"

lemma min_ok_step:
  assumes "min_ok N c0 c" "getV c0 \<le> 99999999" "in_bounds N b t" "candidate N b t x" "candidate N b t y"
  shows "min_ok N c0 (minV x y c)"
proof -
  have null: "isNULL z \<Longrightarrow> candidate N b t z \<Longrightarrow> getV z = 99999999" for z by (simp add: candidate_def getV_def)
  have le: "getV c \<le> 99999999" using assms(1,2) by (simp add: min_ok_def)
  have new: "min_ok N c0 z" if "candidate N b t z" "getV z < getV c" for z
  proof -
    have "\<not> isNULL z" using null [of z] that le by auto
    with that have "\<exists>b t cs. in_bounds N b t \<and> repr N b t z cs \<and> \<not> isBasic z \<and> cs \<noteq> [] \<and> below (b + 1) t cs \<and> cval cs = N"
      using assms(3) unfolding candidate_def by blast
    moreover have "getV z \<le> getV c0" using that(2) assms(1) by (simp add: min_ok_def)
    ultimately show ?thesis unfolding min_ok_def by blast
  qed
  show ?thesis unfolding minV_def Let_def using new [OF assms(4)] new [OF assms(5)] assms(1) by auto
qed

lemma cells_null_basic: "(isNULL (fst (cells n b t)) \<longrightarrow> \<not> isBasic (fst (cells n b t))) \<and>
    (isNULL (snd (cells n b t)) \<longrightarrow> \<not> isBasic (snd (cells n b t)))"
proof (induction n b t rule: cells.induct)
  case (1 n b t)
  have add: "isNULL (add_DBC c r d u s) \<longrightarrow> \<not> isBasic (add_DBC c r d u s)" if "isNULL c \<longrightarrow> \<not> isBasic c" for c r d u s
    using that by (simp add: add_DBC_def new_DBC_def)
  show ?case
  proof (cases "b < 0 \<or> t < 0 \<or> b + t = 0")
    case True
    then show ?thesis by (auto simp: cells.simps [of n b t] zero_cell_def null_cell_def setNULL_def new_DBC_def)
  next
    case False
    with "1.IH" have "isNULL (fst (cells n (b - 1) t)) \<longrightarrow> \<not> isBasic (fst (cells n (b - 1) t))"
      "isNULL (snd (cells n (b - 1) t)) \<longrightarrow> \<not> isBasic (snd (cells n (b - 1) t))"
      "isNULL (fst (cells n b (t - 1))) \<longrightarrow> \<not> isBasic (fst (cells n b (t - 1)))"
      "isNULL (snd (cells n b (t - 1))) \<longrightarrow> \<not> isBasic (snd (cells n b (t - 1)))" by auto
    then show ?thesis using False by (subst (1 2 3 4) cells.simps) (simp add: cell_step_def Let_def minL_def add)
  qed
qed

text \<open>At the bound of its column the number is below the power: either it is the residue itself, or the
  power is added to the negative residue.\<close>

lemma candidates_at_bound:
  assumes k: "is_bound N t b" and t: "0 \<le> t" and small: "b < 65536" "t < 65536" and N: "0 < N"
  shows "\<not> pw b t \<le> N" "candidate N b t (fst (cells N b t))"
    "candidate N b t (add_DBC (snd (cells N b t)) (W_neg b t) b t 1)"
proof -
  have b: "0 \<le> b" "pw b t \<le> 2 * N" "2 * N < 2 * pw b t" using k by (auto simp: is_bound_def)
  then show "\<not> pw b t \<le> N" by simp
  have m: "N mod pw b t = N" using b N by (simp add: mod_pos_pos_trivial)
  have g: "good N b t (fst (cells N b t)) N" "good N b t (snd (cells N b t)) (N - pw b t)"
    using cells_good [of N b t] N small by (simp_all add: m)
  show "candidate N b t (fst (cells N b t))"
  proof (cases "isNULL (fst (cells N b t))")
    case True
    then show ?thesis using cells_null_basic by (simp add: candidate_def)
  next
    case False
    then obtain cs where cs: "repr N b t (fst (cells N b t)) cs" "below b t cs" "cval cs = N" using g(1) by (auto simp: good_def)
    then have ne: "cs \<noteq> []" using N by auto
    have "\<not> isBasic (fst (cells N b t))" using cs(1) ne by (auto elim: repr.cases)
    then show ?thesis using cs ne below_mono [OF cs(2), of "b + 1" t] by (auto simp: candidate_def)
  qed
  show "candidate N b t (add_DBC (snd (cells N b t)) (W_neg b t) b t 1)" (is "candidate N b t ?c")
  proof (cases "isNULL (snd (cells N b t))")
    case True
    then show ?thesis using cells_null_basic [of N b t] by (simp add: candidate_def add_DBC_def)
  next
    case False
    then obtain cs where cs: "repr N b t (snd (cells N b t)) cs" "below b t cs" "cval cs = N - pw b t" using g(2) by (auto simp: good_def)
    have c: "\<not> isNULL ?c" "\<not> isBasic ?c" "parent ?c = Some (W_neg b t)" "len ?c = len (snd (cells N b t)) + 1"
      "addNode ?c = \<lparr>dbl = b, tpl = t, minus = False\<rparr>"
      using False b t small by (simp_all add: add_DBC_def new_DBC_def setdata_def)
    have "repr N b t ?c (addNode ?c # cs)"
      using c cs(1) repr_len [OF cs(1)] b t by (intro repr_Cons [where ref = "W_neg b t"]) auto
    moreover have "below (b + 1) t (addNode ?c # cs)" "cval (addNode ?c # cs) = N" using c(5) cs b t by (auto simp: tval_def pw_def)
    ultimately show ?thesis using c(2) unfolding candidate_def by blast
  qed
qed

section \<open>The loops fill the tables\<close>

text \<open>The cells done when the loops are at \<open>(io, jo)\<close>, \<open>(i, j)\<close>.\<close>

definition done_at :: "nat \<Rightarrow> nat \<Rightarrow> nat \<Rightarrow> nat \<Rightarrow> int \<Rightarrow> int \<Rightarrow> bool" where
  "done_at jo io j i b t \<longleftrightarrow> t < int (18 * jo) \<or> (t < int (18 * jo + 18) \<and> b < int (32 * io)) \<or>
     (t < int (18 * jo + j) \<and> b < int (32 * io + 32)) \<or> (j < 18 \<and> t = int (18 * jo + j) \<and> b < int (32 * io + i))"

lemma done_row: "j < 18 \<Longrightarrow> b \<le> log2B \<Longrightarrow> k = 32 \<or> \<not> \<not> int (io * 32 + k) > log2B \<Longrightarrow> done_at jo io (Suc j) 0 b t \<Longrightarrow> done_at jo io j k b t"
  by (auto simp: done_at_def)

lemma done_block: "t \<le> log3B \<Longrightarrow> k = 18 \<or> \<not> \<not> int (jo * 18 + k) > log3B \<Longrightarrow> done_at jo (Suc io) 0 0 b t \<Longrightarrow> done_at jo io k 0 b t"
  by (auto simp: done_at_def)

text \<open>The numbers of blocks divide with truncation, as C does; the bounds that matter are not negative.\<close>

lemma sdiv_nonneg: "0 \<le> k \<Longrightarrow> 0 < m \<Longrightarrow> k sdiv m = k div m" for k m :: int
  by (cases "k = 0") (simp_all add: signed_divide_int_def)

lemma done_band: "0 \<le> b \<Longrightarrow> b \<le> k \<Longrightarrow> t < int (18 * jo + 18) \<Longrightarrow> done_at jo (nat (k sdiv 32 + 2)) 0 0 b t"
proof -
  assume a: "0 \<le> b" "b \<le> k" "t < int (18 * jo + 18)"
  then have s: "k sdiv 32 = k div 32" by (intro sdiv_nonneg) simp_all
  have "k < 32 * (k div 32 + 2)" "0 \<le> k div 32" using a by (simp_all add: pos_imp_zdiv_nonneg_iff)
  then have "b < int (32 * nat (k sdiv 32 + 2))" using a s by simp
  then show ?thesis using a unfolding done_at_def by blast
qed

lemma done_all: "0 \<le> t \<Longrightarrow> t \<le> k \<Longrightarrow> done_at (nat (k sdiv 18 + 2)) 0 0 0 b t"
proof -
  assume a: "0 \<le> t" "t \<le> k"
  then have s: "k sdiv 18 = k div 18" by (intro sdiv_nonneg) simp_all
  have "k < 18 * (k div 18 + 2)" "0 \<le> k div 18" using a by (simp_all add: pos_imp_zdiv_nonneg_iff)
  then have "t < int (18 * nat (k sdiv 18 + 2))" using a s by simp
  then show ?thesis unfolding done_at_def by blast
qed

definition search_inv :: "nat \<Rightarrow> int \<Rightarrow> int \<Rightarrow> optimal_DBC \<Rightarrow> (nat \<Rightarrow> chain) \<Rightarrow> (int \<Rightarrow> int \<Rightarrow> bool) \<Rightarrow> search_state \<Rightarrow> bool" where
  "search_inv INTS N log3B c0 now D st \<longleftrightarrow> base_ok INTS st \<and>
     (\<forall>b t. in_bounds N b t \<and> D b t \<longrightarrow> table_ok N st b t) \<and>
     (\<forall>u. int u \<le> log3B \<longrightarrow> is_bound N (int u) (bBound st u)) \<and> min_ok N c0 (w_min st) \<and> now_DBC st = now"

lemma search_inv_mono:
  "search_inv INTS N log3B c0 now D st \<Longrightarrow> (\<And>b t. in_bounds N b t \<Longrightarrow> E b t \<Longrightarrow> D b t) \<Longrightarrow> search_inv INTS N log3B c0 now E st"
  by (auto simp: search_inv_def)

lemma set_cell_simps [simp]:
  "bBound (set_cell q b t st) = bBound st" "w_min (set_cell q b t st) = w_min st" "now_DBC (set_cell q b t st) = now_DBC st"
  by (simp_all add: set_cell_def Let_def)

lemma set_cell_inv:
  assumes inv: "search_inv INTS N log3B c0 now D st" and bt: "0 \<le> b" "0 \<le> t" "b + t \<noteq> 0"
    and l: "table_ok N st (b - 1) t" and d: "table_ok N st b (t - 1)" and E: "\<And>b' t'. E b' t' \<Longrightarrow> D b' t' \<or> b' = b \<and> t' = t"
  shows "search_inv INTS N log3B c0 now E (set_cell (word_of_int (quot N b t)) b t st)"
proof -
  have c: "cells N b t = cell_step (word_of_int (quot N b t)) b t (cells N (b - 1) t) (cells N b (t - 1))"
    using bt by (subst cells.simps) simp
  have "table_ok N (set_cell (word_of_int (quot N b t)) b t st) b' t' \<longleftrightarrow> b' = b \<and> t' = t \<or> table_ok N st b' t'" for b' t'
    using l d by (auto simp: set_cell_def Let_def table_ok_def c)
  moreover have "base_ok INTS (set_cell q b t st) \<longleftrightarrow> base_ok INTS st" for q
    using bt by (auto simp: set_cell_def Let_def base_ok_def)
  ultimately show ?thesis using inv E unfolding search_inv_def by (simp, blast)
qed

lemma set_min_inv:
  assumes ok: "search_ok INTS n log2B log3B" and inv: "search_inv INTS (big_val n) log3B c0 now D st"
    and D: "D (int b) (int t)" and t: "int t \<le> log3B" and k: "is_bound (big_val n) (int t) (int b)" and c0: "getV c0 \<le> 99999999"
  shows "search_inv INTS (big_val n) log3B c0 now D (set_min INTS n (int b) (int t) st)"
proof -
  have ib: "in_bounds (big_val n) (int b) (int t)" using k by (simp add: in_bounds_def is_bound_def)
  have "INTS \<le> 20" using ok by (simp add: search_ok_def)
  then have small: "int b < 65536" "int t < 65536"
    using in_bounds_logs [OF ok ib] by (auto simp: MAX_2_def MAX_3_def)
  have N: "0 < big_val n" using ok by (simp add: search_ok_def)
  note cand = candidates_at_bound [OF k _ small N]
  have tab: "table_ok (big_val n) st (int b) (int t)" using inv D ib by (simp add: search_inv_def)
  have le: "pw (int b) (int t) \<le> 6 * big_val n" using ib N by (simp add: in_bounds_def)
  have "\<not> big_ge n (pow23_all INTS b t)" using pow_ge [OF ok _ t le, of n] cand(1) ok by (simp add: search_ok_def)
  then have e: "set_min INTS n (int b) (int t) st =
      st\<lparr>w_min := minV (fst (cells (big_val n) (int b) (int t))) (add_DBC (snd (cells (big_val n) (int b) (int t))) (W_neg (int b) (int t)) (int b) (int t) 1) (w_min st)\<rparr>"
    using tab by (simp add: set_min_def table_ok_def)
  have "min_ok (big_val n) c0 (w_min (set_min INTS n (int b) (int t) st))"
    unfolding e using inv cand(2,3) by (simp, intro min_ok_step [OF _ c0 ib]) (simp_all add: search_inv_def)
  then show ?thesis using inv unfolding e by (simp add: search_inv_def base_ok_def table_ok_def)
qed

lemma search_cell_inv:
  assumes ok: "search_ok INTS n log2B log3B" and inv: "search_inv INTS (big_val n) log3B c0 now (done_at jo io j i) st"
    and T: "big_val temp = 6 * big_val n div pw (32 * int io) (18 * int jo)" "length temp = INTS"
    and ij: "i < 32" "j < 18" and t: "int (jo * 18 + j) \<le> log3B" and c0: "getV c0 \<le> 99999999"
  shows "search_inv INTS (big_val n) log3B c0 now (done_at jo io j (Suc i)) (search_cell INTS n (mod_2_33_3_19 temp) jo io j i st)"
proof -
  define b where "b = io * 32 + i"
  define u where "u = jo * 18 + j"
  let ?N = "big_val n"
  have bd: "is_bound ?N (int u) (bBound st u)" using inv t unfolding search_inv_def u_def by blast
  have more: "done_at jo io j (Suc i) b' t' \<Longrightarrow> done_at jo io j i b' t' \<or> b' = int b \<and> t' = int u" for b' t'
    by (auto simp: done_at_def b_def u_def)
  have ib: "in_bounds ?N (int b) (int u) \<longleftrightarrow> int b \<le> bBound st u" using in_bounds_iff [OF bd] by simp
  define st1 where "st1 = (if b + u > 0 \<and> int b \<le> bBound st u
      then set_cell (mod_2_33_3_19 temp div pow23_1 i j mod 6) (int b) (int u) st else st)"
  have inv1: "search_inv INTS ?N log3B c0 now (done_at jo io j (Suc i)) st1"
  proof (cases "b + u > 0 \<and> int b \<le> bBound st u")
    case True
    then have ib': "in_bounds ?N (int b) (int u)" using ib by simp
    note logs = in_bounds_logs [OF ok ib']
    have base: "base_ok INTS st" using inv by (simp add: search_inv_def)
    have tab: "table_ok ?N st b' t'" if "in_bounds ?N b' t'" "done_at jo io j i b' t'" for b' t'
      using inv that by (simp add: search_inv_def)
    have l: "table_ok ?N st (int b - 1) (int u)"
    proof (cases "b = 0")
      case True
      then show ?thesis using base_table(3) [OF base, of "int u"] logs by simp
    next
      case False
      then show ?thesis using in_bounds_less [OF ib', of "int b - 1" "int u"] ij
        by (intro tab) (auto simp: done_at_def b_def u_def)
    qed
    have d: "table_ok ?N st (int b) (int u - 1)"
    proof (cases "u = 0")
      case True
      then show ?thesis using base_table(2) [OF base, of "int b"] logs by simp
    next
      case False
      then show ?thesis using in_bounds_less [OF ib', of "int b" "int u - 1"] ij
        by (intro tab) (auto simp: done_at_def b_def u_def)
    qed
    have q: "mod_2_33_3_19 temp div pow23_1 i j mod 6 = word_of_int (quot ?N (int b) (int u))"
      unfolding b_def u_def using T ok ij by (intro quot_digit) (auto simp: search_ok_def)
    have ne: "int b + int u \<noteq> 0" using True by auto
    show ?thesis unfolding st1_def q using True set_cell_inv [OF inv _ _ ne l d more] by simp
  next
    case False
    have "table_ok ?N st (int b) (int u)" if "in_bounds ?N (int b) (int u)"
    proof -
      have "b = 0" "u = 0" using False that ib by auto
      moreover have "base_ok INTS st" using inv by (simp add: search_inv_def)
      ultimately show ?thesis using base_table(1) [of INTS st ?N] by simp
    qed
    then show ?thesis using False inv more unfolding st1_def search_inv_def by auto
  qed
  have same: "bBound st1 = bBound st" by (simp add: st1_def)
  have "search_cell INTS n (mod_2_33_3_19 temp) jo io j i st = (if int b = bBound st1 u then set_min INTS n (int b) (int u) st1 else st1)"
    by (simp add: search_cell_def Let_def st1_def b_def u_def)
  moreover have "search_inv INTS ?N log3B c0 now (done_at jo io j (Suc i)) (set_min INTS n (int b) (int u) st1)" if "int b = bBound st1 u"
    using bd that t c0 ij by (intro set_min_inv [OF ok inv1]) (auto simp: same u_def done_at_def b_def)
  ultimately show ?thesis using inv1 by simp
qed

lemma search_row_inv:
  assumes ok: "search_ok INTS n log2B log3B" and inv: "search_inv INTS (big_val n) log3B c0 now (done_at jo io j 0) st"
    and T: "big_val temp = 6 * big_val n div pw (32 * int io) (18 * int jo)" "length temp = INTS"
    and j: "j < 18" and t: "int (jo * 18 + j) \<le> log3B" and c0: "getV c0 \<le> 99999999"
  shows "search_inv INTS (big_val n) log3B c0 now (done_at jo io (Suc j) 0) (search_row INTS n log2B (mod_2_33_3_19 temp) jo io j st)"
proof -
  let ?Q = "\<lambda>i_inner. \<not> int (io * 32 + i_inner) > log2B"
  obtain k where k: "takeWhile ?Q [0..<32] = [0..<k]" "k \<le> 32" "k = 32 \<or> \<not> ?Q k"
    using takeWhile_upt [of 32 ?Q] by blast
  have "search_inv INTS (big_val n) log3B c0 now (done_at jo io j k)
      (fold (search_cell INTS n (mod_2_33_3_19 temp) jo io j) [0..<k] st)"
    by (rule fold_upt_inv [where P = "\<lambda>i. search_inv INTS (big_val n) log3B c0 now (done_at jo io j i)", OF inv])
      (use k in \<open>intro search_cell_inv [OF ok _ T _ j t c0]; simp\<close>)
  then show ?thesis unfolding search_row_def k(1)
    using in_bounds_logs(1) [OF ok] k(3) by (elim search_inv_mono) (rule done_row [OF j])
qed

lemma search_block_inv:
  assumes ok: "search_ok INTS n log2B log3B" and inv: "search_inv INTS (big_val n) log3B c0 now (done_at jo io 0 0) st"
    and T: "big_val temp = 6 * big_val n div pw (32 * int io) (18 * int jo)" "length temp = INTS" and c0: "getV c0 \<le> 99999999"
  shows "search_inv INTS (big_val n) log3B c0 now (done_at jo (Suc io) 0 0) (snd (search_block INTS n log2B log3B jo io (temp, st)))"
    "big_val (fst (search_block INTS n log2B log3B jo io (temp, st))) = 6 * big_val n div pw (32 * int (Suc io)) (18 * int jo)"
    "length (fst (search_block INTS n log2B log3B jo io (temp, st))) = INTS"
proof -
  let ?Q = "\<lambda>j_inner. \<not> int (jo * 18 + j_inner) > log3B"
  obtain k where k: "takeWhile ?Q [0..<18] = [0..<k]" "k \<le> 18" "\<forall>j < k. ?Q j" "k = 18 \<or> \<not> ?Q k"
    using takeWhile_upt [of 18 ?Q] by blast
  have "search_inv INTS (big_val n) log3B c0 now (done_at jo io k 0)
      (fold (search_row INTS n log2B (mod_2_33_3_19 temp) jo io) [0..<k] st)"
    by (rule fold_upt_inv [where P = "\<lambda>j. search_inv INTS (big_val n) log3B c0 now (done_at jo io j 0)", OF inv])
      (use k in \<open>intro search_row_inv [OF ok _ T _ _ c0]; force\<close>)
  then show "search_inv INTS (big_val n) log3B c0 now (done_at jo (Suc io) 0 0) (snd (search_block INTS n log2B log3B jo io (temp, st)))"
    unfolding search_block_def k(1) Let_def snd_conv fst_conv
    using in_bounds_logs(2) [OF ok] k(4) by (elim search_inv_mono) (rule done_block)
  have "pw (32 * int io) (18 * int jo) * 2 ^ 32 = pw (32 * int (Suc io)) (18 * int jo)"
    by (simp add: pw_def nat_add_distrib power_add)
  then show "big_val (fst (search_block INTS n log2B log3B jo io (temp, st))) = 6 * big_val n div pw (32 * int (Suc io)) (18 * int jo)"
    using T by (simp add: search_block_def Let_def rshift_32_val zdiv_zmult2_eq [symmetric])
  show "length (fst (search_block INTS n log2B log3B jo io (temp, st))) = INTS"
    using T by (simp add: search_block_def Let_def)
qed

lemma search_band_inv:
  assumes ok: "search_ok INTS n log2B log3B" and inv: "search_inv INTS (big_val n) log3B c0 now (done_at jo 0 0 0) st"
    and R: "big_val rec = 6 * big_val n div pw 0 (18 * int jo)" "length rec = INTS" and c0: "getV c0 \<le> 99999999"
  shows "search_inv INTS (big_val n) log3B c0 now (done_at (Suc jo) 0 0 0) (snd (search_band INTS n log2B log3B jo (rec, st)))"
    "big_val (fst (search_band INTS n log2B log3B jo (rec, st))) = 6 * big_val n div pw 0 (18 * int (Suc jo))"
    "length (fst (search_band INTS n log2B log3B jo (rec, st))) = INTS"
proof -
  define K where "K = nat (bBound st (jo * 18) sdiv 32 + 2)"
  let ?P = "\<lambda>io ts. search_inv INTS (big_val n) log3B c0 now (done_at jo io 0 0) (snd ts) \<and>
      big_val (fst ts) = 6 * big_val n div pw (32 * int io) (18 * int jo) \<and> length (fst ts) = INTS"
  have "?P K (fold (search_block INTS n log2B log3B jo) [0..<K] (rec, st))"
  proof (rule fold_upt_inv [where P = ?P])
    fix io ts
    assume "?P io ts"
    then show "?P (Suc io) (search_block INTS n log2B log3B jo io ts)"
      using search_block_inv [OF ok _ _ _ c0, of now jo io "snd ts" "fst ts"] by simp
  qed (use inv R in simp)
  then have "search_inv INTS (big_val n) log3B c0 now (done_at jo K 0 0) (snd (search_band INTS n log2B log3B jo (rec, st)))"
    by (simp add: search_band_def K_def)
  then show "search_inv INTS (big_val n) log3B c0 now (done_at (Suc jo) 0 0 0) (snd (search_band INTS n log2B log3B jo (rec, st)))"
  proof (rule search_inv_mono)
    fix b t
    assume ib: "in_bounds (big_val n) b t" and d: "done_at (Suc jo) 0 0 0 b t"
    have nn: "0 \<le> b" "0 \<le> t" using ib by (simp_all add: in_bounds_def)
    then have t: "t < int (18 * jo + 18)" using d by (auto simp: done_at_def)
    show "done_at jo K 0 0 b t"
    proof (cases "t < int (18 * jo)")
      case False
      then have "int (jo * 18) \<le> log3B" using in_bounds_logs(2) [OF ok ib] by simp
      then have bd: "is_bound (big_val n) (int (jo * 18)) (bBound st (jo * 18))" using inv unfolding search_inv_def by blast
      have "in_bounds (big_val n) b (int (jo * 18))" using False nn by (intro in_bounds_less [OF ib]) simp_all
      then have "b \<le> bBound st (jo * 18)" using in_bounds_iff [OF bd nn(1)] by simp
      then show ?thesis unfolding K_def using t nn by (intro done_band)
    qed (simp add: done_at_def)
  qed
  have "pw 0 (18 * int jo) * 3 ^ 18 = pw 0 (18 * int (Suc jo))"
    by (simp add: pw_def nat_add_distrib power_add)
  then show "big_val (fst (search_band INTS n log2B log3B jo (rec, st))) = 6 * big_val n div pw 0 (18 * int (Suc jo))"
    using R by (simp add: search_band_def div_3_18_val zdiv_zmult2_eq [symmetric])
  show "length (fst (search_band INTS n log2B log3B jo (rec, st))) = INTS" using R by (simp add: search_band_def)
qed

lemma search_loops_inv:
  assumes ok: "search_ok INTS n log2B log3B" and inv: "search_inv INTS (big_val n) log3B c0 now (\<lambda>b t. False) st" and c0: "getV c0 \<le> 99999999"
  shows "search_inv INTS (big_val n) log3B c0 now (\<lambda>b t. True)
    (snd (fold (search_band INTS n log2B log3B) [0..<nat (log3B sdiv 18 + 2)] (mul_3 (mul_2 n), st)))"
proof -
  let ?P = "\<lambda>jo rs. search_inv INTS (big_val n) log3B c0 now (done_at jo 0 0 0) (snd rs) \<and>
      big_val (fst rs) = 6 * big_val n div pw 0 (18 * int jo) \<and> length (fst rs) = INTS"
  have start: "search_inv INTS (big_val n) log3B c0 now (done_at 0 0 0 0) st"
    by (rule search_inv_mono [OF inv]) (auto simp: in_bounds_def done_at_def)
  have "?P (nat (log3B sdiv 18 + 2)) (fold (search_band INTS n log2B log3B) [0..<nat (log3B sdiv 18 + 2)] (mul_3 (mul_2 n), st))"
  proof (rule fold_upt_inv [where P = ?P])
    fix jo rs
    assume "?P jo rs"
    then show "?P (Suc jo) (search_band INTS n log2B log3B jo rs)"
      using search_band_inv [OF ok _ _ _ c0, of now jo "snd rs" "fst rs"] by simp
  qed (use start six_n_val [OF ok] in simp)
  then show ?thesis
    using in_bounds_logs(2) [OF ok] by (elim conjE search_inv_mono, intro done_all) (simp_all add: in_bounds_def)
qed

end
