(* ===== verification/Dbc_Search_Result.thy ===== *)
theory Dbc_Search_Result
  imports Dbc_Search_Correct
begin

text \<open>
  The result of the search: the chain it stores has the value of its number and costs no more than the
  binary expansion, and the tables are ready for the next search.
\<close>

section \<open>The binary expansion\<close>

definition buffer :: "(nat \<Rightarrow> chain) \<Rightarrow> nat \<Rightarrow> chain list" where
  "buffer now l = map now [0..<l]"

lemma buffer_Suc: "buffer (now(l := c)) (Suc l) = buffer now l @ [c]"
  by (simp add: buffer_def)

lemma assign_bits_val:
  assumes "assign_bits x [j..<32] flag (bt + j) now = (flag', bt', now')" "j \<le> 32" "bt + 32 \<le> 65536"
    "below (int (bt + j)) 0 (rev (buffer now flag))" "cval (rev (buffer now flag)) = v + 2 ^ bt * uint (take_bit j x)"
    "list_all (\<lambda>c. \<not> minus c) (buffer now flag)"
  shows "bt' = bt + 32 \<and> below (int bt') 0 (rev (buffer now' flag')) \<and> cval (rev (buffer now' flag')) = v + 2 ^ bt * uint (x :: uint32) \<and> list_all (\<lambda>c. \<not> minus c) (buffer now' flag')"
  using assms
proof (induction "32 - j" arbitrary: j flag now)
  case 0
  then have "j = 32" by simp
  with 0 show ?case by (simp add: take_bit_word_eq_self)
next
  case (Suc k)
  then have j: "j < 32" by simp
  have tb: "uint (take_bit (Suc j) x) = uint (take_bit j x) + of_bool (bit x j) * 2 ^ j"
    using j by (simp add: unsigned_take_bit_eq take_bit_Suc_from_most bit_unsigned_iff)
  have m: "int (bt + j) mod 65536 = int (bt + j)" using j Suc.prems(3) by simp
  have run: "assign_bits x [Suc j..<32] (if bit x j then flag + 1 else flag) (bt + Suc j)
      (if bit x j then now(flag := setdata (int (bt + j)) 0 False) else now) = (flag', bt', now')"
    using Suc.prems(1) j by (simp add: upt_conv_Cons [OF j] bit_iff_and_push_bit_not_eq_0 split: if_splits)
  show ?case
  proof (cases "bit x j")
    case True
    define c where "c = setdata (int (bt + j)) 0 False"
    have c: "dbl c = int (bt + j)" "tpl c = 0" "tval c = 2 ^ (bt + j)" using m by (simp_all add: c_def setdata_def tval_def)
    show ?thesis
    proof (rule Suc.hyps(1))
      show "assign_bits x [Suc j..<32] (Suc flag) (bt + Suc j) (now(flag := c)) = (flag', bt', now')" using run True by (simp add: c_def)
      show "below (int (bt + Suc j)) 0 (rev (buffer (now(flag := c)) (Suc flag)))"
        using Suc.prems(4) c by (simp add: buffer_Suc)
      show "list_all (\<lambda>c. \<not> minus c) (buffer (now(flag := c)) (Suc flag))" using Suc.prems(6) by (simp add: buffer_Suc c_def setdata_def)
      show "cval (rev (buffer (now(flag := c)) (Suc flag))) = v + 2 ^ bt * uint (take_bit (Suc j) x)"
        using Suc.prems(5) c True by (simp add: buffer_Suc tb power_add algebra_simps)
    qed (use Suc.hyps(2) Suc.prems(3) j in simp_all)
  next
    case False
    show ?thesis
    proof (rule Suc.hyps(1))
      show "assign_bits x [Suc j..<32] flag (bt + Suc j) now = (flag', bt', now')" using run False by simp
      show "below (int (bt + Suc j)) 0 (rev (buffer now flag))" using below_mono [OF Suc.prems(4)] by simp
      show "cval (rev (buffer now flag)) = v + 2 ^ bt * uint (take_bit (Suc j) x)"
        using Suc.prems(5) False by (simp add: tb)
      show "list_all (\<lambda>c. \<not> minus c) (buffer now flag)" by (rule Suc.prems(6))
    qed (use Suc.hyps(2) Suc.prems(3) j in simp_all)
  qed
qed

lemma assign_words_val:
  assumes "assign_words xs flag bt now = (flag', bt', now')" "bt + 32 * length xs \<le> 65536"
    "below (int bt) 0 (rev (buffer now flag))" "cval (rev (buffer now flag)) = v" "list_all (\<lambda>c. \<not> minus c) (buffer now flag)"
  shows "bt' = bt + 32 * length xs \<and> below (int bt') 0 (rev (buffer now' flag')) \<and>
    cval (rev (buffer now' flag')) = v + 2 ^ bt * big_val (rev xs) \<and> list_all (\<lambda>c. \<not> minus c) (buffer now' flag')"
  using assms
proof (induction xs arbitrary: flag bt now v)
  case (Cons x xs)
  obtain f1 b1 n1 where r: "assign_bits x [0..<32] flag bt now = (f1, b1, n1)" by (metis prod_cases3)
  have s: "b1 = bt + 32 \<and> below (int b1) 0 (rev (buffer n1 f1)) \<and> cval (rev (buffer n1 f1)) = v + 2 ^ bt * uint x \<and> list_all (\<lambda>c. \<not> minus c) (buffer n1 f1)"
    by (rule assign_bits_val [of x 0 flag bt now]) (use r Cons.prems in simp_all)
  have "bt' = b1 + 32 * length xs \<and> below (int bt') 0 (rev (buffer now' flag')) \<and>
      cval (rev (buffer now' flag')) = v + 2 ^ bt * uint x + 2 ^ b1 * big_val (rev xs) \<and> list_all (\<lambda>c. \<not> minus c) (buffer now' flag')"
  proof (rule Cons.IH)
    show "assign_words xs f1 b1 n1 = (flag', bt', now')" using Cons.prems(1) r by simp
    show "below (int b1) 0 (rev (buffer n1 f1))" using s by blast
  qed (use s Cons.prems(2) in simp_all)
  then have a: "bt' = bt + 32 * length (x # xs)" "below (int bt') 0 (rev (buffer now' flag'))"
    "cval (rev (buffer now' flag')) = v + 2 ^ bt * big_val (rev (x # xs))" "list_all (\<lambda>c. \<not> minus c) (buffer now' flag')"
    using s by (auto simp: big_val_append power_add algebra_simps)
  show ?case by (intro conjI a)
qed simp

lemma assign_big_val:
  assumes len: "32 * length n \<le> 65536" and n: "0 < big_val n"
  obtains c' now' cs where "assign_big c n now = Some (c', now')" "isBasic c'" "len c' = int (length cs)" "buffer now' (length cs) = rev cs"
    "cs \<noteq> []" "below (int (32 * length n)) 0 cs" "cval cs = big_val n" "getV c' = cost cs" "list_all (\<lambda>c. \<not> minus c) cs"
proof -
  obtain flag bt now' where r: "assign_words (rev n) 0 0 now = (flag, bt, now')" by (metis prod_cases3)
  define cs where "cs = rev (buffer now' flag)"
  have v: "below (int (32 * length n)) 0 cs" "cval cs = big_val n" "list_all (\<lambda>c. \<not> minus c) cs"
  proof -
    have "bt = 0 + 32 * length (rev n) \<and> below (int bt) 0 cs \<and> cval cs = 0 + 2 ^ 0 * big_val (rev (rev n)) \<and> list_all (\<lambda>c. \<not> minus c) (buffer now' flag)"
      unfolding cs_def by (rule assign_words_val [OF r]) (use len in \<open>simp_all add: buffer_def\<close>)
    then show "below (int (32 * length n)) 0 cs" "cval cs = big_val n" "list_all (\<lambda>c. \<not> minus c) cs" by (auto simp: cs_def)
  qed
  have l: "length cs = flag" by (simp add: cs_def buffer_def)
  have ne: "cs \<noteq> []" using v n by auto
  then have f: "flag \<noteq> 0" using l by auto
  have "hd cs = now' (flag - 1)" using f by (simp add: cs_def buffer_def hd_rev last_map)
  moreover have "tpl (hd cs) = 0" using v(1) ne by (cases cs) auto
  ultimately have "dbl (now' (flag - 1)) * DBL_COST + ADD_COST * (int flag - 1) = cost cs"
    by (simp add: cost_def l mult.commute)
  then show ?thesis
    using that [of "c\<lparr>len := int flag, basic_value := dbl (now' (flag - 1)) * DBL_COST + ADD_COST * (int flag - 1), isBasic := True\<rparr>" now' cs]
      r f v ne l by (simp add: assign_big_def getV_def cs_def buffer_def)
qed

section \<open>Writing out and storing\<close>

lemma sim_loop_val:
  assumes "repr N B T c cs" "\<And>ref. ref_in B T ref \<Longrightarrow> tbl ref = ideal N ref"
  shows "\<exists>now'. sim_loop tbl (length cs) (Some c) now = Some now' \<and> buffer now' (length cs) = rev cs \<and> (\<forall>i \<ge> length cs. now' i = now i)"
  using assms(1)
proof (induction arbitrary: now rule: repr.induct)
  case (repr_Nil c)
  then show ?case by (simp add: buffer_def)
next
  case (repr_Cons c ref cs)
  obtain now' where "sim_loop tbl (length cs) (Some (ideal N ref)) (now(length cs := addNode c)) = Some now'"
    "buffer now' (length cs) = rev cs" "\<forall>i \<ge> length cs. now' i = (now(length cs := addNode c)) i"
    using repr_Cons.IH by blast
  then show ?case using repr_Cons assms(2) by (auto simp: buffer_def)
qed

definition term_of_chain :: "chain \<Rightarrow> int \<times> int \<times> int" where
  "term_of_chain c = (1 - 2 * of_bool (minus c), dbl c, tpl c)"

lemma store_rev:
  fixes f :: "nat \<Rightarrow> 'a"
  shows "k \<le> l \<Longrightarrow> map (fold (\<lambda>i row. row(l - i - 1 := f i)) [0..<k] row) [l - k..<l] = rev (map f [0..<k])"
proof (induction k)
  case (Suc k)
  define F where "F k = fold (\<lambda>i row. row(l - i - 1 := f i)) [0..<k] row" for k
  have "[l - Suc k..<l] = (l - Suc k) # [l - k..<l]" using Suc.prems by (subst upt_conv_Cons) (simp_all add: Suc_diff_Suc)
  moreover have "F (Suc k) = (F k)(l - Suc k := f k)" by (simp add: F_def)
  moreover have "l - Suc k \<notin> set [l - k..<l]" using Suc.prems by simp
  ultimately have "map (F (Suc k)) [l - Suc k..<l] = f k # map (F k) [l - k..<l]"
    by (simp del: fun_upd_apply add: fun_upd_same)
  also have "map (F k) [l - k..<l] = rev (map f [0..<k])" unfolding F_def by (rule Suc.IH) (use Suc.prems in simp)
  finally have "map (F (Suc k)) [l - Suc k..<l] = rev (map f [0..<Suc k])" by simp
  then show ?case unfolding F_def .
qed simp

lemma store_chain_val:
  assumes "len (w_min st) = int (length cs)" "buffer (now_DBC st) (length cs) = rev cs"
  shows "map (DBC_store (store_chain st) 0) [0..<length cs] = map term_of_chain cs" "DBC_len (store_chain st) 0 = int (length cs)"
proof -
  have "map (DBC_store (store_chain st) 0) [0..<length cs] = rev (map (\<lambda>i. term_of_chain (now_DBC st i)) [0..<length cs])"
    using store_rev [of "length cs" "length cs" "\<lambda>i. term_of_chain (now_DBC st i)" "DBC_store st 0"] assms(1)
    by (simp add: store_chain_def Let_def term_of_chain_def)
  also have "map (\<lambda>i. term_of_chain (now_DBC st i)) [0..<length cs] = map term_of_chain (buffer (now_DBC st) (length cs))"
    by (simp add: buffer_def)
  finally show "map (DBC_store (store_chain st) 0) [0..<length cs] = map term_of_chain cs" unfolding assms(2) by (simp add: rev_map)
  show "DBC_len (store_chain st) 0 = int (length cs)" by (simp add: store_chain_def Let_def assms(1))
qed

section \<open>The search\<close>

lemma repr_cost:
  assumes "repr N B T c cs" "\<not> isBasic c" "cs \<noteq> []"
  shows "getV c = cost cs"
  using assms
  by (cases rule: repr.cases) (auto simp: getV_def cost_def)

lemma repr_not_null: "repr N B T c cs \<Longrightarrow> \<not> isNULL c"
  by (induction rule: repr.induct) auto

lemma tables_ideal:
  assumes "search_inv INTS N log3B c0 now (\<lambda>b t. True) st" "in_bounds N b t" "ref_in b t ref"
  shows "tables st ref = ideal N ref"
  using assms in_bounds_less [OF assms(2)] by (cases ref) (auto simp: search_inv_def table_ok_def)

lemma search_result:
  assumes ok: "search_ok INTS n log2B log3B" and base: "base_ok INTS st"
  obtains st' cs bs where "getOptimalDBC INTS n log2B log3B st = Some (0, st')" "base_ok INTS st'" "cs \<noteq> []"
    "below (int (32 * INTS)) log3B cs" "cval cs = big_val n" "DBC_len st' 0 = int (length cs)"
    "map (DBC_store st' 0) [0..<length cs] = map term_of_chain cs"
    "below (int (32 * INTS)) 0 bs" "cval bs = big_val n" "list_all (\<lambda>c. \<not> minus c) bs" "cost cs \<le> cost bs"
    "\<forall>b t. in_bounds (big_val n) b t \<longrightarrow> table_ok (big_val n) st' b t" "isNULL (w_min st') \<longrightarrow> isNULL (w_min st)"
proof -
  note ok' = ok [unfolded search_ok_def]
  obtain c0 now0 bs where c0: "assign_big (w_min st) n (now_DBC st) = Some (c0, now0)" "isBasic c0" "len c0 = int (length bs)"
    "buffer now0 (length bs) = rev bs" "bs \<noteq> []" "below (int (32 * length n)) 0 bs" "cval bs = big_val n" "getV c0 = cost bs" "list_all (\<lambda>c. \<not> minus c) bs"
    by (rule assign_big_val [of n "w_min st" "now_DBC st"]) (use ok' in auto)
  have null: "isNULL c0 = isNULL (w_min st)" using c0(1) by (auto simp: assign_big_def split: if_splits prod.splits)
  have lb: "0 \<le> dbl (hd bs)" "dbl (hd bs) \<le> int (32 * INTS)" "tpl (hd bs) = 0" "int (length bs) \<le> int (32 * INTS)"
    using c0(5,6) ok' below_length [OF c0(6)] by (cases bs; auto)+
  have g0: "getV c0 \<le> 99999999" unfolding c0(8) using lb ok' by (simp add: cost_def DBL_COST_def TPL_COST_def ADD_COST_def)
  define st1 where "st1 = st\<lparr>w_min := c0, now_DBC := now0,
      bBound := bound_loop INTS (mul_2 n) [1..<nat (log3B + 1)] log2B ((bBound st)(0 := log2B))\<rparr>"
  have bd: "\<forall>u. int u \<le> log3B \<longrightarrow> is_bound (big_val n) (int u) (bBound st1 u)"
  proof -
    have "pw log2B 1 = 3 * pw log2B 0" using pw_tpl [of 1 log2B] by simp
    then have "pw log2B 1 \<le> 6 * big_val n" "2 * big_val n < 2 * pw log2B 1" using ok' pw_pos [of log2B 0] by linarith+
    then show ?thesis unfolding st1_def
      using bound_loop_ok [OF ok, of 1 log2B "(bBound st)(0 := log2B)"] ok' by (simp add: is_bound_def)
  qed
  have inv1: "search_inv INTS (big_val n) log3B c0 now0 (\<lambda>b t. False) st1"
    using bd base by (simp add: search_inv_def st1_def base_ok_def min_ok_def)
  define st2 where "st2 = snd (fold (search_band INTS n log2B log3B) [0..<nat (log3B sdiv 18 + 2)] (mul_3 (mul_2 n), st1))"
  have inv: "search_inv INTS (big_val n) log3B c0 now0 (\<lambda>b t. True) st2"
    unfolding st2_def by (rule search_loops_inv [OF ok inv1 g0])
  have "\<exists>now cs. simDBC (tables st2) (w_min st2) (now_DBC st2) = Some now \<and> cs \<noteq> [] \<and> below (int (32 * INTS)) log3B cs \<and>
      cval cs = big_val n \<and> len (w_min st2) = int (length cs) \<and> buffer now (length cs) = rev cs \<and> cost cs \<le> cost bs \<and>
      (isNULL (w_min st2) \<longrightarrow> isNULL (w_min st))"
  proof (cases "w_min st2 = c0")
    case True
    then have "simDBC (tables st2) (w_min st2) (now_DBC st2) = Some now0" using c0(2) inv by (simp add: simDBC_def search_inv_def)
    moreover have "below (int (32 * INTS)) log3B bs" using below_mono [OF c0(6)] ok' by auto
    ultimately show ?thesis using True c0 null by auto
  next
    case False
    then obtain b t cs where c: "in_bounds (big_val n) b t" "repr (big_val n) b t (w_min st2) cs" "\<not> isBasic (w_min st2)" "cs \<noteq> []"
      "below (b + 1) t cs" "cval cs = big_val n" and le: "getV (w_min st2) \<le> getV c0"
      using inv by (auto simp: search_inv_def min_ok_def)
    obtain now where "sim_loop (tables st2) (length cs) (Some (w_min st2)) (now_DBC st2) = Some now" "buffer now (length cs) = rev cs"
      using sim_loop_val [OF c(2) tables_ideal [OF inv c(1)]] by blast
    moreover have "below (int (32 * INTS)) log3B cs"
      using in_bounds_logs [OF ok c(1)] by (intro below_mono [OF c(5)]) (auto simp: MAX_2_def)
    ultimately show ?thesis using c le repr_cost [OF c(2,3,4)] repr_len [OF c(2)] c0(8) repr_not_null [OF c(2)]
      by (auto simp: simDBC_def)
  qed
  then obtain now cs where r: "simDBC (tables st2) (w_min st2) (now_DBC st2) = Some now" "cs \<noteq> []" "below (int (32 * INTS)) log3B cs"
    "cval cs = big_val n" "len (w_min st2) = int (length cs)" "buffer now (length cs) = rev cs" "cost cs \<le> cost bs"
    "isNULL (w_min st2) \<longrightarrow> isNULL (w_min st)" by blast
  have run: "getOptimalDBC INTS n log2B log3B st = Some (0, store_chain (st2\<lparr>now_DBC := now\<rparr>))"
    using c0(1) r(1) by (simp add: getOptimalDBC_def st1_def st2_def Let_def)
  have "base_ok INTS (store_chain (st2\<lparr>now_DBC := now\<rparr>))" using inv by (simp add: search_inv_def base_ok_def store_chain_def Let_def)
  moreover have "table_ok (big_val n) (store_chain (st2\<lparr>now_DBC := now\<rparr>)) b t" if "in_bounds (big_val n) b t" for b t
    using inv that by (simp add: search_inv_def table_ok_def store_chain_def Let_def)
  moreover have "isNULL (w_min (store_chain (st2\<lparr>now_DBC := now\<rparr>))) \<longrightarrow> isNULL (w_min st)"
    using r(8) by (simp add: store_chain_def Let_def)
  moreover have "below (int (32 * INTS)) 0 bs" using c0(6) ok' by auto
  ultimately show ?thesis using that run r c0(7,9) store_chain_val [of "st2\<lparr>now_DBC := now\<rparr>" cs] by simp
qed

end
