(* ===== verification/Dbc_Powers.thy ===== *)
theory Dbc_Powers
  imports Dbc_Search_Result
begin

text \<open>
  The table \<open>pow23_all\<close> that \<open>init\<close> prepares is exact for the four sizes \<open>myBigInt.h\<close> defines, although
  tripling may drop a carry: it would take a word of 32 alternating bits, and no power of 3 up to the
  342nd has 31 alternating bits in a row.
\<close>

section \<open>A lost carry needs a word of alternating bits\<close>

lemma lost_carry_word:
  assumes "\<not> uint (x :: uint32) * 3 mod 4294967296 + uint (y :: uint32) * 3 div 4294967296 < 4294967296"
  shows "x = 0x55555555 \<or> x = 0xAAAAAAAA"
proof -
  define q r where "q = uint x * 3 div 4294967296" and "r = uint x * 3 mod 4294967296"
  have e: "3 * uint x = 4294967296 * q + r" unfolding q_def r_def by (simp add: mult.commute)
  have q: "0 \<le> q" "q < 3" using uint32_bounds [of x] div_bound [of 4294967296 "uint x * 3" 3] by (simp_all add: q_def pos_imp_zdiv_nonneg_iff)
  have "uint y * 3 div 4294967296 < 3" using uint32_bounds [of y] by (intro div_bound) simp_all
  then have r: "4294967293 < r" "r < 4294967296" using assms unfolding r_def [symmetric] by (simp, simp add: r_def)
  consider "q = 0" | "q = 1" | "q = 2" using q by linarith
  then have "uint x = 0x55555555 \<or> uint x = 0xAAAAAAAA" using e r by cases presburger+
  then show ?thesis by (auto simp: word_uint_eq_iff)
qed

lemma no_lost_carryI: "0x55555555 \<notin> set data \<Longrightarrow> 0xAAAAAAAA \<notin> set data \<Longrightarrow> no_lost_carry data"
proof (induction data rule: no_lost_carry.induct)
  case (1 x y data)
  then show ?case using lost_carry_word [of x y] by auto
qed simp_all

definition alternates :: "int \<Rightarrow> nat \<Rightarrow> nat \<Rightarrow> bool" where
  "alternates v m k \<longleftrightarrow> (\<forall>i < k. bit v (m + i) \<noteq> bit v (m + i + 1))"

lemma alternating_word: "x = (0x55555555 :: uint32) \<or> x = 0xAAAAAAAA \<Longrightarrow> alternates (uint x) 0 31"
proof -
  have "\<forall>i \<in> set [0..<31]. bit (0x55555555 :: int) i \<noteq> bit (0x55555555 :: int) (i + 1)" by code_simp
  moreover have "\<forall>i \<in> set [0..<31]. bit (0xAAAAAAAA :: int) i \<noteq> bit (0xAAAAAAAA :: int) (i + 1)" by code_simp
  moreover assume "x = (0x55555555 :: uint32) \<or> x = 0xAAAAAAAA"
  ultimately show ?thesis by (auto simp: alternates_def)
qed

text \<open>The word \<open>k\<close> from the right holds the bits from \<open>32 k\<close>.\<close>

lemma word_bits:
  assumes "x \<in> set data"
  shows "\<exists>k. \<forall>a < 32. bit (uint x) a = bit (big_val data) (32 * k + a)"
proof -
  obtain xs ys where d: "data = xs @ x # ys" using assms by (meson split_list)
  let ?B = "2 ^ (32 * length ys) :: int"
  have v: "big_val data = big_val ys + ?B * (big_val xs * 2 ^ 32 + uint x)"
    unfolding d big_val_append by (simp add: algebra_simps power_add)
  have "big_val data div ?B = big_val xs * 2 ^ 32 + uint x"
    unfolding v using big_val_lt [of ys] by (subst div_mult_self2) (simp_all add: div_pos_pos_trivial)
  then have w: "drop_bit (32 * length ys) (big_val data) = uint x + 2 ^ 32 * big_val xs" by (simp add: drop_bit_eq_div)
  have "take_bit 32 (drop_bit (32 * length ys) (big_val data)) = uint x"
    unfolding w using uint32_bounds [of x] by (simp add: take_bit_eq_mod mod_pos_pos_trivial)
  then have "bit (uint x) a = bit (big_val data) (32 * length ys + a)" if "a < 32" for a
    using that by (metis bit_take_bit_iff bit_drop_bit_eq comp_apply)
  then show ?thesis by blast
qed

lemma alternation_of_lost_carry:
  assumes "big_val data = 2 ^ i * 3 ^ j" "\<not> no_lost_carry data"
  obtains m where "alternates (3 ^ j) m 30"
proof -
  obtain x where x: "x \<in> set data" "alternates (uint x) 0 31" using no_lost_carryI assms(2) alternating_word by blast
  obtain k where k: "\<forall>a < 32. bit (uint x) a = bit (big_val data) (32 * k + a)" using word_bits [OF x(1)] by blast
  have b: "bit (uint x) a \<longleftrightarrow> i \<le> 32 * k + a \<and> bit ((3 :: int) ^ j) (32 * k + a - i)" if "a < 32" for a
  proof -
    have "big_val data = push_bit i (3 ^ j)" using assms(1) by (simp add: push_bit_eq_mult)
    then show ?thesis using k that by (simp add: bit_push_bit_iff)
  qed
  have alt: "bit (uint x) a \<noteq> bit (uint x) (a + 1)" if "a < 31" for a using x(2) that by (simp add: alternates_def)
  consider "i \<le> 32 * k" | "i = 32 * k + 1" | "32 * k + 1 < i" by linarith
  then show ?thesis
  proof cases
    case 1
    then obtain d where d: "32 * k = i + d" using le_Suc_ex by blast
    have "bit ((3 :: int) ^ j) (d + a) \<noteq> bit ((3 :: int) ^ j) (d + a + 1)" if "a < 30" for a
      using alt [of a] b [of a] b [of "a + 1"] that by (simp add: d)
    then show ?thesis by (intro that [of d]) (simp add: alternates_def)
  next
    case 2
    have "bit ((3 :: int) ^ j) (0 + a) \<noteq> bit ((3 :: int) ^ j) (0 + a + 1)" if "a < 30" for a
      using alt [of "a + 1"] b [of "a + 1"] b [of "a + 2"] that 2 by simp
    then show ?thesis by (intro that [of 0]) (simp add: alternates_def)
  next
    case 3
    then show ?thesis using alt [of 0] b [of 0] b [of 1] by simp
  qed
qed

section \<open>The powers of 3\<close>

text \<open>A run of 30 ones among the differences of neighbouring bits, by doubling.\<close>

definition no_alternation :: "int \<Rightarrow> bool" where
  "no_alternation v =
     (let y = xor v (drop_bit 1 v);
          y = and y (drop_bit 1 y);
          y = and y (drop_bit 2 y);
          y = and y (drop_bit 4 y);
          y = and y (drop_bit 8 y) in and y (drop_bit 14 y) = 0)"

lemma bit_run:
  fixes y :: int
  assumes "\<And>i. i < k \<Longrightarrow> bit y (m + i)" "i + d < k"
  shows "bit (and y (drop_bit d y)) (m + i)"
  using assms(1) [of i] assms(1) [of "i + d"] assms(2) by (simp add: bit_and_iff bit_drop_bit_eq ac_simps)

lemma no_alternation: "no_alternation v \<Longrightarrow> \<not> alternates v m 30"
proof
  assume n: "no_alternation v" and "alternates v m 30"
  then have y0: "bit (xor v (drop_bit 1 v)) (m + i)" if "i < 30" for i
    using that by (simp add: alternates_def bit_xor_iff bit_drop_bit_eq)
  define y where "y = xor v (drop_bit 1 v)"
  have y0: "\<And>i. i < 30 \<Longrightarrow> bit y (m + i)" unfolding y_def by (rule y0)
  define y1 where "y1 = and y (drop_bit 1 y)"
  have y1: "\<And>i. i < 29 \<Longrightarrow> bit y1 (m + i)" unfolding y1_def by (rule bit_run [where k = 30, OF y0]) linarith+
  define y2 where "y2 = and y1 (drop_bit 2 y1)"
  have y2: "\<And>i. i < 27 \<Longrightarrow> bit y2 (m + i)" unfolding y2_def by (rule bit_run [where k = 29, OF y1]) linarith+
  define y3 where "y3 = and y2 (drop_bit 4 y2)"
  have y3: "\<And>i. i < 23 \<Longrightarrow> bit y3 (m + i)" unfolding y3_def by (rule bit_run [where k = 27, OF y2]) linarith+
  define y4 where "y4 = and y3 (drop_bit 8 y3)"
  have y4: "\<And>i. i < 15 \<Longrightarrow> bit y4 (m + i)" unfolding y4_def by (rule bit_run [where k = 23, OF y3]) linarith+
  have "bit (and y4 (drop_bit 14 y4)) (m + 0)" by (rule bit_run [where k = 15, OF y4]) simp_all
  moreover have "and y4 (drop_bit 14 y4) = 0"
    using n unfolding no_alternation_def Let_def y_def [symmetric] y1_def [symmetric] y2_def [symmetric] y3_def [symmetric] y4_def [symmetric] .
  ultimately show False by simp
qed

primrec all_powers :: "nat \<Rightarrow> int \<Rightarrow> bool" where
  "all_powers 0 v \<longleftrightarrow> True"
| "all_powers (Suc k) v \<longleftrightarrow> no_alternation v \<and> all_powers k (3 * v)"

lemma all_powersD: "all_powers k (3 ^ a) \<Longrightarrow> a \<le> j \<Longrightarrow> j < a + k \<Longrightarrow> no_alternation (3 ^ j)"
proof (induction k arbitrary: a)
  case (Suc k)
  then show ?case by (cases "j = a") (auto intro!: Suc.IH [of "Suc a"])
qed simp

lemma powers_checked_0: "all_powers 90 (3 ^ 0)" by code_simp
lemma powers_checked_1: "all_powers 50 (3 ^ 90)" by code_simp
lemma powers_checked_2: "all_powers 40 (3 ^ 140)" by code_simp
lemma powers_checked_3: "all_powers 35 (3 ^ 180)" by code_simp
lemma powers_checked_4: "all_powers 30 (3 ^ 215)" by code_simp
lemma powers_checked_5: "all_powers 27 (3 ^ 245)" by code_simp
lemma powers_checked_6: "all_powers 26 (3 ^ 272)" by code_simp
lemma powers_checked_7: "all_powers 23 (3 ^ 298)" by code_simp
lemma powers_checked_8: "all_powers 22 (3 ^ 321)" by code_simp

lemmas powers_checked = powers_checked_0 powers_checked_1 powers_checked_2 powers_checked_3 powers_checked_4 powers_checked_5 powers_checked_6 powers_checked_7 powers_checked_8

lemma power_3_no_alternation: "j < 343 \<Longrightarrow> \<not> alternates (3 ^ j) m 30"
proof -
  assume "j < 343"
  then consider "0 \<le> j" "j < 0 + 90" | "90 \<le> j" "j < 90 + 50" | "140 \<le> j" "j < 140 + 40" | "180 \<le> j" "j < 180 + 35" | "215 \<le> j" "j < 215 + 30" | "245 \<le> j" "j < 245 + 27" | "272 \<le> j" "j < 272 + 26" | "298 \<le> j" "j < 298 + 23" | "321 \<le> j" "j < 321 + 22" by linarith
  then have "no_alternation (3 ^ j)"
    by cases (rule powers_checked [THEN all_powersD]; simp)+
  then show ?thesis by (rule no_alternation)
qed

section \<open>The table\<close>

lemma pow2_all_val: "0 < INTS \<Longrightarrow> i < 32 * INTS \<Longrightarrow> big_val (pow2_all INTS i) = 2 ^ i \<and> length (pow2_all INTS i) = INTS"
proof (induction i)
  case 0
  then show ?case by (simp add: big_val_append)
next
  case (Suc i)
  then have "(2 :: int) ^ Suc i < 2 ^ (32 * INTS)" by (intro power_strict_increasing) simp_all
  then show ?case using Suc mul_2_exact [of "pow2_all INTS i"] by simp
qed

lemma pow23_all_val:
  assumes INTS: "INTS \<in> {5, 9, 13, 17}"
  shows "2 ^ i * 3 ^ j < (2 :: int) ^ (32 * INTS) \<Longrightarrow> j < MAX_3 INTS \<Longrightarrow> big_val (pow23_all INTS i j) = 2 ^ i * 3 ^ j"
proof (induction j)
  case 0
  then have "i < 32 * INTS" by simp
  then show ?case using pow2_all_val [of INTS i] INTS by auto
next
  case (Suc j)
  let ?d = "pow23_all INTS i j"
  have lt: "3 * (2 ^ i * 3 ^ j) < (2 :: int) ^ (32 * INTS)" using Suc.prems(1) by simp
  moreover have "(0 :: int) < 2 ^ i * 3 ^ j" by simp
  ultimately have v: "big_val ?d = 2 ^ i * 3 ^ j" using Suc by (intro Suc.IH) linarith+
  have "j < 343" using Suc.prems(2) INTS by (auto simp: MAX_3_def)
  then have "no_lost_carry ?d" using alternation_of_lost_carry [OF v] power_3_no_alternation by blast
  then have "big_val (mul_3 ?d) = 2 ^ i * 3 ^ Suc j"
    using mul_3_exact [of ?d] length_pow23_all [of INTS i j] v lt INTS by auto
  then show ?case using Suc.prems by (simp add: MAX_2_def)
qed

section \<open>The search for the sizes of the program\<close>

text \<open>The two logarithms are integer parts.\<close>

definition ilog :: "int \<Rightarrow> int \<Rightarrow> int \<Rightarrow> bool" where
  "ilog base v l \<longleftrightarrow> 0 \<le> l \<and> base ^ nat l \<le> v \<and> v < base ^ (nat l + 1)"

lemma log3_fits:
  assumes "INTS \<in> {5, 9, 13, 17}" "ilog 3 v l" "3 * v < 2 ^ (32 * INTS)"
  shows "l < int (MAX_3 INTS)"
proof (rule ccontr)
  assume a: "\<not> l < int (MAX_3 INTS)"
  then have "(3 :: int) ^ MAX_3 INTS \<le> 3 ^ nat l" by (intro power_increasing) simp_all
  also have "\<dots> \<le> v" using assms(2) by (simp add: ilog_def)
  finally have "3 * (3 :: int) ^ MAX_3 INTS < 2 ^ (32 * INTS)" using assms(3) by simp
  then show False using assms(1) by (auto simp: MAX_3_def)
qed

lemma search_okI:
  assumes INTS: "INTS \<in> {5, 9, 13, 17}" and n: "length n = INTS" "0 < big_val n" "6 * big_val n < 2 ^ (32 * INTS)" "no_lost_carry (mul_2 n)"
    and logs: "ilog 2 (2 * big_val n) log2B" "ilog 3 (2 * big_val n) log3B"
  shows "search_ok INTS n log2B log3B"
proof -
  have "big_val (pow23_all INTS i j) = pw (int i) (int j)" if j: "j < MAX_3 INTS" and le: "pw (int i) (int j) \<le> 6 * big_val n" for i j
  proof -
    have lt: "2 ^ i * 3 ^ j < (2 :: int) ^ (32 * INTS)" using le n(3) by (simp add: pw_def)
    show ?thesis using pow23_all_val [OF INTS lt j] by (simp add: pw_def)
  qed
  moreover have "log3B < int (MAX_3 INTS)" using log3_fits [OF INTS logs(2)] n(3) by simp
  ultimately show ?thesis using INTS n logs by (auto simp: search_ok_def pw_def ilog_def)
qed

section \<open>Tripling, exactly\<close>

text \<open>What the dropped carries are worth.\<close>

fun lost :: "bigint \<Rightarrow> int" where
  "lost (x # y # data) = (uint x * 3 mod 4294967296 + uint y * 3 div 4294967296) div 4294967296 * (4294967296 * 2 ^ (32 * length (y # data))) + lost (y # data)"
| "lost data = 0"

lemma lost_zero: "0 \<le> lost data \<and> (lost data = 0 \<longleftrightarrow> no_lost_carry data)"
proof (induction data rule: lost.induct)
  case (1 x y data)
  define s where "s = uint x * 3 mod 4294967296 + uint y * 3 div 4294967296"
  have s: "0 \<le> s" by (simp add: s_def pos_imp_zdiv_nonneg_iff)
  define q where "q = s div 4294967296"
  have q: "0 \<le> q" "q = 0 \<longleftrightarrow> s < 4294967296" using s by (auto simp: q_def pos_imp_zdiv_nonneg_iff zdiv_eq_0_iff)
  define K where "K = 4294967296 * (2 :: int) ^ (32 * length (y # data))"
  have K: "0 < K" by (simp add: K_def)
  have e: "lost (x # y # data) = q * K + lost (y # data)" by (simp only: lost.simps q_def s_def K_def)
  have "0 \<le> q * K" "q * K = 0 \<longleftrightarrow> q = 0" using q K by simp_all
  moreover have "no_lost_carry (x # y # data) \<longleftrightarrow> s < 4294967296 \<and> no_lost_carry (y # data)" by (simp add: s_def)
  ultimately show ?case unfolding e using 1 q(2) by (auto simp: add_nonneg_eq_0_iff)
qed simp_all

lemma mul_3_lost_val:
  "big_val (mul_3 (x # data)) + uint x * 3 div 4294967296 * 2 ^ (32 * length (x # data)) + lost (x # data) = 3 * big_val (x # data)"
proof (induction data arbitrary: x)
  case Nil
  then show ?case using mul_3_val [of x "[]"] by simp
next
  case (Cons y data)
  let ?K = "2 ^ (32 * length (y # data)) :: int"
  have e: "2 ^ (32 * length (x # y # data)) = 4294967296 * ?K" by (simp add: power_add)
  have s: "uint x * 3 mod 4294967296 * ?K + uint x * 3 div 4294967296 * (4294967296 * ?K) = uint x * 3 * ?K" by (rule mod_div_scale)
  define a where "a = uint x * 3 mod 4294967296 + uint y * 3 div 4294967296"
  have w: "uint (ucast (drop_bit 32 (ucast y * 3 :: uint64) + and (ucast x * 3) 4294967295) :: uint32) = a mod 4294967296"
    unfolding mul_3_word a_def ..
  have m: "a mod 4294967296 * ?K + a div 4294967296 * (4294967296 * ?K) = a * ?K" by (rule mod_div_scale)
  from s m Cons.IH [of y] show ?case
    unfolding mul_3.simps big_val.simps(2) [of "ucast _"] big_val.simps(2) [of x] w length_ops e lost.simps a_def [symmetric]
    unfolding a_def by (simp only: distrib_right distrib_left)
qed

lemma mul_3_exact_iff:
  assumes fits: "3 * big_val data < 2 ^ (32 * length data)"
  shows "big_val (mul_3 data) \<le> 3 * big_val data" "big_val (mul_3 data) = 3 * big_val data \<longleftrightarrow> no_lost_carry data"
proof -
  have e: "big_val (mul_3 data) + lost data = 3 * big_val data"
  proof (cases data)
    case (Cons x xs)
    have v: "(big_val (mul_3 data) + lost data) + uint x * 3 div 4294967296 * 2 ^ (32 * length data) = 3 * big_val data"
      using mul_3_lost_val [of x xs] unfolding Cons by linarith
    show ?thesis
      by (rule carry_out_zero [OF v fits])
        (use lost_zero [of data] in \<open>simp_all add: pos_imp_zdiv_nonneg_iff add_nonneg_nonneg\<close>)
  qed simp
  show "big_val (mul_3 data) \<le> 3 * big_val data" "big_val (mul_3 data) = 3 * big_val data \<longleftrightarrow> no_lost_carry data"
    using e lost_zero [of data] by auto
qed

text \<open>
C35: \<open>myBigInt::mul_3\<close> triples exactly when no word loses a carry: for every number whose triple fits, the
result is the triple if and only if, at every word, the low half of its own product and the high half
of its right neighbour's add up below \<open>2\<^sup>3\<^sup>2\<close>. Where they do not, the code drops the carry and the result is
too small. No word but \<open>0x55555555\<close> and \<open>0xAAAAAAAA\<close> can lose one.
\<close>

theorem mul_3_exact_if_no_carry_lost:
  assumes "3 * big_val data < 2 ^ (32 * length data)"
  shows "big_val (mul_3 data) \<le> 3 * big_val data \<and> (big_val (mul_3 data) = 3 * big_val data \<longleftrightarrow> no_lost_carry data) \<and>
    (0x55555555 \<notin> set data \<and> 0xAAAAAAAA \<notin> set data \<longrightarrow> no_lost_carry data)"
  using mul_3_exact_iff [OF assms] no_lost_carryI by blast

theorem mul_3_exact_if_no_carry_lost_witness:
  "big_val (mul_3 [0, 1431655766, 1431655765, 1431655766]) \<noteq> 3 * big_val [0, 1431655766, 1431655765, 1431655766] \<and>
    big_val (mul_3 [0, 7, 4294967295]) = 3 * big_val [0, 7, 4294967295]"
  using mul_3_exact_if_no_carry_lost [of "[0, 1431655766, 1431655765, 1431655766]"]
    mul_3_exact_if_no_carry_lost [of "[0, 7, 4294967295]"] by simp

text \<open>
C34: The powers that \<open>init\<close> tabulates in \<open>pow23_all\<close> are exact: for the four sizes of \<open>myBigInt.h\<close> every
entry in the range of the array whose power fits is \<open>2 ^ i 3 ^ j\<close>, although each row is built by
\<open>mul_3\<close>, which may drop carries.
\<close>

theorem pow23_all_exact:
  assumes "INTS \<in> {5, 9, 13, 17}" "2 ^ i * 3 ^ j < (2 :: int) ^ (32 * INTS)" "j < MAX_3 INTS"
  shows "big_val (pow23_all INTS i j) = 2 ^ i * 3 ^ j \<and> length (pow23_all INTS i j) = INTS"
  using pow23_all_val [OF assms] length_pow23_all [of INTS i j] assms(1) by auto

theorem pow23_all_exact_witness: "big_val (pow23_all 9 10 170) = 2 ^ 10 * 3 ^ 170"
  using pow23_all_exact [of 9 10 170] by (simp add: MAX_3_def)

end
