(* ===== verification/Dbc_Greedy_Correct.thy ===== *)
theory Dbc_Greedy_Correct
  imports Dbc_Greedy Dbc_Powers Dbc_Mul
begin

text \<open>
  The greedy searches find double-base chains of their number whatever the rounding of the doubles, as
  long as it is accurate to one part in 64 where two distances are compared and to one part in 10 where
  logarithms are taken. A step may leave more than it was given, so the loop ends for another
  reason: the exponents fall, and where they do not, the rest does (\<open>step_weight\<close>). The subtraction of
  \<open>myBigInt\<close> is wrong for minuends with a full word in the middle, so runs that meet one are excluded
  (\<open>exact_run\<close>).
\<close>

section \<open>What is asked of the doubles\<close>

definition in_table :: "nat \<Rightarrow> int \<Rightarrow> int \<Rightarrow> bool" where
  "in_table INTS i j \<longleftrightarrow> 0 \<le> i \<and> 0 \<le> j \<and> j < int (MAX_3 INTS) \<and> pw i j < 2 ^ (32 * INTS)"

text \<open>Comparing the distances of \<open>v\<close> to two powers of the table.\<close>

definition nearer_ok :: "'d floats \<Rightarrow> nat \<Rightarrow> bigint \<Rightarrow> bool" where
  "nearer_ok F INTS t \<longleftrightarrow> (\<forall>i j k l. in_table INTS i j \<longrightarrow> in_table INTS k l \<longrightarrow>
     (65 * \<bar>big_val t - pw i j\<bar> \<le> 64 * \<bar>big_val t - pw k l\<bar> \<longrightarrow> nearer F INTS (to_double F t) (i, j) (k, l)) \<and>
     (65 * \<bar>big_val t - pw k l\<bar> < 64 * \<bar>big_val t - pw i j\<bar> \<longrightarrow> \<not> nearer F INTS (to_double F t) (i, j) (k, l)))"

definition log_2 :: "'d floats \<Rightarrow> 'd \<Rightarrow> 'd" where
  "log_2 F x = f_div F (f_log F x) (f_log F (f_int F 2))"

text \<open>Comparing \<open>v\<close> with a power of 3, and the integer part of the logarithm of their quotient.\<close>

definition quotient_ok :: "'d floats \<Rightarrow> nat \<Rightarrow> bigint \<Rightarrow> bool" where
  "quotient_ok F INTS t \<longleftrightarrow> (\<forall>j. in_table INTS 0 j \<longrightarrow>
     (if f_le F (to_double F t) (d_pow23_all F INTS 0 j) then 9 * big_val t \<le> 10 * pw 0 j
      else 9 * pw 0 j \<le> 10 * big_val t \<and>
       (let k = f_trunc F (f_sub F (log_2 F (to_double F t)) (f_mul F (f_int F j) (log_2 F (f_int F 3))))
        in 0 \<le> k \<and> 10 * pw k j \<le> 11 * big_val t \<and> 10 * big_val t \<le> 11 * pw (k + 1) j)))"

definition floats_ok :: "'d floats \<Rightarrow> nat \<Rightarrow> bool" where
  "floats_ok F INTS \<longleftrightarrow> (\<forall>t. length t = INTS \<longrightarrow> 0 < big_val t \<longrightarrow> nearer_ok F INTS t \<and> quotient_ok F INTS t)"

text \<open>A start is near the number.\<close>

definition bounds_ok :: "'d floats \<Rightarrow> nat \<Rightarrow> bigint \<Rightarrow> bool" where
  "bounds_ok F INTS n \<longleftrightarrow> (\<forall>b. 0 \<le> b \<longrightarrow> b < int (MAX_3 INTS) \<longrightarrow> 0 \<le> LBound F INTS n b \<longrightarrow>
     LBound F INTS n b = RBound F INTS n b \<longrightarrow>
     pw (RBound F INTS n b) b \<le> 3 * big_val n \<and> big_val n \<le> 3 * pw (RBound F INTS n b) b)"

definition minuend_ok :: "bigint \<Rightarrow> bool" where
  "minuend_ok x \<longleftrightarrow> 4294967295 \<notin> set (butlast (tl x))"

text \<open>No subtraction of the run from \<open>(t, a, b)\<close> meets a full word in the middle of its minuend.\<close>

coinductive exact_run :: "'d floats \<Rightarrow> nat \<Rightarrow> int \<Rightarrow> bigint \<Rightarrow> int \<Rightarrow> int \<Rightarrow> bool" where
  exact_end: "iszero t \<Longrightarrow> exact_run F INTS window t a b"
| exact_sub: "choose_power F INTS window t a b = Some (alpha, beta) \<Longrightarrow> p = pow23_all INTS (nat alpha) (nat beta) \<Longrightarrow>
    minuend_ok (if big_ge t p then t else p) \<Longrightarrow>
    exact_run F INTS window (if big_ge t p then big_minus t p else big_minus p t) alpha beta \<Longrightarrow>
    exact_run F INTS window t a b"

lemma exact_run_step:
  assumes "exact_run F INTS window t a b" "\<not> iszero t" "choose_power F INTS window t a b = Some (alpha, beta)"
    "p = pow23_all INTS (nat alpha) (nat beta)"
  shows "minuend_ok (if big_ge t p then t else p)"
    "exact_run F INTS window (if big_ge t p then big_minus t p else big_minus p t) alpha beta"
proof -
  from assms(1) have "minuend_ok (if big_ge t p then t else p) \<and>
    exact_run F INTS window (if big_ge t p then big_minus t p else big_minus p t) alpha beta"
  proof (cases rule: exact_run.cases)
    case exact_end
    then show ?thesis using assms(2) by simp
  next
    case (exact_sub alpha' beta' p')
    have eq: "alpha' = alpha" "beta' = beta" using exact_sub(1) assms(3) by simp_all
    then have "p' = p" using exact_sub(2) assms(4) by simp
    with eq show ?thesis using exact_sub(3,4) by blast
  qed
  then show "minuend_ok (if big_ge t p then t else p)"
    "exact_run F INTS window (if big_ge t p then big_minus t p else big_minus p t) alpha beta" by blast+
qed

lemma table_val:
  assumes "INTS \<in> {5, 9, 13, 17}" "in_table INTS i j"
  shows "big_val (pow23_all INTS (nat i) (nat j)) = pw i j" "length (pow23_all INTS (nat i) (nat j)) = INTS"
  using pow23_all_val [OF assms(1), of "nat i" "nat j"] length_pow23_all [of INTS "nat i" "nat j"] assms
  by (auto simp: in_table_def pw_def)

lemma in_table_below: "in_table INTS a b \<Longrightarrow> 0 \<le> i \<Longrightarrow> i \<le> a \<Longrightarrow> 0 \<le> j \<Longrightarrow> j \<le> b \<Longrightarrow> in_table INTS i j"
  using pw_mono [of i a j b] by (auto simp: in_table_def)

section \<open>One step\<close>

text \<open>The three kinds of candidates: a power of 3 that is not below \<open>v\<close>, the largest exponent of 2 that is
  allowed, and the better of the two powers around \<open>v\<close>.\<close>

definition cand_ok :: "int \<Rightarrow> int \<Rightarrow> int \<Rightarrow> int \<Rightarrow> bool" where
  "cand_ok v a j alpha \<longleftrightarrow> 9 * v \<le> 10 * pw 0 j \<and> alpha = 0 \<or>
     9 * pw 0 j \<le> 10 * v \<and> (alpha = a \<and> 10 * pw a j \<le> 11 * v \<or> 10 * \<bar>v - pw alpha j\<bar> \<le> 6 * v)"

lemma alpha_at_ok:
  assumes ok: "nearer_ok F INTS t" "quotient_ok F INTS t" and tab: "in_table INTS a b" "0 \<le> j" "j \<le> b"
  shows "\<exists>alpha. alpha_at F INTS a (to_double F t) (log_2 F (to_double F t)) (log_2 F (f_int F 3)) j = Some alpha \<and>
    0 \<le> alpha \<and> alpha \<le> a \<and> cand_ok (big_val t) a j alpha"
proof -
  let ?v = "big_val t"
  define k where "k = f_trunc F (f_sub F (log_2 F (to_double F t)) (f_mul F (f_int F j) (log_2 F (f_int F 3))))"
  have a: "0 \<le> a" using tab(1) by (simp add: in_table_def)
  have t0: "in_table INTS 0 j" by (rule in_table_below [OF tab(1)]) (use a tab(2,3) in simp_all)
  note q = ok(2) [unfolded quotient_ok_def, rule_format, OF t0, folded k_def]
  show ?thesis
  proof (cases "f_le F (to_double F t) (d_pow23_all F INTS 0 j)")
    case True
    then show ?thesis using q a by (simp add: alpha_at_def cand_ok_def)
  next
    case False
    with q have k: "9 * pw 0 j \<le> 10 * ?v" "0 \<le> k" "10 * pw k j \<le> 11 * ?v" "10 * ?v \<le> 11 * pw (k + 1) j"
      by (simp_all add: k_def [symmetric] Let_def)
    show ?thesis
    proof (cases "k \<ge> a")
      case True
      have "pw a j \<le> pw k j" using True by (intro pw_mono) simp_all
      with k False True a show ?thesis by (simp add: alpha_at_def k_def [symmetric] cand_ok_def)
    next
      case ka: False
      have two: "pw (k + 1) j = 2 * pw k j" using k(2) pw_dbl [of "k + 1" j] by simp
      have tk: "in_table INTS k j" "in_table INTS (k + 1) j"
        using k(2) ka tab(2,3) by (auto intro: in_table_below [OF tab(1)])
      have run: "alpha_at F INTS a (to_double F t) (log_2 F (to_double F t)) (log_2 F (f_int F 3)) j =
          Some (if nearer F INTS (to_double F t) (k, j) (k + 1, j) then k else k + 1)"
        using False ka k(2) by (simp add: alpha_at_def k_def [symmetric] Let_def)
      have dk: "20 * \<bar>?v - pw k j\<bar> \<le> 11 * ?v"
      proof -
        have "10 * ?v \<le> 22 * pw k j" using k(4) unfolding two by simp
        then have "9 * ?v \<le> 20 * pw k j" using pw_pos [of k j] by linarith
        then have "20 * (?v - pw k j) \<le> 11 * ?v" by (simp add: algebra_simps)
        moreover have "20 * pw k j \<le> 31 * ?v" using k(3) big_val_ge_0 [of t] by linarith
        then have "20 * (pw k j - ?v) \<le> 11 * ?v" by (simp add: algebra_simps)
        ultimately show ?thesis by (auto simp: abs_if)
      qed
      show ?thesis
      proof (cases "nearer F INTS (to_double F t) (k, j) (k + 1, j)")
        case True
        have "10 * \<bar>?v - pw k j\<bar> \<le> 6 * ?v" using dk big_val_ge_0 [of t] by linarith
        then show ?thesis using True run k(1,2) ka by (simp add: cand_ok_def)
      next
        case False
        have "\<not> 65 * \<bar>?v - pw k j\<bar> \<le> 64 * \<bar>?v - pw (k + 1) j\<bar>"
          using ok(1) [unfolded nearer_ok_def] tk False by blast
        then have "10 * \<bar>?v - pw (k + 1) j\<bar> \<le> 6 * ?v" using dk big_val_ge_0 [of t] by linarith
        then show ?thesis using False run k(1,2) ka by (simp add: cand_ok_def)
      qed
    qed
  qed
qed

abbreviation dist :: "int \<Rightarrow> int \<times> int \<Rightarrow> int" where
  "dist v p \<equiv> \<bar>v - pw (fst p) (snd p)\<bar>"


text \<open>The loop over the candidates ends at one that is about as near as any of them and as the start.\<close>

lemma pow_step: "0 \<le> x \<Longrightarrow> 64 ^ n * d \<le> 65 ^ n * c \<Longrightarrow> 64 * c \<le> 65 * x \<Longrightarrow> 64 ^ Suc n * d \<le> 65 ^ Suc n * (x :: int)"
proof -
  assume a: "64 ^ n * d \<le> 65 ^ n * c" "64 * c \<le> 65 * x"
  have "64 ^ Suc n * d = 64 * (64 ^ n * d)" by simp
  also have "\<dots> \<le> 64 * (65 ^ n * c)" using a(1) by simp
  also have "\<dots> = 65 ^ n * (64 * c)" by simp
  also have "\<dots> \<le> 65 ^ n * (65 * x)" using a(2) by (intro mult_left_mono) simp_all
  finally show ?thesis by (simp add: mult.left_commute mult.commute)
qed

lemma choose_loop_ok:
  assumes ok: "nearer_ok F INTS t" "quotient_ok F INTS t" and tab: "in_table INTS a b"
  shows "\<forall>j\<in>set js. 0 \<le> j \<and> j \<le> b \<Longrightarrow> 0 \<le> fst best \<Longrightarrow> fst best \<le> a \<Longrightarrow> 0 \<le> snd best \<Longrightarrow> snd best \<le> b \<Longrightarrow>
    \<exists>c. choose_loop F INTS a (to_double F t) (log_2 F (to_double F t)) (log_2 F (f_int F 3)) js best = Some c \<and>
      0 \<le> fst c \<and> fst c \<le> a \<and> 0 \<le> snd c \<and> snd c \<le> b \<and>
      (c = best \<or> (snd c \<in> set js \<and> cand_ok (big_val t) a (snd c) (fst c))) \<and>
      64 ^ length js * dist (big_val t) c \<le> 65 ^ length js * dist (big_val t) best \<and>
      (\<forall>j\<in>set js. \<exists>alpha. 0 \<le> alpha \<and> alpha \<le> a \<and> cand_ok (big_val t) a j alpha \<and>
        64 ^ length js * dist (big_val t) c \<le> 65 ^ length js * dist (big_val t) (alpha, j))"
proof (induction js arbitrary: best)
  case (Cons j js)
  have j: "0 \<le> j" "j \<le> b" using Cons.prems(1) by simp_all
  obtain alpha where al: "alpha_at F INTS a (to_double F t) (log_2 F (to_double F t)) (log_2 F (f_int F 3)) j = Some alpha"
    "0 \<le> alpha" "alpha \<le> a" "cand_ok (big_val t) a j alpha"
    using alpha_at_ok [OF ok tab j] by blast
  define nb where "nb = (if nearer F INTS (to_double F t) (alpha, j) best then (alpha, j) else best)"
  have tabs: "in_table INTS alpha j" "in_table INTS (fst best) (snd best)"
    using al(2,3) j Cons.prems(2-5) by (auto intro: in_table_below [OF tab])
  note near = ok(1) [unfolded nearer_ok_def, rule_format, OF tabs]
  have d: "64 * dist (big_val t) nb \<le> 65 * dist (big_val t) best" "64 * dist (big_val t) nb \<le> 65 * dist (big_val t) (alpha, j)"
    using near by (auto simp: nb_def not_le not_less)
  have nb: "0 \<le> fst nb" "fst nb \<le> a" "0 \<le> snd nb" "snd nb \<le> b"
    using Cons.prems(2-5) al(2,3) j by (simp_all add: nb_def)
  obtain c where c: "choose_loop F INTS a (to_double F t) (log_2 F (to_double F t)) (log_2 F (f_int F 3)) js nb = Some c"
    "0 \<le> fst c" "fst c \<le> a" "0 \<le> snd c" "snd c \<le> b"
    "c = nb \<or> (snd c \<in> set js \<and> cand_ok (big_val t) a (snd c) (fst c))"
    "64 ^ length js * dist (big_val t) c \<le> 65 ^ length js * dist (big_val t) nb"
    "\<forall>j\<in>set js. \<exists>alpha. 0 \<le> alpha \<and> alpha \<le> a \<and> cand_ok (big_val t) a j alpha \<and>
        64 ^ length js * dist (big_val t) c \<le> 65 ^ length js * dist (big_val t) (alpha, j)"
    using Cons.IH [OF _ nb] Cons.prems(1) by auto
  have more: "64 ^ length (j # js) * dist (big_val t) c \<le> 65 ^ length (j # js) * x"
    if "64 ^ length js * dist (big_val t) c \<le> 65 ^ length js * y" "64 * y \<le> 65 * x" "0 \<le> x" for x y
    using pow_step [OF that(3,1,2)] by simp
  have "choose_loop F INTS a (to_double F t) (log_2 F (to_double F t)) (log_2 F (f_int F 3)) (j # js) best = Some c"
    using al(1) c(1) by (simp add: nb_def)
  moreover have "c = best \<or> (snd c \<in> set (j # js) \<and> cand_ok (big_val t) a (snd c) (fst c))"
    using c(6) al(4) by (auto simp: nb_def split: if_splits)
  moreover have "64 ^ length (j # js) * dist (big_val t) c \<le> 65 ^ length (j # js) * dist (big_val t) best"
    by (rule more [OF c(7) d(1)]) simp
  moreover have "\<exists>alpha. 0 \<le> alpha \<and> alpha \<le> a \<and> cand_ok (big_val t) a i alpha \<and>
      64 ^ length (j # js) * dist (big_val t) c \<le> 65 ^ length (j # js) * dist (big_val t) (alpha, i)"
    if i: "i \<in> set (j # js)" for i
  proof (cases "i = j")
    case True
    then show ?thesis using al(2-4) more [OF c(7) d(2)] by (intro exI [of _ alpha]) simp
  next
    case False
    then obtain al' where "0 \<le> al'" "al' \<le> a" "cand_ok (big_val t) a i al'"
      "64 ^ length js * dist (big_val t) c \<le> 65 ^ length js * dist (big_val t) (al', i)" using i c(8) by auto
    moreover have "64 * x \<le> 65 * x" if "0 \<le> x" for x :: int using that by simp
    ultimately show ?thesis by (intro exI [of _ al'] conjI more [of "dist (big_val t) (al', i)"]) (simp_all only: fst_conv snd_conv abs_ge_zero)
  qed
  ultimately show ?case using c(2-5) by blast
qed simp

lemma pow_7: "64 ^ n * d \<le> 65 ^ n * x \<Longrightarrow> n \<le> 7 \<Longrightarrow> 0 \<le> x \<Longrightarrow> 100 * d \<le> 112 * (x :: int)"
proof -
  assume a: "64 ^ n * d \<le> 65 ^ n * x" "n \<le> 7" "0 \<le> x"
  have "64 ^ (7 - n) * (65 ^ n * x) \<le> 65 ^ (7 - n) * (65 ^ n * x)" using a(3) by (intro mult_right_mono power_mono) simp_all
  moreover have "64 ^ (7 - n) * (64 ^ n * d) \<le> 64 ^ (7 - n) * (65 ^ n * x)" using a(1) by (intro mult_left_mono) simp_all
  moreover have "64 ^ (7 - n) * (64 ^ n * d) = 64 ^ 7 * d" "65 ^ (7 - n) * (65 ^ n * x) = 65 ^ 7 * x"
    using a(2) by (simp_all flip: power_add mult.assoc)
  ultimately have "64 ^ 7 * d \<le> 65 ^ 7 * x" by linarith
  then have "4398046511104 * d \<le> 4902227890625 * x" by simp
  with a(3) show ?thesis by linarith
qed

section \<open>What a step does\<close>

lemma half_close: "2 * x \<le> 3 * v \<Longrightarrow> v \<le> 2 * x \<Longrightarrow> 10 * \<bar>v - x\<bar> \<le> 6 * (v :: int)"
  by (simp add: abs_if algebra_simps)

text \<open>From a rest of at most three times the power, the next power is at least a quarter of the rest, and
  differs from the last one when that is at least twice the rest.\<close>

lemma choose_power_ok:
  assumes fl: "floats_ok F INTS" and t: "length t = INTS" "0 < big_val t" and tab: "in_table INTS a b"
    and near: "big_val t \<le> 3 * pw a b" and window: "1 \<le> window" "window \<le> 6"
  shows "\<exists>alpha beta. choose_power F INTS window t a b = Some (alpha, beta) \<and>
    0 \<le> alpha \<and> alpha \<le> a \<and> 0 \<le> beta \<and> beta \<le> b \<and> \<bar>big_val t - pw alpha beta\<bar> \<le> 3 * pw alpha beta \<and>
    (2 * big_val t \<le> pw a b \<longrightarrow> (alpha, beta) \<noteq> (a, b))"
proof -
  let ?v = "big_val t"
  define js where "js = rev [max 0 (b - window)..b]"
  have ok: "nearer_ok F INTS t" "quotient_ok F INTS t" using fl t by (simp_all add: floats_ok_def)
  have ab: "0 \<le> a" "0 \<le> b" using tab by (simp_all add: in_table_def)
  have js: "set js = {max 0 (b - window)..b}" by (simp add: js_def)
  have len: "length js \<le> 7" using window by (simp add: js_def)
  obtain c where c: "choose_loop F INTS a (to_double F t) (log_2 F (to_double F t)) (log_2 F (f_int F 3)) js (a, b) = Some c"
    "0 \<le> fst c" "fst c \<le> a" "0 \<le> snd c" "snd c \<le> b"
    "c = (a, b) \<or> (snd c \<in> set js \<and> cand_ok ?v a (snd c) (fst c))"
    "64 ^ length js * dist ?v c \<le> 65 ^ length js * dist ?v (a, b)"
    "\<forall>j\<in>set js. \<exists>alpha. 0 \<le> alpha \<and> alpha \<le> a \<and> cand_ok ?v a j alpha \<and>
        64 ^ length js * dist ?v c \<le> 65 ^ length js * dist ?v (alpha, j)"
  proof -
    have "\<forall>j\<in>set js. 0 \<le> j \<and> j \<le> b" by (simp add: js)
    from choose_loop_ok [OF ok tab this, of "(a, b)"] ab that show ?thesis unfolding fst_conv snd_conv by blast
  qed
  have run: "choose_power F INTS window t a b = Some (fst c, snd c)"
    using c(1) by (simp add: choose_power_def js_def log_2_def)
  define Q where "Q = pw (fst c) (snd c)"
  have q0: "100 * \<bar>?v - Q\<bar> \<le> 112 * \<bar>?v - pw a b\<bar>" using pow_7 [OF c(7) len] by (simp add: Q_def)
  have qj: "\<exists>alpha. 0 \<le> alpha \<and> alpha \<le> a \<and> cand_ok ?v a j alpha \<and> 100 * \<bar>?v - Q\<bar> \<le> 112 * \<bar>?v - pw alpha j\<bar>"
    if "max 0 (b - window) \<le> j" "j \<le> b" for j
  proof -
    have "j \<in> set js" using that by (simp add: js)
    then show ?thesis using c(8) pow_7 [OF _ len] by (fastforce simp: Q_def)
  qed
  have b: "max 0 (b - window) \<le> b" using ab window by simp
  have Qpos: "0 < Q" by (simp add: Q_def)
  have tri: "\<bar>?v - Q\<bar> \<le> 3 * Q" if "Q \<ge> ?v \<or> 100 * \<bar>?v - Q\<bar> \<le> 75 * ?v" 
  proof (cases "?v \<le> Q")
    case True
    then show ?thesis using Qpos t(2) by simp
  next
    case False
    with that have "100 * (?v - Q) \<le> 75 * ?v" by simp
    then have "?v \<le> 4 * Q" by (simp add: algebra_simps)
    with False show ?thesis by simp
  qed
  have "\<bar>?v - Q\<bar> \<le> 3 * Q"
  proof (cases "2 * pw a b \<le> 3 * ?v")
    case True
    then have "3 * pw a b \<le> 5 * ?v" using t(2) by linarith
    then have "3 * \<bar>?v - pw a b\<bar> \<le> 2 * ?v" using near by (simp add: abs_if algebra_simps)
    then show ?thesis using q0 t(2) by (intro tri) linarith
  next
    case far: False
    show ?thesis
    proof (cases "\<exists>j. max 0 (b - window) \<le> j \<and> j \<le> b \<and> 2 * pw 0 j \<le> 3 * ?v")
      case True
      define S where "S = {j \<in> {max 0 (b - window)..b}. 2 * pw 0 j \<le> 3 * ?v}"
      have S: "finite S" unfolding S_def by (rule finite_subset [of _ "{max 0 (b - window)..b}"]) auto
      have ne: "S \<noteq> {}" using True by (auto simp: S_def)
      define j where "j = Max S"
      have j: "max 0 (b - window) \<le> j" "j \<le> b" "2 * pw 0 j \<le> 3 * ?v"
        using Max_in [OF S ne] by (auto simp: j_def S_def)
      obtain al where al: "0 \<le> al" "al \<le> a" "cand_ok ?v a j al" "100 * \<bar>?v - Q\<bar> \<le> 112 * \<bar>?v - pw al j\<bar>"
        using qj [OF j(1,2)] by blast
      have low: "?v \<le> 2 * pw 0 j \<or> 10 * \<bar>?v - pw al j\<bar> \<le> 6 * ?v"
      proof (cases "j = b")
        case True
        have "\<not> 10 * pw a b \<le> 11 * ?v" using far t(2) by linarith
        then show ?thesis using al(3) True t(2) by (auto simp: cand_ok_def)
      next
        case False
        have "j + 1 \<notin> S" using Max_ge [OF S, of "j + 1"] by (auto simp: j_def)
        then have "\<not> 2 * pw 0 (j + 1) \<le> 3 * ?v" using j False by (simp add: S_def)
        moreover have "pw 0 (j + 1) = 3 * pw 0 j" using pw_tpl [of "j + 1" 0] j(1) by simp
        ultimately show ?thesis by linarith
      qed
      have "pw 0 j \<le> pw a j" using ab by (intro pw_mono) simp_all
      then have "10 * \<bar>?v - pw al j\<bar> \<le> 6 * ?v" 
      proof -
        consider "10 * \<bar>?v - pw al j\<bar> \<le> 6 * ?v" | "al = 0" "?v \<le> 2 * pw 0 j"
          | "al = a" "10 * pw a j \<le> 11 * ?v" "?v \<le> 2 * pw 0 j" using al(3) low by (auto simp: cand_ok_def)
        then show ?thesis
        proof cases
          case 2
          then show ?thesis using half_close [OF j(3)] by simp
        next
          case 3
          have "2 * pw a j \<le> 3 * ?v" "?v \<le> 2 * pw a j" using 3 t(2) \<open>pw 0 j \<le> pw a j\<close> by linarith+
          then show ?thesis using half_close [of "pw a j" ?v] 3(1) by simp
        qed
      qed
      then show ?thesis using al(4) t(2) by (intro tri) linarith
    next
      case False
      have "Q \<ge> ?v"
      proof (cases "c = (a, b)")
        case True
        then show ?thesis using far t(2) by (simp add: Q_def)
      next
        case other: False
        then have m: "max 0 (b - window) \<le> snd c" "snd c \<le> b" "cand_ok ?v a (snd c) (fst c)" using c(6) by (auto simp: js)
        have big: "\<not> 2 * pw 0 (snd c) \<le> 3 * ?v" using False m(1,2) by blast
        then have "\<not> 9 * pw 0 (snd c) \<le> 10 * ?v" using t(2) by linarith
        then have "fst c = 0" using m(3) by (auto simp: cand_ok_def)
        then show ?thesis using big t(2) by (simp add: Q_def)
      qed
      then show ?thesis by (intro tri) simp
    qed
  qed
  moreover have "c \<noteq> (a, b)" if far: "2 * ?v \<le> pw a b"
  proof
    assume "c = (a, b)"
    then have Q: "Q = pw a b" by (simp add: Q_def)
    obtain al where al: "0 \<le> al" "al \<le> a" "cand_ok ?v a b al" "100 * \<bar>?v - Q\<bar> \<le> 112 * \<bar>?v - pw al b\<bar>"
      using qj [OF b] by auto
    have D: "\<bar>?v - Q\<bar> = pw a b - ?v" using far t(2) by (simp add: Q)
    have "100 * ?v \<le> 112 * \<bar>?v - pw al b\<bar>" using al(4) far unfolding D by (simp add: algebra_simps)
    then have no: "\<not> 10 * \<bar>?v - pw al b\<bar> \<le> 6 * ?v" "\<not> 10 * pw a b \<le> 11 * ?v" using far t(2) by linarith+
    then have ge: "9 * ?v \<le> 10 * pw 0 b" "al = 0" using al(3) by (auto simp: cand_ok_def)
    show False
    proof (cases "a = 0")
      case False
      then have "2 * pw 0 b \<le> pw a b" using pw_half [of 0 b a b] ab by simp
      moreover have "100 * (pw a b - ?v) \<le> 112 * (pw 0 b - ?v) \<or> 100 * (pw a b - ?v) \<le> 112 * (?v - pw 0 b)"
        using al(4) unfolding D ge(2) by (auto simp: abs_if split: if_splits)
      ultimately show False using ge(1) far t(2) by (auto simp: algebra_simps)
    next
      case True
      have "b \<noteq> 0" using far t(2) True by (auto simp: pw_def)
      then have b1: "0 < b" using ab by simp
      then have p3: "pw a b = 3 * pw 0 (b - 1)" using pw_tpl [of b a] True by simp
      obtain al' where al': "0 \<le> al'" "al' \<le> a" "100 * \<bar>?v - Q\<bar> \<le> 112 * \<bar>?v - pw al' (b - 1)\<bar>"
        using qj [of "b - 1"] b1 window by auto
      then have "al' = 0" using True by simp
      then have "100 * (pw a b - ?v) \<le> 112 * \<bar>?v - pw 0 (b - 1)\<bar>" using al'(3) unfolding D by simp
      then have "100 * (pw a b - ?v) \<le> 112 * (pw 0 (b - 1) - ?v) \<or> 100 * (pw a b - ?v) \<le> 112 * (?v - pw 0 (b - 1))"
        by (auto simp: abs_if split: if_splits)
      then show False using p3 far t(2) by (auto simp: algebra_simps)
    qed
  qed
  ultimately show ?thesis using run c(2-5) by (intro exI [of _ "fst c"] exI [of _ "snd c"]) (auto simp: Q_def prod_eq_iff)
qed

section \<open>The loop\<close>

definition rest_weight :: "int \<Rightarrow> int \<Rightarrow> nat" where
  "rest_weight v p = (if 2 * v \<le> p then 0 else if v < p then 1 else if v < 2 * p then 2 else if v < 3 * p then 3 else 4)"

definition step_weight :: "int \<Rightarrow> int \<Rightarrow> int \<Rightarrow> nat" where
  "step_weight v a b = 5 * nat (a + b) + rest_weight v (pw a b)"

lemma step_weight_falls:
  assumes "0 < v" "v \<le> 3 * pw a b" "0 \<le> alpha" "alpha \<le> a" "0 \<le> beta" "beta \<le> b"
    "2 * v \<le> pw a b \<longrightarrow> (alpha, beta) \<noteq> (a, b)"
  shows "step_weight \<bar>v - pw alpha beta\<bar> alpha beta < step_weight v a b"
proof (cases "(alpha, beta) = (a, b)")
  case True
  with assms(7) have "pw a b < 2 * v" by auto
  then have "rest_weight \<bar>v - pw a b\<bar> (pw a b) < rest_weight v (pw a b)"
    using assms(1,2) pw_pos [of a b] by (simp add: rest_weight_def)
  then show ?thesis using True by (simp add: step_weight_def)
next
  case False
  then have "alpha + beta + 1 \<le> a + b" using assms(4,6) by auto
  then have "nat (alpha + beta) + 1 \<le> nat (a + b)" using assms(3,5) by linarith
  then have "5 * nat (alpha + beta) + 5 \<le> 5 * nat (a + b)" by simp
  moreover have "rest_weight \<bar>v - pw alpha beta\<bar> (pw alpha beta) \<le> 4" by (simp add: rest_weight_def)
  ultimately show ?thesis by (simp add: step_weight_def)
qed

lemma greedy_loop_ok:
  assumes INTS: "INTS \<in> {5, 9, 13, 17}" and fl: "floats_ok F INTS" and window: "1 \<le> window" "window \<le> 6"
  shows "exact_run F INTS window t a b \<Longrightarrow> length t = INTS \<Longrightarrow> in_table INTS a b \<Longrightarrow> big_val t \<le> 3 * pw a b \<Longrightarrow>
    s = 1 \<or> s = - 1 \<Longrightarrow>
    \<exists>terms. (\<forall>i row. \<exists>row'. greedy_loop F INTS window t a b s i row = Some (i + length terms, row') \<and>
        (\<forall>k<i. row' k = row k) \<and> map row' [i..<i + length terms] = terms) \<and>
      dbc_chain a b terms \<and> sum_list (map term_value terms) = s * big_val t \<and>
      (terms \<noteq> [] \<longrightarrow> fst (hd terms) = s) \<and> length terms \<le> step_weight (big_val t) a b + 1"
proof (induction "step_weight (big_val t) a b" arbitrary: t a b s rule: less_induct)
  case less
  have ab: "0 \<le> a" "0 \<le> b" using less.prems(3) by (simp_all add: in_table_def)
  show ?case
  proof (cases "iszero t")
    case True
    then show ?thesis using ab
      by (intro exI [of _ "[]"]) (simp add: greedy_loop.simps iszero_val)
  next
    case False
    then have v: "0 < big_val t" using big_val_ge_0 [of t] by (simp add: iszero_val order_less_le)
    obtain alpha beta where c: "choose_power F INTS window t a b = Some (alpha, beta)"
      "0 \<le> alpha" "alpha \<le> a" "0 \<le> beta" "beta \<le> b" "\<bar>big_val t - pw alpha beta\<bar> \<le> 3 * pw alpha beta"
      "2 * big_val t \<le> pw a b \<longrightarrow> (alpha, beta) \<noteq> (a, b)"
      using choose_power_ok [OF fl less.prems(2) v less.prems(3,4) window] by blast
    define p where "p = pow23_all INTS (nat alpha) (nat beta)"
    have tab: "in_table INTS alpha beta" by (rule in_table_below [OF less.prems(3) c(2-5)])
    have p: "big_val p = pw alpha beta" "length p = INTS" using table_val [OF INTS tab] by (simp_all add: p_def)
    define t' where "t' = (if big_ge t p then big_minus t p else big_minus p t)"
    define s' where "s' = (if big_ge t p then s else - s)"
    note ex = exact_run_step [OF less.prems(1) False c(1) p_def]
    have ge: "big_ge t p \<longleftrightarrow> big_val p \<le> big_val t" using big_ge_val [of t p] less.prems(2) p(2) by simp
    have t': "big_val t' = \<bar>big_val t - pw alpha beta\<bar>" "length t' = INTS"
      using big_minus_exact [of t p] big_minus_exact [of p t] ex(1) less.prems(2) p ge
      by (auto simp: t'_def minuend_ok_def)
    have sv: "s * big_val t = s * pw alpha beta + s' * big_val t'" using t'(1) ge p(1)
      by (auto simp: s'_def algebra_simps)
    have run: "greedy_loop F INTS window t a b s i row =
        greedy_loop F INTS window t' alpha beta s' (Suc i) (row(i := (s, alpha, beta)))" for i row
      using False c(1) by (subst greedy_loop.simps) (simp add: p_def [symmetric] t'_def s'_def Let_def)
    have w: "step_weight (big_val t') alpha beta < step_weight (big_val t) a b"
      unfolding t'(1) by (rule step_weight_falls [OF v less.prems(4) c(2-5,7)])
    have s': "s' = 1 \<or> s' = - 1" using less.prems(5) by (auto simp: s'_def)
    have near: "big_val t' \<le> 3 * pw alpha beta" using c(6) t'(1) by simp
    obtain terms where IH: "\<And>i row. \<exists>row'. greedy_loop F INTS window t' alpha beta s' i row = Some (i + length terms, row') \<and>
        (\<forall>k<i. row' k = row k) \<and> map row' [i..<i + length terms] = terms"
      "dbc_chain alpha beta terms" "sum_list (map term_value terms) = s' * big_val t'"
      "length terms \<le> step_weight (big_val t') alpha beta + 1"
      using less.hyps [OF w ex(2) [folded t'_def] t'(2) tab near s'] by blast
    let ?terms = "(s, alpha, beta) # terms"
    have "\<exists>row'. greedy_loop F INTS window t a b s i row = Some (i + length ?terms, row') \<and>
        (\<forall>k<i. row' k = row k) \<and> map row' [i..<i + length ?terms] = ?terms" for i row
    proof -
      obtain row' where r: "greedy_loop F INTS window t' alpha beta s' (Suc i) (row(i := (s, alpha, beta))) =
          Some (Suc i + length terms, row')" "\<forall>k<Suc i. row' k = (row(i := (s, alpha, beta))) k"
        "map row' [Suc i..<Suc i + length terms] = terms"
        using IH(1) [of "Suc i" "row(i := (s, alpha, beta))"] by blast
      have "[i..<i + length ?terms] = i # [Suc i..<Suc i + length terms]" using upt_conv_Cons [of i "i + length ?terms"] by simp
      then show ?thesis using r by (simp add: run)
    qed
    moreover have "dbc_chain a b ?terms" using IH(2) c(3,5) by simp
    moreover have "term_value (s, alpha, beta) = s * pw alpha beta" using less.prems(5) by (auto simp: term_value_def pw_def)
    then have "sum_list (map term_value ?terms) = s * big_val t" using IH(3) sv by simp
    moreover have "length ?terms \<le> step_weight (big_val t) a b + 1" using IH(4) w by simp
    moreover have "fst (hd ?terms) = s" by simp
    ultimately show ?thesis by blast
  qed
qed

section \<open>The searches\<close>

text \<open>The chain of a start; its cost; a chain in a row of the store.\<close>

definition greedy_chain :: "'d floats \<Rightarrow> nat \<Rightarrow> int \<Rightarrow> bigint \<Rightarrow> int \<Rightarrow> int \<Rightarrow> (int \<times> int \<times> int) list option" where
  "greedy_chain F INTS window n a b =
     map_option (\<lambda>(l, row). map row [0..<l]) (greedy_loop F INTS window n a b 1 0 (\<lambda>_. (0, 0, 0)))"

definition dbc_cost :: "(int \<times> int \<times> int) list \<Rightarrow> int" where
  "dbc_cost cs = (case hd cs of (_, d, t) \<Rightarrow> int (length cs) * 150 + d * 70 + t * 126)"

definition stored :: "search_state \<Rightarrow> nat \<Rightarrow> (int \<times> int \<times> int) list \<Rightarrow> bool" where
  "stored st k cs \<longleftrightarrow> cs \<noteq> [] \<and> DBC_len st k = int (length cs) \<and> map (DBC_store st k) [0..<length cs] = cs"

lemma stored_cost: "stored st k cs \<Longrightarrow> chain_cost st k = dbc_cost cs"
proof -
  assume a: "stored st k cs"
  then have "map (DBC_store st k) [0..<length cs] ! 0 = cs ! 0" "0 < length cs" by (simp_all add: stored_def)
  then have "DBC_store st k 0 = hd cs" by (simp add: hd_conv_nth)
  with a show ?thesis by (simp add: chain_cost_def dbc_cost_def stored_def)
qed

text \<open>The exponents of a leading term left over from before are not negative.\<close>

definition rows_ok :: "search_state \<Rightarrow> bool" where
  "rows_ok st \<longleftrightarrow> (\<forall>k. case DBC_store st k 0 of (_, d, t) \<Rightarrow> 0 \<le> d \<and> 0 \<le> t)"

lemma rows_ok_cost: "rows_ok st \<Longrightarrow> DBC_len st k * 150 \<le> chain_cost st k"
  by (cases "DBC_store st k 0") (auto simp: rows_ok_def chain_cost_def dest: spec [of _ k])

text \<open>The chains a search tries, from a list of exponents of 3.\<close>

definition tried :: "'d floats \<Rightarrow> nat \<Rightarrow> bigint \<Rightarrow> int list \<Rightarrow> int list" where
  "tried F INTS n bs = filter (\<lambda>b. LBound F INTS n b = RBound F INTS n b)
     (takeWhile (\<lambda>b. 0 \<le> LBound F INTS n b \<and> 0 \<le> RBound F INTS n b) bs)"

primrec starts :: "'d floats \<Rightarrow> nat \<Rightarrow> int \<Rightarrow> bigint \<Rightarrow> int list \<Rightarrow> nat \<times> search_state \<Rightarrow> (nat \<times> search_state) option" where
  "starts F INTS window n [] DBC = Some DBC"
| "starts F INTS window n (b # bs) DBC = do {
     DBC \<leftarrow> greedy_start F INTS window n (RBound F INTS n b) b DBC;
     starts F INTS window n bs DBC
   }"

lemma starts_Nil: "starts F INTS window n [] = Some" "Option.bind x Some = x"
  by (rule ext, simp) (cases x, simp_all)

lemma eos_loop_starts: "eos_loop F INTS n bs = starts F INTS 4 n (tried F INTS n bs)"
proof (induction bs)
  case (Cons b bs)
  then show ?case by (intro ext) (simp add: tried_def Let_def not_less not_le)
qed (simp add: tried_def fun_eq_iff)

lemma sub_optimal_loop_starts:
  "sub_optimal_loop F INTS n coef count bs = starts F INTS 6 n (take (nat (coef - count) + 1) (tried F INTS n bs))"
proof (induction bs arbitrary: count)
  case (Cons b bs)
  have "nat (coef - count) = (if coef < count + 1 then 0 else nat (coef - (count + 1)) + 1)" by auto
  with Cons show ?case by (intro ext) (simp add: tried_def Let_def not_less not_le starts_Nil)
qed (simp add: tried_def fun_eq_iff)

text \<open>A chain of the number for every start.\<close>

definition chain_of :: "'d floats \<Rightarrow> nat \<Rightarrow> int \<Rightarrow> bigint \<Rightarrow> int \<Rightarrow> (int \<times> int \<times> int) list \<Rightarrow> bool" where
  "chain_of F INTS window n b cs \<longleftrightarrow> greedy_chain F INTS window n (RBound F INTS n b) b = Some cs \<and>
     cs \<noteq> [] \<and> dbc_chain (int (32 * INTS)) (int (MAX_3 INTS)) cs \<and> dbc_value cs = big_val n \<and> length cs \<le> 10000"

lemma dbc_chain_mono: "dbc_chain a b cs \<Longrightarrow> a \<le> a' \<Longrightarrow> b \<le> b' \<Longrightarrow> dbc_chain a' b' cs"
  by (cases cs) auto

lemma dbc_value_sum:
  assumes "sum_list (map term_value cs) = v" "cs \<noteq> []" "fst (hd cs) \<noteq> - 1"
  shows "dbc_value cs = v"
  using assms by (cases cs) (auto simp: term_value_def)


lemma start_chain:
  assumes INTS: "INTS \<in> {5, 9, 13, 17}" and fl: "floats_ok F INTS" and window: "1 \<le> window" "window \<le> 6"
    and n: "length n = INTS" "0 < big_val n" "6 * big_val n < 2 ^ (32 * INTS)" and bd: "bounds_ok F INTS n"
    and b: "0 \<le> b" "b < int (MAX_3 INTS)" "LBound F INTS n b = RBound F INTS n b" "0 \<le> RBound F INTS n b"
    and ex: "exact_run F INTS window n (RBound F INTS n b) b"
  shows "\<exists>cs. chain_of F INTS window n b cs \<and>
    (\<forall>row. \<exists>row'. greedy_loop F INTS window n (RBound F INTS n b) b 1 0 row = Some (length cs, row') \<and>
      map row' [0..<length cs] = cs)"
proof -
  define a where "a = RBound F INTS n b"
  have near: "pw a b \<le> 3 * big_val n" "big_val n \<le> 3 * pw a b"
    using bd b unfolding bounds_ok_def a_def by simp_all
  have "pw a b < 2 ^ (32 * INTS)" using near(1) n(2,3) by linarith
  then have tab: "in_table INTS a b" using b by (simp add: in_table_def a_def)
  obtain cs where cs: "\<And>i row. \<exists>row'. greedy_loop F INTS window n a b 1 i row = Some (i + length cs, row') \<and>
        (\<forall>k<i. row' k = row k) \<and> map row' [i..<i + length cs] = cs"
    "dbc_chain a b cs" "sum_list (map term_value cs) = 1 * big_val n" "cs \<noteq> [] \<longrightarrow> fst (hd cs) = 1"
    "length cs \<le> step_weight (big_val n) a b + 1"
    using greedy_loop_ok [OF INTS fl window ex [folded a_def] n(1) tab near(2), of 1] by auto
  have row: "\<exists>row'. greedy_loop F INTS window n a b 1 0 row = Some (length cs, row') \<and> map row' [0..<length cs] = cs" for row
    using cs(1) [of 0 row] by auto
  have ne: "cs \<noteq> []" using cs(3) n(2) by auto
  have gc: "greedy_chain F INTS window n a b = Some cs" using row [of "\<lambda>_. (0, 0, 0)"] by (auto simp: greedy_chain_def)
  have "(2 :: int) ^ nat a \<le> pw a b" using one_le_power [of "3 :: int" "nat b"] by (simp add: pw_def)
  then have "(2 :: int) ^ nat a < 2 ^ (32 * INTS)" using tab unfolding in_table_def by linarith
  then have a: "nat a < 32 * INTS" by (rule power_less_imp_less_exp [rotated]) simp
  have v: "dbc_value cs = big_val n" using cs(3,4) ne by (intro dbc_value_sum) simp_all
  have "dbc_chain (int (32 * INTS)) (int (MAX_3 INTS)) cs"
    by (rule dbc_chain_mono [OF cs(2)]) (use a b(2) in simp_all)
  moreover have "length cs \<le> 10000"
  proof -
    have "nat a < 544" "nat b < 344" using a b(2) INTS by (auto simp: MAX_3_def)
    then have "nat (a + b) \<le> 886" by linarith
    moreover have "rest_weight (big_val n) (pw a b) \<le> 4" by (simp add: rest_weight_def)
    ultimately show ?thesis using cs(5) by (simp add: step_weight_def)
  qed
  ultimately show ?thesis using row gc ne v by (auto simp: chain_of_def a_def)
qed

text \<open>One start: the cheaper chain stays, the other row is next.\<close>

definition best_in :: "search_state \<Rightarrow> nat \<Rightarrow> (int \<times> int \<times> int) list list \<Rightarrow> bool" where
  "best_in st k css \<longleftrightarrow> (\<exists>cs. cs \<in> set css \<and> stored st k cs \<and> (\<forall>c \<in> set css. dbc_cost cs \<le> dbc_cost c))"

lemma best_inI: "stored st k c \<Longrightarrow> c \<in> set css \<Longrightarrow> \<forall>x\<in>set css. dbc_cost c \<le> dbc_cost x \<Longrightarrow> best_in st k css"
  unfolding best_in_def by blast

definition select_ok :: "nat \<times> search_state \<Rightarrow> (int \<times> int \<times> int) list list \<Rightarrow> bool" where
  "select_ok DBC css \<longleftrightarrow> (case DBC of (idx, st) \<Rightarrow> rows_ok st \<and>
     (if css = [] then idx = 0 \<and> DBC_len st 1 = 1048576 else idx \<le> 1 \<and> best_in st (1 - idx) css))"

lemma dbc_chain_hd: "dbc_chain a b cs \<Longrightarrow> cs \<noteq> [] \<Longrightarrow> 0 \<le> fst (snd (hd cs)) \<and> fst (snd (hd cs)) \<le> a \<and>
    0 \<le> snd (snd (hd cs)) \<and> snd (snd (hd cs)) \<le> b"
  by (cases cs) (auto dest: dbc_chain_pos)

lemma greedy_start_ok:
  assumes INTS: "INTS \<in> {5, 9, 13, 17}" and sel: "select_ok DBC css" and cs: "chain_of F INTS window n b cs"
    and run: "\<And>row. \<exists>row'. greedy_loop F INTS window n (RBound F INTS n b) b 1 0 row = Some (length cs, row') \<and>
      map row' [0..<length cs] = cs"
  shows "\<exists>DBC'. greedy_start F INTS window n (RBound F INTS n b) b DBC = Some DBC' \<and> select_ok DBC' (css @ [cs])"
proof -
  obtain idx st where DBC: "DBC = (idx, st)" by force
  have c: "cs \<noteq> []" "dbc_chain (int (32 * INTS)) (int (MAX_3 INTS)) cs" "length cs \<le> 10000"
    using cs by (simp_all add: chain_of_def)
  note hd = dbc_chain_hd [OF c(2,1)]
  obtain row' where r: "greedy_loop F INTS window n (RBound F INTS n b) b 1 0 (DBC_store st idx) = Some (length cs, row')"
    "map row' [0..<length cs] = cs" using run by blast
  define st' where "st' = st\<lparr>DBC_store := (DBC_store st)(idx := row'), DBC_len := (DBC_len st)(idx := int (length cs))\<rparr>"
  have new: "stored st' idx cs" using r(2) c(1) by (simp add: stored_def st'_def)
  have old: "stored st' k c' = stored st k c'" if "k \<noteq> idx" for k c' using that by (simp add: stored_def st'_def)
  have row0: "row' 0 = hd cs"
  proof -
    have "map row' [0..<length cs] ! 0 = row' 0" using c(1) by (simp add: nth_map del: map_upt_Suc)
    then show ?thesis using r(2) c(1) by (simp add: hd_conv_nth)
  qed
  have rows: "rows_ok st'" using sel hd row0 by (auto simp: DBC select_ok_def rows_ok_def st'_def split: prod.splits)
  define idx' where "idx' = (if chain_cost st' 0 < chain_cost st' 1 then 1 else 0 :: nat)"
  have "greedy_start F INTS window n (RBound F INTS n b) b DBC = Some (idx', st')"
    by (simp add: greedy_start_def DBC r(1) st'_def [symmetric] idx'_def Let_def)
  moreover have "best_in st' (1 - idx') (css @ [cs])"
  proof (cases "css = []")
    case True
    then have i: "idx = 0" "DBC_len st 1 = 1048576" using sel by (simp_all add: DBC select_ok_def)
    have "chain_cost st' 0 \<le> 10000 * 150 + 544 * 70 + 344 * 126"
      using stored_cost [OF new] hd c(3) INTS by (auto simp: i(1) dbc_cost_def MAX_3_def split: prod.splits)
    moreover have "chain_cost st' 1 \<ge> 1048576 * 150"
      using rows_ok_cost [OF rows, of 1] i by (simp add: st'_def)
    ultimately have "idx' = 1" by (simp add: idx'_def)
    then show ?thesis using new True i(1) by (simp add: best_in_def)
  next
    case False
    then obtain c' where c': "idx \<le> 1" "c' \<in> set css" "stored st (1 - idx) c'" "\<forall>x \<in> set css. dbc_cost c' \<le> dbc_cost x"
      using sel by (auto simp: DBC select_ok_def best_in_def)
    have "1 - idx \<noteq> idx" using c'(1) by arith
    from old [OF this] c'(3) have "stored st' (1 - idx) c'" by blast
    note costs = stored_cost [OF new] stored_cost [OF this]
    have keep: "best_in st' (1 - idx) (css @ [cs])" if "dbc_cost c' \<le> dbc_cost cs"
      using \<open>stored st' (1 - idx) c'\<close> c'(2,4) that by (intro best_inI [of _ _ c']) auto
    have take: "best_in st' idx (css @ [cs])" if "dbc_cost cs \<le> dbc_cost c'"
    proof -
      have "\<forall>x\<in>set css. dbc_cost cs \<le> dbc_cost x" using c'(4) that by (blast intro: order_trans)
      then show ?thesis using new that by (intro best_inI [of _ _ cs]) auto
    qed
    have "idx = 0 \<or> idx = 1" using c'(1) by linarith
    then have "1 - idx' = idx \<and> dbc_cost cs \<le> dbc_cost c' \<or> 1 - idx' = 1 - idx \<and> dbc_cost c' \<le> dbc_cost cs"
      using costs by (elim disjE) (simp_all add: idx'_def)
    then show ?thesis using keep take by (elim disjE conjE) simp_all
  qed
  moreover have "idx' \<le> 1" by (simp add: idx'_def)
  ultimately show ?thesis using rows by (auto simp: select_ok_def)
qed

text \<open>A search over a list of starts.\<close>

lemma starts_ok:
  assumes INTS: "INTS \<in> {5, 9, 13, 17}" and fl: "floats_ok F INTS" and window: "1 \<le> window" "window \<le> 6"
    and n: "length n = INTS" "0 < big_val n" "6 * big_val n < 2 ^ (32 * INTS)" and bd: "bounds_ok F INTS n"
  shows "\<forall>b\<in>set bs. 0 \<le> b \<and> b < int (MAX_3 INTS) \<and> LBound F INTS n b = RBound F INTS n b \<and> 0 \<le> RBound F INTS n b \<and>
      exact_run F INTS window n (RBound F INTS n b) b \<Longrightarrow> select_ok DBC css \<Longrightarrow>
    \<exists>DBC' css'. starts F INTS window n bs DBC = Some DBC' \<and> select_ok DBC' (css @ css') \<and>
      list_all2 (chain_of F INTS window n) bs css'"
proof (induction bs arbitrary: DBC css)
  case Nil
  then show ?case by simp
next
  case (Cons b bs)
  obtain cs where cs: "chain_of F INTS window n b cs"
    "\<forall>row. \<exists>row'. greedy_loop F INTS window n (RBound F INTS n b) b 1 0 row = Some (length cs, row') \<and>
      map row' [0..<length cs] = cs"
    using start_chain [OF INTS fl window n bd, of b] Cons.prems(1) by auto
  obtain DBC1 where one: "greedy_start F INTS window n (RBound F INTS n b) b DBC = Some DBC1"
    "select_ok DBC1 (css @ [cs])"
    using greedy_start_ok [OF INTS Cons.prems(2) cs(1)] cs(2) by blast
  obtain DBC' css' where "starts F INTS window n bs DBC1 = Some DBC'" "select_ok DBC' ((css @ [cs]) @ css')"
    "list_all2 (chain_of F INTS window n) bs css'"
    using Cons.IH [OF _ one(2)] Cons.prems(1) by auto
  with one(1) cs(1) show ?case by (intro exI [of _ DBC'] exI [of _ "cs # css'"]) simp
qed

end
