(* ===== verification/Dbc_Optimal.thy ===== *)
theory Dbc_Optimal
  imports Dbc_Cells
begin

text \<open>
  The cells are shortest: no chain of falling terms below \<open>(b, t)\<close> for the residue, or for the residue
  minus the power, has fewer terms than the cell. Each case of the recurrences considers only some of
  the predecessors; the chains it leaves out can be rewritten without adding a term.
\<close>

section \<open>Chains\<close>

definition flip :: "chain list \<Rightarrow> chain list" where
  "flip cs = map (\<lambda>c. c\<lparr>minus := \<not> minus c\<rparr>) cs"

lemma flip [simp]: "cval (flip cs) = - cval cs" "length (flip cs) = length cs" "below b t (flip cs) \<longleftrightarrow> below b t cs"
proof -
  show "cval (flip cs) = - cval cs" by (induction cs) (simp_all add: flip_def tval_def)
  show "below b t (flip cs) \<longleftrightarrow> below b t cs" by (induction b t cs rule: below.induct) (simp_all add: flip_def)
qed (simp add: flip_def)

lemma pw_dbl_up: "0 \<le> b \<Longrightarrow> pw (b + 1) t = 2 * pw b t"
  using pw_dbl [of "b + 1" t] by simp

lemma pw_tpl_up: "0 \<le> t \<Longrightarrow> pw b (t + 1) = 3 * pw b t"
  using pw_tpl [of "t + 1" b] by simp

lemma tval_pw: "tval c = (if minus c then - pw (dbl c) (tpl c) else pw (dbl c) (tpl c))"
  by (simp add: tval_def pw_def)

text \<open>A chain starts with the term just below, on one of the two sides, or lies below that term.\<close>

lemma below_split:
  assumes "below b t xs" "0 \<le> b" "0 \<le> t" "b + t \<noteq> 0"
  obtains (dbl) "0 < b" "below (b - 1) t xs"
  | (dbl_term) c cs where "0 < b" "xs = c # cs" "dbl c = b - 1" "tpl c = t" "below (b - 1) t cs"
  | (tpl) "0 < t" "below b (t - 1) xs"
  | (tpl_term) c cs where "0 < t" "xs = c # cs" "dbl c = b" "tpl c = t - 1" "below b (t - 1) cs"
proof (cases xs)
  case Nil
  then show ?thesis using dbl tpl assms(2-4) by (cases "0 < b") auto
next
  case (Cons c cs)
  then have c: "0 \<le> dbl c" "0 \<le> tpl c" "dbl c \<le> b" "tpl c \<le> t" "dbl c \<noteq> b \<or> tpl c \<noteq> t" "below (dbl c) (tpl c) cs"
    using assms(1) by auto
  consider "dbl c = b - 1" "tpl c = t" | "dbl c \<le> b - 1" "dbl c \<noteq> b - 1 \<or> tpl c \<noteq> t" | "dbl c = b" "tpl c = t - 1"
    | "dbl c = b" "tpl c \<le> t - 1" "tpl c \<noteq> t - 1" using c by linarith
  then show ?thesis
  proof cases
    case 1
    then show ?thesis using dbl_term [of c cs] Cons c by auto
  next
    case 2
    then show ?thesis using dbl Cons c by auto
  next
    case 3
    then show ?thesis using tpl_term [of c cs] Cons c by auto
  next
    case 4
    then show ?thesis using tpl Cons c by auto
  qed
qed

section \<open>The chains the recurrences leave out\<close>

text \<open>\<open>D = 2 ^ (b - 1) 3 ^ t\<close> followed by a chain of at most \<open>- D / 3\<close>: the second term is \<open>- D / 2\<close>,
  \<open>- D / 3\<close> or \<open>- D / 4\<close>, and \<open>D - D / 2 = D / 2\<close>, \<open>D - D / 3 = 2 ^ b 3 ^ (t - 1)\<close>, \<open>D - D / 4 = D / 2 + D / 4\<close>.\<close>

lemma dominated_dbl:
  assumes b: "0 < b" "0 \<le> t" and cs: "below (b - 1) t cs" and v: "3 * cval cs \<le> - pw (b - 1) t"
  shows "\<exists>ys. length ys \<le> length cs + 1 \<and> cval ys = pw (b - 1) t + cval cs \<and>
    (below (b - 1) t ys \<or> (0 < t \<and> (\<exists>e es. ys = e # es \<and> dbl e = b \<and> tpl e = t - 1 \<and> \<not> minus e \<and> below b (t - 1) es)))"
proof -
  define D where "D = pw (b - 1) t"
  have D: "0 < D" by (simp add: D_def)
  have "cs \<noteq> []" using v D unfolding D_def [symmetric] by auto
  then obtain c ds where cd: "cs = c # ds" by (cases cs) auto
  define d u where "d = dbl c" and "u = tpl c"
  have c: "0 \<le> d" "0 \<le> u" "d \<le> b - 1" "u \<le> t" "d \<noteq> b - 1 \<or> u \<noteq> t" "below d u ds" using cs by (auto simp: cd d_def u_def)
  have rest: "\<bar>cval ds\<bar> < pw d u" by (rule below_bound) (rule c)
  have m: "minus c"
  proof (rule ccontr)
    assume "\<not> minus c"
    then have "cval cs = pw d u + cval ds" by (simp add: cd tval_pw d_def u_def)
    then show False using v rest D unfolding D_def [symmetric] by linarith
  qed
  then have val: "cval cs = cval ds - pw d u" by (simp add: cd tval_def pw_def d_def u_def)
  have "- cval ds < pw d u" "3 * (cval ds - pw d u) \<le> - D" using rest v unfolding val D_def by (simp_all add: abs_less_iff)
  then have "D \<le> 3 * pw d u + 3 * (- cval ds)" "3 * (- cval ds) < 3 * pw d u" by (simp_all add: algebra_simps)
  then have big: "D < 6 * pw d u" by simp
  have le: "pw d' u' \<le> D" if "d' \<le> b - 1" "u' \<le> t" for d' u' unfolding D_def using that by (rule pw_mono)
  have "\<not> d + 3 \<le> b - 1"
    using le [of "d + 1 + 1 + 1" u] c big D pw_dbl_up [of "d + 1 + 1" u] pw_dbl_up [of "d + 1" u] pw_dbl_up [of d u] by auto
  moreover have "\<not> (d + 1 \<le> b - 1 \<and> u + 1 \<le> t)"
    using le [of "d + 1" "u + 1"] c big D pw_dbl_up [of d "u + 1"] pw_tpl_up [of u d] by auto
  moreover have "\<not> u + 2 \<le> t"
    using le [of d "u + 1 + 1"] c big D pw_tpl_up [of "u + 1" d] pw_tpl_up [of u d] by auto
  ultimately consider "d = b - 2" "u = t" | "d = b - 1" "u = t - 1" | "d = b - 3" "u = t" using c by linarith
  then show ?thesis
  proof cases
    case 1
    have "D = 2 * pw d u" using pw_dbl [of "b - 1" t] 1 c by (simp add: D_def)
    then show ?thesis using 1 c val
      by (intro exI [of _ "\<lparr>dbl = d, tpl = u, minus = False\<rparr> # ds"]) (simp add: cd tval_def D_def, simp add: pw_def)
  next
    case 2
    have "D = 3 * pw d u" "pw b u = 2 * pw d u" using pw_tpl [of t "b - 1"] pw_dbl [of b u] 2 c b by (simp_all add: D_def)
    then show ?thesis using 2 c val below_mono [OF c(6), of b u]
      by (intro exI [of _ "\<lparr>dbl = b, tpl = u, minus = False\<rparr> # ds"]) (simp add: cd tval_def D_def, simp add: pw_def)
  next
    case 3
    have "D = 2 * pw (d + 1) u" "pw (d + 1) u = 2 * pw d u" using pw_dbl [of "b - 1" t] pw_dbl_up [of d u] 3 c by (simp_all add: D_def)
    then show ?thesis using 3 c val
      by (intro exI [of _ "\<lparr>dbl = d + 1, tpl = u, minus = False\<rparr> # \<lparr>dbl = d, tpl = u, minus = False\<rparr> # ds"])
        (simp add: cd tval_def D_def, simp add: pw_def)
  qed
qed

text \<open>A chain below \<open>(b, t)\<close> whose value is at least half the power: the half can be taken off.\<close>

lemma take_half:
  "0 < b \<Longrightarrow> 0 \<le> t \<Longrightarrow> below b t cs \<Longrightarrow> pw (b - 1) t \<le> cval cs \<Longrightarrow>
    \<exists>ds. below (b - 1) t ds \<and> cval ds = cval cs - pw (b - 1) t \<and> length ds \<le> length cs"
proof (induction cs arbitrary: t)
  case Nil
  then show ?case using pw_pos [of "b - 1" t] by simp
next
  case (Cons c cs)
  define F where "F = pw (b - 1) t"
  define d u where "d = dbl c" and "u = tpl c"
  have c: "0 \<le> d" "0 \<le> u" "d \<le> b" "u \<le> t" "d \<noteq> b \<or> u \<noteq> t" "below d u cs" using Cons.prems(3) by (auto simp: d_def u_def)
  have rest: "\<bar>cval cs\<bar> < pw d u" by (rule below_bound) (rule c)
  have F: "F \<le> cval (c # cs)" "0 < F" using Cons.prems(4) by (simp_all add: F_def)
  have p: "\<not> minus c" using F rest by (auto simp: tval_def pw_def d_def u_def intro: ccontr)
  then have val: "cval (c # cs) = pw d u + cval cs" by (simp add: tval_def pw_def d_def u_def)
  have big: "F < 2 * pw d u" using F rest unfolding val by linarith
  have E: "pw b t = 2 * F" using pw_dbl [of b t] Cons.prems(1) by (simp add: F_def)
  have le: "pw d' u' \<le> 2 * F" if "d' \<le> b" "u' \<le> t" for d' u' unfolding E [symmetric] using that by (rule pw_mono)
  have "\<not> d + 2 \<le> b" using le [of "d + 1 + 1" u] c big F pw_dbl_up [of "d + 1" u] pw_dbl_up [of d u] by auto
  moreover have "\<not> (d + 1 \<le> b \<and> u + 1 \<le> t)"
  proof
    assume "d + 1 \<le> b \<and> u + 1 \<le> t"
    then have "6 * pw d u \<le> 2 * F" using le [of "d + 1" "u + 1"] c pw_dbl_up [of d "u + 1"] pw_tpl_up [of u d] by simp
    then show False using big rest by linarith
  qed
  moreover have "\<not> u + 2 \<le> t"
  proof
    assume "u + 2 \<le> t"
    then have "9 * pw d u \<le> 2 * F" using le [of d "u + 1 + 1"] c pw_tpl_up [of "u + 1" d] pw_tpl_up [of u d] by simp
    then show False using big rest by linarith
  qed
  ultimately consider "d = b - 1" "u = t" | "d = b" "u = t - 1" using c by linarith
  then show ?case
  proof cases
    case 1
    then show ?thesis using c val by (intro exI [of _ cs]) (simp add: F_def)
  next
    case 2
    have "F = 3 * pw (b - 1) (t - 1)" using pw_tpl [of t "b - 1"] 2 c by (simp add: F_def)
    moreover have "pw d u = 2 * pw (b - 1) (t - 1)" using pw_dbl [of b "t - 1"] 2 Cons.prems(1) by simp
    ultimately have "pw (b - 1) (t - 1) \<le> cval cs" "cval cs - pw (b - 1) (t - 1) = cval (c # cs) - F" using F val by linarith+
    then obtain ds where "below (b - 1) (t - 1) ds" "cval ds = cval (c # cs) - F" "length ds \<le> length cs"
      using Cons.IH [of "t - 1"] Cons.prems(1) c 2 by auto
    then show ?thesis using below_mono [of "b - 1" "t - 1" ds "b - 1" t] by (intro exI [of _ ds]) (simp add: F_def)
  qed
qed

lemma powers_of_3: "below 0 t cs \<Longrightarrow> 0 \<le> t \<Longrightarrow> 2 * \<bar>cval cs\<bar> < pw 0 t"
proof (induction cs arbitrary: t)
  case (Cons c cs)
  then have c: "dbl c = 0" "0 \<le> tpl c" "tpl c \<le> t - 1" "below 0 (tpl c) cs" by auto
  have "2 * \<bar>cval cs\<bar> < pw 0 (tpl c)" using Cons.IH c by simp
  moreover have "pw 0 (tpl c) \<le> pw 0 (t - 1)" using c by (intro pw_mono) auto
  moreover have "pw 0 t = 3 * pw 0 (t - 1)" using c by (intro pw_tpl) simp
  moreover have "\<bar>tval c\<bar> = pw 0 (tpl c)" "\<bar>cval (c # cs)\<bar> \<le> \<bar>tval c\<bar> + \<bar>cval cs\<bar>" using tval_abs [of c] c(1) by simp_all
  ultimately show ?case by linarith
qed simp

section \<open>Lengths\<close>

definition shortest :: "int \<Rightarrow> int \<Rightarrow> optimal_DBC \<Rightarrow> int \<Rightarrow> bool" where
  "shortest b t c v \<longleftrightarrow> (\<forall>xs. below b t xs \<and> cval xs = v \<longrightarrow> getL c \<le> int (length xs))"

lemma shortestD: "shortest b t c v \<Longrightarrow> below b t xs \<Longrightarrow> cval xs = v \<Longrightarrow> getL c \<le> int (length xs)"
  by (simp add: shortest_def)

lemma getL_minL: "getL (minL x y z) \<le> k \<longleftrightarrow> getL x \<le> k \<or> getL y \<le> k \<or> getL z \<le> k"
  by (auto simp: minL_def Let_def)

lemma getL_add: "getL c \<le> k \<Longrightarrow> k < 99999999 \<Longrightarrow> getL (add_DBC c r d u s) \<le> k + 1"
  by (auto simp: add_DBC_def getL_def new_DBC_def split: if_splits)

section \<open>The cells are shortest\<close>

text \<open>One step from shortest predecessors \<open>l\<close> and \<open>d\<close>.\<close>

definition both_shortest :: "int \<Rightarrow> int \<Rightarrow> int \<Rightarrow> optimal_DBC \<times> optimal_DBC \<Rightarrow> bool" where
  "both_shortest n b t p \<longleftrightarrow> shortest b t (fst p) (n mod pw b t) \<and> shortest b t (snd p) (n mod pw b t - pw b t)"

lemma both_shortestD:
  assumes "both_shortest n b t p" "below b t ys"
  shows "cval ys = n mod pw b t \<Longrightarrow> getL (fst p) \<le> int (length ys)"
    "cval ys = n mod pw b t - pw b t \<Longrightarrow> getL (snd p) \<le> int (length ys)"
  using assms by (auto simp: both_shortest_def shortest_def)

lemma quot_limits:
  assumes "0 \<le> n"
  shows "quot n b t < k \<Longrightarrow> 6 * (n mod pw b t) < k * pw b t" "k \<le> quot n b t \<Longrightarrow> k * pw b t \<le> 6 * (n mod pw b t)"
proof -
  assume "quot n b t < k"
  then have "(quot n b t + 1) * pw b t \<le> k * pw b t" by (intro mult_right_mono) (simp_all add: order_less_imp_le)
  then show "6 * (n mod pw b t) < k * pw b t" using quot_bounds(2) [OF assms, of b t] by linarith
next
  assume "k \<le> quot n b t"
  then have "k * pw b t \<le> quot n b t * pw b t" by (intro mult_right_mono) (simp_all add: order_less_imp_le)
  then show "k * pw b t \<le> 6 * (n mod pw b t)" using quot_bounds(1) [OF assms, of b t] by linarith
qed

lemma cell_step_fst:
  assumes "0 \<le> n"
  shows "getL (fst (cell_step (word_of_int (quot n b t)) b t l d)) \<le> k \<longleftrightarrow>
    (if quot n b t < 2 then getL (fst l) \<le> k \<or> getL (fst d) \<le> k \<or> getL (add_DBC (snd d) (W_neg b (t - 1)) b (t - 1) 1) \<le> k
     else if quot n b t = 2 then getL (fst l) \<le> k \<or> getL (add_DBC (snd l) (W_neg (b - 1) t) (b - 1) t 1) \<le> k \<or>
       getL (add_DBC (fst d) (W b (t - 1)) b (t - 1) 1) \<le> k
     else getL (add_DBC (fst l) (W (b - 1) t) (b - 1) t 1) \<le> k)"
  using quot_word [OF assms, of b t] by (simp add: cell_step_def Let_def getL_minL)

lemma cell_step_snd:
  assumes "0 \<le> n"
  shows "getL (snd (cell_step (word_of_int (quot n b t)) b t l d)) \<le> k \<longleftrightarrow>
    (if quot n b t < 3 then getL (add_DBC (snd l) (W_neg (b - 1) t) (b - 1) t (- 1)) \<le> k
     else if quot n b t = 3 then getL (add_DBC (fst l) (W (b - 1) t) (b - 1) t (- 1)) \<le> k \<or> getL (snd l) \<le> k \<or>
       getL (add_DBC (snd d) (W_neg b (t - 1)) b (t - 1) (- 1)) \<le> k
     else getL (snd l) \<le> k \<or> getL (add_DBC (fst d) (W b (t - 1)) b (t - 1) (- 1)) \<le> k \<or> getL (snd d) \<le> k)"
  using quot_word [OF assms, of b t] by (auto simp: cell_step_def Let_def getL_minL)

lemma step_shortest_pos:
  assumes n: "0 \<le> n" and bt: "0 \<le> b" "0 \<le> t" "b + t \<noteq> 0" "b < 65536" "t < 65536"
    and l: "0 < b \<Longrightarrow> both_shortest n (b - 1) t l" and d: "0 < t \<Longrightarrow> both_shortest n b (t - 1) d"
    and xs: "below b t xs" "cval xs = n mod pw b t"
  shows "getL (fst (cell_step (word_of_int (quot n b t)) b t l d)) \<le> int (length xs)"
proof -
  define q r D E where "q = quot n b t" and "r = n mod pw b t" and "D = pw (b - 1) t" and "E = pw b (t - 1)"
  have r0: "0 \<le> r" by (simp add: r_def)
  have v: "cval xs = r" using xs(2) by (simp add: r_def)
  have lim: "q < k \<Longrightarrow> 6 * r < k * pw b t" "k \<le> q \<Longrightarrow> k * pw b t \<le> 6 * r" for k
    unfolding q_def r_def by (rule quot_limits [OF n]; simp)+
  have MD: "pw b t = 2 * D" if "0 < b" using pw_dbl [OF that] by (simp add: D_def)
  have ME: "pw b t = 3 * E" if "0 < t" using pw_tpl [OF that] by (simp add: E_def)
  have rD: "n mod D = (if q < 3 then r else r - D)" if "0 < b" using residue_dbl [OF n that] by (simp add: q_def r_def D_def)
  have rE: "n mod E = (if q < 2 then r else if q < 4 then r - E else r - 2 * E)" if "0 < t"
    using residue_tpl [OF n that] by (simp add: q_def r_def E_def)
  have len: "int (length xs) < 99999999" using below_length [OF xs(1) bt(1,2)] bt by linarith
  note A = both_shortestD [OF l, folded D_def] and B = both_shortestD [OF d, folded E_def]
  note add = getL_add [of _ "int (length xs) - 1", simplified]
  note goal = cell_step_fst [OF n, of b t l d, folded q_def]
  show ?thesis using xs(1) bt(1-3)
  proof (cases rule: below_split)
    case dbl
    have "r < D" using below_bound [OF dbl(2)] v r0 by (simp add: D_def)
    then have "q < 3" using lim(2) [of 3] MD [OF dbl(1)] by (cases "q < 3") auto
    then show ?thesis unfolding q_def [symmetric] goal using A(1) [OF dbl] v rD [OF dbl(1)] by auto
  next
    case (dbl_term c cs)
    have e: "cval cs = r - tval c" "int (length cs) = int (length xs) - 1" using v dbl_term(2) by simp_all
    have "\<bar>cval cs\<bar> < D" using below_bound [OF dbl_term(5)] by (simp add: D_def)
    then have cs: "cval cs = r - D" using e(1) r0 dbl_term(3,4) by (auto simp: tval_pw D_def split: if_splits)
    consider "q < 2" | "q = 2" | "3 \<le> q" by linarith
    then show ?thesis
    proof cases
      case 1
      have "3 * cval cs \<le> - D" using lim(1) [OF 1] MD [OF dbl_term(1)] cs by simp
      from dominated_dbl [OF dbl_term(1) bt(2) dbl_term(5) this [unfolded D_def], folded D_def]
      obtain ys where ys: "length ys \<le> length cs + 1" "cval ys = r"
        "below (b - 1) t ys \<or> (0 < t \<and> (\<exists>e es. ys = e # es \<and> dbl e = b \<and> tpl e = t - 1 \<and> \<not> minus e \<and> below b (t - 1) es))"
        by (auto simp: cs)
      from ys(3) show ?thesis
      proof (elim disjE conjE exE)
        assume "below (b - 1) t ys"
        then have "getL (fst l) \<le> int (length ys)" using A(1) [OF dbl_term(1), of ys] ys(2) rD [OF dbl_term(1)] 1 by simp
        then show ?thesis unfolding q_def [symmetric] goal using 1 ys(1) e(2) by simp
      next
        fix e' es
        assume t: "0 < t" and es: "ys = e' # es" "dbl e' = b" "tpl e' = t - 1" "\<not> minus e'" "below b (t - 1) es"
        then have "cval es = r - E" using ys(2) by (simp add: tval_pw E_def)
        then have "getL (snd d) \<le> int (length es)" using B(2) [OF t es(5)] rE [OF t] 1 by simp
        then show ?thesis unfolding q_def [symmetric] goal using 1 ys(1) e(2) es(1) len add [of "snd d"] by simp
      qed
    next
      case 2
      then have "getL (snd l) \<le> int (length cs)" using A(2) [OF dbl_term(1,5)] cs rD [OF dbl_term(1)] by simp
      then show ?thesis unfolding q_def [symmetric] goal using 2 e(2) len add [of "snd l"] by simp
    next
      case 3
      then have "getL (fst l) \<le> int (length cs)" using A(1) [OF dbl_term(1,5)] cs rD [OF dbl_term(1)] by simp
      then show ?thesis unfolding q_def [symmetric] goal using 3 e(2) len add [of "fst l"] by simp
    qed
  next
    case tpl
    have "r < E" using below_bound [OF tpl(2)] v r0 by (simp add: E_def)
    then have "q < 2" using lim(2) [of 2] ME [OF tpl(1)] by (cases "q < 2") auto
    then show ?thesis unfolding q_def [symmetric] goal using B(1) [OF tpl] v rE [OF tpl(1)] by auto
  next
    case (tpl_term c cs)
    have e: "cval cs = r - tval c" "int (length cs) = int (length xs) - 1" using v tpl_term(2) by simp_all
    have bd: "\<bar>cval cs\<bar> < E" using below_bound [OF tpl_term(5)] by (simp add: E_def)
    then have cs: "cval cs = r - E" using e(1) r0 tpl_term(3,4) by (auto simp: tval_pw E_def split: if_splits)
    have "q < 4" using lim(2) [of 4] ME [OF tpl_term(1)] bd cs by (cases "q < 4") auto
    then consider "q < 2" | "q = 2" | "q = 3" by linarith
    then show ?thesis
    proof cases
      case 1
      then have "getL (snd d) \<le> int (length cs)" using B(2) [OF tpl_term(1,5)] cs rE [OF tpl_term(1)] by simp
      then show ?thesis unfolding q_def [symmetric] goal using 1 e(2) len add [of "snd d"] by simp
    next
      case 2
      then have "getL (fst d) \<le> int (length cs)" using B(1) [OF tpl_term(1,5)] cs rE [OF tpl_term(1)] by simp
      then show ?thesis unfolding q_def [symmetric] goal using 2 e(2) len add [of "fst d"] by simp
    next
      case 3
      have half: "E \<le> 2 * cval cs" using lim(2) [of 3] 3 ME [OF tpl_term(1)] cs by simp
      have "0 < b" using powers_of_3 [of "t - 1" cs] tpl_term(1,5) half bt(1) by (cases "b = 0") (auto simp: E_def)
      then have F: "E = 2 * pw (b - 1) (t - 1)" "D = 3 * pw (b - 1) (t - 1)"
        using pw_dbl [of b "t - 1"] pw_tpl [OF tpl_term(1), of "b - 1"] by (simp_all add: E_def D_def)
      obtain ds where ds: "below (b - 1) (t - 1) ds" "cval ds = cval cs - pw (b - 1) (t - 1)" "length ds \<le> length cs"
        using take_half [OF \<open>0 < b\<close> _ tpl_term(5)] half F tpl_term(1) by auto
      have "cval ds = r - D" "below (b - 1) t ds" using ds(2) cs F below_mono [OF ds(1), of "b - 1" t] by simp_all
      then have "getL (fst l) \<le> int (length ds)" using A(1) [OF \<open>0 < b\<close>] rD [OF \<open>0 < b\<close>] 3 by simp
      then show ?thesis unfolding q_def [symmetric] goal using 3 e(2) ds(3) len add [of "fst l"] by simp
    qed
  qed
qed

lemma step_shortest_neg:
  assumes n: "0 \<le> n" and bt: "0 \<le> b" "0 \<le> t" "b + t \<noteq> 0" "b < 65536" "t < 65536"
    and l: "0 < b \<Longrightarrow> both_shortest n (b - 1) t l" and d: "0 < t \<Longrightarrow> both_shortest n b (t - 1) d"
    and xs: "below b t xs" "cval xs = n mod pw b t - pw b t"
  shows "getL (snd (cell_step (word_of_int (quot n b t)) b t l d)) \<le> int (length xs)"
proof -
  define q r D E where "q = quot n b t" and "r = n mod pw b t" and "D = pw (b - 1) t" and "E = pw b (t - 1)"
  have v: "cval xs = r - pw b t" using xs(2) by (simp add: r_def)
  have r1: "r < pw b t" by (simp add: r_def)
  have lim: "q < k \<Longrightarrow> 6 * r < k * pw b t" "k \<le> q \<Longrightarrow> k * pw b t \<le> 6 * r" for k
    unfolding q_def r_def by (rule quot_limits [OF n]; simp)+
  have MD: "pw b t = 2 * D" if "0 < b" using pw_dbl [OF that] by (simp add: D_def)
  have ME: "pw b t = 3 * E" if "0 < t" using pw_tpl [OF that] by (simp add: E_def)
  have rD: "n mod D = (if q < 3 then r else r - D)" if "0 < b" using residue_dbl [OF n that] by (simp add: q_def r_def D_def)
  have rE: "n mod E = (if q < 2 then r else if q < 4 then r - E else r - 2 * E)" if "0 < t"
    using residue_tpl [OF n that] by (simp add: q_def r_def E_def)
  have len: "int (length xs) < 99999999" using below_length [OF xs(1) bt(1,2)] bt by linarith
  note A = both_shortestD [OF l, folded D_def] and B = both_shortestD [OF d, folded E_def]
  note add = getL_add [of _ "int (length xs) - 1", simplified]
  note goal = cell_step_snd [OF n, of b t l d, folded q_def]
  show ?thesis using xs(1) bt(1-3)
  proof (cases rule: below_split)
    case dbl
    have "- D < r - pw b t" using below_bound [OF dbl(2)] v by (simp add: D_def abs_less_iff)
    then have "3 \<le> q" using lim(1) [of 3] MD [OF dbl(1)] by (cases "q < 3") auto
    then show ?thesis unfolding q_def [symmetric] goal using A(2) [OF dbl] v rD [OF dbl(1)] MD [OF dbl(1)] by auto
  next
    case (dbl_term c cs)
    have e: "cval cs = r - pw b t - tval c" "int (length cs) = int (length xs) - 1" using v dbl_term(2) by simp_all
    have "\<bar>cval cs\<bar> < D" using below_bound [OF dbl_term(5)] by (simp add: D_def)
    then have cs: "cval cs = r - D" using e(1) r1 MD [OF dbl_term(1)] dbl_term(3,4) by (auto simp: tval_pw D_def split: if_splits)
    consider "q < 3" | "q = 3" | "4 \<le> q" by linarith
    then show ?thesis
    proof cases
      case 1
      then have "getL (snd l) \<le> int (length cs)" using A(2) [OF dbl_term(1,5)] cs rD [OF dbl_term(1)] by simp
      then show ?thesis unfolding q_def [symmetric] goal using 1 e(2) len add [of "snd l"] by simp
    next
      case 2
      then have "getL (fst l) \<le> int (length cs)" using A(1) [OF dbl_term(1,5)] cs rD [OF dbl_term(1)] by simp
      then show ?thesis unfolding q_def [symmetric] goal using 2 e(2) len add [of "fst l"] by simp
    next
      case 3
      have "3 * cval (flip cs) \<le> - D" using lim(2) [OF 3] MD [OF dbl_term(1)] cs by simp
      moreover have "below (b - 1) t (flip cs)" using dbl_term(5) by simp
      ultimately obtain zs where zs: "length zs \<le> length cs + 1" "cval zs = D + cval (flip cs)"
        "below (b - 1) t zs \<or> (0 < t \<and> (\<exists>e es. zs = e # es \<and> dbl e = b \<and> tpl e = t - 1 \<and> \<not> minus e \<and> below b (t - 1) es))"
        using dominated_dbl [OF dbl_term(1) bt(2), of "flip cs"] unfolding D_def [symmetric] by auto
      have z: "cval zs = pw b t - r" using zs(2) cs MD [OF dbl_term(1)] by simp
      from zs(3) show ?thesis
      proof (elim disjE conjE exE)
        assume "below (b - 1) t zs"
        then have "getL (snd l) \<le> int (length (flip zs))" using A(2) [OF dbl_term(1), of "flip zs"] z rD [OF dbl_term(1)] MD [OF dbl_term(1)] 3 by simp
        then show ?thesis unfolding q_def [symmetric] goal using 3 zs(1) e(2) by simp
      next
        fix e' es
        assume t: "0 < t" and es: "zs = e' # es" "dbl e' = b" "tpl e' = t - 1" "\<not> minus e'" "below b (t - 1) es"
        then have "cval (flip es) = r - 2 * E" using z ME [OF t] by (simp add: tval_pw E_def)
        moreover have "below b (t - 1) (flip es)" using es(5) by simp
        ultimately have "getL (fst d) \<le> int (length (flip es))" using B(1) [OF t, of "flip es"] rE [OF t] 3 by simp
        then show ?thesis unfolding q_def [symmetric] goal using 3 zs(1) e(2) es(1) len add [of "fst d"] by simp
      qed
    qed
  next
    case tpl
    have "- E < r - pw b t" using below_bound [OF tpl(2)] v by (simp add: E_def abs_less_iff)
    then have "4 \<le> q" using lim(1) [of 4] ME [OF tpl(1)] by (cases "q < 4") auto
    then show ?thesis unfolding q_def [symmetric] goal using B(2) [OF tpl] v rE [OF tpl(1)] ME [OF tpl(1)] by auto
  next
    case (tpl_term c cs)
    have e: "cval cs = r - pw b t - tval c" "int (length cs) = int (length xs) - 1" using v tpl_term(2) by simp_all
    have bd: "\<bar>cval cs\<bar> < E" using below_bound [OF tpl_term(5)] by (simp add: E_def)
    then have cs: "cval cs = r - 2 * E" using e(1) r1 ME [OF tpl_term(1)] tpl_term(3,4) by (auto simp: tval_pw E_def split: if_splits)
    have "2 \<le> q" using lim(1) [of 2] ME [OF tpl_term(1)] bd cs by (cases "q < 2") auto
    then consider "q = 2" | "q = 3" | "4 \<le> q" by linarith
    then show ?thesis
    proof cases
      case 1
      have half: "E \<le> 2 * cval (flip cs)" using lim(1) [of 3] 1 ME [OF tpl_term(1)] cs by simp
      have fl: "below b (t - 1) (flip cs)" using tpl_term(5) by simp
      have "0 < b" using powers_of_3 [of "t - 1" "flip cs"] tpl_term(1) fl half bt(1) by (cases "b = 0") (auto simp: E_def)
      then have F: "E = 2 * pw (b - 1) (t - 1)" "D = 3 * pw (b - 1) (t - 1)"
        using pw_dbl [of b "t - 1"] pw_tpl [OF tpl_term(1), of "b - 1"] by (simp_all add: E_def D_def)
      obtain ds where ds: "below (b - 1) (t - 1) ds" "cval ds = cval (flip cs) - pw (b - 1) (t - 1)" "length ds \<le> length cs"
        using take_half [OF \<open>0 < b\<close> _ fl] half F tpl_term(1) by auto
      have "cval (flip ds) = r - D" "below (b - 1) t (flip ds)" using ds(2) cs F below_mono [OF ds(1), of "b - 1" t] by simp_all
      then have "getL (snd l) \<le> int (length (flip ds))" using A(2) [OF \<open>0 < b\<close>, of "flip ds"] rD [OF \<open>0 < b\<close>] 1 by simp
      then show ?thesis unfolding q_def [symmetric] goal using 1 e(2) ds(3) len add [of "snd l"] by simp
    next
      case 2
      then have "getL (snd d) \<le> int (length cs)" using B(2) [OF tpl_term(1,5)] cs rE [OF tpl_term(1)] by simp
      then show ?thesis unfolding q_def [symmetric] goal using 2 e(2) len add [of "snd d"] by simp
    next
      case 3
      then have "getL (fst d) \<le> int (length cs)" using B(1) [OF tpl_term(1,5)] cs rE [OF tpl_term(1)] by simp
      then show ?thesis unfolding q_def [symmetric] goal using 3 e(2) len add [of "fst d"] by simp
    qed
  qed
qed

lemma cells_shortest: "0 \<le> n \<Longrightarrow> 0 \<le> b \<Longrightarrow> 0 \<le> t \<Longrightarrow> b < 65536 \<Longrightarrow> t < 65536 \<Longrightarrow> both_shortest n b t (cells n b t)"
proof (induction n b t rule: cells.induct)
  case (1 n b t)
  show ?case
  proof (cases "b + t = 0")
    case True
    then have bt: "b = 0" "t = 0" using "1.prems" by auto
    have "getL zero_cell = 0" by (simp add: zero_cell_def getL_def new_DBC_def)
    moreover have "cval xs = 0" if "below 0 0 xs" for xs using below_bound [OF that] by (simp add: pw_def)
    ultimately show ?thesis by (auto simp: bt both_shortest_def shortest_def cells.simps pw_def)
  next
    case False
    then have step: "cells n b t = cell_step (word_of_int (quot n b t)) b t (cells n (b - 1) t) (cells n b (t - 1))"
      using "1.prems" by (subst cells.simps) simp
    have l: "both_shortest n (b - 1) t (cells n (b - 1) t)" if "0 < b" using "1.IH"(1) "1.prems" False that by auto
    have d: "both_shortest n b (t - 1) (cells n b (t - 1))" if "0 < t" using "1.IH"(2) "1.prems" False that by auto
    note bt = "1.prems"(2,3) False "1.prems"(4,5)
    show ?thesis unfolding both_shortest_def shortest_def step
      using step_shortest_pos [OF "1.prems"(1) bt l d] step_shortest_neg [OF "1.prems"(1) bt l d] by blast
  qed
qed

text \<open>What a table entry that equals its ideal cell is worth.\<close>

definition shortest_chain :: "int \<Rightarrow> int \<Rightarrow> optimal_DBC \<Rightarrow> int \<Rightarrow> bool" where
  "shortest_chain b t c v \<longleftrightarrow>
     (\<not> isNULL c \<longrightarrow> (\<exists>cs. below b t cs \<and> cval cs = v \<and> len c = int (length cs))) \<and>
     (\<forall>xs. below b t xs \<and> cval xs = v \<longrightarrow> \<not> isNULL c \<and> len c \<le> int (length xs))"

lemma ideal_shortest_chain:
  assumes "0 \<le> n" "0 \<le> b" "0 \<le> t" "b < 65536" "t < 65536"
  shows "shortest_chain b t (fst (cells n b t)) (n mod pw b t)" "shortest_chain b t (snd (cells n b t)) (n mod pw b t - pw b t)"
proof -
  have short: "\<not> isNULL c \<and> len c \<le> int (length xs)" if "getL c \<le> int (length xs)" "below b t xs" for c xs
    using that below_length [OF that(2) assms(2,3)] assms(4,5) by (auto simp: getL_def split: if_splits)
  have chain: "\<exists>cs. below b t cs \<and> cval cs = v \<and> len c = int (length cs)" if "good n b t c v" "\<not> isNULL c" for c v
    using that repr_len unfolding good_def by blast
  show "shortest_chain b t (fst (cells n b t)) (n mod pw b t)" "shortest_chain b t (snd (cells n b t)) (n mod pw b t - pw b t)"
    using cells_good [OF assms(1,4,5)] both_shortestD [OF cells_shortest [OF assms]] short chain
    unfolding shortest_chain_def by blast+
qed

end
