(* ===== verification/Dbc_Search_Mul.thy ===== *)
theory Dbc_Search_Mul
  imports Dbc_Mul Dbc_Powers Dbc_Optimal
begin

text \<open>
  The search and the multiplication together: the chain \<open>getOptimalDBC\<close> stores is one \<open>DBC_POINT_mul\<close>
  handles, and its value is the number searched for. Also that \<open>init\<close> prepares the tables.
\<close>

section \<open>The tables after \<open>init\<close>\<close>

lemma fold_null:
  fixes key :: "nat \<Rightarrow> int \<times> int"
  defines "f \<equiv> (\<lambda>i st. st\<lparr>w := (w st)(key i := setNULL (w st (key i))), w_neg := (w_neg st)(key i := setNULL (w_neg st (key i)))\<rparr>)"
  assumes "inj key" "\<forall>i. w st (key i) = new_DBC \<and> w_neg st (key i) = new_DBC"
  shows "w (fold f [0..<k] st) x = (if x \<in> key ` {..<k} then null_cell else w st x) \<and>
    w_neg (fold f [0..<k] st) x = (if x \<in> key ` {..<k} then null_cell else w_neg st x)"
proof (induction k arbitrary: x)
  case (Suc k)
  have "key k \<notin> key ` {..<k}" using assms(2) by (auto dest: injD)
  then show ?case using Suc.IH [of "key k"] Suc.IH [of x] assms(3) by (auto simp: f_def lessThan_Suc null_cell_def)
qed simp

lemma init_ok:
  assumes "w st = (\<lambda>_. new_DBC)" "w_neg st = (\<lambda>_. new_DBC)"
  shows "\<exists>st'. init_tables INTS st = Some st' \<and> base_ok INTS st'"
proof -
  define st0 where "st0 = st\<lparr>w := (w st)((0, 0) := (w st (0, 0))\<lparr>isNULL := False, len := 0, isBasic := True\<rparr>), now_DBC := now_DBC st\<rparr>"
  define st1 where "st1 = st0\<lparr>w_neg := (w_neg st0)((0, 0) := setNULL (w_neg st0 (0, 0)))\<rparr>"
  have 1: "w st1 = (w st)((0, 0) := zero_cell)" "w_neg st1 = (w_neg st)((0, 0) := null_cell)"
    by (simp_all add: st1_def st0_def assms zero_cell_def null_cell_def new_DBC_def)
  let ?f = "\<lambda>i st. st\<lparr>w := (w st)((int i, - 1) := setNULL (w st (int i, - 1))), w_neg := (w_neg st)((int i, - 1) := setNULL (w_neg st (int i, - 1)))\<rparr>"
  let ?g = "\<lambda>j st. st\<lparr>w := (w st)((- 1, int j) := setNULL (w st (- 1, int j))), w_neg := (w_neg st)((- 1, int j) := setNULL (w_neg st (- 1, int j)))\<rparr>"
  define st2 where "st2 = fold ?f [0..<MAX_2 INTS] st1"
  have 2: "w st2 x = (if x \<in> (\<lambda>i. (int i, - 1)) ` {..<MAX_2 INTS} then null_cell else w st1 x) \<and>
      w_neg st2 x = (if x \<in> (\<lambda>i. (int i, - 1)) ` {..<MAX_2 INTS} then null_cell else w_neg st1 x)" for x
    unfolding st2_def by (rule fold_null) (auto simp: 1 assms inj_def)
  have 3: "w (fold ?g [0..<MAX_3 INTS] st2) x = (if x \<in> (\<lambda>j. (- 1, int j)) ` {..<MAX_3 INTS} then null_cell else w st2 x) \<and>
      w_neg (fold ?g [0..<MAX_3 INTS] st2) x = (if x \<in> (\<lambda>j. (- 1, int j)) ` {..<MAX_3 INTS} then null_cell else w_neg st2 x)" for x
    by (rule fold_null) (auto simp: 1 assms inj_def 2)
  have "init_tables INTS st = Some (fold ?g [0..<MAX_3 INTS] st2)"
    by (simp add: init_tables_def assign_int_def Let_def st2_def st1_def st0_def)
  moreover have "base_ok INTS (fold ?g [0..<MAX_3 INTS] st2)"
    unfolding base_ok_def by (auto simp: 1 2 3)
  ultimately show ?thesis by blast
qed
section \<open>The stored chain as the input of the multiplication\<close>

lemma term_value_chain: "term_value (term_of_chain c) = tval c"
  by (simp add: term_value_def term_of_chain_def tval_def)

lemma dbc_chain_below: "below d t cs \<Longrightarrow> 0 \<le> d \<Longrightarrow> 0 \<le> t \<Longrightarrow> dbc_chain d t (map term_of_chain cs)"
  by (induction d t cs rule: below.induct) (auto simp: term_of_chain_def)

lemma leading_positive: "below b t (c # cs) \<Longrightarrow> 0 < cval (c # cs) \<Longrightarrow> \<not> minus c"
  using below_bound [of "dbl c" "tpl c" cs] by (auto simp: tval_def pw_def)

lemma dbc_value_chain:
  assumes "below b t (c # cs)" "0 < cval (c # cs)"
  shows "dbc_value (map term_of_chain (c # cs)) = cval (c # cs)"
proof -
  have "map term_value (map term_of_chain cs) = map tval cs" by (simp add: term_value_chain)
  moreover have "tval c = 2 ^ nat (dbl c) * 3 ^ nat (tpl c)" using leading_positive [OF assms] by (simp add: tval_def)
  ultimately show ?thesis by (simp only: list.map term_of_chain_def [of c] dbc_value.simps cval_simps cval_def [of cs])
qed

lemma stored_chain_mul:
  assumes c: "curve_ok g" "gon g P" and h: "holds g s a P" "holds g s r R" and flag: "\<not> Z1of s a"
    and new: "m \<noteq> a" "m \<noteq> r" "r \<noteq> a"
    and cs: "map store [0..<length cs] = map term_of_chain cs" "cs \<noteq> []" "below b t cs" "0 < cval cs"
  shows "returns (DBC_POINT_mul g r a store (length cs) (Some m) True s) (\<lambda>s'.
    holds g s' r (gmul g (cval cs) P) \<and> (\<forall>b. b \<noteq> r \<and> b \<noteq> m \<longrightarrow> heap s' b = heap s b))"
proof -
  obtain d ds where ds: "cs = d # ds" using cs(2) by (cases cs) auto
  have "map store [0..<length cs] = (1 - 2 * of_bool (minus d), dbl d, tpl d) # map term_of_chain ds"
    unfolding cs(1) by (simp add: ds term_of_chain_def)
  note terms = this
  have chain: "dbc_chain (dbl d) (tpl d) (map term_of_chain ds)" using cs(3) by (intro dbc_chain_below) (simp_all add: ds)
  have v: "dbc_value ((1 - 2 * of_bool (minus d), dbl d, tpl d) # map term_of_chain ds) = cval cs"
    using dbc_value_chain [of b t d ds] cs(3,4) by (simp add: ds term_of_chain_def)
  show ?thesis unfolding v [symmetric] by (rule DBC_POINT_mul_holds [OF c h new terms chain]) (use flag in simp)
qed

end
