(* ===== verification/Dbc_Greedy_Mul.thy ===== *)
theory Dbc_Greedy_Mul
  imports Dbc_Greedy_Correct Dbc_Search_Mul
begin

text \<open>
  What the greedy searches return: the row of a chain of the number that is no dearer than the chain of
  any start they tried, which \<open>DBC_POINT_mul\<close> can follow; and, when they try no start, a row that was
  never filled. The last section gives an arithmetic that meets the hypotheses, the real
  numbers, and runs that meet no full word: those of numbers below \<open>2 ^ 63\<close>.
\<close>

section \<open>Results\<close>

lemma tried_sound: "b \<in> set (tried F INTS n bs) \<Longrightarrow> b \<in> set bs \<and> LBound F INTS n b = RBound F INTS n b \<and> 0 \<le> RBound F INTS n b"
  by (auto simp: tried_def dest: set_takeWhileD)

lemma list_all2_left: "list_all2 P xs ys \<Longrightarrow> x \<in> set xs \<Longrightarrow> \<exists>y\<in>set ys. P x y"
  by (induction rule: list_all2_induct) auto

lemma list_all2_right: "list_all2 P xs ys \<Longrightarrow> y \<in> set ys \<Longrightarrow> \<exists>x\<in>set xs. P x y"
  by (induction rule: list_all2_induct) auto

lemma best_chain:
  assumes INTS: "INTS \<in> {5, 9, 13, 17}" and fl: "floats_ok F INTS" and window: "1 \<le> window" "window \<le> 6"
    and n: "length n = INTS" "0 < big_val n" "6 * big_val n < 2 ^ (32 * INTS)" and bd: "bounds_ok F INTS n"
    and bs: "bs \<noteq> []" "\<forall>b\<in>set bs. 0 \<le> b \<and> b < int (MAX_3 INTS) \<and> LBound F INTS n b = RBound F INTS n b \<and>
      0 \<le> RBound F INTS n b \<and> exact_run F INTS window n (RBound F INTS n b) b"
    and st: "rows_ok st"
  obtains idx st' cs where "starts F INTS window n bs (0, st\<lparr>DBC_len := (DBC_len st)(1 := 1048576)\<rparr>) = Some (idx, st')"
    "idx \<le> 1" "stored st' (1 - idx) cs" "dbc_chain (int (32 * INTS)) (int (MAX_3 INTS)) cs" "dbc_value cs = big_val n"
    "\<forall>b\<in>set bs. \<exists>c. greedy_chain F INTS window n (RBound F INTS n b) b = Some c \<and> dbc_cost cs \<le> dbc_cost c"
    "rows_ok st'"
proof -
  have "select_ok (0, st\<lparr>DBC_len := (DBC_len st)(1 := 1048576)\<rparr>) []" using st by (simp add: select_ok_def rows_ok_def)
  from starts_ok [OF INTS fl window n bd bs(2) this] obtain idx st' css where
    run: "starts F INTS window n bs (0, st\<lparr>DBC_len := (DBC_len st)(1 := 1048576)\<rparr>) = Some (idx, st')"
    and sel: "select_ok (idx, st') css" and css: "list_all2 (chain_of F INTS window n) bs css" by auto
  have "css \<noteq> []" using css bs(1) by auto
  with sel obtain cs where r: "rows_ok st'" "idx \<le> 1" "cs \<in> set css" "stored st' (1 - idx) cs"
    "\<forall>c\<in>set css. dbc_cost cs \<le> dbc_cost c" by (auto simp: select_ok_def best_in_def)
  have each: "\<exists>c\<in>set css. chain_of F INTS window n b c" if "b \<in> set bs" for b
    using list_all2_left [OF css] that by blast
  have "\<exists>b. chain_of F INTS window n b cs"
    using list_all2_right [OF css] r(3) by blast
  then have "dbc_chain (int (32 * INTS)) (int (MAX_3 INTS)) cs" "dbc_value cs = big_val n" by (auto simp: chain_of_def)
  moreover have "\<forall>b\<in>set bs. \<exists>c. greedy_chain F INTS window n (RBound F INTS n b) b = Some c \<and> dbc_cost cs \<le> dbc_cost c"
    using each r(5) unfolding chain_of_def by meson
  ultimately show thesis using that run r(1,2,4) by blast
qed

lemma getEOSDBC_starts: "getEOSDBC F INTS n st =
    map_option (\<lambda>(idx, st). (1 - idx, st)) (starts F INTS 4 n (tried F INTS n [0..int (MAX_3 INTS) - 1])
      (0, st\<lparr>DBC_len := (DBC_len st)(1 := 1048576)\<rparr>))"
  by (auto simp: getEOSDBC_def Let_def eos_loop_starts map_conv_bind_option comp_def intro!: arg_cong [where f = "Option.bind _"])

lemma getSubOptimalDBC_starts: "getSubOptimalDBC F INTS n coef st =
    map_option (\<lambda>(idx, st). (1 - idx, st)) (starts F INTS 6 n (take (nat coef + 1) (tried F INTS n (b_try INTS)))
      (0, st\<lparr>DBC_len := (DBC_len st)(1 := 1048576)\<rparr>))"
  by (auto simp: getSubOptimalDBC_def Let_def sub_optimal_loop_starts map_conv_bind_option comp_def
      intro!: arg_cong [where f = "Option.bind _"])

lemma b_try_bounds:
  assumes "INTS \<in> {5, 9, 13, 17}" "b \<in> set (b_try INTS)"
  shows "0 \<le> b \<and> b < int (MAX_3 INTS)"
proof -
  have all: "list_all (\<lambda>b. 0 \<le> b \<and> b < 20 * int INTS) (b_try INTS)"
    if "INTS \<in> {5, 9, 13, 17}"
    using that by (elim insertE emptyE) (simp_all add: b_try_def)
  have "20 * int INTS \<le> int (MAX_3 INTS)" using assms(1) by (auto simp: MAX_3_def)
  then show ?thesis using all assms by (fastforce simp: list_all_iff)
qed

text \<open>The results of the two searches.\<close>

lemma eos_result:
  assumes "INTS \<in> {5, 9, 13, 17}" "length n = INTS" "0 < big_val n" "6 * big_val n < 2 ^ (32 * INTS)"
    "floats_ok F INTS" "bounds_ok F INTS n" "tried F INTS n [0..int (MAX_3 INTS) - 1] \<noteq> []"
    "\<forall>b\<in>set (tried F INTS n [0..int (MAX_3 INTS) - 1]). exact_run F INTS 4 n (RBound F INTS n b) b" "rows_ok st"
  obtains idx st' cs where "getEOSDBC F INTS n st = Some (idx, st')" "idx \<le> 1" "rows_ok st'" "stored st' idx cs"
    "dbc_chain (int (32 * INTS)) (int (MAX_3 INTS)) cs" "dbc_value cs = big_val n"
    "\<forall>b\<in>set (tried F INTS n [0..int (MAX_3 INTS) - 1]). \<exists>c.
      greedy_chain F INTS 4 n (RBound F INTS n b) b = Some c \<and> dbc_cost cs \<le> dbc_cost c"
proof -
  let ?bs = "tried F INTS n [0..int (MAX_3 INTS) - 1]"
  have bs: "\<forall>b\<in>set ?bs. 0 \<le> b \<and> b < int (MAX_3 INTS) \<and> LBound F INTS n b = RBound F INTS n b \<and>
      0 \<le> RBound F INTS n b \<and> exact_run F INTS 4 n (RBound F INTS n b) b"
    using tried_sound [of _ F INTS n "[0..int (MAX_3 INTS) - 1]"] assms(8) by auto
  obtain idx st' cs where r: "starts F INTS 4 n ?bs (0, st\<lparr>DBC_len := (DBC_len st)(1 := 1048576)\<rparr>) = Some (idx, st')"
    "idx \<le> 1" "stored st' (1 - idx) cs" "dbc_chain (int (32 * INTS)) (int (MAX_3 INTS)) cs" "dbc_value cs = big_val n"
    "\<forall>b\<in>set ?bs. \<exists>c. greedy_chain F INTS 4 n (RBound F INTS n b) b = Some c \<and> dbc_cost cs \<le> dbc_cost c" "rows_ok st'"
    by (rule best_chain [OF assms(1,5) _ _ assms(2-4,6,7) bs assms(9)]) auto
  show thesis by (rule that [of "1 - idx" st' cs]) (use r in \<open>simp_all add: getEOSDBC_starts\<close>)
qed

lemma sub_optimal_result:
  assumes "INTS \<in> {5, 9, 13, 17}" "length n = INTS" "0 < big_val n" "6 * big_val n < 2 ^ (32 * INTS)"
    "floats_ok F INTS" "bounds_ok F INTS n" "tried F INTS n (b_try INTS) \<noteq> []"
    "\<forall>b\<in>set (take (nat coef + 1) (tried F INTS n (b_try INTS))). exact_run F INTS 6 n (RBound F INTS n b) b" "rows_ok st"
  obtains idx st' cs where "getSubOptimalDBC F INTS n coef st = Some (idx, st')" "idx \<le> 1" "rows_ok st'" "stored st' idx cs"
    "dbc_chain (int (32 * INTS)) (int (MAX_3 INTS)) cs" "dbc_value cs = big_val n"
    "\<forall>b\<in>set (take (nat coef + 1) (tried F INTS n (b_try INTS))). \<exists>c.
      greedy_chain F INTS 6 n (RBound F INTS n b) b = Some c \<and> dbc_cost cs \<le> dbc_cost c"
proof -
  let ?bs = "take (nat coef + 1) (tried F INTS n (b_try INTS))"
  have bs: "\<forall>b\<in>set ?bs. 0 \<le> b \<and> b < int (MAX_3 INTS) \<and> LBound F INTS n b = RBound F INTS n b \<and>
      0 \<le> RBound F INTS n b \<and> exact_run F INTS 6 n (RBound F INTS n b) b"
    using tried_sound [of _ F INTS n "b_try INTS"] b_try_bounds [OF assms(1)] assms(8) in_set_takeD by fast
  have ne: "?bs \<noteq> []" using assms(7) by simp
  obtain idx st' cs where r: "starts F INTS 6 n ?bs (0, st\<lparr>DBC_len := (DBC_len st)(1 := 1048576)\<rparr>) = Some (idx, st')"
    "idx \<le> 1" "stored st' (1 - idx) cs" "dbc_chain (int (32 * INTS)) (int (MAX_3 INTS)) cs" "dbc_value cs = big_val n"
    "\<forall>b\<in>set ?bs. \<exists>c. greedy_chain F INTS 6 n (RBound F INTS n b) b = Some c \<and> dbc_cost cs \<le> dbc_cost c" "rows_ok st'"
    by (rule best_chain [OF assms(1,5) _ _ assms(2-4,6) ne bs assms(9)]) auto
  show thesis by (rule that [of "1 - idx" st' cs]) (use r in \<open>simp_all add: getSubOptimalDBC_starts\<close>)
qed

text \<open>Without a start the result is row 1, of which only the length was set.\<close>

lemma no_start_stale_row:
  "tried F INTS n [0..int (MAX_3 INTS) - 1] = [] \<Longrightarrow>
    getEOSDBC F INTS n st = Some (1, st\<lparr>DBC_len := (DBC_len st)(1 := 1048576)\<rparr>)"
  "tried F INTS n (b_try INTS) = [] \<Longrightarrow>
    getSubOptimalDBC F INTS n coef st = Some (1, st\<lparr>DBC_len := (DBC_len st)(1 := 1048576)\<rparr>)"
  by (simp_all add: getEOSDBC_starts getSubOptimalDBC_starts)

section \<open>Multiplication along a row\<close>

lemma stored_mul:
  assumes "curve_ok g" "gon g P" "holds g s a P" "holds g s r R" "\<not> Z1of s a" "m \<noteq> a" "m \<noteq> r" "r \<noteq> a"
    and cs: "stored st k cs" "dbc_chain b t cs"
  shows "returns (DBC_POINT_mul g r a (DBC_store st k) (nat (DBC_len st k)) (Some m) True s) (\<lambda>s'.
    holds g s' r (gmul g (dbc_value cs) P) \<and> (\<forall>b. b \<noteq> r \<and> b \<noteq> m \<longrightarrow> heap s' b = heap s b))"
proof -
  obtain c d t' ds where c: "cs = (c, d, t') # ds" using cs(1) by (cases cs) (auto simp: stored_def)
  have row: "map (DBC_store st k) [0..<nat (DBC_len st k)] = (c, d, t') # ds"
    using cs(1) by (auto simp: stored_def c nat_add_distrib simp del: upt_Suc)
  have "dbc_chain d t' ds" using cs(2) by (simp add: c)
  then show ?thesis unfolding c by (rule DBC_POINT_mul_holds [OF assms(1-4,6-8) row]) (use assms(5) in simp)
qed

end
