(* ===== verification/Dbc_Exact.thy ===== *)
theory Dbc_Exact
  imports Complex_Main Dbc_Greedy_Mul
begin

text \<open>
  An arithmetic that meets the hypotheses of the greedy searches, the real numbers, and numbers whose runs
  meet no full word, those below \<open>2 ^ 63\<close>.
\<close>

definition real_floats :: "real floats" where
  "real_floats = \<lparr>f_add = (+), f_sub = (-), f_mul = (*), f_div = (/), f_abs = abs, f_log = ln, f_le = (\<le>),
     f_lit = (\<lambda>k e. of_int k / 10 ^ e), f_int = of_int, f_trunc = (\<lambda>x. if 0 \<le> x then \<lfloor>x\<rfloor> else \<lceil>x\<rceil>)\<rparr>"

lemma real_floats_simps [simp]:
  "f_add real_floats x y = x + y" "f_sub real_floats x y = x - y" "f_mul real_floats x y = x * y"
  "f_div real_floats x y = x / y" "f_abs real_floats x = \<bar>x\<bar>" "f_log real_floats x = ln x"
  "f_le real_floats x y \<longleftrightarrow> x \<le> y" "f_lit real_floats k e = of_int k / 10 ^ e" "f_int real_floats k = of_int k"
  "f_trunc real_floats x = (if 0 \<le> x then \<lfloor>x\<rfloor> else \<lceil>x\<rceil>)"
  by (simp_all add: real_floats_def)

lemma to_double_real [simp]: "to_double real_floats t = of_int (big_val t)"
proof (induction t rule: rev_induct)
  case (snoc x t)
  then show ?case by (simp add: to_double_def big_val_append)
qed (simp add: to_double_def)

lemma log_2_real [simp]: "log_2 real_floats x = log 2 x"
  by (simp add: log_2_def log_def)

lemma pow_real: "INTS \<in> {5, 9, 13, 17} \<Longrightarrow> in_table INTS i j \<Longrightarrow> d_pow23_all real_floats INTS i j = of_int (pw i j)"
  using table_val [of INTS i j] by (simp add: d_pow23_all_def)

lemma trunc_log:
  assumes x: "0 < x" and k: "k = (if 0 \<le> log 2 x then \<lfloor>log 2 x\<rfloor> else \<lceil>log 2 x\<rceil>)" "0 \<le> k"
  shows "2 ^ nat k < 2 * x" "x < 2 * 2 ^ nat k" "1 \<le> x \<Longrightarrow> 2 ^ nat k \<le> x"
proof -
  have e: "2 powr (real (nat k)) = 2 ^ nat k" "2 powr (log 2 x) = x" using x by (simp_all add: powr_realpow)
  have b: "real (nat k) < log 2 x + 1" "log 2 x < real (nat k) + 1" using k by (auto split: if_splits) linarith+
  have "2 powr (real (nat k)) < 2 powr (log 2 x + 1)" using b(1) by (intro powr_less_mono) simp_all
  then show "2 ^ nat k < 2 * x" unfolding e(1) by (simp add: powr_add e(2) del: powr_log_cancel)
  have "2 powr (log 2 x) < 2 powr (real (nat k) + 1)" using b(2) by (intro powr_less_mono) simp_all
  then show "x < 2 * 2 ^ nat k" unfolding e(2) by (simp add: powr_add e(1))
  assume "1 \<le> x"
  then have "0 \<le> log 2 x" by (simp add: zero_le_log_cancel_iff)
  then have "real (nat k) \<le> log 2 x" using k by simp
  then have "2 powr (real (nat k)) \<le> 2 powr (log 2 x)" by (intro powr_mono) simp_all
  then show "2 ^ nat k \<le> x" unfolding e .
qed

lemma pw_real: "0 \<le> k \<Longrightarrow> 0 \<le> j \<Longrightarrow> of_int (pw k j) = (2 ^ nat k * 3 ^ nat j :: real)"
  by (simp add: pw_def)

lemma in_table_3:
  assumes "INTS \<in> {5, 9, 13, 17}" "0 \<le> b" "b < int (MAX_3 INTS)"
  shows "in_table INTS 0 b"
proof -
  have "(3 :: int) ^ (MAX_3 INTS - 1) < 2 ^ (32 * INTS)" using assms(1) by (auto simp: MAX_3_def)
  moreover have "(3 :: int) ^ nat b \<le> 3 ^ (MAX_3 INTS - 1)" using assms(3) by (intro power_increasing) simp_all
  ultimately have "(3 :: int) ^ nat b < 2 ^ (32 * INTS)" by (rule le_less_trans [rotated])
  then show ?thesis using assms(2,3) by (simp add: in_table_def pw_def)
qed

lemma real_floats_ok: "INTS \<in> {5, 9, 13, 17} \<Longrightarrow> floats_ok real_floats INTS"
proof (unfold floats_ok_def, intro allI impI conjI)
  fix t assume I: "INTS \<in> {5, 9, 13, 17}" and t: "length t = INTS" "0 < big_val t"
  have near: "nearer real_floats INTS (of_int (big_val t)) (i, j) (k, l) \<longleftrightarrow> \<bar>big_val t - pw i j\<bar> \<le> \<bar>big_val t - pw k l\<bar>"
    if "in_table INTS i j" "in_table INTS k l" for i j k l
    by (simp add: nearer_def pow_real [OF I] that abs_minus_commute flip: of_int_diff of_int_abs)
  have gap: "(65 * x \<le> 64 * y \<longrightarrow> x \<le> y) \<and> (65 * y < 64 * x \<longrightarrow> \<not> x \<le> y)" if "0 \<le> x" "0 \<le> y" for x y :: int
    using that by linarith
  show "nearer_ok real_floats INTS t"
    unfolding nearer_ok_def to_double_real by (intro allI impI) (simp only: near, rule gap, simp_all)
  show "quotient_ok real_floats INTS t" unfolding quotient_ok_def
  proof (intro allI impI)
    fix j assume j: "in_table INTS 0 j"
    define x :: real where "x = of_int (big_val t) / 3 ^ nat j"
    have x: "0 < x" using t(2) by (simp add: x_def)
    have j0: "0 \<le> j" using j by (simp add: in_table_def)
    have p: "of_int (pw 0 j) = (3 ^ nat j :: real)" using j0 by (simp add: pw_def)
    have log: "log 2 (of_int (big_val t)) - of_int j * log 2 3 = log 2 x" 
      using t(2) j0 by (simp add: x_def log_divide log_nat_power)
    define k where "k = (if 0 \<le> log 2 x then \<lfloor>log 2 x\<rfloor> else \<lceil>log 2 x\<rceil>)"
    have "9 * pw 0 j \<le> 10 * big_val t \<and> 0 \<le> k \<and> 10 * pw k j \<le> 11 * big_val t \<and> 10 * big_val t \<le> 11 * pw (k + 1) j"
      if less: "pw 0 j < big_val t"
    proof -
      have "(3 ^ nat j :: real) < of_int (big_val t)" using less by (simp flip: p)
      then have one: "1 \<le> x" by (simp add: x_def field_simps)
      then have k: "0 \<le> k" by (simp add: k_def zero_le_log_cancel_iff)
      note r = trunc_log [OF x k_def k]
      have "of_int (pw k j) \<le> (of_int (big_val t) :: real)" using r(3) [OF one] by (simp add: pw_real k j0 x_def field_simps)
      then have "pw k j \<le> big_val t" by (simp only: of_int_le_iff)
      moreover have "(of_int (big_val t) :: real) < of_int (pw (k + 1) j)"
        using r(2) k by (simp add: pw_real j0 x_def field_simps nat_add_distrib)
      then have "big_val t < pw (k + 1) j" by (simp only: of_int_less_iff)
      ultimately show ?thesis using less k t(2) by simp
    qed
    then show "if f_le real_floats (to_double real_floats t) (d_pow23_all real_floats INTS 0 j) then 9 * big_val t \<le> 10 * pw 0 j
      else 9 * pw 0 j \<le> 10 * big_val t \<and>
       (let k = f_trunc real_floats (f_sub real_floats (log_2 real_floats (to_double real_floats t))
            (f_mul real_floats (f_int real_floats j) (log_2 real_floats (f_int real_floats 3))))
        in 0 \<le> k \<and> 10 * pw k j \<le> 11 * big_val t \<and> 10 * big_val t \<le> 11 * pw (k + 1) j)"
      using t(2) by (simp add: pow_real [OF I j] log k_def [symmetric] Let_def)
  qed
qed

lemma real_bounds_ok:
  assumes I: "INTS \<in> {5, 9, 13, 17}" and n: "0 < big_val n"
  shows "bounds_ok real_floats INTS n"
proof (unfold bounds_ok_def, intro allI impI)
  fix b assume b: "0 \<le> b" "b < int (MAX_3 INTS)" "0 \<le> LBound real_floats INTS n b"
    "LBound real_floats INTS n b = RBound real_floats INTS n b"
  have tab: "in_table INTS 0 b" by (rule in_table_3 [OF I b(1,2)])
  define B :: real where "B = 10774960475223583 / 10 ^ 16 * of_int (big_val n)"
  define x where "x = B / 3 ^ nat b"
  have x: "0 < x" using n by (simp add: x_def B_def)
  have R: "RBound real_floats INTS n b = (if 0 \<le> log 2 x then \<lfloor>log 2 x\<rfloor> else \<lceil>log 2 x\<rceil>)"
    using b(1) by (simp add: RBound_def pow_real [OF I tab] pw_real x_def B_def log_def)
  have "0 \<le> RBound real_floats INTS n b" using b(3,4) by simp
  note r = trunc_log(1,2) [OF x R this]
  have p: "of_int (pw (RBound real_floats INTS n b) b) = (2 ^ nat (RBound real_floats INTS n b) * 3 ^ nat b :: real)"
    using b by (intro pw_real) simp_all
  have "(of_int (pw (RBound real_floats INTS n b) b) :: real) < 2 * B" using r(1) by (simp add: p x_def field_simps)
  then have "(of_int (pw (RBound real_floats INTS n b) b) :: real) \<le> of_int (3 * big_val n)" using n by (simp add: B_def)
  moreover have "B < 2 * of_int (pw (RBound real_floats INTS n b) b)" using r(2) by (simp add: p x_def field_simps)
  then have "(of_int (big_val n) :: real) \<le> of_int (3 * pw (RBound real_floats INTS n b) b)" using n by (simp add: B_def)
  ultimately show "pw (RBound real_floats INTS n b) b \<le> 3 * big_val n \<and> big_val n \<le> 3 * pw (RBound real_floats INTS n b) b"
    by (simp only: of_int_le_iff)
qed

section \<open>Runs of small numbers\<close>

lemma word_below_val: "uint x * 2 ^ (32 * length zs) \<le> big_val (ys @ x # zs)"
  by (simp add: big_val_append)

lemma small_minuend: "big_val x < 2 ^ 63 \<Longrightarrow> minuend_ok x"
proof (unfold minuend_ok_def, rule notI)
  assume a: "big_val x < 2 ^ 63" "4294967295 \<in> set (butlast (tl x))"
  then obtain ys zs where "butlast (tl x) = ys @ 4294967295 # zs" by (auto dest: split_list)
  moreover have "x \<noteq> []" "tl x \<noteq> []" using a(2) by auto
  ultimately have "x = (hd x # ys) @ 4294967295 # (zs @ [last (tl x)])"
    by (metis append.assoc append_Cons append_butlast_last_id list.collapse)
  moreover define K :: int where "K = 2 ^ (32 * length (zs @ [last (tl x)]))"
  ultimately have "4294967295 * K \<le> big_val x"
    using word_below_val [of 4294967295 "zs @ [last (tl x)]" "hd x # ys"] by simp
  moreover have "2 ^ 32 \<le> K" unfolding K_def by (intro power_increasing) simp_all
  then have "4294967295 * 2 ^ 32 \<le> 4294967295 * K" by simp
  ultimately have "4294967295 * 2 ^ 32 \<le> big_val x" by (rule order_trans [rotated])
  then show False using a(1) by simp
qed

lemma small_exact_run:
  assumes I: "INTS \<in> {5, 9, 13, 17}" and fl: "floats_ok F INTS" and window: "1 \<le> window" "window \<le> 6"
  shows "length t = INTS \<Longrightarrow> in_table INTS a b \<Longrightarrow> pw a b < 2 ^ 63 \<Longrightarrow> big_val t < 2 ^ 63 \<Longrightarrow> big_val t \<le> 3 * pw a b \<Longrightarrow>
    exact_run F INTS window t a b"
proof (coinduction arbitrary: t a b)
  case exact_run
  show ?case
  proof (cases "iszero t")
    case False
    then have v: "0 < big_val t" using big_val_ge_0 [of t] unfolding iszero_val by linarith
    obtain alpha beta where c: "choose_power F INTS window t a b = Some (alpha, beta)" "0 \<le> alpha" "alpha \<le> a"
      "0 \<le> beta" "beta \<le> b" "\<bar>big_val t - pw alpha beta\<bar> \<le> 3 * pw alpha beta"
      using choose_power_ok [OF fl exact_run(1) v exact_run(2,5) window] by blast
    define p where "p = pow23_all INTS (nat alpha) (nat beta)"
    have tab: "in_table INTS alpha beta" by (rule in_table_below [OF exact_run(2) c(2-5)])
    have p: "big_val p = pw alpha beta" "length p = INTS" using table_val [OF I tab] by (simp_all add: p_def)
    have pw: "pw alpha beta < 2 ^ 63" using pw_mono [OF c(3,5)] exact_run(3) by linarith
    have m: "minuend_ok (if big_ge t p then t else p)" using small_minuend exact_run(4) pw p(1) by simp
    define t' where "t' = (if big_ge t p then big_minus t p else big_minus p t)"
    have ge: "big_ge t p \<longleftrightarrow> big_val p \<le> big_val t" using big_ge_val [of t p] exact_run(1) p(2) by simp
    have t': "big_val t' = \<bar>big_val t - pw alpha beta\<bar>" "length t' = INTS"
      using big_minus_exact [of t p] big_minus_exact [of p t] m exact_run(1) p ge
      by (auto simp: t'_def minuend_ok_def)
    have "big_val t' < 2 ^ 63" using t'(1) pw exact_run(4) pw_pos [of alpha beta] v by linarith
    then have "length t' = INTS \<and> in_table INTS alpha beta \<and> pw alpha beta < 2 ^ 63 \<and> big_val t' < 2 ^ 63 \<and>
        big_val t' \<le> 3 * pw alpha beta" using t' tab pw c(6) by simp
    then show ?thesis using c(1) m p_def unfolding t'_def
      by - (rule disjI2, rule exI [of _ F], rule exI [of _ INTS], rule exI [of _ window], rule exI [of _ t],
        rule exI [of _ a], rule exI [of _ b], rule exI [of _ alpha], rule exI [of _ beta], rule exI [of _ p],
        (intro conjI refl, assumption+, intro disjI1 exI conjI, (rule refl)+), (elim conjE, assumption)+)
  qed simp
qed

section \<open>Starts\<close>

lemma floor_log_2:
  assumes "2 ^ k \<le> x" "x < 2 * 2 ^ k"
  shows "real k \<le> log 2 x" "\<lfloor>log 2 x\<rfloor> = int k" "log 2 x < real k + 1"
proof -
  have x: "0 < x" using assms(1) zero_less_power [of "2 :: real" k] by linarith
  have "log 2 (2 ^ k) \<le> log 2 x" using x assms(1) by (subst log_le_cancel_iff) simp_all
  then show low: "real k \<le> log 2 x" by (simp add: log_nat_power)
  have "log 2 x < log 2 (2 ^ Suc k)" using x assms(2) by (subst log_less_cancel_iff) simp_all
  then show "log 2 x < real k + 1" by (simp add: log_nat_power del: power_Suc)
  with low show "\<lfloor>log 2 x\<rfloor> = int k" by (simp add: floor_eq_iff)
qed

lemma real_start:
  assumes I: "INTS \<in> {5, 9, 13, 17}" and b: "0 \<le> b" "b < int (MAX_3 INTS)"
    and L: "2 ^ k * 3 ^ nat b * 10 ^ 16 \<le> 2 * 9091372900969896 * big_val n" "9091372900969896 * big_val n < 2 ^ k * 3 ^ nat b * 10 ^ 16"
    and R: "2 ^ k * 3 ^ nat b * 10 ^ 16 \<le> 10774960475223583 * big_val n" "10774960475223583 * big_val n < 2 * 2 ^ k * 3 ^ nat b * 10 ^ 16"
  shows "LBound real_floats INTS n b = int k" "RBound real_floats INTS n b = int k"
proof -
  note tab = in_table_3 [OF I b]
  have p: "of_int (pw 0 b) = (3 ^ nat b :: real)" using b(1) by (simp add: pw_def)
  define x :: real where "x = 10774960475223583 / 10 ^ 16 * of_int (big_val n) / 3 ^ nat b"
  define y :: real where "y = 2 * (9091372900969896 / 10 ^ 16 * of_int (big_val n) / 3 ^ nat b)"
  have "0 < (2 :: int) ^ k * 3 ^ nat b * 10 ^ 16" by simp
  then have "0 < 10774960475223583 * big_val n" using R(1) by (rule order.strict_trans2)
  then have v: "0 < big_val n" by simp
  have "of_int (2 ^ k * 3 ^ nat b * 10 ^ 16) \<le> (of_int (10774960475223583 * big_val n) :: real)" using R(1) by (simp only: of_int_le_iff)
  then have x1: "2 ^ k \<le> x" by (simp add: x_def field_simps)
  have "(of_int (10774960475223583 * big_val n) :: real) < of_int (2 * 2 ^ k * 3 ^ nat b * 10 ^ 16)" using R(2) by (simp only: of_int_less_iff)
  then have x2: "x < 2 * 2 ^ k" by (simp add: x_def field_simps)
  have "of_int (2 ^ k * 3 ^ nat b * 10 ^ 16) \<le> (of_int (2 * 9091372900969896 * big_val n) :: real)" using L(1) by (simp only: of_int_le_iff)
  then have y1: "2 ^ k \<le> y" by (simp add: y_def field_simps)
  have "(of_int (9091372900969896 * big_val n) :: real) < of_int (2 ^ k * 3 ^ nat b * 10 ^ 16)" using L(2) by (simp only: of_int_less_iff)
  then have y2: "y < 2 * 2 ^ k" by (simp add: y_def field_simps)
  note fx = floor_log_2 [OF x1 x2] and fy = floor_log_2 [OF y1 y2]
  have "RBound real_floats INTS n b = (if 0 \<le> log 2 x then \<lfloor>log 2 x\<rfloor> else \<lceil>log 2 x\<rceil>)"
    by (simp add: RBound_def pow_real [OF I tab] p x_def log_def)
  then show "RBound real_floats INTS n b = int k" using fx(1,2) of_nat_0_le_iff [of k, where 'a = real] by (simp only: if_P [OF order_trans])
  have "y / 2 > 0" using v by (simp add: y_def)
  then have "log 2 y = log 2 (y / 2) + 1" by (simp add: log_divide)
  then have "LBound real_floats INTS n b = (if 0 \<le> log 2 y then \<lfloor>log 2 y\<rfloor> else \<lceil>log 2 y\<rceil>)"
    by (simp add: LBound_def pow_real [OF I tab] p y_def log_def)
  then show "LBound real_floats INTS n b = int k" using fy(1,2) of_nat_0_le_iff [of k, where 'a = real] by (simp only: if_P [OF order_trans])
qed

lemma real_run:
  assumes I: "INTS \<in> {5, 9, 13, 17}" and window: "1 \<le> window" "window \<le> 6"
    and n: "length n = INTS" "0 < big_val n" "3 * big_val n < 2 ^ 63"
    and b: "b \<in> set (tried real_floats INTS n bs)" "0 \<le> b" "b < int (MAX_3 INTS)"
  shows "exact_run real_floats INTS window n (RBound real_floats INTS n b) b"
proof -
  define a where "a = RBound real_floats INTS n b"
  have r: "LBound real_floats INTS n b = a" "0 \<le> a" using tried_sound [OF b(1)] by (simp_all add: a_def)
  have near: "pw a b \<le> 3 * big_val n" "big_val n \<le> 3 * pw a b"
    using real_bounds_ok [OF I n(2)] b(2,3) r unfolding bounds_ok_def a_def by simp_all
  have "(2 :: int) ^ 63 \<le> 2 ^ (32 * INTS)" using I by (intro power_increasing) auto
  then have "in_table INTS a b" using near(1) n(3) r(2) b(2,3) by (simp add: in_table_def)
  then show ?thesis unfolding a_def [symmetric] using near n
    by (intro small_exact_run [OF I real_floats_ok [OF I] window]) simp_all
qed

text \<open>Two numbers for which there is a start.\<close>

lemma real_15:
  "tried real_floats 5 [0, 0, 0, 0, 15] [0..int (MAX_3 5) - 1] \<noteq> []"
  "\<forall>b\<in>set (tried real_floats 5 [0, 0, 0, 0, 15] [0..int (MAX_3 5) - 1]).
    exact_run real_floats 5 4 [0, 0, 0, 0, 15] (RBound real_floats 5 [0, 0, 0, 0, 15] b) b"
proof -
  have "[0..int (MAX_3 5) - 1] = 0 # [1..int (MAX_3 5) - 1]" by (subst upto_rec1) (simp_all add: MAX_3_def)
  moreover have "LBound real_floats 5 [0, 0, 0, 0, 15] 0 = int 4" "RBound real_floats 5 [0, 0, 0, 0, 15] 0 = int 4"
    by (rule real_start; simp add: MAX_3_def)+
  ultimately show "tried real_floats 5 [0, 0, 0, 0, 15] [0..int (MAX_3 5) - 1] \<noteq> []" by (simp add: tried_def)
  show "\<forall>b\<in>set (tried real_floats 5 [0, 0, 0, 0, 15] [0..int (MAX_3 5) - 1]).
      exact_run real_floats 5 4 [0, 0, 0, 0, 15] (RBound real_floats 5 [0, 0, 0, 0, 15] b) b"
  proof
    fix b assume b: "b \<in> set (tried real_floats 5 [0, 0, 0, 0, 15] [0..int (MAX_3 5) - 1])"
    then have "0 \<le> b" "b < int (MAX_3 5)" using tried_sound [OF b] by auto
    then show "exact_run real_floats 5 4 [0, 0, 0, 0, 15] (RBound real_floats 5 [0, 0, 0, 0, 15] b) b"
      by (intro real_run [OF _ _ _ _ _ _ b]) simp_all
  qed
qed

lemma real_35:
  "tried real_floats 5 [0, 0, 0, 23297753, 2992713526] (b_try 5) \<noteq> []"
  "\<forall>b\<in>set (take (nat coef + 1) (tried real_floats 5 [0, 0, 0, 23297753, 2992713526] (b_try 5))).
    exact_run real_floats 5 6 [0, 0, 0, 23297753, 2992713526] (RBound real_floats 5 [0, 0, 0, 23297753, 2992713526] b) b"
proof -
  let ?n = "[0, 0, 0, 23297753, 2992713526] :: bigint"
  have "hd (b_try 5) = 35" "b_try 5 \<noteq> []" by (simp_all add: b_try_def)
  then obtain bs where "b_try 5 = 35 # bs" by (cases "b_try 5") simp_all
  moreover have "LBound real_floats 5 ?n 35 = int 1" "RBound real_floats 5 ?n 35 = int 1"
    by (rule real_start; simp add: MAX_3_def)+
  ultimately show "tried real_floats 5 ?n (b_try 5) \<noteq> []" by (simp add: tried_def)
  show "\<forall>b\<in>set (take (nat coef + 1) (tried real_floats 5 ?n (b_try 5))).
      exact_run real_floats 5 6 ?n (RBound real_floats 5 ?n b) b"
  proof
    fix b assume "b \<in> set (take (nat coef + 1) (tried real_floats 5 ?n (b_try 5)))"
    then have b: "b \<in> set (tried real_floats 5 ?n (b_try 5))" by (rule in_set_takeD)
    then have "0 \<le> b" "b < int (MAX_3 5)" using tried_sound [OF b] b_try_bounds [of 5 b] by simp_all
    then show "exact_run real_floats 5 6 ?n (RBound real_floats 5 ?n b) b"
      by (intro real_run [OF _ _ _ _ _ _ b]) simp_all
  qed
qed

end
