(* ===== verification/Dbc_Right.thy ===== *)
theory Dbc_Right
  imports Dbc_Search_Mul
begin

text \<open>
  The second program with the search for a shortest chain, \<open>src/DBCTest/optimal_DBC2.cpp\<close>. Its
  \<open>getOptimalDBC\<close> (here \<open>getOptimalDBC2\<close>) leaves the chain in the buffer \<open>now_DBC\<close>, the smallest term
  first, and its \<open>DBC_POINT_mul\<close> (\<open>DBC2_POINT_mul\<close>) goes along the buffer from right to left: it doubles and triples
  a multiple of the point up to each term and adds or subtracts it. The first theorem says that the two
  programs find the same chain.
\<close>

section \<open>The search\<close>

definition getOptimalDBC2 :: "nat \<Rightarrow> bigint \<Rightarrow> int \<Rightarrow> int \<Rightarrow> search_state \<Rightarrow> search_state option" where
  "getOptimalDBC2 INTS n log2B log3B st = do {
     (c, now) \<leftarrow> assign_big (w_min st) n (now_DBC st);
     let st = st\<lparr>w_min := c, now_DBC := now\<rparr>;
     let B = mul_2 n;
     let six_n = mul_3 B;
     let st = st\<lparr>bBound := bound_loop INTS B [1..<nat (log3B + 1)] log2B ((bBound st)(0 := log2B))\<rparr>;
     let st = snd (fold (search_band INTS n log2B log3B) [0..<nat (log3B sdiv 18 + 2)] (six_n, st));
     now \<leftarrow> simDBC (tables st) (w_min st) (now_DBC st);
     Some (st\<lparr>now_DBC := now\<rparr>)
   }"

lemma getOptimalDBC_second:
  "getOptimalDBC INTS n log2B log3B st = map_option (\<lambda>st. (0, store_chain st)) (getOptimalDBC2 INTS n log2B log3B st)"
  by (auto simp: getOptimalDBC_def getOptimalDBC2_def Let_def split: Option.bind_splits prod.splits)

section \<open>The multiplication\<close>

text \<open>The \<open>while (1)\<close> loop: double, then triple, up to the exponents of the next term.\<close>

function dbc2_raise ::
  "ec_group \<Rightarrow> nat \<Rightarrow> int \<Rightarrow> int \<Rightarrow> int \<Rightarrow> int \<Rightarrow> bool \<Rightarrow> ec_state \<Rightarrow> (int \<times> int \<times> ec_state) option" where
  "dbc2_raise g mult_points d t now_dbl now_tpl ctx s =
     (if now_dbl < d then do {
        s \<leftarrow> EC_POINT_dbl g mult_points mult_points ctx s;
        dbc2_raise g mult_points d t (now_dbl + 1) now_tpl ctx s
      }
      else if now_tpl < t then do {
        s \<leftarrow> EC_POINT_tpl g mult_points mult_points ctx s;
        dbc2_raise g mult_points d t now_dbl (now_tpl + 1) ctx s
      }
      else Some (now_dbl, now_tpl, s))"
  by pat_completeness auto
termination
  by (relation "measure (\<lambda>(g, m, d, t, nd, nt, ctx, s). nat (d - nd) + nat (t - nt))") auto

declare dbc2_raise.simps [simp del]

definition dbc2_term :: "ec_group \<Rightarrow> nat \<Rightarrow> nat \<Rightarrow> chain \<Rightarrow> bool \<Rightarrow> bool \<Rightarrow> ec_state \<Rightarrow> ec_state option" where
  "dbc2_term g r mult_points c first ctx s = do {
     s \<leftarrow> (if minus c then EC_POINT_invert g mult_points ctx s else Some s);
     s \<leftarrow> (if first then EC_POINT_copy r mult_points s else EC_POINT_add g r r mult_points ctx s);
     if minus c then EC_POINT_invert g mult_points ctx s else Some s
   }"

fun dbc2_terms :: "ec_group \<Rightarrow> nat \<Rightarrow> nat \<Rightarrow> chain list \<Rightarrow> int \<Rightarrow> int \<Rightarrow> bool \<Rightarrow> bool \<Rightarrow> ec_state \<Rightarrow> ec_state option" where
  "dbc2_terms g r mult_points [] now_dbl now_tpl first ctx s = Some s"
| "dbc2_terms g r mult_points (c # cs) now_dbl now_tpl first ctx s = do {
     (now_dbl, now_tpl, s) \<leftarrow> dbc2_raise g mult_points (dbl c) (tpl c) now_dbl now_tpl ctx s;
     s \<leftarrow> dbc2_term g r mult_points c first ctx s;
     dbc2_terms g r mult_points cs now_dbl now_tpl False ctx s
   }"

definition DBC2_POINT_mul ::
  "ec_group \<Rightarrow> nat \<Rightarrow> nat \<Rightarrow> optimal_DBC \<Rightarrow> (nat \<Rightarrow> chain) \<Rightarrow> nat option \<Rightarrow> bool \<Rightarrow> ec_state \<Rightarrow> ec_state option" where
  "DBC2_POINT_mul g r a min_chain buf alloc ctx s = do {
     (mult_points, s) \<leftarrow> EC_POINT_new g alloc s;
     s \<leftarrow> EC_POINT_add g mult_points a a ctx s;
     s \<leftarrow> EC_POINT_invert g mult_points ctx s;
     s \<leftarrow> EC_POINT_add g mult_points mult_points a ctx s;
     s \<leftarrow> EC_POINT_invert g mult_points ctx s;
     if isNULL min_chain \<or> len min_chain = 0 then Some s
     else dbc2_terms g r mult_points (map buf [0..<nat (len min_chain)]) 0 0 True ctx s
   }"

section \<open>The loops multiply\<close>

lemma dbc2_raise_holds:
  assumes c: "curve_ok g" "gon g P"
  shows "holds g s m (gmul g v P) \<Longrightarrow> \<not> Z1of s m \<Longrightarrow>
    returns (dbc2_raise g m d t nd nt True s) (\<lambda>(nd', nt', s'). nd' = max nd d \<and> nt' = max nt t \<and>
      others m s s' \<and> holds g s' m (gmul g (v * 2 ^ nat (d - nd) * 3 ^ nat (t - nt)) P) \<and> \<not> Z1of s' m)"
proof (induction "nat (d - nd) + nat (t - nt)" arbitrary: nd nt s v rule: less_induct)
  case less
  note va = curve_valid [OF c(1)]
  consider "nd < d" | "\<not> nd < d" "nt < t" | "\<not> nd < d" "\<not> nt < t" by blast
  then show ?case
  proof cases
    case 1
    have e: "nat (d - nd) = Suc (nat (d - (nd + 1)))" using 1 by simp
    obtain s1 where s1: "EC_POINT_dbl g m m True s = Some s1" "others m s s1"
      "holds g s1 m (gmul g (v * 2) P)" "\<not> Z1of s1 m"
      using dbl_holds [OF va less.prems(1,1)] by (auto simp: returns_ex gmul_double c frame_others)
    have "returns (dbc2_raise g m d t (nd + 1) nt True s1) (\<lambda>(nd', nt', s'). nd' = max (nd + 1) d \<and> nt' = max nt t \<and>
        others m s1 s' \<and> holds g s' m (gmul g (v * 2 * 2 ^ nat (d - (nd + 1)) * 3 ^ nat (t - nt)) P) \<and> \<not> Z1of s' m)"
      using 1 by (intro less.hyps s1) auto
    then show ?thesis
      unfolding dbc2_raise.simps [of g m d t nd nt True s] using 1 s1 by (simp add: e) (elim returns_mono, auto simp: mult.assoc)
  next
    case 2
    have e: "nat (t - nt) = Suc (nat (t - (nt + 1)))" using 2 by simp
    obtain s1 where s1: "EC_POINT_tpl g m m True s = Some s1" "others m s s1"
      "holds g s1 m (gmul g (v * 3) P)" "\<not> Z1of s1 m"
      using tpl_holds [OF c(1) less.prems(1,1)] less.prems(2)
      by (auto simp: returns_ex gmul_triple c gon_mul frame_others)
    have "returns (dbc2_raise g m d t nd (nt + 1) True s1) (\<lambda>(nd', nt', s'). nd' = max nd d \<and> nt' = max (nt + 1) t \<and>
        others m s1 s' \<and> holds g s' m (gmul g (v * 3 * 2 ^ nat (d - nd) * 3 ^ nat (t - (nt + 1))) P) \<and> \<not> Z1of s' m)"
      using 2 by (intro less.hyps s1) auto
    then show ?thesis
      unfolding dbc2_raise.simps [of g m d t nd nt True s] using 2 s1
      by (simp add: e) (elim returns_mono, auto simp: ac_simps)
  next
    case 3
    with less.prems show ?thesis unfolding dbc2_raise.simps [of g m d t nd nt True s] by simp
  qed
qed

lemma invert_if:
  assumes c: "curve_ok g" "gon g P" and h: "holds g s m (gmul g v P)"
  shows "returns (if neg then EC_POINT_invert g m True s else Some s) (\<lambda>s'. others m s s' \<and>
    holds g s' m (gmul g (if neg then - v else v) P) \<and> Z1of s' m = Z1of s m)"
  using invert_holds [OF curve_valid [OF c(1)] h, of True] h
  by (cases neg) (auto simp: returns_ex gmul_minus [OF c] frame_def)

lemma dbc2_term_holds:
  assumes c: "curve_ok g" "gon g P" and m: "m \<noteq> r" and h: "holds g s m (gmul g v P)" "pt_of g (heap s r)"
    and acc: "first \<or> holds g s r (gmul g u P)"
  shows "returns (dbc2_term g r m ch first True s) (\<lambda>s'. (\<forall>b. b \<noteq> r \<and> b \<noteq> m \<longrightarrow> heap s' b = heap s b) \<and>
    holds g s' m (gmul g v P) \<and> Z1of s' m = Z1of s m \<and>
    holds g s' r (gmul g ((if first then 0 else u) + (if minus ch then - v else v)) P))"
proof -
  note va = curve_valid [OF c(1)]
  define v' where "v' = (if minus ch then - v else v)"
  obtain s1 where s1: "(if minus ch then EC_POINT_invert g m True s else Some s) = Some s1" "others m s s1"
    "holds g s1 m (gmul g v' P)" "Z1of s1 m = Z1of s m"
    using invert_if [OF c h(1), of "minus ch"] by (auto simp: returns_ex v'_def)
  have h1: "pt_of g (heap s1 r)" "first \<or> holds g s1 r (gmul g u P)" using h(2) acc s1(2) m by (auto simp: holds_def)
  obtain s2 where s2: "(if first then EC_POINT_copy r m s1 else EC_POINT_add g r r m True s1) = Some s2" "others r s1 s2"
    "holds g s2 r (gmul g ((if first then 0 else u) + v') P)"
  proof (cases first)
    case True
    then show ?thesis using that copy_holds [OF va s1(3) h1(1)] by (auto simp: returns_ex frame_def)
  next
    case False
    then show ?thesis using that add_holds [OF va _ s1(3), of r "gmul g u P" r "gmul g u P"] h1(2)
      by (auto simp: returns_ex frame_def gmul_add [OF c])
  qed
  have h2: "holds g s2 m (gmul g v' P)" "Z1of s2 m = Z1of s m" using s1(3,4) s2(2) m by (auto simp: holds_def)
  obtain s3 where s3: "(if minus ch then EC_POINT_invert g m True s2 else Some s2) = Some s3" "others m s2 s3"
    "holds g s3 m (gmul g (if minus ch then - v' else v') P)" "Z1of s3 m = Z1of s2 m"
    using invert_if [OF c h2(1), of "minus ch"] by (auto simp: returns_ex)
  have "dbc2_term g r m ch first True s = Some s3" using s1(1) s2(1) s3(1) by (simp add: dbc2_term_def)
  moreover have "holds g s3 m (gmul g v P)" using s3(3) by (auto simp: v'_def split: if_splits)
  moreover have "holds g s3 r (gmul g ((if first then 0 else u) + v') P)" using s2(3) s3(2) m by (auto simp: holds_def)
  ultimately show ?thesis using s1(2) s2(2) s3(2,4) h2(2) by (auto simp: v'_def)
qed

text \<open>Exponents that do not fall.\<close>

fun rising :: "int \<Rightarrow> int \<Rightarrow> chain list \<Rightarrow> bool" where
  "rising nd nt [] \<longleftrightarrow> True"
| "rising nd nt (c # cs) \<longleftrightarrow> nd \<le> dbl c \<and> nt \<le> tpl c \<and> rising (dbl c) (tpl c) cs"

lemma rising_append: "rising nd nt (cs @ [c]) \<longleftrightarrow> rising nd nt cs \<and>
    (case rev cs of [] \<Rightarrow> nd \<le> dbl c \<and> nt \<le> tpl c | x # _ \<Rightarrow> dbl x \<le> dbl c \<and> tpl x \<le> tpl c)"
  by (induction nd nt cs rule: rising.induct) (auto split: list.splits)

lemma below_rising: "below b t cs \<Longrightarrow> rising 0 0 (rev cs)"
proof (induction b t cs rule: below.induct)
  case (2 b t c cs)
  then have "case cs of [] \<Rightarrow> 0 \<le> dbl c \<and> 0 \<le> tpl c | x # _ \<Rightarrow> dbl x \<le> dbl c \<and> tpl x \<le> tpl c"
    by (cases cs) auto
  with 2 show ?case by (simp add: rising_append split: list.splits)
qed simp

lemma dbc2_terms_holds:
  assumes c: "curve_ok g" "gon g P" and m: "m \<noteq> r"
  shows "rising nd nt cs \<Longrightarrow> 0 \<le> nd \<Longrightarrow> 0 \<le> nt \<Longrightarrow> holds g s m (gmul g (2 ^ nat nd * 3 ^ nat nt) P) \<Longrightarrow> \<not> Z1of s m \<Longrightarrow>
    pt_of g (heap s r) \<Longrightarrow> first \<and> cs \<noteq> [] \<or> \<not> first \<and> holds g s r (gmul g u P) \<Longrightarrow>
    returns (dbc2_terms g r m cs nd nt first True s) (\<lambda>s'. (\<forall>b. b \<noteq> r \<and> b \<noteq> m \<longrightarrow> heap s' b = heap s b) \<and>
      holds g s' r (gmul g ((if first then 0 else u) + cval cs) P))"
proof (induction cs arbitrary: nd nt first s u)
  case Nil
  then show ?case by simp
next
  case (Cons ch cs)
  have ch: "nd \<le> dbl ch" "nt \<le> tpl ch" "rising (dbl ch) (tpl ch) cs" "0 \<le> dbl ch" "0 \<le> tpl ch" using Cons.prems(1-3) by auto
  define v where "v = (2 :: int) ^ nat (dbl ch) * 3 ^ nat (tpl ch)"
  have v: "2 ^ nat nd * 3 ^ nat nt * 2 ^ nat (dbl ch - nd) * 3 ^ nat (tpl ch - nt) = v"
  proof -
    have "nat (dbl ch) = nat nd + nat (dbl ch - nd)" "nat (tpl ch) = nat nt + nat (tpl ch - nt)" using ch Cons.prems(2,3) by auto
    then show ?thesis unfolding v_def by (simp add: power_add)
  qed
  obtain s1 where s1: "dbc2_raise g m (dbl ch) (tpl ch) nd nt True s = Some (dbl ch, tpl ch, s1)" "others m s s1"
    "holds g s1 m (gmul g v P)" "\<not> Z1of s1 m"
    using dbc2_raise_holds [OF c Cons.prems(4,5), of "dbl ch" "tpl ch" nd nt] ch(1,2)
    by (auto simp: returns_ex v max_absorb2)
  have h1: "pt_of g (heap s1 r)" "first \<or> holds g s1 r (gmul g u P)"
    using Cons.prems(6,7) s1(2) m by (auto simp: holds_def)
  define u' where "u' = (if first then 0 else u) + tval ch"
  have u': "u' = (if first then 0 else u) + (if minus ch then - v else v)" by (simp add: u'_def tval_def v_def)
  obtain s2 where s2: "dbc2_term g r m ch first True s1 = Some s2" "\<forall>b. b \<noteq> r \<and> b \<noteq> m \<longrightarrow> heap s2 b = heap s1 b"
    "holds g s2 m (gmul g v P)" "Z1of s2 m = Z1of s1 m" "holds g s2 r (gmul g u' P)"
    using dbc2_term_holds [OF c m s1(3) h1, of ch] by (auto simp: returns_ex u')
  have "returns (dbc2_terms g r m cs (dbl ch) (tpl ch) False True s2) (\<lambda>s'. (\<forall>b. b \<noteq> r \<and> b \<noteq> m \<longrightarrow> heap s' b = heap s2 b) \<and>
      holds g s' r (gmul g ((if False then 0 else u') + cval cs) P))"
    by (rule Cons.IH [OF ch(3-5)]) (use s1(4) s2 in \<open>auto simp: v_def holds_def\<close>)
  then have "returns (dbc2_terms g r m (ch # cs) nd nt first True s) (\<lambda>s'. (\<forall>b. b \<noteq> r \<and> b \<noteq> m \<longrightarrow> heap s' b = heap s2 b) \<and>
      holds g s' r (gmul g (u' + cval cs) P))" using s1(1) s2(1) by simp
  then show ?case by (elim returns_mono) (use s1(2) s2(2) in \<open>auto simp: u'_def add.assoc\<close>)
qed

lemma DBC2_POINT_mul_holds:
  assumes c: "curve_ok g" "gon g P" and h: "holds g s a P" "holds g s r R" and new: "n \<noteq> a" "n \<noteq> r"
    and cs: "\<not> isNULL min_chain" "len min_chain = int (length cs)" "map buf [0..<length cs] = rev cs" "cs \<noteq> []" "below b t cs"
    and flag: "Z1of s a \<longrightarrow> gmul g 2 P \<noteq> Inf"
  shows "returns (DBC2_POINT_mul g r a min_chain buf (Some n) True s) (\<lambda>s'. holds g s' r (gmul g (cval cs) P) \<and>
    (\<forall>b. b \<noteq> r \<and> b \<noteq> n \<longrightarrow> heap s' b = heap s b))"
proof -
  note va = curve_valid [OF c(1)]
  obtain s1 where s1: "EC_POINT_new g (Some n) s = Some (n, s1)" "others n s s1" "holds g s1 n Inf"
    using new_holds [OF va, of n s] by (auto simp: returns_ex)
  have h1: "holds g s1 a P" "Z1of s1 a = Z1of s a" using h s1(2) new by (auto simp: holds_def)
  obtain s2 where s2: "EC_POINT_add g n a a True s1 = Some s2" "frame n s1 s2" "holds g s2 n (gmul g 2 P)"
    "Z1of s2 n \<longrightarrow> P = Inf \<and> Z1of s1 a"
    using add_holds [OF va h1(1) h1(1) s1(3)] gmul_double [OF c, of 1] by (auto simp: returns_ex)
  have f2: "\<not> Z1of s2 n" using s2(4) h1(1) holds_flag [OF va, of s1 a] by auto
  obtain s3 where s3: "EC_POINT_invert g n True s2 = Some s3" "frame n s2 s3" "holds g s3 n (gmul g (- 2) P)"
    "Z1of s3 n = Z1of s2 n"
    using invert_holds [OF va s2(3), of True] gmul_minus [OF c, of 2] by (auto simp: returns_ex)
  have h3: "holds g s3 a P" "Z1of s3 a = Z1of s a" using h1 s2(2) s3(2) new by (auto simp: holds_def frame_def)
  obtain s4 where s4: "EC_POINT_add g n n a True s3 = Some s4" "frame n s3 s4" "holds g s4 n (gmul g (- 1) P)"
    "Z1of s4 n \<longrightarrow> gmul g (- 2) P = Inf \<and> Z1of s3 a \<or> P = Inf \<and> Z1of s3 n"
    using add_holds [OF va s3(3) h3(1) s3(3)] gadd_mul_1(1) [OF c, of "- 2"] by (auto simp: returns_ex)
  have "gmul g (- 2) P = Inf \<Longrightarrow> gmul g 2 P = Inf" using gmul_minus [OF c, of "- 2"] by simp
  then have f4: "\<not> Z1of s4 n" using s4(4) flag h3(2) f2 s3(4) by auto
  obtain s5 where s5: "EC_POINT_invert g n True s4 = Some s5" "frame n s4 s5" "holds g s5 n (gmul g 1 P)"
    "Z1of s5 n = Z1of s4 n"
    using invert_holds [OF va s4(3), of True] gmul_minus [OF c, of "- 1"] by (auto simp: returns_ex)
  have h5: "pt_of g (heap s5 r)" using h(2) s1(2) s2(2) s3(2) s4(2) s5(2) new by (auto simp: holds_def frame_def)
  have "returns (dbc2_terms g r n (rev cs) 0 0 True True s5) (\<lambda>s'. (\<forall>b. b \<noteq> r \<and> b \<noteq> n \<longrightarrow> heap s' b = heap s5 b) \<and>
      holds g s' r (gmul g ((if True then 0 else 0) + cval (rev cs)) P))"
    by (rule dbc2_terms_holds [OF c new(2) below_rising [OF cs(5)]]) (use s5(3,4) f4 h5 cs(4) in simp_all)
  moreover have "cval (rev cs) = cval cs" by (simp add: cval_def rev_map [symmetric] sum_list_rev)
  moreover have "DBC2_POINT_mul g r a min_chain buf (Some n) True s = dbc2_terms g r n (rev cs) 0 0 True True s5"
    using s1(1) s2(1) s3(1) s4(1) s5(1) cs by (simp add: DBC2_POINT_mul_def)
  ultimately show ?thesis
    by (simp, elim returns_mono) (use s1(2) s2(2) s3(2) s4(2) s5(2) in \<open>auto simp: frame_def\<close>)
qed

section \<open>Search and multiplication\<close>

lemma term_of_chain_inj: "inj term_of_chain"
  proof (rule injI)
  fix x y assume "term_of_chain x = term_of_chain y"
  then show "x = y" by (cases "minus x"; cases "minus y") (auto simp: term_of_chain_def)
qed

lemma second_search_result:
  assumes ok: "search_ok INTS n log2B log3B" and base: "base_ok INTS st" "\<not> isNULL (w_min st)"
  obtains st' cs where "getOptimalDBC2 INTS n log2B log3B st = Some st'" "cs \<noteq> []" "below (int (32 * INTS)) log3B cs"
    "cval cs = big_val n" "\<not> isNULL (w_min st')" "len (w_min st') = int (length cs)"
    "map (now_DBC st') [0..<length cs] = rev cs"
proof -
  obtain st1 cs where r: "getOptimalDBC INTS n log2B log3B st = Some (0, st1)" "cs \<noteq> []" "below (int (32 * INTS)) log3B cs"
    "cval cs = big_val n" "DBC_len st1 0 = int (length cs)" "map (DBC_store st1 0) [0..<length cs] = map term_of_chain cs"
    "isNULL (w_min st1) \<longrightarrow> isNULL (w_min st)"
    by (rule search_result [OF ok base(1)])
  obtain st' where st': "getOptimalDBC2 INTS n log2B log3B st = Some st'" "st1 = store_chain st'"
    using r(1) unfolding getOptimalDBC_second by auto
  have l: "len (w_min st') = int (length cs)" using r(5) by (simp add: st'(2) store_chain_def Let_def)
  have "map (DBC_store st1 0) [0..<length cs] = rev (map (\<lambda>i. term_of_chain (now_DBC st' i)) [0..<length cs])"
    using store_rev [of "length cs" "length cs" "\<lambda>i. term_of_chain (now_DBC st' i)" "DBC_store st' 0"] l
    by (simp add: st'(2) store_chain_def Let_def term_of_chain_def)
  then have "map term_of_chain (rev (map (now_DBC st') [0..<length cs])) = map term_of_chain cs"
    using r(6) by (simp add: rev_map comp_def)
  then have "rev (map (now_DBC st') [0..<length cs]) = cs" using map_injective term_of_chain_inj by blast
  then have "map (now_DBC st') [0..<length cs] = rev cs" by (metis rev_rev_ident)
  moreover have "\<not> isNULL (w_min st')" using r(7) base(2) by (simp add: st'(2) store_chain_def Let_def)
  ultimately show thesis using that st'(1) r(2-4) l by blast
qed

lemma init_min: "init_tables INTS st = Some st' \<Longrightarrow> w_min st' = w_min st"
proof -
  have keep: "w_min (fold (\<lambda>i st. st\<lparr>w := f i st, w_neg := h i st\<rparr>) xs st) = w_min st" for f h and xs :: "nat list" and st
    by (induction xs arbitrary: st) auto
  assume "init_tables INTS st = Some st'"
  then show ?thesis by (auto simp: init_tables_def Let_def keep split: Option.bind_splits prod.splits)
qed

end
