(* ===== verification/Fast_Curve.thy ===== *)
theory Fast_Curve
  imports Ec_Wnaf
begin

text \<open>
  The C code of the Python package \<open>fastecdsa\<close> that the scripts use, \<open>src/scripts/fastecdsa-master/src\<close>:
  affine points as pairs of integers with \<open>(0, 0)\<close> for infinity, a Montgomery ladder and Shamir's trick.
  The integers of GMP are integers here; its functions for inversion, remainders, bits, parsing and
  shifting are the fields of \<open>F\<close>, with \<open>gmp_ok\<close> for what its manual says of them. No call passes one
  object both as result and as operand, so the functions return their results.
\<close>

section \<open>GMP\<close>

text \<open>\<open>mpz_invert\<close> returns whether there is an inverse, and its output, which means nothing if there is none.\<close>

record gmp =
  mpz_invert :: "int \<Rightarrow> int \<Rightarrow> bool \<times> int"
  mpz_mod :: "int \<Rightarrow> int \<Rightarrow> int"
  mpz_sizeinbase :: "int \<Rightarrow> nat \<Rightarrow> nat"
  mpz_tstbit :: "int \<Rightarrow> nat \<Rightarrow> bool"
  mpz_set_str :: "string \<Rightarrow> nat \<Rightarrow> int"
  mpz_fdiv_q_2exp :: "int \<Rightarrow> nat \<Rightarrow> int"

definition gmp_ok :: "gmp \<Rightarrow> bool" where
  "gmp_ok F \<longleftrightarrow>
     (\<forall>a m. 1 < m \<longrightarrow> fst (mpz_invert F a m) = coprime a m \<and>
       (coprime a m \<longrightarrow> 0 \<le> snd (mpz_invert F a m) \<and> snd (mpz_invert F a m) < m \<and> (a * snd (mpz_invert F a m)) mod m = 1)) \<and>
     (\<forall>a m. 0 < m \<longrightarrow> mpz_mod F a m = a mod m) \<and>
     (\<forall>a. 0 \<le> a \<longrightarrow> mpz_sizeinbase F a 2 = (if a = 0 then 1 else z_num_bits a)) \<and>
     (\<forall>a i. 0 \<le> a \<longrightarrow> mpz_tstbit F a i = bit a i)"

section \<open>Points and curves\<close>

record point_zz =
  zx :: int
  zy :: int

record curve_zz =
  zz_p :: int
  zz_a :: int
  zz_b :: int
  zz_q :: int
  zz_g :: point_zz

definition pointZZ_pEqual :: "point_zz \<Rightarrow> point_zz \<Rightarrow> bool" where
  "pointZZ_pEqual op1 op2 = (if zx op1 \<noteq> zx op2 then False else if zy op1 \<noteq> zy op2 then False else True)"

definition pointZZ_pIsIdentityElement :: "point_zz \<Rightarrow> bool" where
  "pointZZ_pIsIdentityElement op1 = (zx op1 = 0 \<and> zy op1 = 0)"

definition zz_identity :: point_zz where
  "zz_identity = \<lparr>zx = 0, zy = 0\<rparr>"

definition pointZZ_pDouble :: "gmp \<Rightarrow> curve_zz \<Rightarrow> point_zz \<Rightarrow> point_zz" where
  "pointZZ_pDouble F curve pt =
     (if pointZZ_pIsIdentityElement pt then zz_identity
      else
        let numer = zx pt * zx pt * 3 + zz_a curve;
            (ok, denom) = mpz_invert F (zy pt * 2) (zz_p curve)
        in if \<not> ok then zz_identity
        else
          let lambda = mpz_mod F (numer * denom) (zz_p curve);
              x = mpz_mod F (lambda * lambda - zx pt - zx pt) (zz_p curve);
              y = mpz_mod F (lambda * (zx pt - x) - zy pt) (zz_p curve)
          in \<lparr>zx = x, zy = y\<rparr>)"

definition pointZZ_pAdd :: "gmp \<Rightarrow> curve_zz \<Rightarrow> point_zz \<Rightarrow> point_zz \<Rightarrow> point_zz" where
  "pointZZ_pAdd F curve op1 op2 =
     (if pointZZ_pIsIdentityElement op1 \<and> pointZZ_pIsIdentityElement op2 then zz_identity
      else if pointZZ_pIsIdentityElement op1 then op2
      else if pointZZ_pIsIdentityElement op2 then op1
      else if pointZZ_pEqual op1 op2 then pointZZ_pDouble F curve op1
      else
        let negy = zz_p curve - zy op2 in
        if zx op1 = zx op2 \<and> zy op1 = negy then zz_identity
        else
          let ydiff = zy op2 - zy op1;
              xdiff = snd (mpz_invert F (zx op2 - zx op1) (zz_p curve));
              lambda = mpz_mod F (ydiff * xdiff) (zz_p curve);
              x = mpz_mod F (lambda * lambda - zx op1 - zx op2) (zz_p curve);
              y = mpz_mod F (lambda * (zx op1 - x) - zy op1) (zz_p curve)
          in \<lparr>zx = x, zy = y\<rparr>)"

section \<open>Multiplication\<close>

text \<open>The ladder, from the second bit of the scalar down.\<close>

fun pMul_loop :: "gmp \<Rightarrow> curve_zz \<Rightarrow> int \<Rightarrow> nat list \<Rightarrow> point_zz \<times> point_zz \<Rightarrow> point_zz \<times> point_zz" where
  "pMul_loop F curve scalar [] R = R"
| "pMul_loop F curve scalar (i # is) (R0, R1) =
     pMul_loop F curve scalar is
       (if mpz_tstbit F scalar i then (pointZZ_pAdd F curve R1 R0, pointZZ_pDouble F curve R1)
        else (pointZZ_pDouble F curve R0, pointZZ_pAdd F curve R0 R1))"

definition pointZZ_pMul :: "gmp \<Rightarrow> curve_zz \<Rightarrow> point_zz \<Rightarrow> int \<Rightarrow> point_zz" where
  "pointZZ_pMul F curve point scalar =
     (if pointZZ_pIsIdentityElement point then zz_identity
      else
        let R0 = point;
            R1 = pointZZ_pDouble F curve point;
            dbits = mpz_sizeinbase F scalar 2
        in fst (pMul_loop F curve scalar (rev [0..<dbits - 1]) (R0, R1)))"

text \<open>Both multiples at once. \<open>rop\<close> is what the result held before the call; it is kept when neither bit is set.\<close>

fun shamir_loop :: "gmp \<Rightarrow> curve_zz \<Rightarrow> point_zz \<Rightarrow> int \<Rightarrow> point_zz \<Rightarrow> int \<Rightarrow> point_zz \<Rightarrow> nat list \<Rightarrow> point_zz \<Rightarrow> point_zz" where
  "shamir_loop F curve point1 scalar1 point2 scalar2 psum [] rop = rop"
| "shamir_loop F curve point1 scalar1 point2 scalar2 psum (l # ls) rop =
     (let tmp = pointZZ_pDouble F curve rop in
      shamir_loop F curve point1 scalar1 point2 scalar2 psum ls
        (if mpz_tstbit F scalar1 l \<and> mpz_tstbit F scalar2 l then pointZZ_pAdd F curve tmp psum
         else if mpz_tstbit F scalar1 l then pointZZ_pAdd F curve tmp point1
         else if mpz_tstbit F scalar2 l then pointZZ_pAdd F curve tmp point2
         else tmp))"

definition pointZZ_pShamirsTrick :: "gmp \<Rightarrow> curve_zz \<Rightarrow> point_zz \<Rightarrow> point_zz \<Rightarrow> int \<Rightarrow> point_zz \<Rightarrow> int \<Rightarrow> point_zz" where
  "pointZZ_pShamirsTrick F curve rop point1 scalar1 point2 scalar2 =
     (let psum = pointZZ_pAdd F curve point1 point2;
          scalar1Bits = mpz_sizeinbase F scalar1 2;
          scalar2Bits = mpz_sizeinbase F scalar2 2;
          l = (if scalar1Bits > scalar2Bits then scalar1Bits else scalar2Bits) - 1;
          rop = (if mpz_tstbit F scalar1 l \<and> mpz_tstbit F scalar2 l then psum
                 else if mpz_tstbit F scalar1 l then point1
                 else if mpz_tstbit F scalar2 l then point2
                 else rop)
      in shamir_loop F curve point1 scalar1 point2 scalar2 psum (rev [0..<l]) rop)"

section \<open>The points they stand for\<close>

definition zz_point :: "point_zz \<Rightarrow> apoint" where
  "zz_point P = (if zx P = 0 \<and> zy P = 0 then Inf else Aff (zx P) (zy P))"

text \<open>The curve of \<open>g\<close>; the pair of zeros is not on it.\<close>

definition same_curve :: "curve_zz \<Rightarrow> ec_group \<Rightarrow> bool" where
  "same_curve curve g \<longleftrightarrow> curve_ok g \<and> zz_p curve = g_field g \<and> eqm (g_field g) (zz_a curve) (curve_A g) \<and>
     \<not> g_field g dvd curve_B g"

lemma same_curveD:
  assumes "same_curve curve g"
  shows "curve_ok g" "zz_p curve = g_field g" "eqm (g_field g) (zz_a curve) (curve_A g)"
    "prime_int (g_field g)" "3 < g_field g"
  using assms gfp.field_prime [of g] gfp.field_gt_3 [of g] by (auto simp: same_curve_def curve_ok_def)

lemma not_zeros: "same_curve curve g \<Longrightarrow> gon g (Aff x y) \<Longrightarrow> \<not> (x = 0 \<and> y = 0)"
  by (auto simp: same_curve_def eqm_def mod_eq_0_iff_dvd)

lemma zz_point_Aff: "same_curve curve g \<Longrightarrow> gon g (Aff x y) \<Longrightarrow> zz_point \<lparr>zx = x, zy = y\<rparr> = Aff x y"
  using not_zeros [of curve g x y] by (simp add: zz_point_def)

lemma zz_point_identity [simp]: "zz_point zz_identity = Inf"
  by (simp add: zz_point_def zz_identity_def)

lemma is_identity: "pointZZ_pIsIdentityElement P \<longleftrightarrow> zz_point P = Inf"
  by (simp add: pointZZ_pIsIdentityElement_def zz_point_def)

lemma zz_point_cases:
  obtains "zz_point P = Inf" "pointZZ_pIsIdentityElement P"
  | "zz_point P = Aff (zx P) (zy P)" "\<not> pointZZ_pIsIdentityElement P"
  by (cases "pointZZ_pIsIdentityElement P") (auto simp: pointZZ_pIsIdentityElement_def zz_point_def)

text \<open>A chord only depends on the residue of its slope.\<close>

lemma chord_eqm:
  assumes "eqm p l l'"
  shows "chord p l x1 x2 y1 = chord p l' x1 x2 y1"
proof -
  have "(l ^ 2 - x1 - x2) mod p = (l' ^ 2 - x1 - x2) mod p"
    unfolding eqm_def [symmetric] by (intro eqm_intros assms)
  moreover have "(l * z - y1) mod p = (l' * z - y1) mod p" for z
    unfolding eqm_def [symmetric] by (intro eqm_intros assms)
  ultimately show ?thesis by (simp add: chord_def Let_def)
qed

lemma slope_eqm:
  assumes p: "prime_int p" "\<not> p dvd d" and r: "(d * r) mod p = 1" and n: "eqm p n n'"
  shows "eqm p (n * r mod p) (n' * minv p d)"
proof -
  have p1: "1 < p" using p(1) by (rule prime_int_gt_1)
  have "eqm p (d * r) 1" using r p1 by (simp add: eqm_def)
  from eqm_mult [OF eqm_refl this, of "minv p d"] have "eqm p (minv p d * (d * r)) (minv p d * 1)" .
  moreover have "eqm p (minv p d * d * r) (1 * r)" by (intro eqm_mult [OF _ eqm_refl] minv_eqm p)
  ultimately have "eqm p r (minv p d)" by (simp add: eqm_def mult.assoc)
  then have "eqm p (n * r) (n' * minv p d)" by (intro eqm_intros n)
  then show ?thesis by (simp add: eqm_def)
qed

lemma prime_invertible: "prime_int p \<Longrightarrow> coprime d p \<longleftrightarrow> \<not> p dvd d"
proof
  assume p: "prime_int p" "coprime d p"
  show "\<not> p dvd d"
  proof
    assume "p dvd d"
    then have "is_unit p" using p(2) by (metis coprime_absorb_right)
    then show False using prime_int_gt_1 [OF p(1)] by simp
  qed
qed (use prime_int_coprime coprime_commute in blast)

lemma not_dvd_diff: "red p x \<Longrightarrow> red p y \<Longrightarrow> x \<noteq> y \<Longrightarrow> \<not> p dvd y - x"
  using red_eqm_eq [of p y x] by (auto simp: eqm_dvd)

lemma gmp_invert:
  assumes "gmp_ok F" "same_curve curve g" "\<not> g_field g dvd d" "eqm (g_field g) n n'"
  shows "fst (mpz_invert F d (zz_p curve))"
    "eqm (g_field g) (mpz_mod F (n * snd (mpz_invert F d (zz_p curve))) (zz_p curve)) (n' * minv (g_field g) d)"
proof -
  note c = same_curveD [OF assms(2)]
  have p1: "1 < g_field g" using c(5) by simp
  have co: "coprime d (g_field g)" using prime_invertible [OF c(4)] assms(3) by blast
  with assms(1) p1 show "fst (mpz_invert F d (zz_p curve))" by (simp add: gmp_ok_def c(2))
  have "(d * snd (mpz_invert F d (g_field g))) mod g_field g = 1" "mpz_mod F x (g_field g) = x mod g_field g" for x
    using assms(1) p1 co by (simp_all add: gmp_ok_def)
  then show "eqm (g_field g) (mpz_mod F (n * snd (mpz_invert F d (zz_p curve))) (zz_p curve)) (n' * minv (g_field g) d)"
    using slope_eqm [OF c(4) assms(3) _ assms(4)] by (simp add: c(2))
qed

lemma gmp_mod: "gmp_ok F \<Longrightarrow> same_curve curve g \<Longrightarrow> mpz_mod F x (zz_p curve) = x mod g_field g"
  using same_curveD(2,5) [of curve g] by (simp add: gmp_ok_def)

lemma chord_zz: "chord p l x1 x2 y1 = (let x = (l * l - x1 - x2) mod p in Aff x ((l * (x1 - x) - y1) mod p))"
  by (simp add: chord_def power2_eq_square)

lemma pointZZ_pDouble_law:
  assumes F: "gmp_ok F" and c: "same_curve curve g" and P: "gon g (zz_point P)"
  shows "zz_point (pointZZ_pDouble F curve P) = gadd g (zz_point P) (zz_point P)"
proof (cases rule: zz_point_cases [of P])
  case 1
  then show ?thesis by (simp add: pointZZ_pDouble_def)
next
  case 2
  note C = same_curveD [OF c]
  have on: "red (g_field g) (zx P)" "red (g_field g) (zy P)" using P 2 by simp_all
  show ?thesis
  proof (cases "zy P = 0")
    case True
    have "\<not> coprime (zy P * 2) (g_field g)" using True C(5) by simp
    then have "\<not> fst (mpz_invert F (zy P * 2) (zz_p curve))" using F C(2,5) by (simp add: gmp_ok_def)
    then show ?thesis using 2 True by (cases "mpz_invert F 0 (zz_p curve)") (simp add: pointZZ_pDouble_def)
  next
    case False
    have nd: "\<not> g_field g dvd zy P * 2"
      using prime_int_dvd_mult [OF C(4), of "zy P" 2] on(2) False C(5) by (auto simp: red_def dest: zdvd_imp_le)
    define l where "l = mpz_mod F ((zx P * zx P * 3 + zz_a curve) * snd (mpz_invert F (zy P * 2) (zz_p curve))) (zz_p curve)"
    have "eqm (g_field g) (zx P * zx P * 3 + zz_a curve) (3 * zx P ^ 2 + curve_A g)"
      using C(3) by (intro eqm_add) (simp_all add: power2_eq_square mult.commute)
    note inv = gmp_invert [OF F c nd this, folded l_def]
    have sum: "gadd g (zz_point P) (zz_point P) = chord (g_field g) l (zx P) (zx P) (zy P)"
      using chord_eqm [OF inv(2)] False 2 by (simp add: mult.commute)
    define x where "x = (l * l - zx P - zx P) mod g_field g"
    define y where "y = (l * (zx P - x) - zy P) mod g_field g"
    have "pointZZ_pDouble F curve P = \<lparr>zx = x, zy = y\<rparr>"
      using 2(2) inv(1) gmp_mod [OF F c]
      by (cases "mpz_invert F (zy P * 2) (zz_p curve)") (simp add: pointZZ_pDouble_def l_def x_def y_def Let_def)
    moreover have "gadd g (zz_point P) (zz_point P) = Aff x y" unfolding sum by (simp add: chord_zz Let_def x_def y_def)
    moreover have "gon g (gadd g (zz_point P) (zz_point P))" by (rule gon_add [OF C(1) P P])
    ultimately show ?thesis using zz_point_Aff [OF c] by simp
  qed
qed

lemma opposite_y:
  assumes c: "same_curve curve g" and "gon g (Aff x y)" "gon g (Aff x z)" "y \<noteq> z"
  shows "y = g_field g - z"
proof -
  note C = same_curveD [OF c]
  have "eqm (g_field g) (y ^ 2) (z ^ 2)" using assms(2,3) by (auto simp: eqm_def)
  then have "g_field g dvd (y - z) * (y + z)" by (simp add: eqm_dvd power2_eq_square algebra_simps)
  moreover have r: "red (g_field g) y" "red (g_field g) z" using assms(2,3) by simp_all
  then have "\<not> g_field g dvd y - z" using not_dvd_diff [of "g_field g" z y] assms(4) by simp
  ultimately have "g_field g dvd y + z" using prime_int_dvd_mult [OF C(4)] by blast
  then obtain k where k: "y + z = g_field g * k" by (auto simp: dvd_def)
  have "0 < g_field g * k" "g_field g * k < g_field g * 2" using r assms(4) unfolding k [symmetric] by (auto simp: red_def)
  then have "0 < k" "k < 2" using C(5) by (simp_all add: zero_less_mult_iff)
  then have "k = 1" by simp
  then show ?thesis using k by simp
qed

lemma pointZZ_pAdd_law:
  assumes F: "gmp_ok F" and c: "same_curve curve g" and P: "gon g (zz_point P)" and Q: "gon g (zz_point Q)"
  shows "zz_point (pointZZ_pAdd F curve P Q) = gadd g (zz_point P) (zz_point Q)"
proof (cases "pointZZ_pIsIdentityElement P \<or> pointZZ_pIsIdentityElement Q")
  case True
  then show ?thesis
    by (cases "zz_point P"; cases "zz_point Q") (auto simp: pointZZ_pAdd_def is_identity)
next
  case False
  note C = same_curveD [OF c]
  have pq: "zz_point P = Aff (zx P) (zy P)" "zz_point Q = Aff (zx Q) (zy Q)"
    using False zz_point_cases [of P] zz_point_cases [of Q] by metis+
  have onP: "gon g (Aff (zx P) (zy P))" and onQ: "gon g (Aff (zx Q) (zy Q))" using P Q by (simp_all add: pq)
  have red: "red (g_field g) (zx P)" "red (g_field g) (zx Q)" using onP onQ by simp_all
  show ?thesis
  proof (cases "zx P = zx Q")
    case x: True
    show ?thesis
    proof (cases "zy P = zy Q")
      case True
      have "P = Q" using x True by simp
      then show ?thesis using False pointZZ_pDouble_law [OF F c P] by (simp add: pointZZ_pAdd_def pointZZ_pEqual_def)
    next
      case y: False
      have "zy P = g_field g - zy Q" by (rule opposite_y [OF c, of "zx P"]) (use onP onQ x y in auto)
      then show ?thesis using False x y by (simp add: pointZZ_pAdd_def pointZZ_pEqual_def C(2) pq)
    qed
  next
    case x: False
    have nd: "\<not> g_field g dvd zx Q - zx P" by (rule not_dvd_diff [OF red x])
    define l where "l = mpz_mod F ((zy Q - zy P) * snd (mpz_invert F (zx Q - zx P) (zz_p curve))) (zz_p curve)"
    have inv: "eqm (g_field g) l ((zy Q - zy P) * minv (g_field g) (zx Q - zx P))"
      unfolding l_def by (rule gmp_invert(2) [OF F c nd eqm_refl])
    define u where "u = (l * l - zx P - zx Q) mod g_field g"
    define v where "v = (l * (zx P - u) - zy P) mod g_field g"
    have "gadd g (zz_point P) (zz_point Q) = chord (g_field g) l (zx P) (zx Q) (zy P)"
      using chord_eqm [OF inv] x by (simp add: pq)
    then have "gadd g (zz_point P) (zz_point Q) = Aff u v" by (simp add: chord_zz Let_def u_def v_def)
    moreover have "pointZZ_pAdd F curve P Q = \<lparr>zx = u, zy = v\<rparr>"
      using False x gmp_mod [OF F c] by (simp add: pointZZ_pAdd_def pointZZ_pEqual_def l_def u_def v_def Let_def)
    moreover have "gon g (gadd g (zz_point P) (zz_point Q))" by (rule gon_add [OF C(1) P Q])
    ultimately show ?thesis using zz_point_Aff [OF c] by simp
  qed
qed

section \<open>Multiples\<close>

lemma bit_step: "k div 2 ^ m = 2 * (k div 2 ^ Suc m) + of_bool (bit k m)" for k :: int
proof -
  have "k div 2 ^ Suc m = k div 2 ^ m div 2" by (simp add: mult.commute [of 2] zdiv_zmult2_eq)
  moreover have "of_bool (bit k m) = k div 2 ^ m mod 2" by (simp add: bit_iff_odd of_bool_def odd_iff_mod_2_eq_one)
  ultimately show ?thesis by simp
qed

lemma top_bits:
  assumes "gmp_ok F" "0 \<le> k"
  shows "k < 2 ^ mpz_sizeinbase F k 2" "0 < mpz_sizeinbase F k 2" "0 < k \<Longrightarrow> k div 2 ^ (mpz_sizeinbase F k 2 - 1) = 1"
proof -
  have s: "mpz_sizeinbase F k 2 = (if k = 0 then 1 else nat_bits (nat k))" using assms by (simp add: gmp_ok_def z_num_bits_def)
  have up: "int (nat k) < 2 ^ nat_bits (nat k)" using nat_bits_bounds(1) [of "nat k"] by (simp flip: of_nat_power of_nat_less_iff)
  then show lt: "k < 2 ^ mpz_sizeinbase F k 2" using assms(2) by (simp add: s)
  show pos: "0 < mpz_sizeinbase F k 2" using assms(2) by (simp add: s nat_bits.simps [of "nat k"])
  assume k: "0 < k"
  then have "int (2 ^ (nat_bits (nat k) - 1)) \<le> int (nat k)" using nat_bits_bounds(2) [of "nat k"] by (simp only: of_nat_le_iff)
  then have low: "2 ^ (mpz_sizeinbase F k 2 - 1) \<le> k" using k by (simp add: s)
  have "(2 :: int) ^ mpz_sizeinbase F k 2 = 2 * 2 ^ (mpz_sizeinbase F k 2 - 1)" using pos by (cases "mpz_sizeinbase F k 2") simp_all
  with lt low show "k div 2 ^ (mpz_sizeinbase F k 2 - 1) = 1" by (intro int_div_pos_eq [of _ _ _ "k - 2 ^ (mpz_sizeinbase F k 2 - 1)"]) simp_all
qed

lemma pMul_loop_law:
  assumes F: "gmp_ok F" and c: "same_curve curve g" and P: "gon g P" and k: "0 \<le> k"
  shows "zz_point R0 = gmul g (k div 2 ^ m) P \<Longrightarrow> zz_point R1 = gmul g (k div 2 ^ m + 1) P \<Longrightarrow>
    zz_point (fst (pMul_loop F curve k (rev [0..<m]) (R0, R1))) = gmul g k P"
proof (induction m arbitrary: R0 R1)
  case 0
  then show ?case by simp
next
  case (Suc m)
  note C = same_curveD [OF c]
  define v where "v = k div 2 ^ Suc m"
  have R: "zz_point R0 = gmul g v P" "zz_point R1 = gmul g (v + 1) P" using Suc.prems by (simp_all add: v_def)
  have on: "gon g (zz_point R0)" "gon g (zz_point R1)" unfolding R by (simp_all add: gon_mul [OF C(1) P])
  have b: "mpz_tstbit F k m = bit k m" using F k by (simp add: gmp_ok_def)
  note steps = pointZZ_pDouble_law [OF F c on(1)] pointZZ_pDouble_law [OF F c on(2)]
    pointZZ_pAdd_law [OF F c on(1,2)] pointZZ_pAdd_law [OF F c on(2,1)]
  have st: "zz_point (pointZZ_pDouble F curve R0) = gmul g (2 * v) P" "zz_point (pointZZ_pDouble F curve R1) = gmul g (2 * v + 2) P"
    "zz_point (pointZZ_pAdd F curve R0 R1) = gmul g (2 * v + 1) P" "zz_point (pointZZ_pAdd F curve R1 R0) = gmul g (2 * v + 1) P"
    unfolding steps unfolding R by (simp_all add: gmul_add [OF C(1) P] algebra_simps)
  have d: "k div 2 ^ m = 2 * v + of_bool (bit k m)" unfolding v_def by (rule bit_step)
  show ?case
  proof (cases "bit k m")
    case True
    then show ?thesis using Suc.IH [of "pointZZ_pAdd F curve R1 R0" "pointZZ_pDouble F curve R1"] st d by (simp add: b add.commute)
  next
    case False
    then show ?thesis using Suc.IH [of "pointZZ_pDouble F curve R0" "pointZZ_pAdd F curve R0 R1"] st d by (simp add: b)
  qed
qed

lemma pointZZ_pMul_law:
  assumes F: "gmp_ok F" and c: "same_curve curve g" and P: "gon g (zz_point P)"
  shows "0 < k \<Longrightarrow> zz_point (pointZZ_pMul F curve P k) = gmul g k (zz_point P)"
    "zz_point (pointZZ_pMul F curve P 0) = zz_point P"
proof -
  have "zz_point (pointZZ_pMul F curve P k) = gmul g k (zz_point P)" if k: "0 < k"
  proof (cases rule: zz_point_cases [of P])
    case 1
    then show ?thesis by (simp add: pointZZ_pMul_def)
  next
    case 2
    have top: "k div 2 ^ (mpz_sizeinbase F k 2 - 1) = 1" using top_bits(3) [OF F _ k] k by simp
    have two: "zz_point (pointZZ_pDouble F curve P) = gmul g 2 (zz_point P)"
      using pointZZ_pDouble_law [OF F c P] gmul_double [OF same_curveD(1) [OF c] P, of 1] by simp
    show ?thesis using pMul_loop_law [OF F c P, of k P "mpz_sizeinbase F k 2 - 1" "pointZZ_pDouble F curve P"] top two k 2(2)
      by (simp add: pointZZ_pMul_def Let_def)
  qed
  then show "0 < k \<Longrightarrow> zz_point (pointZZ_pMul F curve P k) = gmul g k (zz_point P)" .
  have "mpz_sizeinbase F 0 2 = 1" using F by (simp add: gmp_ok_def)
  then show "zz_point (pointZZ_pMul F curve P 0) = zz_point P"
    by (simp add: pointZZ_pMul_def Let_def is_identity)
qed

lemma shamir_loop_law:
  assumes F: "gmp_ok F" and c: "same_curve curve g" and P: "gon g (zz_point P)" and Q: "gon g (zz_point Q)"
    and k: "0 \<le> j" "0 \<le> k" and s: "zz_point S = gadd g (zz_point P) (zz_point Q)"
  shows "zz_point R = gadd g (gmul g (j div 2 ^ m) (zz_point P)) (gmul g (k div 2 ^ m) (zz_point Q)) \<Longrightarrow>
    zz_point (shamir_loop F curve P j Q k S (rev [0..<m]) R) = gadd g (gmul g j (zz_point P)) (gmul g k (zz_point Q))"
proof (induction m arbitrary: R)
  case 0
  then show ?case by simp
next
  case (Suc m)
  note C = same_curveD [OF c]
  define u where "u = j div 2 ^ Suc m"
  define v where "v = k div 2 ^ Suc m"
  let ?U = "\<lambda>x y. gadd g (gmul g x (zz_point P)) (gmul g y (zz_point Q))"
  have on: "gon g (?U x y)" for x y by (intro gon_add gon_mul C(1) P Q)
  have plus: "gadd g (?U x y) (?U x' y') = ?U (x + x') (y + y')" for x y x' y'
    using gadd_swap [OF C(1), of "gmul g x (zz_point P)" "gmul g y (zz_point Q)" "gmul g x' (zz_point P)" "gmul g y' (zz_point Q)"]
    by (simp add: gmul_add [OF C(1)] gon_mul [OF C(1)] P Q)
  have R: "zz_point R = ?U u v" using Suc.prems by (simp add: u_def v_def)
  define T where "T = pointZZ_pDouble F curve R"
  have T: "zz_point T = ?U (2 * u) (2 * v)"
  proof -
    have "gon g (zz_point R)" unfolding R by (rule on)
    from pointZZ_pDouble_law [OF F c this] show ?thesis unfolding T_def R plus by (simp only: mult_2)
  qed
  have add: "zz_point (pointZZ_pAdd F curve T X) = ?U (2 * u + x) (2 * v + y)" if "zz_point X = ?U x y" for X x y
  proof -
    have "gon g (zz_point T)" "gon g (zz_point X)" unfolding T that by (rule on)+
    from pointZZ_pAdd_law [OF F c this] show ?thesis unfolding T that plus .
  qed
  have e: "zz_point S = ?U 1 1" "zz_point P = ?U 1 0" "zz_point Q = ?U 0 1" using s by simp_all
  have b: "mpz_tstbit F j m = bit j m" "mpz_tstbit F k m = bit k m" using F k by (simp_all add: gmp_ok_def)
  have d: "j div 2 ^ m = 2 * u + of_bool (bit j m)" "k div 2 ^ m = 2 * v + of_bool (bit k m)"
    unfolding u_def v_def by (rule bit_step)+
  show ?case using Suc.IH T add [OF e(1)] add [OF e(2)] add [OF e(3)] d b
    by (cases "bit j m"; cases "bit k m") (simp_all add: T_def [symmetric] Let_def)
qed

lemma top_bit: "gmp_ok F \<Longrightarrow> 0 \<le> k \<Longrightarrow> mpz_sizeinbase F k 2 \<le> Suc l \<Longrightarrow> k div 2 ^ l = of_bool (mpz_tstbit F k l)"
proof -
  assume F: "gmp_ok F" and k: "0 \<le> k" and l: "mpz_sizeinbase F k 2 \<le> Suc l"
  have "(2 :: int) ^ mpz_sizeinbase F k 2 \<le> 2 ^ Suc l" using l by (rule power_increasing) simp
  then have "k < 2 ^ Suc l" using top_bits(1) [OF F k] by linarith
  then have "k div 2 ^ Suc l = 0" using k by (simp add: div_pos_pos_trivial)
  then show ?thesis using bit_step [of k l] F k by (simp add: gmp_ok_def)
qed

lemma pointZZ_pShamirsTrick_law:
  assumes F: "gmp_ok F" and c: "same_curve curve g" and P: "gon g (zz_point P)" and Q: "gon g (zz_point Q)"
    and k: "0 \<le> j" "0 \<le> k" and rop: "zz_point rop = Inf"
  shows "zz_point (pointZZ_pShamirsTrick F curve rop P j Q k) = gadd g (gmul g j (zz_point P)) (gmul g k (zz_point Q))"
proof -
  define l where "l = max (mpz_sizeinbase F j 2) (mpz_sizeinbase F k 2) - 1"
  have l: "mpz_sizeinbase F j 2 \<le> Suc l" "mpz_sizeinbase F k 2 \<le> Suc l" by (auto simp: l_def)
  have d: "j div 2 ^ l = of_bool (mpz_tstbit F j l)" "k div 2 ^ l = of_bool (mpz_tstbit F k l)"
    using top_bit [OF F k(1) l(1)] top_bit [OF F k(2) l(2)] by simp_all
  define S where "S = pointZZ_pAdd F curve P Q"
  have S: "zz_point S = gadd g (zz_point P) (zz_point Q)" unfolding S_def by (rule pointZZ_pAdd_law [OF F c P Q])
  define R where "R = (if mpz_tstbit F j l \<and> mpz_tstbit F k l then S else if mpz_tstbit F j l then P
      else if mpz_tstbit F k l then Q else rop)"
  have "zz_point R = gadd g (gmul g (j div 2 ^ l) (zz_point P)) (gmul g (k div 2 ^ l) (zz_point Q))"
    using S rop by (simp add: R_def d)
  from shamir_loop_law [OF F c P Q k S this]
  have "zz_point (shamir_loop F curve P j Q k S (rev [0..<l]) R) = gadd g (gmul g j (zz_point P)) (gmul g k (zz_point Q))" .
  moreover have "pointZZ_pShamirsTrick F curve rop P j Q k = shamir_loop F curve P j Q k S (rev [0..<l]) R"
    by (simp add: pointZZ_pShamirsTrick_def Let_def S_def R_def l_def max_def)
  ultimately show ?thesis by simp
qed

end
