(* ===== verification/Fast_Ecdsa.thy ===== *)
theory Fast_Ecdsa
  imports Fast_Curve Ec_Dsa_Correct Dbc_BigInt
begin

text \<open>
  Signing and verifying in \<open>src/scripts/fastecdsa-master/src/_ecdsa.c\<close>, against the same textbook
  definitions as the code of OpenSSL. The Python code around it picks the nonce and checks the range of
  signatures; the C code does neither.
\<close>

text \<open>The digest is a string of hexadecimal digits; its leftmost bits are taken, as many as the order has.\<close>

definition zz_digest :: "gmp \<Rightarrow> curve_zz \<Rightarrow> string \<Rightarrow> int" where
  "zz_digest F curve msg =
     (let e = mpz_set_str F msg 16;
          orderBits = mpz_sizeinbase F (zz_q curve) 2;
          digestBits = length msg * 4
      in if digestBits > orderBits then mpz_fdiv_q_2exp F e (digestBits - orderBits) else e)"

definition signZZ_p :: "gmp \<Rightarrow> curve_zz \<Rightarrow> string \<Rightarrow> int \<Rightarrow> int \<Rightarrow> int \<times> int" where
  "signZZ_p F curve msg d k =
     (let R = pointZZ_pMul F curve (zz_g curve) k;
          r = mpz_mod F (zx R) (zz_q curve);
          e = zz_digest F curve msg;
          kinv = snd (mpz_invert F k (zz_q curve));
          s = mpz_mod F ((d * r + e) * kinv) (zz_q curve)
      in (r, s))"

definition verifyZZ_p :: "gmp \<Rightarrow> curve_zz \<Rightarrow> int \<times> int \<Rightarrow> string \<Rightarrow> point_zz \<Rightarrow> bool" where
  "verifyZZ_p F curve sig msg Q =
     (let (r, s) = sig;
          e = zz_digest F curve msg;
          w = snd (mpz_invert F s (zz_q curve));
          u1 = mpz_mod F (e * w) (zz_q curve);
          u2 = mpz_mod F (r * w) (zz_q curve);
          tmp = pointZZ_pShamirsTrick F curve zz_identity (zz_g curve) u1 Q u2
      in mpz_mod F (zx tmp) (zz_q curve) = r)"

text \<open>The parameters of \<open>g\<close> with the generator \<open>G\<close>.\<close>

definition same_dsa :: "curve_zz \<Rightarrow> ec_group \<Rightarrow> apoint \<Rightarrow> bool" where
  "same_dsa curve g G \<longleftrightarrow> same_curve curve g \<and> zz_q curve = g_order g \<and> zz_point (zz_g curve) = G"

lemma invert_minv:
  assumes F: "gmp_ok F" and n: "prime_int n" "\<not> n dvd d"
  shows "snd (mpz_invert F d n) = minv n d"
proof -
  have n1: "1 < n" using n(1) by (rule prime_int_gt_1)
  have co: "coprime d n" using prime_invertible [OF n(1)] n(2) by blast
  then have r: "0 \<le> snd (mpz_invert F d n)" "snd (mpz_invert F d n) < n" "(d * snd (mpz_invert F d n)) mod n = 1"
    using F n1 by (simp_all add: gmp_ok_def)
  have "eqm n (snd (mpz_invert F d n)) (minv n d)"
    using slope_eqm [OF n r(3) eqm_refl, of 1] r(1,2) by simp
  then show ?thesis by (rule eqm_small_eq) (use r n1 in \<open>simp_all add: minv_def\<close>)
qed

lemma zx_ap_x: "zz_point P = A \<Longrightarrow> zx P = ap_x A"
  by (auto simp: zz_point_def ap_x_def split: if_splits)

lemma signZZ_p_law:
  assumes F: "gmp_ok F" and c: "same_dsa curve g G" and g: "dsa_group g gen G" and k: "0 < k" "\<not> g_order g dvd k"
  shows "signZZ_p F curve msg d k = ecdsa_sig g G d (zz_digest F curve msg) k"
proof -
  have C: "same_curve curve g" "zz_q curve = g_order g" "zz_point (zz_g curve) = G" "gon g G" "prime_int (g_order g)"
    "0 < g_order g" using c g by (simp_all add: same_dsa_def dsa_group_def)
  have R: "zx (pointZZ_pMul F curve (zz_g curve) k) = ap_x (gmul g k G)"
    by (rule zx_ap_x) (use pointZZ_pMul_law(1) [OF F C(1) _ k(1), of "zz_g curve"] C(3,4) in simp)
  have "mpz_mod F x (g_order g) = x mod g_order g" for x using F C(6) by (simp add: gmp_ok_def)
  then show ?thesis
    by (simp add: signZZ_p_def ecdsa_sig_def Let_def C(2) R invert_minv [OF F C(5) k(2)] add.commute mult.commute)
qed

lemma verifyZZ_p_law:
  assumes F: "gmp_ok F" and c: "same_dsa curve g G" and g: "dsa_group g gen G" and Q: "gon g (zz_point Q)"
    and r: "0 < r" "r < g_order g" and s: "0 < s" "s < g_order g"
  shows "verifyZZ_p F curve (r, s) msg Q \<longleftrightarrow> ecdsa_check g G (zz_point Q) (zz_digest F curve msg) (r, s) = 1"
proof -
  let ?n = "g_order g"
  have C: "same_curve curve g" "zz_q curve = ?n" "zz_point (zz_g curve) = G" "gon g G" "prime_int ?n" "0 < ?n" "curve_ok g"
    using c g by (simp_all add: same_dsa_def dsa_group_def)
  have nd: "\<not> ?n dvd s" using s by (auto dest: zdvd_imp_le)
  define e where "e = zz_digest F curve msg"
  define v where "v = minv ?n s"
  have m: "mpz_mod F x ?n = x mod ?n" for x using F C(6) by (simp add: gmp_ok_def)
  define tmp where "tmp = pointZZ_pShamirsTrick F curve zz_identity (zz_g curve) ((e * v) mod ?n) Q ((r * v) mod ?n)"
  have "zz_point tmp = gadd g (gmul g ((e * v) mod ?n) (zz_point (zz_g curve))) (gmul g ((r * v) mod ?n) (zz_point Q))"
    unfolding tmp_def by (rule pointZZ_pShamirsTrick_law [OF F C(1)]) (use C Q in simp_all)
  then have t: "zz_point tmp = gadd g (gmul g ((r * v) mod ?n) (zz_point Q)) (gmul g ((e * v) mod ?n) G)"
    using gadd_comm [OF C(7) gon_mul [OF C(7) C(4)] gon_mul [OF C(7) Q]] by (simp add: C(3))
  have "verifyZZ_p F curve (r, s) msg Q \<longleftrightarrow> zx tmp mod ?n = r"
    by (simp add: verifyZZ_p_def Let_def C(2) m invert_minv [OF F C(5) nd] e_def v_def tmp_def)
  moreover have "ecdsa_check g G (zz_point Q) e (r, s) = (case zz_point tmp of Inf \<Rightarrow> - 1 | Aff x y \<Rightarrow> if x mod ?n = r then 1 else 0)"
    unfolding t using r s by (simp add: ecdsa_check_def Let_def v_def)
  moreover have "zx tmp = ap_x (zz_point tmp)" by (rule zx_ap_x) simp
  ultimately show ?thesis using r(1) by (cases "zz_point tmp") (simp_all add: e_def ap_x_def)
qed

lemma ecdsa_sig_mod:
  assumes g: "dsa_group g gen G"
  shows "ecdsa_sig g G d m k = ecdsa_sig g G d m (k mod g_order g)"
proof -
  have C: "curve_ok g" "gon g G" "gmul g (g_order g) G = Inf" using g by (simp_all add: dsa_group_def)
  have "gmul g k G = gmul g (k mod g_order g) G" by (rule gmul_mod [OF C]) simp
  moreover have "minv (g_order g) k = minv (g_order g) (k mod g_order g)" by (simp add: minv_def power_mod)
  ultimately show ?thesis by (simp add: ecdsa_sig_def Let_def)
qed

lemma signed_check:
  assumes F: "gmp_ok F" and c: "same_dsa curve g G" and g: "dsa_group g gen G" and k: "0 < k" "\<not> g_order g dvd k"
    and sig: "signZZ_p F curve msg d k = (r, s)" "r \<noteq> 0" "s \<noteq> 0"
  shows "ecdsa_check g G (gmul g d G) (zz_digest F curve msg) (r, s) = 1"
    "0 < r" "r < g_order g" "0 < s" "s < g_order g"
proof -
  let ?n = "g_order g"
  have n: "0 < ?n" using g by (simp add: dsa_group_def)
  have e: "ecdsa_sig g G d (zz_digest F curve msg) (k mod ?n) = (r, s)"
    using signZZ_p_law [OF F c g k] sig(1) ecdsa_sig_mod [OF g] by metis
  have "0 \<le> k mod ?n" "k mod ?n \<noteq> 0" using k(2) n by (simp_all add: mod_eq_0_iff_dvd)
  then have km: "0 < k mod ?n" "k mod ?n < ?n" using pos_mod_bound [OF n, of k] by linarith+
  show "ecdsa_check g G (gmul g d G) (zz_digest F curve msg) (r, s) = 1" by (rule ecdsa_sig_checks [OF g km e sig(2,3)])
  have "0 \<le> r" "r < ?n" "0 \<le> s" "s < ?n" using e n by (auto simp: ecdsa_sig_def Let_def)
  then show "0 < r" "r < ?n" "0 < s" "s < ?n" using sig(2,3) by simp_all
qed

lemma sign_then_verify_law:
  assumes F: "gmp_ok F" and c: "same_dsa curve g G" and g: "dsa_group g gen G" and k: "0 < k" "\<not> g_order g dvd k"
    and Q: "zz_point Q = gmul g d G" and sig: "signZZ_p F curve msg d k = (r, s)" "r \<noteq> 0" "s \<noteq> 0"
  shows "verifyZZ_p F curve (r, s) msg Q"
proof -
  have "gon g (zz_point Q)" unfolding Q by (rule gon_mul) (use g in \<open>simp_all add: dsa_group_def\<close>)
  then show ?thesis
    using verifyZZ_p_law [OF F c g, of Q r s] signed_check [OF F c g k sig] Q by simp
qed

section \<open>The digest\<close>

text \<open>Parsing and shifting in GMP; the value of hexadecimal digits is that of \<open>myBigInt.h\<close>.\<close>

definition gmp_text_ok :: "gmp \<Rightarrow> bool" where
  "gmp_text_ok F \<longleftrightarrow> (\<forall>msg. list_all hex_ok msg \<longrightarrow> msg \<noteq> [] \<longrightarrow> mpz_set_str F msg 16 = hex_val msg) \<and>
     (\<forall>e k. mpz_fdiv_q_2exp F e k = e div 2 ^ k)"

text \<open>The string that writes the bytes of a digest.\<close>

definition hex_of :: "8 word list \<Rightarrow> string \<Rightarrow> bool" where
  "hex_of dgst msg \<longleftrightarrow> list_all hex_ok msg \<and> length msg = 2 * length dgst \<and> hex_val msg = BN_bin2bn dgst"

lemma BN_bin2bn_append: "BN_bin2bn (s @ t) = BN_bin2bn s * 256 ^ length t + BN_bin2bn t"
  using foldl_bytes [of "BN_bin2bn s" t] by (simp add: BN_bin2bn_def)

lemma BN_bin2bn_take: "BN_bin2bn (take l s) = BN_bin2bn s div 256 ^ (length s - l)"
proof -
  have "BN_bin2bn s = BN_bin2bn (take l s) * 256 ^ length (drop l s) + BN_bin2bn (drop l s)"
    using BN_bin2bn_append [of "take l s" "drop l s"] by simp
  then show ?thesis using BN_bin2bn_bounds [of "drop l s"] by (simp add: div_pos_pos_trivial)
qed

lemma round_up_8:
  fixes i :: nat
  shows "i \<le> 8 * ((i + 7) div 8)" "8 * ((i + 7) div 8) \<le> i + 7"
    "8 * ((i + 7) div 8) \<noteq> i \<Longrightarrow> 8 * ((i + 7) div 8) = i + (8 - i mod 8)"
proof -
  define q where "q = i div 8"
  define r where "r = i mod 8"
  have i: "i = 8 * q + r" "r < 8" by (simp_all add: q_def r_def)
  have "(i + 7) div 8 = (if r = 0 then q else q + 1)" using i by (cases "r = 0") (simp_all add: div_nat_eqI)
  then show "i \<le> 8 * ((i + 7) div 8)" "8 * ((i + 7) div 8) \<le> i + 7"
    "8 * ((i + 7) div 8) \<noteq> i \<Longrightarrow> 8 * ((i + 7) div 8) = i + (8 - i mod 8)"
    using i by (auto simp: r_def [symmetric] split: if_splits)
qed

lemma digest_to_m_shift: "digest_to_m n dgst =
    (if 8 * length dgst > z_num_bits n then BN_bin2bn dgst div 2 ^ (8 * length dgst - z_num_bits n) else BN_bin2bn dgst)"
proof (cases "8 * length dgst > z_num_bits n")
  case True
  define i where "i = z_num_bits n"
  define l where "l = (i + 7) div 8"
  note l = round_up_8 [of i, folded l_def]
  have len: "l \<le> length dgst" using l(2) True unfolding i_def [symmetric] by linarith
  have p: "(256 :: int) ^ (length dgst - l) = 2 ^ (8 * (length dgst - l))" by (simp add: power_mult)
  have t: "BN_bin2bn (take l dgst) div 2 ^ j = BN_bin2bn dgst div 2 ^ (8 * (length dgst - l) + j)" for j
    by (simp add: BN_bin2bn_take p power_add zdiv_zmult2_eq)
  have d: "digest_to_m n dgst = (if 8 * l > i then BN_bin2bn (take l dgst) div 2 ^ (8 - i mod 8) else BN_bin2bn (take l dgst))"
    using True by (simp add: digest_to_m_def Let_def i_def l_def drop_bit_eq_div)
  have "digest_to_m n dgst = BN_bin2bn dgst div 2 ^ (8 * length dgst - i)"
  proof (cases "8 * l = i")
    case True
    then show ?thesis using t [of 0] len by (simp add: d diff_mult_distrib2)
  next
    case False
    then have "8 * (length dgst - l) + (8 - i mod 8) = 8 * length dgst - i" using l len by (simp add: diff_mult_distrib2)
    then show ?thesis using False l(1) t [of "8 - i mod 8"] by (simp add: d)
  qed
  then show ?thesis using True by (simp add: i_def)
qed (simp add: digest_to_m_def Let_def)

lemma zz_digest_value:
  assumes F: "gmp_ok F" "gmp_text_ok F" and msg: "hex_of dgst msg" "dgst \<noteq> []" and n: "0 < zz_q curve"
  shows "zz_digest F curve msg = digest_to_m (zz_q curve) dgst"
proof -
  have "mpz_sizeinbase F (zz_q curve) 2 = z_num_bits (zz_q curve)" using F(1) n by (simp add: gmp_ok_def)
  moreover have "mpz_set_str F msg 16 = BN_bin2bn dgst" "mpz_fdiv_q_2exp F e k = e div 2 ^ k" for e k
    using F(2) msg by (auto simp: gmp_text_ok_def hex_of_def)
  moreover have "length msg * 4 = 8 * length dgst" using msg(1) by (simp add: hex_of_def)
  ultimately show ?thesis by (simp add: zz_digest_def digest_to_m_shift Let_def)
qed

section \<open>An instance\<close>

definition plain_gmp :: gmp where
  "plain_gmp = \<lparr>mpz_invert = (\<lambda>a m. case find (\<lambda>r. (a * r) mod m = 1) [0..m - 1] of Some r \<Rightarrow> (True, r) | None \<Rightarrow> (False, 0)),
     mpz_mod = (\<lambda>a m. a mod \<bar>m\<bar>), mpz_sizeinbase = (\<lambda>a b. if a = 0 then 1 else z_num_bits a),
     mpz_tstbit = bit, mpz_set_str = (\<lambda>msg b. hex_val msg), mpz_fdiv_q_2exp = (\<lambda>e k. e div 2 ^ k)\<rparr>"

lemma find_inverse:
  fixes m :: int
  assumes "1 < m"
  shows "(\<exists>r\<in>{0..m - 1}. (a * r) mod m = 1) \<longleftrightarrow> coprime a m"
proof
  assume "\<exists>r\<in>{0..m - 1}. (a * r) mod m = 1"
  then obtain r where "(a * r) mod m = 1" by blast
  then have "coprime (a * r) m" using assms by (metis coprime_mod_left_iff coprime_1_left less_irrefl not_one_less_zero)
  then show "coprime a m" by simp
next
  assume "coprime a m"
  then obtain x y where "x * a + y * m = 1" using bezout_int [of a m] by (auto simp: coprime_iff_gcd_eq_1)
  then have "a * x = 1 + m * (- y)" by (simp add: algebra_simps)
  then have "(a * x) mod m = 1" using assms by (simp only: mod_mult_self2) simp
  then have "(a * (x mod m)) mod m = 1" by (simp add: mod_mult_right_eq)
  then show "\<exists>r\<in>{0..m - 1}. (a * r) mod m = 1" using assms by (intro bexI [of _ "x mod m"]) simp_all
qed

lemma plain_gmp_ok: "gmp_ok plain_gmp" "gmp_text_ok plain_gmp"
proof -
  have inv: "fst (mpz_invert plain_gmp a m) = coprime a m \<and> (coprime a m \<longrightarrow> 0 \<le> snd (mpz_invert plain_gmp a m) \<and>
      snd (mpz_invert plain_gmp a m) < m \<and> (a * snd (mpz_invert plain_gmp a m)) mod m = 1)" if m: "1 < m" for a m
  proof (cases "find (\<lambda>r. (a * r) mod m = 1) [0..m - 1]")
    case None
    then have "\<not> coprime a m" using find_inverse [OF m, of a] by (auto simp: find_None_iff)
    with None show ?thesis by (simp add: plain_gmp_def)
  next
    case (Some r)
    then have "r \<in> {0..m - 1}" "(a * r) mod m = 1" by (auto simp: find_Some_iff dest: nth_mem)
    moreover from this have "coprime a m" using find_inverse [OF m, of a] by blast
    ultimately show ?thesis using Some by (simp add: plain_gmp_def)
  qed
  then show "gmp_ok plain_gmp" by (simp add: gmp_ok_def) (simp add: plain_gmp_def)
  show "gmp_text_ok plain_gmp" by (simp add: gmp_text_ok_def plain_gmp_def)
qed

end
