(* ===== verification/Ec_Ecdh.thy ===== *)
theory Ec_Ecdh
  imports Ec_Dsa Ec_Curve
begin

unbundle bit_operations_syntax

text \<open>
  Key pairs and the key agreement: the private scalars that \<open>bn_rand.c\<close> draws, their generation and the
  check of a whole key in \<open>ec_key.c\<close>, and Diffie-Hellman in \<open>ecdh_ossl.c\<close> and \<open>ec_kmeth.c\<close>. The random
  generator is the list of the bytes it will give; one that has too few left fails. The key method is the
  default one, \<open>openssl_ec_key_method\<close>.
\<close>

section \<open>Random numbers\<close>

text \<open>\<open>bnrand\<close> for private numbers with \<open>BN_RAND_TOP_ANY\<close> and \<open>BN_RAND_BOTTOM_ANY\<close>.\<close>

definition bnrand :: "nat \<Rightarrow> 8 word list \<Rightarrow> (int \<times> 8 word list) option" where
  "bnrand bits rand =
     (if bits = 0 then Some (0, rand)
      else
        let bytes = (bits + 7) div 8;
            bit = (bits - 1) mod 8;
            mask = push_bit (bit + 1) 0xff;
            buf = take bytes rand
        in if length rand < bytes then None
           else Some (BN_bin2bn ((hd buf AND NOT mask) # tl buf), drop bytes rand))"

text \<open>The loops draw until the number is below the range, at most \<open>count\<close> times; the last draw fails even
  when it is below. \<open>three\<close> is the case in which three times the bound has one bit more than the bound.\<close>

fun bnrand_loop :: "nat \<Rightarrow> bool \<Rightarrow> nat \<Rightarrow> int \<Rightarrow> 8 word list \<Rightarrow> (int \<times> 8 word list) option" where
  "bnrand_loop 0 three n bound rand = None"
| "bnrand_loop (Suc count) three n bound rand = do {
     (r, rand) \<leftarrow> bnrand (if three then n + 1 else n) rand;
     let r = (if three \<and> r \<ge> bound then (if r - bound \<ge> bound then r - bound - bound else r - bound) else r);
     (if count = 0 then None
      else if r \<ge> bound then bnrand_loop count three n bound rand
      else Some (r, rand))
   }"

definition bnrand_range :: "int \<Rightarrow> 8 word list \<Rightarrow> (int \<times> 8 word list) option" where
  "bnrand_range bound rand =
     (if bound < 0 \<or> bound = 0 then None
      else
        let n = z_num_bits bound;
            bit_set = (\<lambda>i. if i < 0 then False else bit bound (nat i))
        in if n = 1 then Some (0, rand)
           else bnrand_loop 100 (\<not> bit_set (int n - 2) \<and> \<not> bit_set (int n - 3)) n bound rand)"

definition BN_priv_rand_range_ex :: "int \<Rightarrow> 8 word list \<Rightarrow> (int \<times> 8 word list) option" where
  "BN_priv_rand_range_ex bound rand = bnrand_range bound rand"

section \<open>Generating a key\<close>

definition EC_FLAG_SM2_RANGE :: "32 word" where "EC_FLAG_SM2_RANGE = 0x0004"

definition EC_FLAG_COFACTOR_ECDH :: "32 word" where "EC_FLAG_COFACTOR_ECDH = 0x1000"

definition EC_KEY_get_flags :: "ec_key \<Rightarrow> 32 word" where
  "EC_KEY_get_flags key = k_flags key"

text \<open>The loop until the private scalar is not zero. For a range above one every round takes a byte, so as
  many rounds as there are bytes are enough; for the range one the loop of the code does not end.\<close>

fun priv_loop :: "nat \<Rightarrow> int \<Rightarrow> 8 word list \<Rightarrow> (int \<times> 8 word list) option" where
  "priv_loop 0 bound rand = None"
| "priv_loop (Suc n) bound rand = do {
     (k, rand) \<leftarrow> BN_priv_rand_range_ex bound rand;
     (if k = 0 then priv_loop n bound rand else Some (k, rand))
   }"

text \<open>What generation leaves: whether it succeeded, the key, the objects it frees, and the state. The objects
  are those the key had before (\<open>Key_priv\<close>, \<open>Key_pub\<close>) or new ones.\<close>

datatype key_object = Key_priv | New_priv | Key_pub nat | New_pub nat

record key_gen =
  gen_ok :: bool
  gen_key :: ec_key
  gen_freed :: "key_object list"
  gen_rand :: "8 word list"
  gen_state :: ec_state

text \<open>The error exit: the key's scalar is cleared and its point set to infinity, then the objects that the
  local pointers still name are freed. The bytes that a failed call took are not counted.\<close>

definition key_gen_err :: "ec_group \<Rightarrow> ec_key \<Rightarrow> key_object list \<Rightarrow> 8 word list \<Rightarrow> ec_state \<Rightarrow> key_gen" where
  "key_gen_err g eckey freed rand st =
     \<lparr>gen_ok = False,
      gen_key = eckey\<lparr>priv_key := map_option (\<lambda>_. 0) (priv_key eckey)\<rparr>,
      gen_freed = freed, gen_rand = rand,
      gen_state = (case pub_key eckey of
          None \<Rightarrow> st
        | Some a \<Rightarrow> (case EC_POINT_set_to_infinity g a st of None \<Rightarrow> st | Some st' \<Rightarrow> st'))\<rparr>"

text \<open>\<open>ec_generate_key\<close> without the pairwise test, on the key's group \<open>g\<close>.\<close>

definition ec_generate_key ::
  "ec_group \<Rightarrow> ec_key \<Rightarrow> nat option \<Rightarrow> nat list \<Rightarrow> bool \<Rightarrow> 8 word list \<Rightarrow> ec_state \<Rightarrow> key_gen" where
  "ec_generate_key g eckey point fresh ctx rand st =
     (let sm2 = EC_KEY_get_flags eckey AND EC_FLAG_SM2_RANGE \<noteq> 0;
          priv_obj = (if priv_key eckey = None then New_priv else Key_priv);
          pub_obj = (if pub_key eckey = None then New_pub else Key_pub);
          order = (if sm2 then g_order g - 1 else g_order g)
      in if \<not> ctx then key_gen_err g eckey [] rand st
         else case priv_loop (length rand + 1) order rand of
             None \<Rightarrow> key_gen_err g eckey [priv_obj] rand st
           | Some (k, rand) \<Rightarrow>
               (case (case pub_key eckey of None \<Rightarrow> EC_POINT_new g point st | Some a \<Rightarrow> Some (a, st)) of
                  None \<Rightarrow> key_gen_err g eckey [priv_obj] rand st
                | Some (a, st) \<Rightarrow>
                    (case EC_POINT_mul g a (Some (Bn k)) None None fresh ctx st of
                       None \<Rightarrow> key_gen_err g eckey [pub_obj a, priv_obj] rand st
                     | Some st \<Rightarrow>
                         \<lparr>gen_ok = True,
                          gen_key = eckey\<lparr>priv_key := Some k, pub_key := Some a, dirty_cnt := dirty_cnt eckey + 1\<rparr>,
                          gen_freed = [], gen_rand = rand, gen_state = st\<rparr>)))"

definition ossl_ec_key_simple_generate_key ::
  "ec_group \<Rightarrow> ec_key \<Rightarrow> nat option \<Rightarrow> nat list \<Rightarrow> bool \<Rightarrow> 8 word list \<Rightarrow> ec_state \<Rightarrow> key_gen" where
  "ossl_ec_key_simple_generate_key g eckey point fresh ctx rand st = ec_generate_key g eckey point fresh ctx rand st"

text \<open>A successful call counts the key as changed, once more at each level.\<close>

definition key_dirty :: "key_gen \<Rightarrow> key_gen" where
  "key_dirty r = (if gen_ok r then r\<lparr>gen_key := (gen_key r)\<lparr>dirty_cnt := dirty_cnt (gen_key r) + 1\<rparr>\<rparr> else r)"

definition ossl_ec_key_gen ::
  "ec_group \<Rightarrow> ec_key \<Rightarrow> nat option \<Rightarrow> nat list \<Rightarrow> bool \<Rightarrow> 8 word list \<Rightarrow> ec_state \<Rightarrow> key_gen option" where
  "ossl_ec_key_gen g eckey point fresh ctx rand st =
     (if slot (g_meth g) ''keygen'' = ''ossl_ec_key_simple_generate_key''
      then Some (key_dirty (ossl_ec_key_simple_generate_key g eckey point fresh ctx rand st)) else None)"

definition EC_KEY_generate_key ::
  "ec_key option \<Rightarrow> nat option \<Rightarrow> nat list \<Rightarrow> bool \<Rightarrow> 8 word list \<Rightarrow> ec_state \<Rightarrow> key_gen option" where
  "EC_KEY_generate_key eckey point fresh ctx rand st = do {
     key \<leftarrow> eckey;
     g \<leftarrow> k_group key;
     r \<leftarrow> ossl_ec_key_gen g key point fresh ctx rand st;
     Some (key_dirty r)
   }"

definition ossl_ec_key_simple_generate_public_key ::
  "ec_group \<Rightarrow> ec_key \<Rightarrow> nat list \<Rightarrow> bool \<Rightarrow> ec_state \<Rightarrow> (ec_key \<times> ec_state) option" where
  "ossl_ec_key_simple_generate_public_key g eckey fresh ctx st = do {
     a \<leftarrow> pub_key eckey;
     st \<leftarrow> (if \<not> ctx then None
           else EC_POINT_mul g a (map_option Bn (priv_key eckey)) None None fresh ctx st);
     Some (eckey\<lparr>dirty_cnt := dirty_cnt eckey + 1\<rparr>, st)
   }"

definition EC_KEY_check_key ::
  "ec_key option \<Rightarrow> nat option \<Rightarrow> nat list \<Rightarrow> nat option \<Rightarrow> nat list \<Rightarrow> bool \<Rightarrow> ec_state \<Rightarrow> ec_state option" where
  "EC_KEY_check_key eckey p1 fresh1 p2 fresh2 ctx st = do {
     key \<leftarrow> eckey;
     g \<leftarrow> k_group key;
     _ \<leftarrow> pub_key key;
     (if slot (g_meth g) ''keycheck'' = ''ossl_ec_key_simple_check_key''
      then ossl_ec_key_simple_check_key eckey p1 fresh1 p2 fresh2 ctx st else None)
   }"

section \<open>The key agreement\<close>

definition BN_num_bytes :: "int \<Rightarrow> nat" where
  "BN_num_bytes a = (z_num_bits a + 7) div 8"

definition BN_bn2bin :: "int \<Rightarrow> 8 word list" where
  "BN_bn2bin a = map (\<lambda>j. word_of_int (\<bar>a\<bar> div 256 ^ j)) (rev [0..<BN_num_bytes a])"

definition ossl_ecdh_simple_compute_key ::
  "nat option \<Rightarrow> ec_key \<Rightarrow> nat option \<Rightarrow> nat list \<Rightarrow> bool \<Rightarrow> ec_state \<Rightarrow> (8 word list \<times> ec_state) option" where
  "ossl_ecdh_simple_compute_key pub ecdh tmp fresh ctx st = do {
     priv \<leftarrow> (if ctx then priv_key ecdh else None);
     g \<leftarrow> k_group ecdh;
     k \<leftarrow> (if EC_KEY_get_flags ecdh AND EC_FLAG_COFACTOR_ECDH \<noteq> 0
          then (let (x, ok) = EC_GROUP_get_cofactor g in if ok then Some (x * priv) else None) else Some priv);
     (tmp, st) \<leftarrow> EC_POINT_new g tmp st;
     st \<leftarrow> EC_POINT_mul g tmp None pub (Some (Bn k)) fresh ctx st;
     (xy, st) \<leftarrow> EC_POINT_get_affine_coordinates g tmp True False ctx st;
     x \<leftarrow> fst xy;
     let buflen = (EC_GROUP_get_degree g + 7) div 8;
     let len = BN_num_bytes x;
     (if len > buflen then None else Some (replicate (buflen - len) 0 @ BN_bn2bin x, st))
   }"

definition ossl_ecdh_compute_key ::
  "nat option \<Rightarrow> ec_key \<Rightarrow> nat option \<Rightarrow> nat list \<Rightarrow> bool \<Rightarrow> ec_state \<Rightarrow> (8 word list \<times> ec_state) option" where
  "ossl_ecdh_compute_key pub ecdh tmp fresh ctx st = do {
     g \<leftarrow> k_group ecdh;
     let f = slot (g_meth g) ''ecdh_compute_key'';
     (if f = ''ossl_ecdh_simple_compute_key'' then ossl_ecdh_simple_compute_key pub ecdh tmp fresh ctx st else None)
   }"

text \<open>With a derivation function its output, else the first \<open>outlen\<close> bytes of the secret.\<close>

definition ECDH_compute_key ::
  "nat \<Rightarrow> nat option \<Rightarrow> ec_key \<Rightarrow> (8 word list \<Rightarrow> nat \<Rightarrow> 8 word list) option \<Rightarrow> nat option \<Rightarrow> nat list \<Rightarrow> bool \<Rightarrow> ec_state \<Rightarrow>
    (8 word list \<times> ec_state) option" where
  "ECDH_compute_key outlen pub eckey KDF tmp fresh ctx st =
     (if outlen > 2 ^ 31 - 1 then None
      else do {
        (sec, st) \<leftarrow> ossl_ecdh_compute_key pub eckey tmp fresh ctx st;
        Some (case KDF of Some f \<Rightarrow> f sec outlen | None \<Rightarrow> take outlen sec, st)
      })"

end
