(* ===== verification/Ec_Der.thy ===== *)
theory Ec_Der
  imports Ec_Ecdh
begin

unbundle bit_operations_syntax

text \<open>
  The DER encoding of signatures (\<open>asn1_dsa.c\<close>, with the readers of \<open>packet.h\<close>), and the calls of ECDSA on
  encoded signatures (\<open>ecdsa_ossl.c\<close>, \<open>ecdsa_sign.c\<close>, \<open>ecdsa_vrf.c\<close>). A \<open>PACKET\<close> is the list of its
  remaining bytes, a \<open>WPACKET\<close> what is written to it; allocation does not fail.
\<close>

section \<open>Reading packets\<close>

type_synonym packet = "8 word list"

definition PACKET_get_1 :: "packet \<Rightarrow> (8 word \<times> packet) option" where
  "PACKET_get_1 pkt = (case pkt of [] \<Rightarrow> None | b # pkt \<Rightarrow> Some (b, pkt))"

definition PACKET_get_net_2 :: "packet \<Rightarrow> (nat \<times> packet) option" where
  "PACKET_get_net_2 pkt = do {
     (a, pkt) \<leftarrow> PACKET_get_1 pkt;
     (b, pkt) \<leftarrow> PACKET_get_1 pkt;
     Some (unat a * 256 + unat b, pkt)
   }"

definition PACKET_get_sub_packet :: "packet \<Rightarrow> nat \<Rightarrow> (packet \<times> packet) option" where
  "PACKET_get_sub_packet pkt len = (if length pkt < len then None else Some (take len pkt, drop len pkt))"

definition PACKET_get_length_prefixed_1 :: "packet \<Rightarrow> (packet \<times> packet) option" where
  "PACKET_get_length_prefixed_1 pkt = do {
     (len, pkt) \<leftarrow> PACKET_get_1 pkt;
     PACKET_get_sub_packet pkt (unat len)
   }"

definition PACKET_get_length_prefixed_2 :: "packet \<Rightarrow> (packet \<times> packet) option" where
  "PACKET_get_length_prefixed_2 pkt = do {
     (len, pkt) \<leftarrow> PACKET_get_net_2 pkt;
     PACKET_get_sub_packet pkt len
   }"

section \<open>Encoding\<close>

definition ID_SEQUENCE :: "8 word" where "ID_SEQUENCE = 0x30"

definition ID_INTEGER :: "8 word" where "ID_INTEGER = 0x02"

definition ossl_encode_der_length :: "nat \<Rightarrow> packet option" where
  "ossl_encode_der_length cont_len =
     (if cont_len > 0xffff then None
      else if cont_len > 0xff then Some [0x82, word_of_nat (cont_len div 256), word_of_nat cont_len]
      else Some ((if cont_len > 0x7f then [0x81] else []) @ [word_of_nat cont_len]))"

definition BN_bn2binpad :: "int \<Rightarrow> nat \<Rightarrow> packet option" where
  "BN_bn2binpad a tolen =
     (if tolen < BN_num_bytes a then None else Some (replicate (tolen - BN_num_bytes a) 0 @ BN_bn2bin a))"

definition ossl_encode_der_integer :: "int \<Rightarrow> packet option" where
  "ossl_encode_der_integer n =
     (if n < 0 then None
      else do {
        let cont_len = z_num_bits n div 8 + 1;
        l \<leftarrow> ossl_encode_der_length cont_len;
        bnbytes \<leftarrow> BN_bn2binpad n cont_len;
        Some (ID_INTEGER # l @ bnbytes)
      })"

definition ossl_encode_der_dsa_sig :: "int \<Rightarrow> int \<Rightarrow> packet option" where
  "ossl_encode_der_dsa_sig r s = do {
     dr \<leftarrow> ossl_encode_der_integer r;
     ds \<leftarrow> ossl_encode_der_integer s;
     let cont_len = length (dr @ ds);
     l \<leftarrow> ossl_encode_der_length cont_len;
     Some (ID_SEQUENCE # l @ dr @ ds)
   }"

section \<open>Decoding\<close>

definition ossl_decode_der_length :: "packet \<Rightarrow> (packet \<times> packet) option" where
  "ossl_decode_der_length pkt = do {
     (byte, pkt) \<leftarrow> PACKET_get_1 pkt;
     (if byte < 0x80 then PACKET_get_sub_packet pkt (unat byte)
      else if byte = 0x81 then PACKET_get_length_prefixed_1 pkt
      else if byte = 0x82 then PACKET_get_length_prefixed_2 pkt
      else None)
   }"

definition ossl_decode_der_integer :: "packet \<Rightarrow> (int \<times> packet) option" where
  "ossl_decode_der_integer pkt = do {
     (tag, pkt) \<leftarrow> PACKET_get_1 pkt;
     (contpkt, pkt) \<leftarrow> (if tag \<noteq> ID_INTEGER then None else ossl_decode_der_length pkt);
     (tmp, tmppkt) \<leftarrow> PACKET_get_1 contpkt;
     (if tmp AND 0x80 \<noteq> 0 then None
      else do {
        _ \<leftarrow> (if length tmppkt > 0 \<and> tmp = 0 then do {
               (tmp, tmppkt) \<leftarrow> PACKET_get_1 tmppkt;
               (if tmp AND 0x80 = 0 then None else Some ())
             } else Some ());
        Some (BN_bin2bn contpkt, pkt)
      })
   }"

text \<open>The two integers and the number of bytes consumed.\<close>

definition ossl_decode_der_dsa_sig :: "packet \<Rightarrow> ((int \<times> int) \<times> nat) option" where
  "ossl_decode_der_dsa_sig pp = do {
     (tag, pkt) \<leftarrow> PACKET_get_1 pp;
     (contpkt, pkt) \<leftarrow> (if tag \<noteq> ID_SEQUENCE then None else ossl_decode_der_length pkt);
     (r, contpkt) \<leftarrow> ossl_decode_der_integer contpkt;
     (s, contpkt) \<leftarrow> ossl_decode_der_integer contpkt;
     (if contpkt \<noteq> [] then None else Some ((r, s), length pp - length pkt))
   }"

definition d2i_ECDSA_SIG :: "packet \<Rightarrow> (int \<times> int) option" where
  "d2i_ECDSA_SIG pp = map_option fst (ossl_decode_der_dsa_sig pp)"

text \<open>The result -1 or the length, and what is written.\<close>

definition i2d_ECDSA_SIG :: "int \<times> int \<Rightarrow> int \<times> packet" where
  "i2d_ECDSA_SIG sig =
     (case ossl_encode_der_dsa_sig (fst sig) (snd sig) of None \<Rightarrow> (- 1, []) | Some der \<Rightarrow> (int (length der), der))"

section \<open>Encoded signatures\<close>

definition ossl_ecdsa_simple_sign_setup ::
  "ec_key option \<Rightarrow> nat option \<Rightarrow> nat list \<Rightarrow> bool \<Rightarrow> int list \<Rightarrow> ec_state \<Rightarrow> (int \<times> int \<times> int list \<times> ec_state) option" where
  "ossl_ecdsa_simple_sign_setup eckey tmp fresh ctx ks st = ecdsa_sign_setup eckey tmp fresh ctx ks st"

definition ossl_ecdsa_sign_setup ::
  "ec_key \<Rightarrow> nat option \<Rightarrow> nat list \<Rightarrow> bool \<Rightarrow> int list \<Rightarrow> ec_state \<Rightarrow> (int \<times> int \<times> int list \<times> ec_state) option" where
  "ossl_ecdsa_sign_setup eckey tmp fresh ctx ks st = do {
     g \<leftarrow> k_group eckey;
     (if slot (g_meth g) ''ecdsa_sign_setup'' = ''ossl_ecdsa_simple_sign_setup''
      then ossl_ecdsa_simple_sign_setup (Some eckey) tmp fresh ctx ks st else None)
   }"

definition ossl_ecdsa_sign_sig ::
  "8 word list \<Rightarrow> int option \<Rightarrow> int option \<Rightarrow> ec_key \<Rightarrow> nat option \<Rightarrow> nat list \<Rightarrow> bool \<Rightarrow> int list \<Rightarrow> ec_state \<Rightarrow>
    ((int \<times> int) \<times> int list \<times> ec_state) option" where
  "ossl_ecdsa_sign_sig dgst in_kinv in_r eckey tmp fresh ctx ks st = do {
     g \<leftarrow> k_group eckey;
     (if slot (g_meth g) ''ecdsa_sign_sig'' = ''ossl_ecdsa_simple_sign_sig''
      then ossl_ecdsa_simple_sign_sig dgst in_kinv in_r eckey tmp fresh ctx ks st else None)
   }"

text \<open>A missing slot is a signature that does not verify, 0, and not an error; the functions of other tables are
  not modelled.\<close>

definition ossl_ecdsa_verify_sig ::
  "8 word list \<Rightarrow> int \<times> int \<Rightarrow> ec_key \<Rightarrow> nat option \<Rightarrow> nat list \<Rightarrow> bool \<Rightarrow> ec_state \<Rightarrow> int" where
  "ossl_ecdsa_verify_sig dgst sig eckey pt fresh ctx st =
     (case k_group eckey of
        None \<Rightarrow> - 1
      | Some g \<Rightarrow>
          (let f = slot (g_meth g) ''ecdsa_verify_sig'' in
           if f = ''0'' then 0
           else if f = ''ossl_ecdsa_simple_verify_sig''
           then ossl_ecdsa_simple_verify_sig dgst (Some sig) (Some eckey) pt fresh ctx st else - 1))"

definition ECDSA_do_sign_ex ::
  "8 word list \<Rightarrow> int option \<Rightarrow> int option \<Rightarrow> ec_key \<Rightarrow> nat option \<Rightarrow> nat list \<Rightarrow> bool \<Rightarrow> int list \<Rightarrow> ec_state \<Rightarrow>
    ((int \<times> int) \<times> int list \<times> ec_state) option" where
  "ECDSA_do_sign_ex dgst kinv rp eckey tmp fresh ctx ks st = ossl_ecdsa_sign_sig dgst kinv rp eckey tmp fresh ctx ks st"

definition ECDSA_do_sign ::
  "8 word list \<Rightarrow> ec_key \<Rightarrow> nat option \<Rightarrow> nat list \<Rightarrow> bool \<Rightarrow> int list \<Rightarrow> ec_state \<Rightarrow>
    ((int \<times> int) \<times> int list \<times> ec_state) option" where
  "ECDSA_do_sign dgst eckey tmp fresh ctx ks st = ECDSA_do_sign_ex dgst None None eckey tmp fresh ctx ks st"

definition ECDSA_sign_setup ::
  "ec_key \<Rightarrow> nat option \<Rightarrow> nat list \<Rightarrow> bool \<Rightarrow> int list \<Rightarrow> ec_state \<Rightarrow> (int \<times> int \<times> int list \<times> ec_state) option" where
  "ECDSA_sign_setup eckey tmp fresh ctx ks st = ossl_ecdsa_sign_setup eckey tmp fresh ctx ks st"

definition ECDSA_do_verify ::
  "8 word list \<Rightarrow> int \<times> int \<Rightarrow> ec_key \<Rightarrow> nat option \<Rightarrow> nat list \<Rightarrow> bool \<Rightarrow> ec_state \<Rightarrow> int" where
  "ECDSA_do_verify dgst sig eckey pt fresh ctx st = ossl_ecdsa_verify_sig dgst sig eckey pt fresh ctx st"

text \<open>The length as the unsigned integer the caller gets, the bytes, and the rest of the generator and state.\<close>

definition ossl_ecdsa_sign ::
  "8 word list \<Rightarrow> int option \<Rightarrow> int option \<Rightarrow> ec_key \<Rightarrow> nat option \<Rightarrow> nat list \<Rightarrow> bool \<Rightarrow> int list \<Rightarrow> ec_state \<Rightarrow>
    ((32 word \<times> packet) \<times> int list \<times> ec_state) option" where
  "ossl_ecdsa_sign dgst kinv r eckey tmp fresh ctx ks st = do {
     (s, ks, st) \<leftarrow> ECDSA_do_sign_ex dgst kinv r eckey tmp fresh ctx ks st;
     let (siglen, sig) = i2d_ECDSA_SIG s;
     Some ((word_of_int siglen, sig), ks, st)
   }"

definition ossl_ecdsa_verify ::
  "8 word list \<Rightarrow> packet \<Rightarrow> ec_key \<Rightarrow> nat option \<Rightarrow> nat list \<Rightarrow> bool \<Rightarrow> ec_state \<Rightarrow> int" where
  "ossl_ecdsa_verify dgst sigbuf eckey pt fresh ctx st =
     (case d2i_ECDSA_SIG sigbuf of
        None \<Rightarrow> - 1
      | Some s \<Rightarrow>
          (let (derlen, der) = i2d_ECDSA_SIG s in
           if derlen \<noteq> int (length sigbuf) \<or> sigbuf \<noteq> der then - 1
           else ECDSA_do_verify dgst s eckey pt fresh ctx st))"

definition ECDSA_sign_ex ::
  "8 word list \<Rightarrow> int option \<Rightarrow> int option \<Rightarrow> ec_key \<Rightarrow> nat option \<Rightarrow> nat list \<Rightarrow> bool \<Rightarrow> int list \<Rightarrow> ec_state \<Rightarrow>
    ((32 word \<times> packet) \<times> int list \<times> ec_state) option" where
  "ECDSA_sign_ex dgst kinv r eckey tmp fresh ctx ks st = ossl_ecdsa_sign dgst kinv r eckey tmp fresh ctx ks st"

definition ECDSA_sign ::
  "8 word list \<Rightarrow> ec_key \<Rightarrow> nat option \<Rightarrow> nat list \<Rightarrow> bool \<Rightarrow> int list \<Rightarrow> ec_state \<Rightarrow>
    ((32 word \<times> packet) \<times> int list \<times> ec_state) option" where
  "ECDSA_sign dgst eckey tmp fresh ctx ks st = ECDSA_sign_ex dgst None None eckey tmp fresh ctx ks st"

definition ECDSA_verify ::
  "8 word list \<Rightarrow> packet \<Rightarrow> ec_key \<Rightarrow> nat option \<Rightarrow> nat list \<Rightarrow> bool \<Rightarrow> ec_state \<Rightarrow> int" where
  "ECDSA_verify dgst sigbuf eckey pt fresh ctx st = ossl_ecdsa_verify dgst sigbuf eckey pt fresh ctx st"

end
