(* ===== verification/Ec_Key_Correct.thy ===== *)
theory Ec_Key_Correct
  imports Ec_Dsa_Correct
begin

text \<open>
  The validation of keys is correct: the checks of a public key, of a scalar and of the pair accept exactly
  what they should, whatever coordinates represent the point, and write only the points they allocate.
\<close>

section \<open>The points of a key\<close>

lemma is_on_curve_slot: "gfp_valid g \<Longrightarrow> pt_of g pt \<Longrightarrow>
    EC_POINT_is_on_curve g pt ctx = ossl_ec_GFp_simple_is_on_curve g pt ctx"
  using gfp.meth_law [of g] by (auto simp: EC_POINT_is_on_curve_def Let_def dest!: pt_of_compat)

lemma cmp_slot: "gfp_valid g \<Longrightarrow> pt_of g A \<Longrightarrow> pt_of g B \<Longrightarrow>
    EC_POINT_cmp g A B ctx = ossl_ec_GFp_simple_cmp g A B ctx"
  using gfp.meth_law [of g] by (auto simp: EC_POINT_cmp_def Let_def dest!: pt_of_compat)

lemma cmp_holds:
  assumes "gfp_valid g" "holds g s a P" "holds g s b Q"
  shows "EC_POINT_cmp g (heap s a) (heap s b) True = (if P = Q then 0 else 1)"
  using gfp.cmp_correct [OF assms(1) holdsD(2) [OF assms(2)] holdsD(2) [OF assms(3)] holdsD(4) [OF assms(2)]
      holdsD(4) [OF assms(3)] holdsD(5) [OF assms(2)] holdsD(5) [OF assms(3)]]
  by (simp only: cmp_slot [OF assms(1) holdsD(1) [OF assms(2)] holdsD(1) [OF assms(3)]])

lemma coord_slots_holds:
  assumes "gfp_valid g" "ec_point_is_compat (heap s r) g"
  shows "EC_POINT_get_affine_coordinates g r wx wy ctx s =
      ossl_ec_GFp_simple_point_get_affine_coordinates g r wx wy ctx s"
    "EC_POINT_make_affine g r ctx s = ossl_ec_GFp_simple_make_affine g r ctx s"
  using gfp.coord_slots [OF assms] by blast+

lemma public_check_quick_holds:
  assumes v: "gfp_valid g" and k: "k_group key = Some g" "pub_key key = Some a" and h: "holds g s a P"
    and av: "rng_avail g (Suc n) (rng s)"
  shows "if P \<noteq> Inf \<and> gon g P then
      returns (ossl_ec_key_public_check_quick (Some key) True s) (\<lambda>s'. heap s' = heap s \<and> rng_avail g n (rng s'))
    else ossl_ec_key_public_check_quick (Some key) True s = None"
proof (cases P)
  case Inf
  then show ?thesis using holds_infinity [OF v h] k by (simp add: ossl_ec_key_public_check_quick_def)
next
  case (Aff x y)
  have fin: "\<not> EC_POINT_is_at_infinity g (heap s a)" using holds_infinity [OF v h] Aff by simp
  have ft: "slot (g_meth g) ''field_type'' = ''NID_X9_62_prime_field''" using gfp.meth_law [OF v] by auto
  have h': "holds g s a (Aff x y)" using h Aff by simp
  have rd: "0 \<le> x" "x < g_field g" "0 \<le> y" "y < g_field g"
    using holdsD(5) [OF h'] by (auto simp: jac_rep_def red_def)
  obtain s1 where s1: "EC_POINT_get_affine_coordinates g a True True True s = Some ((Some x, Some y), s1)"
    "heap s1 = heap s" "rng_avail g n (rng s1)"
    using gfp.get_affine_ret [OF v holdsD(2,4,5) [OF h'] av, of True True]
    by (auto simp: returns_ex coord_slots_holds [OF v holdsD(2) [OF h']])
  have "EC_POINT_is_on_curve g (heap s a) True = (if gon g P then 1 else 0)"
    using gfp.is_on_curve_correct [OF v holdsD(2,4,5) [OF h]] holdsD(1) [OF h]
    by (simp add: is_on_curve_slot [OF v] curve_A_def curve_B_def)
  then show ?thesis
    using s1 rd fin k ft Aff by (simp add: ossl_ec_key_public_check_quick_def ec_key_public_range_check_def)
qed

text \<open>Full validation: the quick check, and the order annihilates the point.\<close>

lemma public_check_holds:
  assumes "curve_ok g" "k_group key = Some g" "pub_key key = Some a" "holds g s a P" "b \<noteq> a"
    "{a, b} \<inter> set fresh = {}" "distinct fresh" "wnaf_room [(g_order g, a)] \<le> length fresh"
    "rng_avail g (Suc (Suc n)) (rng s)"
  shows "if P \<noteq> Inf \<and> gon g P \<and> g_order g \<noteq> 0 \<and> gmul g (g_order g) P = Inf then
      returns (ossl_ec_key_public_check (Some key) (Some b) fresh True s) (\<lambda>s'.
        same_but (insert b (set fresh)) s s' \<and> rng_avail g (n - 1) (rng s'))
    else ossl_ec_key_public_check (Some key) (Some b) fresh True s = None"
proof -
  note v = curve_valid [OF assms(1)]
  note quick = public_check_quick_holds [OF v assms(2,3,4,9)]
  show ?thesis
  proof (cases "P \<noteq> Inf \<and> gon g P")
    case False
    then have "ossl_ec_key_public_check_quick (Some key) True s = None" using quick by auto
    then show ?thesis using False by (auto simp: ossl_ec_key_public_check_def)
  next
    case True
    then obtain s1 where s1: "ossl_ec_key_public_check_quick (Some key) True s = Some s1" "heap s1 = heap s"
      "rng_avail g (Suc n) (rng s1)" using quick by (auto simp: returns_ex)
    obtain s2 where s2: "EC_POINT_new g (Some b) s1 = Some (b, s2)" "\<forall>c. c \<noteq> b \<longrightarrow> heap s2 c = heap s1 c" "holds g s2 b Inf"
      using new_holds [OF v, of b s1] by (auto simp: returns_ex)
    have h2: "holds g s2 a P" using assms(4,5) s1(2) s2(2) by (simp add: holds_def)
    have av2: "rng_avail g (Suc n) (rng s2)" using s1(3) new_rng [OF s2(1)] by simp
    have m: "mul_summands g None [(GroupOrder, a)] = [(g_order g, a)]" by (simp add: mul_summands_def)
    have "returns (ossl_ec_wNAF_mul g b None [(GroupOrder, a)] fresh True s2) (\<lambda>s'. holds g s' b (gmul g (g_order g) P) \<and>
        rng_avail g (n - 1) (rng s') \<and> (\<forall>c. c \<noteq> b \<and> c \<notin> set fresh \<longrightarrow> heap s' c = heap s2 c))"
      using wNAF_mul_rng [OF assms(1), of None "[(GroupOrder, a)]" "\<lambda>_. P" s2 fresh b Inf n] True h2 s2(3) av2 assms(6-8)
      by (auto simp: m to_ladder_def returns_ex)
    moreover have "EC_POINT_mul g b None (Some a) (Some GroupOrder) fresh True s2 =
        ossl_ec_wNAF_mul g b None [(GroupOrder, a)] fresh True s2"
      using holdsD(2) [OF h2] holdsD(2) [OF s2(3)] mul_slot [OF v] by (simp add: EC_POINT_mul_def)
    ultimately obtain s3 where s3: "EC_POINT_mul g b None (Some a) (Some GroupOrder) fresh True s2 = Some s3"
      "holds g s3 b (gmul g (g_order g) P)" "rng_avail g (n - 1) (rng s3)"
      "\<forall>c. c \<noteq> b \<and> c \<notin> set fresh \<longrightarrow> heap s3 c = heap s2 c" by (auto simp: returns_ex)
    have sb: "same_but (insert b (set fresh)) s s3" using s1(2) s2(2) s3(4) by (simp add: same_but_def)
    show ?thesis
      using True s1(1) s2(1) s3(1,3) sb holds_infinity [OF v s3(2)] assms(2,3)
      by (simp add: ossl_ec_key_public_check_def)
  qed
qed

section \<open>The pair\<close>

lemma pairwise_check_holds:
  assumes d: "dsa_group g gen G" and k: "k_group key = Some g" "pub_key key = Some a" "priv_key key = Some d"
    and h: "holds g s a P" "holds g s gen G" and new: "distinct [gen, b, m, n]" "a \<notin> {b, m, n}"
    and av: "rng_avail g 4 (rng s)"
  shows "ossl_ec_key_pairwise_check (Some key) (Some b) [m, n] True s \<noteq> None \<longleftrightarrow> P = gmul g d G"
proof -
  have v: "gfp_valid g" using d by (simp add: dsa_group_def curve_valid)
  obtain s1 where s1: "EC_POINT_new g (Some b) s = Some (b, s1)" "\<forall>c. c \<noteq> b \<longrightarrow> heap s1 c = heap s c" "holds g s1 b Inf"
    using new_holds [OF v, of b s] by (auto simp: returns_ex)
  have h1: "holds g s1 a P" "holds g s1 gen G" using h new s1(2) by (auto simp: holds_def)
  have av1: "rng_avail g (Suc (Suc (Suc (Suc 0)))) (rng s1)" using av new_rng [OF s1(1)] by (simp add: numeral_eq_Suc)
  obtain s2 where s2: "EC_POINT_mul g b (Some (Bn d)) None None [m, n] True s1 = Some s2"
    "holds g s2 b (gmul g d G)" "same_but {b, m, n} s1 s2"
    using nonce_mul [OF d h1(2) s1(3) new(1) av1, of d] by blast
  have "holds g s2 a P" by (rule same_but_holds [OF s2(3) h1(1) new(2)])
  from cmp_holds [OF v s2(2) this] show ?thesis
    using s1(1) s2(1) k by (auto simp: ossl_ec_key_pairwise_check_def)
qed

section \<open>The whole key\<close>

lemma check_key_holds:
  assumes d: "dsa_group g gen G" and k: "k_group key = Some g" "pub_key key = Some a"
    and h: "holds g s a P" "holds g s gen G" and new: "b \<noteq> a" "b \<noteq> gen" "{a, b, gen} \<inter> set fresh = {}" "distinct fresh"
    and room: "wnaf_room [(g_order g, a)] \<le> length fresh"
    and new2: "distinct [gen, c, m, n]" "a \<notin> {c, m, n}" and av: "rng_avail g 7 (rng s)"
  shows "ossl_ec_key_simple_check_key (Some key) (Some b) fresh (Some c) [m, n] True s \<noteq> None \<longleftrightarrow>
    P \<noteq> Inf \<and> gon g P \<and> gmul g (g_order g) P = Inf \<and>
    (case priv_key key of None \<Rightarrow> True | Some d \<Rightarrow> 1 \<le> d \<and> d < g_order g \<and> P = gmul g d G)"
proof -
  have D: "curve_ok g" "g_order g \<noteq> 0" using d by (auto simp: dsa_group_def)
  have av7: "rng_avail g (Suc (Suc 5)) (rng s)" using av by (simp add: numeral_eq_Suc)
  note pub = public_check_holds [OF D(1) k h(1) new(1) _ new(4) room av7]
  show ?thesis
  proof (cases "P \<noteq> Inf \<and> gon g P \<and> gmul g (g_order g) P = Inf")
    case False
    then have "ossl_ec_key_public_check (Some key) (Some b) fresh True s = None"
      using pub new(3) D(2) by (auto split: if_splits)
    then show ?thesis using False by (auto simp: ossl_ec_key_simple_check_key_def)
  next
    case True
    then obtain s1 where s1: "ossl_ec_key_public_check (Some key) (Some b) fresh True s = Some s1"
      "same_but (insert b (set fresh)) s s1" "rng_avail g 4 (rng s1)"
      using pub new(3) D(2) by (auto simp: returns_ex)
    have h1: "holds g s1 a P" "holds g s1 gen G"
      by (rule same_but_holds [OF s1(2) h(1)], use new in auto) (rule same_but_holds [OF s1(2) h(2)], use new in auto)
    have "ossl_ec_key_pairwise_check (Some key) (Some c) [m, n] True s1 \<noteq> None \<longleftrightarrow> P = gmul g e G"
      if "priv_key key = Some e" for e
      using pairwise_check_holds [OF d k that h1 new2 s1(3)] .
    then show ?thesis using True s1(1) k
      by (auto simp: ossl_ec_key_simple_check_key_def ossl_ec_key_private_check_def split: option.splits)
  qed
qed

end
