(* ===== verification/Ec_Ecdh_Correct.thy ===== *)
theory Ec_Ecdh_Correct
  imports Ec_Ecdh Ec_Key_Correct
begin

unbundle bit_operations_syntax

text \<open>
  Key pairs and the key agreement are correct: the scalars drawn are in range, a generated key passes the
  check of a whole key, the check accepts exactly the keys of the order's subgroup with a matching scalar,
  and the agreed secret is the abscissa of the product of the scalars and the generator, as the bytes of a field
  element.
\<close>

section \<open>Random numbers\<close>

lemma mask_top_byte:
  fixes b :: "8 word"
  assumes "t < 8"
  shows "uint (b AND NOT (push_bit (t + 1) 0xff)) < 2 ^ (t + 1)"
proof -
  have "b AND NOT (push_bit (t + 1) 0xff) \<le> NOT (push_bit (t + 1) 0xff)" by (rule word_and_le1)
  moreover have "t = 0 \<or> t = 1 \<or> t = 2 \<or> t = 3 \<or> t = 4 \<or> t = 5 \<or> t = 6 \<or> t = 7" using assms by linarith
  then have "uint (NOT (push_bit (t + 1) 0xff :: 8 word)) < 2 ^ (t + 1)" by (elim disjE) simp_all
  ultimately show ?thesis unfolding word_le_def by (rule le_less_trans)
qed

lemma bnrand_bounds:
  assumes "bnrand bits rand = Some (r, rand')"
  shows "0 \<le> r" "r < 2 ^ bits" "length rand = length rand' + (bits + 7) div 8"
proof -
  have "0 \<le> r \<and> r < 2 ^ bits \<and> length rand = length rand' + (bits + 7) div 8"
  proof (cases "bits = 0")
    case True
    with assms show ?thesis by (simp add: bnrand_def)
  next
    case False
    define n where "n = (bits - 1) div 8"
    define t where "t = (bits - Suc 0) mod 8"
    have e: "(bits + 7) div 8 = Suc n" "bits = 8 * n + (t + 1)" "t < 8"
      using False by (auto simp: n_def t_def)
    define h where "h = hd (take (Suc n) rand) AND NOT (push_bit (t + 1) 0xff)"
    define s where "s = tl (take (Suc n) rand)"
    have r: "r = BN_bin2bn (h # s)" "rand' = drop (Suc n) rand" "\<not> length rand < Suc n"
      using assms False by (auto simp: bnrand_def Let_def e(1) t_def [symmetric] h_def s_def split: if_splits)
    have s: "length s = n" using r(3) by (simp add: s_def)
    have "uint h < 2 ^ (t + 1)" unfolding h_def by (rule mask_top_byte [OF e(3)])
    then have "uint h \<le> 2 ^ (t + 1) - 1" by simp
    then have "uint h * 256 ^ n \<le> (2 ^ (t + 1) - 1) * 256 ^ n" by (rule mult_right_mono) simp
    moreover have "(2 :: int) ^ bits = 2 ^ (t + 1) * 256 ^ n" unfolding e(2) power_add by (simp add: power_mult)
    ultimately have "r < 2 ^ bits" "0 \<le> r"
      using BN_bin2bn_bounds [of s] s by (auto simp: r(1) BN_bin2bn_Cons left_diff_distrib)
    then show ?thesis using r e(1) by simp
  qed
  then show "0 \<le> r" "r < 2 ^ bits" "length rand = length rand' + (bits + 7) div 8" by simp_all
qed

lemma bnrand_loop_bounds:
  assumes "bnrand_loop count three n bound rand = Some (r, rand')" "0 < n"
  shows "0 \<le> r \<and> r < bound \<and> length rand' < length rand"
  using assms
proof (induction count arbitrary: rand)
  case (Suc count)
  from Suc.prems(1) obtain v rand1 where d: "bnrand (if three then n + 1 else n) rand = Some (v, rand1)"
    by (auto split: Option.bind_splits)
  define w where "w = (if three \<and> v \<ge> bound then (if v - bound \<ge> bound then v - bound - bound else v - bound) else v)"
  have l: "length rand1 < length rand" "0 \<le> v" using bnrand_bounds [OF d] Suc.prems(2) by auto
  then have w: "w < bound \<Longrightarrow> 0 \<le> w" by (auto simp: w_def split: if_splits)
  have run: "bnrand_loop (Suc count) three n bound rand =
      (if count = 0 then None else if w \<ge> bound then bnrand_loop count three n bound rand1 else Some (w, rand1))"
    using d by (simp add: w_def Let_def)
  show ?case
  proof (cases "w \<ge> bound")
    case True
    then have "bnrand_loop count three n bound rand1 = Some (r, rand')" using Suc.prems(1) unfolding run by (simp split: if_splits)
    from Suc.IH [OF this Suc.prems(2)] l(1) show ?thesis by simp
  next
    case False
    then have "r = w" "rand' = rand1" using Suc.prems(1) unfolding run by (simp_all split: if_splits)
    with False w l show ?thesis by simp
  qed
qed simp

lemma bnrand_range_bounds:
  assumes "bnrand_range bound rand = Some (r, rand')"
  shows "0 \<le> r" "r < bound" "1 < bound \<Longrightarrow> length rand' < length rand"
proof -
  have p: "0 < bound" using assms by (auto simp: bnrand_range_def split: if_splits)
  have "nat_bits (nat bound) \<noteq> 0" using p by (simp add: nat_bits.simps)
  then have n: "0 < z_num_bits bound" using p by (simp add: z_num_bits_def)
  have b: "bound < 2 ^ z_num_bits bound" using p nat_bits_bounds(1) [of "nat bound"]
    by (simp add: z_num_bits_def nat_less_iff)
  have "0 \<le> r \<and> r < bound \<and> (1 < bound \<longrightarrow> length rand' < length rand)"
  proof (cases "z_num_bits bound = 1")
    case True
    then have "bound = 1" using b p by simp
    with True assms show ?thesis by (simp add: bnrand_range_def)
  next
    case False
    with assms p obtain three where "bnrand_loop 100 three (z_num_bits bound) bound rand = Some (r, rand')"
      by (auto simp: bnrand_range_def Let_def)
    from bnrand_loop_bounds [OF this n] show ?thesis by simp
  qed
  then show "0 \<le> r" "r < bound" "1 < bound \<Longrightarrow> length rand' < length rand" by simp_all
qed

lemma priv_loop_bounds:
  "priv_loop n bound rand = Some (k, rand') \<Longrightarrow> 0 < k \<and> k < bound"
proof (induction n arbitrary: rand)
  case (Suc n)
  from Suc.prems obtain v rand1 where d: "bnrand_range bound rand = Some (v, rand1)"
    by (auto simp: BN_priv_rand_range_ex_def split: Option.bind_splits)
  from bnrand_range_bounds(1,2) [OF d] Suc d show ?case
    by (cases "v = 0") (auto simp: BN_priv_rand_range_ex_def)
qed simp

text \<open>More rounds than bytes change nothing.\<close>

lemma priv_loop_fuel:
  assumes "1 < bound" "length rand < m" "length rand < n"
  shows "priv_loop m bound rand = priv_loop n bound rand"
  using assms
proof (induction m arbitrary: n rand)
  case (Suc m)
  then obtain n' where n: "n = Suc n'" by (cases n) auto
  have "priv_loop m bound rand' = priv_loop n' bound rand'" if "bnrand_range bound rand = Some (0, rand')" for rand'
    using bnrand_range_bounds(3) [OF that Suc.prems(1)] Suc.prems n by (intro Suc.IH) auto
  then show ?case unfolding n by (auto simp: BN_priv_rand_range_ex_def split: Option.bind_splits)
qed simp

section \<open>Generating a key\<close>

text \<open>The range of the private scalar, and the point the key has or gets.\<close>

definition gen_range :: "ec_group \<Rightarrow> ec_key \<Rightarrow> int" where
  "gen_range g key = (if EC_KEY_get_flags key AND EC_FLAG_SM2_RANGE \<noteq> 0 then g_order g - 1 else g_order g)"

definition gen_point :: "ec_key \<Rightarrow> nat \<Rightarrow> nat" where
  "gen_point key b = (case pub_key key of None \<Rightarrow> b | Some a \<Rightarrow> a)"

lemma key_slot_names:
  "slot M_GFp_simple ''keygen'' = ''ossl_ec_key_simple_generate_key''"
  "slot M_GFp_mont ''keygen'' = ''ossl_ec_key_simple_generate_key''"
  "slot M_GFp_simple ''keycheck'' = ''ossl_ec_key_simple_check_key''"
  "slot M_GFp_mont ''keycheck'' = ''ossl_ec_key_simple_check_key''"
  "slot M_GFp_simple ''ecdh_compute_key'' = ''ossl_ecdh_simple_compute_key''"
  "slot M_GFp_mont ''ecdh_compute_key'' = ''ossl_ecdh_simple_compute_key''"
  by code_simp+

lemma key_slots:
  assumes "gfp_valid g"
  shows "slot (g_meth g) ''keygen'' = ''ossl_ec_key_simple_generate_key''"
    "slot (g_meth g) ''keycheck'' = ''ossl_ec_key_simple_check_key''"
    "slot (g_meth g) ''ecdh_compute_key'' = ''ossl_ecdh_simple_compute_key''"
  using gfp.meth_law [OF assms] by (auto simp: key_slot_names)

lemma generate_fails:
  assumes "gfp_valid g" "k_group key = Some g" "priv_loop (length rand + 1) (gen_range g key) rand = None"
  shows "EC_KEY_generate_key (Some key) point fresh True rand st =
    Some (key_gen_err g key [if priv_key key = None then New_priv else Key_priv] rand st)"
  using assms(2,3) key_slots(1) [OF assms(1)]
  by (auto simp: EC_KEY_generate_key_def ossl_ec_key_gen_def ossl_ec_key_simple_generate_key_def ec_generate_key_def
      gen_range_def key_dirty_def key_gen_err_def Let_def)

lemma generate_holds:
  assumes d: "dsa_group g gen G" and k: "k_group key = Some g" and h: "holds g st gen G"
    and q: "\<forall>a. pub_key key = Some a \<longrightarrow> holds g st a Q"
    and new: "distinct [gen, gen_point key b, p, s]" and av: "rng_avail g (4 + m) (rng st)"
    and draw: "priv_loop (length rand + 1) (gen_range g key) rand = Some (e, rand')"
  shows "returns (EC_KEY_generate_key (Some key) (Some b) [p, s] True rand st) (\<lambda>r. gen_ok r \<and>
    gen_key r = key\<lparr>priv_key := Some e, pub_key := Some (gen_point key b), dirty_cnt := dirty_cnt key + 3\<rparr> \<and>
    gen_freed r = [] \<and> gen_rand r = rand' \<and> holds g (gen_state r) (gen_point key b) (gmul g e G) \<and>
    same_but {gen_point key b, p, s} st (gen_state r) \<and> rng_avail g m (rng (gen_state r)))"
proof -
  let ?a = "gen_point key b"
  have v: "gfp_valid g" using d by (simp add: dsa_group_def curve_valid)
  have "\<exists>s1 R. (case pub_key key of None \<Rightarrow> EC_POINT_new g (Some b) st | Some a \<Rightarrow> Some (a, st)) = Some (?a, s1) \<and>
      same_but {?a, p, s} st s1 \<and> holds g s1 ?a R \<and> rng s1 = rng st"
  proof (cases "pub_key key")
    case None
    then show ?thesis using new_holds [OF v, of b st] new_rng [of g "Some b" st]
      by (auto simp: gen_point_def returns_ex same_but_def)
  next
    case (Some a)
    then show ?thesis using q by (auto simp: gen_point_def same_but_def)
  qed
  then obtain s1 R where s1: "(case pub_key key of None \<Rightarrow> EC_POINT_new g (Some b) st | Some a \<Rightarrow> Some (a, st)) = Some (?a, s1)"
    "same_but {?a, p, s} st s1" "holds g s1 ?a R" "rng s1 = rng st" by blast
  have h1: "holds g s1 gen G" by (rule same_but_holds [OF s1(2) h]) (use new in auto)
  have av1: "rng_avail g (Suc (Suc (Suc (Suc m)))) (rng s1)" using av s1(4) by (simp add: numeral_eq_Suc)
  obtain s2 where s2: "EC_POINT_mul g ?a (Some (Bn e)) None None [p, s] True s1 = Some s2"
    "holds g s2 ?a (gmul g e G)" "same_but {?a, p, s} s1 s2" "rng_avail g m (rng s2)"
    using nonce_mul [OF d h1 s1(3) new av1, of e] by blast
  show ?thesis
    using k key_slots(1) [OF v] draw s1(1) s2 same_but_trans [OF s1(2) s2(3)]
    by (simp add: EC_KEY_generate_key_def ossl_ec_key_gen_def ossl_ec_key_simple_generate_key_def ec_generate_key_def
        gen_range_def [symmetric] key_dirty_def)
qed

text \<open>A scalar in range gives a point of the subgroup other than infinity.\<close>

lemma public_point:
  assumes d: "dsa_group g gen G" and e: "0 < e" "e < g_order g"
  shows "gmul g e G \<noteq> Inf" "gon g (gmul g e G)" "gmul g (g_order g) (gmul g e G) = Inf"
proof -
  have D: "curve_ok g" "gon g G" "gmul g (g_order g) G = Inf" using d by (simp_all add: dsa_group_def)
  show "gmul g e G \<noteq> Inf" by (rule gmul_not_Inf [OF d e])
  show "gon g (gmul g e G)" by (rule gon_mul [OF D(1,2)])
  have "gmul g (g_order g) (gmul g e G) = gmul g e (gmul g (g_order g) G)"
    by (simp add: gmul_gmul [OF D(1,2)] mult.commute)
  then show "gmul g (g_order g) (gmul g e G) = Inf" using D(3) gmul_gmul [OF D(1,2), of e "g_order g"] gmul_gmul [OF D(1,2), of 0 "g_order g"] by simp
qed

section \<open>Bytes\<close>

lemma bytes_of:
  "BN_bin2bn (map (\<lambda>j. word_of_int (x div 256 ^ j)) (rev [0..<n])) = x mod 256 ^ n"
proof (induction n)
  case (Suc n)
  have "x mod (256 ^ n * 256) = 256 ^ n * (x div 256 ^ n mod 256) + x mod 256 ^ n" by (rule zmod_zmult2_eq) simp
  with Suc show ?case by (simp add: BN_bin2bn_Cons uint_word_of_int mult.commute)
qed (simp add: BN_bin2bn_def)

lemma BN_bn2bin_value:
  assumes "0 \<le> x"
  shows "BN_bin2bn (BN_bn2bin x) = x" "length (BN_bn2bin x) = BN_num_bytes x"
proof -
  have "x < 2 ^ z_num_bits x" using assms nat_bits_bounds(1) [of "nat x"] by (simp add: z_num_bits_def nat_less_iff)
  also have "(2 :: int) ^ z_num_bits x \<le> 2 ^ (8 * BN_num_bytes x)" by (intro power_increasing) (simp_all add: BN_num_bytes_def)
  also have "\<dots> = 256 ^ BN_num_bytes x" by (simp add: power_mult)
  finally show "BN_bin2bn (BN_bn2bin x) = x" using assms by (simp add: BN_bn2bin_def bytes_of)
qed (simp add: BN_bn2bin_def)

lemma BN_bin2bn_zeros: "BN_bin2bn (replicate n 0 @ s) = BN_bin2bn s"
  by (induction n) (simp_all add: BN_bin2bn_Cons)

text \<open>A field element as bytes.\<close>

definition field_bytes :: "ec_group \<Rightarrow> int \<Rightarrow> 8 word list" where
  "field_bytes g x = replicate ((z_num_bits (g_field g) + 7) div 8 - BN_num_bytes x) 0 @ BN_bn2bin x"

lemma field_bytes:
  assumes "0 \<le> x" "x < g_field g"
  shows "BN_num_bytes x \<le> (z_num_bits (g_field g) + 7) div 8" "BN_bin2bn (field_bytes g x) = x"
    "length (field_bytes g x) = (z_num_bits (g_field g) + 7) div 8"
proof -
  have "nat_bits (nat x) \<le> nat_bits (nat (g_field g))"
    using assms nat_bits_bounds(1) [of "nat (g_field g)"] by (simp add: nat_bits_le_iff)
  then show le: "BN_num_bytes x \<le> (z_num_bits (g_field g) + 7) div 8"
    using assms unfolding BN_num_bytes_def z_num_bits_def by (intro div_le_mono) simp
  show "BN_bin2bn (field_bytes g x) = x" "length (field_bytes g x) = (z_num_bits (g_field g) + 7) div 8"
    using le BN_bn2bin_value [OF assms(1)] by (simp_all add: field_bytes_def BN_bin2bn_zeros)
qed

section \<open>The secret\<close>

text \<open>The scalar of the agreement: with the flag, the cofactor times the private scalar.\<close>

definition ecdh_scalar :: "ec_group \<Rightarrow> ec_key \<Rightarrow> int \<Rightarrow> int" where
  "ecdh_scalar g key d = (if EC_KEY_get_flags key AND EC_FLAG_COFACTOR_ECDH \<noteq> 0 then g_cofactor g * d else d)"

definition ecdh_group :: "ec_group \<Rightarrow> bool" where
  "ecdh_group g \<longleftrightarrow> curve_ok g \<and> g_order g \<noteq> 0 \<and> g_cofactor g \<noteq> 0 \<and> 0 < g_order g * g_cofactor g"

lemma point_mul_holds:
  assumes g: "ecdh_group g" and h: "holds g st a Q" "holds g st tmp R" and q: "gon g Q" "gmul g (g_order g * g_cofactor g) Q = Inf"
    and new: "distinct [a, tmp, p, s]" and av: "rng_avail g (Suc (Suc (Suc (Suc m)))) (rng st)"
  shows "\<exists>st'. EC_POINT_mul g tmp None (Some a) (Some (Bn k)) [p, s] True st = Some st' \<and>
    holds g st' tmp (gmul g k Q) \<and> same_but {tmp, p, s} st st' \<and> rng_avail g m (rng st')"
proof -
  have G: "curve_ok g" "g_order g \<noteq> 0" "g_cofactor g \<noteq> 0" "0 < g_order g * g_cofactor g"
    using g by (simp_all add: ecdh_group_def)
  have "EC_POINT_mul g tmp None (Some a) (Some (Bn k)) [p, s] True st =
      ossl_ec_scalar_mul_ladder g tmp k (Some a) (Some p) (Some s) True st"
    using G(2,3) holdsD(2) [OF h(1)] holdsD(2) [OF h(2)] mul_slot [OF curve_valid [OF G(1)]]
    by (simp add: EC_POINT_mul_def ossl_ec_wNAF_mul_def alloc_at_def Let_def)
  moreover have "returns (ossl_ec_scalar_mul_ladder g tmp k (Some a) (Some p) (Some s) True st) (\<lambda>st'.
      holds g st' tmp (gmul g k Q) \<and> (\<forall>b. b \<noteq> tmp \<and> b \<noteq> p \<and> b \<noteq> s \<longrightarrow> heap st' b = heap st b) \<and> rng_avail g m (rng st'))"
    by (rule scalar_mul_ladder_rng [OF G(1) q(1) G(2-4) q(2) _ h _ _ _ _ _ _ av]) (use new in auto)
  ultimately show ?thesis by (auto simp: returns_ex same_but_def)
qed

lemma degree_bits: "gfp_valid g \<Longrightarrow> EC_GROUP_get_degree g = z_num_bits (g_field g)"
  using gfp.meth_law [of g] by (auto simp: EC_GROUP_get_degree_def ossl_ec_GFp_simple_group_get_degree_def)

lemma ecdh_holds:
  assumes g: "ecdh_group g" and k: "k_group key = Some g" "priv_key key = Some d"
    and h: "holds g st a Q" and q: "gon g Q" "gmul g (g_order g * g_cofactor g) Q = Inf"
    and new: "distinct [a, tmp, p, s]" and av: "rng_avail g (5 + m) (rng st)"
  shows "case gmul g (ecdh_scalar g key d) Q of
      Inf \<Rightarrow> ossl_ecdh_compute_key (Some a) key (Some tmp) [p, s] True st = None
    | Aff x y \<Rightarrow> returns (ossl_ecdh_compute_key (Some a) key (Some tmp) [p, s] True st) (\<lambda>(out, st').
        out = field_bytes g x \<and> same_but {tmp, p, s} st st' \<and> rng_avail g m (rng st')) \<and> 0 \<le> x \<and> x < g_field g"
proof -
  let ?e = "ecdh_scalar g key d"
  have v: "gfp_valid g" and c: "g_cofactor g \<noteq> 0" using g by (simp_all add: ecdh_group_def curve_valid)
  obtain s1 where s1: "EC_POINT_new g (Some tmp) st = Some (tmp, s1)" "\<forall>b. b \<noteq> tmp \<longrightarrow> heap s1 b = heap st b" "holds g s1 tmp Inf"
    using new_holds [OF v, of tmp st] by (auto simp: returns_ex)
  have h1: "holds g s1 a Q" using h s1(2) new by (simp add: holds_def)
  have av1: "rng_avail g (Suc (Suc (Suc (Suc (Suc m))))) (rng s1)" using av new_rng [OF s1(1)] by (simp add: numeral_eq_Suc)
  obtain s2 where s2: "EC_POINT_mul g tmp None (Some a) (Some (Bn ?e)) [p, s] True s1 = Some s2"
    "holds g s2 tmp (gmul g ?e Q)" "same_but {tmp, p, s} s1 s2" "rng_avail g (Suc m) (rng s2)"
    using point_mul_holds [OF g h1 s1(3) q new av1, of ?e] by blast
  have run: "ossl_ecdh_compute_key (Some a) key (Some tmp) [p, s] True st = do {
      (xy, st') \<leftarrow> EC_POINT_get_affine_coordinates g tmp True False True s2;
      x \<leftarrow> fst xy;
      if BN_num_bytes x > (z_num_bits (g_field g) + 7) div 8 then None else Some (field_bytes g x, st')}"
    using k key_slots(3) [OF v] c s1(1) s2(1) degree_bits [OF v]
    by (simp add: ossl_ecdh_compute_key_def ossl_ecdh_simple_compute_key_def ecdh_scalar_def EC_GROUP_get_cofactor_def
        field_bytes_def Let_def split: if_splits cong: if_cong)
  show ?thesis
  proof (cases "gmul g ?e Q")
    case Inf
    then have "EC_POINT_get_affine_coordinates g tmp True False True s2 = None"
      using holds_infinity [OF v s2(2)] by (simp add: EC_POINT_get_affine_coordinates_def Let_def)
    then show ?thesis using run Inf by simp
  next
    case (Aff x y)
    have x: "0 \<le> x" "x < g_field g" using holdsD(5) [OF s2(2)] Aff by (auto simp: jac_rep_def red_def)
    obtain s3 where s3: "EC_POINT_get_affine_coordinates g tmp True False True s2 = Some ((Some x, None), s3)"
      "heap s3 = heap s2" "rng_avail g m (rng s3)"
      using get_affine_x [OF v s2(2) _ s2(4)] Aff by (auto simp: ap_x_def)
    have "same_but {tmp, p, s} st s3" using s1(2) s2(3) s3(2) by (simp add: same_but_def)
    then show ?thesis using run s3 x field_bytes(1) [OF x] Aff by simp
  qed
qed

text \<open>What the caller gets: derived from the secret, or a prefix of it.\<close>

definition ecdh_out :: "(8 word list \<Rightarrow> nat \<Rightarrow> 8 word list) option \<Rightarrow> nat \<Rightarrow> 8 word list \<Rightarrow> 8 word list" where
  "ecdh_out KDF outlen sec = (case KDF of None \<Rightarrow> take outlen sec | Some f \<Rightarrow> f sec outlen)"

lemma ECDH_holds:
  assumes g: "ecdh_group g" and k: "k_group key = Some g" "priv_key key = Some d"
    and h: "holds g st a Q" and q: "gon g Q" "gmul g (g_order g * g_cofactor g) Q = Inf"
    and new: "distinct [a, tmp, p, s]" and av: "rng_avail g (5 + m) (rng st)" and len: "outlen \<le> 2 ^ 31 - 1"
    and fin: "gmul g (ecdh_scalar g key d) Q \<noteq> Inf"
  shows "returns (ECDH_compute_key outlen (Some a) key KDF (Some tmp) [p, s] True st) (\<lambda>(out, st').
    out = ecdh_out KDF outlen (field_bytes g (ap_x (gmul g (ecdh_scalar g key d) Q))) \<and>
    same_but {tmp, p, s} st st' \<and> rng_avail g m (rng st'))"
proof -
  obtain x y where xy: "gmul g (ecdh_scalar g key d) Q = Aff x y" using fin by (cases "gmul g (ecdh_scalar g key d) Q") auto
  then have "returns (ossl_ecdh_compute_key (Some a) key (Some tmp) [p, s] True st) (\<lambda>(out, st').
      out = field_bytes g x \<and> same_but {tmp, p, s} st st' \<and> rng_avail g m (rng st'))"
    using ecdh_holds [OF g k h q new av] by simp
  then show ?thesis using len xy
    by (auto simp: returns_ex ECDH_compute_key_def ecdh_out_def ap_x_def split: option.splits)
qed

section \<open>The agreement\<close>

lemma subgroup_point:
  assumes d: "dsa_group g gen G"
  shows "ecdh_group g" "gon g (gmul g e G)" "gmul g (g_order g * g_cofactor g) (gmul g e G) = Inf"
proof -
  have D: "curve_ok g" "gon g G" "gmul g (g_order g) G = Inf" using d by (simp_all add: dsa_group_def)
  show "ecdh_group g" using d by (simp add: dsa_group_def ecdh_group_def)
  show "gon g (gmul g e G)" by (rule gon_mul [OF D(1,2)])
  have "gmul g (g_order g * g_cofactor g) (gmul g e G) = gmul g 0 G"
    unfolding gmul_gmul [OF D(1,2)] by (rule gmul_mod [OF D]) (simp add: mult.assoc)
  then show "gmul g (g_order g * g_cofactor g) (gmul g e G) = Inf" by simp
qed

text \<open>Both sides multiply the generator by the same number, which the order does not divide.\<close>

lemma secret_point:
  assumes d: "dsa_group g gen G" and e: "0 < da" "da < g_order g" "0 < db" "db < g_order g"
    and fl: "k_flags ka = k_flags kb"
    and co: "EC_KEY_get_flags ka AND EC_FLAG_COFACTOR_ECDH \<noteq> 0 \<longrightarrow> \<not> g_order g dvd g_cofactor g"
  shows "gmul g (ecdh_scalar g ka da) (gmul g db G) = gmul g (ecdh_scalar g kb db) (gmul g da G)"
    "gmul g (ecdh_scalar g ka da) (gmul g db G) \<noteq> Inf"
proof -
  let ?n = "g_order g" and ?w = "ecdh_scalar g ka da * db"
  have D: "curve_ok g" "gon g G" "gmul g ?n G = Inf" "prime_int ?n" "0 < ?n" using d by (simp_all add: dsa_group_def)
  have "?w = ecdh_scalar g kb db * da" using fl by (simp add: ecdh_scalar_def EC_KEY_get_flags_def)
  then show "gmul g (ecdh_scalar g ka da) (gmul g db G) = gmul g (ecdh_scalar g kb db) (gmul g da G)"
    by (simp add: gmul_gmul [OF D(1,2)])
  have "\<not> ?n dvd da" "\<not> ?n dvd db" using e by (auto dest: zdvd_imp_le)
  then have "\<not> ?n dvd ?w" using co by (simp add: ecdh_scalar_def prime_int_dvd_mult [OF D(4)])
  then have "0 < ?w mod ?n" "?w mod ?n < ?n" using D(5) pos_mod_bound [OF D(5), of ?w] pos_mod_sign [OF D(5), of ?w]
    by (auto simp: dvd_eq_mod_eq_0 order_less_le [of 0])
  then have "gmul g (?w mod ?n) G \<noteq> Inf" by (rule gmul_not_Inf [OF d])
  moreover have "gmul g (?w mod ?n) G = gmul g ?w G" by (rule gmul_mod [OF D(1-3)]) simp
  ultimately show "gmul g (ecdh_scalar g ka da) (gmul g db G) \<noteq> Inf" by (simp add: gmul_gmul [OF D(1,2)])
qed

text \<open>Two parties generate their keys, exchange the points and compute the secret, in one run.\<close>

definition key_exchange ::
  "ec_key \<Rightarrow> ec_key \<Rightarrow> nat \<Rightarrow> nat \<Rightarrow> nat \<Rightarrow> nat list \<Rightarrow> nat \<Rightarrow> (8 word list \<Rightarrow> nat \<Rightarrow> 8 word list) option \<Rightarrow> 8 word list \<Rightarrow>
    ec_state \<Rightarrow> (bool \<times> bool \<times> 8 word list \<times> 8 word list) option" where
  "key_exchange ka kb a b tmp fresh outlen KDF rand st = do {
     ra \<leftarrow> EC_KEY_generate_key (Some ka) (Some a) fresh True rand st;
     rb \<leftarrow> EC_KEY_generate_key (Some kb) (Some b) fresh True (gen_rand ra) (gen_state ra);
     pa \<leftarrow> pub_key (gen_key ra);
     pb \<leftarrow> pub_key (gen_key rb);
     (za, st) \<leftarrow> ECDH_compute_key outlen (Some pb) (gen_key ra) KDF (Some tmp) fresh True (gen_state rb);
     (zb, st) \<leftarrow> ECDH_compute_key outlen (Some pa) (gen_key rb) KDF (Some tmp) fresh True st;
     Some (gen_ok ra, gen_ok rb, za, zb)
   }"

lemma key_exchange_holds:
  assumes d: "dsa_group g gen G" and ka: "k_group ka = Some g" "pub_key ka = None"
    and kb: "k_group kb = Some g" "pub_key kb = None" and fl: "k_flags ka = k_flags kb"
    and co: "EC_KEY_get_flags ka AND EC_FLAG_COFACTOR_ECDH \<noteq> 0 \<longrightarrow> \<not> g_order g dvd g_cofactor g"
    and h: "holds g st gen G" and new: "distinct [gen, a, b, tmp, p, s]" and av: "rng_avail g 18 (rng st)"
    and da: "priv_loop (length rand + 1) (gen_range g ka) rand = Some (da, rand1)"
    and db: "priv_loop (length rand1 + 1) (gen_range g kb) rand1 = Some (db, rand2)"
    and len: "outlen \<le> 2 ^ 31 - 1"
  shows "key_exchange ka kb a b tmp [p, s] outlen KDF rand st = (let
    z = ecdh_out KDF outlen (field_bytes g (ap_x (gmul g (ecdh_scalar g ka da) (gmul g db G)))) in Some (True, True, z, z))"
proof -
  have r: "0 < da" "da < g_order g" "0 < db" "db < g_order g"
    using priv_loop_bounds [OF da] priv_loop_bounds [OF db] by (auto simp: gen_range_def split: if_splits)
  note sg = subgroup_point [OF d] and sec = secret_point [OF d r]
  have pa: "gen_point ka a = a" "gen_point kb b = b" using ka kb by (simp_all add: gen_point_def)
  have av0: "rng_avail g (4 + 14) (rng st)" using av by simp
  obtain ra where ra: "EC_KEY_generate_key (Some ka) (Some a) [p, s] True rand st = Some ra" "gen_ok ra"
    "gen_key ra = ka\<lparr>priv_key := Some da, pub_key := Some a, dirty_cnt := dirty_cnt ka + 3\<rparr>" "gen_rand ra = rand1"
    "holds g (gen_state ra) a (gmul g da G)" "same_but {a, p, s} st (gen_state ra)" "rng_avail g 14 (rng (gen_state ra))"
    using generate_holds [OF d ka(1) h _ _ av0 da, where b = a and p = p and s = s] new ka(2) pa by (auto simp: returns_ex)
  have h1: "holds g (gen_state ra) gen G" by (rule same_but_holds [OF ra(6) h]) (use new in auto)
  have av1: "rng_avail g (4 + 10) (rng (gen_state ra))" using ra(7) by simp
  obtain rb where rb: "EC_KEY_generate_key (Some kb) (Some b) [p, s] True rand1 (gen_state ra) = Some rb" "gen_ok rb"
    "gen_key rb = kb\<lparr>priv_key := Some db, pub_key := Some b, dirty_cnt := dirty_cnt kb + 3\<rparr>"
    "holds g (gen_state rb) b (gmul g db G)" "same_but {b, p, s} (gen_state ra) (gen_state rb)" "rng_avail g 10 (rng (gen_state rb))"
    using generate_holds [OF d kb(1) h1 _ _ av1 db, where b = b and p = p and s = s] new kb(2) pa by (auto simp: returns_ex)
  have h2: "holds g (gen_state rb) a (gmul g da G)" by (rule same_but_holds [OF rb(5) ra(5)]) (use new in auto)
  have fa: "ecdh_scalar g (gen_key ra) = ecdh_scalar g ka" "ecdh_scalar g (gen_key rb) = ecdh_scalar g kb"
    by (simp_all add: fun_eq_iff ecdh_scalar_def EC_KEY_get_flags_def ra(3) rb(3))
  have key: "k_group (gen_key ra) = Some g" "priv_key (gen_key ra) = Some da" "k_group (gen_key rb) = Some g" "priv_key (gen_key rb) = Some db"
    using ka(1) kb(1) by (simp_all add: ra(3) rb(3))
  have av2: "rng_avail g (5 + 5) (rng (gen_state rb))" using rb(6) by simp
  have fin: "gmul g (ecdh_scalar g (gen_key ra) da) (gmul g db G) \<noteq> Inf" "gmul g (ecdh_scalar g (gen_key rb) db) (gmul g da G) \<noteq> Inf"
    using sec [OF fl co] by (simp_all add: fa)
  obtain za s3 where za: "ECDH_compute_key outlen (Some b) (gen_key ra) KDF (Some tmp) [p, s] True (gen_state rb) = Some (za, s3)"
    "za = ecdh_out KDF outlen (field_bytes g (ap_x (gmul g (ecdh_scalar g ka da) (gmul g db G))))"
    "same_but {tmp, p, s} (gen_state rb) s3" "rng_avail g 5 (rng s3)"
    using ECDH_holds [OF sg(1) key(1,2) rb(4) sg(2,3) _ av2 len fin(1), of tmp p s KDF] new by (auto simp: returns_ex fa)
  have h3: "holds g s3 a (gmul g da G)" by (rule same_but_holds [OF za(3) h2]) (use new in auto)
  have av3: "rng_avail g (5 + 0) (rng s3)" using za(4) by simp
  obtain zb s4 where zb: "ECDH_compute_key outlen (Some a) (gen_key rb) KDF (Some tmp) [p, s] True s3 = Some (zb, s4)"
    "zb = ecdh_out KDF outlen (field_bytes g (ap_x (gmul g (ecdh_scalar g kb db) (gmul g da G))))"
    using ECDH_holds [OF sg(1) key(3,4) h3 sg(2,3) _ av3 len fin(2), of tmp p s KDF] new by (auto simp: returns_ex fa)
  show ?thesis
    using ra(1-4) rb(1-3) za(1,2) zb sec(1) [OF fl co] by (simp add: key_exchange_def Let_def)
qed

end
