(* ===== verification/Ec_Key_Set.thy ===== *)
theory Ec_Key_Set
  imports Ec_Der Ec_Ecdh_Correct Ec_Curve
begin

text \<open>
  Setting the parts of a key and the private scalar as bytes (\<open>ec_key.c\<close>), with the default key method, whose
  own hooks are null. A setter returns whether it succeeded and the key it leaves. \<open>point\<close> and \<open>dup\<close> are
  the addresses the allocator gives.
\<close>

section \<open>Setting the scalar and the point\<close>

definition EC_KEY_set_private_key :: "ec_key \<Rightarrow> int option \<Rightarrow> bool \<times> ec_key" where
  "EC_KEY_set_private_key key priv =
     (case k_group key of
        None \<Rightarrow> (False, key)
      | Some g \<Rightarrow>
          (if g_order g = 0 then (False, key)
           else if slot (g_meth g) ''set_private'' \<noteq> ''0'' then (False, key)
           else case priv of
               None \<Rightarrow> (False, key\<lparr>priv_key := None\<rparr>)
             | Some d \<Rightarrow> (True, key\<lparr>priv_key := Some d, dirty_cnt := dirty_cnt key + 1\<rparr>)))"

definition EC_KEY_set_public_key :: "ec_key \<Rightarrow> nat option \<Rightarrow> nat option \<Rightarrow> ec_state \<Rightarrow> bool \<times> ec_key \<times> ec_state" where
  "EC_KEY_set_public_key key pub dup st =
     (case (case k_group key of None \<Rightarrow> None | Some g \<Rightarrow> EC_POINT_dup pub g dup st) of
        None \<Rightarrow> (False, key\<lparr>pub_key := None, dirty_cnt := dirty_cnt key + 1\<rparr>, st)
      | Some (a, st) \<Rightarrow> (True, key\<lparr>pub_key := Some a, dirty_cnt := dirty_cnt key + 1\<rparr>, st))"

text \<open>The key is checked after its point is set, and keeps the point when the check fails.\<close>

definition EC_KEY_set_public_key_affine_coordinates ::
  "ec_key option \<Rightarrow> int option \<Rightarrow> int option \<Rightarrow> nat option \<Rightarrow> nat option \<Rightarrow> nat option \<Rightarrow> nat list \<Rightarrow> nat option \<Rightarrow> nat list \<Rightarrow> bool \<Rightarrow>
    ec_state \<Rightarrow> bool \<times> ec_key option \<times> ec_state" where
  "EC_KEY_set_public_key_affine_coordinates key x y point dup p1 fresh1 p2 fresh2 ctx st =
     (case do {
        k \<leftarrow> key;
        g \<leftarrow> k_group k;
        x \<leftarrow> x;
        y \<leftarrow> y;
        (if \<not> ctx then None
         else do {
           (point, st) \<leftarrow> EC_POINT_new g point st;
           st \<leftarrow> EC_POINT_set_affine_coordinates g point (Some x) (Some y) ctx st;
           (xy, st) \<leftarrow> EC_POINT_get_affine_coordinates g point True True ctx st;
           (case xy of
              (Some tx, Some ty) \<Rightarrow> if x \<noteq> tx \<or> y \<noteq> ty then None else Some (k, point, st)
            | _ \<Rightarrow> None)
         })
      } of
        None \<Rightarrow> (False, key, st)
      | Some (k, point, st) \<Rightarrow>
          (let (ok, k, st) = EC_KEY_set_public_key k (Some point) dup st in
           if \<not> ok then (False, Some k, st)
           else case EC_KEY_check_key (Some k) p1 fresh1 p2 fresh2 ctx st of
               None \<Rightarrow> (False, Some k, st)
             | Some st \<Rightarrow> (True, Some k, st)))"

section \<open>The private scalar as bytes\<close>

text \<open>Without a buffer only the length is given; else the length and the bytes. 0 is the error.\<close>

definition ossl_ec_key_simple_priv2oct :: "ec_key \<Rightarrow> nat option \<Rightarrow> nat \<times> 8 word list" where
  "ossl_ec_key_simple_priv2oct eckey len =
     (case k_group eckey of
        None \<Rightarrow> (0, [])
      | Some g \<Rightarrow>
          (let buf_len = (EC_GROUP_order_bits g + 7) div 8 in
           case priv_key eckey of
             None \<Rightarrow> (0, [])
           | Some d \<Rightarrow>
               (case len of
                  None \<Rightarrow> (buf_len, [])
                | Some len \<Rightarrow>
                    if len < buf_len then (0, [])
                    else case BN_bn2binpad d buf_len of None \<Rightarrow> (0, []) | Some buf \<Rightarrow> (buf_len, buf))))"

definition EC_KEY_priv2oct :: "ec_key \<Rightarrow> nat option \<Rightarrow> nat \<times> 8 word list" where
  "EC_KEY_priv2oct eckey len =
     (case k_group eckey of
        None \<Rightarrow> (0, [])
      | Some g \<Rightarrow>
          (if slot (g_meth g) ''priv2oct'' = ''ossl_ec_key_simple_priv2oct''
           then ossl_ec_key_simple_priv2oct eckey len else (0, [])))"

definition ossl_ec_key_simple_oct2priv :: "ec_key \<Rightarrow> 8 word list \<Rightarrow> bool \<times> ec_key" where
  "ossl_ec_key_simple_oct2priv eckey buf =
     (True, eckey\<lparr>priv_key := Some (BN_bin2bn buf), dirty_cnt := dirty_cnt eckey + 1\<rparr>)"

definition EC_KEY_oct2priv :: "ec_key \<Rightarrow> 8 word list \<Rightarrow> bool \<times> ec_key" where
  "EC_KEY_oct2priv eckey buf =
     (case k_group eckey of
        None \<Rightarrow> (False, eckey)
      | Some g \<Rightarrow>
          (if slot (g_meth g) ''oct2priv'' = ''ossl_ec_key_simple_oct2priv''
           then (let (ret, eckey) = ossl_ec_key_simple_oct2priv eckey buf in
                 (ret, if ret then eckey\<lparr>dirty_cnt := dirty_cnt eckey + 1\<rparr> else eckey))
           else (False, eckey)))"

definition EC_KEY_priv2buf :: "ec_key \<Rightarrow> (nat \<times> 8 word list) option" where
  "EC_KEY_priv2buf eckey =
     (let len = fst (EC_KEY_priv2oct eckey None) in
      if len = 0 then None
      else let (len, buf) = EC_KEY_priv2oct eckey (Some len) in
           if len = 0 then None else Some (len, buf))"

end
