(* ===== verification/Ec_Der_Correct.thy ===== *)
theory Ec_Der_Correct
  imports Ec_Der Ec_Ecdh_Correct
begin

unbundle bit_operations_syntax

text \<open>
  The encoding of signatures round-trips: decoding what was encoded gives the integers back and consumes
  exactly the encoding, whatever follows. Encoded signatures verify exactly when they are the encoding of
  a pair that verifies.
\<close>

section \<open>Lengths\<close>

lemma unat_byte: "n < 256 \<Longrightarrow> unat (word_of_nat n :: 8 word) = n"
  by (simp add: unat_of_nat take_bit_eq_mod)

lemma sub_packet: "PACKET_get_sub_packet (c @ rest) (length c) = Some (c, rest)"
  by (simp add: PACKET_get_sub_packet_def)

lemma decode_encode_length:
  assumes "ossl_encode_der_length (length c) = Some l"
  shows "ossl_decode_der_length (l @ c @ rest) = Some (c, rest)"
proof -
  define n where "n = length c"
  have s: "PACKET_get_sub_packet (c @ rest) n = Some (c, rest)" by (simp add: n_def sub_packet)
  from assms have n: "n \<le> 0xffff" by (auto simp: ossl_encode_der_length_def n_def split: if_splits)
  consider "n \<le> 0x7f" | "0x7f < n" "n \<le> 0xff" | "0xff < n" by linarith
  then show ?thesis
  proof cases
    case 1
    then have "(word_of_nat n :: 8 word) < 0x80" by (simp add: word_less_nat_alt unat_byte)
    then show ?thesis using 1 assms s
      by (auto simp: ossl_encode_der_length_def n_def [symmetric] ossl_decode_der_length_def PACKET_get_1_def unat_byte)
  next
    case 2
    then show ?thesis using assms s
      by (auto simp: ossl_encode_der_length_def n_def [symmetric] ossl_decode_der_length_def PACKET_get_1_def
          PACKET_get_length_prefixed_1_def unat_byte)
  next
    case 3
    have hi: "unat (word_of_nat (n div 256) :: 8 word) = n div 256" using n by (intro unat_byte) linarith
    have "unat (word_of_nat n :: 8 word) = n mod 256" by (simp add: unat_of_nat take_bit_eq_mod)
    with hi have "unat (word_of_nat (n div 256) :: 8 word) * 256 + unat (word_of_nat n :: 8 word) = n" by simp
    then show ?thesis using 3 assms s
      by (auto simp: ossl_encode_der_length_def n_def [symmetric] ossl_decode_der_length_def PACKET_get_1_def
          PACKET_get_length_prefixed_2_def PACKET_get_net_2_def split: if_splits)
  qed
qed

lemma encode_length: "n \<le> 0xffff \<Longrightarrow> \<exists>l. ossl_encode_der_length n = Some l \<and> length l \<le> 3"
  by (auto simp: ossl_encode_der_length_def)

section \<open>Integers\<close>

lemma byte_sign_bit: "(x :: 8 word) AND 0x80 = 0 \<longleftrightarrow> uint x < 128"
proof -
  have "(x AND 2 ^ 7 = 0) = (\<not> bit x 7)" by (rule and_exp_eq_0_iff_not_bit)
  also have "bit x 7 = odd (uint x div 128)" using bit_uint_iff [of x 7] by (simp add: bit_iff_odd)
  also have "\<not> odd (uint x div 128) \<longleftrightarrow> uint x < 128"
  proof -
    have "0 \<le> uint x" "uint x < 256" using uint_range_size [of x] by (simp_all add: word_size)
    then have "uint x div 128 = 0 \<or> uint x div 128 = 1" "uint x < 128 \<longleftrightarrow> uint x div 128 = 0" by auto
    then show ?thesis by auto
  qed
  finally show ?thesis by simp
qed

lemma div_between:
  fixes n :: int
  assumes "0 < c"
  shows "j * c \<le> n \<Longrightarrow> j \<le> n div c" "n < k * c \<Longrightarrow> n div c < k"
proof -
  have d: "n div c * c \<le> n" "n < n div c * c + c"
    using minus_mod_eq_div_mult [of n c] pos_mod_sign [OF assms, of n] pos_mod_bound [OF assms, of n] by linarith+
  have m: "n div c * c < k * c \<Longrightarrow> n div c < k" using assms by (simp add: mult_less_cancel_right)
  show "n < k * c \<Longrightarrow> n div c < k" using d(1) m by linarith
  have e: "n div c * c + c = (n div c + 1) * c" by (simp add: distrib_right)
  have "j * c < (n div c + 1) * c \<Longrightarrow> j < n div c + 1" using assms by (simp add: mult_less_cancel_right)
  then show "j * c \<le> n \<Longrightarrow> j \<le> n div c" using d(2) unfolding e by linarith
qed

text \<open>The leading byte of a positive number, and how many bits of it are used.\<close>

lemma leading_byte:
  assumes "0 < n"
  shows "\<exists>h t. BN_bn2bin n = h # t \<and> h \<noteq> 0 \<and> (uint h < 128 \<longleftrightarrow> z_num_bits n mod 8 \<noteq> 0)"
proof -
  define b where "b = z_num_bits n"
  have bb: "2 ^ (b - 1) \<le> n" "n < 2 ^ b"
  proof -
    have "2 ^ (nat_bits (nat n) - 1) \<le> nat n" using nat_bits_bounds(2) [of "nat n"] assms by simp
    then have "int (2 ^ (nat_bits (nat n) - 1)) \<le> n" using assms by linarith
    then show "2 ^ (b - 1) \<le> n" using assms by (simp add: b_def z_num_bits_def)
    have "nat n < 2 ^ nat_bits (nat n)" by (rule nat_bits_bounds(1))
    then show "n < 2 ^ b" using assms by (simp add: b_def z_num_bits_def nat_less_iff)
  qed
  have b: "0 < b" using bb assms by (cases b) auto
  define m where "m = (b - 1) div 8"
  define t where "t = (b - 1) mod 8"
  have e: "b - 1 = 8 * m + t" "b = 8 * m + (t + 1)" "t < 8" "BN_num_bytes n = Suc m"
    using b by (auto simp: m_def t_def BN_num_bytes_def b_def [symmetric])
  define d where "d = n div 256 ^ m"
  have p: "(2 :: int) ^ (8 * m + k) = 2 ^ k * 256 ^ m" for k by (simp add: power_add power_mult)
  have d1: "2 ^ t \<le> d" using bb(1) unfolding d_def e(1) p by (rule div_between(1) [rotated]) simp
  have "n < 2 ^ (t + 1) * 256 ^ m" using bb(2) unfolding e(2) p .
  then have d2: "d < 2 ^ (t + 1)" unfolding d_def by (rule div_between(2) [rotated]) simp
  have t7: "(2 :: int) ^ (t + 1) \<le> 2 ^ 8" using e(3) by (intro power_increasing) simp_all
  have "1 \<le> (2 :: int) ^ t" by simp
  then have d3: "0 < d" "d < 256" using d1 less_le_trans [OF d2 t7] by (linarith, simp)
  have h: "uint (word_of_int d :: 8 word) = d" using d3 by (simp add: uint_word_of_int)
  have "d < 128 \<longleftrightarrow> t \<noteq> 7"
  proof (cases "t = 7")
    case True
    then show ?thesis using d1 by simp
  next
    case False
    then have "(2 :: int) ^ (t + 1) \<le> 2 ^ 7" using e(3) by (intro power_increasing) simp_all
    then show ?thesis using d2 False by simp
  qed
  moreover have "t \<noteq> 7 \<longleftrightarrow> b mod 8 \<noteq> 0" using e(2,3) by presburger
  ultimately have "uint (word_of_int d :: 8 word) < 128 \<longleftrightarrow> z_num_bits n mod 8 \<noteq> 0" using h by (simp add: b_def)
  moreover have "(word_of_int d :: 8 word) \<noteq> 0" using h d3(1) by auto
  moreover have "BN_bn2bin n = word_of_int d # map (\<lambda>j. word_of_int (\<bar>n\<bar> div 256 ^ j)) (rev [0..<m])"
    using assms by (simp add: BN_bn2bin_def e(4) d_def)
  ultimately show ?thesis by blast
qed

lemma decode_encode_integer:
  assumes "ossl_encode_der_integer n = Some e"
  shows "ossl_decode_der_integer (e @ rest) = Some (n, rest)"
proof -
  define len where "len = z_num_bits n div 8 + 1"
  from assms obtain l where n: "0 \<le> n" and l: "ossl_encode_der_length len = Some l"
    and e: "e = ID_INTEGER # l @ replicate (len - BN_num_bytes n) 0 @ BN_bn2bin n" and le: "BN_num_bytes n \<le> len"
    unfolding ossl_encode_der_integer_def BN_bn2binpad_def len_def [symmetric] Let_def
    by (auto split: if_splits Option.bind_splits)
  define c where "c = replicate (len - BN_num_bytes n) 0 @ BN_bn2bin n"
  have val: "BN_bin2bn c = n" and clen: "length c = len"
    using BN_bn2bin_value [OF n] le by (simp_all add: c_def BN_bin2bn_zeros)
  have dl: "ossl_decode_der_length (l @ c @ rest) = Some (c, rest)"
    by (rule decode_encode_length) (simp add: clen l)
  have "\<exists>h t. c = h # t \<and> h AND 0x80 = 0 \<and> (t \<noteq> [] \<longrightarrow> h = 0 \<longrightarrow> (\<exists>h' t'. t = h' # t' \<and> h' AND 0x80 \<noteq> 0))"
  proof (cases "n = 0")
    case True
    then have "c = [0]" by (simp add: c_def len_def BN_bn2bin_def BN_num_bytes_def z_num_bits_def nat_bits.simps)
    then show ?thesis by simp
  next
    case False
    then obtain h t where h: "BN_bn2bin n = h # t" "h \<noteq> 0" "uint h < 128 \<longleftrightarrow> z_num_bits n mod 8 \<noteq> 0"
      using leading_byte [of n] n by auto
    show ?thesis
    proof (cases "z_num_bits n mod 8 = 0")
      case True
      then have "len - BN_num_bytes n = 1" by (auto simp: len_def BN_num_bytes_def)
      then have "c = 0 # h # t" by (simp add: c_def h(1))
      then show ?thesis using h(3) True by (simp add: byte_sign_bit)
    next
      case False
      then have "len - BN_num_bytes n = 0" unfolding len_def BN_num_bytes_def by presburger
      then have "c = h # t" by (simp add: c_def h(1))
      then show ?thesis using h(2,3) False by (simp add: byte_sign_bit)
    qed
  qed
  then obtain h t where ht: "c = h # t" "h AND 0x80 = 0" "t \<noteq> [] \<longrightarrow> h = 0 \<longrightarrow> (\<exists>h' t'. t = h' # t' \<and> h' AND 0x80 \<noteq> 0)" by blast
  have "e @ rest = ID_INTEGER # l @ c @ rest" by (simp add: e c_def)
  then show ?thesis using dl ht val
    by (cases "t = []") (auto simp: ossl_decode_der_integer_def PACKET_get_1_def split: list.splits)
qed

lemma encode_integer:
  assumes "0 \<le> n" "z_num_bits n \<le> 200000"
  shows "\<exists>e. ossl_encode_der_integer n = Some e \<and> length e \<le> 25005"
proof -
  have len: "z_num_bits n div 8 + 1 \<le> 25001" using assms(2) by simp
  then obtain l where l: "ossl_encode_der_length (z_num_bits n div 8 + 1) = Some l" "length l \<le> 3"
    using encode_length [of "z_num_bits n div 8 + 1"] by auto
  have le: "BN_num_bytes n \<le> z_num_bits n div 8 + 1" unfolding BN_num_bytes_def by presburger
  have "length (BN_bn2bin n) = BN_num_bytes n" by (rule BN_bn2bin_value(2) [OF assms(1)])
  then show ?thesis using assms(1) l le len by (auto simp: ossl_encode_der_integer_def BN_bn2binpad_def Let_def)
qed

section \<open>Signatures\<close>

lemma decode_encode_sig:
  assumes "ossl_encode_der_dsa_sig r s = Some der"
  shows "ossl_decode_der_dsa_sig (der @ rest) = Some ((r, s), length der)"
proof -
  from assms obtain dr ds l where d: "ossl_encode_der_integer r = Some dr" "ossl_encode_der_integer s = Some ds"
    "ossl_encode_der_length (length (dr @ ds)) = Some l" "der = ID_SEQUENCE # l @ dr @ ds"
    by (auto simp: ossl_encode_der_dsa_sig_def Let_def split: Option.bind_splits)
  have "ossl_decode_der_length (l @ (dr @ ds) @ rest) = Some (dr @ ds, rest)" by (rule decode_encode_length [OF d(3)])
  then show ?thesis
    using d(4) decode_encode_integer [OF d(1), of ds] decode_encode_integer [OF d(2), of "[]"]
    by (simp add: ossl_decode_der_dsa_sig_def PACKET_get_1_def)
qed

lemma encode_sig:
  assumes "0 \<le> r" "0 \<le> s" "z_num_bits r \<le> 200000" "z_num_bits s \<le> 200000"
  shows "\<exists>der. ossl_encode_der_dsa_sig r s = Some der \<and> length der \<le> 50014"
proof -
  obtain dr ds where d: "ossl_encode_der_integer r = Some dr" "length dr \<le> 25005" "ossl_encode_der_integer s = Some ds" "length ds \<le> 25005"
    using encode_integer assms by metis
  then obtain l where "ossl_encode_der_length (length (dr @ ds)) = Some l" "length l \<le> 3"
    using encode_length [of "length (dr @ ds)"] by auto
  with d show ?thesis by (simp add: ossl_encode_der_dsa_sig_def)
qed

text \<open>Verifying an encoded signature is verifying the pair it is the encoding of.\<close>

lemma verify_encoded:
  "ossl_ecdsa_verify dgst sigbuf key pt fresh ctx st =
    (case d2i_ECDSA_SIG sigbuf of
       None \<Rightarrow> - 1
     | Some (r, s) \<Rightarrow> if ossl_encode_der_dsa_sig r s = Some sigbuf then ossl_ecdsa_verify_sig dgst (r, s) key pt fresh ctx st
         else - 1)"
  by (auto simp: ossl_ecdsa_verify_def i2d_ECDSA_SIG_def ECDSA_do_verify_def split: option.splits)

lemma verify_encoding:
  assumes "ossl_encode_der_dsa_sig r s = Some der"
  shows "ossl_ecdsa_verify dgst der key pt fresh ctx st = ossl_ecdsa_verify_sig dgst (r, s) key pt fresh ctx st"
  using assms decode_encode_sig [OF assms, of "[]"] by (simp add: verify_encoded d2i_ECDSA_SIG_def)

lemma dsa_slot_names:
  "slot M_GFp_simple ''ecdsa_sign_sig'' = ''ossl_ecdsa_simple_sign_sig''"
  "slot M_GFp_mont ''ecdsa_sign_sig'' = ''ossl_ecdsa_simple_sign_sig''"
  "slot M_GFp_simple ''ecdsa_verify_sig'' = ''ossl_ecdsa_simple_verify_sig''"
  "slot M_GFp_mont ''ecdsa_verify_sig'' = ''ossl_ecdsa_simple_verify_sig''"
  by code_simp+

lemma dsa_dispatch:
  assumes "gfp_valid g" "k_group key = Some g"
  shows "ossl_ecdsa_sign_sig dgst kinv r key tmp fresh ctx ks st = ossl_ecdsa_simple_sign_sig dgst kinv r key tmp fresh ctx ks st"
    "ossl_ecdsa_verify_sig dgst sig key pt fresh ctx st = ossl_ecdsa_simple_verify_sig dgst (Some sig) (Some key) pt fresh ctx st"
  using gfp.meth_law [OF assms(1)] assms(2)
  by (auto simp: ossl_ecdsa_sign_sig_def ossl_ecdsa_verify_sig_def dsa_slot_names)

lemma z_num_bits_mono: "0 \<le> x \<Longrightarrow> x < y \<Longrightarrow> z_num_bits x \<le> z_num_bits y"
  using nat_bits_bounds(1) [of "nat y"] by (simp add: z_num_bits_def nat_bits_le_iff)

text \<open>Only pairs in range verify.\<close>

lemma verify_range:
  assumes "ossl_ecdsa_simple_verify_sig dgst (Some (r, s)) (Some key) pt fresh ctx st = 1" "k_group key = Some g" "0 < g_order g"
  shows "0 < r" "r < g_order g" "0 < s" "s < g_order g"
proof -
  have "\<not> (r = 0 \<or> r < 0 \<or> \<bar>r\<bar> \<ge> \<bar>g_order g\<bar> \<or> s = 0 \<or> s < 0 \<or> \<bar>s\<bar> \<ge> \<bar>g_order g\<bar>)"
  proof
    assume "r = 0 \<or> r < 0 \<or> \<bar>r\<bar> \<ge> \<bar>g_order g\<bar> \<or> s = 0 \<or> s < 0 \<or> \<bar>s\<bar> \<ge> \<bar>g_order g\<bar>"
    then have "ossl_ecdsa_simple_verify_sig dgst (Some (r, s)) (Some key) pt fresh ctx st \<le> 0"
      using assms(2) by (cases "pub_key key") (simp_all add: ossl_ecdsa_simple_verify_sig_def Let_def)
    then show False using assms(1) by simp
  qed
  then show "0 < r" "r < g_order g" "0 < s" "s < g_order g" using assms(3) by linarith+
qed

end
