(* ===== verification/Ec_Key_Set_Correct.thy ===== *)
theory Ec_Key_Set_Correct
  imports Ec_Key_Set Ec_Der_Correct
begin

text \<open>
  Setting the point of a key from coordinates accepts exactly the valid public points, and the bytes of a
  private scalar give it back.
\<close>

lemma dup_holds:
  assumes v: "gfp_valid g" and h: "holds g s a P" and new: "t \<noteq> a"
  shows "returns (EC_POINT_dup (Some a) g (Some t) s) (\<lambda>(t', s'). t' = t \<and> holds g s' t P \<and> same_but {t} s s' \<and> rng s' = rng s)"
proof -
  obtain s1 where s1: "EC_POINT_new g (Some t) s = Some (t, s1)" "\<forall>c. c \<noteq> t \<longrightarrow> heap s1 c = heap s c" "holds g s1 t Inf"
    using new_holds [OF v, of t s] by (auto simp: returns_ex)
  have h1: "holds g s1 a P" using h s1(2) new by (simp add: holds_def)
  obtain s2 where s2: "EC_POINT_copy t a s1 = Some s2" "frame t s1 s2" "holds g s2 t P"
    using copy_holds [OF v h1 holdsD(1) [OF s1(3)]] by (auto simp: returns_ex)
  have "same_but {t} s s2" using s1(2) s2(2) by (simp add: same_but_def frame_def)
  moreover have "rng s2 = rng s" using copy_rng [OF s2(1)] new_rng [OF s1(1)] by simp
  ultimately show ?thesis using s1(1) s2(1,3) by (simp add: EC_POINT_dup_def)
qed

text \<open>The first half: the point is made only for coordinates in range of a point on the curve.\<close>

lemma point_from_coordinates:
  assumes v: "gfp_valid g" and av: "rng_avail g (Suc n) (rng s)"
  shows "let run = do {
      (point, st) \<leftarrow> EC_POINT_new g (Some b) s;
      st \<leftarrow> EC_POINT_set_affine_coordinates g point (Some x) (Some y) True st;
      (xy, st) \<leftarrow> EC_POINT_get_affine_coordinates g point True True True st;
      (case xy of (Some tx, Some ty) \<Rightarrow> if x \<noteq> tx \<or> y \<noteq> ty then None else Some (k, point, st) | _ \<Rightarrow> None)}
    in if red (g_field g) x \<and> red (g_field g) y \<and> gon g (Aff x y)
      then returns run (\<lambda>(k', b', s'). k' = k \<and> b' = b \<and> holds g s' b (Aff x y) \<and> same_but {b} s s' \<and> rng_avail g n (rng s'))
      else run = None"
proof -
  let ?x = "x mod g_field g" and ?y = "y mod g_field g"
  obtain s1 where s1: "EC_POINT_new g (Some b) s = Some (b, s1)" "\<forall>c. c \<noteq> b \<longrightarrow> heap s1 c = heap s c" "holds g s1 b Inf"
    using new_holds [OF v, of b s] by (auto simp: returns_ex)
  have rd: "red (g_field g) ?x" "red (g_field g) ?y" using gfp.pos [OF v] by (simp_all add: red_def)
  have id: "red (g_field g) z \<Longrightarrow> z mod g_field g = z" for z by (simp add: red_def)
  show ?thesis
  proof (cases "gon g (Aff ?x ?y)")
    case False
    then have "EC_POINT_set_affine_coordinates g b (Some x) (Some y) True s1 = None"
      using gfp.set_affine_ret [OF v holdsD(1) [OF s1(3)] refl] by (simp add: curve_A_def curve_B_def)
    moreover have "\<not> (red (g_field g) x \<and> red (g_field g) y \<and> gon g (Aff x y))" using False id by auto
    ultimately show ?thesis using s1(1) by (simp add: Let_def)
  next
    case True
    then obtain s2 where s2: "EC_POINT_set_affine_coordinates g b (Some x) (Some y) True s1 = Some s2" "frame b s1 s2"
      "holds g s2 b (Aff ?x ?y)" "rng s2 = rng s1"
      using gfp.set_affine_ret [OF v holdsD(1) [OF s1(3)] refl, of x y]
      by (auto simp: curve_A_def curve_B_def holds_def represents_def returns_ex)
    have av2: "rng_avail g (Suc n) (rng s2)" using av s2(4) new_rng [OF s1(1)] by simp
    obtain s3 where s3: "EC_POINT_get_affine_coordinates g b True True True s2 = Some ((Some ?x, Some ?y), s3)"
      "heap s3 = heap s2" "rng_avail g n (rng s3)"
      using gfp.get_affine_ret [OF v holdsD(2,4,5) [OF s2(3)] av2, of True True]
      by (auto simp: returns_ex coord_slots_holds [OF v holdsD(2) [OF s2(3)]])
    have sb: "same_but {b} s s3" using s1(2) s2(2) s3(2) by (simp add: same_but_def frame_def)
    have h3: "holds g s3 b (Aff ?x ?y)" using s2(3) s3(2) by (simp add: holds_def)
    show ?thesis
    proof (cases "red (g_field g) x \<and> red (g_field g) y")
      case red: True
      then show ?thesis using s1(1) s2(1) s3(1,3) sb h3 True id by (simp add: Let_def)
    next
      case False
      then have "x \<noteq> ?x \<or> y \<noteq> ?y" using rd by auto
      then show ?thesis using s1(1) s2(1) s3(1) False by (auto simp: Let_def)
    qed
  qed
qed

lemma set_coordinates_holds:
  assumes d: "dsa_group g gen G" and k: "k_group key = Some g" and h: "holds g s gen G"
    and new: "distinct [gen, b, a, q]" "{a, q, gen} \<inter> set fresh = {}" "distinct fresh"
    and room: "wnaf_room [(g_order g, a)] \<le> length fresh"
    and new2: "distinct [gen, c, m, n]" "a \<notin> {c, m, n}" and av: "rng_avail g 8 (rng s)"
  shows "fst (EC_KEY_set_public_key_affine_coordinates (Some key) (Some x) (Some y) (Some b) (Some a) (Some q) fresh
      (Some c) [m, n] True s) \<longleftrightarrow>
    red (g_field g) x \<and> red (g_field g) y \<and> gon g (Aff x y) \<and> gmul g (g_order g) (Aff x y) = Inf \<and>
    (case priv_key key of None \<Rightarrow> True | Some d \<Rightarrow> 1 \<le> d \<and> d < g_order g \<and> Aff x y = gmul g d G)"
proof -
  have v: "gfp_valid g" using d by (simp add: dsa_group_def curve_valid)
  have av1: "rng_avail g (Suc 7) (rng s)" using av by (simp add: numeral_eq_Suc)
  note pc = point_from_coordinates [OF v av1, of b x y key, unfolded Let_def]
  show ?thesis
  proof (cases "red (g_field g) x \<and> red (g_field g) y \<and> gon g (Aff x y)")
    case False
    with pc show ?thesis using k by (auto simp: EC_KEY_set_public_key_affine_coordinates_def)
  next
    case True
    with pc obtain s1 where s1: "do {
        (point, st) \<leftarrow> EC_POINT_new g (Some b) s;
        st \<leftarrow> EC_POINT_set_affine_coordinates g point (Some x) (Some y) True st;
        (xy, st) \<leftarrow> EC_POINT_get_affine_coordinates g point True True True st;
        (case xy of (Some tx, Some ty) \<Rightarrow> if x \<noteq> tx \<or> y \<noteq> ty then None else Some (key, point, st) | _ \<Rightarrow> None)} = Some (key, b, s1)"
      "holds g s1 b (Aff x y)" "same_but {b} s s1" "rng_avail g 7 (rng s1)"
      by (auto simp: returns_ex)
    obtain s2 where s2: "EC_POINT_dup (Some b) g (Some a) s1 = Some (a, s2)" "holds g s2 a (Aff x y)" "same_but {a} s1 s2"
      "rng s2 = rng s1" using dup_holds [OF v s1(2), of a] new(1) by (auto simp: returns_ex)
    define key' where "key' = key\<lparr>pub_key := Some a, dirty_cnt := dirty_cnt key + 1\<rparr>"
    have kk: "k_group key' = Some g" "pub_key key' = Some a" "priv_key key' = priv_key key" using k by (simp_all add: key'_def)
    have "holds g s1 gen G" by (rule same_but_holds [OF s1(3) h]) (use new in auto)
    then have h2: "holds g s2 gen G" by (rule same_but_holds [OF s2(3)]) (use new in auto)
    have av2: "rng_avail g 7 (rng s2)" using s1(4) s2(4) by simp
    have "EC_KEY_check_key (Some key') (Some q) fresh (Some c) [m, n] True s2 =
        ossl_ec_key_simple_check_key (Some key') (Some q) fresh (Some c) [m, n] True s2"
      using kk key_slots(2) [OF v] by (simp add: EC_KEY_check_key_def)
    then have chk: "EC_KEY_check_key (Some key') (Some q) fresh (Some c) [m, n] True s2 \<noteq> None \<longleftrightarrow>
        gon g (Aff x y) \<and> gmul g (g_order g) (Aff x y) = Inf \<and>
        (case priv_key key of None \<Rightarrow> True | Some d \<Rightarrow> 1 \<le> d \<and> d < g_order g \<and> Aff x y = gmul g d G)"
      using check_key_holds [OF d kk(1,2) s2(2) h2 _ _ _ new(3) room new2 av2, of q] new kk(3) by auto
    have run: "EC_KEY_set_public_key_affine_coordinates (Some key) (Some x) (Some y) (Some b) (Some a) (Some q) fresh
        (Some c) [m, n] True s = (case EC_KEY_check_key (Some key') (Some q) fresh (Some c) [m, n] True s2 of
          None \<Rightarrow> (False, Some key', s2) | Some st \<Rightarrow> (True, Some key', st))"
      using k s1(1) s2(1) by (simp add: EC_KEY_set_public_key_affine_coordinates_def EC_KEY_set_public_key_def key'_def split: option.splits)
    show ?thesis using True chk unfolding run by (auto split: option.splits)
  qed
qed

section \<open>The private scalar as bytes\<close>

lemma oct_slots:
  assumes "gfp_valid g"
  shows "slot (g_meth g) ''priv2oct'' = ''ossl_ec_key_simple_priv2oct''"
    "slot (g_meth g) ''oct2priv'' = ''ossl_ec_key_simple_oct2priv''"
    "EC_GROUP_order_bits g = z_num_bits (g_order g)"
proof -
  have "slot M_GFp_simple ''priv2oct'' = ''ossl_ec_key_simple_priv2oct''" "slot M_GFp_mont ''priv2oct'' = ''ossl_ec_key_simple_priv2oct''"
    "slot M_GFp_simple ''oct2priv'' = ''ossl_ec_key_simple_oct2priv''" "slot M_GFp_mont ''oct2priv'' = ''ossl_ec_key_simple_oct2priv''"
    by code_simp+
  then show "slot (g_meth g) ''priv2oct'' = ''ossl_ec_key_simple_priv2oct''"
    "slot (g_meth g) ''oct2priv'' = ''ossl_ec_key_simple_oct2priv''" "EC_GROUP_order_bits g = z_num_bits (g_order g)"
    using gfp.meth_law [OF assms] by (auto simp: EC_GROUP_order_bits_def ossl_ec_group_simple_order_bits_def)
qed

text \<open>The bytes have the length of the order, and another key of the group gets the scalar from them.\<close>

lemma priv_bytes_round_trip:
  assumes v: "gfp_valid g" and k: "k_group key = Some g" "priv_key key = Some d" "k_group key2 = Some g"
    and r: "0 \<le> d" "d < g_order g"
  shows "\<exists>buf. EC_KEY_priv2buf key = Some ((z_num_bits (g_order g) + 7) div 8, buf) \<and>
    length buf = (z_num_bits (g_order g) + 7) div 8 \<and> fst (EC_KEY_oct2priv key2 buf) \<and>
    priv_key (snd (EC_KEY_oct2priv key2 buf)) = Some d"
proof -
  let ?l = "(z_num_bits (g_order g) + 7) div 8"
  have p: "0 < g_order g" using r by simp
  have "z_num_bits (g_order g) \<noteq> 0" using p by (simp add: z_num_bits_def nat_bits.simps)
  then have l: "?l \<noteq> 0" by simp
  have le: "BN_num_bytes d \<le> ?l" unfolding BN_num_bytes_def by (intro div_le_mono add_right_mono z_num_bits_mono r)
  show ?thesis
    using k l le BN_bn2bin_value [OF r(1)] oct_slots [OF v]
    by (simp add: EC_KEY_priv2buf_def EC_KEY_priv2oct_def ossl_ec_key_simple_priv2oct_def BN_bn2binpad_def Let_def BN_bin2bn_zeros
        EC_KEY_oct2priv_def ossl_ec_key_simple_oct2priv_def)
qed

end
