(* ===== verification/Ec_Program.thy ===== *)
theory Ec_Program
  imports Ec_Key_Correct
begin

text \<open>
  What a caller of the point operations has to obey. A straight-line program of calls on points at
  addresses is run by the code's operations (\<open>exec_prog\<close>) and has a meaning on affine points
  (\<open>point_prog\<close>). The tripling of this library does not reset the flag \<open>Z_is_one\<close> of its result: the first
  section says what a triple left with the flag set is taken for, and the second is a static analysis of the
  flags whose accepted programs compute their meaning.
\<close>

section \<open>A triple with a stale flag\<close>

text \<open>The \<open>Z\<close> coordinate that \<open>tpl\<close> computes for the point \<open>(x, y)\<close> with decoded coordinate \<open>z\<close>, and the
  point that coordinates of \<open>P\<close> stand for when a coordinate \<open>Z\<close> of value \<open>c\<close> is read as 1.\<close>

definition tpl_Z :: "ec_group \<Rightarrow> int \<Rightarrow> int \<Rightarrow> int \<Rightarrow> int" where
  "tpl_Z g x y z = 2 * (12 * x * y ^ 2 - (3 * x ^ 2 + curve_A g) ^ 2) * z ^ 9"

fun read_scaled :: "int \<Rightarrow> int \<Rightarrow> apoint \<Rightarrow> apoint" where
  "read_scaled p c Inf = Inf"
| "read_scaled p c (Aff x y) = Aff (x * c ^ 2 mod p) (y * c ^ 3 mod p)"

lemma flagged_on_curve:
  assumes "pZ_is_one pt" "\<not> EC_POINT_is_at_infinity g pt" "\<not> EC_POINT_is_at_infinity g (pt\<lparr>pZ := v\<rparr>)"
  shows "ossl_ec_GFp_simple_is_on_curve g (pt\<lparr>pZ := v\<rparr>) ctx = ossl_ec_GFp_simple_is_on_curve g pt ctx"
proof -
  have "curve_rhs g (pt\<lparr>pZ := v\<rparr>) c = curve_rhs g pt c" for c
    using assms(1) by (simp add: curve_rhs_def)
  with assms(2,3) show ?thesis by (simp add: ossl_ec_GFp_simple_is_on_curve_def)
qed

lemma flagged_read:
  assumes v: "gfp_valid g" and pt: "pt_of g pt" "pZ_is_one pt" "red (g_field g) (pX pt)" "red (g_field g) (pY pt)"
    and J: "jac_rep (g_field g) (gfp_fac g) pt R" and c: "eqm (g_field g) (pZ pt * gfp_fac g) c"
    and w: "red (g_field g) w" "eqm (g_field g) (w * gfp_fac g) 1"
  shows "EC_POINT_is_on_curve g pt True = (if gon g (read_scaled (g_field g) c R) then 1 else 0)"
proof (cases R)
  case Inf
  then have "pZ pt = 0" using J by (simp add: jac_rep_def)
  then show ?thesis
    using Inf infinity_slot [OF v pt(1)]
    by (simp add: is_on_curve_slot [OF v pt(1)] ossl_ec_GFp_simple_is_on_curve_def)
next
  case (Aff x y)
  let ?p = "g_field g" and ?u = "gfp_fac g" and ?pt = "pt\<lparr>pZ := w\<rparr>"
  have Z: "pZ pt \<noteq> 0" using J Aff by (simp add: jac_rep_def)
  have pos: "0 < ?p" "\<not> ?p dvd 1"
    using gfp.field_gt_3 [OF v] zdvd_imp_le [of ?p 1] by auto
  have w0: "w \<noteq> 0" using w(2) pos(2) by (auto simp: eqm_dvd)
  have pt': "pt_of g ?pt" using pt(1) by (simp add: pt_of_def)
  have "eqm ?p (pX pt * ?u) (x * (pZ pt * ?u) ^ 2)" "eqm ?p (pY pt * ?u) (y * (pZ pt * ?u) ^ 3)"
    using J Aff by (simp_all add: jac_rep_def)
  moreover have "eqm ?p (x * (pZ pt * ?u) ^ 2) (x * c ^ 2)" "eqm ?p (y * (pZ pt * ?u) ^ 3) (y * c ^ 3)"
    by (intro eqm_intros c)+
  ultimately have "frep ?p ?u (pX ?pt) (x * c ^ 2 * 1 ^ 2)" "frep ?p ?u (pY ?pt) (y * c ^ 3 * 1 ^ 3)"
    using pt(3,4) by (auto simp: frep_def intro: eqm_trans)
  moreover have "frep ?p ?u (pZ ?pt) 1" using w by (simp add: frep_def)
  ultimately have "jac_rep ?p ?u ?pt (read_scaled ?p c R)"
    using jac_repI [of ?p ?u ?pt "x * c ^ 2" 1 "y * c ^ 3"] pos Aff by simp
  moreover have "pt_ok ?p ?u ?pt" using pt w by (simp add: pt_ok_def)
  ultimately have "ossl_ec_GFp_simple_is_on_curve g ?pt True = (if gon g (read_scaled ?p c R) then 1 else 0)"
    using gfp.is_on_curve_correct [OF v pt_of_compat [OF pt']] by (simp add: curve_A_def curve_B_def)
  moreover have "ossl_ec_GFp_simple_is_on_curve g ?pt True = ossl_ec_GFp_simple_is_on_curve g pt True"
    by (rule flagged_on_curve) (use pt(2) Z w0 infinity_slot [OF v pt(1)] infinity_slot [OF v pt'] in simp_all)
  ultimately show ?thesis by (simp add: is_on_curve_slot [OF v pt(1)])
qed

text \<open>\<open>tpl\<close> into a flagged object.\<close>

lemma tpl_flagged:
  assumes "curve_ok g" "holds g s a (Aff x y)" "gon g (Aff x y)" "holds g s r Q" "Z1of s r"
  defines "c \<equiv> tpl_Z g x y (zdec (gfp_fac g) (heap s a))"
  shows "returns (EC_POINT_tpl g r a True s) (\<lambda>s'. frame r s s' \<and> pt_of g (heap s' r) \<and> Z1of s' r \<and>
    jac_rep (g_field g) (gfp_fac g) (heap s' r) (gadd g (gadd g (Aff x y) (Aff x y)) (Aff x y)) \<and>
    red (g_field g) (Xof s' r) \<and> red (g_field g) (Yof s' r) \<and> red (g_field g) (Zof s' r) \<and>
    eqm (g_field g) (Zof s' r * gfp_fac g) c)"
proof -
  have v: "gfp_valid g" using assms(1) by (rule curve_valid)
  note h = holdsD [OF assms(2)] and hr = holdsD [OF assms(4)]
  note f = jac_frep [OF h(4,5)]
  have Z: "Zof s a \<noteq> 0" using h(5) by (simp add: jac_rep_def)
  obtain s' where s': "ossl_ec_GFp_simple_tpl g r a True s = Some s'"
    "frep (g_field g) (gfp_fac g) (Zof s' r) c"
    using gfp.tpl_run [OF v h(2) Z f, of r] by (auto simp: returns_ex c_def tpl_Z_def curve_A_def)
  have "returns (ossl_ec_GFp_simple_tpl g r a True s) (\<lambda>s'. frame r s s' \<and> pt_of g (heap s' r) \<and> Z1of s' r \<and>
      jac_rep (g_field g) (gfp_fac g) (heap s' r) (gadd g (gadd g (Aff x y) (Aff x y)) (Aff x y)) \<and>
      red (g_field g) (Xof s' r) \<and> red (g_field g) (Yof s' r) \<and> red (g_field g) (Zof s' r))"
    by (rule returns_mono [OF gfp.tpl_refines [OF v h(2,4,5), of "curve_B g" r]])
      (use assms(1,3,5) hr in \<open>auto simp: curve_A_def frame_def pt_of_def curve_ok_def\<close>)
  with s' show ?thesis by (simp add: tpl_slot [OF v hr(1) h(1)] frep_def)
qed

section \<open>Programs of point operations\<close>

datatype point_op =
    Op_add nat nat nat
  | Op_dbl nat nat
  | Op_tpl nat nat
  | Op_invert nat
  | Op_copy nat nat
  | Op_infinity nat

fun exec_op :: "ec_group \<Rightarrow> point_op \<Rightarrow> ec_state \<Rightarrow> ec_state option" where
  "exec_op g (Op_add r a b) s = EC_POINT_add g r a b True s"
| "exec_op g (Op_dbl r a) s = EC_POINT_dbl g r a True s"
| "exec_op g (Op_tpl r a) s = EC_POINT_tpl g r a True s"
| "exec_op g (Op_invert a) s = EC_POINT_invert g a True s"
| "exec_op g (Op_copy r a) s = EC_POINT_copy r a s"
| "exec_op g (Op_infinity r) s = EC_POINT_set_to_infinity g r s"

fun exec_prog :: "ec_group \<Rightarrow> point_op list \<Rightarrow> ec_state \<Rightarrow> ec_state option" where
  "exec_prog g [] s = Some s"
| "exec_prog g (i # is) s = Option.bind (exec_op g i s) (exec_prog g is)"

fun result_of :: "point_op \<Rightarrow> nat" where
  "result_of (Op_add r a b) = r"
| "result_of (Op_dbl r a) = r"
| "result_of (Op_tpl r a) = r"
| "result_of (Op_invert a) = a"
| "result_of (Op_copy r a) = r"
| "result_of (Op_infinity r) = r"

fun operands :: "point_op \<Rightarrow> nat list" where
  "operands (Op_add r a b) = [a, b]"
| "operands (Op_dbl r a) = [a]"
| "operands (Op_tpl r a) = [a]"
| "operands (Op_invert a) = [a]"
| "operands (Op_copy r a) = [a]"
| "operands (Op_infinity r) = []"

text \<open>The meaning: the affine point each address stands for.\<close>

fun point_step :: "ec_group \<Rightarrow> point_op \<Rightarrow> (nat \<Rightarrow> apoint) \<Rightarrow> apoint" where
  "point_step g (Op_add r a b) E = gadd g (E a) (E b)"
| "point_step g (Op_dbl r a) E = gadd g (E a) (E a)"
| "point_step g (Op_tpl r a) E = gadd g (gadd g (E a) (E a)) (E a)"
| "point_step g (Op_invert a) E = gneg g (E a)"
| "point_step g (Op_copy r a) E = E a"
| "point_step g (Op_infinity r) E = Inf"

fun point_prog :: "ec_group \<Rightarrow> point_op list \<Rightarrow> (nat \<Rightarrow> apoint) \<Rightarrow> nat \<Rightarrow> apoint" where
  "point_prog g [] E = E"
| "point_prog g (i # is) E = point_prog g is (E(result_of i := point_step g i E))"

text \<open>The analysis: \<open>F\<close> holds the addresses that may be flagged. A sum may be the copy of a flagged
  operand; a triple must not be written to an address that may be flagged.\<close>

fun may_flag :: "nat set \<Rightarrow> point_op \<Rightarrow> bool" where
  "may_flag F (Op_add r a b) = (a \<in> F \<or> b \<in> F)"
| "may_flag F (Op_invert a) = (a \<in> F)"
| "may_flag F (Op_copy r a) = (a \<in> F)"
| "may_flag F _ = False"

definition flags_after :: "point_op \<Rightarrow> nat set \<Rightarrow> nat set" where
  "flags_after i F = (if may_flag F i then insert (result_of i) F else F - {result_of i})"

fun flag_safe :: "nat set \<Rightarrow> point_op list \<Rightarrow> bool" where
  "flag_safe F [] = True"
| "flag_safe F (i # is) = ((case i of Op_tpl r a \<Rightarrow> r \<notin> F | _ \<Rightarrow> True) \<and> flag_safe (flags_after i F) is)"

lemma infinity_holds:
  assumes "gfp_valid g" "holds g s r R"
  shows "returns (EC_POINT_set_to_infinity g r s) (\<lambda>s'. frame r s s' \<and> holds g s' r Inf \<and> \<not> Z1of s' r)"
  using holdsD [OF assms(2)] gfp.meth_law [OF assms(1)] gfp.pos [OF assms(1)]
  by (auto simp: EC_POINT_set_to_infinity_def Let_def ossl_ec_GFp_simple_point_set_to_infinity_def holds_def
      pt_of_def represents_def pt_ok_def jac_rep_def red_def frame_def)

lemma on_curve_holds:
  assumes "gfp_valid g" "holds g s a P"
  shows "EC_POINT_is_on_curve g (heap s a) True = (if gon g P then 1 else 0)"
  using gfp.is_on_curve_correct [OF assms(1) holdsD(2,4,5) [OF assms(2)]] holdsD(1) [OF assms(2)]
  by (simp add: is_on_curve_slot [OF assms(1)] curve_A_def curve_B_def)

text \<open>One operation of an accepted program: the invariant of the run is that the addresses in use hold
  points of the curve, flagged only where the analysis says so.\<close>

definition on_heap :: "ec_group \<Rightarrow> nat set \<Rightarrow> nat set \<Rightarrow> (nat \<Rightarrow> apoint) \<Rightarrow> ec_state \<Rightarrow> bool" where
  "on_heap g A F E s \<longleftrightarrow> (\<forall>a\<in>A. holds g s a (E a) \<and> gon g (E a) \<and> (Z1of s a \<longrightarrow> a \<in> F))"

lemma exec_op_result:
  assumes "curve_ok g" "on_heap g A F E s" "result_of i \<in> A" "set (operands i) \<subseteq> A" "flag_safe F [i]"
  shows "returns (exec_op g i s) (\<lambda>s'. frame (result_of i) s s' \<and>
    holds g s' (result_of i) (point_step g i E) \<and> (Z1of s' (result_of i) \<longrightarrow> may_flag F i))"
proof -
  have v: "gfp_valid g" using assms(1) by (rule curve_valid)
  have A: "holds g s a (E a)" "gon g (E a)" "Z1of s a \<Longrightarrow> a \<in> F" if "a \<in> A" for a
    using assms(2) that by (auto simp: on_heap_def)
  show ?thesis
  proof (cases i)
    case (Op_add r a b)
    with assms(3,4) have "returns (EC_POINT_add g r a b True s) (\<lambda>s'. frame r s s' \<and> holds g s' r (gadd g (E a) (E b)) \<and>
        (Z1of s' r \<longrightarrow> E a = Inf \<and> Z1of s b \<or> E b = Inf \<and> Z1of s a))"
      by (intro add_holds [OF v]) (auto intro: A(1))
    then show ?thesis using Op_add assms(3,4) A(3) by (auto intro: returns_mono)
  next
    case (Op_dbl r a)
    with assms(3,4) dbl_holds [OF v A(1) A(1), of a r] show ?thesis by (auto intro: returns_mono)
  next
    case (Op_tpl r a)
    with assms(3-5) tpl_holds [OF assms(1) A(1) A(1), of a r] A show ?thesis by (auto intro: returns_mono)
  next
    case (Op_invert a)
    with assms(3,4) invert_holds [OF v A(1), of a True] A(3) show ?thesis by (auto intro: returns_mono)
  next
    case (Op_copy r a)
    with assms(3,4) copy_holds [OF v A(1) holdsD(1) [OF A(1)], of a r] A(3) show ?thesis
      by (auto intro: returns_mono)
  next
    case (Op_infinity r)
    with assms(3,4) infinity_holds [OF v A(1), of r] show ?thesis by (auto intro: returns_mono)
  qed
qed

lemma point_step_on:
  "curve_ok g \<Longrightarrow> (\<And>a. a \<in> set (operands i) \<Longrightarrow> gon g (E a)) \<Longrightarrow> gon g (point_step g i E)"
  by (cases i) (simp_all add: gon_add gon_neg)

lemma exec_op_step:
  assumes "curve_ok g" "on_heap g A F E s" "result_of i \<in> A" "set (operands i) \<subseteq> A" "flag_safe F [i]"
  shows "returns (exec_op g i s) (\<lambda>s'. frame (result_of i) s s' \<and>
    on_heap g A (flags_after i F) (E(result_of i := point_step g i E)) s')"
proof -
  have on: "gon g (point_step g i E)"
    using assms(2,4) by (intro point_step_on [OF assms(1)]) (auto simp: on_heap_def)
  show ?thesis
    by (rule returns_mono [OF exec_op_result [OF assms]])
      (use assms(2) on in \<open>auto simp: on_heap_def flags_after_def frame_def holds_def\<close>)
qed

lemma exec_prog_step:
  assumes "curve_ok g"
  shows "on_heap g A F E s \<Longrightarrow> (\<forall>i \<in> set is. result_of i \<in> A \<and> set (operands i) \<subseteq> A) \<Longrightarrow> flag_safe F is \<Longrightarrow>
    returns (exec_prog g is s) (\<lambda>s'. on_heap g A (fold flags_after is F) (point_prog g is E) s' \<and>
      (\<forall>a. a \<notin> result_of ` set is \<longrightarrow> heap s' a = heap s a))"
proof (induction "is" arbitrary: F E s)
  case (Cons i "is")
  have "returns (exec_op g i s) (\<lambda>s'. frame (result_of i) s s' \<and>
      on_heap g A (flags_after i F) (E(result_of i := point_step g i E)) s')"
    using Cons.prems by (intro exec_op_step [OF assms]) auto
  then obtain s1 where s1: "exec_op g i s = Some s1" "frame (result_of i) s s1"
    "on_heap g A (flags_after i F) (E(result_of i := point_step g i E)) s1" by (auto simp: returns_ex)
  have "returns (exec_prog g is s1) (\<lambda>s'. on_heap g A (fold flags_after is (flags_after i F))
      (point_prog g is (E(result_of i := point_step g i E))) s' \<and> (\<forall>a. a \<notin> result_of ` set is \<longrightarrow> heap s' a = heap s1 a))"
    using Cons.prems by (intro Cons.IH [OF s1(3)]) auto
  with s1(1,2) show ?case by (auto simp: frame_def returns_ex)
qed simp

end
