(* ===== verification/Spec2Isabelle.thy ===== *)
theory Spec2Isabelle
  imports Ec_Batch Ec_Ladder_Correct Ec_Wnaf Ec_Key Ec_Dsa_Correct Dbc_Naf Dbc_Exact Dbc_Right Fast_Ecdsa Ec_Key_Set_Correct Ec_Program
begin

text \<open>
  A model of the elliptic-curve arithmetic of this repository: OpenSSL 3.0.8 with a tripling
  operation added to its curve methods (\<open>src/openssl-triple/openssl-3.0.8/crypto\<close>, here \<open>bn/\<close> and
  \<open>ec/\<close>), and the scalar multiplications with double-base chains that use it (\<open>src/DBCTest\<close>).

  How the parts interact. An \<open>EC_GROUP\<close> holds a curve over a prime field and a method table; an
  \<open>EC_POINT\<close> holds Jacobian coordinates and a flag \<open>Z_is_one\<close>. The calls of \<open>ec_lib.c\<close> check that the
  objects belong together and dispatch through the table; the methods of \<open>ecp_smpl.c\<close> compute with the
  table's field operations, which are plain modular arithmetic (\<open>EC_GFp_simple_method\<close>) or Montgomery
  arithmetic (\<open>EC_GFp_mont_method\<close>), and both rest on the BIGNUM routines. \<open>DBCTest\<close> calls
  \<open>EC_POINT_add\<close>, \<open>dbl\<close>, \<open>tpl\<close> and \<open>invert\<close>.

  The theories, from the bottom:
  \<^item> \<open>Dbc_Prelude\<close>: congruences \<open>eqm\<close>, reduced residues \<open>red\<close>, executable primality, and \<open>returns m Q\<close>
    (the computation \<open>m\<close> returns a value that satisfies \<open>Q\<close>), the form of every functional theorem.
  \<^item> \<open>Bn_Value\<close> (\<open>bn_mod.c\<close>), \<open>Bn_Inverse\<close> (\<open>bn_gcd.c\<close>), \<open>Bn_Words\<close> (\<open>bn_asm.c\<close>, \<open>bn_mul.c\<close>, the macros of
    \<open>bn_local.h\<close>, on 64-bit words), \<open>Bn_Mont\<close> (\<open>bn_mont.c\<close>), \<open>Bn_Exp\<close> (\<open>BN_mod_exp_mont\<close>). A BIGNUM is the
    integer it stands for, except in the word-level routines, which work on \<open>64 word list\<close>.
  \<^item> \<open>Ec_Method\<close>: the method tables, each a list of slot names and function names in the order of
    \<open>ec_method_st\<close>. \<open>Ec_Group\<close>: \<open>EC_GROUP\<close> as the record \<open>ec_group\<close>, the field operations and the locale
    \<open>ec_field\<close>, the contract between field implementations and curve code, interpreted on both
    implementations. \<open>Ecp_Simple\<close>: \<open>EC_POINT\<close> as \<open>ec_point\<close>, the store of points as \<open>ec_state\<close> (a heap
    of addresses, so that \<open>r\<close>, \<open>a\<close>, \<open>b\<close> may alias, and the outputs of the random generator), add, double,
    triple, negate, compare, curve test.
  \<^item> \<open>Ec_Affine\<close>: the specification, the chord-and-tangent law on affine points and the relation
    \<open>represents\<close> between a stored point and an affine point. \<open>Ec_Jacobian\<close>: each point operation
    implements the law. \<open>Ec_Curve\<close>: creation, generator, order, cofactor, comparison of groups, inversion
    modulo the order. \<open>Ec_Coords\<close>, \<open>Ec_Coords_Correct\<close>, \<open>Ec_Batch\<close>: coordinates, normalisation of
    one point and of an array, blinding.
  \<^item> \<open>Ec_Law\<close>: the affine law is an abelian group (locale \<open>good_curve\<close>, by lines), multiples of a point.
    \<open>Ec_Points\<close>: the type of nonsingular groups, on which the locale is interpreted, and the point
    operations as step rules on \<open>holds g s a P\<close>.
  \<^item> \<open>Ec_Ladder\<close> (\<open>ossl_ec_scalar_mul_ladder\<close> and the ladder methods), \<open>Ec_Ladder_Law\<close> (the formulas on
    the curve), \<open>Ec_Ladder_Correct\<close> (the loop computes the multiple).
  \<^item> \<open>Bn_Wnaf\<close> (\<open>bn_compute_wNAF\<close> of \<open>bn_intern.c\<close>), \<open>Ec_Wnaf\<close> (\<open>ossl_ec_wNAF_mul\<close>, \<open>EC_POINT_mul\<close>,
    \<open>EC_POINTs_mul\<close>): the digits of a scalar, the tables of odd multiples, the interleaved loop.
    \<open>Ec_Key\<close>: the validation of keys in \<open>ec_key.c\<close>.
  \<^item> \<open>Ec_Dsa\<close> (\<open>ecdsa_ossl.c\<close>): nonces, signing, verifying. \<open>Ec_Dsa_Words\<close>: the chain of word-level products
    of the signing code; \<open>Ec_Dsa_Correct\<close>: signing and verifying against the textbook \<open>ecdsa_sig\<close> and
    \<open>ecdsa_check\<close> for a generator of prime order. The nonces are the list of the generator's outputs.
  \<^item> \<open>Ec_Ecdh\<close>: private random numbers (\<open>bn_rand.c\<close>, from the bytes of the generator), the generation of key pairs and
    the check of a whole key (\<open>ec_key.c\<close>), Diffie-Hellman (\<open>ecdh_ossl.c\<close>, \<open>ECDH_compute_key\<close>). \<open>Ec_Key_Correct\<close>: what
    the checks accept; \<open>Ec_Ecdh_Correct\<close>: generation, the secret as bytes, and a run of two parties.
  \<^item> \<open>Ec_Der\<close>: the DER encoding of signatures (\<open>asn1_dsa.c\<close>, packets as byte lists) and ECDSA on encoded
    signatures (\<open>ECDSA_sign\<close>, \<open>ECDSA_verify\<close>); \<open>Ec_Der_Correct\<close>: the encoding round-trips.
  \<^item> \<open>Ec_Key_Set\<close>: the setters of a key and its scalar as bytes; \<open>Ec_Key_Set_Correct\<close>: coordinates are accepted exactly
    for valid public points, and the bytes of a scalar give it back.
  \<^item> \<open>Ec_Program\<close>: sequences of point operations as data, their meaning on affine points and a static
    analysis of the flag that \<open>tpl\<close> leaves stale: accepted sequences compute their meaning.
  \<^item> \<open>Dbc_Mul\<close>, \<open>Dbc_Naf\<close>: the multiplications of \<open>src/DBCTest/functions.h\<close>.
  \<^item> The search for a chain. \<open>Dbc_BigInt\<close> (\<open>myBigInt.h\<close>, words most significant first), \<open>Dbc_Chain\<close>
    (\<open>DBC.h\<close> and the minima of \<open>functions.h\<close>: a chain as nodes whose parent is a cell of a table),
    \<open>Dbc_Search\<close> (\<open>getOptimalDBC\<close> of \<open>optimal_DBC.cpp\<close> on the globals as \<open>search_state\<close>, and the tables of
    \<open>init\<close>). \<open>Dbc_Cells\<close>: the recurrences as one recursive function and the invariant of its values;
    \<open>Dbc_Search_Correct\<close>: the blocked loops fill the tables with that function; \<open>Dbc_Search_Result\<close>: the
    stored chain; \<open>Dbc_Optimal\<close>: the cells are shortest
    chains; \<open>Dbc_Powers\<close>: the table of powers is exact; \<open>Dbc_Search_Mul\<close>: the search followed by
    \<open>DBC_POINT_mul\<close>.
  \<^item> The greedy searches of \<open>EOS_DBC.cpp\<close> and \<open>subOptimal_DBC.cpp\<close>: \<open>Dbc_Greedy\<close>, with the arithmetic of
    doubles as a record of operations; \<open>Dbc_Greedy_Correct\<close>: the loop ends in a chain of the number under
    the error bounds \<open>floats_ok\<close> and \<open>bounds_ok\<close>, on runs \<open>exact_run\<close> that stay clear of a wrong subtraction of
    \<open>myBigInt.h\<close>; \<open>Dbc_Greedy_Mul\<close>: the cheapest chain tried is returned and can be multiplied along, and a
    row never filled is returned when there is no start; \<open>Dbc_Exact\<close>: the real numbers meet the bounds.
  \<^item> \<open>Dbc_Right\<close>: the second program \<open>optimal_DBC2.cpp\<close>, the same search without the store and a multiplication
    from the smallest term up.
  \<^item> \<open>Fast_Curve\<close>, \<open>Fast_Ecdsa\<close>: the C code of \<open>src/scripts/fastecdsa-master/src\<close> that the scripts test against
    (\<open>curveMath.c\<close>, \<open>_ecdsa.c\<close>): affine points, the ladder, Shamir's trick, signing and verifying, related to the same
    group law and textbook definitions as the OpenSSL code. The functions of GMP that are not plain integer
    arithmetic are the record \<open>gmp\<close>, with \<open>gmp_ok\<close> and \<open>gmp_text_ok\<close> for what its manual promises.
  \<^item> this theory: the properties that span components, on a small curve for their witnesses.

  Conventions. A call that fails returns \<open>None\<close>; what it wrote before failing is not modelled. A
  missing pointer argument is \<open>None\<close> or \<open>False\<close>; \<open>ctx\<close> is true when a \<open>BN_CTX\<close> is given or can be
  allocated, and \<open>alloc\<close> arguments are the addresses the allocator gives. The random generator is the
  list of its future outputs; \<open>rng_avail g n\<close> says that they are reduced and that \<open>n\<close> of them are not
  zero, which is what the rejection loops need to end. Loops with a bound are structural recursion
  or carry a measure; \<open>naf_loop\<close>, which need not end, is a partial function with value \<open>None\<close> then, and
  so is \<open>wnaf_loop\<close>, which is proved to return. The loop that draws a private scalar, \<open>priv_loop\<close>, has as much
  fuel as there are bytes and one more, which \<open>priv_loop_fuel\<close> shows to be enough for a range above one.

  Not modelled: constant-time behaviour, error queues, locking and reference counts, the
  field arithmetic of the NIST-specific, binary-field, Montgomery and Edwards curves (only their
  method tables), stored multiples of the generator (\<open>EC_GROUP_precompute_mult\<close>), the encoding of
  keys and points, the end of the rows that the greedy searches write, the CUDA code, and the rest of
  OpenSSL. The logarithms that \<open>getOptimalDBC\<close> computes in floating point are arguments, with the
  hypothesis that they are the integer parts. For the greedy searches the accuracy of the doubles is a
  hypothesis that leaves a wide margin: distances are compared right when they differ by a 64th, logarithms
  to a tenth, and IEEE doubles of numbers below \<open>2 ^ 544\<close> are far more accurate.
\<close>

unbundle bit_operations_syntax

section \<open>Instances for the witnesses\<close>

definition ex_point :: "int \<Rightarrow> int \<Rightarrow> int \<Rightarrow> bool \<Rightarrow> ec_point" where
  "ex_point x y z z1 = \<lparr>p_meth = M_GFp_simple, p_curve_name = 0, pX = x, pY = y, pZ = z, pZ_is_one = z1\<rparr>"

text \<open>Address 0 holds \<open>(2, 7)\<close> with \<open>Z = 1\<close>, address 1 holds \<open>(5, 2)\<close> with \<open>Z = 2\<close>, address
  3 holds \<open>(5, 2)\<close> with \<open>Z = 1\<close>, the others infinity.\<close>

definition ex_state :: ec_state where
  "ex_state = \<lparr>heap = (\<lambda>n. if n = 0 then ex_point 2 7 1 True
      else if n = 1 then ex_point 9 5 2 False
      else if n = 3 then ex_point 5 2 1 True else ex_point 0 0 0 False), rng = [0, 4, 7, 3, 0, 5, 2]\<rparr>"

lemma ex_valid: "gfp_valid small_group"
  using small_curve_ok by (rule curve_valid)

lemma ex_represents:
  "represents small_group (heap ex_state 0) (Aff 2 7)"
  "represents small_group (heap ex_state 1) (Aff 5 2)"
  by (simp_all add: represents_def pt_ok_def jac_rep_def small_group_def ex_state_def ex_point_def
      gfp_fac_def red_def eqm_def)

lemma ex_pt_of: "pt_of small_group (heap ex_state n)"
  by (simp add: pt_of_def small_group_def ex_state_def ex_point_def)

lemma ex_flag: "\<not> Z1of ex_state 2"
  by (simp add: ex_state_def ex_point_def)

lemma ex_free: "red 11 (Xof ex_state n)" "red 11 (Yof ex_state n)"
  by (simp_all add: ex_state_def ex_point_def red_def)

section \<open>Curve operations\<close>

text \<open>
C25: \<open>EC_POINT_add\<close> computes the sum of the affine group law for both implementations and every
way \<open>r\<close>, \<open>a\<close> and \<open>b\<close> may be the same object; it succeeds, leaves all other points alone, and
its result is well formed (in particular its \<open>Z_is_one\<close> flag is true only if \<open>Z\<close> is one).
\<close>

theorem EC_POINT_add_correct:
  assumes "gfp_valid g" "pt_of g (heap s r)" "pt_of g (heap s a)" "pt_of g (heap s b)"
    "represents g (heap s a) P" "represents g (heap s b) Q"
    "red (g_field g) (Xof s r)" "red (g_field g) (Yof s r)"
  shows "returns (EC_POINT_add g r a b True s) (\<lambda>s'. frame r s s' \<and> pt_of g (heap s' r) \<and>
    represents g (heap s' r) (aff_add (g_field g) (curve_A g) P Q))"
  using gfp.add_refines [of g s r a b P Q] assms
  by (simp add: add_slot represents_def curve_A_def)

theorem EC_POINT_add_correct_witness:
  "returns (EC_POINT_add small_group 2 0 1 True ex_state) (\<lambda>s'. frame 2 ex_state s' \<and>
    pt_of small_group (heap s' 2) \<and> represents small_group (heap s' 2) (Aff 8 3))"
  using EC_POINT_add_correct [OF ex_valid ex_pt_of ex_pt_of ex_pt_of ex_represents, of 2]
  by (simp add: small_curve ex_free chord_def minv_def Let_def)

text \<open>
C28: \<open>EC_POINT_dbl\<close> computes the double of the affine group law, in place or not, for every
shape of the operand (infinity, \<open>Z = 1\<close>, \<open>a = -3\<close>, the general case, points of order two), and
its result is well formed.
\<close>

theorem EC_POINT_dbl_correct:
  assumes "gfp_valid g" "pt_of g (heap s r)" "pt_of g (heap s a)" "represents g (heap s a) P"
    "red (g_field g) (Xof s r)" "red (g_field g) (Yof s r)"
  shows "returns (EC_POINT_dbl g r a True s) (\<lambda>s'. frame r s s' \<and> pt_of g (heap s' r) \<and>
    represents g (heap s' r) (aff_add (g_field g) (curve_A g) P P))"
proof -
  have "returns (ossl_ec_GFp_simple_dbl g r a True s) (\<lambda>s'. frame r s s' \<and> pt_of g (heap s' r) \<and>
      represents g (heap s' r) (aff_add (g_field g) (curve_A g) P P))"
    by (rule returns_mono [OF gfp.dbl_refines [OF assms(1) pt_of_compat [OF assms(3)], of P r]])
      (use assms in \<open>auto simp: represents_def curve_A_def frame_def pt_of_def\<close>)
  with assms show ?thesis by (simp add: pt_of_compat)
qed

theorem EC_POINT_dbl_correct_witness:
  "returns (EC_POINT_dbl small_group 0 0 True ex_state) (\<lambda>s'. frame 0 ex_state s' \<and>
    pt_of small_group (heap s' 0) \<and> represents small_group (heap s' 0) (Aff 5 2))"
  using EC_POINT_dbl_correct [OF ex_valid ex_pt_of ex_pt_of ex_represents(1), of 0]
  by (simp add: small_curve ex_free chord_def minv_def Let_def)

text \<open>
C1: \<open>EC_POINT_tpl\<close>, the tripling added to this library, computes \<open>3P\<close> on every nonsingular curve
and for every point of it, including points of order two and three and infinity. It does not
write \<open>r->Z_is_one\<close> unless the operand is infinity: the result is a well-formed representation
of \<open>3P\<close> when the flag of \<open>r\<close> was false, and only its coordinates are right otherwise.
\<close>

theorem EC_POINT_tpl_correct:
  assumes "gfp_valid g" "pt_of g (heap s r)" "pt_of g (heap s a)" "represents g (heap s a) P"
    "nonsingular (g_field g) (curve_A g) (curve_B g)" "aff_on (g_field g) (curve_A g) (curve_B g) P"
    "red (g_field g) (Xof s r)" "red (g_field g) (Yof s r)"
  defines "R \<equiv> aff_add (g_field g) (curve_A g) (aff_add (g_field g) (curve_A g) P P) P"
  shows "returns (EC_POINT_tpl g r a True s) (\<lambda>s'. frame r s s' \<and> pt_of g (heap s' r) \<and>
    (Z1of s' r \<longleftrightarrow> P \<noteq> Inf \<and> Z1of s r) \<and>
    jac_rep (g_field g) (gfp_fac g) (heap s' r) R \<and>
    (\<not> Z1of s' r \<longrightarrow> represents g (heap s' r) R))"
proof -
  have "returns (ossl_ec_GFp_simple_tpl g r a True s) (\<lambda>s'. frame r s s' \<and> pt_of g (heap s' r) \<and>
      (Z1of s' r \<longleftrightarrow> P \<noteq> Inf \<and> Z1of s r) \<and> jac_rep (g_field g) (gfp_fac g) (heap s' r) R \<and>
      (\<not> Z1of s' r \<longrightarrow> represents g (heap s' r) R))"
    by (rule returns_mono [OF gfp.tpl_refines [OF assms(1) pt_of_compat [OF assms(3)], of P "curve_B g" r]])
      (use assms in \<open>auto simp: represents_def curve_A_def frame_def pt_of_def pt_ok_def\<close>)
  with assms show ?thesis by (simp add: tpl_slot)
qed

theorem EC_POINT_tpl_correct_witness:
  "returns (EC_POINT_tpl small_group 2 0 True ex_state) (\<lambda>s'. frame 2 ex_state s' \<and>
    pt_of small_group (heap s' 2) \<and> \<not> Z1of s' 2 \<and> represents small_group (heap s' 2) (Aff 8 3))"
proof -
  have "nonsingular (g_field small_group) (curve_A small_group) (curve_B small_group)"
    "aff_on (g_field small_group) (curve_A small_group) (curve_B small_group) (Aff 2 7)"
    by (simp_all add: small_curve nonsingular_def red_def eqm_def)
  from EC_POINT_tpl_correct [OF ex_valid ex_pt_of ex_pt_of ex_represents(1) this, of 2]
  show ?thesis
    by (simp add: small_curve ex_free ex_flag chord_def minv_def Let_def) (elim returns_mono, simp)
qed

text \<open>
\<open>EC_POINT_is_on_curve\<close> decides the curve equation: 1 for infinity and for the representations
of points that satisfy it, 0 for the others.
\<close>

theorem EC_POINT_is_on_curve_correct:
  assumes "gfp_valid g" "pt_of g pt" "represents g pt P"
  shows "EC_POINT_is_on_curve g pt True =
    (if aff_on (g_field g) (curve_A g) (curve_B g) P then 1 else 0)"
  using gfp.is_on_curve_correct [OF assms(1) pt_of_compat [OF assms(2)]] assms
  by (simp add: is_on_curve_slot represents_def curve_A_def curve_B_def)

theorem EC_POINT_is_on_curve_correct_witness:
  "EC_POINT_is_on_curve small_group (heap ex_state 1) True = 1"
  using EC_POINT_is_on_curve_correct [OF ex_valid ex_pt_of ex_represents(2)]
  by (simp add: small_curve red_def eqm_def)

text \<open>
\<open>EC_POINT_cmp\<close> returns 0 exactly when its operands represent the same affine point, although
their coordinates may differ.
\<close>

theorem EC_POINT_cmp_correct:
  assumes "gfp_valid g" "pt_of g A" "pt_of g B" "represents g A P" "represents g B Q"
  shows "EC_POINT_cmp g A B True = (if P = Q then 0 else 1)"
  using gfp.cmp_correct [OF assms(1) pt_of_compat [OF assms(2)] pt_of_compat [OF assms(3)]] assms
  by (simp add: cmp_slot represents_def)

theorem EC_POINT_cmp_correct_witness:
  "EC_POINT_cmp small_group (heap ex_state 0) (heap ex_state 1) True = 1"
  using EC_POINT_cmp_correct [OF ex_valid ex_pt_of ex_pt_of ex_represents] by simp

text \<open>
\<open>EC_POINT_invert\<close> negates the point it is given, in place, and succeeds for every point.
\<close>

theorem EC_POINT_invert_correct:
  assumes "gfp_valid g" "pt_of g (heap s a)" "represents g (heap s a) P"
  shows "returns (EC_POINT_invert g a ctx s) (\<lambda>s'. frame a s s' \<and> pt_of g (heap s' a) \<and>
    represents g (heap s' a) (aff_neg (g_field g) P))"
proof -
  have "returns (ossl_ec_GFp_simple_invert g a ctx s) (\<lambda>s'. frame a s s' \<and> pt_of g (heap s' a) \<and>
      represents g (heap s' a) (aff_neg (g_field g) P))"
    by (rule returns_mono [OF gfp.invert_refines [OF assms(1) pt_of_compat [OF assms(2)], of P]])
      (use assms in \<open>auto simp: represents_def frame_def pt_of_def\<close>)
  with assms show ?thesis by (simp add: invert_slot)
qed

theorem EC_POINT_invert_correct_witness:
  "returns (EC_POINT_invert small_group 1 True ex_state) (\<lambda>s'. frame 1 ex_state s' \<and>
    pt_of small_group (heap s' 1) \<and> represents small_group (heap s' 1) (Aff 5 9))"
  using EC_POINT_invert_correct [OF ex_valid ex_pt_of ex_represents(2)] by (simp add: small_curve)

section \<open>Groups\<close>

text \<open>
Inversion modulo the group order: after \<open>EC_GROUP_set_generator\<close> accepted a prime order,
\<open>ossl_ec_group_do_inverse_ord\<close> returns the inverse of every \<open>x\<close> in \<open>(0, n)\<close>, reduced and positive,
through the Montgomery context the group precomputed.
\<close>

theorem do_inverse_ord_correct:
  assumes "gfp_valid g" "EC_GROUP_set_generator g gen (Some n) c alloc True s = Some (g', s')"
    "prime_int n" "2 < n" "0 < x" "x < n"
  shows "returns (ossl_ec_group_do_inverse_ord g' x True) (\<lambda>y. 0 < y \<and> y < n \<and> (x * y) mod n = 1)"
proof -
  have odd: "odd n" using prime_int_divisor [OF assms(3), of 2] assms(4) by auto
  note g' = set_generator_order [OF assms(2) odd]
  have run: "ossl_ec_group_do_inverse_ord g' x True = Some (minv n x)"
    using do_inverse_ord_holds(2) [of g' x] gfp.meth_law [OF assms(1)] g' assms(3,4) by simp
  note i = minv_unit [OF assms(3,5,6)]
  have e: "(x * minv n x) mod n = 1" using i(1) assms(4) by (simp add: eqm_def mult.commute)
  then have "minv n x \<noteq> 0" by auto
  with i(2,3) e show ?thesis by (simp add: run)
qed

theorem do_inverse_ord_correct_witness:
  "\<exists>g' s'. EC_GROUP_set_generator small_group (Some 0) (Some 13) None (Some 9) True ex_state = Some (g', s') \<and>
    returns (ossl_ec_group_do_inverse_ord g' 5 True) (\<lambda>y. 0 < y \<and> y < 13 \<and> (5 * y) mod 13 = 1)"
proof -
  obtain mont where "BN_MONT_CTX_set 13 True = Some mont" using BN_MONT_CTX_set_correct [of 13] by auto
  moreover have "z_num_bits 13 \<le> z_num_bits 11 + 1" "z_num_bits 13 \<le> (z_num_bits 11 + 1) div 2 + 3"
    by code_simp+
  moreover obtain s' where "EC_POINT_copy 9 0 (upd_pt 9 (\<lambda>_. ex_point 0 0 0 False) ex_state) = Some s'"
    by (simp add: EC_POINT_copy_def ex_state_def ex_point_def upd_pt_def Let_def ossl_ec_GFp_simple_point_copy_def)
  ultimately have "\<exists>g' s'. EC_GROUP_set_generator small_group (Some 0) (Some 13) None (Some 9) True ex_state = Some (g', s')"
    by (simp add: EC_GROUP_set_generator_def small_group_def ex_point_def EC_POINT_new_def ec_guess_cofactor_def
        ec_precompute_mont_data_def ossl_ec_GFp_simple_point_init_def upd_pt_def)
  then obtain g' s' where g': "EC_GROUP_set_generator small_group (Some 0) (Some 13) None (Some 9) True ex_state = Some (g', s')"
    by blast
  have "prime_int 13" by code_simp
  from do_inverse_ord_correct [OF ex_valid g' this, of 5] g' show ?thesis by auto
qed

text \<open>
C40: Making a curve. For both field representations \<open>EC_GROUP_set_curve\<close> accepts every prime above 3 with
any coefficients (negative or unreduced ones too): the group is valid, with the prime and the reduced
coefficients read back by \<open>EC_GROUP_get_curve\<close> and its bit length as degree, and
\<open>EC_GROUP_check_discriminant\<close> accepts it iff \<open>p\<close> does not divide \<open>4 a\<^sup>3 + 27 b\<^sup>2\<close>. Exactly then it is a group
on which the point operations are those of an abelian group.
\<close>

theorem EC_GROUP_set_curve_correct:
  fixes p a b :: int
  assumes "g_meth g = M_GFp_simple \<or> g_meth g = M_GFp_mont" "prime_int p" "3 < p"
  defines "ns \<equiv> \<not> p dvd 4 * a ^ 3 + 27 * b ^ 2"
  shows "returns (EC_GROUP_set_curve g p a b True) (\<lambda>g'. gfp_valid g' \<and> g_field g' = p \<and>
    EC_GROUP_get_curve g' True = Some (p, a mod p, b mod p) \<and> EC_GROUP_get_degree g' = z_num_bits p \<and>
    EC_GROUP_check_discriminant g' True = (if ns then Some () else None) \<and> (curve_ok g' \<longleftrightarrow> ns))"
proof -
  obtain g' where g': "EC_GROUP_set_curve g p a b True = Some g'" "gfp_valid g'" "g_field g' = p"
    "eqm p (g_a g' * gfp_fac g') a" "eqm p (g_b g' * gfp_fac g') b"
    using set_curve_gfp [OF assms(1-3), of a b] by blast
  have "nonsingular p (curve_A g') (curve_B g') \<longleftrightarrow> ns"
    using nonsingular_cong [OF g'(4,5)] by (simp add: curve_A_def curve_B_def nonsingular_def ns_def)
  with g' gfp_curve_slots [OF g'(2), of True] show ?thesis
    using gfp.check_discriminant_correct [OF g'(2)]
    by (simp add: gfp.get_curve_ret eqm_def ossl_ec_GFp_simple_group_get_degree_def curve_ok_def
        curve_A_def curve_B_def)
qed

theorem EC_GROUP_set_curve_correct_witness:
  "returns (EC_GROUP_set_curve (the (ossl_ec_group_new_ex M_GFp_mont)) 11 12 (- 5) True) (\<lambda>g'. curve_ok g' \<and>
    EC_GROUP_get_curve g' True = Some (11, 1, 6) \<and> EC_GROUP_check_discriminant g' True = Some ()) \<and>
   returns (EC_GROUP_set_curve small_group 11 (- 3) 2 True) (\<lambda>g'. gfp_valid g' \<and> \<not> curve_ok g' \<and>
    EC_GROUP_check_discriminant g' True = None)"
proof
  have "g_meth (the (ossl_ec_group_new_ex M_GFp_mont)) = M_GFp_mont" by (simp add: new_ex_defs)
  with EC_GROUP_set_curve_correct [OF _ prime_11, of _ 12 "- 5"]
  show "returns (EC_GROUP_set_curve (the (ossl_ec_group_new_ex M_GFp_mont)) 11 12 (- 5) True) (\<lambda>g'. curve_ok g' \<and>
    EC_GROUP_get_curve g' True = Some (11, 1, 6) \<and> EC_GROUP_check_discriminant g' True = Some ())"
    by (force intro: returns_mono)
  have "g_meth small_group = M_GFp_simple" by (simp add: small_group_def)
  with EC_GROUP_set_curve_correct [OF _ prime_11, of _ "- 3" 2]
  show "returns (EC_GROUP_set_curve small_group 11 (- 3) 2 True) (\<lambda>g'. gfp_valid g' \<and> \<not> curve_ok g' \<and>
    EC_GROUP_check_discriminant g' True = None)"
    by (force intro: returns_mono)
qed

section \<open>Scalar multiplication\<close>

lemma ex_holds:
  "holds small_group ex_state 0 (Aff 2 7)" "holds small_group ex_state 1 (Aff 5 2)"
  "holds small_group ex_state 2 Inf" "holds small_group ex_state 3 (Aff 5 2)"
  by (simp_all add: holds_def pt_of_def represents_def pt_ok_def jac_rep_def small_group_def ex_state_def ex_point_def
      gfp_fac_def red_def eqm_def)

lemma ex_on: "gon small_group (Aff 2 7)" "gon small_group (Aff 5 2)"
  by (simp_all add: small_curve red_def eqm_def)

text \<open>
C31: What a stale flag does. \<open>tpl\<close> leaves the flag \<open>Z_is_one\<close> of its result as it was. For every finite
point of a nonsingular curve tripled into an object whose flag is set (in place or not), the
coordinates written are those of \<open>3P\<close> and the flag stays true, while the \<open>Z\<close> they need is \<open>c\<close>: the
object is a well-formed \<open>3P\<close> iff \<open>c\<close> is one modulo \<open>p\<close>, and the library's own curve test answers for
the point \<open>(c\<^sup>2 x, c\<^sup>3 y)\<close> instead of \<open>3P = (x, y)\<close>.
\<close>

theorem tpl_stale_flag:
  assumes "curve_ok g" "holds g s a (Aff x y)" "gon g (Aff x y)" "holds g s r Q" "Z1of s r"
  defines "c \<equiv> tpl_Z g x y (zdec (gfp_fac g) (heap s a))"
    and "R \<equiv> gadd g (gadd g (Aff x y) (Aff x y)) (Aff x y)"
  shows "returns (EC_POINT_tpl g r a True s) (\<lambda>s'. frame r s s' \<and> Z1of s' r \<and>
    jac_rep (g_field g) (gfp_fac g) (heap s' r) R \<and>
    (holds g s' r R \<longleftrightarrow> eqm (g_field g) c 1) \<and>
    EC_POINT_is_on_curve g (heap s' r) True = (if gon g (read_scaled (g_field g) c R) then 1 else 0))"
proof (rule returns_mono [OF tpl_flagged [OF assms(1-5), folded c_def, folded R_def]], elim conjE, intro conjI)
  fix s' :: ec_state assume s': "pt_of g (heap s' r)" "Z1of s' r" "jac_rep (g_field g) (gfp_fac g) (heap s' r) R"
    "red (g_field g) (Xof s' r)" "red (g_field g) (Yof s' r)" "red (g_field g) (Zof s' r)"
    "eqm (g_field g) (Zof s' r * gfp_fac g) c"
  have w: "red (g_field g) (Zof s r)" "eqm (g_field g) (Zof s r * gfp_fac g) 1"
    using holdsD(4) [OF assms(4)] assms(5) by (simp_all add: pt_ok_def)
  show "EC_POINT_is_on_curve g (heap s' r) True = (if gon g (read_scaled (g_field g) c R) then 1 else 0)"
    by (rule flagged_read [OF curve_valid [OF assms(1)] s'(1,2,4,5,3,7) w])
  have "eqm (g_field g) (Zof s' r * gfp_fac g) 1 \<longleftrightarrow> eqm (g_field g) c 1"
    using s'(7) by (auto intro: eqm_trans eqm_sym)
  with s' show "holds g s' r R \<longleftrightarrow> eqm (g_field g) c 1"
    by (simp add: holds_def represents_def pt_ok_def)
qed

theorem tpl_stale_flag_witness:
  "returns (EC_POINT_tpl small_group 3 3 True ex_state) (\<lambda>s. Z1of s 3 \<and> jac_rep 11 1 (heap s 3) (Aff 7 9) \<and>
    \<not> holds small_group s 3 (Aff 7 9) \<and> EC_POINT_is_on_curve small_group (heap s 3) True = 0)"
proof -
  have z: "Z1of ex_state 3" by (simp add: ex_state_def ex_point_def)
  have c: "tpl_Z small_group 5 2 (zdec 1 (heap ex_state 3)) = - 11072"
    using z by (simp add: tpl_Z_def zdec_def small_curve)
  have u: "gfp_fac small_group = 1" by (simp add: gfp_fac_def small_group_def)
  from tpl_stale_flag [OF small_curve_ok ex_holds(4) ex_on(2) ex_holds(4) z] show ?thesis
    by (simp add: c u small_curve chord_def minv_def Let_def eqm_def red_def) (elim returns_mono, simp)
qed

text \<open>
C39: Programs of point operations. A sequence of additions, doublings, triplings, negations, copies and
resets on points at addresses \<open>A\<close>, with operands and results overlapping in any way, ends with every
address holding the point the group law gives it, accepted by the curve test, and compared equal
exactly to the addresses that hold the same point, as long as it never triples into an object that
the analysis \<open>flag_safe\<close> thinks may be flagged. Nothing but the results is written.
\<close>

theorem point_program_correct:
  assumes "curve_ok g" "\<forall>a\<in>A. holds g s a (E a) \<and> gon g (E a)" "\<forall>a\<in>A. Z1of s a \<longrightarrow> a \<in> F"
    "\<forall>i\<in>set prog. result_of i \<in> A \<and> set (operands i) \<subseteq> A" "flag_safe F prog"
  shows "returns (exec_prog g prog s) (\<lambda>s'.
    (\<forall>a\<in>A. holds g s' a (point_prog g prog E a) \<and> EC_POINT_is_on_curve g (heap s' a) True = 1) \<and>
    (\<forall>a\<in>A. \<forall>b\<in>A. EC_POINT_cmp g (heap s' a) (heap s' b) True =
      (if point_prog g prog E a = point_prog g prog E b then 0 else 1)) \<and>
    (\<forall>a. a \<notin> result_of ` set prog \<longrightarrow> heap s' a = heap s a))"
proof -
  have v: "gfp_valid g" using assms(1) by (rule curve_valid)
  have "on_heap g A F E s" using assms(2,3) by (simp add: on_heap_def)
  from exec_prog_step [OF assms(1) this assms(4,5)] show ?thesis
    by (rule returns_mono) (auto simp: on_heap_def cmp_holds [OF v] on_curve_holds [OF v])
qed

theorem point_program_correct_witness:
  "returns (exec_prog small_group [Op_dbl 2 0, Op_tpl 2 2, Op_add 2 2 0, Op_invert 2, Op_tpl 1 1] ex_state)
    (\<lambda>s'. holds small_group s' 2 (Aff 7 9) \<and> EC_POINT_cmp small_group (heap s' 1) (heap s' 2) True = 0)"
proof -
  let ?E = "\<lambda>a::nat. if a = 0 then Aff 2 7 else if a = 2 then Inf else Aff 5 2"
  let ?p = "[Op_dbl 2 0, Op_tpl 2 2, Op_add 2 2 0, Op_invert 2, Op_tpl 1 1]"
  have E: "point_prog small_group ?p ?E 1 = Aff 7 9" "point_prog small_group ?p ?E 2 = Aff 7 9"
    by (simp_all add: small_curve chord_def minv_def Let_def)
  have "\<forall>a\<in>{0, 1, 2}. holds small_group ex_state a (?E a) \<and> gon small_group (?E a)"
    using ex_holds ex_on by simp
  moreover have "\<forall>a\<in>{0, 1, 2}. Z1of ex_state a \<longrightarrow> a \<in> {0}" by (simp add: ex_state_def ex_point_def)
  moreover have "\<forall>i\<in>set ?p. result_of i \<in> {0, 1, 2} \<and> set (operands i) \<subseteq> {0, 1, 2}" by simp
  moreover have "flag_safe {0} ?p" by (simp add: flags_after_def)
  ultimately have "returns (exec_prog small_group ?p ex_state) (\<lambda>s'.
      (\<forall>a\<in>{0, 1, 2}. holds small_group s' a (point_prog small_group ?p ?E a) \<and>
        EC_POINT_is_on_curve small_group (heap s' a) True = 1) \<and>
      (\<forall>a\<in>{0, 1, 2}. \<forall>b\<in>{0, 1, 2}. EC_POINT_cmp small_group (heap s' a) (heap s' b) True =
        (if point_prog small_group ?p ?E a = point_prog small_group ?p ?E b then 0 else 1)) \<and>
      (\<forall>a. a \<notin> result_of ` set ?p \<longrightarrow> heap s' a = heap ex_state a))"
    by (rule point_program_correct [OF small_curve_ok])
  then show ?thesis by (rule returns_mono) (use E in \<open>auto simp del: point_prog.simps\<close>)
qed

text \<open>
C2: The multiplication along a double-base chain computes \<open>n P\<close>, where \<open>n\<close> is the value of the chain
(the sum of its terms, the leading one positive), for every chain whose exponents fall. It is right
for every point whose \<open>Z_is_one\<close> flag is false; for a flagged point it needs that no partial
multiple of the chain is infinity, because \<open>EC_POINT_add\<close> then copies the flag to \<open>r\<close> and the next
\<open>EC_POINT_tpl\<close> keeps it.
\<close>

theorem DBC_POINT_mul_correct:
  assumes "curve_ok g" "gon g P" "holds g s a P" "holds g s r R" "n \<noteq> a" "n \<noteq> r" "r \<noteq> a"
    "map store [0..<dbc_len] = (k, d, t) # terms" "dbc_chain d t terms"
    "Z1of s a \<longrightarrow> (\<forall>w\<in>set (2 # dbc_partials 1 d t terms). gmul g w P \<noteq> Inf)"
  shows "returns (DBC_POINT_mul g r a store dbc_len (Some n) True s) (\<lambda>s'.
    holds g s' r (gmul g (dbc_value (map store [0..<dbc_len])) P) \<and>
    (\<forall>b. b \<noteq> r \<and> b \<noteq> n \<longrightarrow> heap s' b = heap s b))"
  using DBC_POINT_mul_holds [OF assms] assms(8) by simp

text \<open>The witness: \<open>11 = 2\<^sup>2 3 - 1\<close> on the flagged point \<open>(2, 7)\<close>.\<close>

theorem DBC_POINT_mul_correct_witness:
  "returns (DBC_POINT_mul small_group 2 0 (\<lambda>i. if i = 0 then (1, 2, 1) else (- 1, 0, 0)) 2 (Some 9) True ex_state)
    (\<lambda>s'. holds small_group s' 2 (Aff 5 9) \<and> (\<forall>b. b \<noteq> 2 \<and> b \<noteq> 9 \<longrightarrow> heap s' b = heap ex_state b))"
proof -
  let ?st = "\<lambda>i. if i = 0 then (1, 2, 1) else (- 1, 0, 0) :: int \<times> int \<times> int"
  have m: "map ?st [0..<2] = [(1, 2, 1), (- 1, 0, 0)]" by (simp add: numeral_2_eq_2)
  have v: "aff_smul 11 1 2 (Aff 2 7) \<noteq> Inf" "aff_smul 11 1 12 (Aff 2 7) \<noteq> Inf"
    "aff_smul 11 1 11 (Aff 2 7) = Aff 5 9" by code_simp+
  have c: "dbc_chain 2 1 [(- 1, 0, 0)]" "dbc_partials 1 2 1 [(- 1, 0, 0)] = [12]"
    "dbc_value [(1, 2, 1), (- 1, 0, 0)] = 11" by (simp_all add: term_value_def)
  have f: "Z1of ex_state 0 \<longrightarrow> (\<forall>w\<in>set (2 # dbc_partials 1 2 1 [(- 1, 0, 0)]). gmul small_group w (Aff 2 7) \<noteq> Inf)"
    unfolding c(2) small_curve using v(1,2) by simp
  from DBC_POINT_mul_correct [OF small_curve_ok ex_on(1) ex_holds(1,3) _ _ _ m c(1) f, of 9]
  show ?thesis unfolding m c(3) small_curve v(3) by simp
qed

text \<open>
C24: The library's Montgomery ladder computes \<open>k P\<close> for every scalar, negative or longer than the
order included, when the cardinality (order times cofactor) annihilates \<open>P\<close>: with an explicit point
or the generator, in place or not, for \<open>P\<close> in any coordinates, whatever blinding factors the random
generator gives.
\<close>

theorem ossl_ec_scalar_mul_ladder_correct:
  assumes "curve_ok g" "gon g P" "g_order g \<noteq> 0" "g_cofactor g \<noteq> 0" "0 < g_order g * g_cofactor g"
    "gmul g (g_order g * g_cofactor g) P = Inf"
    "(case point of None \<Rightarrow> g_generator g | Some pt \<Rightarrow> Some pt) = Some a"
    "holds g s a P" "holds g s r Q" "point = None \<longrightarrow> P \<noteq> Inf"
    "m \<noteq> n" "m \<noteq> r" "n \<noteq> r" "m \<noteq> a" "n \<noteq> a" "rng_avail g 4 (rng s)"
  shows "returns (ossl_ec_scalar_mul_ladder g r k point (Some m) (Some n) True s) (\<lambda>s'.
    holds g s' r (gmul g k P) \<and> (\<forall>b. b \<noteq> r \<and> b \<noteq> m \<and> b \<noteq> n \<longrightarrow> heap s' b = heap s b))"
  using assms by (rule scalar_mul_ladder_holds)

theorem ossl_ec_scalar_mul_ladder_correct_witness:
  "returns (ossl_ec_scalar_mul_ladder small_group 1 (- 3) (Some 1) (Some 8) (Some 9) True ex_state)
    (\<lambda>s'. holds small_group s' 1 (Aff 7 2) \<and> (\<forall>b. b \<noteq> 1 \<and> b \<noteq> 8 \<and> b \<noteq> 9 \<longrightarrow> heap s' b = heap ex_state b))"
proof -
  have v: "aff_smul 11 1 13 (Aff 5 2) = Inf" "aff_smul 11 1 (- 3) (Aff 5 2) = Aff 7 2" by code_simp+
  have o: "g_order small_group = 13" "g_cofactor small_group = 1" by (simp_all add: small_group_def)
  have av: "rng_avail small_group 4 (rng ex_state)"
    by (simp add: rng_avail_def ex_state_def small_group_def red_def)
  show ?thesis
    using ossl_ec_scalar_mul_ladder_correct [OF small_curve_ok ex_on(2) _ _ _ _ _ ex_holds(2,2) _ _ _ _ _ _ av,
        of "Some 1" 8 9 "- 3"] v o
    by (simp add: small_curve)
qed



text \<open>
C32: The multiplication by the non-adjacent form returns for every scalar that is not negative and
leaves \<open>k P\<close> in \<open>R\<close>, except that for \<open>k = 0\<close> it leaves \<open>P\<close> itself: the loop starts from a copy of
\<open>G\<close>, although the digits of zero are \<open>[0]\<close>.
\<close>

theorem NAF_POINT_mul_correct:
  assumes "curve_ok g" "gon g P" "holds g s G P" "holds g s R Q" "0 \<le> k" "n \<noteq> G" "n \<noteq> R" "R \<noteq> G"
  shows "returns (NAF_POINT_mul g R G k (Some n) True s) (\<lambda>(TTV, s').
    holds g s' R (gmul g (if k = 0 then 1 else k) P) \<and> (\<forall>b. b \<noteq> R \<and> b \<noteq> n \<longrightarrow> heap s' b = heap s b))"
  using assms by (rule NAF_POINT_mul_holds)

theorem NAF_POINT_mul_correct_witness:
  "returns (NAF_POINT_mul small_group 2 0 0 (Some 9) True ex_state) (\<lambda>(TTV, s').
    holds small_group s' 2 (Aff 2 7) \<and> (\<forall>b. b \<noteq> 2 \<and> b \<noteq> 9 \<longrightarrow> heap s' b = heap ex_state b)) \<and>
   returns (NAF_POINT_mul small_group 2 0 11 (Some 9) True ex_state) (\<lambda>(TTV, s').
    holds small_group s' 2 (Aff 5 9) \<and> (\<forall>b. b \<noteq> 2 \<and> b \<noteq> 9 \<longrightarrow> heap s' b = heap ex_state b))"
proof -
  have v: "aff_smul 11 1 11 (Aff 2 7) = Aff 5 9" by code_simp
  from NAF_POINT_mul_correct [OF small_curve_ok ex_on(1) ex_holds(1,3), of 0 9]
    NAF_POINT_mul_correct [OF small_curve_ok ex_on(1) ex_holds(1,3), of 11 9]
  show ?thesis unfolding small_curve by (simp add: v)
qed

text \<open>
C33: The digits \<open>int_to_naf\<close> gives for a positive number are \<open>-1, 0, 1\<close>, no two neighbours are nonzero,
the leading digit is 1 and their value is the number; for zero the code gives \<open>[0]\<close>; for a negative
number the loop never ends.
\<close>

theorem int_to_naf_form:
  "(0 < n \<longrightarrow> returns (int_to_naf n) (\<lambda>ds. digits_value (rev ds) = n \<and> non_adjacent (rev ds) \<and> hd ds = 1)) \<and>
   int_to_naf 0 = Some [0] \<and> (n < 0 \<longrightarrow> int_to_naf n = None)"
proof (intro conjI impI)
  assume "0 < n"
  then show "returns (int_to_naf n) (\<lambda>ds. digits_value (rev ds) = n \<and> non_adjacent (rev ds) \<and> hd ds = 1)"
    by (rule int_to_naf_correct) simp
next
  assume "n < 0"
  then have "naf_loop n = None" using naf_loop_nonneg [of n] by (cases "naf_loop n") auto
  with \<open>n < 0\<close> show "int_to_naf n = None" by (simp add: int_to_naf_def)
qed (simp add: int_to_naf_def)

theorem int_to_naf_form_witness:
  "returns (int_to_naf 11) (\<lambda>ds. digits_value (rev ds) = 11 \<and> non_adjacent (rev ds) \<and> hd ds = 1) \<and>
   int_to_naf (- 1) = None"
  using int_to_naf_form [of 11] int_to_naf_form [of "- 1"] by simp

text \<open>
The binary method adds \<open>|n| P\<close> to what \<open>r\<close> holds: it does not clear \<open>r\<close>, so it computes the
multiple only from a fresh \<open>r\<close>, and it ignores the sign of the scalar.
\<close>

theorem binary_POINT_mul_correct:
  assumes "curve_ok g" "gon g P" "holds g s a P" "holds g s r (gmul g u P)" "m \<noteq> a" "m \<noteq> r"
  shows "returns (binary_POINT_mul g r a n (Some m) True s) (\<lambda>(TTV, s').
    holds g s' r (gmul g (u + \<bar>n\<bar>) P) \<and> (\<forall>b. b \<noteq> r \<and> b \<noteq> m \<longrightarrow> heap s' b = heap s b))"
  using assms by (rule binary_POINT_mul_holds)

theorem binary_POINT_mul_correct_witness:
  "returns (binary_POINT_mul small_group 2 0 5 (Some 9) True ex_state) (\<lambda>(TTV, s').
    holds small_group s' 2 (Aff 3 6) \<and> (\<forall>b. b \<noteq> 2 \<and> b \<noteq> 9 \<longrightarrow> heap s' b = heap ex_state b))"
proof -
  have v: "aff_smul 11 1 5 (Aff 2 7) = Aff 3 6" by code_simp
  have h: "holds small_group ex_state 2 (gmul small_group 0 (Aff 2 7))" using ex_holds(3) by simp
  from binary_POINT_mul_correct [OF small_curve_ok ex_on(1) ex_holds(1) h, of 9 5]
  show ?thesis unfolding small_curve by (simp add: v)
qed

text \<open>
The library's addition is associative on its own terms: the two ways to add three points of a
nonsingular curve, in place and in any coordinates, give points \<open>EC_POINT_cmp\<close> reports equal.
\<close>

theorem EC_POINT_add_assoc:
  assumes "curve_ok g" "gon g P" "gon g Q" "gon g S" "holds g s a P" "holds g s b Q" "holds g s c S"
    "holds g s r X" "holds g s q Y" "r \<noteq> q" "r \<notin> {a, b, c}" "q \<notin> {a, b, c}"
  shows "returns (do {
      s \<leftarrow> EC_POINT_add g r a b True s;
      s \<leftarrow> EC_POINT_add g r r c True s;
      s \<leftarrow> EC_POINT_add g q b c True s;
      s \<leftarrow> EC_POINT_add g q a q True s;
      Some (EC_POINT_cmp g (heap s r) (heap s q) True)
    }) (\<lambda>res. res = 0)"
proof -
  note va = curve_valid [OF assms(1)]
  obtain s1 where s1: "EC_POINT_add g r a b True s = Some s1" "frame r s s1" "holds g s1 r (gadd g P Q)"
    using add_holds [OF va assms(5,6,8)] by (auto simp: returns_ex)
  have h1: "holds g s1 a P" "holds g s1 b Q" "holds g s1 c S" "holds g s1 q Y"
    using holds_frame [OF _ s1(2)] assms(5-12) by auto
  obtain s2 where s2: "EC_POINT_add g r r c True s1 = Some s2" "frame r s1 s2" "holds g s2 r (gadd g (gadd g P Q) S)"
    using add_holds [OF va s1(3) h1(3) s1(3)] by (auto simp: returns_ex)
  have h2: "holds g s2 a P" "holds g s2 b Q" "holds g s2 c S" "holds g s2 q Y"
    using holds_frame [OF _ s2(2)] h1 assms(10-12) by auto
  obtain s3 where s3: "EC_POINT_add g q b c True s2 = Some s3" "frame q s2 s3" "holds g s3 q (gadd g Q S)"
    using add_holds [OF va h2(2,3,4)] by (auto simp: returns_ex)
  have h3: "holds g s3 a P" "holds g s3 r (gadd g (gadd g P Q) S)"
    using holds_frame [OF h2(1) s3(2)] holds_frame [OF s2(3) s3(2)] assms(10-12) by auto
  obtain s4 where s4: "EC_POINT_add g q a q True s3 = Some s4" "frame q s3 s4" "holds g s4 q (gadd g P (gadd g Q S))"
    using add_holds [OF va h3(1) s3(3,3)] by (auto simp: returns_ex)
  have "holds g s4 r (gadd g (gadd g P Q) S)" using holds_frame [OF h3(2) s4(2)] assms(10) by simp
  from cmp_holds [OF va this s4(3)] law.add_assoc [of "Curve g" P Q S] assms(1-4)
  have "EC_POINT_cmp g (heap s4 r) (heap s4 q) True = 0" by (simp add: group_of_Curve del: aff_add.simps)
  with s1(1) s2(1) s3(1) s4(1) show ?thesis by simp
qed

theorem EC_POINT_add_assoc_witness:
  "returns (do {
      s \<leftarrow> EC_POINT_add small_group 2 0 1 True ex_state;
      s \<leftarrow> EC_POINT_add small_group 2 2 0 True s;
      s \<leftarrow> EC_POINT_add small_group 4 1 0 True s;
      s \<leftarrow> EC_POINT_add small_group 4 0 4 True s;
      Some (EC_POINT_cmp small_group (heap s 2) (heap s 4) True)
    }) (\<lambda>res. res = 0)"
proof -
  have h: "holds small_group ex_state 4 Inf" using ex_holds(3) by (simp add: holds_def ex_state_def)
  from EC_POINT_add_assoc [OF small_curve_ok ex_on(1,2,1) ex_holds(1,2,1,3) h] show ?thesis by simp
qed

section \<open>Coordinates\<close>

lemma set_affine_holds:
  assumes "gfp_valid g" "pt_of g (heap s r)" "P = Aff (x mod g_field g) (y mod g_field g)"
  shows "if gon g P
    then returns (EC_POINT_set_affine_coordinates g r (Some x) (Some y) True s) (\<lambda>s'. frame r s s' \<and>
      holds g s' r P \<and> Z1of s' r \<and> rng s' = rng s)
    else EC_POINT_set_affine_coordinates g r (Some x) (Some y) True s = None"
  using gfp.set_affine_ret [OF assms]
  by (auto simp: curve_A_def curve_B_def holds_def represents_def returns_ex split: if_splits)

lemma get_affine_holds:
  assumes "gfp_valid g" "holds g s r (Aff x y)" "rng_avail g (Suc n) (rng s)"
  shows "returns (EC_POINT_get_affine_coordinates g r wx wy True s) (\<lambda>(xy, s').
    xy = (if wx then Some x else None, if wy then Some y else None) \<and> heap s' = heap s)"
  unfolding coord_slots_holds [OF assms(1) holdsD(2) [OF assms(2)]]
  by (rule returns_mono [OF gfp.get_affine_ret [OF assms(1) holdsD(2,4,5) [OF assms(2)] assms(3)]]) auto

text \<open>
\<open>EC_POINT_set_affine_coordinates\<close> accepts exactly the pairs whose residues satisfy the curve
equation, and then the point is the pair, normalised; every other pair is an error.
\<close>

theorem EC_POINT_set_affine_coordinates_correct:
  assumes "gfp_valid g" "pt_of g (heap s r)" "P = Aff (x mod g_field g) (y mod g_field g)"
  shows "if gon g P
    then returns (EC_POINT_set_affine_coordinates g r (Some x) (Some y) True s) (\<lambda>s'. frame r s s' \<and>
      holds g s' r P \<and> Z1of s' r)
    else EC_POINT_set_affine_coordinates g r (Some x) (Some y) True s = None"
  using set_affine_holds [OF assms] by (auto simp: returns_ex split: if_splits)

theorem EC_POINT_set_affine_coordinates_correct_witness:
  "returns (EC_POINT_set_affine_coordinates small_group 2 (Some 13) (Some (- 4)) True ex_state) (\<lambda>s'.
     frame 2 ex_state s' \<and> holds small_group s' 2 (Aff 2 7) \<and> Z1of s' 2) \<and>
   EC_POINT_set_affine_coordinates small_group 2 (Some 2) (Some 6) True ex_state = None"
  using EC_POINT_set_affine_coordinates_correct [OF ex_valid ex_pt_of, of "Aff 2 7" 13 "- 4" 2]
    EC_POINT_set_affine_coordinates_correct [OF ex_valid ex_pt_of, of "Aff 2 6" 2 6 2]
  by (simp add: small_curve red_def eqm_def)

text \<open>
Setting affine coordinates of a point of the curve and reading them back gives their residues,
and a point in any coordinates can be read as its affine pair; only the wanted outputs are written.
\<close>

theorem affine_coordinates_round_trip:
  assumes "gfp_valid g" "pt_of g (heap s r)" "gon g (Aff (x mod g_field g) (y mod g_field g))"
    "rng_avail g 1 (rng s)"
  shows "returns (do {
      s \<leftarrow> EC_POINT_set_affine_coordinates g r (Some x) (Some y) True s;
      EC_POINT_get_affine_coordinates g r wx wy True s
    }) (\<lambda>(xy, s'). xy = (if wx then Some (x mod g_field g) else None, if wy then Some (y mod g_field g) else None))"
proof -
  obtain s1 where s1: "EC_POINT_set_affine_coordinates g r (Some x) (Some y) True s = Some s1"
    "holds g s1 r (Aff (x mod g_field g) (y mod g_field g))" "rng s1 = rng s"
    using set_affine_holds [OF assms(1,2) refl, of x y] assms(3) by (auto simp: returns_ex)
  have "rng_avail g (Suc 0) (rng s1)" using assms(4) s1(3) by simp
  from get_affine_holds [OF assms(1) s1(2) this, of wx wy] s1(1) show ?thesis
    by (auto simp: returns_ex)
qed

theorem affine_coordinates_round_trip_witness:
  "returns (do {
      s \<leftarrow> EC_POINT_set_affine_coordinates small_group 2 (Some 13) (Some (- 4)) True ex_state;
      EC_POINT_get_affine_coordinates small_group 2 True True True s
    }) (\<lambda>(xy, s'). xy = (Some 2, Some 7))"
proof -
  have "gon small_group (Aff (13 mod g_field small_group) (- 4 mod g_field small_group))"
    by (simp add: small_curve red_def eqm_def)
  moreover have "rng_avail small_group 1 (rng ex_state)"
    by (simp add: rng_avail_def ex_state_def small_group_def red_def)
  ultimately show ?thesis
    using affine_coordinates_round_trip [OF ex_valid ex_pt_of, of 13 "- 4" 2 True True] by (simp add: small_curve)
qed

text \<open>
C30: \<open>EC_POINTs_make_affine\<close> normalises an array of distinct points with one inversion: every
point is kept, every finite one gets \<open>Z = 1\<close>, points at infinity are skipped without disturbing the
others, and the rest of the store is left alone.
\<close>

theorem EC_POINTs_make_affine_correct:
  assumes "gfp_valid g" "distinct ps" "\<forall>p\<in>set ps. holds g s p (P p)" "rng_avail g (Suc n) (rng s)"
  shows "returns (EC_POINTs_make_affine g ps True s) (\<lambda>s'. rng_avail g n (rng s') \<and>
    (\<forall>a. a \<notin> set ps \<longrightarrow> heap s' a = heap s a) \<and>
    (\<forall>p\<in>set ps. holds g s' p (P p) \<and> (P p \<noteq> Inf \<longrightarrow> Z1of s' p)))"
proof -
  have "list_all (\<lambda>p. ec_point_is_compat (heap s p) g) ps"
    using assms(3) by (auto simp: list_all_iff dest: holdsD(2))
  then have "EC_POINTs_make_affine g ps True s = ossl_ec_GFp_simple_points_make_affine g ps True s"
    using gfp.meth_law [OF assms(1)] by (auto simp: EC_POINTs_make_affine_def Let_def)
  moreover have "\<forall>p\<in>set ps. pt_of g (heap s p)" using assms(3) by (simp add: holds_def)
  moreover have "\<forall>p\<in>set ps. pt_ok (g_field g) (gfp_fac g) (heap s p) \<and> jac_rep (g_field g) (gfp_fac g) (heap s p) (P p)"
    using assms(3) by (simp add: holds_def represents_def)
  ultimately show ?thesis
    using gfp.points_make_affine_ret [OF assms(1,2) _ _ assms(4), of P] by (simp add: holds_def represents_def)
qed

theorem EC_POINTs_make_affine_correct_witness:
  "returns (EC_POINTs_make_affine small_group [1, 2, 0] True ex_state) (\<lambda>s'.
    holds small_group s' 1 (Aff 5 2) \<and> Z1of s' 1 \<and> holds small_group s' 2 Inf \<and>
    holds small_group s' 0 (Aff 2 7) \<and> Z1of s' 0)"
proof -
  have "rng_avail small_group (Suc 0) (rng ex_state)"
    by (simp add: rng_avail_def ex_state_def small_group_def red_def)
  moreover have "\<forall>p\<in>set [1, 2, 0]. holds small_group ex_state p (if p = 1 then Aff 5 2 else if p = 2 then Inf else Aff 2 7)"
    using ex_holds by simp
  ultimately show ?thesis
    using EC_POINTs_make_affine_correct [OF ex_valid, of "[1, 2, 0]" ex_state
        "\<lambda>p. if p = 1 then Aff 5 2 else if p = 2 then Inf else Aff 2 7" 0]
    by (simp add: returns_ex) (elim exE, auto)
qed

text \<open>
Blinding keeps the point, whatever the random generator gives, even when it fails.
\<close>

theorem ossl_ec_point_blind_coordinates_correct:
  assumes "gfp_valid g" "holds g s r P" "list_all (red (g_field g)) (rng s)"
  shows "returns (ossl_ec_point_blind_coordinates g r True s) (\<lambda>s'. frame r s s' \<and> holds g s' r P)"
  using assms by (intro returns_mono [OF blind_holds [of g s r P 0]]) (simp_all add: rng_avail_def)

theorem ossl_ec_point_blind_coordinates_correct_witness:
  "returns (ossl_ec_point_blind_coordinates small_group 1 True ex_state) (\<lambda>s'. frame 1 ex_state s' \<and>
    holds small_group s' 1 (Aff 5 2))"
  by (rule ossl_ec_point_blind_coordinates_correct [OF ex_valid ex_holds(2)])
    (simp add: ex_state_def small_group_def red_def)

section \<open>Sums of multiples\<close>

text \<open>The small group with the generator at address 1.\<close>

definition ex_group :: ec_group where
  "ex_group = small_group\<lparr>g_generator := Some 1\<rparr>"

lemma ex_group_simps [simp]: "g_field ex_group = 11" "curve_A ex_group = 1" "curve_B ex_group = 6"
  "g_order ex_group = 13" "g_cofactor ex_group = 1" "g_generator ex_group = Some 1"
  by (simp_all add: ex_group_def small_group_def curve_A_def curve_B_def gfp_fac_def)

lemma ex_group_holds: "holds ex_group s a P = holds small_group s a P"
  by (simp add: ex_group_def small_group_def holds_def pt_of_def represents_def gfp_fac_def)

lemma ex_group_ok: "curve_ok ex_group"
  using small_curve_ok
  by (simp add: curve_ok_def gfp_valid_def simple_valid_def mont_valid_def small_curve)
    (simp add: ex_group_def small_group_def)

lemma ex_avail: "rng_avail ex_group 1 (rng ex_state)"
  by (simp add: rng_avail_def ex_state_def red_def)

lemma ex_address: "n \<noteq> 0 \<Longrightarrow> n \<noteq> 1 \<Longrightarrow> n \<noteq> 3 \<Longrightarrow> holds small_group ex_state n Inf"
  using ex_holds(3) by (simp add: holds_def ex_state_def)

text \<open>
C29: For a window of 1 to 7 bits, \<open>bn_compute_wNAF\<close> never meets one of its internal errors and its loop
ends: the digits stand for the scalar, each is zero or odd and below \<open>2 ^ win\<close> (so it fits the signed
char), and there is at most one more than the scalar has bits (so the array is large enough).
\<close>

theorem bn_compute_wNAF_correct:
  assumes "0 < win" "win \<le> 7"
  shows "returns (bn_compute_wNAF scalar win) (\<lambda>r. wnaf_value r = scalar \<and>
    list_all (\<lambda>d. d = 0 \<or> odd d \<and> \<bar>d\<bar> < 2 ^ nat win) r \<and> length r \<le> z_num_bits scalar + 1)"
proof -
  obtain r where r: "bn_compute_wNAF scalar win = Some r" "wnaf_value r = scalar" "list_all (wnaf_digit_ok (nat win)) r"
    "length r \<le> z_num_bits scalar + 1" by (rule wNAF_digits [OF assms, of scalar])
  then show ?thesis by (simp add: wnaf_digit_ok_def [abs_def])
qed

theorem bn_compute_wNAF_correct_witness:
  "returns (bn_compute_wNAF (- 2731) 3) (\<lambda>r. wnaf_value r = - 2731 \<and>
    list_all (\<lambda>d. d = 0 \<or> odd d \<and> \<bar>d\<bar> < 8) r \<and> length r \<le> z_num_bits (- 2731) + 1)"
  using bn_compute_wNAF_correct [of 3 "- 2731"] by simp

text \<open>
C26: \<open>EC_POINTs_mul\<close> computes the sum of the multiples of its points, and of the generator when a scalar
is given for it, by the interleaved wNAF method (every call that is not handed to the ladder): the
scalars may be zero, negative or of any size, the points may be infinity, repeated or equal to \<open>r\<close>.
\<close>

theorem EC_POINTs_mul_correct:
  assumes "curve_ok g" "points \<noteq> []" "\<not> to_ladder g scalar points" "scalar \<noteq> None \<longrightarrow> g_generator g \<noteq> None"
    "\<forall>(k, p) \<in> set (mul_summands g scalar points). gon g (Pt p) \<and> holds g s p (Pt p) \<and> p \<notin> set fresh"
    "holds g s r Q" "r \<notin> set fresh" "distinct fresh" "wnaf_room (mul_summands g scalar points) \<le> length fresh"
    "rng_avail g 1 (rng s)"
  shows "returns (EC_POINTs_mul g r scalar points fresh True s) (\<lambda>s'.
    holds g s' r (gsum g (map (\<lambda>(k, p). (k, Pt p)) (mul_summands g scalar points))) \<and>
    (\<forall>a. a \<noteq> r \<and> a \<notin> set fresh \<longrightarrow> heap s' a = heap s a))"
proof -
  have "ec_point_is_compat (heap s p) g" if "(k, p) \<in> set points" for k p
  proof -
    have "(bn_arg_value g k, p) \<in> set (mul_summands g scalar points)"
      using imageI [OF that, of "\<lambda>(k, p). (bn_arg_value g k, p)"] by (simp add: mul_summands_def)
    with assms(5) show ?thesis using holdsD(2) by blast
  qed
  then have "list_all (\<lambda>(k, p). ec_point_is_compat (heap s p) g) points" by (auto simp: list_all_iff)
  then have "EC_POINTs_mul g r scalar points fresh True s = ossl_ec_wNAF_mul g r scalar points fresh True s"
    using assms(2) holdsD(2) [OF assms(6)] mul_slot [OF curve_valid [OF assms(1)]] by (simp add: EC_POINTs_mul_def)
  with wNAF_mul_holds [OF assms(1,3-10)] show ?thesis by simp
qed

theorem EC_POINTs_mul_correct_witness:
  "returns (EC_POINTs_mul ex_group 2 (Some (Bn 7)) [(Bn (- 3), 0), (Bn 0, 2)] [10, 11, 12, 13] True ex_state) (\<lambda>s'.
    holds ex_group s' 2 (Aff 5 9) \<and> (\<forall>a. a \<noteq> 2 \<and> a \<notin> {10, 11, 12, 13} \<longrightarrow> heap s' a = heap ex_state a))"
proof -
  let ?Pt = "\<lambda>p. if p = 0 then Aff 2 7 else if p = 1 then Aff 5 2 else Inf :: apoint"
  let ?ks = "[(- 3, 0), (0, 2), (7, 1)] :: (int \<times> nat) list"
  have m: "mul_summands ex_group (Some (Bn 7)) [(Bn (- 3), 0), (Bn 0, 2)] = ?ks" by (simp add: mul_summands_def)
  have v: "aff_add 11 1 (aff_smul 11 1 (- 3) (Aff 2 7)) (aff_add 11 1 (aff_smul 11 1 0 Inf)
      (aff_add 11 1 (aff_smul 11 1 7 (Aff 5 2)) Inf)) = Aff 5 9" by code_simp
  have "wnaf_room ?ks \<le> length [10 :: nat, 11, 12, 13]" by code_simp
  moreover have "\<forall>(k, p) \<in> set ?ks. gon ex_group (?Pt p) \<and> holds ex_group ex_state p (?Pt p) \<and> p \<notin> set [10 :: nat, 11, 12, 13]"
    using ex_holds by (auto simp: ex_group_holds red_def eqm_def)
  ultimately show ?thesis
    using EC_POINTs_mul_correct [OF ex_group_ok, of "[(Bn (- 3), 0), (Bn 0, 2)]" "Some (Bn 7)" ?Pt ex_state
        "[10, 11, 12, 13]" 2 Inf] ex_avail ex_address [of 2] v
    by (simp add: m ex_group_holds to_ladder_def)
qed

text \<open>
\<open>EC_POINT_mul\<close> with two scalars, the call of signature verification, computes the multiple of
the point plus the multiple of the generator, without any assumption on the order of either; the
result may overwrite the point.
\<close>

theorem EC_POINT_mul_two_correct:
  assumes "curve_ok g" "g_generator g = Some gen" "gon g P" "gon g G" "holds g s p P" "holds g s gen G" "holds g s r Q"
    "{p, gen, r} \<inter> set fresh = {}" "distinct fresh"
    "wnaf_room [(bn_arg_value g k, p), (bn_arg_value g j, gen)] \<le> length fresh" "rng_avail g 1 (rng s)"
  shows "returns (EC_POINT_mul g r (Some j) (Some p) (Some k) fresh True s) (\<lambda>s'.
    holds g s' r (gadd g (gmul g (bn_arg_value g k) P) (gmul g (bn_arg_value g j) G)) \<and>
    (\<forall>a. a \<noteq> r \<and> a \<notin> set fresh \<longrightarrow> heap s' a = heap s a))"
proof -
  note va = curve_valid [OF assms(1)]
  define Pt where "Pt = (\<lambda>a. if a = p then P else G)"
  have G: "Pt gen = G" using holds_unique [OF va, of s p P G] assms(5,6) by (auto simp: Pt_def)
  have m: "mul_summands g (Some j) [(k, p)] = [(bn_arg_value g k, p), (bn_arg_value g j, gen)]"
    using assms(2) by (simp add: mul_summands_def)
  have run: "EC_POINT_mul g r (Some j) (Some p) (Some k) fresh True s = ossl_ec_wNAF_mul g r (Some j) [(k, p)] fresh True s"
    using holdsD(2) [OF assms(7)] holdsD(2) [OF assms(5)] mul_slot [OF va] by (simp add: EC_POINT_mul_def)
  have ps: "\<forall>(k, p) \<in> set (mul_summands g (Some j) [(k, p)]). gon g (Pt p) \<and> holds g s p (Pt p) \<and> p \<notin> set fresh"
    using assms(3-6,8) G by (simp add: m Pt_def)
  show ?thesis
    using wNAF_mul_holds [OF assms(1) _ _ ps assms(7) _ assms(9) _ assms(11)] assms(2,8,10) G
    by (simp add: run m to_ladder_def Pt_def del: aff_add.simps)
qed

theorem EC_POINT_mul_two_correct_witness:
  "returns (EC_POINT_mul ex_group 0 (Some (Bn 7)) (Some 0) (Some (Bn (- 3))) [10, 11, 12] True ex_state) (\<lambda>s'.
    holds ex_group s' 0 (Aff 5 9))"
proof -
  have v: "aff_add 11 1 (aff_smul 11 1 (- 3) (Aff 2 7)) (aff_smul 11 1 7 (Aff 5 2)) = Aff 5 9" by code_simp
  have "wnaf_room [(- 3, 0), (7, 1)] \<le> length [10 :: nat, 11, 12]" by code_simp
  with EC_POINT_mul_two_correct [OF ex_group_ok, of 1 "Aff 2 7" "Aff 5 2" ex_state 0 0 "Aff 2 7" "[10, 11, 12]" "Bn (- 3)" "Bn 7"]
  show ?thesis using ex_holds ex_avail v
    by (auto simp: ex_group_holds red_def eqm_def returns_ex)
qed

text \<open>
\<open>EC_POINT_mul\<close> with one scalar that is not the group's own order object goes to the ladder and
computes the multiple of the point, or of the generator when no point is given.
\<close>

theorem EC_POINT_mul_one_correct:
  assumes "curve_ok g" "gon g P" "g_order g \<noteq> 0" "g_cofactor g \<noteq> 0" "0 < g_order g * g_cofactor g"
    "gmul g (g_order g * g_cofactor g) P = Inf" "holds g s a P" "holds g s r Q"
    "(gs, pt, ps) = (None, Some a, Some (Bn k)) \<or> (gs, pt, ps) = (Some (Bn k), None, None) \<and> g_generator g = Some a \<and> P \<noteq> Inf"
    "m \<noteq> n" "m \<noteq> r" "n \<noteq> r" "m \<noteq> a" "n \<noteq> a" "rng_avail g 4 (rng s)"
  shows "returns (EC_POINT_mul g r gs pt ps [m, n] True s) (\<lambda>s'.
    holds g s' r (gmul g k P) \<and> (\<forall>b. b \<noteq> r \<and> b \<noteq> m \<and> b \<noteq> n \<longrightarrow> heap s' b = heap s b))"
proof -
  have "EC_POINT_mul g r gs pt ps [m, n] True s = ossl_ec_scalar_mul_ladder g r k pt (Some m) (Some n) True s"
    using assms(3,4,9) holdsD(2) [OF assms(7)] holdsD(2) [OF assms(8)] mul_slot [OF curve_valid [OF assms(1)]]
    by (auto simp: EC_POINT_mul_def ossl_ec_wNAF_mul_def alloc_at_def Let_def)
  moreover have "(case pt of None \<Rightarrow> g_generator g | Some pt \<Rightarrow> Some pt) = Some a" "pt = None \<longrightarrow> P \<noteq> Inf"
    using assms(9) by auto
  ultimately show ?thesis
    using scalar_mul_ladder_holds [OF assms(1-6) _ assms(7,8) _ assms(10-15)] by simp
qed

theorem EC_POINT_mul_one_correct_witness:
  "returns (EC_POINT_mul ex_group 2 (Some (Bn 7)) None None [8, 9] True ex_state) (\<lambda>s'.
    holds ex_group s' 2 (Aff 2 7)) \<and>
   returns (EC_POINT_mul ex_group 1 None (Some 1) (Some (Bn (- 3))) [8, 9] True ex_state) (\<lambda>s'.
    holds ex_group s' 1 (Aff 7 2))"
proof -
  have v: "aff_smul 11 1 13 (Aff 5 2) = Inf" "aff_smul 11 1 (- 3) (Aff 5 2) = Aff 7 2" "aff_smul 11 1 7 (Aff 5 2) = Aff 2 7"
    by code_simp+
  have av: "rng_avail ex_group 4 (rng ex_state)" by (simp add: rng_avail_def ex_state_def red_def)
  have h: "holds ex_group ex_state 1 (Aff 5 2)" "holds ex_group ex_state 2 Inf" "gon ex_group (Aff 5 2)"
    using ex_holds by (simp_all add: ex_group_holds red_def eqm_def)
  have "returns (EC_POINT_mul ex_group 2 (Some (Bn 7)) None None [8, 9] True ex_state) (\<lambda>s'. holds ex_group s' 2 (Aff 2 7))"
    using EC_POINT_mul_one_correct [OF ex_group_ok h(3) _ _ _ _ h(1,2), of "Some (Bn 7)" None None 7 8 9] v av
    by (auto simp: returns_ex)
  moreover have "returns (EC_POINT_mul ex_group 1 None (Some 1) (Some (Bn (- 3))) [8, 9] True ex_state) (\<lambda>s'. holds ex_group s' 1 (Aff 7 2))"
    using EC_POINT_mul_one_correct [OF ex_group_ok h(3) _ _ _ _ h(1,1), of None "Some 1" "Some (Bn (- 3))" "- 3" 8 9] v av
    by (auto simp: returns_ex)
  ultimately show ?thesis by blast
qed

text \<open>
The check that a point has the group's order: multiplying by the order object itself avoids the
ladder (which assumes what is to be checked), so the result is infinity exactly for a point that the
order annihilates.
\<close>

theorem EC_POINT_mul_order_check:
  assumes "curve_ok g" "gon g P" "holds g s a P" "holds g s r Q" "a \<notin> set fresh" "r \<notin> set fresh" "distinct fresh"
    "wnaf_room [(g_order g, a)] \<le> length fresh" "rng_avail g 1 (rng s)"
  shows "returns (EC_POINT_mul g r None (Some a) (Some GroupOrder) fresh True s) (\<lambda>s'.
    EC_POINT_is_at_infinity g (heap s' r) \<longleftrightarrow> gmul g (g_order g) P = Inf)"
proof -
  note va = curve_valid [OF assms(1)]
  have m: "mul_summands g None [(GroupOrder, a)] = [(g_order g, a)]" by (simp add: mul_summands_def)
  have run: "EC_POINT_mul g r None (Some a) (Some GroupOrder) fresh True s =
      ossl_ec_wNAF_mul g r None [(GroupOrder, a)] fresh True s"
    using holdsD(2) [OF assms(3)] holdsD(2) [OF assms(4)] mul_slot [OF va] by (simp add: EC_POINT_mul_def)
  have "returns (ossl_ec_wNAF_mul g r None [(GroupOrder, a)] fresh True s) (\<lambda>s'. holds g s' r (gmul g (g_order g) P))"
    using wNAF_mul_holds [OF assms(1), of None "[(GroupOrder, a)]" "\<lambda>_. P" s fresh r Q] assms(2-9)
    by (auto simp: m to_ladder_def returns_ex)
  then show ?thesis unfolding run using holds_infinity [OF va] by (auto simp: returns_ex)
qed

theorem EC_POINT_mul_order_check_witness:
  "returns (EC_POINT_mul ex_group 2 None (Some 0) (Some GroupOrder) [10, 11] True ex_state) (\<lambda>s'.
    EC_POINT_is_at_infinity ex_group (heap s' 2))"
proof -
  have v: "aff_smul 11 1 13 (Aff 2 7) = Inf" by code_simp
  have "wnaf_room [(13, 0)] \<le> length [10 :: nat, 11]" by code_simp
  with EC_POINT_mul_order_check [OF ex_group_ok, of "Aff 2 7" ex_state 0 2 Inf "[10, 11]"]
  show ?thesis using ex_holds ex_avail v by (simp add: ex_group_holds red_def eqm_def)
qed

section \<open>Keys\<close>

text \<open>
Full validation of a public key accepts exactly the finite points on the curve that the group's order
annihilates; no other point passes, whatever coordinates represent it.
\<close>

theorem ossl_ec_key_public_check_correct:
  assumes "curve_ok g" "k_group key = Some g" "pub_key key = Some a" "holds g s a P" "b \<noteq> a"
    "{a, b} \<inter> set fresh = {}" "distinct fresh" "wnaf_room [(g_order g, a)] \<le> length fresh" "rng_avail g 2 (rng s)"
  shows "ossl_ec_key_public_check (Some key) (Some b) fresh True s \<noteq> None \<longleftrightarrow>
    P \<noteq> Inf \<and> gon g P \<and> g_order g \<noteq> 0 \<and> gmul g (g_order g) P = Inf"
proof -
  have "rng_avail g (Suc (Suc 0)) (rng s)" using assms(9) by (simp add: numeral_2_eq_2)
  from public_check_holds [OF assms(1-8) this] show ?thesis by (auto simp: returns_ex split: if_splits)
qed

text \<open>The witness: a point of order 13 passes, infinity does not.\<close>

theorem ossl_ec_key_public_check_correct_witness:
  "ossl_ec_key_public_check (Some \<lparr>k_group = Some ex_group, pub_key = Some 0, priv_key = None, k_flags = 0, dirty_cnt = 0\<rparr>) (Some 9) [10, 11] True ex_state \<noteq> None \<and>
   ossl_ec_key_public_check (Some \<lparr>k_group = Some ex_group, pub_key = Some 2, priv_key = None, k_flags = 0, dirty_cnt = 0\<rparr>) (Some 9) [10, 11] True ex_state = None"
proof -
  have v: "aff_smul 11 1 13 (Aff 2 7) = Inf" by code_simp
  have w: "wnaf_room [(13, a)] \<le> length [10 :: nat, 11]" for a
  proof -
    have "wnaf_room [(13, 0)] \<le> length [10 :: nat, 11]" by code_simp
    then show ?thesis by (simp add: wnaf_room_def)
  qed
  have av: "rng_avail ex_group 2 (rng ex_state)" by (simp add: rng_avail_def ex_state_def red_def)
  show ?thesis
    using ossl_ec_key_public_check_correct [OF ex_group_ok, of "\<lparr>k_group = Some ex_group, pub_key = Some 0, priv_key = None, k_flags = 0, dirty_cnt = 0\<rparr>"
        0 ex_state "Aff 2 7" 9 "[10, 11]"]
      ossl_ec_key_public_check_correct [OF ex_group_ok, of "\<lparr>k_group = Some ex_group, pub_key = Some 2, priv_key = None, k_flags = 0, dirty_cnt = 0\<rparr>"
        2 ex_state Inf 9 "[10, 11]"] ex_holds av v w
    by (simp add: ex_group_holds red_def eqm_def)
qed

text \<open>
The pairwise check accepts exactly when the public key is the private scalar times the generator.
\<close>

theorem ossl_ec_key_pairwise_check_correct:
  assumes "curve_ok g" "k_group key = Some g" "pub_key key = Some a" "priv_key key = Some d" "g_generator g = Some gen"
    "holds g s a P" "holds g s gen G" "gon g G" "G \<noteq> Inf" "g_order g \<noteq> 0" "g_cofactor g \<noteq> 0"
    "0 < g_order g * g_cofactor g" "gmul g (g_order g * g_cofactor g) G = Inf"
    "distinct [b, m, n]" "{a, gen} \<inter> {b, m, n} = {}" "rng_avail g 4 (rng s)"
  shows "ossl_ec_key_pairwise_check (Some key) (Some b) [m, n] True s \<noteq> None \<longleftrightarrow> P = gmul g d G"
proof -
  note v = curve_valid [OF assms(1)]
  obtain s1 where s1: "EC_POINT_new g (Some b) s = Some (b, s1)" "\<forall>c. c \<noteq> b \<longrightarrow> heap s1 c = heap s c" "holds g s1 b Inf"
    using new_holds [OF v, of b s] by (auto simp: returns_ex)
  have h1: "holds g s1 a P" "holds g s1 gen G" using assms(6,7,15) s1(2) by (auto simp: holds_def)
  have av1: "rng_avail g 4 (rng s1)" using assms(16) new_rng [OF s1(1)] by simp
  have "EC_POINT_mul g b (Some (Bn d)) None None [m, n] True s1 = ossl_ec_scalar_mul_ladder g b d None (Some m) (Some n) True s1"
    using assms(10,11) holdsD(2) [OF s1(3)] mul_slot [OF v]
    by (simp add: EC_POINT_mul_def ossl_ec_wNAF_mul_def alloc_at_def Let_def)
  moreover have "returns (ossl_ec_scalar_mul_ladder g b d None (Some m) (Some n) True s1) (\<lambda>st'.
      holds g st' b (gmul g d G) \<and> (\<forall>c. c \<noteq> b \<and> c \<noteq> m \<and> c \<noteq> n \<longrightarrow> heap st' c = heap s1 c))"
    by (rule scalar_mul_ladder_holds [OF assms(1,8,10-13) _ h1(2) s1(3)]) (use assms(5,9,14,15) av1 in auto)
  ultimately obtain s2 where s2: "EC_POINT_mul g b (Some (Bn d)) None None [m, n] True s1 = Some s2"
    "holds g s2 b (gmul g d G)" "\<forall>c. c \<noteq> b \<and> c \<noteq> m \<and> c \<noteq> n \<longrightarrow> heap s2 c = heap s1 c" by (auto simp: returns_ex)
  have "holds g s2 a P" using h1(1) s2(3) assms(15) by (auto simp: holds_def)
  from cmp_holds [OF v s2(2) this] show ?thesis
    using s1(1) s2(1) assms(2-4) by (auto simp: ossl_ec_key_pairwise_check_def)
qed

theorem ossl_ec_key_pairwise_check_correct_witness:
  "ossl_ec_key_pairwise_check (Some \<lparr>k_group = Some ex_group, pub_key = Some 0, priv_key = Some 7, k_flags = 0, dirty_cnt = 0\<rparr>) (Some 9) [10, 11] True ex_state \<noteq> None \<and>
   ossl_ec_key_pairwise_check (Some \<lparr>k_group = Some ex_group, pub_key = Some 3, priv_key = Some 7, k_flags = 0, dirty_cnt = 0\<rparr>) (Some 9) [10, 11] True ex_state = None"
proof -
  have v: "aff_smul 11 1 13 (Aff 5 2) = Inf" "aff_smul 11 1 7 (Aff 5 2) = Aff 2 7" by code_simp+
  have av: "rng_avail ex_group 4 (rng ex_state)" by (simp add: rng_avail_def ex_state_def red_def)
  have h3: "holds small_group ex_state 3 (Aff 5 2)"
    by (simp add: holds_def ex_pt_of) (simp add: represents_def pt_ok_def jac_rep_def ex_state_def ex_point_def
        small_group_def red_def gfp_fac_def eqm_def)
  show ?thesis
    using ossl_ec_key_pairwise_check_correct [OF ex_group_ok, of "\<lparr>k_group = Some ex_group, pub_key = Some 0, priv_key = Some 7, k_flags = 0, dirty_cnt = 0\<rparr>"
        0 7 1 ex_state "Aff 2 7" "Aff 5 2" 9 10 11]
      ossl_ec_key_pairwise_check_correct [OF ex_group_ok, of "\<lparr>k_group = Some ex_group, pub_key = Some 3, priv_key = Some 7, k_flags = 0, dirty_cnt = 0\<rparr>"
        3 7 1 ex_state "Aff 5 2" "Aff 5 2" 9 10 11] ex_holds h3 av v
    by (simp add: ex_group_holds red_def eqm_def)
qed

section \<open>Signatures\<close>

text \<open>
C22: Signing: with nonces below the order, \<open>ossl_ecdsa_simple_sign_sig\<close> returns the textbook signature of
the first nonce for which neither part is zero (skipping the nonce zero, a point whose residue is
zero, and a zero \<open>s\<close>), computed by Montgomery products on a digest that need not be reduced; it fails
exactly when no nonce is usable, and writes only its own new points.
\<close>

theorem ossl_ecdsa_simple_sign_sig_correct:
  assumes "dsa_group g gen G" "k_group key = Some g" "priv_key key = Some d" "0 \<le> d" "d < g_order g"
    "holds g st gen G" "distinct [gen, b, p, s]" "\<forall>k\<in>set ks. 0 \<le> k \<and> k < g_order g"
    "rng_avail g (5 * length ks) (rng st)"
  shows "case find (sign_ok g G d (digest_to_m (g_order g) dgst)) ks of
      None \<Rightarrow> ossl_ecdsa_simple_sign_sig dgst None None key (Some b) [p, s] True ks st = None
    | Some k \<Rightarrow> returns (ossl_ecdsa_simple_sign_sig dgst None None key (Some b) [p, s] True ks st) (\<lambda>(sig, ks', st').
        sig = ecdsa_sig g G d (digest_to_m (g_order g) dgst) k \<and> same_but {b, p, s} st st')"
  using sign_holds [OF assms(1,7,2-6,8), of 0 dgst] assms(9)
  by (auto simp: returns_ex split: option.splits)

text \<open>The group of the witnesses: the small curve with the Montgomery context of its order.\<close>

definition ex_dsa :: ec_group where
  "ex_dsa = ex_group\<lparr>g_mont_data := BN_MONT_CTX_set 13 True\<rparr>"

definition ex_dsa_state :: ec_state where
  "ex_dsa_state = ex_state\<lparr>rng := replicate 20 4\<rparr>"

abbreviation ex_dsa_key :: ec_key where
  "ex_dsa_key \<equiv> \<lparr>k_group = Some ex_dsa, pub_key = Some 0, priv_key = Some 7, k_flags = 0, dirty_cnt = 0\<rparr>"

lemma ex_dsa_simps [simp]: "g_field ex_dsa = 11" "curve_A ex_dsa = 1" "curve_B ex_dsa = 6" "g_order ex_dsa = 13"
  by (simp_all add: ex_dsa_def ex_group_def small_group_def curve_A_def curve_B_def gfp_fac_def)

lemma ex_dsa_holds: "holds ex_dsa ex_dsa_state a P = holds small_group ex_state a P"
  by (simp add: ex_dsa_def ex_dsa_state_def ex_group_def small_group_def holds_def pt_of_def represents_def gfp_fac_def)

lemma ex_dsa_ok: "dsa_group ex_dsa 1 (Aff 5 2)"
proof -
  have "gfp_valid ex_dsa"
    using ex_valid by (simp add: ex_dsa_def ex_group_def small_group_def gfp_valid_def simple_valid_def mont_valid_def)
  moreover have "prime_int 13" "aff_smul 11 1 13 (Aff 5 2) = Inf" by code_simp+
  ultimately show ?thesis
    by (simp add: dsa_group_def curve_ok_def nonsingular_def)
      (simp add: ex_dsa_def ex_group_def small_group_def red_def eqm_def)
qed

lemma ex_dsa_avail: "n \<le> 20 \<Longrightarrow> rng_avail ex_dsa n (rng ex_dsa_state)"
  by (simp add: rng_avail_def ex_dsa_state_def red_def list_all_iff)

text \<open>The digest \<open>0x8f\<close> is cut to 8; nonce 0 is skipped, nonce 2 gives \<open>s = 0\<close>, nonce 3 signs.\<close>

lemma ex_dsa_sig:
  "digest_to_m 13 [0x8f] = 8" "\<not> sign_ok ex_dsa (Aff 5 2) 7 8 0" "\<not> sign_ok ex_dsa (Aff 5 2) 7 8 2" "sign_ok ex_dsa (Aff 5 2) 7 8 3"
  "ecdsa_sig ex_dsa (Aff 5 2) 7 8 3 = (7, 6)"
proof -
  have m: "aff_smul 11 1 2 (Aff 5 2) = Aff 10 2" "aff_smul 11 1 3 (Aff 5 2) = Aff 7 9" "minv 13 2 = 7" "minv 13 3 = 9"
    by code_simp+
  show "digest_to_m 13 [0x8f] = 8" by code_simp
  show "\<not> sign_ok ex_dsa (Aff 5 2) 7 8 0" "\<not> sign_ok ex_dsa (Aff 5 2) 7 8 2" "sign_ok ex_dsa (Aff 5 2) 7 8 3" "ecdsa_sig ex_dsa (Aff 5 2) 7 8 3 = (7, 6)"
    by (simp_all add: sign_ok_def nonce_ok_def ecdsa_sig_def m ap_x_def)
qed

theorem ossl_ecdsa_simple_sign_sig_correct_witness:
  "returns (ossl_ecdsa_simple_sign_sig [0x8f] None None ex_dsa_key (Some 9) [10, 11] True [0, 2, 3] ex_dsa_state)
    (\<lambda>(sig, ks', st'). sig = (7, 6))"
  using ossl_ecdsa_simple_sign_sig_correct [OF ex_dsa_ok, of ex_dsa_key 7 ex_dsa_state 9 10 11 "[0, 2, 3]" "[0x8f]"]
    ex_dsa_avail [of 15] ex_holds by (auto simp: ex_dsa_sig ex_dsa_holds returns_ex)

text \<open>
C23: Verifying: for any pair of integers and any public point of the curve, \<open>ossl_ecdsa_simple_verify_sig\<close>
returns 0 for a part outside \<open>(0, n)\<close>, and otherwise 1 or 0 as the residue of the abscissa of
\<open>u1 G + u2 Q\<close> is \<open>r\<close> or not, and the error -1 when that point is infinity.
\<close>

theorem ossl_ecdsa_simple_verify_sig_correct:
  assumes "dsa_group g gen G" "k_group key = Some g" "pub_key key = Some a" "holds g st gen G" "holds g st a Q" "gon g Q"
    "b \<noteq> gen" "b \<noteq> a" "{a, gen, b} \<inter> set fresh = {}" "distinct fresh" "65 \<le> length fresh" "rng_avail g 3 (rng st)"
  shows "ossl_ecdsa_simple_verify_sig dgst (Some sig) (Some key) (Some b) fresh True st =
    ecdsa_check g G Q (digest_to_m (g_order g) dgst) sig"
  using assms by (rule verify_holds)

theorem ossl_ecdsa_simple_verify_sig_correct_witness:
  "ossl_ecdsa_simple_verify_sig [0x8f] (Some (7, 6)) (Some ex_dsa_key) (Some 9) [10..<75] True ex_dsa_state = 1 \<and>
   ossl_ecdsa_simple_verify_sig [0x8f] (Some (7, 5)) (Some ex_dsa_key) (Some 9) [10..<75] True ex_dsa_state = 0 \<and>
   ossl_ecdsa_simple_verify_sig [0x8f] (Some (20, 6)) (Some ex_dsa_key) (Some 9) [10..<75] True ex_dsa_state = 0"
proof -
  have m: "minv 13 6 = 11" "minv 13 5 = 8"
    "aff_add 11 1 (aff_smul 11 1 12 (Aff 2 7)) (aff_smul 11 1 10 (Aff 5 2)) = Aff 7 9"
    "aff_add 11 1 (aff_smul 11 1 4 (Aff 2 7)) (aff_smul 11 1 12 (Aff 5 2)) = Aff 5 2" by code_simp+
  have "ossl_ecdsa_simple_verify_sig [0x8f] (Some sig) (Some ex_dsa_key) (Some 9) [10..<75] True ex_dsa_state =
      ecdsa_check ex_dsa (Aff 5 2) (Aff 2 7) (digest_to_m (g_order ex_dsa) [0x8f]) sig" for sig
    by (rule ossl_ecdsa_simple_verify_sig_correct [OF ex_dsa_ok, of ex_dsa_key 0])
      (use ex_holds ex_dsa_avail in \<open>simp_all add: ex_dsa_holds red_def eqm_def\<close>)
  then show ?thesis by (simp add: ex_dsa_sig ecdsa_check_def m Let_def del: aff_add.simps)
qed

text \<open>
Round trip: what \<open>ossl_ecdsa_simple_sign_sig\<close> returns for a private scalar,
\<open>ossl_ecdsa_simple_verify_sig\<close> accepts with 1 for the same digest and the public point of that scalar,
in the state signing leaves.
\<close>

theorem ecdsa_sign_then_verify:
  assumes "dsa_group g gen G" "k_group key = Some g" "priv_key key = Some d" "0 \<le> d" "d < g_order g" "pub_key key = Some a"
    "holds g st gen G" "holds g st a (gmul g d G)" "distinct [gen, b, p, s]" "a \<notin> {b, p, s}"
    "\<forall>k\<in>set ks. 0 \<le> k \<and> k < g_order g" "\<exists>k\<in>set ks. sign_ok g G d (digest_to_m (g_order g) dgst) k"
    "{a, gen, b} \<inter> set fresh = {}" "distinct fresh" "65 \<le> length fresh" "rng_avail g (5 * length ks + 3) (rng st)"
  shows "returns (ossl_ecdsa_simple_sign_sig dgst None None key (Some b) [p, s] True ks st) (\<lambda>(sig, ks', st').
    ossl_ecdsa_simple_verify_sig dgst (Some sig) (Some key) (Some b) fresh True st' = 1)"
proof -
  let ?m = "digest_to_m (g_order g) dgst"
  obtain k where k: "find (sign_ok g G d ?m) ks = Some k" using assms(12) by (fastforce simp: find_None_iff)
  then have ok: "sign_ok g G d ?m k" "k \<in> set ks" by (auto simp: find_Some_iff)
  obtain r t where sig: "ecdsa_sig g G d ?m k = (r, t)" by force
  from ok sig assms(11) have nz: "r \<noteq> 0" "t \<noteq> 0" "0 < k" "k < g_order g"
    by (force simp: sign_ok_def nonce_ok_def ecdsa_sig_def Let_def)+
  have chk: "ecdsa_check g G (gmul g d G) ?m (r, t) = 1"
    by (rule ecdsa_sig_checks [OF assms(1) nz(3,4) sig nz(1,2)])
  have c: "curve_ok g" "gon g G" using assms(1) by (simp_all add: dsa_group_def)
  have "returns (ossl_ecdsa_simple_sign_sig dgst None None key (Some b) [p, s] True ks st) (\<lambda>(sig, ks', st').
      sig = (r, t) \<and> same_but {b, p, s} st st' \<and> rng_avail g 3 (rng st'))"
    using sign_holds [OF assms(1,9,2-5,7,11,16), of dgst] by (simp add: k sig)
  then show ?thesis
  proof (rule returns_mono, clarify)
    fix ks' st'
    assume st': "same_but {b, p, s} st st'" "rng_avail g 3 (rng st')"
    have "holds g st' gen G" by (rule same_but_holds [OF st'(1) assms(7)]) (use assms(9) in auto)
    moreover have "holds g st' a (gmul g d G)" by (rule same_but_holds [OF st'(1) assms(8,10)])
    ultimately show "ossl_ecdsa_simple_verify_sig dgst (Some (r, t)) (Some key) (Some b) fresh True st' = 1"
      using verify_holds [OF assms(1,2,6) _ _ gon_mul [OF c] _ _ assms(13-15) st'(2), of d dgst "(r, t)"] chk assms(9,10)
      by auto
  qed
qed

theorem ecdsa_sign_then_verify_witness:
  "returns (ossl_ecdsa_simple_sign_sig [0x8f] None None ex_dsa_key (Some 9) [10, 11] True [0, 2, 3] ex_dsa_state)
    (\<lambda>(sig, ks', st').
      ossl_ecdsa_simple_verify_sig [0x8f] (Some sig) (Some ex_dsa_key) (Some 9) [20..<90] True st' = 1)"
proof -
  have v: "aff_smul 11 1 7 (Aff 5 2) = Aff 2 7" by code_simp
  show ?thesis
    by (intro ecdsa_sign_then_verify [OF ex_dsa_ok, of ex_dsa_key 7 0])
      (use ex_holds ex_dsa_avail v in \<open>simp_all add: ex_dsa_holds ex_dsa_sig\<close>)
qed

section \<open>Encoded signatures\<close>

text \<open>
C21: The DER encoding of signatures round-trips: for integers that are not negative and have up to 200000 bits
the encoder succeeds with the length it returns, and the decoder gives both integers back from that encoding,
whatever bytes follow, and consumes exactly its length.
\<close>

theorem der_signature_round_trip:
  assumes "0 \<le> r" "0 \<le> s" "z_num_bits r \<le> 200000" "z_num_bits s \<le> 200000"
  shows "\<exists>der. i2d_ECDSA_SIG (r, s) = (int (length der), der) \<and> d2i_ECDSA_SIG der = Some (r, s) \<and>
    ossl_decode_der_dsa_sig (der @ rest) = Some ((r, s), length der)"
proof -
  obtain der where der: "ossl_encode_der_dsa_sig r s = Some der" using encode_sig [OF assms] by blast
  show ?thesis
    using decode_encode_sig [OF der, of rest] decode_encode_sig [OF der, of "[]"] der
    by (simp add: i2d_ECDSA_SIG_def d2i_ECDSA_SIG_def)
qed

text \<open>The witness: 128 needs a zero byte so that it is not read as negative.\<close>

lemma ex_bits: "z_num_bits 128 = 8" "z_num_bits 13 = 4" "z_num_bits 7 = 3" "z_num_bits 6 = 3"
  by code_simp+

lemma ex_encode:
  "ossl_encode_der_integer 128 = Some [2, 2, 0, 0x80]" "ossl_encode_der_integer 7 = Some [2, 1, 7]"
  "ossl_encode_der_integer 6 = Some [2, 1, 6]"
  by (simp_all add: ossl_encode_der_integer_def ossl_encode_der_length_def BN_bn2binpad_def BN_bn2bin_def BN_num_bytes_def
      ID_INTEGER_def ex_bits)

lemma ex_encode_sig:
  "ossl_encode_der_dsa_sig 128 6 = Some [0x30, 7, 2, 2, 0, 0x80, 2, 1, 6]"
  "ossl_encode_der_dsa_sig 7 6 = Some [0x30, 6, 2, 1, 7, 2, 1, 6]"
  by (simp_all add: ossl_encode_der_dsa_sig_def ex_encode ossl_encode_der_length_def ID_SEQUENCE_def)

theorem der_signature_round_trip_witness:
  "i2d_ECDSA_SIG (128, 6) = (9, [0x30, 7, 2, 2, 0, 0x80, 2, 1, 6]) \<and> d2i_ECDSA_SIG [0x30, 7, 2, 2, 0, 0x80, 2, 1, 6] = Some (128, 6)"
proof -
  have "z_num_bits 128 \<le> 200000" "z_num_bits 6 \<le> 200000" by (simp_all add: ex_bits)
  from der_signature_round_trip [OF _ _ this, of "[]"]
  obtain der where der: "i2d_ECDSA_SIG (128, 6) = (int (length der), der)" "d2i_ECDSA_SIG der = Some (128, 6)" by auto
  have "i2d_ECDSA_SIG (128, 6) = (9, [0x30, 7, 2, 2, 0, 0x80, 2, 1, 6])" by (simp add: i2d_ECDSA_SIG_def ex_encode_sig)
  with der show ?thesis by simp
qed

text \<open>
C20: \<open>ECDSA_verify\<close> accepts a byte string exactly when it is the encoding of a pair that verifies for the public
point: no second encoding of a signature, nothing after it, and no other bytes are accepted.
\<close>

theorem ECDSA_verify_correct:
  assumes "dsa_group g gen G" "k_group key = Some g" "pub_key key = Some a" "holds g st gen G" "holds g st a Q" "gon g Q"
    "b \<noteq> gen" "b \<noteq> a" "{a, gen, b} \<inter> set fresh = {}" "distinct fresh" "65 \<le> length fresh" "rng_avail g 3 (rng st)"
  shows "ECDSA_verify dgst sigbuf key (Some b) fresh True st = 1 \<longleftrightarrow>
    (\<exists>r s. ossl_encode_der_dsa_sig r s = Some sigbuf \<and> ecdsa_check g G Q (digest_to_m (g_order g) dgst) (r, s) = 1)"
proof -
  have v: "gfp_valid g" using assms(1) by (simp add: dsa_group_def curve_valid)
  have "ossl_ecdsa_verify_sig dgst sig key (Some b) fresh True st = ecdsa_check g G Q (digest_to_m (g_order g) dgst) sig" for sig
    unfolding dsa_dispatch(2) [OF v assms(2)] by (rule verify_holds [OF assms])
  note chk = this
  show ?thesis
  proof
    assume "ECDSA_verify dgst sigbuf key (Some b) fresh True st = 1"
    then obtain r s where "ossl_encode_der_dsa_sig r s = Some sigbuf" "ossl_ecdsa_verify_sig dgst (r, s) key (Some b) fresh True st = 1"
      unfolding ECDSA_verify_def verify_encoded by (auto split: option.splits if_splits)
    then show "\<exists>r s. ossl_encode_der_dsa_sig r s = Some sigbuf \<and> ecdsa_check g G Q (digest_to_m (g_order g) dgst) (r, s) = 1"
      unfolding chk by blast
  next
    assume "\<exists>r s. ossl_encode_der_dsa_sig r s = Some sigbuf \<and> ecdsa_check g G Q (digest_to_m (g_order g) dgst) (r, s) = 1"
    then obtain r s where e: "ossl_encode_der_dsa_sig r s = Some sigbuf" "ecdsa_check g G Q (digest_to_m (g_order g) dgst) (r, s) = 1"
      by blast
    show "ECDSA_verify dgst sigbuf key (Some b) fresh True st = 1"
      unfolding ECDSA_verify_def verify_encoding [OF e(1)] chk by (rule e(2))
  qed
qed

theorem ECDSA_verify_correct_witness:
  "ECDSA_verify [0x8f] [0x30, 6, 2, 1, 7, 2, 1, 6] ex_dsa_key (Some 9) [10..<75] True ex_dsa_state = 1 \<and>
   ECDSA_verify [0x8f] [0x30, 0x81, 6, 2, 1, 7, 2, 1, 6] ex_dsa_key (Some 9) [10..<75] True ex_dsa_state \<noteq> 1"
proof -
  have m: "minv 13 6 = 11" "aff_add 11 1 (aff_smul 11 1 12 (Aff 2 7)) (aff_smul 11 1 10 (Aff 5 2)) = Aff 7 9"
    "ossl_decode_der_dsa_sig [0x30, 0x81, 6, 2, 1, 7, 2, 1, 6] = Some ((7, 6), 9)" by code_simp+
  have c: "ecdsa_check ex_dsa (Aff 5 2) (Aff 2 7) (digest_to_m (g_order ex_dsa) [0x8f]) (7, 6) = 1"
    by (simp add: ex_dsa_sig ecdsa_check_def m(1,2) Let_def del: aff_add.simps)
  have other: "ossl_encode_der_dsa_sig r s \<noteq> Some [0x30, 0x81, 6, 2, 1, 7, 2, 1, 6]" for r s
  proof
    assume e: "ossl_encode_der_dsa_sig r s = Some [0x30, 0x81, 6, 2, 1, 7, 2, 1, 6]"
    from decode_encode_sig [OF this, of "[]"] m(3) have "r = 7" "s = 6" by simp_all
    with e ex_encode_sig(2) show False by simp
  qed
  have "ECDSA_verify [0x8f] sigbuf ex_dsa_key (Some 9) [10..<75] True ex_dsa_state = 1 \<longleftrightarrow>
      (\<exists>r s. ossl_encode_der_dsa_sig r s = Some sigbuf \<and>
        ecdsa_check ex_dsa (Aff 5 2) (Aff 2 7) (digest_to_m (g_order ex_dsa) [0x8f]) (r, s) = 1)" for sigbuf
    by (rule ECDSA_verify_correct [OF ex_dsa_ok, of ex_dsa_key 0])
      (use ex_holds ex_dsa_avail in \<open>simp_all add: ex_dsa_holds red_def eqm_def\<close>)
  then show ?thesis using ex_encode_sig(2) c other by blast
qed

text \<open>
C19: Round trip on bytes: what \<open>ECDSA_sign\<close> returns for a private scalar \<open>ECDSA_verify\<close> accepts with 1 for the same
digest and the public point of that scalar, in the state signing leaves, and the length it returns is the number of
bytes (for orders of up to 200000 bits).
\<close>

theorem ECDSA_sign_then_ECDSA_verify:
  assumes "dsa_group g gen G" "k_group key = Some g" "priv_key key = Some d" "0 \<le> d" "d < g_order g" "pub_key key = Some a"
    "holds g st gen G" "holds g st a (gmul g d G)" "distinct [gen, b, p, s]" "a \<notin> {b, p, s}"
    "\<forall>k\<in>set ks. 0 \<le> k \<and> k < g_order g" "\<exists>k\<in>set ks. sign_ok g G d (digest_to_m (g_order g) dgst) k"
    "{a, gen, b} \<inter> set fresh = {}" "distinct fresh" "65 \<le> length fresh" "rng_avail g (5 * length ks + 3) (rng st)"
    "z_num_bits (g_order g) \<le> 200000"
  shows "returns (ECDSA_sign dgst key (Some b) [p, s] True ks st) (\<lambda>((siglen, sig), ks', st').
    siglen = of_nat (length sig) \<and> ECDSA_verify dgst sig key (Some b) fresh True st' = 1)"
proof -
  have v: "gfp_valid g" "0 < g_order g" using assms(1) by (simp_all add: dsa_group_def curve_valid)
  obtain r t ks' st' where sg: "ossl_ecdsa_simple_sign_sig dgst None None key (Some b) [p, s] True ks st = Some ((r, t), ks', st')"
    "ossl_ecdsa_simple_verify_sig dgst (Some (r, t)) (Some key) (Some b) fresh True st' = 1"
    using ecdsa_sign_then_verify [OF assms(1-16)] by (auto simp: returns_ex)
  note rt = verify_range [OF sg(2) assms(2) v(2)]
  have "z_num_bits r \<le> 200000" "z_num_bits t \<le> 200000"
    using z_num_bits_mono [of r "g_order g"] z_num_bits_mono [of t "g_order g"] rt assms(17) by simp_all
  then obtain der where der: "ossl_encode_der_dsa_sig r t = Some der" using encode_sig [of r t] rt by auto
  have "ECDSA_sign dgst key (Some b) [p, s] True ks st = Some ((of_nat (length der), der), ks', st')"
    using sg(1) der by (simp add: ECDSA_sign_def ECDSA_sign_ex_def ossl_ecdsa_sign_def ECDSA_do_sign_ex_def
        dsa_dispatch(1) [OF v(1) assms(2)] i2d_ECDSA_SIG_def)
  moreover have "ECDSA_verify dgst der key (Some b) fresh True st' = 1"
    using sg(2) by (simp add: ECDSA_verify_def verify_encoding [OF der] dsa_dispatch(2) [OF v(1) assms(2)])
  ultimately show ?thesis by simp
qed

theorem ECDSA_sign_then_ECDSA_verify_witness:
  "returns (ECDSA_sign [0x8f] ex_dsa_key (Some 9) [10, 11] True [0, 2, 3] ex_dsa_state) (\<lambda>((siglen, sig), ks', st').
    siglen = of_nat (length sig) \<and> ECDSA_verify [0x8f] sig ex_dsa_key (Some 9) [20..<90] True st' = 1)"
proof -
  have v: "aff_smul 11 1 7 (Aff 5 2) = Aff 2 7" "z_num_bits 13 \<le> 200000" by (code_simp, simp add: ex_bits)
  show ?thesis
    by (intro ECDSA_sign_then_ECDSA_verify [OF ex_dsa_ok, of ex_dsa_key 7 0])
      (use ex_holds ex_dsa_avail v in \<open>simp_all add: ex_dsa_holds ex_dsa_sig\<close>)
qed

section \<open>Key pairs and the key agreement\<close>

text \<open>
C15: The check of a whole key accepts exactly the finite points of the curve that the group's order annihilates
and, when the key has a private scalar, only if the scalar is in \<open>[1, n)\<close> and gives the point; no
other key passes, whatever coordinates represent the point.
\<close>

theorem EC_KEY_check_key_correct:
  assumes "dsa_group g gen G" "k_group key = Some g" "pub_key key = Some a" "holds g s a P" "holds g s gen G"
    "b \<noteq> a" "b \<noteq> gen" "{a, b, gen} \<inter> set fresh = {}" "distinct fresh" "wnaf_room [(g_order g, a)] \<le> length fresh"
    "distinct [gen, c, m, n]" "a \<notin> {c, m, n}" "rng_avail g 7 (rng s)"
  shows "EC_KEY_check_key (Some key) (Some b) fresh (Some c) [m, n] True s \<noteq> None \<longleftrightarrow>
    P \<noteq> Inf \<and> gon g P \<and> gmul g (g_order g) P = Inf \<and>
    (case priv_key key of None \<Rightarrow> True | Some d \<Rightarrow> 1 \<le> d \<and> d < g_order g \<and> P = gmul g d G)"
proof -
  have "EC_KEY_check_key (Some key) (Some b) fresh (Some c) [m, n] True s =
      ossl_ec_key_simple_check_key (Some key) (Some b) fresh (Some c) [m, n] True s"
    using assms(1-3) key_slots(2) [OF curve_valid, of g] by (simp add: EC_KEY_check_key_def dsa_group_def)
  then show ?thesis unfolding check_key_holds [OF assms, symmetric] by simp
qed

text \<open>The witness: the scalar 7 fits \<open>(2, 7)\<close>, the scalar 6 does not and 20 is out of range.\<close>

lemma ex_room: "wnaf_room [(13, a)] \<le> length [12 :: nat, 13]"
proof -
  have "wnaf_room [(13, 0)] \<le> length [12 :: nat, 13]" by code_simp
  then show ?thesis by (simp add: wnaf_room_def)
qed

theorem EC_KEY_check_key_correct_witness:
  "EC_KEY_check_key (Some ex_dsa_key) (Some 9) [12, 13] (Some 9) [10, 11] True ex_dsa_state \<noteq> None \<and>
   EC_KEY_check_key (Some (ex_dsa_key\<lparr>priv_key := Some 6\<rparr>)) (Some 9) [12, 13] (Some 9) [10, 11] True ex_dsa_state = None \<and>
   EC_KEY_check_key (Some (ex_dsa_key\<lparr>priv_key := Some 20\<rparr>)) (Some 9) [12, 13] (Some 9) [10, 11] True ex_dsa_state = None"
proof -
  have v: "aff_smul 11 1 7 (Aff 5 2) = Aff 2 7" "aff_smul 11 1 6 (Aff 5 2) \<noteq> Aff 2 7" "aff_smul 11 1 13 (Aff 2 7) = Inf"
    by code_simp+
  have "EC_KEY_check_key (Some (ex_dsa_key\<lparr>priv_key := Some d\<rparr>)) (Some 9) [12, 13] (Some 9) [10, 11] True ex_dsa_state \<noteq> None \<longleftrightarrow>
      1 \<le> d \<and> d < 13 \<and> Aff 2 7 = aff_smul 11 1 d (Aff 5 2)" for d
    using EC_KEY_check_key_correct [OF ex_dsa_ok, of "ex_dsa_key\<lparr>priv_key := Some d\<rparr>" 0 ex_dsa_state "Aff 2 7" 9 "[12, 13]" 9 10 11]
      ex_holds ex_dsa_avail [of 7] ex_room v(3) by (simp add: ex_dsa_holds red_def eqm_def)
  from this [of 7] this [of 6] this [of 20] v(1,2) show ?thesis by auto
qed

text \<open>
C16: Setting the point of a key from affine coordinates succeeds exactly for two residues in \<open>[0, p)\<close> on the curve whose
point the group's order annihilates and, when the key has a private scalar, only if the scalar is in range and gives
that point; coordinates that are not reduced are rejected although they stand for the same point.
\<close>

theorem EC_KEY_set_public_key_affine_coordinates_correct:
  assumes "dsa_group g gen G" "k_group key = Some g" "holds g s gen G" "distinct [gen, b, a, q]" "{a, q, gen} \<inter> set fresh = {}"
    "distinct fresh" "wnaf_room [(g_order g, a)] \<le> length fresh" "distinct [gen, c, m, n]" "a \<notin> {c, m, n}" "rng_avail g 8 (rng s)"
  shows "fst (EC_KEY_set_public_key_affine_coordinates (Some key) (Some x) (Some y) (Some b) (Some a) (Some q) fresh
      (Some c) [m, n] True s) \<longleftrightarrow>
    red (g_field g) x \<and> red (g_field g) y \<and> gon g (Aff x y) \<and> gmul g (g_order g) (Aff x y) = Inf \<and>
    (case priv_key key of None \<Rightarrow> True | Some d \<Rightarrow> 1 \<le> d \<and> d < g_order g \<and> Aff x y = gmul g d G)"
  using assms by (rule set_coordinates_holds)

theorem EC_KEY_set_public_key_affine_coordinates_correct_witness:
  "fst (EC_KEY_set_public_key_affine_coordinates (Some ex_dsa_key) (Some 2) (Some 7) (Some 9) (Some 14) (Some 15) [12, 13]
      (Some 9) [10, 11] True ex_dsa_state) \<and>
   \<not> fst (EC_KEY_set_public_key_affine_coordinates (Some ex_dsa_key) (Some 13) (Some 7) (Some 9) (Some 14) (Some 15) [12, 13]
      (Some 9) [10, 11] True ex_dsa_state)"
proof -
  have v: "aff_smul 11 1 7 (Aff 5 2) = Aff 2 7" "aff_smul 11 1 13 (Aff 2 7) = Inf" by code_simp+
  show ?thesis
    using EC_KEY_set_public_key_affine_coordinates_correct [OF ex_dsa_ok, of ex_dsa_key ex_dsa_state 9 14 15 "[12, 13]" 9 10 11]
      ex_holds ex_dsa_avail [of 8] ex_room v by (simp add: ex_dsa_holds red_def eqm_def)
qed

text \<open>
C17: Generating a key: when the loop over the random bytes yields a scalar, it is in the range (below \<open>n - 1\<close> with
the SM2 flag), the key gets it and the point that is its multiple of the generator, at the key's own point if it
has one, nothing is freed and no other point changes. When it yields none the key's scalar is
cleared, but the scalar that is freed is the one the key still holds when it had one before.
\<close>

theorem EC_KEY_generate_key_correct:
  assumes "dsa_group g gen G" "k_group key = Some g" "holds g st gen G" "\<forall>a. pub_key key = Some a \<longrightarrow> holds g st a Q"
    "distinct [gen, gen_point key b, p, s]" "rng_avail g 4 (rng st)"
  shows "case priv_loop (length rand + 1) (gen_range g key) rand of
      None \<Rightarrow> returns (EC_KEY_generate_key (Some key) (Some b) [p, s] True rand st) (\<lambda>r. \<not> gen_ok r \<and>
        gen_key r = key\<lparr>priv_key := map_option (\<lambda>_. 0) (priv_key key)\<rparr> \<and>
        gen_freed r = [if priv_key key = None then New_priv else Key_priv])
    | Some (e, rand') \<Rightarrow> 0 < e \<and> e < gen_range g key \<and>
        returns (EC_KEY_generate_key (Some key) (Some b) [p, s] True rand st) (\<lambda>r. gen_ok r \<and>
          priv_key (gen_key r) = Some e \<and> pub_key (gen_key r) = Some (gen_point key b) \<and> gen_freed r = [] \<and>
          holds g (gen_state r) (gen_point key b) (gmul g e G) \<and> same_but {gen_point key b, p, s} st (gen_state r))"
proof (cases "priv_loop (length rand + 1) (gen_range g key) rand")
  case None
  have "gfp_valid g" using assms(1) by (simp add: dsa_group_def curve_valid)
  from generate_fails [OF this assms(2) None] None show ?thesis by (simp add: key_gen_err_def)
next
  case (Some d)
  obtain e rand' where e: "d = (e, rand')" by force
  have av: "rng_avail g (4 + 0) (rng st)" using assms(6) by simp
  from generate_holds [OF assms(1-5) av Some [unfolded e]] priv_loop_bounds [OF Some [unfolded e]] show ?thesis
    unfolding Some e by (auto simp: returns_ex)
qed

text \<open>The witness: of the bytes \<open>0x2e\<close>, \<open>0x30\<close> and \<open>0x27\<close> the first gives 14, which is not below 13, the
  second 0, the third 7.\<close>

lemma ex_draw:
  "priv_loop (length [0x2e, 0x30, 0x27 :: 8 word] + 1) 13 [0x2e, 0x30, 0x27] = Some (7, [])"
  "priv_loop (length [0x2e, 0x30, 0x27, 0x03 :: 8 word] + 1) 13 [0x2e, 0x30, 0x27, 0x03] = Some (7, [0x03])"
  "priv_loop (length [0x03 :: 8 word] + 1) 13 [0x03] = Some (3, [])"
  "priv_loop (length ([] :: 8 word list) + 1) 13 [] = None"
  by code_simp+

abbreviation ex_new_key :: ec_key where
  "ex_new_key \<equiv> \<lparr>k_group = Some ex_dsa, pub_key = None, priv_key = None, k_flags = 0, dirty_cnt = 0\<rparr>"

lemma ex_gen_range: "k_flags key = 0 \<Longrightarrow> gen_range ex_dsa key = 13"
  by (simp add: gen_range_def EC_KEY_get_flags_def)

theorem EC_KEY_generate_key_correct_witness:
  "returns (EC_KEY_generate_key (Some ex_new_key) (Some 9) [10, 11] True [0x2e, 0x30, 0x27] ex_dsa_state) (\<lambda>r.
     gen_ok r \<and> priv_key (gen_key r) = Some 7 \<and> holds ex_dsa (gen_state r) 9 (Aff 2 7)) \<and>
   returns (EC_KEY_generate_key (Some ex_dsa_key) (Some 9) [10, 11] True [] ex_dsa_state) (\<lambda>r.
     \<not> gen_ok r \<and> priv_key (gen_key r) = Some 0 \<and> gen_freed r = [Key_priv])"
proof -
  have v: "aff_smul 11 1 7 (Aff 5 2) = Aff 2 7" by code_simp
  show ?thesis
    using EC_KEY_generate_key_correct [OF ex_dsa_ok, of ex_new_key ex_dsa_state Inf 9 10 11 "[0x2e, 0x30, 0x27]"]
      EC_KEY_generate_key_correct [OF ex_dsa_ok, of ex_dsa_key ex_dsa_state "Aff 2 7" 9 10 11 "[]"]
      ex_holds ex_dsa_avail [of 4] v ex_draw(1,4)
    by (simp add: ex_dsa_holds gen_point_def ex_gen_range del: priv_loop.simps) (auto simp: returns_ex)
qed

text \<open>
C18: A generated key passes the check of a whole key, in the state generation leaves.
\<close>

theorem generated_key_passes_check:
  assumes "dsa_group g gen G" "k_group key = Some g" "holds g st gen G" "\<forall>a. pub_key key = Some a \<longrightarrow> holds g st a Q"
    "distinct [gen, gen_point key b, p, s]" "priv_loop (length rand + 1) (gen_range g key) rand \<noteq> None"
    "q \<noteq> gen_point key b" "q \<noteq> gen" "{gen_point key b, q, gen} \<inter> set fresh = {}" "distinct fresh"
    "wnaf_room [(g_order g, gen_point key b)] \<le> length fresh" "distinct [gen, c, m, n]" "gen_point key b \<notin> {c, m, n}"
    "rng_avail g 11 (rng st)"
  shows "returns (EC_KEY_generate_key (Some key) (Some b) [p, s] True rand st) (\<lambda>r.
    EC_KEY_check_key (Some (gen_key r)) (Some q) fresh (Some c) [m, n] True (gen_state r) \<noteq> None)"
proof -
  obtain e rand' where e: "priv_loop (length rand + 1) (gen_range g key) rand = Some (e, rand')" using assms(6) by auto
  have av: "rng_avail g (4 + 7) (rng st)" using assms(14) by simp
  have r: "0 < e" "e < g_order g" using priv_loop_bounds [OF e] by (auto simp: gen_range_def split: if_splits)
  have v: "gfp_valid g" using assms(1) by (simp add: dsa_group_def curve_valid)
  show ?thesis
  proof (rule returns_mono [OF generate_holds [OF assms(1-5) av e]], elim conjE)
    fix r
    assume k: "gen_key r = key\<lparr>priv_key := Some e, pub_key := Some (gen_point key b), dirty_cnt := dirty_cnt key + 3\<rparr>"
      and h: "holds g (gen_state r) (gen_point key b) (gmul g e G)"
      and sb: "same_but {gen_point key b, p, s} st (gen_state r)" and avr: "rng_avail g 7 (rng (gen_state r))"
    have hg: "holds g (gen_state r) gen G" by (rule same_but_holds [OF sb assms(3)]) (use assms(5) in auto)
    have kk: "k_group (gen_key r) = Some g" "pub_key (gen_key r) = Some (gen_point key b)" using assms(2) by (simp_all add: k)
    have "ossl_ec_key_simple_check_key (Some (gen_key r)) (Some q) fresh (Some c) [m, n] True (gen_state r) \<noteq> None"
      unfolding check_key_holds [OF assms(1) kk h hg assms(7-13) avr]
      using public_point [OF assms(1) r] r by (simp add: k)
    then show "EC_KEY_check_key (Some (gen_key r)) (Some q) fresh (Some c) [m, n] True (gen_state r) \<noteq> None"
      using kk key_slots(2) [OF v] by (simp add: EC_KEY_check_key_def)
  qed
qed

theorem generated_key_passes_check_witness:
  "returns (EC_KEY_generate_key (Some ex_new_key) (Some 9) [10, 11] True [0x2e, 0x30, 0x27] ex_dsa_state) (\<lambda>r.
    EC_KEY_check_key (Some (gen_key r)) (Some 14) [12, 13] (Some 14) [10, 11] True (gen_state r) \<noteq> None)"
  using ex_holds ex_dsa_avail [of 11] ex_room ex_draw(1)
  by (intro generated_key_passes_check [OF ex_dsa_ok])
    (simp_all add: ex_dsa_holds gen_point_def ex_gen_range del: priv_loop.simps)

text \<open>
C14: The secret of the key agreement is the abscissa of the private scalar (with the flag: times the cofactor)
times the other point, as big-endian bytes that are padded to the length of a field element; the call fails
exactly when that multiple is infinity, and writes only its own new points. The other point is one that the
cardinality (order times cofactor) annihilates, which the ladder needs.
\<close>

theorem ossl_ecdh_compute_key_correct:
  assumes "ecdh_group g" "k_group key = Some g" "priv_key key = Some d" "holds g st a Q" "gon g Q"
    "gmul g (g_order g * g_cofactor g) Q = Inf" "distinct [a, tmp, p, s]" "rng_avail g 5 (rng st)"
  shows "case gmul g (ecdh_scalar g key d) Q of
      Inf \<Rightarrow> ossl_ecdh_compute_key (Some a) key (Some tmp) [p, s] True st = None
    | Aff x y \<Rightarrow> returns (ossl_ecdh_compute_key (Some a) key (Some tmp) [p, s] True st) (\<lambda>(out, st').
        length out = (z_num_bits (g_field g) + 7) div 8 \<and> BN_bin2bn out = x \<and> same_but {tmp, p, s} st st')"
proof -
  have "rng_avail g (5 + 0) (rng st)" using assms(8) by simp
  from ecdh_holds [OF assms(1-7) this] show ?thesis
    by (auto simp: returns_ex field_bytes split: apoint.splits)
qed

text \<open>The witness: 7 times \<open>(2, 7)\<close> is \<open>(8, 8)\<close>, and 13 times it is infinity.\<close>

theorem ossl_ecdh_compute_key_correct_witness:
  "returns (ossl_ecdh_compute_key (Some 0) ex_dsa_key (Some 9) [10, 11] True ex_dsa_state) (\<lambda>(out, st').
     length out = 1 \<and> BN_bin2bn out = ap_x (aff_smul 11 1 7 (Aff 2 7))) \<and>
   ossl_ecdh_compute_key (Some 0) (ex_dsa_key\<lparr>priv_key := Some 13\<rparr>) (Some 9) [10, 11] True ex_dsa_state = None"
proof -
  have v: "aff_smul 11 1 13 (Aff 2 7) = Inf" "aff_smul 11 1 7 (Aff 2 7) \<noteq> Inf" "z_num_bits 11 = 4" by code_simp+
  have g: "ecdh_group ex_dsa" "g_cofactor ex_dsa = 1" using subgroup_point(1) [OF ex_dsa_ok] by (simp_all add: ex_dsa_def)
  have e: "ecdh_scalar ex_dsa key d = d" if "k_flags key = 0" for key d
    using that by (simp add: ecdh_scalar_def EC_KEY_get_flags_def)
  have "case aff_smul 11 1 d (Aff 2 7) of
      Inf \<Rightarrow> ossl_ecdh_compute_key (Some 0) (ex_dsa_key\<lparr>priv_key := Some d\<rparr>) (Some 9) [10, 11] True ex_dsa_state = None
    | Aff x y \<Rightarrow> returns (ossl_ecdh_compute_key (Some 0) (ex_dsa_key\<lparr>priv_key := Some d\<rparr>) (Some 9) [10, 11] True ex_dsa_state)
        (\<lambda>(out, st'). length out = 1 \<and> BN_bin2bn out = x \<and> same_but {9, 10, 11} ex_dsa_state st')" for d
    using ossl_ecdh_compute_key_correct [OF g(1), of "ex_dsa_key\<lparr>priv_key := Some d\<rparr>" d ex_dsa_state 0 "Aff 2 7" 9 10 11]
      ex_holds ex_dsa_avail [of 5] v(1) by (simp add: ex_dsa_holds g(2) e v(3) red_def eqm_def split: apoint.splits)
  from this [of 7] this [of 13] v(1,2) show ?thesis by (auto simp: returns_ex ap_x_def split: apoint.splits)
qed

text \<open>
C13: Two parties with the same flags that generate their keys and exchange their points get the same secret, by either
side's call of \<open>ECDH_compute_key\<close>: derived from, or a prefix of, the abscissa of the product of both scalars
and the generator. With the cofactor flag this needs that the order does not divide the cofactor.
\<close>

theorem key_exchange_agrees:
  assumes "dsa_group g gen G" "k_group ka = Some g" "pub_key ka = None" "k_group kb = Some g" "pub_key kb = None"
    "k_flags ka = k_flags kb" "EC_KEY_get_flags ka AND EC_FLAG_COFACTOR_ECDH \<noteq> 0 \<longrightarrow> \<not> g_order g dvd g_cofactor g"
    "holds g st gen G" "distinct [gen, a, b, tmp, p, s]" "rng_avail g 18 (rng st)"
    "priv_loop (length rand + 1) (gen_range g ka) rand = Some (da, rand1)"
    "priv_loop (length rand1 + 1) (gen_range g kb) rand1 = Some (db, rand2)" "outlen \<le> 2 ^ 31 - 1"
  shows "\<exists>z. key_exchange ka kb a b tmp [p, s] outlen KDF rand st = Some (True, True, z, z) \<and>
    z = ecdh_out KDF outlen (field_bytes g (ap_x (gmul g (ecdh_scalar g ka (da * db)) G)))"
proof -
  have "curve_ok g" "gon g G" using assms(1) by (simp_all add: dsa_group_def)
  then have "gmul g (ecdh_scalar g ka da) (gmul g db G) = gmul g (ecdh_scalar g ka (da * db)) G"
    by (simp add: gmul_gmul ecdh_scalar_def mult.assoc)
  with key_exchange_holds [OF assms, of KDF] show ?thesis by (simp add: Let_def)
qed

theorem key_exchange_agrees_witness:
  "\<exists>z. key_exchange ex_new_key ex_new_key 9 12 13 [10, 11] 8 None [0x2e, 0x30, 0x27, 0x03] ex_dsa_state = Some (True, True, z, z) \<and>
    BN_bin2bn z = ap_x (aff_smul 11 1 21 (Aff 5 2))"
proof -
  have v: "z_num_bits 11 = 4" "ap_x (aff_smul 11 1 21 (Aff 5 2)) \<in> {0..<11}" by code_simp+
  have f: "length (field_bytes ex_dsa (ap_x (aff_smul 11 1 21 (Aff 5 2)))) = 1"
    "BN_bin2bn (field_bytes ex_dsa (ap_x (aff_smul 11 1 21 (Aff 5 2)))) = ap_x (aff_smul 11 1 21 (Aff 5 2))"
    using field_bytes [of "ap_x (aff_smul 11 1 21 (Aff 5 2))" ex_dsa] v by simp_all
  have e: "ecdh_scalar ex_dsa ex_new_key 21 = 21" by (simp add: ecdh_scalar_def EC_KEY_get_flags_def)
  show ?thesis
    using key_exchange_agrees [OF ex_dsa_ok, of ex_new_key ex_new_key ex_dsa_state 9 12 13 10 11 "[0x2e, 0x30, 0x27, 0x03]" 7 "[0x03]" 3 "[]" 8 None]
      ex_holds ex_dsa_avail [of 18] ex_draw f
    by (simp add: ex_dsa_holds ex_gen_range EC_KEY_get_flags_def e ecdh_out_def del: priv_loop.simps)
qed

section \<open>The search for double-base chains\<close>

text \<open>The state of the program before \<open>init\<close>: every cell as its constructor leaves it.\<close>

definition fresh_search :: search_state where
  "fresh_search = \<lparr>w = (\<lambda>_. new_DBC), w_neg = (\<lambda>_. new_DBC), w_min = new_DBC, now_DBC = (\<lambda>_. setdata 0 0 False),
     bBound = (\<lambda>_. 0), DBC_store = (\<lambda>_ _. (0, 0, 0)), DBC_len = (\<lambda>_. 0)\<rparr>"

lemma fresh_init: "\<exists>st. init_tables INTS fresh_search = Some st \<and> base_ok INTS st"
  by (rule init_ok) (simp_all add: fresh_search_def)

text \<open>
C3: \<open>getOptimalDBC\<close> finds a double-base chain of its number: for every \<open>n > 0\<close> with \<open>6 n\<close> inside the
integer type and no carry lost in \<open>2 n * 3\<close>, with the tables as \<open>init\<close> or an earlier search left them
and the two logarithms the integer parts, the search returns; the chain it stores has falling
exponents (every term divides the one before and differs from it) and the value \<open>n\<close>, it costs no more
than the binary expansion of \<open>n\<close>, and the tables are ready for the next search.
\<close>

theorem getOptimalDBC_correct:
  assumes "INTS \<in> {5, 9, 13, 17}" "length n = INTS" "0 < big_val n" "6 * big_val n < 2 ^ (32 * INTS)"
    "no_lost_carry (mul_2 n)" "ilog 2 (2 * big_val n) log2B" "ilog 3 (2 * big_val n) log3B" "base_ok INTS st"
  shows "\<exists>st' cs bs. getOptimalDBC INTS n log2B log3B st = Some (0, st') \<and> base_ok INTS st' \<and>
    cs \<noteq> [] \<and> below (int (32 * INTS)) log3B cs \<and> cval cs = big_val n \<and>
    DBC_len st' 0 = int (length cs) \<and> map (DBC_store st' 0) [0..<length cs] = map term_of_chain cs \<and>
    below (int (32 * INTS)) 0 bs \<and> list_all (\<lambda>c. \<not> minus c) bs \<and> cval bs = big_val n \<and> cost cs \<le> cost bs"
  by (rule search_result [OF search_okI [OF assms(1-7)] assms(8)]) blast

text \<open>The witness: \<open>314\<close>, after \<open>init\<close>; the logarithms of \<open>628\<close> are 9 and 5.\<close>

theorem getOptimalDBC_correct_witness:
  "\<exists>st st' cs. init_tables 5 fresh_search = Some st \<and> getOptimalDBC 5 [0, 0, 0, 0, 314] 9 5 st = Some (0, st') \<and>
    below 160 5 cs \<and> cval cs = 314 \<and> map (DBC_store st' 0) [0..<length cs] = map term_of_chain cs"
proof -
  obtain st where st: "init_tables 5 fresh_search = Some st" "base_ok 5 st" using fresh_init by blast
  have "no_lost_carry (mul_2 [0, 0, 0, 0, 314])" by code_simp
  then have "\<exists>st' cs bs. getOptimalDBC 5 [0, 0, 0, 0, 314] 9 5 st = Some (0, st') \<and> base_ok 5 st' \<and>
    cs \<noteq> [] \<and> below (int (32 * 5)) 5 cs \<and> cval cs = big_val [0, 0, 0, 0, 314] \<and>
    DBC_len st' 0 = int (length cs) \<and> map (DBC_store st' 0) [0..<length cs] = map term_of_chain cs \<and>
    below (int (32 * 5)) 0 bs \<and> list_all (\<lambda>c. \<not> minus c) bs \<and> cval bs = big_val [0, 0, 0, 0, 314] \<and> cost cs \<le> cost bs"
    by (intro getOptimalDBC_correct [OF _ _ _ _ _ _ _ st(2)]) (simp_all add: ilog_def)
  then show ?thesis using st(1) by auto
qed

text \<open>
C4: The dynamic program is optimal: after \<open>getOptimalDBC\<close> every cell \<open>w(b, t)\<close> with \<open>2 ^ b 3 ^ t\<close> at most
\<open>2 n\<close> is a shortest double-base chain below \<open>(b, t)\<close> for \<open>n mod 2 ^ b 3 ^ t\<close>, and \<open>w_(b, t)\<close> one for this
residue minus \<open>2 ^ b 3 ^ t\<close>: a cell that is not null has as many terms as some chain of falling terms
with that value, no such chain has fewer, and a null cell means that there is none. This holds although
each case of the recurrences leaves out some of the predecessors.
\<close>

theorem getOptimalDBC_cells_shortest:
  assumes "INTS \<in> {5, 9, 13, 17}" "length n = INTS" "0 < big_val n" "6 * big_val n < 2 ^ (32 * INTS)"
    "no_lost_carry (mul_2 n)" "ilog 2 (2 * big_val n) log2B" "ilog 3 (2 * big_val n) log3B" "base_ok INTS st"
  shows "\<exists>st'. getOptimalDBC INTS n log2B log3B st = Some (0, st') \<and>
    (\<forall>b t. in_bounds (big_val n) b t \<longrightarrow>
      shortest_chain b t (w st' (b, t)) (big_val n mod pw b t) \<and>
      shortest_chain b t (w_neg st' (b, t)) (big_val n mod pw b t - pw b t))"
proof -
  note ok = search_okI [OF assms(1-7)]
  obtain st' where r: "getOptimalDBC INTS n log2B log3B st = Some (0, st')"
    "\<forall>b t. in_bounds (big_val n) b t \<longrightarrow> table_ok (big_val n) st' b t"
    by (rule search_result [OF ok assms(8)])
  have "shortest_chain b t (w st' (b, t)) (big_val n mod pw b t) \<and>
      shortest_chain b t (w_neg st' (b, t)) (big_val n mod pw b t - pw b t)" if ib: "in_bounds (big_val n) b t" for b t
  proof -
    have "0 \<le> b" "0 \<le> t" "b < 65536" "t < 65536"
      using ib in_bounds_logs(3,4) [OF ok ib] assms(1) by (auto simp: in_bounds_def MAX_2_def MAX_3_def)
    then show ?thesis using r(2) [rule_format, OF ib] ideal_shortest_chain [of "big_val n" b t] by (simp add: table_ok_def)
  qed
  then show ?thesis using r(1) by blast
qed

text \<open>The witness: \<open>314 = 2\<^sup>8 + 2\<^sup>6 - 2\<^sup>2 - 2\<close>, so the cell \<open>w(9, 0)\<close> of the search for 314 has at most four terms.\<close>

theorem getOptimalDBC_cells_shortest_witness:
  "\<exists>st st'. init_tables 5 fresh_search = Some st \<and> getOptimalDBC 5 [0, 0, 0, 0, 314] 9 5 st = Some (0, st') \<and>
    \<not> isNULL (w st' (9, 0)) \<and> len (w st' (9, 0)) \<le> 4"
proof -
  obtain st where st: "init_tables 5 fresh_search = Some st" "base_ok 5 st" using fresh_init by blast
  have c: "no_lost_carry (mul_2 [0, 0, 0, 0, 314])" by code_simp
  have v: "big_val [0, 0, 0, 0, 314] = 314" by simp
  obtain st' where r: "getOptimalDBC 5 [0, 0, 0, 0, 314] 9 5 st = Some (0, st')"
    "\<And>b t. in_bounds 314 b t \<Longrightarrow> shortest_chain b t (w st' (b, t)) (314 mod pw b t)"
    using getOptimalDBC_cells_shortest [of 5 "[0, 0, 0, 0, 314]" 9 5, OF _ _ _ _ c _ _ st(2)] unfolding v
    by (simp add: ilog_def) blast
  define xs where "xs = map (\<lambda>(d, m). \<lparr>dbl = d, tpl = 0, minus = m\<rparr>) [(8, False), (6, False), (2, True), (1, True)]"
  have "shortest_chain 9 0 (w st' (9, 0)) (314 mod pw 9 0)" by (rule r(2)) (simp add: in_bounds_def pw_def)
  moreover have "below 9 0 xs" "cval xs = 314 mod pw 9 0" "length xs = 4" by (simp_all add: xs_def pw_def tval_def)
  ultimately have "\<not> isNULL (w st' (9, 0)) \<and> len (w st' (9, 0)) \<le> 4" unfolding shortest_chain_def by fastforce
  then show ?thesis using st(1) r(1) by blast
qed

text \<open>
C5: Search and multiplication together compute \<open>n P\<close>: \<open>DBC_POINT_mul\<close> along the chain \<open>getOptimalDBC\<close>
stored for \<open>n\<close> leaves \<open>n P\<close> in \<open>r\<close>, for every point of every nonsingular curve whose \<open>Z_is_one\<close> flag is
false, and changes no other point but the copy it allocates. The conditions on \<open>n\<close> are those of the search:
\<open>n > 0\<close>, \<open>6 n\<close> inside the integer type, no carry lost in \<open>2 n * 3\<close>, the logarithms the integer parts.
\<close>

theorem getOptimalDBC_then_DBC_POINT_mul:
  assumes "INTS \<in> {5, 9, 13, 17}" "length n = INTS" "0 < big_val n" "6 * big_val n < 2 ^ (32 * INTS)"
    "no_lost_carry (mul_2 n)" "ilog 2 (2 * big_val n) log2B" "ilog 3 (2 * big_val n) log3B" "base_ok INTS st"
    "curve_ok g" "gon g P" "holds g s a P" "holds g s r R" "\<not> Z1of s a" "m \<noteq> a" "m \<noteq> r" "r \<noteq> a"
  shows "returns (do {
      (ret, st') \<leftarrow> getOptimalDBC INTS n log2B log3B st;
      DBC_POINT_mul g r a (DBC_store st' 0) (nat (DBC_len st' 0)) (Some m) True s
    }) (\<lambda>s'. holds g s' r (gmul g (big_val n) P) \<and> (\<forall>b. b \<noteq> r \<and> b \<noteq> m \<longrightarrow> heap s' b = heap s b))"
proof -
  obtain st' cs where r: "getOptimalDBC INTS n log2B log3B st = Some (0, st')" "cs \<noteq> []" "below (int (32 * INTS)) log3B cs"
    "cval cs = big_val n" "DBC_len st' 0 = int (length cs)" "map (DBC_store st' 0) [0..<length cs] = map term_of_chain cs"
    by (rule search_result [OF search_okI [OF assms(1-7)] assms(8)])
  have pos: "0 < cval cs" using r(4) assms(3) by simp
  have "returns (DBC_POINT_mul g r a (DBC_store st' 0) (length cs) (Some m) True s) (\<lambda>s'.
      holds g s' r (gmul g (cval cs) P) \<and> (\<forall>b. b \<noteq> r \<and> b \<noteq> m \<longrightarrow> heap s' b = heap s b))"
    by (rule stored_chain_mul [OF assms(9-16) r(6,2,3) pos])
  then show ?thesis using r(1,4,5) by simp
qed

text \<open>The witness: \<open>11\<close> times the point \<open>(5, 2)\<close> at address 1.\<close>

theorem getOptimalDBC_then_DBC_POINT_mul_witness:
  "\<exists>st. init_tables 5 fresh_search = Some st \<and> returns (do {
      (ret, st') \<leftarrow> getOptimalDBC 5 [0, 0, 0, 0, 11] 4 2 st;
      DBC_POINT_mul small_group 2 1 (DBC_store st' 0) (nat (DBC_len st' 0)) (Some 9) True ex_state
    }) (\<lambda>s'. holds small_group s' 2 (aff_smul 11 1 11 (Aff 5 2)))"
proof -
  obtain st where st: "init_tables 5 fresh_search = Some st" "base_ok 5 st" using fresh_init by blast
  have "no_lost_carry (mul_2 [0, 0, 0, 0, 11])" by code_simp
  moreover have "\<not> Z1of ex_state 1" by (simp add: ex_state_def ex_point_def)
  ultimately have "returns (do {
      (ret, st') \<leftarrow> getOptimalDBC 5 [0, 0, 0, 0, 11] 4 2 st;
      DBC_POINT_mul small_group 2 1 (DBC_store st' 0) (nat (DBC_len st' 0)) (Some 9) True ex_state
    }) (\<lambda>s'. holds small_group s' 2 (gmul small_group (big_val [0, 0, 0, 0, 11]) (Aff 5 2)) \<and>
      (\<forall>b. b \<noteq> 2 \<and> b \<noteq> 9 \<longrightarrow> heap s' b = heap ex_state b))"
    by (intro getOptimalDBC_then_DBC_POINT_mul [OF _ _ _ _ _ _ _ st(2) small_curve_ok ex_on(2) ex_holds(2,3)])
      (simp_all add: ilog_def)
  then have "returns (do {
      (ret, st') \<leftarrow> getOptimalDBC 5 [0, 0, 0, 0, 11] 4 2 st;
      DBC_POINT_mul small_group 2 1 (DBC_store st' 0) (nat (DBC_len st' 0)) (Some 9) True ex_state
    }) (\<lambda>s'. holds small_group s' 2 (aff_smul 11 1 11 (Aff 5 2)))"
    by (elim returns_mono) (simp add: small_curve)
  then show ?thesis using st(1) by blast
qed

section \<open>The greedy searches\<close>

lemma fresh_rows_ok: "rows_ok fresh_search"
  by (simp add: rows_ok_def fresh_search_def)

text \<open>
C6: \<open>getEOSDBC\<close> ends and returns a row that holds a double-base chain of its number: exponents that do not
rise, inside the tables, the value of the terms is \<open>n\<close>, and no start it tried leads to a cheaper chain. This
holds however the doubles round, as long as a comparison of two distances is right when they differ by a
64th and logarithms are right to a tenth, for every number for which there is a start
and no subtraction meets a full word.
\<close>

theorem getEOSDBC_correct:
  assumes "INTS \<in> {5, 9, 13, 17}" "length n = INTS" "0 < big_val n" "6 * big_val n < 2 ^ (32 * INTS)"
    "floats_ok F INTS" "bounds_ok F INTS n" "tried F INTS n [0..int (MAX_3 INTS) - 1] \<noteq> []"
    "\<forall>b\<in>set (tried F INTS n [0..int (MAX_3 INTS) - 1]). exact_run F INTS 4 n (RBound F INTS n b) b" "rows_ok st"
  shows "\<exists>idx st' cs. getEOSDBC F INTS n st = Some (idx, st') \<and> idx \<le> 1 \<and> rows_ok st' \<and> stored st' idx cs \<and>
    dbc_chain (int (32 * INTS)) (int (MAX_3 INTS)) cs \<and> dbc_value cs = big_val n \<and>
    (\<forall>b\<in>set (tried F INTS n [0..int (MAX_3 INTS) - 1]). \<exists>c.
      greedy_chain F INTS 4 n (RBound F INTS n b) b = Some c \<and> dbc_cost cs \<le> dbc_cost c)"
  by (rule eos_result [OF assms]) blast

text \<open>The witness: \<open>15\<close>, for which \<open>2 ^ 4\<close> is a start, with exact arithmetic.\<close>

theorem getEOSDBC_correct_witness:
  "\<exists>idx st' cs. getEOSDBC real_floats 5 [0, 0, 0, 0, 15] fresh_search = Some (idx, st') \<and> stored st' idx cs \<and> dbc_value cs = 15"
  using getEOSDBC_correct [OF _ _ _ _ real_floats_ok real_bounds_ok real_15(1,2) fresh_rows_ok] by fastforce

text \<open>
C7: \<open>getSubOptimalDBC\<close> ends and returns a row that holds a double-base chain of its number, no dearer than
those of the first \<open>dbc_coef + 1\<close> starts of its list. The conditions are those of \<open>getEOSDBC\<close>: the bounds on
the doubles, a start for the number in the list, and no subtraction that meets a full word on the runs from
the starts that are tried.
\<close>

theorem getSubOptimalDBC_correct:
  assumes "INTS \<in> {5, 9, 13, 17}" "length n = INTS" "0 < big_val n" "6 * big_val n < 2 ^ (32 * INTS)"
    "floats_ok F INTS" "bounds_ok F INTS n" "tried F INTS n (b_try INTS) \<noteq> []"
    "\<forall>b\<in>set (take (nat dbc_coef + 1) (tried F INTS n (b_try INTS))). exact_run F INTS 6 n (RBound F INTS n b) b" "rows_ok st"
  shows "\<exists>idx st' cs. getSubOptimalDBC F INTS n dbc_coef st = Some (idx, st') \<and> idx \<le> 1 \<and> rows_ok st' \<and> stored st' idx cs \<and>
    dbc_chain (int (32 * INTS)) (int (MAX_3 INTS)) cs \<and> dbc_value cs = big_val n \<and>
    (\<forall>b\<in>set (take (nat dbc_coef + 1) (tried F INTS n (b_try INTS))). \<exists>c.
      greedy_chain F INTS 6 n (RBound F INTS n b) b = Some c \<and> dbc_cost cs \<le> dbc_cost c)"
  by (rule sub_optimal_result [OF assms]) blast

text \<open>The witness: \<open>2 3 ^ 35\<close>, for which the first entry of the list is a start.\<close>

theorem getSubOptimalDBC_correct_witness:
  "\<exists>idx st' cs. getSubOptimalDBC real_floats 5 [0, 0, 0, 23297753, 2992713526] 10 fresh_search = Some (idx, st') \<and>
    stored st' idx cs \<and> dbc_value cs = 2 * 3 ^ 35"
  using getSubOptimalDBC_correct [OF _ _ _ _ real_floats_ok real_bounds_ok real_35(1,2) fresh_rows_ok] by fastforce

text \<open>
C8: The greedy search and the multiplication together compute \<open>n P\<close>, as the measuring program of \<open>DBC.cpp\<close>
runs them: \<open>DBC_POINT_mul\<close> along the row that \<open>getEOSDBC\<close> returns leaves \<open>n P\<close> in \<open>r\<close>, for a point whose
\<open>Z_is_one\<close> flag is false and under the conditions of the search (the bounds on the doubles, a start for \<open>n\<close>, no
subtraction that meets a full word).
\<close>

theorem getEOSDBC_then_DBC_POINT_mul:
  assumes "INTS \<in> {5, 9, 13, 17}" "length n = INTS" "0 < big_val n" "6 * big_val n < 2 ^ (32 * INTS)"
    "floats_ok F INTS" "bounds_ok F INTS n" "tried F INTS n [0..int (MAX_3 INTS) - 1] \<noteq> []"
    "\<forall>b\<in>set (tried F INTS n [0..int (MAX_3 INTS) - 1]). exact_run F INTS 4 n (RBound F INTS n b) b" "rows_ok st"
    "curve_ok g" "gon g P" "holds g s a P" "holds g s r R" "\<not> Z1of s a" "m \<noteq> a" "m \<noteq> r" "r \<noteq> a"
  shows "returns (do {
      (idx, st') \<leftarrow> getEOSDBC F INTS n st;
      DBC_POINT_mul g r a (DBC_store st' idx) (nat (DBC_len st' idx)) (Some m) True s
    }) (\<lambda>s'. holds g s' r (gmul g (big_val n) P) \<and> (\<forall>b. b \<noteq> r \<and> b \<noteq> m \<longrightarrow> heap s' b = heap s b))"
proof -
  obtain idx st' cs where r: "getEOSDBC F INTS n st = Some (idx, st')" "stored st' idx cs"
    "dbc_chain (int (32 * INTS)) (int (MAX_3 INTS)) cs" "dbc_value cs = big_val n"
    by (rule eos_result [OF assms(1-9)])
  show ?thesis using stored_mul [OF assms(10-17) r(2,3)] r(1,4) by simp
qed

text \<open>The witness: \<open>15\<close> times the point \<open>(5, 2)\<close> at address 1.\<close>

theorem getEOSDBC_then_DBC_POINT_mul_witness:
  "returns (do {
      (idx, st') \<leftarrow> getEOSDBC real_floats 5 [0, 0, 0, 0, 15] fresh_search;
      DBC_POINT_mul small_group 2 1 (DBC_store st' idx) (nat (DBC_len st' idx)) (Some 9) True ex_state
    }) (\<lambda>s'. holds small_group s' 2 (aff_smul 11 1 15 (Aff 5 2)))"
proof -
  have "\<not> Z1of ex_state 1" by (simp add: ex_state_def ex_point_def)
  then have "returns (do {
      (idx, st') \<leftarrow> getEOSDBC real_floats 5 [0, 0, 0, 0, 15] fresh_search;
      DBC_POINT_mul small_group 2 1 (DBC_store st' idx) (nat (DBC_len st' idx)) (Some 9) True ex_state
    }) (\<lambda>s'. holds small_group s' 2 (gmul small_group (big_val [0, 0, 0, 0, 15]) (Aff 5 2)) \<and>
      (\<forall>b. b \<noteq> 2 \<and> b \<noteq> 9 \<longrightarrow> heap s' b = heap ex_state b))"
    by (intro getEOSDBC_then_DBC_POINT_mul [OF _ _ _ _ real_floats_ok real_bounds_ok real_15 fresh_rows_ok
        small_curve_ok ex_on(2) ex_holds(2,3)]) simp_all
  then show ?thesis by (elim returns_mono) (simp add: small_curve)
qed

section \<open>From right to left\<close>

text \<open>
C9: The program \<open>optimal_DBC2.cpp\<close>: its search leaves a chain of \<open>n\<close> in the buffer, and its
multiplication along the buffer, from the smallest term up, leaves \<open>n P\<close> in \<open>r\<close>; \<open>r\<close> may be the point
itself. The chain of a \<open>w_min\<close> that is marked null before the search would not be followed, which the
hypothesis on \<open>isNULL\<close> excludes; for a point with \<open>Z_is_one\<close> set, \<open>2 P\<close> must not be infinity, since a
flagged multiple is tripled in place. The conditions on \<open>n\<close> are those of \<open>getOptimalDBC\<close>.
\<close>

theorem getOptimalDBC2_then_DBC2_POINT_mul:
  assumes "INTS \<in> {5, 9, 13, 17}" "length n = INTS" "0 < big_val n" "6 * big_val n < 2 ^ (32 * INTS)"
    "no_lost_carry (mul_2 n)" "ilog 2 (2 * big_val n) log2B" "ilog 3 (2 * big_val n) log3B" "base_ok INTS st"
    "\<not> isNULL (w_min st)" "curve_ok g" "gon g P" "holds g s a P" "holds g s r R"
    "Z1of s a \<longrightarrow> gmul g 2 P \<noteq> Inf" "m \<noteq> a" "m \<noteq> r"
  shows "returns (do {
      st' \<leftarrow> getOptimalDBC2 INTS n log2B log3B st;
      DBC2_POINT_mul g r a (w_min st') (now_DBC st') (Some m) True s
    }) (\<lambda>s'. holds g s' r (gmul g (big_val n) P) \<and> (\<forall>b. b \<noteq> r \<and> b \<noteq> m \<longrightarrow> heap s' b = heap s b))"
proof -
  obtain st' cs where r: "getOptimalDBC2 INTS n log2B log3B st = Some st'" "cs \<noteq> []" "below (int (32 * INTS)) log3B cs"
    "cval cs = big_val n" "\<not> isNULL (w_min st')" "len (w_min st') = int (length cs)"
    "map (now_DBC st') [0..<length cs] = rev cs"
    by (rule second_search_result [OF search_okI [OF assms(1-7)] assms(8,9)])
  show ?thesis using DBC2_POINT_mul_holds [OF assms(10-13,15,16) r(5,6,7,2,3) assms(14)] r(1,4) by simp
qed

text \<open>The witness: \<open>11\<close> times the point \<open>(2, 7)\<close> at address 0, which is flagged, in place.\<close>

theorem getOptimalDBC2_then_DBC2_POINT_mul_witness:
  "\<exists>st. init_tables 5 fresh_search = Some st \<and> returns (do {
      st' \<leftarrow> getOptimalDBC2 5 [0, 0, 0, 0, 11] 4 2 st;
      DBC2_POINT_mul small_group 0 0 (w_min st') (now_DBC st') (Some 9) True ex_state
    }) (\<lambda>s'. holds small_group s' 0 (aff_smul 11 1 11 (Aff 2 7)))"
proof -
  obtain st where st: "init_tables 5 fresh_search = Some st" "base_ok 5 st" using fresh_init by blast
  have "\<not> isNULL (w_min st)" using init_min [OF st(1)] by (simp add: fresh_search_def new_DBC_def)
  moreover have "no_lost_carry (mul_2 [0, 0, 0, 0, 11])" by code_simp
  moreover have "gmul small_group 2 (Aff 2 7) \<noteq> Inf" unfolding small_curve by code_simp
  ultimately have "returns (do {
      st' \<leftarrow> getOptimalDBC2 5 [0, 0, 0, 0, 11] 4 2 st;
      DBC2_POINT_mul small_group 0 0 (w_min st') (now_DBC st') (Some 9) True ex_state
    }) (\<lambda>s'. holds small_group s' 0 (gmul small_group (big_val [0, 0, 0, 0, 11]) (Aff 2 7)) \<and>
      (\<forall>b. b \<noteq> 0 \<and> b \<noteq> 9 \<longrightarrow> heap s' b = heap ex_state b))"
    by (intro getOptimalDBC2_then_DBC2_POINT_mul [OF _ _ _ _ _ _ _ st(2) _ small_curve_ok ex_on(1) ex_holds(1,1)])
      (simp_all add: ilog_def)
  then have "returns (do {
      st' \<leftarrow> getOptimalDBC2 5 [0, 0, 0, 0, 11] 4 2 st;
      DBC2_POINT_mul small_group 0 0 (w_min st') (now_DBC st') (Some 9) True ex_state
    }) (\<lambda>s'. holds small_group s' 0 (aff_smul 11 1 11 (Aff 2 7)))"
    by (elim returns_mono) (simp add: small_curve)
  then show ?thesis using st(1) by blast
qed

section \<open>fastecdsa\<close>

text \<open>
C12: The scalar multiplication of \<open>curveMath.c\<close>, a Montgomery ladder on affine points with \<open>(0, 0)\<close> for
infinity, computes \<open>k P\<close> for every \<open>k > 0\<close> and every point of a curve that \<open>(0, 0)\<close> is not on; for \<open>k = 0\<close>
it returns the point itself instead of infinity.
\<close>

theorem pointZZ_pMul_correct:
  assumes "gmp_ok F" "same_curve curve g" "gon g (zz_point P)" "0 \<le> k"
  shows "zz_point (pointZZ_pMul F curve P k) = (if k = 0 then zz_point P else gmul g k (zz_point P))"
  using pointZZ_pMul_law(1) [OF assms(1-3), of k] pointZZ_pMul_law(2) [OF assms(1-3)] assms(4) by (cases "k = 0") simp_all

definition ex_curve :: curve_zz where
  "ex_curve = \<lparr>zz_p = 11, zz_a = - 10, zz_b = 6, zz_q = 13, zz_g = \<lparr>zx = 5, zy = 2\<rparr>\<rparr>"

lemma ex_same_curve: "same_curve ex_curve small_group" "same_curve ex_curve ex_dsa"
  using small_curve_ok ex_dsa_ok by (simp_all add: same_curve_def ex_curve_def small_curve eqm_def dsa_group_def)

lemma ex_same_dsa: "same_dsa ex_curve ex_dsa (Aff 5 2)"
  using ex_same_curve(2) by (simp add: same_dsa_def) (simp add: ex_curve_def zz_point_def)

theorem pointZZ_pMul_correct_witness:
  "zz_point (pointZZ_pMul plain_gmp ex_curve \<lparr>zx = 5, zy = 2\<rparr> 11) = aff_smul 11 1 11 (Aff 5 2)"
proof -
  have "gon small_group (zz_point \<lparr>zx = 5, zy = 2\<rparr>)" using ex_on(2) by (simp add: zz_point_def)
  from pointZZ_pMul_correct [OF plain_gmp_ok(1) ex_same_curve(1) this, of 11]
  show ?thesis by (simp add: small_curve) (simp add: zz_point_def)
qed

text \<open>
C10: Two implementations agree: for a signature in range, the verifier of \<open>_ecdsa.c\<close>, which uses Shamir's trick on
affine points and the hexadecimal digits of the digest, accepts exactly what \<open>ossl_ecdsa_simple_verify_sig\<close>
accepts, which uses interleaved digits on Jacobian points and the bytes of the digest.
\<close>

theorem verifyZZ_p_agrees_with_openssl:
  assumes "gmp_ok F" "gmp_text_ok F" "same_dsa curve g G" "hex_of dgst msg" "dgst \<noteq> []" "zz_point P = Q"
    "0 < r" "r < g_order g" "0 < s" "s < g_order g"
    "dsa_group g gen G" "k_group key = Some g" "pub_key key = Some a" "holds g st gen G" "holds g st a Q" "gon g Q"
    "b \<noteq> gen" "b \<noteq> a" "{a, gen, b} \<inter> set fresh = {}" "distinct fresh" "65 \<le> length fresh" "rng_avail g 3 (rng st)"
  shows "verifyZZ_p F curve (r, s) msg P \<longleftrightarrow>
    ossl_ecdsa_simple_verify_sig dgst (Some (r, s)) (Some key) (Some b) fresh True st = 1"
proof -
  have "zz_q curve = g_order g" "0 < g_order g" using assms(3,7,8) by (simp_all add: same_dsa_def)
  then have "zz_digest F curve msg = digest_to_m (g_order g) dgst" using zz_digest_value [OF assms(1,2,4,5), of curve] by simp
  moreover have "gon g (zz_point P)" using assms(6,16) by simp
  ultimately show ?thesis
    using verifyZZ_p_law [OF assms(1,3,11) _ assms(7-10), of P msg] verify_holds [OF assms(11-22), of dgst "(r, s)"] assms(6) by simp
qed

lemma ex_hex: "hex_of [0x8f] ''8f''" "[0x8f :: 8 word] \<noteq> []"
  by code_simp simp

text \<open>The witness: both accept \<open>(7, 6)\<close> for the digest \<open>8f\<close>.\<close>

theorem verifyZZ_p_agrees_with_openssl_witness:
  "verifyZZ_p plain_gmp ex_curve (7, 6) ''8f'' \<lparr>zx = 2, zy = 7\<rparr> \<longleftrightarrow>
    ossl_ecdsa_simple_verify_sig [0x8f] (Some (7, 6)) (Some ex_dsa_key) (Some 9) [10..<75] True ex_dsa_state = 1"
  by (rule verifyZZ_p_agrees_with_openssl [OF plain_gmp_ok ex_same_dsa ex_hex _ _ _ _ _ ex_dsa_ok, where Q = "Aff 2 7" and a = 0])
    (use ex_holds ex_dsa_avail in \<open>simp_all add: ex_dsa_holds red_def eqm_def zz_point_def\<close>)

text \<open>
C11: What one implementation signs the other accepts: a signature that \<open>signZZ_p\<close> computes with a nonce
that the order does not divide, neither part zero, is accepted by \<open>ossl_ecdsa_simple_verify_sig\<close> for the same
digest and the public point of the private scalar, and by \<open>verifyZZ_p\<close>. The nonce may exceed the order, as the one
that the Python code passes does.
\<close>

theorem signZZ_p_then_verify:
  assumes "gmp_ok F" "gmp_text_ok F" "same_dsa curve g G" "hex_of dgst msg" "dgst \<noteq> []" "zz_point P = gmul g d G"
    "0 < k" "\<not> g_order g dvd k" "signZZ_p F curve msg d k = (r, s)" "r \<noteq> 0" "s \<noteq> 0"
    "dsa_group g gen G" "k_group key = Some g" "pub_key key = Some a" "holds g st gen G" "holds g st a (gmul g d G)"
    "b \<noteq> gen" "b \<noteq> a" "{a, gen, b} \<inter> set fresh = {}" "distinct fresh" "65 \<le> length fresh" "rng_avail g 3 (rng st)"
  shows "verifyZZ_p F curve (r, s) msg P \<and>
    ossl_ecdsa_simple_verify_sig dgst (Some (r, s)) (Some key) (Some b) fresh True st = 1"
proof -
  have G: "curve_ok g" "gon g G" using assms(12) by (simp_all add: dsa_group_def)
  have q: "zz_q curve = g_order g" "0 < g_order g" using assms(3,12) by (simp_all add: same_dsa_def dsa_group_def)
  then have m: "zz_digest F curve msg = digest_to_m (g_order g) dgst" using zz_digest_value [OF assms(1,2,4,5), of curve] by simp
  note sig = signed_check [OF assms(1,3,12,7,8,9,10,11)]
  have "verifyZZ_p F curve (r, s) msg P" by (rule sign_then_verify_law [OF assms(1,3,12,7,8,6,9,10,11)])
  moreover have "ossl_ecdsa_simple_verify_sig dgst (Some (r, s)) (Some key) (Some b) fresh True st = 1"
    using verify_holds [OF assms(12-16) gon_mul [OF G] assms(17-22), of dgst "(r, s)"] sig m by simp
  ultimately show ?thesis ..
qed

theorem signZZ_p_then_verify_witness:
  "signZZ_p plain_gmp ex_curve ''8f'' 7 16 = (7, 6) \<and> verifyZZ_p plain_gmp ex_curve (7, 6) ''8f'' \<lparr>zx = 2, zy = 7\<rparr> \<and>
    ossl_ecdsa_simple_verify_sig [0x8f] (Some (7, 6)) (Some ex_dsa_key) (Some 9) [10..<75] True ex_dsa_state = 1"
proof -
  have sig: "signZZ_p plain_gmp ex_curve ''8f'' 7 16 = (7, 6)"
    using signZZ_p_law [OF plain_gmp_ok(1) ex_same_dsa ex_dsa_ok, where k = 16 and d = 7 and msg = "''8f''"] ecdsa_sig_mod [OF ex_dsa_ok, where k = 16 and m = 8 and d = 7]
      zz_digest_value [OF plain_gmp_ok ex_hex, where curve = ex_curve] by (simp add: ex_dsa_sig ex_curve_def)
  have pub: "zz_point \<lparr>zx = 2, zy = 7\<rparr> = gmul ex_dsa 7 (Aff 5 2)" by code_simp
  have "Aff 2 7 = gmul ex_dsa 7 (Aff 5 2)" unfolding pub [symmetric] by (simp add: zz_point_def)
  then have "holds ex_dsa ex_dsa_state 0 (gmul ex_dsa 7 (Aff 5 2))" using ex_holds(1) by (simp add: ex_dsa_holds)
  from signZZ_p_then_verify [OF plain_gmp_ok ex_same_dsa ex_hex pub _ _ sig _ _ ex_dsa_ok _ _ _ this,
      where key = ex_dsa_key and b = 9 and fresh = "[10..<75]"]
  show ?thesis using sig ex_holds ex_dsa_avail [of 3] by (simp add: ex_dsa_holds)
qed

end
